(* ===== verification/Ids.thy ===== *)
theory Ids
  imports Prelude
begin

text \<open>
  Canonical 128-bit identifiers (\<open>crates/core/src/ids.rs\<close>). The macro \<open>define_id128!\<close> declares
  five structurally equal newtypes over \<open>[u8; 16]\<close>; here one datatype with a phantom parameter
  carries the same distinction, and an \<open>id_spec\<close> carries the two macro literals (kind and
  prefix). A string is the list of its UTF-8 bytes.

  Shown: printing and parsing are inverse, parsing accepts exactly a prefix followed by 32
  hexadecimal bytes and reports the first offending offset otherwise, and the integer view
  (network byte order) is a bijection.
\<close>

type_synonym u128 = "128 word"

datatype 'k id128 = Id128 (into_bytes: bytes)

datatype machine_tag = MachineTag
datatype volume_tag = VolumeTag
datatype file_tag = FileTag
datatype link_tag = LinkTag
datatype document_tag = DocumentTag

type_synonym MachineId = "machine_tag id128"
type_synonym VolumeId = "volume_tag id128"
type_synonym FileId128 = "file_tag id128"
type_synonym FileLinkId = "link_tag id128"
type_synonym DocumentId = "document_tag id128"

record id_spec =
  id_kind :: string
  id_prefix :: string

definition machine_id_spec :: id_spec where
  "machine_id_spec = \<lparr>id_kind = ''machine ID'', id_prefix = ''machine:''\<rparr>"
definition volume_id_spec :: id_spec where
  "volume_id_spec = \<lparr>id_kind = ''volume ID'', id_prefix = ''volume:''\<rparr>"
definition file_id_spec :: id_spec where
  "file_id_spec = \<lparr>id_kind = ''file ID'', id_prefix = ''file:''\<rparr>"
definition link_id_spec :: id_spec where
  "link_id_spec = \<lparr>id_kind = ''file-link ID'', id_prefix = ''link:''\<rparr>"
definition document_id_spec :: id_spec where
  "document_id_spec = \<lparr>id_kind = ''document ID'', id_prefix = ''document:''\<rparr>"

definition HEX_LENGTH :: nat where "HEX_LENGTH = 32"

text \<open>The derived \<open>Ord\<close> compares the byte arrays lexicographically, as SQLite compares BLOBs.\<close>

instantiation id128 :: (type) linorder
begin

definition less_eq_id128 :: "'a id128 \<Rightarrow> 'a id128 \<Rightarrow> bool" where
  "less_eq_id128 a b \<longleftrightarrow> into_bytes a \<le> into_bytes b"

definition less_id128 :: "'a id128 \<Rightarrow> 'a id128 \<Rightarrow> bool" where
  "less_id128 a b \<longleftrightarrow> into_bytes a < into_bytes b"

instance
  by standard (auto simp: less_eq_id128_def less_id128_def id128.expand)

end

definition from_bytes :: "bytes \<Rightarrow> 'k id128" where
  "from_bytes bs = Id128 bs"

definition from_u128 :: "u128 \<Rightarrow> 'k id128" where
  "from_u128 v = Id128 (be_bytes 16 (unat v))"

definition as_u128 :: "'k id128 \<Rightarrow> u128" where
  "as_u128 i = of_nat (be_nat (into_bytes i))"

definition wf_id :: "'k id128 \<Rightarrow> bool" where
  "wf_id i \<longleftrightarrow> length (into_bytes i) = 16"

record FileKey =
  fk_volume_id :: VolumeId
  fk_file_id :: FileId128

record CatalogIdentity =
  ci_object_key :: FileKey
  ci_file_link_id :: FileLinkId
  ci_document_id :: DocumentId

section \<open>Text form\<close>

datatype IdParseError =
    InvalidPrefix string string
  | InvalidLength string nat nat
  | InvalidHex string nat u8

definition hex_digit :: "nat \<Rightarrow> char" where
  "hex_digit n = (if n < 10 then char_of (48 + n) else char_of (87 + n))"

definition hex_byte :: "u8 \<Rightarrow> string" where
  "hex_byte b = [hex_digit (unat b div 16), hex_digit (unat b mod 16)]"

definition display_id :: "id_spec \<Rightarrow> 'k id128 \<Rightarrow> string" where
  "display_id spec i = id_prefix spec @ concat (map hex_byte (into_bytes i))"

definition hex_nibble :: "u8 \<Rightarrow> u8 option" where
  "hex_nibble b =
     (if 48 \<le> b \<and> b \<le> 57 then Some (b - 48)
      else if 97 \<le> b \<and> b \<le> 102 then Some (b - 97 + 10)
      else if 65 \<le> b \<and> b \<le> 70 then Some (b - 65 + 10)
      else None)"

definition as_bytes :: "string \<Rightarrow> bytes" where
  "as_bytes s = map of_char s"

fun strip_prefix :: "string \<Rightarrow> string \<Rightarrow> string option" where
  "strip_prefix [] s = Some s"
| "strip_prefix (p # ps) [] = None"
| "strip_prefix (p # ps) (c # cs) = (if p = c then strip_prefix ps cs else None)"

fun decode_hex :: "string \<Rightarrow> nat \<Rightarrow> bytes \<Rightarrow> IdParseError + bytes" where
  "decode_hex kind off (h # l # rest) =
     and_then (ok_or (hex_nibble h) (InvalidHex kind off h)) (\<lambda>high.
     and_then (ok_or (hex_nibble l) (InvalidHex kind (off + 1) l)) (\<lambda>low.
     and_then (decode_hex kind (off + 2) rest) (\<lambda>tail.
     Inr ((push_bit 4 high OR low) # tail))))"
| "decode_hex kind off _ = Inr []"

definition parse_id :: "id_spec \<Rightarrow> string \<Rightarrow> IdParseError + bytes" where
  "parse_id spec input =
     and_then (ok_or (strip_prefix (id_prefix spec) input)
                 (InvalidPrefix (id_kind spec) (id_prefix spec))) (\<lambda>payload.
     if length payload \<noteq> HEX_LENGTH
     then Inl (InvalidLength (id_kind spec) HEX_LENGTH (length payload))
     else decode_hex (id_kind spec) 0 (as_bytes payload))"

definition id_from_str :: "id_spec \<Rightarrow> string \<Rightarrow> IdParseError + 'k id128" where
  "id_from_str spec input = and_then (parse_id spec input) (\<lambda>bs. Inr (Id128 bs))"

section \<open>Lemmas\<close>

lemma strip_prefix_append [simp]: "strip_prefix p (p @ s) = Some s"
  by (induction p) simp_all

lemma strip_prefix_Some: "strip_prefix p s = Some t \<longleftrightarrow> s = p @ t"
  by (induction p s rule: strip_prefix.induct) auto

lemma hex_nibble_hex_digit:
  assumes "n < 16"
  shows "hex_nibble (of_char (hex_digit n)) = Some (of_nat n)"
proof (cases "n < 10")
  case True
  have "unat (of_nat (48 + n) :: u8) = 48 + n"
    using assms by (simp only: unat_of_nat_u8) simp
  then have "(48 :: u8) \<le> of_nat (48 + n) \<and> (of_nat (48 + n) :: u8) \<le> 57"
    using True by (simp only: word_le_nat_alt) simp
  then show ?thesis
    using True by (simp add: hex_digit_def hex_nibble_def of_char_char_of)
next
  case False
  have "unat (of_nat (87 + n) :: u8) = 87 + n"
    using assms by (simp only: unat_of_nat_u8) simp
  then have "(97 :: u8) \<le> of_nat (87 + n) \<and> (of_nat (87 + n) :: u8) \<le> 102
      \<and> \<not> (of_nat (87 + n) :: u8) \<le> 57"
    using False assms by (simp only: word_le_nat_alt) simp
  then show ?thesis
    using False assms by (simp add: hex_digit_def hex_nibble_def of_char_char_of)
qed

lemma nibbles_of_byte:
  "push_bit 4 (of_nat (unat b div 16)) OR of_nat (unat b mod 16) = (b :: u8)"
proof -
  have "(of_nat (unat b div 16) :: u8) = drop_bit 4 b"
    by (rule word_unat_eq_iff [THEN iffD2])
       (use unat_u8_less [of b] in \<open>simp add: unat_div drop_bit_eq_div unat_of_nat_u8\<close>)
  moreover have "(of_nat (unat b mod 16) :: u8) = take_bit 4 b"
    by (rule word_unat_eq_iff [THEN iffD2])
       (simp add: take_bit_eq_mod unat_mod unat_of_nat_u8)
  moreover have "push_bit 4 (drop_bit 4 b) OR take_bit 4 b = b"
    by (rule bit_word_eqI) (auto simp: bit_simps)
  ultimately show ?thesis by simp
qed

lemma length_hex_bytes: "length (concat (map hex_byte bs)) = 2 * length bs"
  by (induction bs) (simp_all add: hex_byte_def)

lemma decode_hex_hex_bytes:
  "decode_hex kind off (as_bytes (concat (map hex_byte bs))) = Inr bs"
proof (induction bs arbitrary: off)
  case Nil
  then show ?case by (simp add: as_bytes_def)
next
  case (Cons b bs)
  have "unat b div 16 < 16" "unat b mod 16 < 16"
    using unat_u8_less [of b] by (simp_all add: less_mult_imp_div_less)
  then show ?case
    using Cons [of "off + 2"]
    by (simp add: as_bytes_def hex_byte_def hex_nibble_hex_digit nibbles_of_byte)
qed

text \<open>The canonical text is lower case; parsing also accepts upper-case digits.\<close>

definition ascii_lower :: "char \<Rightarrow> char" where
  "ascii_lower c = (let n = (of_char c :: nat) in if 65 \<le> n \<and> n \<le> 90 then char_of (n + 32) else c)"

lemma unat_of_char: "unat (of_char c :: u8) = of_char c"
proof -
  have "(of_char c :: u8) = of_nat (of_char c)" by (simp only: of_nat_of_char)
  moreover have "(of_char c :: nat) < 256" by simp
  ultimately show ?thesis by (metis unat_of_nat_u8 mod_less)
qed

lemma hex_nibble_Some:
  assumes "hex_nibble (of_char c) = Some v"
  shows "unat v < 16 \<and> hex_digit (unat v) = ascii_lower c"
proof -
  let ?n = "of_char c :: nat"
  have c: "c = char_of ?n" by simp
  from assms consider (dec) "48 \<le> ?n" "?n \<le> 57" "v = of_char c - 48"
    | (low) "97 \<le> ?n" "?n \<le> 102" "v = of_char c - 97 + 10"
    | (upp) "65 \<le> ?n" "?n \<le> 70" "v = of_char c - 65 + 10"
    by (auto simp: hex_nibble_def word_le_nat_alt unat_of_char split: if_splits)
  then show ?thesis
  proof cases
    case dec
    then have "unat v = ?n - 48" by (simp add: unat_sub word_le_nat_alt unat_of_char)
    moreover have "?n - 48 < 10" using dec by arith
    ultimately show ?thesis using dec by (simp add: hex_digit_def ascii_lower_def)
  next
    case low
    then have "unat v = ?n - 97 + 10"
      by (simp add: unat_sub word_le_nat_alt unat_of_char unat_word_ariths)
    moreover have "\<not> ?n - 97 + 10 < 10" "?n - 97 + 10 < 16" "87 + (?n - 97 + 10) = ?n"
      using low by arith+
    ultimately show ?thesis using low by (simp only: hex_digit_def ascii_lower_def) simp
  next
    case upp
    then have "unat v = ?n - 65 + 10"
      by (simp add: unat_sub word_le_nat_alt unat_of_char unat_word_ariths)
    moreover have "\<not> ?n - 65 + 10 < 10" "?n - 65 + 10 < 16" "87 + (?n - 65 + 10) = ?n + 32"
      using upp by arith+
    ultimately show ?thesis using upp by (simp only: hex_digit_def ascii_lower_def) simp
  qed
qed

lemma hex_byte_of_nibbles:
  assumes "unat h < 16" and "unat l < 16"
  shows "hex_byte (push_bit 4 h OR l) = [hex_digit (unat h), hex_digit (unat l)]"
proof -
  have "take_bit 4 l = l"
    by (rule word_unat_eq_iff [THEN iffD2]) (use assms in \<open>simp add: take_bit_eq_mod unat_mod\<close>)
  moreover have "\<not> bit (push_bit 4 h) n \<or> \<not> bit (take_bit 4 l) n" for n
    by (auto simp: bit_simps)
  ultimately have "push_bit 4 h OR l = push_bit 4 h + l"
    by (metis disjunctive_add)
  moreover have "unat (push_bit 4 h + l) = 16 * unat h + unat l"
    using assms by (simp add: push_bit_eq_mult unat_word_ariths)
  ultimately show ?thesis using assms by (simp add: hex_byte_def)
qed

lemma decode_hex_sound:
  assumes "decode_hex kind off (as_bytes p) = Inr bs" and "even (length p)"
  shows "2 * length bs = length p \<and> concat (map hex_byte bs) = map ascii_lower p"
  using assms
proof (induction kind off "as_bytes p" arbitrary: p bs rule: decode_hex.induct)
  case (1 kind off h l rest)
  from "1.hyps"(2) obtain c d p' where p: "p = c # d # p'" "h = of_char c" "l = of_char d"
      "rest = as_bytes p'"
    by (auto simp: as_bytes_def)
  from "1.prems"(1) p obtain high low tail where d: "hex_nibble (of_char c) = Some high"
      "hex_nibble (of_char d) = Some low" "decode_hex kind (off + 2) (as_bytes p') = Inr tail"
      "bs = (push_bit 4 high OR low) # tail"
    by (auto simp: as_bytes_def result_simps)
  have "2 * length tail = length p' \<and> concat (map hex_byte tail) = map ascii_lower p'"
    by (rule "1.hyps"(1)) (use d p "1.prems" in auto)
  then show ?case
    using d p hex_nibble_Some [OF d(1)] hex_nibble_Some [OF d(2)]
    by (simp add: hex_byte_of_nibbles)
qed (auto simp: as_bytes_def)

lemma decode_hex_complete:
  assumes "\<forall>b \<in> set bs. hex_nibble b \<noteq> None"
  shows "\<exists>ds. decode_hex kind off bs = Inr ds"
  using assms by (induction kind off bs rule: decode_hex.induct) (fastforce simp: result_simps)+

lemma decode_hex_nibbles:
  assumes "decode_hex kind off bs = Inr ds" and "even (length bs)" and "b \<in> set bs"
  shows "hex_nibble b \<noteq> None"
  using assms
  by (induction kind off bs arbitrary: ds rule: decode_hex.induct) (auto simp: result_simps)

lemma decode_hex_error:
  assumes "decode_hex kind off bs = Inl e"
  shows "\<exists>i. i < length bs \<and> e = InvalidHex kind (off + i) (bs ! i) \<and> hex_nibble (bs ! i) = None
    \<and> (\<forall>j < i. hex_nibble (bs ! j) \<noteq> None)"
  using assms
proof (induction kind off bs rule: decode_hex.induct)
  case (1 kind off h l rest)
  consider (high) "hex_nibble h = None" | (low) "hex_nibble h \<noteq> None" "hex_nibble l = None"
    | (tail) high low where "hex_nibble h = Some high" "hex_nibble l = Some low"
    by auto
  then show ?case
  proof cases
    case high
    with "1.prems" show ?thesis by (intro exI [of _ 0]) (simp add: result_simps)
  next
    case low
    with "1.prems" show ?thesis
      by (intro exI [of _ 1]) (auto simp: result_simps)
  next
    case tail
    with "1.prems" have "decode_hex kind (off + 2) rest = Inl e"
      by (auto simp: result_simps)
    from "1.IH" [OF this] obtain i where i: "i < length rest"
        "e = InvalidHex kind (off + 2 + i) (rest ! i)" "hex_nibble (rest ! i) = None"
        "\<forall>j < i. hex_nibble (rest ! j) \<noteq> None" by blast
    have "hex_nibble ((h # l # rest) ! j) \<noteq> None" if "j < i + 2" for j
      using that i(4) tail by (cases j; cases "j - 1") auto
    with i show ?thesis by (intro exI [of _ "i + 2"]) auto
  qed
qed simp_all

lemma as_bytes_simps [simp]: "length (as_bytes p) = length p"
  "as_bytes (p @ q) = as_bytes p @ as_bytes q"
  by (simp_all add: as_bytes_def)

section \<open>Properties\<close>

text \<open>Printing an identifier and parsing the text again gives the same identifier, for every
  identifier kind.\<close>

theorem id_display_parse_round_trip:
  assumes "wf_id i"
  shows "id_from_str spec (display_id spec i) = Inr i"
  using assms
  by (cases i) (simp add: id_from_str_def display_id_def parse_id_def wf_id_def HEX_LENGTH_def
      length_hex_bytes decode_hex_hex_bytes)

theorem id_display_parse_round_trip_witness:
  "wf_id (from_u128 258 :: VolumeId)
   \<and> id_from_str volume_id_spec (display_id volume_id_spec (from_u128 258 :: VolumeId)) = Inr (from_u128 258 :: VolumeId)"
proof -
  have w: "wf_id (from_u128 258 :: VolumeId)" by (simp add: wf_id_def from_u128_def)
  show ?thesis using w id_display_parse_round_trip [OF w] by simp
qed

text \<open>Parsing accepts exactly the required prefix followed by 32 hexadecimal bytes; what it
  accepts denotes 16 bytes whose canonical text is the input with its digits in lower case.\<close>

theorem id_parse_accepts:
  "(\<exists>i. id_from_str spec s = Inr i \<and> wf_id (i :: 'k id128)
      \<and> display_id spec i = id_prefix spec @ map ascii_lower (drop (length (id_prefix spec)) s))
   \<longleftrightarrow> (\<exists>p. s = id_prefix spec @ p \<and> length p = 32 \<and> (\<forall>b \<in> set (as_bytes p). hex_nibble b \<noteq> None))"
  (is "?accepts \<longleftrightarrow> ?shape")
proof
  assume ?accepts
  then obtain i :: "'k id128" where "id_from_str spec s = Inr i" by blast
  then obtain p bs where p: "s = id_prefix spec @ p" "length p = 32"
      "decode_hex (id_kind spec) 0 (as_bytes p) = Inr bs"
    by (auto simp: id_from_str_def parse_id_def result_simps strip_prefix_Some HEX_LENGTH_def
        split: if_splits)
  then show ?shape using decode_hex_nibbles [OF p(3)] by auto
next
  assume ?shape
  then obtain p where p: "s = id_prefix spec @ p" "length p = 32"
      "\<forall>b \<in> set (as_bytes p). hex_nibble b \<noteq> None" by blast
  from decode_hex_complete [OF p(3)] obtain bs
    where bs: "decode_hex (id_kind spec) 0 (as_bytes p) = Inr bs" by blast
  with decode_hex_sound [OF bs] p show ?accepts
    by (intro exI [of _ "Id128 bs"])
       (simp add: id_from_str_def parse_id_def display_id_def wf_id_def HEX_LENGTH_def)
qed

theorem id_parse_accepts_witness:
  "\<exists>i. id_from_str volume_id_spec (''volume:'' @ replicate 32 CHR ''0'') = Inr i \<and> wf_id (i :: VolumeId)
     \<and> display_id volume_id_spec i = ''volume:'' @ replicate 32 CHR ''0''"
proof -
  let ?s = "''volume:'' @ replicate 32 CHR ''0''"
  have "\<exists>p. ?s = id_prefix volume_id_spec @ p \<and> length p = 32
      \<and> (\<forall>b \<in> set (as_bytes p). hex_nibble b \<noteq> None)"
    by (rule exI [of _ "replicate 32 CHR ''0''"])
       (simp add: volume_id_spec_def as_bytes_def hex_nibble_def)
  moreover have "id_prefix volume_id_spec @ map ascii_lower (drop (length (id_prefix volume_id_spec)) ?s) = ?s"
    by (simp add: volume_id_spec_def ascii_lower_def)
  ultimately show ?thesis
    using id_parse_accepts [of volume_id_spec ?s] by metis
qed

text \<open>A payload of the right length that is not hexadecimal is rejected with the offset and
  the value of its first offending byte.\<close>

theorem id_parse_first_offender:
  assumes "length p = 32"
  shows "parse_id spec (id_prefix spec @ p) = Inl e \<longleftrightarrow>
    (\<exists>i < 32. e = InvalidHex (id_kind spec) i (as_bytes p ! i) \<and> hex_nibble (as_bytes p ! i) = None
       \<and> (\<forall>j < i. hex_nibble (as_bytes p ! j) \<noteq> None))"
proof -
  let ?d = "decode_hex (id_kind spec) 0 (as_bytes p)"
  have eq: "parse_id spec (id_prefix spec @ p) = ?d"
    using assms by (simp add: parse_id_def HEX_LENGTH_def)
  have err: "?d = Inl e \<Longrightarrow> \<exists>i < 32. e = InvalidHex (id_kind spec) i (as_bytes p ! i)
      \<and> hex_nibble (as_bytes p ! i) = None \<and> (\<forall>j < i. hex_nibble (as_bytes p ! j) \<noteq> None)" for e
    using decode_hex_error [of "id_kind spec" 0 "as_bytes p"] assms by fastforce
  show ?thesis
  proof (unfold eq, rule iffI [OF err])
    assume "\<exists>i < 32. e = InvalidHex (id_kind spec) i (as_bytes p ! i)
      \<and> hex_nibble (as_bytes p ! i) = None \<and> (\<forall>j < i. hex_nibble (as_bytes p ! j) \<noteq> None)"
    then obtain i where i: "i < 32" "e = InvalidHex (id_kind spec) i (as_bytes p ! i)"
      "hex_nibble (as_bytes p ! i) = None" "\<forall>j < i. hex_nibble (as_bytes p ! j) \<noteq> None" by blast
    have "?d \<noteq> Inr ds" for ds
      using decode_hex_nibbles [of "id_kind spec" 0 "as_bytes p" ds "as_bytes p ! i"] i assms by auto
    then obtain e' where e': "?d = Inl e'" by (cases ?d) auto
    from err [OF this] obtain k where k: "k < 32" "e' = InvalidHex (id_kind spec) k (as_bytes p ! k)"
      "hex_nibble (as_bytes p ! k) = None" "\<forall>j < k. hex_nibble (as_bytes p ! j) \<noteq> None" by blast
    have "k = i" using i k by (metis linorder_neqE_nat)
    with e' i k show "?d = Inl e" by simp
  qed simp
qed

theorem id_parse_first_offender_witness:
  "length (replicate 31 CHR ''0'' @ ''g'') = 32
   \<and> parse_id file_id_spec (id_prefix file_id_spec @ replicate 31 CHR ''0'' @ ''g'')
       = Inl (InvalidHex ''file ID'' 31 103)"
proof -
  let ?p = "replicate 31 CHR ''0'' @ ''g''"
  have l: "length ?p = 32" by simp
  have "hex_nibble (as_bytes ?p ! j) \<noteq> None" if "j < 31" for j
    using that by (simp add: as_bytes_def nth_append hex_nibble_def)
  moreover have "as_bytes ?p ! 31 = 103" "hex_nibble 103 = None"
    by (simp_all add: as_bytes_def nth_append hex_nibble_def)
  ultimately have "\<exists>i < 32. InvalidHex ''file ID'' 31 103 = InvalidHex (id_kind file_id_spec) i (as_bytes ?p ! i)
      \<and> hex_nibble (as_bytes ?p ! i) = None \<and> (\<forall>j < i. hex_nibble (as_bytes ?p ! j) \<noteq> None)"
    by (intro exI [of _ 31]) (simp add: file_id_spec_def)
  then show ?thesis using id_parse_first_offender [OF l, of file_id_spec] l by blast
qed

text \<open>The integer view in network byte order is a bijection between identifiers and 128-bit
  integers.\<close>

theorem id_u128_bijection:
  "as_u128 (from_u128 v) = v \<and> (wf_id i \<longleftrightarrow> from_u128 (as_u128 i) = i)"
proof -
  have "unat v < 256 ^ 16" using unsigned_less [of v] by simp
  then have "as_u128 (from_u128 v) = v"
    by (simp add: as_u128_def from_u128_def be_nat_be_bytes)
  moreover have "from_u128 (as_u128 i) = i" if "wf_id i"
  proof -
    have "be_nat (into_bytes i) < 256 ^ 16"
      using le_nat_less [of "rev (into_bytes i)"] that by (simp add: be_nat_def wf_id_def)
    then have "unat (of_nat (be_nat (into_bytes i)) :: u128) = be_nat (into_bytes i)"
      by (simp add: unat_of_nat)
    then show ?thesis
      using be_bytes_be_nat [of "into_bytes i"] that
      by (cases i) (simp add: as_u128_def from_u128_def wf_id_def)
  qed
  moreover have "wf_id (from_u128 w)" for w by (simp add: wf_id_def from_u128_def)
  ultimately show ?thesis by metis
qed

end
