(* ===== verification/Core_Models.thy ===== *)
theory Core_Models
  imports Ids
begin

text \<open>
  The backend-neutral domain model (\<open>crates/core/src/models.rs\<close>, \<open>versions.rs\<close>, \<open>errors.rs\<close>):
  metadata, filesystem events, catalog documents, index mutations and the mutation batch with its
  sequencing check. Rust struct fields carry a prefix naming their struct, because record fields
  share one name space.

  Shown: \<open>MutationBatch::validate\<close> accepts exactly the non-empty runs of consecutive sequence
  numbers that stay below the largest \<open>u64\<close>.
\<close>

section \<open>Errors and versions\<close>

datatype ErrorCode =
    EcInvalidRequest | EcUnsupportedProtocolVersion | EcUnsupportedCapability | EcUnauthorized
  | EcForbidden | EcQueryPolicyRejected | EcDeadlineExceeded | EcCancelled | EcNotFound
  | EcUnavailable | EcIndexNotReady | EcResourceExhausted | EcInternal

datatype DomainError =
    InvalidId IdParseError
  | InvalidRequest string
  | UnsupportedProtocolVersion u32 u32
  | UnsupportedCapability string
  | Unauthorized
  | Forbidden
  | QueryPolicyRejected string
  | DeadlineExceeded
  | Cancelled
  | NotFound string
  | DomainUnavailable string
  | IndexNotReady
  | ResourceExhausted string
  | DomainInternal

fun domain_error_code :: "DomainError \<Rightarrow> ErrorCode" where
  "domain_error_code (InvalidId _) = EcInvalidRequest"
| "domain_error_code (InvalidRequest _) = EcInvalidRequest"
| "domain_error_code (UnsupportedProtocolVersion _ _) = EcUnsupportedProtocolVersion"
| "domain_error_code (UnsupportedCapability _) = EcUnsupportedCapability"
| "domain_error_code Unauthorized = EcUnauthorized"
| "domain_error_code Forbidden = EcForbidden"
| "domain_error_code (QueryPolicyRejected _) = EcQueryPolicyRejected"
| "domain_error_code DeadlineExceeded = EcDeadlineExceeded"
| "domain_error_code Cancelled = EcCancelled"
| "domain_error_code (NotFound _) = EcNotFound"
| "domain_error_code (DomainUnavailable _) = EcUnavailable"
| "domain_error_code IndexNotReady = EcIndexNotReady"
| "domain_error_code (ResourceExhausted _) = EcResourceExhausted"
| "domain_error_code DomainInternal = EcInternal"

definition DOMAIN_SCHEMA_VERSION :: u32 where "DOMAIN_SCHEMA_VERSION = 1"
definition AGENT_PROTOCOL_VERSION :: u32 where "AGENT_PROTOCOL_VERSION = 1"

datatype IndexGeneration = IndexGeneration (generation_value: u64)
datatype MutationSeq = MutationSeq (seq_value: u64)
datatype DocumentVersion = DocumentVersion (version_value: u64)

section \<open>Filesystem observations\<close>

datatype FileKind = File | Directory | Symlink | Special | OtherKind

datatype Availability = Online | Offline | UnknownAvailability

record FileMetadata =
  md_kind :: FileKind
  md_size :: u64
  md_created_at_unix_ms :: "i64 option"
  md_modified_at_unix_ms :: "i64 option"
  md_hidden :: bool
  md_availability :: Availability

record FileObjectSnapshot =
  obj_object_key :: FileKey
  obj_metadata :: FileMetadata

record FileLinkSnapshot =
  lnk_file_link_id :: FileLinkId
  lnk_object_key :: FileKey
  lnk_parent_key :: "FileKey option"
  lnk_name :: string

datatype ReconciliationReason =
  SourceHistoryUnavailable | EventOverflow | InconsistentSnapshot | ProviderRequested

datatype FilesystemEvent =
    ObjectObserved FileObjectSnapshot
  | LinkObserved FileLinkSnapshot
  | LinkRemoved FileLinkId FileKey
  | ObjectRemoved FileKey
  | ReconciliationRequired VolumeId ReconciliationReason

section \<open>Search\<close>

datatype SearchScope = All | Files | Folders

record SearchFilter =
  sf_extensions :: "string list"
  sf_directory_prefix :: "string option"
  sf_minimum_size :: "u64 option"
  sf_maximum_size :: "u64 option"

record SearchRequest =
  sr_query :: string
  sr_scope :: SearchScope
  sr_filters :: SearchFilter
  sr_top_k :: u16

datatype MatchType = ExactName | PrefixName | TokenName | SubstringName | PathMatch

section \<open>Catalog projection\<close>

record CatalogDocument =
  doc_identity :: CatalogIdentity
  doc_document_version :: DocumentVersion
  doc_name :: string
  doc_resolved_path :: string
  doc_extension :: "string option"
  doc_metadata :: FileMetadata

record SearchHit =
  hit_document_id :: DocumentId
  hit_object_key :: FileKey
  hit_file_link_id :: FileLinkId
  hit_name :: string
  hit_resolved_path :: string
  hit_extension :: "string option"
  hit_kind :: FileKind
  hit_size :: u64
  hit_modified_at_unix_ms :: "i64 option"
  hit_availability :: Availability
  hit_match_type :: MatchType
  hit_rank :: u32
  hit_ranking_version :: u32

record SearchResponse =
  resp_index_generation :: IndexGeneration
  resp_took_micros :: u64
  resp_hits :: "SearchHit list"

datatype IndexMutation =
    Upsert CatalogDocument
  | Delete DocumentId DocumentVersion

record SequencedMutation =
  sm_sequence :: MutationSeq
  sm_mutation :: IndexMutation

record MutationBatch =
  mb_mutations :: "SequencedMutation list"

fun validate_from :: "u64 \<Rightarrow> SequencedMutation list \<Rightarrow> DomainError + unit" where
  "validate_from expected [] = Inr ()"
| "validate_from expected (m # ms) =
     (if seq_value (sm_sequence m) \<noteq> expected
      then Inl (InvalidRequest ''mutation batch sequences must be strictly consecutive'')
      else and_then (ok_or (checked_add expected 1) (InvalidRequest ''mutation sequence overflow''))
             (\<lambda>expected'. validate_from expected' ms))"

definition batch_validate :: "MutationBatch \<Rightarrow> DomainError + unit" where
  "batch_validate b =
     (case mb_mutations b of
        [] \<Rightarrow> Inl (InvalidRequest ''mutation batch must not be empty'')
      | first # _ \<Rightarrow> validate_from (seq_value (sm_sequence first)) (mb_mutations b))"

definition first_sequence :: "MutationBatch \<Rightarrow> MutationSeq option" where
  "first_sequence b = (case mb_mutations b of [] \<Rightarrow> None | m # _ \<Rightarrow> Some (sm_sequence m))"

definition last_sequence :: "MutationBatch \<Rightarrow> MutationSeq option" where
  "last_sequence b =
     (if mb_mutations b = [] then None else Some (sm_sequence (last (mb_mutations b))))"

section \<open>Properties\<close>

abbreviation seq_nat :: "SequencedMutation \<Rightarrow> nat" where
  "seq_nat m \<equiv> unat (seq_value (sm_sequence m))"

lemma checked_add_one:
  "checked_add (x :: u64) 1 = Some y \<longleftrightarrow> unat y = unat x + 1"
proof
  assume "checked_add x 1 = Some y"
  then show "unat y = unat x + 1" using checked_add_Some [of x 1 y] by simp
next
  assume y: "unat y = unat x + 1"
  moreover have "unat y < 2 ^ 64" using unsigned_less [of y] by simp
  ultimately have "unat x + unat (1 :: u64) < 2 ^ LENGTH(64)" by simp
  moreover from this have "unat (x + 1) = unat y"
    using y by (simp add: unat_word_ariths)
  ultimately show "checked_add x 1 = Some y"
    by (simp add: checked_add_def word_unat_eq_iff)
qed

lemma validate_from_iff:
  "validate_from e ms = Inr () \<longleftrightarrow>
     (\<forall>i < length ms. seq_nat (ms ! i) = unat e + i) \<and> unat e + length ms < 2 ^ 64"
proof (induction ms arbitrary: e)
  case Nil
  show ?case using unsigned_less [of e] by simp
next
  case (Cons m ms)
  show ?case
  proof (cases "unat e + 1 < 2 ^ 64")
    case True
    then have s: "checked_add e 1 = Some (e + 1)" "unat (e + 1) = unat e + 1"
      by (simp_all add: checked_add_def unat_word_ariths)
    have "(\<forall>i < length (m # ms). seq_nat ((m # ms) ! i) = unat e + i) \<longleftrightarrow>
        seq_nat m = unat e \<and> (\<forall>i < length ms. seq_nat (ms ! i) = unat (e + 1) + i)"
      by (simp add: All_less_Suc2 s(2))
    then show ?thesis
      using s by (simp add: Cons.IH word_unat_eq_iff)
  next
    case False
    then have "checked_add e 1 = None" by (simp add: checked_add_def)
    with False show ?thesis by (simp add: result_simps)
  qed
qed

text \<open>\<open>MutationBatch::validate\<close> accepts exactly the non-empty batches whose sequence numbers
  are consecutive and end below the largest 64-bit number.\<close>

lemma batch_validate_iff:
  "batch_validate b = Inr () \<longleftrightarrow>
     (let ms = mb_mutations b in ms \<noteq> [] \<and> (\<forall>i < length ms. seq_nat (ms ! i) = seq_nat (ms ! 0) + i)
        \<and> seq_nat (last ms) < unat u64_max)"
proof (cases "mb_mutations b")
  case Nil
  then show ?thesis by (simp add: batch_validate_def)
next
  case (Cons m ms)
  let ?e = "seq_value (sm_sequence m)"
  have "(\<forall>i < length (m # ms). seq_nat ((m # ms) ! i) = unat ?e + i) \<Longrightarrow>
      seq_nat (last (m # ms)) = unat ?e + length ms"
    by (metis last_conv_nth length_Cons diff_Suc_1 lessI list.discI)
  then have "validate_from ?e (m # ms) = Inr () \<longleftrightarrow>
      (\<forall>i < length (m # ms). seq_nat ((m # ms) ! i) = unat ?e + i)
      \<and> seq_nat (last (m # ms)) < unat u64_max"
    unfolding validate_from_iff u64_max_def by auto
  then show ?thesis
    using Cons by (simp add: batch_validate_def Let_def del: validate_from.simps)
qed

end
