(* ===== verification/Governor.thy ===== *)
theory Governor
  imports Core_Models
begin

text \<open>
  The resource governor (\<open>crates/resource-governor/src/lib.rs\<close>) and the portable measurements it
  consumes (\<open>crates/platform-core/src/resources.rs\<close>): a deterministic state machine that turns
  system pressure, user activity and backlog into an indexing budget.

  The Rust struct is the record \<open>ResourceGovernor\<close>; each \<open>&mut self\<close> method is a function from
  the old state to the new one, and the decision a method returns is \<open>decision\<close> of the new
  state. Early returns of \<open>evaluate\<close> are the branches of \<open>evaluate\<close>, \<open>evaluate_observed\<close> and
  \<open>evaluate_relaxed\<close>, in the order of the source.

  Shown: telemetry loss pauses background work and only a full run of observed windows resumes
  it; an interactive request pauses it for the hold window; elevated work starts only with
  evidence of an idle user, external power and backlog; the transition counter moves exactly with
  the mode; every budget is either paused in all its controls or bounded and serial.
\<close>

section \<open>Measurements\<close>

datatype PowerSource = Ac | OnBattery | UnknownPower

datatype StorageClass = Hdd | Ssd | Nvme | Network | Removable | UnknownStorage

record StorageResources =
  st_volume_id :: VolumeId
  st_class :: StorageClass
  st_capacity_bytes :: "u64 option"
  st_available_bytes :: "u64 option"

record SystemResources =
  res_logical_processors :: u32
  res_total_memory_bytes :: "u64 option"
  res_available_memory_bytes :: "u64 option"
  res_system_cpu_load_basis_points :: "u16 option"
  res_process_cpu_load_basis_points :: "u16 option"
  res_power_source :: PowerSource
  res_battery_percent :: "u8 option"
  res_energy_saver :: bool
  res_storage_busy_basis_points :: "u16 option"
  res_user_idle_duration_millis :: "u64 option"
  res_storage :: "StorageResources list"

record SystemPressure =
  available_memory_basis_points :: "u16 option"
  system_cpu_load_basis_points :: "u16 option"
  disk_busy_basis_points :: "u16 option"
  power_source :: PowerSource
  battery_percent :: "u8 option"
  energy_saver :: bool

definition default_pressure :: SystemPressure where
  "default_pressure = \<lparr>available_memory_basis_points = None, system_cpu_load_basis_points = None,
     disk_busy_basis_points = None, power_source = UnknownPower, battery_percent = None,
     energy_saver = False\<rparr>"

definition memory_basis_points :: "u64 option \<Rightarrow> u64 option \<Rightarrow> u16 option" where
  "memory_basis_points total_memory available_memory =
     (case (total_memory, available_memory) of
        (Some tot, Some available) \<Rightarrow>
          if tot = 0 then None
          else let basis_points = unat (min available tot) * 10000 div unat tot
               in if basis_points < 2 ^ 16 then Some (of_nat basis_points) else None
      | _ \<Rightarrow> None)"

definition pressure_of_resources :: "SystemResources \<Rightarrow> SystemPressure" where
  "pressure_of_resources r = \<lparr>
     available_memory_basis_points =
       memory_basis_points (res_total_memory_bytes r) (res_available_memory_bytes r),
     system_cpu_load_basis_points = res_system_cpu_load_basis_points r,
     disk_busy_basis_points = res_storage_busy_basis_points r,
     power_source = res_power_source r,
     battery_percent = res_battery_percent r,
     energy_saver = res_energy_saver r\<rparr>"

record WorkloadState =
  user_active :: bool
  user_idle :: bool
  backlog_mutations :: u64

record Duration =
  dur_secs :: u64
  dur_nanos :: u32

definition duration_millis_ceil :: "Duration \<Rightarrow> u64" where
  "duration_millis_ceil d =
     (let millis = unat (dur_secs d) * 1000 + unat (dur_nanos d) div 1000000;
          whole = (if millis < 2 ^ 64 then of_nat millis else u64_max)
      in saturating_add whole (if unat (dur_nanos d) mod 1000000 = 0 then 0 else 1))"

section \<open>Policy data\<close>

datatype GovernorMode = Active | Balanced | IdleBoost | Pressure | Battery

datatype MaintenanceIntensity = Paused | Minimal | NormalIntensity | Elevated

record IndexingBudget =
  maximum_batch_mutations :: u32
  maximum_batches :: u32
  maximum_run_time_millis :: u64
  writer_heap_bytes :: nat
  rebuild_page_size :: u32
  projection_concurrency :: u8
  maintenance_intensity :: MaintenanceIntensity
  background_paused :: bool

record GovernorConfig =
  search_sla_millis :: u64
  low_memory_basis_points :: u16
  critical_memory_basis_points :: u16
  high_cpu_basis_points :: u16
  high_disk_basis_points :: u16
  pressure_windows :: u8
  recovery_windows :: u8
  cooldown_windows :: u8
  interactive_hold_windows :: u8
  idle_boost_after_millis :: u64

definition default_config :: GovernorConfig where
  "default_config = \<lparr>search_sla_millis = 75, low_memory_basis_points = 1000,
     critical_memory_basis_points = 500, high_cpu_basis_points = 9000,
     high_disk_basis_points = 9000, pressure_windows = 2, recovery_windows = 5,
     cooldown_windows = 3, interactive_hold_windows = 3,
     idle_boost_after_millis = 5 * 60 * 1000\<rparr>"

datatype DecisionReason =
    Startup | UserActive | SearchSla | SystemPressureReason | CriticalMemory
  | ResourceTelemetryUnavailable | BatteryReason | EnergySaver | BalancedReason | IdleBacklog

record GovernorDecision =
  dec_mode :: GovernorMode
  dec_budget :: IndexingBudget
  dec_reason :: DecisionReason
  dec_transition_sequence :: u64

record ResourceGovernor =
  config :: GovernorConfig
  mode :: GovernorMode
  reason :: DecisionReason
  pressure :: SystemPressure
  resource_available :: bool
  resource_recovery_required :: bool
  workload :: WorkloadState
  pressure_streak :: u8
  recovery_streak :: u8
  cooldown_remaining :: u8
  interactive_remaining :: u8
  transition_sequence :: u64

definition MIB :: nat where "MIB = 1024 * 1024"

fun budget :: "GovernorMode \<Rightarrow> bool \<Rightarrow> IndexingBudget" where
  "budget Active saver = \<lparr>maximum_batch_mutations = 0, maximum_batches = 0,
     maximum_run_time_millis = 0, writer_heap_bytes = 32 * MIB, rebuild_page_size = 1000,
     projection_concurrency = 0, maintenance_intensity = Paused, background_paused = True\<rparr>"
| "budget Balanced saver = \<lparr>maximum_batch_mutations = 5000, maximum_batches = 20,
     maximum_run_time_millis = 5000, writer_heap_bytes = 64 * MIB, rebuild_page_size = 5000,
     projection_concurrency = 1, maintenance_intensity = NormalIntensity,
     background_paused = False\<rparr>"
| "budget IdleBoost saver = \<lparr>maximum_batch_mutations = 10000, maximum_batches = 100,
     maximum_run_time_millis = 30000, writer_heap_bytes = 128 * MIB, rebuild_page_size = 10000,
     projection_concurrency = 1, maintenance_intensity = Elevated, background_paused = False\<rparr>"
| "budget Pressure saver = \<lparr>maximum_batch_mutations = 128, maximum_batches = 0,
     maximum_run_time_millis = 0, writer_heap_bytes = 32 * MIB, rebuild_page_size = 500,
     projection_concurrency = 0, maintenance_intensity = Paused, background_paused = True\<rparr>"
| "budget Battery saver = \<lparr>maximum_batch_mutations = (if saver then 0 else 256),
     maximum_batches = (if saver then 0 else 1),
     maximum_run_time_millis = (if saver then 0 else 250), writer_heap_bytes = 32 * MIB,
     rebuild_page_size = 1000, projection_concurrency = (if saver then 0 else 1),
     maintenance_intensity = (if saver then Paused else Minimal), background_paused = saver\<rparr>"

section \<open>Operations\<close>

definition new_governor :: "GovernorConfig \<Rightarrow> ResourceGovernor" where
  "new_governor c = \<lparr>config = c, mode = Balanced, reason = Startup, pressure = default_pressure,
     resource_available = True, resource_recovery_required = False,
     workload = \<lparr>user_active = False, user_idle = False, backlog_mutations = 0\<rparr>,
     pressure_streak = 0, recovery_streak = 0, cooldown_remaining = 0, interactive_remaining = 0,
     transition_sequence = 0\<rparr>"

definition get_indexing_budget :: "ResourceGovernor \<Rightarrow> IndexingBudget" where
  "get_indexing_budget g = budget (mode g) (energy_saver (pressure g))"

definition decision :: "ResourceGovernor \<Rightarrow> GovernorDecision" where
  "decision g = \<lparr>dec_mode = mode g, dec_budget = get_indexing_budget g, dec_reason = reason g,
     dec_transition_sequence = transition_sequence g\<rparr>"

definition transition :: "ResourceGovernor \<Rightarrow> GovernorMode \<Rightarrow> DecisionReason \<Rightarrow> ResourceGovernor" where
  "transition g m r =
     (let g' = (if mode g \<noteq> m
                then g\<lparr>mode := m, transition_sequence := saturating_add (transition_sequence g) 1,
                       cooldown_remaining := cooldown_windows (config g)\<rparr>
                else g)
      in g'\<lparr>reason := r\<rparr>)"

definition is_some_and :: "'a option \<Rightarrow> ('a \<Rightarrow> bool) \<Rightarrow> bool" where
  "is_some_and x p = (case x of None \<Rightarrow> False | Some v \<Rightarrow> p v)"

definition critical_memory :: "ResourceGovernor \<Rightarrow> bool" where
  "critical_memory g \<longleftrightarrow> is_some_and (available_memory_basis_points (pressure g))
     (\<lambda>v. v \<le> critical_memory_basis_points (config g))"

definition pressured :: "ResourceGovernor \<Rightarrow> bool" where
  "pressured g \<longleftrightarrow>
     is_some_and (available_memory_basis_points (pressure g))
       (\<lambda>v. v \<le> low_memory_basis_points (config g))
   \<or> is_some_and (system_cpu_load_basis_points (pressure g))
       (\<lambda>v. high_cpu_basis_points (config g) \<le> v)
   \<or> is_some_and (disk_busy_basis_points (pressure g))
       (\<lambda>v. high_disk_basis_points (config g) \<le> v)"

definition desired_mode :: "ResourceGovernor \<Rightarrow> GovernorMode \<times> DecisionReason" where
  "desired_mode g =
     (if user_idle (workload g) \<and> 0 < backlog_mutations (workload g)
         \<and> power_source (pressure g) = Ac
      then (IdleBoost, IdleBacklog) else (Balanced, BalancedReason))"

definition evaluate_relaxed :: "ResourceGovernor \<Rightarrow> bool \<Rightarrow> bool \<Rightarrow> ResourceGovernor" where
  "evaluate_relaxed g count_window under_pressure =
     (if user_active (workload g) \<or> 0 < interactive_remaining g
      then transition (g\<lparr>recovery_streak := 0\<rparr>) Active UserActive
      else if energy_saver (pressure g) then transition g Battery EnergySaver
      else if power_source (pressure g) = OnBattery then transition g Battery BatteryReason
      else if under_pressure then g
      else
        let g1 = (if count_window
                  then g\<lparr>recovery_streak := saturating_add (recovery_streak g) 1,
                         cooldown_remaining := saturating_sub (cooldown_remaining g) 1\<rparr>
                  else g);
            desired = desired_mode g1
        in if mode g1 = fst desired then g1\<lparr>reason := snd desired\<rparr>
           else if recovery_windows (config g1) \<le> recovery_streak g1 \<and> cooldown_remaining g1 = 0
           then (transition g1 (fst desired) (snd desired))\<lparr>recovery_streak := 0\<rparr>
           else g1)"

definition evaluate_observed :: "ResourceGovernor \<Rightarrow> bool \<Rightarrow> ResourceGovernor" where
  "evaluate_observed g count_window =
     (if critical_memory g then transition g Pressure CriticalMemory
      else if pressured g then
        let g1 = (if count_window
                  then g\<lparr>pressure_streak := saturating_add (pressure_streak g) 1\<rparr> else g);
            g2 = g1\<lparr>recovery_streak := 0\<rparr>
        in if pressure_windows (config g2) \<le> pressure_streak g2
           then transition g2 Pressure SystemPressureReason
           else evaluate_relaxed g2 count_window True
      else evaluate_relaxed (g\<lparr>pressure_streak := 0\<rparr>) count_window False)"

definition evaluate :: "ResourceGovernor \<Rightarrow> bool \<Rightarrow> ResourceGovernor" where
  "evaluate g count_window =
     (if \<not> resource_available g then transition g Pressure ResourceTelemetryUnavailable
      else if resource_recovery_required g then
        let g1 = (if count_window
                  then g\<lparr>recovery_streak := saturating_add (recovery_streak g) 1,
                         cooldown_remaining := saturating_sub (cooldown_remaining g) 1\<rparr>
                  else g)
        in if recovery_streak g1 < recovery_windows (config g1)
           then transition g1 Pressure ResourceTelemetryUnavailable
           else evaluate_observed
                  (transition (g1\<lparr>resource_recovery_required := False, recovery_streak := 0\<rparr>)
                     Balanced BalancedReason) count_window
      else evaluate_observed g count_window)"

definition begin_interactive_request :: "ResourceGovernor \<Rightarrow> ResourceGovernor" where
  "begin_interactive_request g =
     (let g1 = g\<lparr>interactive_remaining := interactive_hold_windows (config g)\<rparr>
      in if resource_available g1 \<and> \<not> resource_recovery_required g1
         then transition g1 Active UserActive else g1)"

definition report_search_latency :: "ResourceGovernor \<Rightarrow> Duration \<Rightarrow> ResourceGovernor" where
  "report_search_latency g latency =
     (let g1 = g\<lparr>interactive_remaining := interactive_hold_windows (config g)\<rparr>
      in if \<not> resource_available g1 \<or> resource_recovery_required g1 then g1
         else transition g1 Active
                (if search_sla_millis (config g1) < duration_millis_ceil latency
                 then SearchSla else UserActive))"

definition tick_interactive :: "ResourceGovernor \<Rightarrow> ResourceGovernor" where
  "tick_interactive g =
     (if 0 < interactive_remaining g
      then g\<lparr>interactive_remaining := interactive_remaining g - 1\<rparr> else g)"

definition report_system_pressure :: "ResourceGovernor \<Rightarrow> SystemPressure \<Rightarrow> ResourceGovernor" where
  "report_system_pressure g p =
     evaluate (tick_interactive (g\<lparr>pressure := p, resource_available := True\<rparr>)) True"

definition report_resource_unavailable :: "ResourceGovernor \<Rightarrow> ResourceGovernor" where
  "report_resource_unavailable g =
     transition
       (g\<lparr>pressure := default_pressure, resource_available := False,
          resource_recovery_required := True, workload := (workload g)\<lparr>user_idle := False\<rparr>,
          pressure_streak := 0, recovery_streak := 0, interactive_remaining := 0\<rparr>)
       Pressure ResourceTelemetryUnavailable"

definition report_workload :: "ResourceGovernor \<Rightarrow> WorkloadState \<Rightarrow> ResourceGovernor" where
  "report_workload g w =
     (let g1 = g\<lparr>workload := w\<rparr>
      in if user_active w \<and> resource_available g1 \<and> \<not> resource_recovery_required g1
         then transition (g1\<lparr>interactive_remaining := interactive_hold_windows (config g1)\<rparr>)
                Active UserActive
         else g1)"

definition report_backlog :: "ResourceGovernor \<Rightarrow> u64 \<Rightarrow> ResourceGovernor" where
  "report_backlog g n =
     (let g1 = g\<lparr>workload := (workload g)\<lparr>backlog_mutations := n\<rparr>\<rparr>
      in if n = 0 \<and> mode g1 = IdleBoost
         then transition (g1\<lparr>recovery_streak := 0\<rparr>) Balanced BalancedReason
         else g1)"

definition report_user_idle_duration :: "ResourceGovernor \<Rightarrow> u64 option \<Rightarrow> ResourceGovernor" where
  "report_user_idle_duration g idle_millis =
     (let idle = is_some_and idle_millis (\<lambda>v. idle_boost_after_millis (config g) \<le> v);
          g1 = g\<lparr>workload := (workload g)\<lparr>user_idle := idle\<rparr>\<rparr>
      in if \<not> idle \<and> mode g1 = IdleBoost
         then transition (g1\<lparr>recovery_streak := 0\<rparr>) Balanced BalancedReason
         else evaluate g1 False)"

definition advance_window :: "ResourceGovernor \<Rightarrow> ResourceGovernor" where
  "advance_window g = evaluate (tick_interactive g) True"

text \<open>The public methods as one alphabet, for runs of the state machine.\<close>

datatype gov_op =
    BeginInteractive
  | SearchLatency Duration
  | ObservePressure SystemPressure
  | ObserveUnavailable
  | ObserveWorkload WorkloadState
  | ObserveBacklog u64
  | ObserveIdle "u64 option"
  | AdvanceWindow

fun gov_step :: "ResourceGovernor \<Rightarrow> gov_op \<Rightarrow> ResourceGovernor" where
  "gov_step g BeginInteractive = begin_interactive_request g"
| "gov_step g (SearchLatency d) = report_search_latency g d"
| "gov_step g (ObservePressure p) = report_system_pressure g p"
| "gov_step g ObserveUnavailable = report_resource_unavailable g"
| "gov_step g (ObserveWorkload w) = report_workload g w"
| "gov_step g (ObserveBacklog n) = report_backlog g n"
| "gov_step g (ObserveIdle d) = report_user_idle_duration g d"
| "gov_step g AdvanceWindow = advance_window g"

definition gov_run :: "ResourceGovernor \<Rightarrow> gov_op list \<Rightarrow> ResourceGovernor" where
  "gov_run = foldl gov_step"

inductive gov_reachable :: "GovernorConfig \<Rightarrow> ResourceGovernor \<Rightarrow> bool" for c where
  start: "gov_reachable c (new_governor c)"
| step: "gov_reachable c g \<Longrightarrow> gov_reachable c (gov_step g op)"

section \<open>Lemmas\<close>

lemma transition_simps [simp]:
  "mode (transition g m r) = m"
  "reason (transition g m r) = r"
  "config (transition g m r) = config g"
  "pressure (transition g m r) = pressure g"
  "resource_available (transition g m r) = resource_available g"
  "resource_recovery_required (transition g m r) = resource_recovery_required g"
  "workload (transition g m r) = workload g"
  "pressure_streak (transition g m r) = pressure_streak g"
  "recovery_streak (transition g m r) = recovery_streak g"
  "interactive_remaining (transition g m r) = interactive_remaining g"
  by (simp_all add: transition_def)

lemma evaluate_relaxed_frame [simp]:
  "config (evaluate_relaxed g w p) = config g"
  "pressure (evaluate_relaxed g w p) = pressure g"
  "resource_available (evaluate_relaxed g w p) = resource_available g"
  "resource_recovery_required (evaluate_relaxed g w p) = resource_recovery_required g"
  "workload (evaluate_relaxed g w p) = workload g"
  "pressure_streak (evaluate_relaxed g w p) = pressure_streak g"
  "interactive_remaining (evaluate_relaxed g w p) = interactive_remaining g"
  by (simp_all add: evaluate_relaxed_def Let_def)

lemma evaluate_observed_frame [simp]:
  "config (evaluate_observed g w) = config g"
  "pressure (evaluate_observed g w) = pressure g"
  "resource_available (evaluate_observed g w) = resource_available g"
  "resource_recovery_required (evaluate_observed g w) = resource_recovery_required g"
  "workload (evaluate_observed g w) = workload g"
  "interactive_remaining (evaluate_observed g w) = interactive_remaining g"
  by (simp_all add: evaluate_observed_def Let_def)

lemma evaluate_frame [simp]:
  "config (evaluate g w) = config g"
  "pressure (evaluate g w) = pressure g"
  "resource_available (evaluate g w) = resource_available g"
  "workload (evaluate g w) = workload g"
  "interactive_remaining (evaluate g w) = interactive_remaining g"
  by (simp_all add: evaluate_def Let_def)

lemma tick_interactive_frame [simp]:
  "config (tick_interactive g) = config g"
  "mode (tick_interactive g) = mode g"
  "reason (tick_interactive g) = reason g"
  "pressure (tick_interactive g) = pressure g"
  "resource_available (tick_interactive g) = resource_available g"
  "resource_recovery_required (tick_interactive g) = resource_recovery_required g"
  "workload (tick_interactive g) = workload g"
  "pressure_streak (tick_interactive g) = pressure_streak g"
  "recovery_streak (tick_interactive g) = recovery_streak g"
  "transition_sequence (tick_interactive g) = transition_sequence g"
  by (simp_all add: tick_interactive_def)

lemma unat_tick_interactive:
  "unat (interactive_remaining (tick_interactive g)) = unat (interactive_remaining g) - 1"
  by (auto simp: tick_interactive_def unat_minus_one word_gt_0 unat_gt_0 unat_eq_zero)

lemmas gov_op_defs = begin_interactive_request_def report_search_latency_def
  report_system_pressure_def report_resource_unavailable_def report_workload_def
  report_backlog_def report_user_idle_duration_def advance_window_def Let_def

lemma gov_step_config [simp]: "config (gov_step g op) = config g"
  by (cases op) (simp_all add: gov_op_defs)

subsection \<open>Telemetry loss\<close>

definition fail_closed :: "ResourceGovernor \<Rightarrow> bool" where
  "fail_closed g \<longleftrightarrow>
     (\<not> resource_available g \<longrightarrow> resource_recovery_required g)
   \<and> (resource_recovery_required g \<longrightarrow> mode g = Pressure \<and> reason g = ResourceTelemetryUnavailable)"

lemma evaluate_fail_closed: "fail_closed g \<Longrightarrow> fail_closed (evaluate g w)"
  by (simp add: fail_closed_def evaluate_def Let_def)

lemma gov_step_fail_closed: "fail_closed g \<Longrightarrow> fail_closed (gov_step g op)"
proof (cases op)
  case (ObservePressure p)
  assume "fail_closed g"
  then have "fail_closed (tick_interactive (g\<lparr>pressure := p, resource_available := True\<rparr>))"
    by (simp add: fail_closed_def)
  with ObservePressure show ?thesis
    by (simp add: report_system_pressure_def evaluate_fail_closed)
next
  case (ObserveIdle d)
  assume g: "fail_closed g"
  then have "fail_closed (g\<lparr>workload := (workload g)\<lparr>user_idle := b\<rparr>\<rparr>)" for b
    by (simp add: fail_closed_def)
  with ObserveIdle g show ?thesis
    by (auto simp: gov_op_defs evaluate_fail_closed) (auto simp: fail_closed_def)
next
  case AdvanceWindow
  assume "fail_closed g"
  then have "fail_closed (tick_interactive g)" by (simp add: fail_closed_def)
  with AdvanceWindow show ?thesis by (simp add: advance_window_def evaluate_fail_closed)
qed (auto simp: gov_op_defs fail_closed_def)

lemma gov_reachable_fail_closed: "gov_reachable c g \<Longrightarrow> fail_closed g"
  by (induction rule: gov_reachable.induct)
     (simp_all add: gov_step_fail_closed, simp add: fail_closed_def new_governor_def)

lemma gov_run_simps [simp]: "gov_run g [] = g" "gov_run g (op # ops) = gov_run (gov_step g op) ops"
  by (simp_all add: gov_run_def)

lemma gov_run_append: "gov_run g (xs @ ys) = gov_run (gov_run g xs) ys"
  by (simp add: gov_run_def)

lemma gov_reachable_run: "gov_reachable c g \<Longrightarrow> gov_reachable c (gov_run g ops)"
  by (induction ops arbitrary: g) (simp_all add: gov_reachable.step)

text \<open>Operations that count a policy window: the only ones that move the recovery streak up.\<close>

fun counts_window :: "gov_op \<Rightarrow> bool" where
  "counts_window (ObservePressure p) = True"
| "counts_window AdvanceWindow = True"
| "counts_window _ = False"

lemma evaluate_recovering:
  assumes "resource_recovery_required g"
    and "unat (recovery_streak g) + of_bool w < unat (recovery_windows (config g))"
  shows "resource_recovery_required (evaluate g w)
    \<and> unat (recovery_streak (evaluate g w)) \<le> unat (recovery_streak g) + of_bool w"
  using assms
  by (auto simp: evaluate_def Let_def word_less_nat_alt unat_saturating_add)

lemma gov_step_recovering:
  assumes "fail_closed g" and "resource_recovery_required g"
    and "unat (recovery_streak g) + of_bool (counts_window op) < unat (recovery_windows (config g))"
  shows "resource_recovery_required (gov_step g op)
    \<and> unat (recovery_streak (gov_step g op)) \<le> unat (recovery_streak g) + of_bool (counts_window op)"
proof (cases op)
  case (ObservePressure p)
  then show ?thesis
    using assms evaluate_recovering [of "tick_interactive (g\<lparr>pressure := p, resource_available := True\<rparr>)" True]
    by (simp add: report_system_pressure_def)
next
  case (ObserveIdle d)
  let ?g = "g\<lparr>workload := (workload g)\<lparr>user_idle := is_some_and d (\<lambda>v. idle_boost_after_millis (config g) \<le> v)\<rparr>\<rparr>"
  have "mode g = Pressure" using assms by (simp add: fail_closed_def)
  then show ?thesis
    using assms evaluate_recovering [of ?g False] ObserveIdle
    by (simp add: gov_op_defs)
next
  case AdvanceWindow
  then show ?thesis
    using assms evaluate_recovering [of "tick_interactive g" True]
    by (simp add: advance_window_def)
qed (use assms in \<open>auto simp: gov_op_defs fail_closed_def\<close>)

lemma gov_run_recovering:
  assumes "fail_closed g" and "resource_recovery_required g"
    and "unat (recovery_streak g) + length (filter counts_window ops) < unat (recovery_windows (config g))"
  shows "resource_recovery_required (gov_run g ops)"
  using assms
proof (induction ops arbitrary: g)
  case (Cons op ops)
  have "unat (recovery_streak g) + of_bool (counts_window op) < unat (recovery_windows (config g))"
    using Cons.prems(3) by (cases "counts_window op") auto
  from gov_step_recovering [OF Cons.prems(1,2) this] Cons.prems(3)
  have "resource_recovery_required (gov_step g op)"
    "unat (recovery_streak (gov_step g op)) + length (filter counts_window ops)
       < unat (recovery_windows (config (gov_step g op)))"
    by (auto split: if_splits)
  then show ?case using Cons.IH [OF gov_step_fail_closed [OF Cons.prems(1)]] by simp
qed simp

lemma gov_reachable_config: "gov_reachable c g \<Longrightarrow> config g = c"
  by (induction rule: gov_reachable.induct) (simp_all add: new_governor_def)

lemma budget_paused_modes [simp]:
  "background_paused (budget Pressure s)" "background_paused (budget Active s)"
  "maximum_batches (budget Pressure s) = 0" "maximum_batches (budget Active s) = 0"
  by simp_all

subsection \<open>Recovery of a healthy system\<close>

definition healthy :: "GovernorConfig \<Rightarrow> SystemPressure \<Rightarrow> bool" where
  "healthy c p \<longleftrightarrow>
     \<not> is_some_and (available_memory_basis_points p) (\<lambda>v. v \<le> critical_memory_basis_points c)
   \<and> \<not> is_some_and (available_memory_basis_points p) (\<lambda>v. v \<le> low_memory_basis_points c)
   \<and> \<not> is_some_and (system_cpu_load_basis_points p) (\<lambda>v. high_cpu_basis_points c \<le> v)
   \<and> \<not> is_some_and (disk_busy_basis_points p) (\<lambda>v. high_disk_basis_points c \<le> v)
   \<and> power_source p \<noteq> OnBattery \<and> \<not> energy_saver p"

definition recovering :: "ResourceGovernor \<Rightarrow> nat \<Rightarrow> bool" where
  "recovering g k \<longleftrightarrow> resource_recovery_required g \<and> unat (recovery_streak g) = k
     \<and> interactive_remaining g = 0 \<and> \<not> user_active (workload g) \<and> \<not> user_idle (workload g)"

lemma tick_interactive_idle: "interactive_remaining g = 0 \<Longrightarrow> tick_interactive g = g"
  by (simp add: tick_interactive_def)

lemma observe_recovering:
  assumes "recovering g k" and "k + 1 < unat (recovery_windows (config g))"
  shows "recovering (report_system_pressure g p) (k + 1)"
proof -
  have "unat (recovery_windows (config g)) < 256" by (rule unat_u8_less)
  then have "unat (saturating_add (recovery_streak g) 1) = k + 1"
    using assms by (simp add: unat_saturating_add recovering_def)
  with assms show ?thesis
    by (simp add: recovering_def report_system_pressure_def tick_interactive_idle evaluate_def
        Let_def word_less_nat_alt)
qed

lemma observe_recovered:
  assumes "recovering g k" and "k + 1 = unat (recovery_windows (config g))" and "healthy (config g) p"
  shows "mode (report_system_pressure g p) = Balanced
    \<and> \<not> resource_recovery_required (report_system_pressure g p)"
proof -
  have "unat (recovery_windows (config g)) < 256" by (rule unat_u8_less)
  then have "unat (saturating_add (recovery_streak g) 1) = k + 1"
    using assms by (simp add: unat_saturating_add recovering_def)
  with assms have "\<not> saturating_add (recovery_streak g) 1 < recovery_windows (config g)"
    by (simp add: word_less_nat_alt)
  with assms show ?thesis
    by (simp add: recovering_def report_system_pressure_def tick_interactive_idle evaluate_def
        Let_def evaluate_observed_def critical_memory_def pressured_def healthy_def
        evaluate_relaxed_def desired_mode_def)
qed

lemma run_recovering:
  assumes "recovering g k" and "k + n < unat (recovery_windows (config g))"
  shows "recovering (gov_run g (replicate n (ObservePressure p))) (k + n)
    \<and> config (gov_run g (replicate n (ObservePressure p))) = config g"
  using assms
proof (induction n arbitrary: g k)
  case (Suc n)
  have "recovering (report_system_pressure g p) (k + 1)"
    by (rule observe_recovering) (use Suc.prems in auto)
  from Suc.IH [OF this] Suc.prems show ?case
    by (simp add: report_system_pressure_def)
qed simp

lemma unavailable_recovering:
  "\<not> user_active (workload g) \<Longrightarrow> recovering (report_resource_unavailable g) 0"
  by (simp add: recovering_def report_resource_unavailable_def)

subsection \<open>Interactive hold\<close>

definition held :: "ResourceGovernor \<Rightarrow> nat \<Rightarrow> bool" where
  "held g k \<longleftrightarrow> k \<le> unat (interactive_remaining g) \<and> mode g \<in> {Active, Pressure}"

lemma evaluate_held:
  assumes "0 < interactive_remaining g"
  shows "mode (evaluate g w) \<in> {Active, Pressure}"
  using assms
  by (auto simp: evaluate_def evaluate_observed_def evaluate_relaxed_def Let_def)

lemma gov_step_held:
  assumes "held g k" and "of_bool (counts_window op) < k" and "op \<noteq> ObserveUnavailable"
    and "k \<le> unat (interactive_hold_windows (config g))"
  shows "held (gov_step g op) (k - of_bool (counts_window op))"
proof -
  have tick: "held (tick_interactive (g\<lparr>pressure := p, resource_available := b\<rparr>)) (k - 1)" for p b
    using assms(1) by (auto simp: held_def unat_tick_interactive)
  have tick': "held (tick_interactive g) (k - 1)"
    using assms(1) by (auto simp: held_def unat_tick_interactive)
  have ev: "held (evaluate g' w) k'" if "held g' k'" "0 < k'" for g' w k'
    using that evaluate_held [of g' w]
    by (cases "interactive_remaining g' = 0") (auto simp: held_def word_gt_0)
  show ?thesis
  proof (cases op)
    case (ObservePressure p)
    then show ?thesis using assms tick ev by (simp add: report_system_pressure_def)
  next
    case AdvanceWindow
    then show ?thesis using assms tick' ev by (simp add: advance_window_def)
  next
    case (ObserveIdle d)
    have "held (g\<lparr>workload := w\<rparr>) k" for w using assms(1) by (simp add: held_def)
    then have "held (evaluate (g\<lparr>workload := w\<rparr>) False) k" for w using assms ObserveIdle ev by simp
    moreover have "mode g \<noteq> IdleBoost" using assms(1) by (auto simp: held_def)
    ultimately show ?thesis using ObserveIdle by (simp add: gov_op_defs)
  qed (use assms in \<open>auto simp: gov_op_defs held_def\<close>)
qed

lemma gov_run_held:
  assumes "held g k" and "length (filter counts_window ops) < k"
    and "ObserveUnavailable \<notin> set ops" and "k \<le> unat (interactive_hold_windows (config g))"
  shows "mode (gov_run g ops) \<in> {Active, Pressure}"
  using assms
proof (induction ops arbitrary: g k)
  case Nil
  then show ?case by (simp add: held_def)
next
  case (Cons op ops)
  have lt: "of_bool (counts_window op) < k" using Cons.prems(2) by auto
  have "held (gov_step g op) (k - of_bool (counts_window op))"
    by (rule gov_step_held) (use Cons.prems lt in auto)
  moreover have "length (filter counts_window ops) < k - of_bool (counts_window op)"
    using Cons.prems(2) by auto
  ultimately show ?case using Cons.IH [of "gov_step g op" "k - of_bool (counts_window op)"] Cons.prems
    by auto
qed

subsection \<open>Transition counter\<close>

definition counts_transitions :: "ResourceGovernor \<Rightarrow> ResourceGovernor \<Rightarrow> bool" where
  "counts_transitions g g' \<longleftrightarrow>
     transition_sequence g \<le> transition_sequence g'
   \<and> (transition_sequence g' = transition_sequence g \<and> transition_sequence g \<noteq> u64_max
        \<longrightarrow> mode g' = mode g)"

lemma counts_transitions_trans:
  "counts_transitions g h \<Longrightarrow> counts_transitions h i \<Longrightarrow> counts_transitions g i"
  unfolding counts_transitions_def by (metis order.antisym order.trans)

lemma saturating_add_ge: "a \<le> saturating_add a (b :: 'a::len word)"
proof -
  have "unat a < 2 ^ LENGTH('a)" by (rule unsigned_less)
  then have "unat a \<le> 2 ^ LENGTH('a) - 1" by linarith
  then show ?thesis by (auto simp: word_le_nat_alt unat_saturating_add)
qed

lemma saturating_add_stuck: "saturating_add a 1 = a \<Longrightarrow> a = u64_max"
proof -
  assume "saturating_add a 1 = a"
  then have "min (unat a + 1) (2 ^ 64 - 1) = unat a"
    using unat_saturating_add [of a 1] by simp
  then have "unat a = unat u64_max" by (simp add: u64_max_def)
  then show ?thesis by (rule unsigned_word_eqI)
qed

lemma counts_transitions_transition:
  assumes "mode h = mode g" and "transition_sequence h = transition_sequence g"
  shows "counts_transitions g (transition h m r)"
  using assms saturating_add_stuck
  by (auto simp: counts_transitions_def transition_def saturating_add_ge)

lemma counts_transitions_relaxed: "counts_transitions g (evaluate_relaxed g w p)"
proof -
  have "counts_transitions g ((transition h m r)\<lparr>recovery_streak := 0\<rparr>)"
    if "mode h = mode g" "transition_sequence h = transition_sequence g" for h m r
    using counts_transitions_transition [OF that, of m r]
    by (simp add: counts_transitions_def)
  moreover have "counts_transitions g h"
    if "mode h = mode g" "transition_sequence h = transition_sequence g" for h
    using that by (simp add: counts_transitions_def)
  ultimately show ?thesis
    by (simp add: evaluate_relaxed_def Let_def counts_transitions_transition)
qed

lemma counts_transitions_observed: "counts_transitions g (evaluate_observed g w)"
proof -
  have "counts_transitions g (evaluate_relaxed h w p)"
    if "mode h = mode g" "transition_sequence h = transition_sequence g" for h p
    using counts_transitions_relaxed [of h w p] that by (simp add: counts_transitions_def)
  then show ?thesis
    by (simp add: evaluate_observed_def Let_def counts_transitions_transition)
qed

lemma counts_transitions_evaluate:
  assumes "mode h = mode g" and "transition_sequence h = transition_sequence g"
  shows "counts_transitions g (evaluate h w)"
proof -
  have "counts_transitions g (evaluate_observed h w)"
    using counts_transitions_observed [of h w] assms by (simp add: counts_transitions_def)
  moreover have "counts_transitions g (evaluate_observed (transition k m r) w)"
    if "mode k = mode g" "transition_sequence k = transition_sequence g" for k m r
    using counts_transitions_trans [OF counts_transitions_transition [OF that] counts_transitions_observed] .
  ultimately show ?thesis
    using assms by (simp add: evaluate_def Let_def counts_transitions_transition)
qed

lemma counts_transitions_step: "counts_transitions g (gov_step g op)"
proof -
  have "counts_transitions g h"
    if "mode h = mode g" "transition_sequence h = transition_sequence g" for h
    using that by (simp add: counts_transitions_def)
  then show ?thesis
    by (cases op) (simp_all add: gov_op_defs counts_transitions_transition counts_transitions_evaluate)
qed

subsection \<open>Entering elevated work\<close>

definition idle_evidence :: "ResourceGovernor \<Rightarrow> bool" where
  "idle_evidence g \<longleftrightarrow> user_idle (workload g) \<and> 0 < backlog_mutations (workload g)
     \<and> power_source (pressure g) = Ac \<and> \<not> energy_saver (pressure g)
     \<and> interactive_remaining g = 0 \<and> \<not> user_active (workload g)"

lemma idle_evidence_frame:
  "idle_evidence (g\<lparr>pressure_streak := a\<rparr>) = idle_evidence g"
  "idle_evidence (g\<lparr>recovery_streak := a\<rparr>) = idle_evidence g"
  "idle_evidence (transition g m r) = idle_evidence g"
  "idle_evidence (g\<lparr>recovery_streak := a, cooldown_remaining := b\<rparr>) = idle_evidence g"
  "idle_evidence (g\<lparr>resource_recovery_required := q, recovery_streak := a\<rparr>) = idle_evidence g"
  by (simp_all add: idle_evidence_def)

lemma evaluate_relaxed_enters_idle_boost:
  assumes "mode (evaluate_relaxed h w p) = IdleBoost" and "mode h \<noteq> IdleBoost"
  shows "idle_evidence h \<and> \<not> p"
  using assms
  by (auto simp: evaluate_relaxed_def desired_mode_def Let_def idle_evidence_def word_gt_0
      split: if_splits)

lemma evaluate_observed_enters_idle_boost:
  assumes "mode (evaluate_observed h w) = IdleBoost" and "mode h \<noteq> IdleBoost"
  shows "idle_evidence h \<and> \<not> pressured h"
  using assms
  by (auto simp: evaluate_observed_def Let_def idle_evidence_frame
      dest!: evaluate_relaxed_enters_idle_boost split: if_splits)

lemma evaluate_enters_idle_boost:
  assumes "mode (evaluate h w) = IdleBoost" and "mode h \<noteq> IdleBoost"
  shows "idle_evidence h \<and> \<not> pressured h \<and> resource_available h
    \<and> \<not> resource_recovery_required (evaluate h w)"
proof (cases "resource_available h \<and> \<not> resource_recovery_required h")
  case True
  then show ?thesis
    using assms evaluate_observed_enters_idle_boost [of h w] by (simp add: evaluate_def)
next
  case False
  define g1 where "g1 = (if w then h\<lparr>recovery_streak := saturating_add (recovery_streak h) 1,
      cooldown_remaining := saturating_sub (cooldown_remaining h) 1\<rparr> else h)"
  define k where "k = transition (g1\<lparr>resource_recovery_required := False, recovery_streak := 0\<rparr>)
      Balanced BalancedReason"
  have k: "mode k = Balanced" "idle_evidence k = idle_evidence h" "pressured k = pressured h"
      "\<not> resource_recovery_required k"
    by (simp_all add: k_def g1_def idle_evidence_def pressured_def)
  have "resource_available h \<and> evaluate h w = evaluate_observed k w"
    using False assms by (auto simp: evaluate_def Let_def k_def g1_def split: if_splits)
  then show ?thesis
    using assms k evaluate_observed_enters_idle_boost [of k w] by simp
qed

section \<open>Properties\<close>

text \<open>C40: in every reachable state, while the resource telemetry is unavailable or its recovery is
  still being confirmed, the governor is in pressure mode for that reason and admits no
  background batch.\<close>

theorem governor_fails_closed:
  assumes "gov_reachable c g" and "\<not> resource_available g \<or> resource_recovery_required g"
  shows "dec_mode (decision g) = Pressure \<and> dec_reason (decision g) = ResourceTelemetryUnavailable
    \<and> background_paused (dec_budget (decision g)) \<and> maximum_batches (dec_budget (decision g)) = 0"
proof -
  have "mode g = Pressure \<and> reason g = ResourceTelemetryUnavailable"
    using gov_reachable_fail_closed [OF assms(1)] assms(2) by (auto simp: fail_closed_def)
  then show ?thesis by (simp add: decision_def get_indexing_budget_def)
qed

theorem governor_fails_closed_witness:
  "\<exists>g. gov_reachable default_config g \<and> \<not> resource_available g
     \<and> dec_mode (decision g) = Pressure \<and> background_paused (dec_budget (decision g))"
proof -
  let ?g = "gov_step (new_governor default_config) ObserveUnavailable"
  have r: "gov_reachable default_config ?g"
    by (rule gov_reachable.step [OF gov_reachable.start])
  have u: "\<not> resource_available ?g" by (simp add: report_resource_unavailable_def)
  then show ?thesis using governor_fails_closed [OF r] r by blast
qed

text \<open>After a telemetry loss, no sequence of reports that counts fewer policy windows than
  \<open>recovery_windows\<close> resumes background work, whatever else is reported in between.\<close>

theorem telemetry_recovery_needs_windows:
  assumes "gov_reachable c g" and "length (filter counts_window ops) < unat (recovery_windows c)"
  shows "dec_mode (decision (gov_run (report_resource_unavailable g) ops)) = Pressure
    \<and> background_paused (dec_budget (decision (gov_run (report_resource_unavailable g) ops)))"
proof -
  let ?g = "report_resource_unavailable g"
  have reach: "gov_reachable c ?g" using gov_reachable.step [OF assms(1), of ObserveUnavailable] by simp
  have "resource_recovery_required (gov_run ?g ops)"
  proof (rule gov_run_recovering [OF gov_reachable_fail_closed [OF reach]])
    show "resource_recovery_required ?g" by (simp add: report_resource_unavailable_def)
    show "unat (recovery_streak ?g) + length (filter counts_window ops) < unat (recovery_windows (config ?g))"
      using assms by (simp add: report_resource_unavailable_def gov_reachable_config)
  qed
  then have "mode (gov_run ?g ops) = Pressure"
    using gov_reachable_fail_closed [OF gov_reachable_run [OF reach]] by (simp add: fail_closed_def)
  then show ?thesis by (simp add: decision_def get_indexing_budget_def)
qed

theorem telemetry_recovery_needs_windows_witness:
  "length (filter counts_window [AdvanceWindow, BeginInteractive, AdvanceWindow])
     < unat (recovery_windows default_config)
   \<and> background_paused (dec_budget (decision (gov_run
       (report_resource_unavailable (new_governor default_config))
       [AdvanceWindow, BeginInteractive, AdvanceWindow])))"
proof -
  have l: "length (filter counts_window [AdvanceWindow, BeginInteractive, AdvanceWindow])
      < unat (recovery_windows default_config)" by (simp add: default_config_def)
  show ?thesis using telemetry_recovery_needs_windows [OF gov_reachable.start l] l by blast
qed

text \<open>After a telemetry loss with no active user, exactly \<open>recovery_windows\<close> healthy
  observations bring the governor back to balanced mode.\<close>

theorem telemetry_recovery_completes:
  assumes "\<not> user_active (workload g)" and "healthy (config g) p" and "0 < recovery_windows (config g)"
  shows "mode (gov_run (report_resource_unavailable g)
           (replicate (unat (recovery_windows (config g))) (ObservePressure p))) = Balanced"
proof -
  let ?n = "unat (recovery_windows (config g))"
  let ?g = "report_resource_unavailable g"
  have cfg: "config ?g = config g" by (simp add: report_resource_unavailable_def)
  have n: "0 < ?n" using assms(3) by (simp add: word_gt_0 unat_gt_0)
  have run: "recovering (gov_run ?g (replicate (?n - 1) (ObservePressure p))) (0 + (?n - 1))
      \<and> config (gov_run ?g (replicate (?n - 1) (ObservePressure p))) = config ?g"
    by (rule run_recovering [OF unavailable_recovering]) (use assms n cfg in auto)
  have "replicate ?n (ObservePressure p) = replicate (?n - 1) (ObservePressure p) @ [ObservePressure p]"
    using n by (metis Suc_diff_1 replicate_Suc replicate_append_same)
  moreover have "mode (report_system_pressure (gov_run ?g (replicate (?n - 1) (ObservePressure p))) p) = Balanced"
    using observe_recovered [OF run [THEN conjunct1]] run assms(2) n cfg by simp
  ultimately show ?thesis by (simp add: gov_run_append)
qed

theorem telemetry_recovery_completes_witness:
  "mode (gov_run (report_resource_unavailable (new_governor default_config))
     (replicate (unat (recovery_windows (config (new_governor default_config)))) (ObservePressure default_pressure)))
   = Balanced"
  by (rule telemetry_recovery_completes)
     (simp_all add: new_governor_def healthy_def default_pressure_def default_config_def is_some_and_def)

text \<open>Once a latency-sensitive request has begun, background work stays paused through every
  sequence of reports that counts fewer than \<open>interactive_hold_windows\<close> policy windows (telemetry
  loss, which pauses for its own reason, aside).\<close>

theorem interactive_request_holds_background:
  assumes "gov_reachable c g" and "ObserveUnavailable \<notin> set ops"
    and "length (filter counts_window ops) < unat (interactive_hold_windows c)"
  shows "background_paused (get_indexing_budget (gov_run (begin_interactive_request g) ops))
    \<and> maximum_batches (get_indexing_budget (gov_run (begin_interactive_request g) ops)) = 0"
proof -
  let ?g = "begin_interactive_request g"
  have c: "config ?g = c"
    using gov_reachable_config [OF assms(1)] by (simp add: begin_interactive_request_def Let_def)
  have "held ?g (unat (interactive_hold_windows c))"
    using gov_reachable_fail_closed [OF assms(1)] gov_reachable_config [OF assms(1)]
    by (auto simp: held_def begin_interactive_request_def Let_def fail_closed_def)
  from gov_run_held [OF this assms(3,2)] c
  have "mode (gov_run ?g ops) \<in> {Active, Pressure}" by simp
  then show ?thesis by (auto simp: get_indexing_budget_def)
qed

theorem interactive_request_holds_background_witness:
  "length (filter counts_window [AdvanceWindow, AdvanceWindow]) < unat (interactive_hold_windows default_config)
   \<and> background_paused (get_indexing_budget
       (gov_run (begin_interactive_request (new_governor default_config)) [AdvanceWindow, AdvanceWindow]))"
proof -
  have l: "length (filter counts_window [AdvanceWindow, AdvanceWindow])
      < unat (interactive_hold_windows default_config)" by (simp add: default_config_def)
  have u: "ObserveUnavailable \<notin> set [AdvanceWindow, AdvanceWindow]" by simp
  show ?thesis using interactive_request_holds_background [OF gov_reachable.start u l] l by blast
qed

text \<open>Elevated background work is entered only on trusted evidence: an idle user, a durable
  backlog, external power, live telemetry, no pressure and no interactive hold.\<close>

theorem idle_boost_entry_evidence:
  assumes "mode g \<noteq> IdleBoost" and "mode (gov_step g op) = IdleBoost"
  shows "let g' = gov_step g op in user_idle (workload g') \<and> 0 < backlog_mutations (workload g')
    \<and> power_source (pressure g') = Ac \<and> \<not> energy_saver (pressure g') \<and> \<not> pressured g'
    \<and> resource_available g' \<and> \<not> resource_recovery_required g'
    \<and> interactive_remaining g' = 0 \<and> \<not> user_active (workload g')"
proof -
  have pr: "pressured (evaluate h w) = pressured h" for h w by (simp add: pressured_def)
  show ?thesis
    using assms
    by (cases op)
       (auto simp: gov_op_defs pr idle_evidence_def split: if_splits dest!: evaluate_enters_idle_boost)
qed

theorem idle_boost_entry_evidence_witness:
  "\<exists>g op. mode g \<noteq> IdleBoost \<and> mode (gov_step g op) = IdleBoost \<and> \<not> pressured (gov_step g op)"
proof -
  let ?g = "(new_governor default_config)\<lparr>workload := \<lparr>user_active = False, user_idle = True, backlog_mutations = 7\<rparr>,
      pressure := default_pressure\<lparr>power_source := Ac\<rparr>, recovery_streak := 4\<rparr>"
  have a: "mode ?g \<noteq> IdleBoost" by (simp add: new_governor_def)
  have b: "mode (gov_step ?g AdvanceWindow) = IdleBoost"
    by (simp add: new_governor_def advance_window_def tick_interactive_def evaluate_def
        evaluate_observed_def evaluate_relaxed_def desired_mode_def critical_memory_def pressured_def
        default_pressure_def default_config_def is_some_and_def Let_def saturating_add_def saturating_sub_def)
  have np: "\<not> pressured (gov_step ?g AdvanceWindow)"
    using idle_boost_entry_evidence [OF a b] unfolding Let_def by blast
  show ?thesis by (intro exI conjI) (rule a, rule b, rule np)
qed

text \<open>The transition counter never decreases, and until it saturates an operation that leaves
  it unchanged leaves the mode unchanged.\<close>

theorem transition_counter_tracks_mode:
  "transition_sequence g \<le> transition_sequence (gov_step g op)
   \<and> (transition_sequence (gov_step g op) = transition_sequence g \<and> transition_sequence g \<noteq> u64_max
        \<longrightarrow> mode (gov_step g op) = mode g)"
  using counts_transitions_step [of g op] by (simp add: counts_transitions_def)

theorem transition_counter_tracks_mode_witness:
  "transition_sequence (gov_step (new_governor default_config) (ObserveBacklog 3))
     = transition_sequence (new_governor default_config)
   \<and> mode (gov_step (new_governor default_config) (ObserveBacklog 3)) = mode (new_governor default_config)"
proof -
  have e: "transition_sequence (gov_step (new_governor default_config) (ObserveBacklog 3))
      = transition_sequence (new_governor default_config)"
    "transition_sequence (new_governor default_config) \<noteq> u64_max"
    by (simp_all add: report_backlog_def new_governor_def u64_max_def Let_def)
  show ?thesis using transition_counter_tracks_mode [of "new_governor default_config" "ObserveBacklog 3"] e by blast
qed

text \<open>A budget is paused exactly when every one of its work controls is zero, never asks for
  more than the single writer, and keeps the writer heap between 32 and 128 MiB.\<close>

theorem budget_paused_iff_no_work:
  "let b = budget m saver in
     (background_paused b \<longleftrightarrow> maximum_batches b = 0) \<and> (background_paused b \<longleftrightarrow> maximum_run_time_millis b = 0)
   \<and> (background_paused b \<longleftrightarrow> projection_concurrency b = 0)
   \<and> (background_paused b \<longleftrightarrow> maintenance_intensity b = Paused)
   \<and> projection_concurrency b \<le> 1 \<and> 32 * MIB \<le> writer_heap_bytes b \<and> writer_heap_bytes b \<le> 128 * MIB"
  by (cases m) (simp_all add: MIB_def)

text \<open>The available-memory measure is the rounded-down share in basis points, is present
  whenever both readings are and the total is not zero, and never exceeds 10,000.\<close>

theorem memory_basis_points_bounded:
  assumes "tot \<noteq> 0"
  shows "\<exists>v. memory_basis_points (Some tot) (Some available) = Some v
    \<and> unat v = unat (min available tot) * 10000 div unat tot \<and> unat v \<le> 10000"
proof -
  let ?b = "unat (min available tot) * 10000 div unat tot"
  have "unat tot \<noteq> 0" using assms by (simp add: unat_eq_zero)
  moreover have "unat (min available tot) \<le> unat tot"
    by (simp add: min_def word_le_nat_alt)
  ultimately have "?b \<le> 10000"
    by (metis div_le_mono mult_le_mono1 nonzero_mult_div_cancel_left)
  then show ?thesis
    using assms by (simp add: memory_basis_points_def Let_def unat_of_nat)
qed

theorem memory_basis_points_bounded_witness:
  "memory_basis_points (Some 1000) (Some 250) = Some 2500"
proof -
  have "(1000 :: u64) \<noteq> 0" by simp
  from memory_basis_points_bounded [OF this, of 250] obtain v
    where v: "memory_basis_points (Some 1000) (Some 250) = Some v"
      "unat v = unat (min 250 (1000 :: u64)) * 10000 div unat (1000 :: u64)" by blast
  then have "unat v = unat (2500 :: u16)" by (simp add: min_def)
  then have "v = 2500" by (rule unsigned_word_eqI)
  then show ?thesis using v(1) by simp
qed

end
