(* ===== verification/Unicode.thy ===== *)
theory Unicode
  imports Prelude
begin

text \<open>
  Rust's \<open>char\<close>, \<open>str::chars\<close> and the UTF-16 decoder of the standard library. A \<open>char\<close> is a Unicode
  scalar value, a \<open>str\<close> is the list of its UTF-8 bytes; \<open>chars\<close> decodes and \<open>string_of\<close> (collecting
  into a \<open>String\<close>) encodes. \<open>decode_utf16\<close> pairs surrogates and reports each unpaired one.

  Shown: decoding inverts encoding in both encodings, and what UTF-16 decoding accepts is always a
  scalar value.
\<close>

type_synonym uchar = nat

definition is_surrogate :: "nat \<Rightarrow> bool" where
  "is_surrogate u \<longleftrightarrow> 55296 \<le> u \<and> u \<le> 57343"

definition is_scalar :: "uchar \<Rightarrow> bool" where
  "is_scalar c \<longleftrightarrow> c < 1114112 \<and> \<not> is_surrogate c"

section \<open>UTF-8\<close>

definition utf8_encode :: "uchar \<Rightarrow> nat list" where
  "utf8_encode c =
     (if c < 128 then [c]
      else if c < 2048 then [192 + c div 64, 128 + c mod 64]
      else if c < 65536 then [224 + c div 4096, 128 + c div 64 mod 64, 128 + c mod 64]
      else [240 + c div 262144, 128 + c div 4096 mod 64, 128 + c div 64 mod 64, 128 + c mod 64])"

text \<open>The decoder of a well-formed string: the leading byte gives the length.\<close>

fun utf8_decode :: "nat list \<Rightarrow> uchar list" where
  "utf8_decode [] = []"
| "utf8_decode (a # bs) =
     (if a < 128 then a # utf8_decode bs
      else if a < 224
      then (case bs of b # rest \<Rightarrow> ((a - 192) * 64 + (b - 128)) # utf8_decode rest | _ \<Rightarrow> [])
      else if a < 240
      then (case bs of b # c # rest \<Rightarrow> ((a - 224) * 4096 + (b - 128) * 64 + (c - 128)) # utf8_decode rest
              | _ \<Rightarrow> [])
      else (case bs of b # c # d # rest \<Rightarrow>
                ((a - 240) * 262144 + (b - 128) * 4096 + (c - 128) * 64 + (d - 128)) # utf8_decode rest
              | _ \<Rightarrow> []))"

definition string_of :: "uchar list \<Rightarrow> string" where
  "string_of cs = map char_of (concat (map utf8_encode cs))"

definition chars :: "string \<Rightarrow> uchar list" where
  "chars s = utf8_decode (map of_char s)"

lemma utf8_decode_encode:
  assumes "is_scalar c"
  shows "utf8_decode (utf8_encode c @ rest) = c # utf8_decode rest"
proof -
  have c: "c < 1114112" using assms by (simp add: is_scalar_def)
  consider (1) "c < 128" | (2) "128 \<le> c" "c < 2048" | (3) "2048 \<le> c" "c < 65536" | (4) "65536 \<le> c" by linarith
  then show ?thesis
  proof cases
    case 2
    have "c div 64 * 64 + c mod 64 = c" by simp
    moreover have "c div 64 < 32" using 2 by simp
    ultimately show ?thesis using 2 by (simp add: utf8_encode_def)
  next
    case 3
    have "c div 4096 * 4096 + c div 64 mod 64 * 64 + c mod 64 = c"
      using div_mult_mod_eq [of "c div 64" 64] div_mult_mod_eq [of c 64] div_mult2_eq [of c 64 64]
      by (simp only: mult.commute numeral_times_numeral semiring_norm)
    moreover have "c div 4096 < 16" using 3 by simp
    ultimately show ?thesis using 3 by (simp add: utf8_encode_def)
  next
    case 4
    have "c div 262144 * 262144 + c div 4096 mod 64 * 4096 + c div 64 mod 64 * 64 + c mod 64 = c"
    proof -
      have "c div 4096 = c div 64 div 64" "c div 262144 = c div 4096 div 64"
        by (simp_all add: div_mult2_eq [symmetric])
      moreover have "c div 64 * 64 + c mod 64 = c" "c div 64 div 64 * 64 + c div 64 mod 64 = c div 64"
          "c div 4096 div 64 * 64 + c div 4096 mod 64 = c div 4096"
        by (simp_all only: div_mult_mod_eq)
      ultimately show ?thesis by linarith
    qed
    then show ?thesis using 4 by (simp add: utf8_encode_def)
  qed (simp add: utf8_encode_def)
qed

lemma utf8_encode_bytes: "is_scalar c \<Longrightarrow> b \<in> set (utf8_encode c) \<Longrightarrow> b < 256"
  by (auto simp: utf8_encode_def is_scalar_def split: if_splits)

lemma utf8_decode_concat: "\<forall>c \<in> set cs. is_scalar c \<Longrightarrow> utf8_decode (concat (map utf8_encode cs)) = cs"
  by (induction cs) (simp_all add: utf8_decode_encode)

theorem chars_string_of:
  assumes "\<forall>c \<in> set cs. is_scalar c"
  shows "chars (string_of cs) = cs"
proof -
  have "b < 256" if "b \<in> set (concat (map utf8_encode cs))" for b
    using that assms utf8_encode_bytes by auto
  then have "map (of_char \<circ> char_of) (concat (map utf8_encode cs)) = concat (map utf8_encode cs)"
    by (intro map_idI) (simp add: of_char_of)
  then show ?thesis using utf8_decode_concat [OF assms] by (simp add: chars_def string_of_def)
qed

section \<open>UTF-16\<close>

definition encode_utf16 :: "uchar \<Rightarrow> u16 list" where
  "encode_utf16 c =
     (if c < 65536 then [of_nat c]
      else [of_nat (55296 + (c - 65536) div 1024), of_nat (56320 + (c - 65536) mod 1024)])"

text \<open>\<open>char::decode_utf16\<close>: a leading surrogate followed by a trailing one is one character; any other
  surrogate is an error, after which decoding continues with the next unit.\<close>

fun decode_utf16 :: "u16 list \<Rightarrow> (u16 + uchar) list" where
  "decode_utf16 [] = []"
| "decode_utf16 (u # us) =
     (if \<not> is_surrogate (unat u) then Inr (unat u) # decode_utf16 us
      else if 56320 \<le> unat u then Inl u # decode_utf16 us
      else (case us of
              [] \<Rightarrow> [Inl u]
            | u2 # rest \<Rightarrow>
                if unat u2 < 56320 \<or> 57343 < unat u2 then Inl u # decode_utf16 us
                else Inr (65536 + (unat u - 55296) * 1024 + (unat u2 - 56320)) # decode_utf16 rest))"

definition from_utf16_lossy :: "u16 list \<Rightarrow> uchar list" where
  "from_utf16_lossy us = map (\<lambda>r. case r of Inl _ \<Rightarrow> 65533 | Inr c \<Rightarrow> c) (decode_utf16 us)"

lemma decode_encode_utf16:
  assumes "is_scalar c"
  shows "decode_utf16 (encode_utf16 c @ rest) = Inr c # decode_utf16 rest"
proof (cases "c < 65536")
  case True
  then have "unat (of_nat c :: u16) = c" by (simp add: unat_of_nat)
  with True assms show ?thesis by (simp add: encode_utf16_def is_scalar_def)
next
  case False
  have c: "c < 1114112" using assms by (simp add: is_scalar_def)
  define k where "k = c - 65536"
  have k: "k < 1048576" "k div 1024 < 1024" "k mod 1024 < 1024" "c = 65536 + k" using c False by (auto simp: k_def)
  have u: "unat (of_nat (55296 + k div 1024) :: u16) = 55296 + k div 1024"
      "unat (of_nat (56320 + k mod 1024) :: u16) = 56320 + k mod 1024"
    using k(2,3) by (simp_all add: unat_of_nat del: of_nat_add)
  have enc: "encode_utf16 c = [of_nat (55296 + k div 1024), of_nat (56320 + k mod 1024)]"
    using False by (simp add: encode_utf16_def k_def)
  have "is_surrogate (55296 + k div 1024)" "\<not> 56320 \<le> 55296 + k div 1024"
    using k(2) by (simp_all add: is_surrogate_def)
  moreover have "\<not> (56320 + k mod 1024 < 56320 \<or> 57343 < 56320 + k mod 1024)" using k(3) by simp
  moreover have "65536 + (55296 + k div 1024 - 55296) * 1024 + (56320 + k mod 1024 - 56320) = c"
    using k(4) by simp
  ultimately show ?thesis unfolding enc by (simp only: append_Cons append_Nil decode_utf16.simps u list.case if_True if_False not_True_eq_False)
qed

lemma decode_utf16_concat:
  "\<forall>c \<in> set cs. is_scalar c \<Longrightarrow> decode_utf16 (concat (map encode_utf16 cs)) = map Inr cs"
  by (induction cs) (simp_all add: decode_encode_utf16)

lemma decode_utf16_scalar: "Inr c \<in> set (decode_utf16 us) \<Longrightarrow> is_scalar c"
proof (induction us rule: decode_utf16.induct)
  case (2 u us)
  have u: "unat u < 65536" using unsigned_less [of u] by simp
  have pair: "is_scalar (65536 + (unat u - 55296) * 1024 + (unat u2 - 56320))"
    if "is_surrogate (unat u)" "\<not> 56320 \<le> unat u" "\<not> (unat u2 < 56320 \<or> 57343 < unat u2)" for u2 :: u16
    using that by (auto simp: is_scalar_def is_surrogate_def)
  show ?case
    using 2 u pair by (auto simp: is_scalar_def split: if_splits list.splits)
qed simp

lemma from_utf16_lossy_scalar: "c \<in> set (from_utf16_lossy us) \<Longrightarrow> is_scalar c"
  using decode_utf16_scalar by (auto simp: from_utf16_lossy_def is_scalar_def is_surrogate_def split: sum.splits)

end
