(* ===== verification/Graph_Domain.thy ===== *)
theory Graph_Domain
  imports Core_Models
begin

text \<open>
  The vocabulary of the durable filesystem graph (\<open>crates/filesystem-graph/src/domain.rs\<close> and
  \<open>error.rs\<close>) with the provider types it takes from \<open>crates/platform-core/src/filesystem.rs\<close>: volume
  descriptors and checkpoints, graph mutations and batches, result summaries and errors, and the
  integer codes under which the store persists the enumerations.

  Shown: a batch is accepted exactly when its checkpoint and every identity its mutations mention
  belong to the batch's volume, and every persisted code decodes to the value it encodes.
\<close>

section \<open>Provider types\<close>

record VolumeDescriptor =
  vd_volume_id :: VolumeId
  vd_display_name :: "string option"
  vd_mount_points :: "string list"
  vd_filesystem :: "string option"
  vd_removable :: bool
  vd_local :: bool

record ProviderCheckpoint =
  pc_provider_id :: string
  pc_format_version :: u32
  pc_volume_id :: VolumeId
  pc_opaque :: bytes

section \<open>Errors\<close>

text \<open>
  The SQLite failures a statement of the store can run into on its own data: a violated unique
  index or foreign key, an exhausted row-id range, a missing row where one is required, a stored
  integer outside the range of its Rust type, an overflowing \<open>sum\<close>. Input/output failures and lock timeouts of the
  database engine are outside the model.
\<close>

datatype sqlite_error =
    ConstraintUnique | ConstraintForeignKey | DatabaseFull | QueryReturnedNoRows
  | IntegralValueOutOfRange int | IntegerOverflow | FromSqlConversionFailure

datatype GraphError =
    Sqlite sqlite_error
  | Serialization
  | InvalidBatch string
  | Invariant string
  | LinkNotFound FileLinkId
  | MissingParent FileKey
  | AmbiguousParent FileKey
  | ParentCycle FileKey
  | TraversalBoundary FileLinkId
  | DepthLimit nat
  | NumericRange string

type_synonym 'a graph_result = "GraphError + 'a"

section \<open>Graph state and mutations\<close>

datatype VolumeState = VolumeOnline | VolumeOffline | NeedsReconciliation

datatype ObservationScanMode = Initial | Reconcile

datatype ObservationScanPhase = Scanning | SweepingLinks | SweepingObjects

record ObservationSession =
  os_volume_id :: VolumeId
  os_scan_generation :: u64
  os_mode :: ObservationScanMode
  os_phase :: ObservationScanPhase

record ObservationFinalizeSummary =
  fs_stale_links_removed :: nat
  fs_stale_objects_tombstoned :: nat
  fs_completed :: bool

datatype GraphMutation =
    UpsertVolume VolumeDescriptor
  | SetVolumeState VolumeId VolumeState
  | UpsertObject FileObjectSnapshot
  | UpsertLink FileLinkSnapshot bool
  | RemoveLink FileLinkId FileKey
  | TombstoneObject FileKey
  | RequireReconciliation VolumeId ReconciliationReason

fun mutation_of_event :: "FilesystemEvent \<Rightarrow> GraphMutation" where
  "mutation_of_event (ObjectObserved obj) = UpsertObject obj"
| "mutation_of_event (LinkObserved link) = UpsertLink link False"
| "mutation_of_event (LinkRemoved link obj) = RemoveLink link obj"
| "mutation_of_event (ObjectRemoved obj) = TombstoneObject obj"
| "mutation_of_event (ReconciliationRequired v r) = RequireReconciliation v r"

record GraphMutationBatch =
  gb_volume_id :: VolumeId
  gb_checkpoint :: ProviderCheckpoint
  gb_mutations :: "GraphMutation list"

definition from_events :: "VolumeId \<Rightarrow> ProviderCheckpoint \<Rightarrow> FilesystemEvent list \<Rightarrow> GraphMutationBatch" where
  "from_events v cp events =
     \<lparr>gb_volume_id = v, gb_checkpoint = cp, gb_mutations = map mutation_of_event events\<rparr>"

fun validate_mutation_volume :: "GraphMutation \<Rightarrow> VolumeId \<Rightarrow> unit graph_result" where
  "validate_mutation_volume m expected =
     and_then
       (case m of
          UpsertVolume d \<Rightarrow> Inr (vd_volume_id d)
        | SetVolumeState v _ \<Rightarrow> Inr v
        | RequireReconciliation v _ \<Rightarrow> Inr v
        | UpsertObject obj \<Rightarrow> Inr (fk_volume_id (obj_object_key obj))
        | UpsertLink link _ \<Rightarrow>
            (case lnk_parent_key link of
               Some parent \<Rightarrow>
                 if fk_volume_id parent \<noteq> fk_volume_id (lnk_object_key link)
                 then Inl (InvalidBatch ''a filesystem link cannot cross volumes'')
                 else Inr (fk_volume_id (lnk_object_key link))
             | None \<Rightarrow> Inr (fk_volume_id (lnk_object_key link)))
        | RemoveLink _ obj \<Rightarrow> Inr (fk_volume_id obj)
        | TombstoneObject obj \<Rightarrow> Inr (fk_volume_id obj))
       (\<lambda>actual. if actual \<noteq> expected
                 then Inl (InvalidBatch ''mutation volume does not match batch volume'')
                 else Inr ())"

fun validate_mutations :: "VolumeId \<Rightarrow> GraphMutation list \<Rightarrow> unit graph_result" where
  "validate_mutations v [] = Inr ()"
| "validate_mutations v (m # ms) =
     and_then (validate_mutation_volume m v) (\<lambda>_. validate_mutations v ms)"

definition graph_batch_validate :: "GraphMutationBatch \<Rightarrow> unit graph_result" where
  "graph_batch_validate b =
     (if pc_volume_id (gb_checkpoint b) \<noteq> gb_volume_id b
      then Inl (InvalidBatch ''checkpoint volume does not match mutation batch'')
      else validate_mutations (gb_volume_id b) (gb_mutations b))"

definition display_path :: "string list \<Rightarrow> string" where
  "display_path components = (if components = [] then []
     else hd components @ concat (map (\<lambda>c. CHR ''/'' # c) (tl components)))"

record PathRefreshJob =
  pj_job_id :: i64
  pj_volume_id :: VolumeId
  pj_root_object :: FileKey
  pj_enqueued_generation :: u64

record ApplySummary =
  as_mutations :: nat
  as_generation :: u64
  as_refresh_jobs_enqueued :: nat
  as_outbox_mutations_appended :: nat

record ProjectorCheckpoint =
  pr_consumer_id :: string
  pr_last_sequence :: u64
  pr_index_generation :: u64

record ProjectionRefreshSummary =
  rs_links_scanned :: nat
  rs_outbox_mutations_appended :: nat
  rs_job_completed :: bool

definition default_refresh_summary :: ProjectionRefreshSummary where
  "default_refresh_summary =
     \<lparr>rs_links_scanned = 0, rs_outbox_mutations_appended = 0, rs_job_completed = False\<rparr>"

record OutboxMaintenanceSummary =
  om_safe_through_sequence :: "u64 option"
  om_deleted_rows :: nat
  om_backlog_remaining :: bool

record DesiredPayloadMaintenanceSummary =
  dp_rewritten_rows :: nat
  dp_backlog_remaining :: bool

datatype GraphIntegrityIssue =
    OrphanObject FileKey
  | MissingParentIssue FileLinkId FileKey

fun volume_state_of_availability :: "Availability \<Rightarrow> VolumeState" where
  "volume_state_of_availability Online = VolumeOnline"
| "volume_state_of_availability Offline = VolumeOffline"
| "volume_state_of_availability UnknownAvailability = NeedsReconciliation"

section \<open>Persisted codes\<close>

fun file_kind_code :: "FileKind \<Rightarrow> i64" where
  "file_kind_code File = 0"
| "file_kind_code Directory = 1"
| "file_kind_code Symlink = 2"
| "file_kind_code Special = 3"
| "file_kind_code OtherKind = 4"

definition file_kind_from_code :: "i64 \<Rightarrow> sqlite_error + FileKind" where
  "file_kind_from_code c =
     (if c = 0 then Inr File else if c = 1 then Inr Directory else if c = 2 then Inr Symlink
      else if c = 3 then Inr Special else if c = 4 then Inr OtherKind
      else Inl (IntegralValueOutOfRange c))"

fun availability_code :: "Availability \<Rightarrow> i64" where
  "availability_code Online = 0"
| "availability_code Offline = 1"
| "availability_code UnknownAvailability = 2"

definition availability_from_code :: "i64 \<Rightarrow> sqlite_error + Availability" where
  "availability_from_code c =
     (if c = 0 then Inr Online else if c = 1 then Inr Offline
      else if c = 2 then Inr UnknownAvailability else Inl (IntegralValueOutOfRange c))"

fun volume_state_code :: "VolumeState \<Rightarrow> i64" where
  "volume_state_code VolumeOnline = 0"
| "volume_state_code VolumeOffline = 1"
| "volume_state_code NeedsReconciliation = 2"

definition volume_state_from_code :: "i64 \<Rightarrow> sqlite_error + VolumeState" where
  "volume_state_from_code c =
     (if c = 0 then Inr VolumeOnline else if c = 1 then Inr VolumeOffline
      else if c = 2 then Inr NeedsReconciliation else Inl (IntegralValueOutOfRange c))"

fun observation_scan_mode_code :: "ObservationScanMode \<Rightarrow> i64" where
  "observation_scan_mode_code Initial = 0"
| "observation_scan_mode_code Reconcile = 1"

definition observation_scan_mode_from_code :: "i64 \<Rightarrow> sqlite_error + ObservationScanMode" where
  "observation_scan_mode_from_code c =
     (if c = 0 then Inr Initial else if c = 1 then Inr Reconcile
      else Inl (IntegralValueOutOfRange c))"

fun observation_scan_phase_code :: "ObservationScanPhase \<Rightarrow> i64" where
  "observation_scan_phase_code Scanning = 0"
| "observation_scan_phase_code SweepingLinks = 1"
| "observation_scan_phase_code SweepingObjects = 2"

definition observation_scan_phase_from_code :: "i64 \<Rightarrow> sqlite_error + ObservationScanPhase" where
  "observation_scan_phase_from_code c =
     (if c = 0 then Inr Scanning else if c = 1 then Inr SweepingLinks
      else if c = 2 then Inr SweepingObjects else Inl (IntegralValueOutOfRange c))"

fun reconciliation_reason_code :: "ReconciliationReason \<Rightarrow> i64" where
  "reconciliation_reason_code SourceHistoryUnavailable = 0"
| "reconciliation_reason_code EventOverflow = 1"
| "reconciliation_reason_code InconsistentSnapshot = 2"
| "reconciliation_reason_code ProviderRequested = 3"

section \<open>Properties\<close>

text \<open>Every volume a mutation speaks about.\<close>

fun mutation_volumes :: "GraphMutation \<Rightarrow> VolumeId set" where
  "mutation_volumes (UpsertVolume d) = {vd_volume_id d}"
| "mutation_volumes (SetVolumeState v _) = {v}"
| "mutation_volumes (RequireReconciliation v _) = {v}"
| "mutation_volumes (UpsertObject obj) = {fk_volume_id (obj_object_key obj)}"
| "mutation_volumes (UpsertLink link _) =
     insert (fk_volume_id (lnk_object_key link)) (fk_volume_id ` set_option (lnk_parent_key link))"
| "mutation_volumes (RemoveLink _ obj) = {fk_volume_id obj}"
| "mutation_volumes (TombstoneObject obj) = {fk_volume_id obj}"

lemma validate_mutation_volume_iff:
  "validate_mutation_volume m v = Inr () \<longleftrightarrow> mutation_volumes m \<subseteq> {v}"
  by (cases m) (auto split: option.splits if_splits)

lemma validate_mutations_iff:
  "validate_mutations v ms = Inr () \<longleftrightarrow> (\<forall>m \<in> set ms. mutation_volumes m \<subseteq> {v})"
  by (induction ms)
     (simp_all add: result_simps validate_mutation_volume_iff del: validate_mutation_volume.simps)

text \<open>A mutation batch is accepted exactly when its checkpoint belongs to its volume and no
  mutation mentions an object, parent or volume of another volume.\<close>

theorem graph_batch_volume_isolation:
  "graph_batch_validate b = Inr () \<longleftrightarrow>
     pc_volume_id (gb_checkpoint b) = gb_volume_id b
   \<and> (\<forall>m \<in> set (gb_mutations b). mutation_volumes m \<subseteq> {gb_volume_id b})"
  by (simp add: graph_batch_validate_def validate_mutations_iff)

theorem graph_batch_volume_isolation_witness:
  "\<exists>b. graph_batch_validate b = Inr () \<and> gb_mutations b \<noteq> []"
proof -
  let ?v = "from_u128 1 :: VolumeId"
  let ?cp = "\<lparr>pc_provider_id = ''p'', pc_format_version = 1, pc_volume_id = ?v, pc_opaque = []\<rparr>"
  let ?b = "\<lparr>gb_volume_id = ?v, gb_checkpoint = ?cp, gb_mutations = [SetVolumeState ?v VolumeOffline]\<rparr>"
  have "graph_batch_validate ?b = Inr ()"
    unfolding graph_batch_volume_isolation by simp
  then show ?thesis by (intro exI [of _ ?b]) simp
qed

lemma file_kind_code_iff: "file_kind_from_code c = Inr k \<longleftrightarrow> c = file_kind_code k"
  by (cases k) (auto simp: file_kind_from_code_def)

lemma availability_code_iff: "availability_from_code c = Inr a \<longleftrightarrow> c = availability_code a"
  by (cases a) (auto simp: availability_from_code_def)

lemma volume_state_code_iff: "volume_state_from_code c = Inr s \<longleftrightarrow> c = volume_state_code s"
  by (cases s) (auto simp: volume_state_from_code_def)

lemma scan_mode_code_iff:
  "observation_scan_mode_from_code c = Inr m \<longleftrightarrow> c = observation_scan_mode_code m"
  by (cases m) (auto simp: observation_scan_mode_from_code_def)

lemma scan_phase_code_iff:
  "observation_scan_phase_from_code c = Inr p \<longleftrightarrow> c = observation_scan_phase_code p"
  by (cases p) (auto simp: observation_scan_phase_from_code_def)

text \<open>Every enumeration code written to the database decodes to the value that was encoded,
  and a code decodes only to the value it is the code of.\<close>

theorem persisted_codes_round_trip:
  "(file_kind_from_code c = Inr k \<longleftrightarrow> c = file_kind_code k)
   \<and> (availability_from_code c = Inr a \<longleftrightarrow> c = availability_code a)
   \<and> (volume_state_from_code c = Inr s \<longleftrightarrow> c = volume_state_code s)
   \<and> (observation_scan_mode_from_code c = Inr m \<longleftrightarrow> c = observation_scan_mode_code m)
   \<and> (observation_scan_phase_from_code c = Inr p \<longleftrightarrow> c = observation_scan_phase_code p)"
  by (simp add: file_kind_code_iff availability_code_iff volume_state_code_iff scan_mode_code_iff
      scan_phase_code_iff)

end
