(* ===== verification/Usn_Record.thy ===== *)
theory Usn_Record
  imports Unicode Graph_Domain
begin

text \<open>
  Decoding of NTFS change-journal pages (\<open>crates/windows-fs/src/record.rs\<close>) and the platform error
  type (\<open>crates/platform-core/src/errors.rs\<close>). A page is the bytes one kernel call returns: an eight-byte
  continuation position and the records after it. \<open>usize\<close> offsets are \<open>nat\<close> with the 64-bit bound written
  out in \<open>usize_checked_add\<close>; \<open>slice::get\<close> is \<open>get_range\<close>. The loop of \<open>decode_page\<close> is
  \<open>decode_records\<close>, whose termination follows from the sixty bytes every record consumes.

  Shown: a page in the version 2 layout is decoded to the records it was written from; on any bytes at
  all the decoder ends, partitions exactly the bytes it accepts, and fails only with the two documented
  error kinds. The specification side has an encoder of the layout (\<open>encode_v2\<close>, \<open>encode_page\<close>).
\<close>

section \<open>Platform errors\<close>

datatype PlatformErrorKind =
    PePermissionDenied | PeUnsupported | PeUnavailable | PeInvalidCheckpoint | PeSourceHistoryGap
  | PeResourceExhausted | PeCancelled | PeIo | PeInternal

record PlatformError =
  pe_kind :: PlatformErrorKind
  pe_operation :: string
  pe_detail :: string

type_synonym 'a platform_result = "PlatformError + 'a"

definition platform_error :: "PlatformErrorKind \<Rightarrow> string \<Rightarrow> string \<Rightarrow> PlatformError" where
  "platform_error kind operation detail = \<lparr>pe_kind = kind, pe_operation = operation, pe_detail = detail\<rparr>"

lemma platform_error_kind [simp]: "pe_kind (platform_error k op d) = k"
  by (simp add: platform_error_def)

section \<open>Record layout\<close>

definition V2_FIXED_BYTES :: nat where "V2_FIXED_BYTES = 60"
definition MAX_RECORD_BYTES :: nat where "MAX_RECORD_BYTES = 1048576"

definition REASON_DATA_CHANGE :: u32 where "REASON_DATA_CHANGE = 0x7"
definition REASON_FILE_CREATE :: u32 where "REASON_FILE_CREATE = 0x100"
definition REASON_FILE_DELETE :: u32 where "REASON_FILE_DELETE = 0x200"
definition REASON_RENAME_OLD_NAME :: u32 where "REASON_RENAME_OLD_NAME = 0x1000"
definition REASON_RENAME_NEW_NAME :: u32 where "REASON_RENAME_NEW_NAME = 0x2000"
definition REASON_BASIC_INFO_CHANGE :: u32 where "REASON_BASIC_INFO_CHANGE = 0x8000"
definition REASON_HARD_LINK_CHANGE :: u32 where "REASON_HARD_LINK_CHANGE = 0x10000"

record SanitizedUsnRecord =
  usn_file_reference :: u64
  usn_parent_reference :: u64
  usn_position :: i64
  usn_reason :: u32
  usn_attributes :: u32
  usn_name :: string
  usn_had_invalid_utf16 :: bool

section \<open>Field readers\<close>

definition malformed :: "string \<Rightarrow> PlatformError" where
  "malformed detail = platform_error PeIo ''decode_usn_record'' detail"

definition usize_checked_add :: "nat \<Rightarrow> nat \<Rightarrow> nat option" where
  "usize_checked_add a b = (if a + b < 2 ^ 64 then Some (a + b) else None)"

definition get_range :: "bytes \<Rightarrow> nat \<Rightarrow> nat \<Rightarrow> bytes option" where
  "get_range input start stop =
     (if start \<le> stop \<and> stop \<le> length input then Some (take (stop - start) (drop start input)) else None)"

definition field_bytes :: "bytes \<Rightarrow> nat \<Rightarrow> nat \<Rightarrow> bytes platform_result" where
  "field_bytes input offset len =
     and_then (ok_or (usize_checked_add offset len) (malformed ''field offset overflow''))
       (\<lambda>stop. ok_or (get_range input offset stop) (malformed ''field outside input''))"

definition read_u16 :: "bytes \<Rightarrow> nat \<Rightarrow> u16 platform_result" where
  "read_u16 input offset = and_then (field_bytes input offset 2) (\<lambda>value. Inr (of_nat (le_nat value)))"

definition read_u32 :: "bytes \<Rightarrow> nat \<Rightarrow> u32 platform_result" where
  "read_u32 input offset = and_then (field_bytes input offset 4) (\<lambda>value. Inr (of_nat (le_nat value)))"

definition read_u64 :: "bytes \<Rightarrow> nat \<Rightarrow> u64 platform_result" where
  "read_u64 input offset = and_then (field_bytes input offset 8) (\<lambda>value. Inr (of_nat (le_nat value)))"

text \<open>\<open>i64::from_le_bytes\<close> reads the same eight bytes in two's complement.\<close>

definition read_i64 :: "bytes \<Rightarrow> nat \<Rightarrow> i64 platform_result" where
  "read_i64 input offset =
     and_then (field_bytes input offset 8) (\<lambda>value. Inr (sint (of_nat (le_nat value) :: u64)))"

fun le_units :: "bytes \<Rightarrow> u16 list" where
  "le_units (a # b # rest) = of_nat (le_nat [a, b]) # le_units rest"
| "le_units _ = []"

section \<open>The decoder\<close>

definition decode_v2 :: "bytes \<Rightarrow> (SanitizedUsnRecord \<times> nat) platform_result" where
  "decode_v2 input =
     and_then (read_u32 input 0) (\<lambda>length_field.
       let len = unat length_field in
       if \<not> (V2_FIXED_BYTES \<le> len \<and> len \<le> MAX_RECORD_BYTES) \<or> length input < len \<or> len mod 8 \<noteq> 0
       then Inl (malformed ''invalid, truncated, oversized, or misaligned record length'')
       else
       and_then (read_u16 input 4) (\<lambda>version.
         if version \<noteq> 2
         then Inl (platform_error PeUnsupported ''decode_usn_record''
                ''only USN record version 2 is supported by this spike'')
         else
         and_then (read_u16 input 56) (\<lambda>name_len_field.
         and_then (read_u16 input 58) (\<lambda>name_offset_field.
           let name_len = unat name_len_field; name_offset = unat name_offset_field in
           if name_len mod 2 \<noteq> 0 \<or> name_offset < V2_FIXED_BYTES
             \<or> (case usize_checked_add name_offset name_len of None \<Rightarrow> True | Some stop \<Rightarrow> len < stop)
           then Inl (malformed ''filename range is outside the record'')
           else
           let units = le_units (take name_len (drop name_offset input));
               had_invalid_utf16 = list_ex isl (decode_utf16 units);
               name = string_of (from_utf16_lossy units)
           in
           and_then (read_u64 input 8) (\<lambda>file_reference.
           and_then (read_u64 input 16) (\<lambda>parent_reference.
           and_then (read_i64 input 24) (\<lambda>position.
           and_then (read_u32 input 40) (\<lambda>reason.
           and_then (read_u32 input 52) (\<lambda>attributes.
             Inr (\<lparr>usn_file_reference = file_reference, usn_parent_reference = parent_reference,
                   usn_position = position, usn_reason = reason, usn_attributes = attributes,
                   usn_name = name, usn_had_invalid_utf16 = had_invalid_utf16\<rparr>, len))))))))))"

lemma decode_v2_length:
  "decode_v2 input = Inr (r, consumed) \<Longrightarrow>
     V2_FIXED_BYTES \<le> consumed \<and> consumed \<le> MAX_RECORD_BYTES \<and> consumed \<le> length input \<and> consumed mod 8 = 0"
  unfolding decode_v2_def by (auto simp: result_simps Let_def split: if_splits)

function decode_records ::
  "bytes \<Rightarrow> nat \<Rightarrow> SanitizedUsnRecord list \<Rightarrow> SanitizedUsnRecord list platform_result"
where
  "decode_records input offset records =
     (if offset < length input
      then (case decode_v2 (drop offset input) of
              Inl e \<Rightarrow> Inl e
            | Inr (record, consumed) \<Rightarrow>
                (case usize_checked_add offset consumed of
                   None \<Rightarrow> Inl (malformed ''page offset overflow'')
                 | Some offset' \<Rightarrow> decode_records input offset' (records @ [record])))
      else Inr records)"
  by pat_completeness auto

termination
  by (relation "measure (\<lambda>(input, offset, _). length input - offset)")
     (auto dest!: decode_v2_length simp: usize_checked_add_def V2_FIXED_BYTES_def split: if_splits)

declare decode_records.simps [simp del]

definition decode_page :: "bytes \<Rightarrow> (i64 \<times> SanitizedUsnRecord list) platform_result" where
  "decode_page input =
     and_then (read_i64 input 0) (\<lambda>next_position.
     and_then (decode_records input 8 []) (\<lambda>records. Inr (next_position, records)))"

section \<open>Reading fields\<close>

text \<open>The number in the \<open>n\<close> bytes at an offset, and the name range of a record.\<close>

definition field :: "bytes \<Rightarrow> nat \<Rightarrow> nat \<Rightarrow> nat" where
  "field input offset n = le_nat (take n (drop offset input))"

lemma field_bytes_in_range:
  assumes "offset + n \<le> length input" "offset + n < 2 ^ 64"
  shows "field_bytes input offset n = Inr (take n (drop offset input))"
  using assms by (simp add: field_bytes_def usize_checked_add_def get_range_def)

lemma field_bytes_out_of_range:
  assumes "length input < offset + n"
  shows "field_bytes input offset n = Inl (malformed ''field outside input'')
    \<or> field_bytes input offset n = Inl (malformed ''field offset overflow'')"
  using assms by (auto simp: field_bytes_def usize_checked_add_def get_range_def)

lemma read_in_range:
  "offset + 2 \<le> length input \<Longrightarrow> offset \<le> 60 \<Longrightarrow> read_u16 input offset = Inr (of_nat (field input offset 2))"
  "offset + 4 \<le> length input \<Longrightarrow> offset \<le> 60 \<Longrightarrow> read_u32 input offset = Inr (of_nat (field input offset 4))"
  "offset + 8 \<le> length input \<Longrightarrow> offset \<le> 60 \<Longrightarrow> read_u64 input offset = Inr (of_nat (field input offset 8))"
  "offset + 8 \<le> length input \<Longrightarrow> offset \<le> 60 \<Longrightarrow>
     read_i64 input offset = Inr (sint (of_nat (field input offset 8) :: u64))"
  by (simp_all add: field_bytes_in_range read_u16_def read_u32_def read_u64_def read_i64_def field_def)

lemma read_u32_short: "length input < 4 \<Longrightarrow> \<exists>d. read_u32 input 0 = Inl (malformed d)"
  using field_bytes_out_of_range [of input 0 4] by (auto simp: read_u32_def)

lemma field_bound: "field input offset n < 256 ^ n"
proof -
  have "field input offset n < 256 ^ length (take n (drop offset input))"
    unfolding field_def by (rule le_nat_less)
  also have "\<dots> \<le> 256 ^ n" by (rule power_increasing) simp_all
  finally show ?thesis .
qed

lemma field_append: "offset + n \<le> length p \<Longrightarrow> field (p @ rest) offset n = field p offset n"
  by (simp add: field_def)

lemma unat_field:
  "unat (of_nat (field input offset 4) :: u32) = field input offset 4"
  "unat (of_nat (field input offset 2) :: u16) = field input offset 2"
  using field_bound [of input offset 4] field_bound [of input offset 2]
  by (simp_all add: unat_of_nat)

text \<open>What the record decoder checks and what it returns, with the reads resolved.\<close>

definition v2_length_ok :: "bytes \<Rightarrow> bool" where
  "v2_length_ok input \<longleftrightarrow> (let len = field input 0 4 in
     V2_FIXED_BYTES \<le> len \<and> len \<le> MAX_RECORD_BYTES \<and> len \<le> length input \<and> len mod 8 = 0)"

definition v2_name_ok :: "bytes \<Rightarrow> bool" where
  "v2_name_ok input \<longleftrightarrow> (let name_len = field input 56 2; name_offset = field input 58 2 in
     even name_len \<and> V2_FIXED_BYTES \<le> name_offset \<and> name_offset + name_len \<le> field input 0 4)"

definition v2_units :: "bytes \<Rightarrow> u16 list" where
  "v2_units input = le_units (take (field input 56 2) (drop (field input 58 2) input))"

definition v2_record :: "bytes \<Rightarrow> SanitizedUsnRecord" where
  "v2_record input =
     \<lparr>usn_file_reference = of_nat (field input 8 8), usn_parent_reference = of_nat (field input 16 8),
      usn_position = sint (of_nat (field input 24 8) :: u64), usn_reason = of_nat (field input 40 4),
      usn_attributes = of_nat (field input 52 4), usn_name = string_of (from_utf16_lossy (v2_units input)),
      usn_had_invalid_utf16 = list_ex isl (decode_utf16 (v2_units input))\<rparr>"

lemma decode_v2_resolved:
  assumes "v2_length_ok input"
  shows "decode_v2 input =
    (if (of_nat (field input 4 2) :: u16) \<noteq> 2
     then Inl (platform_error PeUnsupported ''decode_usn_record''
                 ''only USN record version 2 is supported by this spike'')
     else if \<not> v2_name_ok input then Inl (malformed ''filename range is outside the record'')
     else Inr (v2_record input, field input 0 4))"
proof -
  have len: "60 \<le> length input" using assms by (simp add: v2_length_ok_def Let_def V2_FIXED_BYTES_def)
  have no: "\<not> (\<not> (V2_FIXED_BYTES \<le> field input 0 4 \<and> field input 0 4 \<le> MAX_RECORD_BYTES)
      \<or> length input < field input 0 4 \<or> field input 0 4 mod 8 \<noteq> 0)"
    using assms by (auto simp: v2_length_ok_def Let_def)
  have small: "field input 56 2 + field input 58 2 < 2 ^ 64"
    using field_bound [of input 56 2] field_bound [of input 58 2] by simp
  have name: "(field input 56 2 mod 2 \<noteq> 0 \<or> field input 58 2 < V2_FIXED_BYTES
      \<or> (case usize_checked_add (field input 58 2) (field input 56 2) of
           None \<Rightarrow> True | Some stop \<Rightarrow> field input 0 4 < stop)) \<longleftrightarrow> \<not> v2_name_ok input"
    using small by (auto simp: v2_name_ok_def usize_checked_add_def Let_def even_iff_mod_2_eq_zero add.commute)
  note reads = read_in_range [where input = input]
  have "read_u32 input 0 = Inr (of_nat (field input 0 4))"
      "read_u16 input 4 = Inr (of_nat (field input 4 2))"
      "read_u16 input 56 = Inr (of_nat (field input 56 2))"
      "read_u16 input 58 = Inr (of_nat (field input 58 2))"
      "read_u64 input 8 = Inr (of_nat (field input 8 8))"
      "read_u64 input 16 = Inr (of_nat (field input 16 8))"
      "read_i64 input 24 = Inr (sint (of_nat (field input 24 8) :: u64))"
      "read_u32 input 40 = Inr (of_nat (field input 40 4))"
      "read_u32 input 52 = Inr (of_nat (field input 52 4))"
    using len by (simp_all add: reads)
  then show ?thesis
    unfolding decode_v2_def
    by (simp only: and_then_Inr Let_def unat_field no name if_False v2_units_def v2_record_def)
qed

lemma decode_v2_bad_length:
  assumes "\<not> v2_length_ok input"
  shows "\<exists>d. decode_v2 input = Inl (malformed d)"
proof (cases "length input < 4")
  case True
  then show ?thesis using read_u32_short [of input] by (auto simp: decode_v2_def)
next
  case False
  then have "read_u32 input 0 = Inr (of_nat (field input 0 4))" by (simp add: read_in_range)
  then show ?thesis using assms by (auto simp: decode_v2_def unat_field v2_length_ok_def Let_def)
qed

lemma decode_v2_Inr_iff:
  "decode_v2 input = Inr (r, c) \<longleftrightarrow>
     v2_length_ok input \<and> field input 4 2 = 2 \<and> v2_name_ok input \<and> r = v2_record input \<and> c = field input 0 4"
proof (cases "v2_length_ok input")
  case True
  have "(of_nat (field input 4 2) :: u16) = 2 \<longleftrightarrow> field input 4 2 = 2"
    using field_bound [of input 4 2] by (simp add: word_unat_eq_iff unat_of_nat)
  then show ?thesis using True by (auto simp: decode_v2_resolved)
next
  case False
  then show ?thesis using decode_v2_bad_length [of input] by auto
qed

lemma decode_v2_error_kind:
  "decode_v2 input = Inl e \<Longrightarrow> pe_kind e = PeIo \<or> pe_kind e = PeUnsupported"
  using decode_v2_bad_length [of input] decode_v2_resolved [of input]
  by (cases "v2_length_ok input") (auto simp: malformed_def split: if_splits)

text \<open>A record is decoded from its own bytes: what follows it is never looked at.\<close>

lemma v2_append:
  assumes "60 \<le> length p"
  shows "v2_length_ok p \<Longrightarrow> v2_length_ok (p @ rest)"
    and "v2_name_ok (p @ rest) \<longleftrightarrow> v2_name_ok p"
    and "field (p @ rest) 4 2 = field p 4 2" "field (p @ rest) 0 4 = field p 0 4"
    and "v2_name_ok p \<Longrightarrow> field p 0 4 \<le> length p \<Longrightarrow> v2_record (p @ rest) = v2_record p"
  using assms
  by (auto simp: v2_length_ok_def v2_name_ok_def v2_record_def v2_units_def field_append Let_def)

lemma decode_v2_append:
  assumes "decode_v2 p = Inr (r, c)"
  shows "decode_v2 (p @ rest) = Inr (r, c)"
proof -
  have p: "v2_length_ok p" "field p 4 2 = 2" "v2_name_ok p" "r = v2_record p" "c = field p 0 4"
    using assms by (simp_all add: decode_v2_Inr_iff)
  then have "60 \<le> length p" "field p 0 4 \<le> length p" by (auto simp: v2_length_ok_def Let_def V2_FIXED_BYTES_def)
  with p show ?thesis by (simp add: decode_v2_Inr_iff v2_append)
qed

lemma decode_v2_take:
  assumes "decode_v2 input = Inr (r, c)"
  shows "decode_v2 (take c input) = Inr (r, c)"
proof -
  let ?p = "take c input"
  have i: "v2_length_ok input" "field input 4 2 = 2" "v2_name_ok input" "r = v2_record input" "c = field input 0 4"
    using assms by (simp_all add: decode_v2_Inr_iff)
  have c: "60 \<le> c" "c \<le> length input" "c \<le> MAX_RECORD_BYTES" "c mod 8 = 0"
    using i(1,5) by (auto simp: v2_length_ok_def Let_def V2_FIXED_BYTES_def)
  have split: "?p @ drop c input = input" and len: "60 \<le> length ?p" "length ?p = c" using c by auto
  note app = v2_append [OF len(1), of "drop c input", unfolded split]
  have "v2_length_ok ?p"
    unfolding v2_length_ok_def Let_def V2_FIXED_BYTES_def using app(4) c i(5) len by simp
  moreover have name: "v2_name_ok ?p" using app(2) i(3) by blast
  moreover have "v2_record input = v2_record ?p"
    by (rule app(5) [OF name]) (simp only: app(4) [symmetric] i(5) [symmetric] len(2))
  moreover have "c = field ?p 0 4" by (rule trans [OF i(5) app(4)])
  moreover have "field ?p 4 2 = 2" by (rule trans [OF app(3) [symmetric] i(2)])
  ultimately show ?thesis unfolding decode_v2_Inr_iff i(4) by (intro conjI)
qed

section \<open>Pages are sequences of records\<close>

abbreviation decodes_to :: "bytes \<Rightarrow> SanitizedUsnRecord \<Rightarrow> bool" where
  "decodes_to p r \<equiv> decode_v2 p = Inr (r, length p)"

lemma decode_records_complete:
  assumes "list_all2 decodes_to parts rs" "length (pre @ concat parts) < 2 ^ 64"
  shows "decode_records (pre @ concat parts) (length pre) acc = Inr (acc @ rs)"
  using assms
proof (induction parts rs arbitrary: pre acc rule: list_all2_induct)
  case Nil
  then show ?case by (simp add: decode_records.simps [of pre])
next
  case (Cons p parts r rs)
  have step: "decode_v2 (drop (length pre) (pre @ concat (p # parts))) = Inr (r, length p)"
    using decode_v2_append [OF Cons.hyps(1), of "concat parts"] by simp
  have "p \<noteq> []" using decode_v2_length [OF Cons.hyps(1)] by (auto simp: V2_FIXED_BYTES_def)
  moreover have "usize_checked_add (length pre) (length p) = Some (length (pre @ p))"
    using Cons.prems by (simp add: usize_checked_add_def)
  moreover have "decode_records ((pre @ p) @ concat parts) (length (pre @ p)) (acc @ [r]) = Inr ((acc @ [r]) @ rs)"
    using Cons.prems by (intro Cons.IH) simp
  ultimately show ?case
    using step by (simp add: decode_records.simps [of "pre @ p @ concat parts" "length pre"])
qed

lemma decode_records_sound:
  assumes "decode_records input offset acc = Inr out" "offset \<le> length input"
  shows "\<exists>parts rs. out = acc @ rs \<and> drop offset input = concat parts \<and> list_all2 decodes_to parts rs"
  using assms
proof (induction input offset acc rule: decode_records.induct)
  case (1 input offset acc)
  show ?case
  proof (cases "offset < length input")
    case False
    then have "out = acc @ [] \<and> drop offset input = concat [] \<and> list_all2 decodes_to [] []"
      using 1(2) by (simp add: decode_records.simps [of input])
    then show ?thesis by blast
  next
    case True
    obtain r c where dec: "decode_v2 (drop offset input) = Inr (r, c)"
      using 1(2) True by (cases "decode_v2 (drop offset input)") (auto simp: decode_records.simps [of input])
    obtain off where off: "usize_checked_add offset c = Some off"
      using 1(2) True dec by (cases "usize_checked_add offset c") (auto simp: decode_records.simps [of input])
    have rec: "decode_records input off (acc @ [r]) = Inr out"
      using 1(2) True dec off by (simp add: decode_records.simps [of input offset])
    have c: "off = offset + c" "c \<le> length input - offset"
      using off decode_v2_length [OF dec] by (auto simp: usize_checked_add_def split: if_splits)
    obtain parts rs where ih: "out = (acc @ [r]) @ rs" "drop off input = concat parts" "list_all2 decodes_to parts rs"
      using 1(1) [OF True dec refl off rec] c True by fastforce
    let ?p = "take c (drop offset input)"
    have len: "length ?p = c" using c by simp
    have "decodes_to ?p r" using decode_v2_take [OF dec] unfolding len .
    moreover have "drop offset input = ?p @ drop off input"
      using c(1) append_take_drop_id [of c "drop offset input"] by (simp add: add.commute)
    ultimately have "out = acc @ (r # rs) \<and> drop offset input = concat (?p # parts)
        \<and> list_all2 decodes_to (?p # parts) (r # rs)"
      using ih by simp
    then show ?thesis by blast
  qed
qed

lemma decode_records_error_kind:
  assumes "decode_records input offset acc = Inl e"
  shows "pe_kind e = PeIo \<or> pe_kind e = PeUnsupported"
  using assms
proof (induction input offset acc rule: decode_records.induct)
  case (1 input offset acc)
  show ?case
  proof (cases "decode_v2 (drop offset input)")
    case (Inl e')
    then show ?thesis using 1(2) decode_v2_error_kind [OF Inl]
      by (auto simp: decode_records.simps [of input offset] split: if_splits)
  next
    case (Inr rc)
    then show ?thesis using 1
      by (cases rc; cases "usize_checked_add offset (snd rc)")
         (auto simp: decode_records.simps [of input offset] malformed_def split: if_splits)
  qed
qed

lemma read_i64_iff:
  "read_i64 input 0 = Inr n \<longleftrightarrow> 8 \<le> length input \<and> n = sint (of_nat (field input 0 8) :: u64)"
proof (cases "8 \<le> length input")
  case True
  then show ?thesis using read_in_range(4) [of 0 input] by auto
next
  case False
  then show ?thesis using field_bytes_out_of_range [of input 0 8] by (auto simp: read_i64_def)
qed

lemma decode_page_Inr_iff:
  assumes "length input < 2 ^ 64"
  shows "decode_page input = Inr (n, rs) \<longleftrightarrow>
     8 \<le> length input \<and> n = sint (of_nat (field input 0 8) :: u64)
     \<and> (\<exists>parts. drop 8 input = concat parts \<and> list_all2 decodes_to parts rs)"
    (is "?l \<longleftrightarrow> ?h \<and> ?n \<and> ?r")
proof -
  have "decode_records input 8 [] = Inr rs \<longleftrightarrow> ?r" if "8 \<le> length input"
  proof
    assume "decode_records input 8 [] = Inr rs"
    from decode_records_sound [OF this that] show ?r by auto
  next
    assume ?r
    then obtain parts where p: "drop 8 input = concat parts" "list_all2 decodes_to parts rs" by blast
    have "input = take 8 input @ concat parts" using p(1) by (metis append_take_drop_id)
    then show "decode_records input 8 [] = Inr rs"
      using decode_records_complete [OF p(2), of "take 8 input" "[]"] assms that by simp
  qed
  then show ?thesis by (auto simp: decode_page_def result_simps read_i64_iff)
qed

section \<open>Names\<close>

text \<open>A Rust \<open>String\<close>: its bytes are the UTF-8 encoding of scalar values.\<close>

definition valid_utf8 :: "string \<Rightarrow> bool" where
  "valid_utf8 s \<longleftrightarrow> (\<forall>c \<in> set (chars s). is_scalar c) \<and> string_of (chars s) = s"

lemma valid_utf8_string_of: "\<forall>c \<in> set cs. is_scalar c \<Longrightarrow> valid_utf8 (string_of cs)"
  by (simp add: valid_utf8_def chars_string_of)

lemma decode_v2_well_typed:
  assumes "decode_v2 input = Inr (r, c)"
  shows "valid_utf8 (usn_name r) \<and> i64_min \<le> usn_position r \<and> usn_position r \<le> i64_max"
proof -
  have r: "r = v2_record input" using assms by (simp add: decode_v2_Inr_iff)
  have "valid_utf8 (usn_name r)"
    unfolding r v2_record_def using from_utf16_lossy_scalar by (auto intro!: valid_utf8_string_of)
  moreover have "- (2 ^ 63) \<le> sint (w :: u64) \<and> sint w \<le> 2 ^ 63 - 1" for w
    using sint_range_size [of w] by (simp add: word_size)
  ultimately show ?thesis unfolding r v2_record_def by (simp add: i64_min_def i64_max_def)
qed

lemma decode_page_bounded:
  assumes "list_all2 decodes_to parts rs"
  shows "60 * length rs \<le> length (concat parts)"
  using assms
proof (induction rule: list_all2_induct)
  case (Cons p parts r rs)
  then show ?case using decode_v2_length [OF Cons.hyps(1)] by (simp add: V2_FIXED_BYTES_def)
qed simp

section \<open>An encoder of the version 2 layout\<close>

text \<open>The layout of \<open>USN_RECORD_V2\<close>: the fields the decoder does not keep (minor version, time stamp, source
  and security) are zero, the name starts at byte 60 and the record is padded to a multiple of eight.\<close>

definition usn_length :: "u16 list \<Rightarrow> nat" where
  "usn_length us = (60 + 2 * length us + 7) div 8 * 8"

definition encode_v2 :: "SanitizedUsnRecord \<Rightarrow> u16 list \<Rightarrow> bytes" where
  "encode_v2 r us =
     le_bytes 4 (usn_length us) @ le_bytes 2 2 @ le_bytes 2 0
     @ le_bytes 8 (unat (usn_file_reference r)) @ le_bytes 8 (unat (usn_parent_reference r))
     @ le_bytes 8 (unat (word_of_int (usn_position r) :: u64)) @ le_bytes 8 0
     @ le_bytes 4 (unat (usn_reason r)) @ le_bytes 8 0 @ le_bytes 4 (unat (usn_attributes r))
     @ le_bytes 2 (2 * length us) @ le_bytes 2 60
     @ concat (map (\<lambda>u. le_bytes 2 (unat u)) us) @ replicate (usn_length us - 60 - 2 * length us) 0"

definition utf16_units :: "string \<Rightarrow> u16 list" where
  "utf16_units s = concat (map encode_utf16 (chars s))"

text \<open>The records the layout can hold: a name of at most 65534 bytes, a position that is an \<open>i64\<close>.\<close>

definition usn_encodable :: "SanitizedUsnRecord \<Rightarrow> bool" where
  "usn_encodable r \<longleftrightarrow> valid_utf8 (usn_name r) \<and> \<not> usn_had_invalid_utf16 r
     \<and> 2 * length (utf16_units (usn_name r)) < 65536 \<and> i64_min \<le> usn_position r \<and> usn_position r \<le> i64_max"

lemma unat_mod_width [simp]:
  "unat (a :: u16) mod 65536 = unat a" "unat (b :: u32) mod 4294967296 = unat b"
  "unat (c :: u64) mod 18446744073709551616 = unat c"
proof -
  have "unat a < 65536" "unat b < 4294967296" "unat c < 18446744073709551616"
    using unsigned_less [of a] unsigned_less [of b] unsigned_less [of c] by simp_all
  then show "unat a mod 65536 = unat a" "unat b mod 4294967296 = unat b" "unat c mod 18446744073709551616 = unat c"
    by simp_all
qed

lemma sint_word_of_i64: "i64_min \<le> k \<Longrightarrow> k \<le> i64_max \<Longrightarrow> sint (word_of_int k :: u64) = k"
  by (simp add: signed_of_int signed_take_bit_int_eq_self i64_min_def i64_max_def)

lemma usn_length_bounds:
  "60 + 2 * length us \<le> usn_length us" "usn_length us mod 8 = 0" "usn_length us \<le> 67 + 2 * length us"
proof -
  define n where "n = 60 + 2 * length us + 7"
  have "n div 8 * 8 + n mod 8 = n" by (rule div_mult_mod_eq)
  moreover have "n mod 8 < 8" by simp
  ultimately show "60 + 2 * length us \<le> usn_length us" "usn_length us \<le> 67 + 2 * length us"
    unfolding usn_length_def n_def [symmetric] by (simp_all add: n_def)
qed (simp add: usn_length_def)

lemma length_unit_bytes: "length (concat (map (\<lambda>u. le_bytes 2 (unat u)) us)) = 2 * length us"
  by (induction us) simp_all

lemma length_encode_v2: "length (encode_v2 r us) = usn_length us"
  using usn_length_bounds [of us] by (simp add: encode_v2_def length_unit_bytes)

lemma le_units_bytes: "le_units (concat (map (\<lambda>u. le_bytes 2 (unat u)) us)) = us"
proof (induction us)
  case (Cons u us)
  have "(of_nat (le_nat (le_bytes 2 (unat u))) :: u16) = u"
    by (simp add: le_nat_le_bytes)
  moreover obtain a b where "le_bytes 2 (unat u) = [a, b]" by (simp add: numeral_2_eq_2)
  ultimately show ?case using Cons.IH by simp
qed simp

lemma field_encode_v2:
  "field (encode_v2 r us) 0 4 = usn_length us mod 2 ^ 32"
  "field (encode_v2 r us) 4 2 = 2"
  "field (encode_v2 r us) 8 8 = unat (usn_file_reference r)"
  "field (encode_v2 r us) 16 8 = unat (usn_parent_reference r)"
  "field (encode_v2 r us) 24 8 = unat (word_of_int (usn_position r) :: u64)"
  "field (encode_v2 r us) 40 4 = unat (usn_reason r)"
  "field (encode_v2 r us) 52 4 = unat (usn_attributes r)"
  "field (encode_v2 r us) 56 2 = 2 * length us mod 65536"
  "field (encode_v2 r us) 58 2 = 60"
  by (simp_all add: field_def encode_v2_def le_nat_le_bytes)

lemma decode_encode_v2:
  assumes "2 * length us < 65536"
  shows "decode_v2 (encode_v2 r us) = Inr (
    \<lparr>usn_file_reference = usn_file_reference r, usn_parent_reference = usn_parent_reference r,
     usn_position = sint (word_of_int (usn_position r) :: u64), usn_reason = usn_reason r,
     usn_attributes = usn_attributes r, usn_name = string_of (from_utf16_lossy us),
     usn_had_invalid_utf16 = list_ex isl (decode_utf16 us)\<rparr>, length (encode_v2 r us))"
proof -
  let ?e = "encode_v2 r us"
  have len: "usn_length us < 2 ^ 32" "usn_length us \<le> MAX_RECORD_BYTES"
    using usn_length_bounds(3) [of us] assms by (simp_all add: MAX_RECORD_BYTES_def)
  have "take (2 * length us) (drop 60 ?e) = concat (map (\<lambda>u. le_bytes 2 (unat u)) us)"
    by (simp add: encode_v2_def length_unit_bytes)
  then have "v2_units ?e = us"
    using assms by (simp add: v2_units_def field_encode_v2 le_units_bytes)
  then have "v2_record ?e = \<lparr>usn_file_reference = usn_file_reference r, usn_parent_reference = usn_parent_reference r,
     usn_position = sint (word_of_int (usn_position r) :: u64), usn_reason = usn_reason r,
     usn_attributes = usn_attributes r, usn_name = string_of (from_utf16_lossy us),
     usn_had_invalid_utf16 = list_ex isl (decode_utf16 us)\<rparr>"
    by (simp add: v2_record_def field_encode_v2)
  moreover have "v2_length_ok ?e" "v2_name_ok ?e" "field ?e 4 2 = 2" "field ?e 0 4 = length ?e"
    using usn_length_bounds [of us] len assms
    by (simp_all add: v2_length_ok_def v2_name_ok_def field_encode_v2 Let_def V2_FIXED_BYTES_def length_encode_v2)
  ultimately show ?thesis unfolding decode_v2_Inr_iff by simp
qed

lemma decodes_to_encode:
  assumes "usn_encodable r"
  shows "decodes_to (encode_v2 r (utf16_units (usn_name r))) r"
proof -
  let ?cs = "chars (usn_name r)"
  have cs: "\<forall>c \<in> set ?cs. is_scalar c" "string_of ?cs = usn_name r"
    using assms by (simp_all add: usn_encodable_def valid_utf8_def)
  have dec: "decode_utf16 (utf16_units (usn_name r)) = map Inr ?cs"
    unfolding utf16_units_def by (rule decode_utf16_concat [OF cs(1)])
  have "from_utf16_lossy (utf16_units (usn_name r)) = ?cs"
    by (simp add: from_utf16_lossy_def dec comp_def)
  moreover have "\<not> list_ex isl (map Inr ?cs :: (u16 + uchar) list)" by (simp add: list_ex_iff)
  moreover have "sint (word_of_int (usn_position r) :: u64) = usn_position r"
    using assms by (intro sint_word_of_i64) (simp_all add: usn_encodable_def)
  ultimately show ?thesis
    using decode_encode_v2 [of "utf16_units (usn_name r)" r] assms cs(2) dec
    by (simp add: usn_encodable_def)
qed

definition encode_page :: "i64 \<Rightarrow> SanitizedUsnRecord list \<Rightarrow> bytes" where
  "encode_page next_position rs =
     le_bytes 8 (unat (word_of_int next_position :: u64))
     @ concat (map (\<lambda>r. encode_v2 r (utf16_units (usn_name r))) rs)"

text \<open>Every journal page in the version 2 layout is decoded to exactly the records it was written from,
  in order and with the page's continuation position, whatever their number and names.\<close>

theorem decode_page_round_trip:
  assumes "\<forall>r \<in> set rs. usn_encodable r" "i64_min \<le> n" "n \<le> i64_max" "length (encode_page n rs) < 2 ^ 64"
  shows "decode_page (encode_page n rs) = Inr (n, rs)"
proof -
  have "list_all2 decodes_to (map (\<lambda>r. encode_v2 r (utf16_units (usn_name r))) rs) rs"
    using assms(1) decodes_to_encode by (simp add: list_all2_conv_all_nth)
  moreover have "field (encode_page n rs) 0 8 = unat (word_of_int n :: u64)"
    by (simp add: field_def encode_page_def le_nat_le_bytes)
  moreover have "sint (word_of_int n :: u64) = n"
    using assms(2,3) by (rule sint_word_of_i64)
  ultimately show ?thesis
    unfolding decode_page_Inr_iff [OF assms(4)] by (auto simp: encode_page_def)
qed

definition sample_record :: SanitizedUsnRecord where
  "sample_record =
     \<lparr>usn_file_reference = 42, usn_parent_reference = 7, usn_position = 99, usn_reason = REASON_FILE_CREATE,
      usn_attributes = 32, usn_name = ''one.txt'', usn_had_invalid_utf16 = False\<rparr>"

lemma sample_record_encodable: "usn_encodable sample_record"
  by (simp add: sample_record_def usn_encodable_def valid_utf8_def chars_def utf16_units_def string_of_def
      utf8_encode_def encode_utf16_def is_scalar_def is_surrogate_def char_of_eq_iff i64_min_def i64_max_def)

theorem decode_page_round_trip_witness:
  "decode_page (encode_page 123 [sample_record, sample_record]) = Inr (123, [sample_record, sample_record])"
proof (rule decode_page_round_trip)
  show "\<forall>r \<in> set [sample_record, sample_record]. usn_encodable r" by (simp add: sample_record_encodable)
  show "length (encode_page 123 [sample_record, sample_record]) < 2 ^ 64"
    by (simp add: sample_record_def encode_page_def length_encode_v2 usn_length_def utf16_units_def chars_def
        encode_utf16_def)
qed (simp_all add: i64_min_def i64_max_def)

text \<open>C35: whatever bytes the kernel returns, decoding a page ends, never reads outside them, and either fails
  with an input or unsupported-version error or yields records that account for every byte after the
  header (at least sixty each), whose names are valid UTF-8 and whose positions are 64-bit numbers.\<close>

theorem decode_page_total:
  "(\<exists>e. decode_page input = Inl e \<and> (pe_kind e = PeIo \<or> pe_kind e = PeUnsupported))
   \<or> (\<exists>n rs parts. decode_page input = Inr (n, rs) \<and> drop 8 input = concat parts \<and> 60 * length rs + 8 \<le> length input
        \<and> list_all2 (\<lambda>p r. decode_v2 p = Inr (r, length p) \<and> valid_utf8 (usn_name r)
              \<and> i64_min \<le> usn_position r \<and> usn_position r \<le> i64_max) parts rs)"
proof (cases "decode_page input")
  case (Inl e)
  then have "pe_kind e = PeIo \<or> pe_kind e = PeUnsupported"
    using decode_records_error_kind
    by (auto simp: decode_page_def result_simps read_i64_def field_bytes_def malformed_def)
  with Inl show ?thesis by blast
next
  case (Inr nr)
  obtain n rs where nr: "nr = (n, rs)" by fastforce
  have dec: "decode_records input 8 [] = Inr rs" "8 \<le> length input"
    using Inr nr by (auto simp: decode_page_def result_simps read_i64_iff)
  obtain parts where parts: "drop 8 input = concat parts" "list_all2 decodes_to parts rs"
    using decode_records_sound [OF dec] by auto
  have "60 * length rs + 8 \<le> length input"
    using decode_page_bounded [OF parts(2)] dec(2) unfolding parts(1) [symmetric] by simp
  moreover have "list_all2 (\<lambda>p r. decode_v2 p = Inr (r, length p) \<and> valid_utf8 (usn_name r)
      \<and> i64_min \<le> usn_position r \<and> usn_position r \<le> i64_max) parts rs"
    using parts(2) by (rule list_all2_mono) (use decode_v2_well_typed in blast)
  ultimately show ?thesis using Inr nr parts(1) by blast
qed

end
