(* ===== verification/Windows_Checkpoint.thy ===== *)
theory Windows_Checkpoint
  imports Usn_Record "HOL-Library.Char_ord" "HOL-Library.Product_Lexorder"
begin

text \<open>
  The provider contract types (\<open>crates/platform-core/src/filesystem.rs\<close>), the Windows provider's checkpoint
  (\<open>crates/windows-fs/src/checkpoint.rs\<close>) and the identity memory it carries
  (\<open>remember_rename\<close> to \<open>forget_known_link\<close> of \<open>provider.rs\<close>). The JSON library is the parameter
  \<open>checkpoint_json\<close>; \<open>slice::binary_search_by\<close>, \<open>Vec::insert\<close> and \<open>Vec::remove\<close> are written out.

  Shown: bisection of a sorted vector finds the key or its insertion point; the vectors implement finite
  maps (the locale \<open>identity_memory\<close>, interpreted for renames and for links); a written checkpoint is
  read back unchanged.
\<close>

section \<open>Platform descriptors\<close>

datatype PlatformFamily = Windows | MacOs | Linux
datatype InitialScanMode = FastMetadataEnumeration | FilesystemCrawl
datatype ChangeTrackingMode =
  SnapshotOnly | PersistentObjectJournal | PersistentPathStream | EphemeralWatchers
datatype PrivilegeModel = OptionalBroker | UserConsent | CurrentUser

record PlatformCapabilities =
  cap_platform :: PlatformFamily
  cap_initial_scan :: InitialScanMode
  cap_change_tracking :: ChangeTrackingMode
  cap_privilege_model :: PrivilegeModel
  cap_stable_object_ids :: bool
  cap_hard_links :: bool
  cap_persistent_history :: bool

record ScanSummary =
  ss_checkpoint :: ProviderCheckpoint
  ss_emitted_events :: u64

record ChangeBatch =
  cb_checkpoint :: ProviderCheckpoint
  cb_emitted_events :: u32
  cb_has_more :: bool

text \<open>A sink accepts one event at a time; it keeps its own state and may refuse an event.\<close>

type_synonym 's sink = "'s \<Rightarrow> FilesystemEvent \<Rightarrow> 's \<times> unit platform_result"

section \<open>Checkpoints\<close>

definition PROVIDER_ID :: string where "PROVIDER_ID = ''localsearch.windows-fs''"

record PendingRename =
  pn_file_reference :: u64
  pn_file_link_id :: FileLinkId

record KnownLinkIdentity =
  kl_parent_reference :: u64
  kl_name :: string
  kl_file_link_id :: FileLinkId

record WindowsCheckpoint =
  wc_journal_identity :: u64
  wc_next_position :: i64
  wc_lowest_valid_position :: i64
  wc_snapshot_generation :: u64
  wc_pending_events :: "FilesystemEvent list"
  wc_pending_renames :: "PendingRename list"
  wc_known_links :: "KnownLinkIdentity list"

text \<open>The JSON library: \<open>serde_json::to_vec\<close> and \<open>serde_json::from_slice\<close> at this type, errors as text.\<close>

record checkpoint_json =
  js_to_vec :: "WindowsCheckpoint \<Rightarrow> string + bytes"
  js_from_slice :: "bytes \<Rightarrow> string + WindowsCheckpoint"

definition encode_checkpoint :: "checkpoint_json \<Rightarrow> VolumeId \<Rightarrow> WindowsCheckpoint \<Rightarrow> ProviderCheckpoint platform_result" where
  "encode_checkpoint js volume_id value =
     (case js_to_vec js value of
        Inl detail \<Rightarrow> Inl (platform_error PeInternal ''encode_checkpoint'' detail)
      | Inr opaque \<Rightarrow> Inr \<lparr>pc_provider_id = PROVIDER_ID, pc_format_version = 3, pc_volume_id = volume_id,
                           pc_opaque = opaque\<rparr>)"

abbreviation link_key :: "KnownLinkIdentity \<Rightarrow> u64 \<times> string" where
  "link_key k \<equiv> (kl_parent_reference k, kl_name k)"

definition decode_checkpoint :: "checkpoint_json \<Rightarrow> ProviderCheckpoint \<Rightarrow> WindowsCheckpoint platform_result" where
  "decode_checkpoint js value =
     (if pc_provider_id value \<noteq> PROVIDER_ID \<or> pc_format_version value \<notin> {2, 3}
      then Inl (platform_error PeInvalidCheckpoint ''decode_checkpoint'' ''provider or format mismatch'')
      else (case js_from_slice js (pc_opaque value) of
              Inl detail \<Rightarrow> Inl (platform_error PeInvalidCheckpoint ''decode_checkpoint'' detail)
            | Inr decoded \<Rightarrow>
                Inr (decoded\<lparr>wc_pending_renames := sort_key pn_file_reference (wc_pending_renames decoded),
                             wc_known_links := sort_key link_key (wc_known_links decoded)\<rparr>)))"

definition validate_checkpoint :: "WindowsCheckpoint \<Rightarrow> u64 \<Rightarrow> i64 \<Rightarrow> unit platform_result" where
  "validate_checkpoint saved current_journal_identity current_lowest =
     (if wc_journal_identity saved \<noteq> current_journal_identity \<or> wc_next_position saved < current_lowest
      then Inl (platform_error PeSourceHistoryGap ''validate_checkpoint''
                  ''journal identity changed or cursor fell below retained history'')
      else Inr ())"

section \<open>Binary search over a vector\<close>

text \<open>\<open>slice::binary_search_by\<close>: \<open>Inr\<close> an index whose key is equal, \<open>Inl\<close> the insertion point. The loop
  halves \<open>sz\<close> and moves \<open>base\<close> to the last position not above the target.\<close>

function search_base :: "'k::linorder list \<Rightarrow> 'k \<Rightarrow> nat \<Rightarrow> nat \<Rightarrow> nat" where
  "search_base keys target base sz =
     (if sz \<le> 1 then base
      else let half = sz div 2; mid = base + half in
           search_base keys target (if target < keys ! mid then base else mid) (sz - half))"
  by pat_completeness auto

termination
  by (relation "measure (\<lambda>(_, _, _, sz). sz)") auto

declare search_base.simps [simp del]

definition binary_search :: "'k::linorder list \<Rightarrow> 'k \<Rightarrow> nat + nat" where
  "binary_search keys target =
     (if keys = [] then Inl 0
      else let base = search_base keys target 0 (length keys) in
           if keys ! base = target then Inr base
           else Inl (base + (if keys ! base < target then 1 else 0)))"

definition vec_insert :: "nat \<Rightarrow> 'a \<Rightarrow> 'a list \<Rightarrow> 'a list" where
  "vec_insert i x xs = take i xs @ x # drop i xs"

definition vec_remove :: "nat \<Rightarrow> 'a list \<Rightarrow> 'a list" where
  "vec_remove i xs = take i xs @ drop (Suc i) xs"

section \<open>Identity memory of the checkpoint\<close>

definition remember_rename :: "WindowsCheckpoint \<Rightarrow> u64 \<Rightarrow> FileLinkId \<Rightarrow> WindowsCheckpoint" where
  "remember_rename saved file_reference file_link_id =
     (let xs = wc_pending_renames saved in
      case binary_search (map pn_file_reference xs) file_reference of
        Inr index \<Rightarrow> saved\<lparr>wc_pending_renames := xs[index := (xs ! index)\<lparr>pn_file_link_id := file_link_id\<rparr>]\<rparr>
      | Inl index \<Rightarrow> saved\<lparr>wc_pending_renames :=
            vec_insert index \<lparr>pn_file_reference = file_reference, pn_file_link_id = file_link_id\<rparr> xs\<rparr>)"

definition take_rename :: "WindowsCheckpoint \<Rightarrow> u64 \<Rightarrow> FileLinkId option \<times> WindowsCheckpoint" where
  "take_rename saved file_reference =
     (let xs = wc_pending_renames saved in
      case binary_search (map pn_file_reference xs) file_reference of
        Inl _ \<Rightarrow> (None, saved)
      | Inr index \<Rightarrow> (Some (pn_file_link_id (xs ! index)), saved\<lparr>wc_pending_renames := vec_remove index xs\<rparr>))"

definition known_link_id :: "WindowsCheckpoint \<Rightarrow> u64 \<Rightarrow> string \<Rightarrow> FileLinkId option" where
  "known_link_id saved parent_reference name =
     (let xs = wc_known_links saved in
      case binary_search (map link_key xs) (parent_reference, name) of
        Inl _ \<Rightarrow> None
      | Inr index \<Rightarrow> Some (kl_file_link_id (xs ! index)))"

definition remember_known_link :: "WindowsCheckpoint \<Rightarrow> u64 \<Rightarrow> string \<Rightarrow> FileLinkId \<Rightarrow> WindowsCheckpoint" where
  "remember_known_link saved parent_reference name file_link_id =
     (let xs = wc_known_links saved in
      case binary_search (map link_key xs) (parent_reference, name) of
        Inr index \<Rightarrow> saved\<lparr>wc_known_links := xs[index := (xs ! index)\<lparr>kl_file_link_id := file_link_id\<rparr>]\<rparr>
      | Inl index \<Rightarrow> saved\<lparr>wc_known_links :=
            vec_insert index \<lparr>kl_parent_reference = parent_reference, kl_name = name,
                              kl_file_link_id = file_link_id\<rparr> xs\<rparr>)"

definition forget_known_link :: "WindowsCheckpoint \<Rightarrow> u64 \<Rightarrow> string \<Rightarrow> WindowsCheckpoint" where
  "forget_known_link saved parent_reference name =
     (let xs = wc_known_links saved in
      case binary_search (map link_key xs) (parent_reference, name) of
        Inl _ \<Rightarrow> saved
      | Inr index \<Rightarrow> saved\<lparr>wc_known_links := vec_remove index xs\<rparr>)"

section \<open>The search and the vector operations\<close>

lemma search_base_bounds:
  assumes "sorted keys" "1 \<le> sz" "base + sz \<le> length keys"
    and "base = 0 \<or> keys ! base \<le> target" "base + sz = length keys \<or> target < keys ! (base + sz)"
  shows "let b = search_base keys target base sz in
    b < length keys \<and> (b = 0 \<or> keys ! b \<le> target) \<and> (Suc b = length keys \<or> target < keys ! Suc b)"
  using assms
proof (induction keys target base sz rule: search_base.induct)
  case (1 keys target base sz)
  show ?case
  proof (cases "sz \<le> 1")
    case True
    then show ?thesis using 1(3-6) by (simp add: search_base.simps [of keys] Let_def le_Suc_eq)
  next
    case False
    define mid where "mid = base + sz div 2"
    define base' where "base' = (if target < keys ! mid then base else mid)"
    have sz: "1 \<le> sz - sz div 2" "base' + (sz - sz div 2) \<le> length keys"
      using False 1(4) by (auto simp: base'_def mid_def)
    have upper: "base' + (sz - sz div 2) = length keys \<or> target < keys ! (base' + (sz - sz div 2))"
    proof (cases "target < keys ! mid")
      case True
      have "mid \<le> base + (sz - sz div 2)" "base + (sz - sz div 2) < length keys"
        using False 1(4) by (auto simp: mid_def)
      then have "keys ! mid \<le> keys ! (base + (sz - sz div 2))" using 1(2) by (simp add: sorted_iff_nth_mono)
      then have "target < keys ! (base + (sz - sz div 2))" using True by (rule order.strict_trans2 [rotated])
      then show ?thesis using True by (simp only: base'_def if_True simp_thms)
    next
      case False
      have "mid + (sz - sz div 2) = base + sz" by (simp add: mid_def)
      with False show ?thesis using 1(6) by (simp add: base'_def)
    qed
    have "search_base keys target base sz = search_base keys target base' (sz - sz div 2)"
      using False by (simp add: search_base.simps [of keys target base sz] Let_def base'_def mid_def)
    moreover have "base' = 0 \<or> keys ! base' \<le> target" using 1(5) by (auto simp: base'_def)
    ultimately show ?thesis
      using 1(1) [OF False refl mid_def 1(2)] sz upper unfolding base'_def by simp
  qed
qed

lemma binary_search_found: "binary_search keys target = Inr i \<Longrightarrow> keys ! i = target"
  by (auto simp: binary_search_def Let_def split: if_splits)

lemma sorted_split_at:
  assumes "sorted keys" "\<forall>j < i. keys ! j < t" "\<forall>j. i \<le> j \<longrightarrow> j < length keys \<longrightarrow> t < keys ! j" "i \<le> length keys"
  shows "(\<forall>x \<in> set (take i keys). x < t) \<and> (\<forall>x \<in> set (drop i keys). t < x)"
  using assms by (auto simp: in_set_conv_nth)

lemma binary_search_cases:
  assumes "sorted keys"
  shows "case binary_search keys target of
      Inr i \<Rightarrow> i < length keys \<and> keys ! i = target
    | Inl i \<Rightarrow> i \<le> length keys \<and> (\<forall>x \<in> set (take i keys). x < target) \<and> (\<forall>x \<in> set (drop i keys). target < x)"
proof (cases "keys = []")
  case True
  then show ?thesis by (simp add: binary_search_def)
next
  case False
  define b where "b = search_base keys target 0 (length keys)"
  have b: "b < length keys" "b = 0 \<or> keys ! b \<le> target" "Suc b = length keys \<or> target < keys ! Suc b"
    using search_base_bounds [OF assms, of "length keys" 0 target] False by (auto simp: b_def Let_def Suc_le_eq)
  have mono: "keys ! i \<le> keys ! j" if "i \<le> j" "j < length keys" for i j
    using assms that by (simp add: sorted_iff_nth_mono)
  have above: "target < keys ! j" if "Suc b \<le> j" "j < length keys" for j
    using b(3) mono [OF that] that by fastforce
  consider (eq) "keys ! b = target" | (less) "keys ! b < target" | (greater) "target < keys ! b" by fastforce
  then show ?thesis
  proof cases
    case eq
    then show ?thesis using False b(1) by (simp add: binary_search_def Let_def b_def)
  next
    case less
    have "keys ! j < target" if "j < Suc b" for j using mono [of j b] that b(1) less by simp
    then have "(\<forall>x \<in> set (take (Suc b) keys). x < target) \<and> (\<forall>x \<in> set (drop (Suc b) keys). target < x)"
      using above b(1) by (intro sorted_split_at [OF assms]) auto
    moreover have "binary_search keys target = Inl (Suc b)"
      using False less by (auto simp: binary_search_def Let_def b_def)
    ultimately show ?thesis using b(1) by simp
  next
    case greater
    then have b0: "b = 0" using b(2) by auto
    then have "\<forall>j < length keys. target < keys ! j" using greater mono [of 0] by fastforce
    then have "(\<forall>x \<in> set (take 0 keys). x < target) \<and> (\<forall>x \<in> set (drop 0 keys). target < x)"
      by (intro sorted_split_at [OF assms]) auto
    moreover have "binary_search keys target = Inl 0"
      using False greater b0 by (auto simp: binary_search_def Let_def b_def)
    ultimately show ?thesis by simp
  qed
qed

text \<open>A vector of keyed rows as a map, and the three vector operations as map operations.\<close>

definition vec_map :: "('r \<Rightarrow> 'k) \<Rightarrow> ('r \<Rightarrow> 'v) \<Rightarrow> 'r list \<Rightarrow> 'k \<rightharpoonup> 'v" where
  "vec_map key val xs = map_of (map (\<lambda>x. (key x, val x)) xs)"

abbreviation vec_ok :: "('r \<Rightarrow> 'k::linorder) \<Rightarrow> 'r list \<Rightarrow> bool" where
  "vec_ok key xs \<equiv> sorted_wrt (<) (map key xs)"

lemma vec_map_mid:
  assumes "key x \<notin> key ` set xs"
  shows "vec_map key val (xs @ x # ys) = (vec_map key val (xs @ ys))(key x \<mapsto> val x)"
  using assms by (induction xs) (auto simp: vec_map_def fun_upd_twist)

lemma vec_map_None: "vec_map key val xs k = None \<longleftrightarrow> k \<notin> key ` set xs"
  unfolding vec_map_def map_of_eq_None_iff by force

lemma vec_ok_search:
  assumes "vec_ok key xs"
  shows "binary_search (map key xs) k = Inr i \<Longrightarrow>
      \<exists>as x bs. xs = as @ x # bs \<and> length as = i \<and> key x = k \<and> k \<notin> key ` set as \<and> k \<notin> key ` set bs"
    and "binary_search (map key xs) k = Inl i \<Longrightarrow>
      \<exists>as bs. xs = as @ bs \<and> length as = i \<and> (\<forall>x \<in> set as. key x < k) \<and> (\<forall>x \<in> set bs. k < key x)"
proof -
  have s: "sorted (map key xs)" using assms by (simp add: strict_sorted_imp_sorted)
  note cases = binary_search_cases [OF s, of k]
  {
    assume "binary_search (map key xs) k = Inr i"
    then have i: "i < length xs" "key (xs ! i) = k" using cases by auto
    have "xs = take i xs @ xs ! i # drop (Suc i) xs" using i(1) by (rule id_take_nth_drop)
    then have ok: "vec_ok key (take i xs @ xs ! i # drop (Suc i) xs)" using assms by simp
    have "k \<notin> key ` set (take i xs)" "k \<notin> key ` set (drop (Suc i) xs)"
      using ok i(2) by (auto simp: sorted_wrt_append)
    then show "\<exists>as x bs. xs = as @ x # bs \<and> length as = i \<and> key x = k \<and> k \<notin> key ` set as \<and> k \<notin> key ` set bs"
      using id_take_nth_drop [OF i(1)] i by (metis length_take min.absorb4)
  }
  {
    assume "binary_search (map key xs) k = Inl i"
    then have i: "i \<le> length xs" "\<forall>x \<in> set (take i xs). key x < k" "\<forall>x \<in> set (drop i xs). k < key x"
      using cases by (auto simp: take_map drop_map)
    then show "\<exists>as bs. xs = as @ bs \<and> length as = i \<and> (\<forall>x \<in> set as. key x < k) \<and> (\<forall>x \<in> set bs. k < key x)"
      by (metis append_take_drop_id length_take min.absorb2)
  }
qed

lemma vec_lookup:
  assumes "vec_ok key xs"
  shows "(case binary_search (map key xs) k of Inl _ \<Rightarrow> None | Inr i \<Rightarrow> Some (val (xs ! i))) = vec_map key val xs k"
proof (cases "binary_search (map key xs) k")
  case (Inl i)
  then have "k \<notin> key ` set xs" using vec_ok_search(2) [OF assms Inl] by auto
  then have "vec_map key val xs k = None" by (simp add: vec_map_None)
  then show ?thesis using Inl by simp
next
  case (Inr i)
  then show ?thesis using vec_ok_search(1) [OF assms Inr] by (auto simp: vec_map_mid nth_append)
qed

lemma vec_put:
  assumes "vec_ok key xs" "key r = k" "\<And>x. key x = k \<Longrightarrow> key (f x) = k \<and> val (f x) = val r"
  defines "ys \<equiv> (case binary_search (map key xs) k of Inr i \<Rightarrow> xs[i := f (xs ! i)] | Inl i \<Rightarrow> vec_insert i r xs)"
  shows "vec_ok key ys" "vec_map key val ys = (vec_map key val xs)(k \<mapsto> val r)"
proof -
  have "vec_ok key ys \<and> vec_map key val ys = (vec_map key val xs)(k \<mapsto> val r)"
  proof (cases "binary_search (map key xs) k")
    case (Inl i)
    then obtain as bs where x: "xs = as @ bs" "length as = i" "\<forall>x \<in> set as. key x < k" "\<forall>x \<in> set bs. k < key x"
      using vec_ok_search(2) [OF assms(1) Inl] by blast
    have ys: "ys = as @ r # bs" using Inl x(1,2) by (auto simp: ys_def vec_insert_def)
    have "key r \<notin> key ` set as" using x(3) assms(2) by auto
    then have "vec_map key val ys = (vec_map key val xs)(k \<mapsto> val r)"
      unfolding ys x(1) assms(2) [symmetric] by (rule vec_map_mid)
    moreover have "vec_ok key ys" using assms(1,2) x unfolding ys x(1) by (auto simp: sorted_wrt_append)
    ultimately show ?thesis by blast
  next
    case (Inr i)
    then obtain as x bs where x: "xs = as @ x # bs" "length as = i" "key x = k" "k \<notin> key ` set as"
      using vec_ok_search(1) [OF assms(1) Inr] by blast
    have f: "key (f x) = k" "val (f x) = val r" using assms(3) x(3) by auto
    have ys: "ys = as @ f x # bs" using Inr x(1,2) by (auto simp: ys_def list_update_append)
    have "vec_map key val ys = (vec_map key val xs)(k \<mapsto> val r)"
      unfolding ys x(1) using x(3,4) f by (simp add: vec_map_mid)
    moreover have "map key ys = map key xs" using x f by (simp add: ys)
    ultimately show ?thesis using assms(1) by simp
  qed
  then show "vec_ok key ys" "vec_map key val ys = (vec_map key val xs)(k \<mapsto> val r)" by blast+
qed

lemma vec_delete:
  fixes k :: "'k::linorder"
  assumes "vec_ok key xs"
  defines "ys \<equiv> (case binary_search (map key xs) k of Inr i \<Rightarrow> vec_remove i xs | Inl _ \<Rightarrow> xs)"
  shows "vec_ok key ys" "vec_map key val ys = (vec_map key val xs)(k := None)"
proof -
  have "vec_ok key ys \<and> vec_map key val ys = (vec_map key val xs)(k := None)"
  proof (cases "binary_search (map key xs) k")
    case (Inl i)
    then have "vec_map key val xs k = None" using vec_lookup [OF assms(1), where k = k and val = val] by simp
    then show ?thesis using Inl assms(1) by (auto simp: ys_def fun_upd_idem)
  next
    case (Inr i)
    then obtain as x bs where x: "xs = as @ x # bs" "length as = i" "key x = k" "k \<notin> key ` set as" "k \<notin> key ` set bs"
      using vec_ok_search(1) [OF assms(1) Inr] by blast
    have ys: "ys = as @ bs" using Inr x(1,2) by (auto simp: ys_def vec_remove_def)
    have "vec_map key val (as @ bs) k = None" using x(4,5) by (simp add: vec_map_None image_Un)
    then have "vec_map key val ys = (vec_map key val xs)(k := None)"
      unfolding ys x(1) using x(3,4) by (simp add: vec_map_mid fun_upd_idem)
    moreover have "vec_ok key ys" using assms(1) unfolding ys x(1) by (auto simp: sorted_wrt_append)
    ultimately show ?thesis by blast
  qed
  then show "vec_ok key ys" "vec_map key val ys = (vec_map key val xs)(k := None)" by blast+
qed

section \<open>The contract of an identity memory\<close>

text \<open>What the event translation relies on: a memory with an invariant, seen as a finite map, in which identities
  can be looked up, remembered and forgotten.\<close>

locale identity_memory =
  fixes inv :: "'s \<Rightarrow> bool" and view :: "'s \<Rightarrow> 'k \<rightharpoonup> 'v"
    and get :: "'s \<Rightarrow> 'k \<Rightarrow> 'v option" and put :: "'s \<Rightarrow> 'k \<Rightarrow> 'v \<Rightarrow> 's" and del :: "'s \<Rightarrow> 'k \<Rightarrow> 's"
  assumes get_view: "inv s \<Longrightarrow> get s k = view s k"
    and put_view: "inv s \<Longrightarrow> inv (put s k v) \<and> view (put s k v) = (view s)(k \<mapsto> v)"
    and del_view: "inv s \<Longrightarrow> inv (del s k) \<and> view (del s k) = (view s)(k := None)"
begin

lemma inv_put: "inv s \<Longrightarrow> inv (put s k v)"
  using put_view by blast

lemma inv_del: "inv s \<Longrightarrow> inv (del s k)"
  using del_view by blast

lemma get_put: "inv s \<Longrightarrow> get (put s k v) k' = (if k' = k then Some v else get s k')"
  using get_view [OF inv_put] put_view get_view by (simp add: fun_upd_apply)

lemma get_del: "inv s \<Longrightarrow> get (del s k) k' = (if k' = k then None else get s k')"
  using get_view [OF inv_del] del_view get_view by (simp add: fun_upd_apply)

end

text \<open>Both vectors of the checkpoint are kept strictly sorted.\<close>

definition memory_ok :: "WindowsCheckpoint \<Rightarrow> bool" where
  "memory_ok saved \<longleftrightarrow> vec_ok pn_file_reference (wc_pending_renames saved) \<and> vec_ok link_key (wc_known_links saved)"

definition renames :: "WindowsCheckpoint \<Rightarrow> u64 \<rightharpoonup> FileLinkId" where
  "renames saved = vec_map pn_file_reference pn_file_link_id (wc_pending_renames saved)"

definition known :: "WindowsCheckpoint \<Rightarrow> u64 \<times> string \<rightharpoonup> FileLinkId" where
  "known saved = vec_map link_key kl_file_link_id (wc_known_links saved)"

lemma remember_rename_eq:
  "remember_rename saved r i = saved\<lparr>wc_pending_renames :=
     (case binary_search (map pn_file_reference (wc_pending_renames saved)) r of
        Inr index \<Rightarrow> (wc_pending_renames saved)[index := (wc_pending_renames saved ! index)\<lparr>pn_file_link_id := i\<rparr>]
      | Inl index \<Rightarrow> vec_insert index \<lparr>pn_file_reference = r, pn_file_link_id = i\<rparr> (wc_pending_renames saved))\<rparr>"
  by (auto simp: remember_rename_def Let_def split: sum.splits)

lemma remember_known_link_eq:
  "remember_known_link saved p n i = saved\<lparr>wc_known_links :=
     (case binary_search (map link_key (wc_known_links saved)) (p, n) of
        Inr index \<Rightarrow> (wc_known_links saved)[index := (wc_known_links saved ! index)\<lparr>kl_file_link_id := i\<rparr>]
      | Inl index \<Rightarrow> vec_insert index \<lparr>kl_parent_reference = p, kl_name = n, kl_file_link_id = i\<rparr>
                       (wc_known_links saved))\<rparr>"
  by (auto simp: remember_known_link_def Let_def split: sum.splits)

lemma take_rename_eq:
  "take_rename saved r =
     ((case binary_search (map pn_file_reference (wc_pending_renames saved)) r of
         Inl _ \<Rightarrow> None | Inr index \<Rightarrow> Some (pn_file_link_id (wc_pending_renames saved ! index))),
      saved\<lparr>wc_pending_renames :=
        (case binary_search (map pn_file_reference (wc_pending_renames saved)) r of
           Inr index \<Rightarrow> vec_remove index (wc_pending_renames saved) | Inl _ \<Rightarrow> wc_pending_renames saved)\<rparr>)"
  by (auto simp: take_rename_def Let_def split: sum.splits)

lemma forget_known_link_eq:
  "forget_known_link saved p n = saved\<lparr>wc_known_links :=
     (case binary_search (map link_key (wc_known_links saved)) (p, n) of
        Inr index \<Rightarrow> vec_remove index (wc_known_links saved) | Inl _ \<Rightarrow> wc_known_links saved)\<rparr>"
  by (auto simp: forget_known_link_def Let_def split: sum.splits)

interpretation rename_memory: identity_memory memory_ok renames
  "\<lambda>s k. fst (take_rename s k)" remember_rename "\<lambda>s k. snd (take_rename s k)"
proof unfold_locales
  fix s :: WindowsCheckpoint and k :: u64 and v :: FileLinkId
  let ?xs = "wc_pending_renames s"
  assume "memory_ok s"
  then have ok: "vec_ok pn_file_reference ?xs" "vec_ok link_key (wc_known_links s)"
    by (simp_all add: memory_ok_def)
  show "fst (take_rename s k) = renames s k"
    by (simp only: take_rename_eq fst_conv renames_def vec_lookup [OF ok(1)])
  show "memory_ok (remember_rename s k v) \<and> renames (remember_rename s k v) = (renames s)(k \<mapsto> v)"
    using vec_put [OF ok(1), where k = k and r = "\<lparr>pn_file_reference = k, pn_file_link_id = v\<rparr>"
        and f = "\<lambda>x. x\<lparr>pn_file_link_id := v\<rparr>" and val = pn_file_link_id] ok(2)
    unfolding remember_rename_eq memory_ok_def renames_def by simp
  show "memory_ok (snd (take_rename s k)) \<and> renames (snd (take_rename s k)) = (renames s)(k := None)"
    using vec_delete(1) [OF ok(1), where k = k] vec_delete(2) [OF ok(1), where k = k and val = pn_file_link_id] ok(2)
    unfolding take_rename_eq memory_ok_def renames_def by simp
qed

interpretation link_memory: identity_memory memory_ok known
  "\<lambda>s (p, n). known_link_id s p n" "\<lambda>s (p, n) i. remember_known_link s p n i" "\<lambda>s (p, n). forget_known_link s p n"
proof (unfold_locales, unfold split_paired_all prod.case)
  fix s :: WindowsCheckpoint and p :: u64 and n :: string and v :: FileLinkId
  let ?xs = "wc_known_links s"
  assume "memory_ok s"
  then have ok: "vec_ok link_key ?xs" "vec_ok pn_file_reference (wc_pending_renames s)"
    by (simp_all add: memory_ok_def)
  show "known_link_id s p n = known s (p, n)"
    using vec_lookup [OF ok(1), where k = "(p, n)" and val = kl_file_link_id] by (simp add: known_link_id_def Let_def known_def)
  show "memory_ok (remember_known_link s p n v) \<and> known (remember_known_link s p n v) = (known s)((p, n) \<mapsto> v)"
    using vec_put [OF ok(1), where k = "(p, n)" and val = kl_file_link_id
        and r = "\<lparr>kl_parent_reference = p, kl_name = n, kl_file_link_id = v\<rparr>"
        and f = "\<lambda>x. x\<lparr>kl_file_link_id := v\<rparr>"] ok(2)
    unfolding remember_known_link_eq memory_ok_def known_def by simp
  show "memory_ok (forget_known_link s p n) \<and> known (forget_known_link s p n) = (known s)((p, n) := None)"
    using vec_delete(1) [OF ok(1), where k = "(p, n)"]
      vec_delete(2) [OF ok(1), where k = "(p, n)" and val = kl_file_link_id] ok(2)
    unfolding forget_known_link_eq memory_ok_def known_def by simp
qed

section \<open>Properties of the checkpoint\<close>

text \<open>What the checkpoint decoder relies on of the JSON library: reading back what was written.\<close>

definition json_round_trips :: "checkpoint_json \<Rightarrow> bool" where
  "json_round_trips js \<longleftrightarrow> (\<forall>c b. js_to_vec js c = Inr b \<longrightarrow> js_from_slice js b = Inr c)"

lemma decode_encode_checkpoint:
  assumes "json_round_trips js" "memory_ok c" "encode_checkpoint js v c = Inr p"
  shows "decode_checkpoint js p = Inr c"
proof -
  have "sorted (map pn_file_reference (wc_pending_renames c))" "sorted (map link_key (wc_known_links c))"
    using assms(2) by (simp_all add: memory_ok_def strict_sorted_imp_sorted)
  moreover obtain b where "js_to_vec js c = Inr b" "pc_opaque p = b" "pc_provider_id p = PROVIDER_ID"
      "pc_format_version p = 3"
    using assms(3) by (auto simp: encode_checkpoint_def split: sum.splits)
  ultimately show ?thesis
    using assms(1) by (simp add: decode_checkpoint_def json_round_trips_def sorted_sort_id sort_key_id_if_sorted)
qed

lemma encode_checkpoint_Inr:
  "encode_checkpoint js v c = Inr p \<Longrightarrow> pc_volume_id p = v \<and> pc_provider_id p = PROVIDER_ID"
  by (auto simp: encode_checkpoint_def split: sum.splits)

text \<open>Remembering identities touches nothing else in the checkpoint.\<close>

definition same_cursor :: "WindowsCheckpoint \<Rightarrow> WindowsCheckpoint \<Rightarrow> bool" where
  "same_cursor s t \<longleftrightarrow> wc_journal_identity t = wc_journal_identity s \<and> wc_next_position t = wc_next_position s
     \<and> wc_lowest_valid_position t = wc_lowest_valid_position s \<and> wc_snapshot_generation t = wc_snapshot_generation s
     \<and> wc_pending_events t = wc_pending_events s"

lemma same_cursor_memory:
  "same_cursor s s" "same_cursor s t \<Longrightarrow> same_cursor t u \<Longrightarrow> same_cursor s u"
  "same_cursor s (remember_rename s r i)" "same_cursor s (snd (take_rename s r))"
  "same_cursor s (remember_known_link s p n i)" "same_cursor s (forget_known_link s p n)"
  by (simp_all add: same_cursor_def remember_rename_eq take_rename_eq remember_known_link_eq forget_known_link_eq)

text \<open>The two memories are separate.\<close>

lemma memories_independent:
  "known (remember_rename s r i) = known s" "known (snd (take_rename s r)) = known s"
  "renames (remember_known_link s p n i) = renames s" "renames (forget_known_link s p n) = renames s"
  by (simp_all add: known_def renames_def remember_rename_eq take_rename_eq remember_known_link_eq forget_known_link_eq)

lemmas rename_facts = rename_memory.get_view rename_memory.put_view rename_memory.del_view

lemma link_facts:
  assumes "memory_ok s"
  shows "known_link_id s p n = known s (p, n)"
    and "memory_ok (remember_known_link s p n i)" "known (remember_known_link s p n i) = (known s)((p, n) \<mapsto> i)"
    and "memory_ok (forget_known_link s p n)" "known (forget_known_link s p n) = (known s)((p, n) := None)"
  using link_memory.get_view [OF assms, of "(p, n)"] link_memory.put_view [OF assms, of "(p, n)" i]
    link_memory.del_view [OF assms, of "(p, n)"] by simp_all

text \<open>C34: the sorted vectors of the checkpoint, searched by bisection and edited in place, behave as two finite
  maps: looking up, remembering and forgetting an identity are the map operations, and the vectors stay
  strictly sorted, so a checkpoint that is written and read back is unchanged.\<close>

theorem checkpoint_memory_refines_maps:
  assumes "memory_ok s" "json_round_trips js"
  shows "known_link_id s p n = known s (p, n)
    \<and> known (remember_known_link s p n i) = (known s)((p, n) \<mapsto> i) \<and> renames (remember_known_link s p n i) = renames s
    \<and> known (forget_known_link s p n) = (known s)((p, n) := None) \<and> renames (forget_known_link s p n) = renames s
    \<and> renames (remember_rename s r i) = (renames s)(r \<mapsto> i) \<and> known (remember_rename s r i) = known s
    \<and> fst (take_rename s r) = renames s r \<and> renames (snd (take_rename s r)) = (renames s)(r := None)
    \<and> known (snd (take_rename s r)) = known s
    \<and> memory_ok (remember_known_link s p n i) \<and> memory_ok (forget_known_link s p n)
    \<and> memory_ok (remember_rename s r i) \<and> memory_ok (snd (take_rename s r))
    \<and> (\<forall>cp. encode_checkpoint js v s = Inr cp \<longrightarrow> decode_checkpoint js cp = Inr s)"
  using link_facts [OF assms(1)] rename_facts [OF assms(1)] decode_encode_checkpoint [OF assms(2,1)]
  by (simp add: memories_independent)

definition empty_checkpoint :: WindowsCheckpoint where
  "empty_checkpoint = \<lparr>wc_journal_identity = 7, wc_next_position = 100, wc_lowest_valid_position = 80,
     wc_snapshot_generation = 2, wc_pending_events = [], wc_pending_renames = [], wc_known_links = []\<rparr>"

definition sample_json :: "WindowsCheckpoint \<Rightarrow> checkpoint_json" where
  "sample_json c = \<lparr>js_to_vec = (\<lambda>d. if d = c then Inr [123, 125] else Inl ''unsupported''),
     js_from_slice = (\<lambda>b. if b = [123, 125] then Inr c else Inl ''malformed'')\<rparr>"

lemma sample_json_round_trips: "json_round_trips (sample_json c)"
  by (auto simp: json_round_trips_def sample_json_def split: if_splits)

theorem checkpoint_memory_refines_maps_witness:
  "known (remember_known_link empty_checkpoint 5 ''a'' (from_u128 9)) = (known empty_checkpoint)((5, ''a'') \<mapsto> from_u128 9)"
  using checkpoint_memory_refines_maps [of empty_checkpoint "sample_json empty_checkpoint" 5 "''a''" "from_u128 9"]
    sample_json_round_trips by (simp add: memory_ok_def empty_checkpoint_def)

end
