(* ===== verification/Windows_Changes.thy ===== *)
theory Windows_Changes
  imports Windows_Checkpoint
begin

text \<open>
  The change-journal side of the Windows provider: the journal session (\<open>crates/windows-fs/src/journal.rs\<close>),
  identities and the translation of one record into canonical events, and \<open>read_changes\<close>
  (\<open>provider.rs\<close>). The kernel calls are the parameters \<open>journal_device\<close> (volume device and control calls)
  and \<open>fs_view\<close> (the filesystem at the moment a record is translated, one view per record); the event sink
  keeps its own state and may refuse an event. Paths are strings.

  Shown: a bounded read splits the event stream at an event boundary without losing or repeating one
  (\<open>translate\<close> is the unbounded specification); renames keep link identities; lost history is reported
  before anything is emitted.
\<close>

section \<open>Errors of the operating system\<close>

datatype io_kind = IoNotFound | IoPermissionDenied | IoOther

record io_error =
  io_kind :: io_kind
  io_text :: string

definition io_error_of :: "string \<Rightarrow> io_error \<Rightarrow> PlatformError" where
  "io_error_of operation e =
     platform_error
       (case io_kind e of IoPermissionDenied \<Rightarrow> PePermissionDenied | IoNotFound \<Rightarrow> PeUnavailable | IoOther \<Rightarrow> PeIo)
       operation (io_text e)"

definition internal :: "string \<Rightarrow> PlatformError" where
  "internal detail = platform_error PeInternal ''windows_provider'' detail"

type_synonym os_code = "int option"

definition native_error_kind :: "os_code \<Rightarrow> PlatformErrorKind" where
  "native_error_kind code =
     (if code = Some 5 then PePermissionDenied
      else if code \<in> {Some 2, Some 3, Some 21, Some 1178} then PeUnavailable
      else if code = Some 1179 then PeUnsupported
      else if code = Some 1181 then PeSourceHistoryGap
      else PeIo)"

definition resolve_error_kind :: "os_code \<Rightarrow> PlatformErrorKind" where
  "resolve_error_kind code = (if code = Some 87 then PeUnavailable else native_error_kind code)"

section \<open>The journal session\<close>

record JournalState =
  jst_identity :: u64
  jst_first_position :: i64
  jst_next_position :: i64
  jst_lowest_valid_position :: i64

record JournalPage =
  jp_next_position :: i64
  jp_records :: "SanitizedUsnRecord list"

text \<open>The kernel calls behind a session: opening the volume device, the two control calls (with the byte count
  the kernel reports; the first argument of the query tells the first from the second query of one
  operation), the size of its journal description and the text of an error code.\<close>

record journal_device =
  jd_open :: "string \<Rightarrow> os_code + unit"
  jd_query :: "nat \<Rightarrow> os_code + (u32 \<times> JournalState)"
  jd_read :: "i64 \<Rightarrow> u64 \<Rightarrow> os_code + (u32 \<times> bytes)"
  jd_journal_data_size :: nat
  jd_message :: "os_code \<Rightarrow> string"

definition READ_BUFFER_BYTES :: nat where "READ_BUFFER_BYTES = 1024 * 1024"

definition native_error :: "journal_device \<Rightarrow> string \<Rightarrow> os_code \<Rightarrow> PlatformError" where
  "native_error dev operation code = platform_error (native_error_kind code) operation (jd_message dev code)"

definition trim_separators :: "string \<Rightarrow> string" where
  "trim_separators s = rev (dropWhile (\<lambda>c. c = char_of (92 :: nat) \<or> c = CHR ''/'') (rev s))"

definition volume_device_path :: "string \<Rightarrow> string platform_result" where
  "volume_device_path root =
     (let units = utf16_units root; bs = char_of (92 :: nat) in
      if 2 \<le> length units \<and> units ! 1 = 58
      then if is_scalar (unat (units ! 0))
           then Inr ([bs, bs, CHR ''.'', bs] @ string_of [unat (units ! 0)] @ '':'')
           else Inl (platform_error PeUnsupported ''open_usn_volume'' ''drive letter is not valid Unicode'')
      else if take 11 root = [bs, bs, CHR ''?'', bs] @ ''Volume{'' then Inr (trim_separators root)
      else Inl (platform_error PeUnsupported ''open_usn_volume'' ''volume has no supported Windows device path''))"

definition session_open :: "journal_device \<Rightarrow> string \<Rightarrow> unit platform_result" where
  "session_open dev root =
     and_then (volume_device_path root) (\<lambda>device.
       case jd_open dev device of Inl code \<Rightarrow> Inl (native_error dev ''open_usn_volume'' code) | Inr _ \<Rightarrow> Inr ())"

definition session_query :: "journal_device \<Rightarrow> nat \<Rightarrow> JournalState platform_result" where
  "session_query dev moment =
     (case jd_query dev moment of
        Inl code \<Rightarrow> Inl (native_error dev ''query_usn_journal'' code)
      | Inr (returned, state) \<Rightarrow>
          if unat returned < jd_journal_data_size dev
          then Inl (platform_error PeIo ''query_usn_journal'' ''kernel returned a truncated journal state'')
          else Inr state)"

definition session_read :: "journal_device \<Rightarrow> i64 \<Rightarrow> u64 \<Rightarrow> JournalPage platform_result" where
  "session_read dev start identity =
     (case jd_read dev start identity of
        Inl code \<Rightarrow> Inl (native_error dev ''read_usn_journal'' code)
      | Inr (returned, output) \<Rightarrow>
          if unat returned < 8 \<or> READ_BUFFER_BYTES < unat returned
          then Inl (platform_error PeIo ''read_usn_journal'' ''kernel returned an invalid journal page length'')
          else and_then (decode_page (take (unat returned) output)) (\<lambda>(next_position, records).
                 Inr \<lparr>jp_next_position = next_position, jp_records = records\<rparr>))"

text \<open>The filesystem at the moment a record is translated: opening a parent by its reference, the final path of
  that handle in UTF-16 (with the reported length), joining a name, and the metadata of a path.\<close>

record os_metadata =
  om_is_dir :: bool
  om_is_symlink :: bool
  om_is_file :: bool
  om_file_size :: u64
  om_creation_time :: u64
  om_last_write_time :: u64
  om_file_attributes :: u32

record fs_view =
  fv_open_by_id :: "u64 \<Rightarrow> os_code + unit"
  fv_final_path :: "u64 \<Rightarrow> os_code + (u32 \<times> u16 list)"
  fv_message :: "os_code \<Rightarrow> string"
  fv_join :: "u16 list \<Rightarrow> string \<Rightarrow> string"
  fv_symlink_metadata :: "string \<Rightarrow> io_error + os_metadata"

definition resolve_child :: "fs_view \<Rightarrow> u64 \<Rightarrow> string \<Rightarrow> string platform_result" where
  "resolve_child fs parent_reference name =
     (let resolve_error = (\<lambda>code. platform_error (resolve_error_kind code) ''resolve_usn_parent'' (fv_message fs code)) in
      case fv_open_by_id fs parent_reference of
        Inl code \<Rightarrow> Inl (resolve_error code)
      | Inr _ \<Rightarrow>
          (case fv_final_path fs parent_reference of
             Inl code \<Rightarrow> Inl (resolve_error code)
           | Inr (len, buffer) \<Rightarrow>
               if 32768 \<le> unat len
               then Inl (platform_error PeResourceExhausted ''resolve_usn_parent''
                          ''resolved path exceeded the bounded UTF-16 buffer'')
               else Inr (fv_join fs (take (unat len) buffer) name)))"

datatype ObjectLookup = Observed FileObjectSnapshot | Missing | Unavailable

definition filetime_ms :: "u64 \<Rightarrow> i64 option" where
  "filetime_ms value =
     (let EPOCH = 116444736000000000 in
      if value < EPOCH then None else i64_try_from_u64 ((value - EPOCH) div 10000))"

definition kind_of_metadata :: "os_metadata \<Rightarrow> FileKind" where
  "kind_of_metadata m =
     (if om_is_dir m then Directory else if om_is_symlink m then Symlink else if om_is_file m then File else OtherKind)"

definition metadata_of :: "os_metadata \<Rightarrow> FileMetadata" where
  "metadata_of m =
     \<lparr>md_kind = kind_of_metadata m, md_size = om_file_size m, md_created_at_unix_ms = filetime_ms (om_creation_time m),
      md_modified_at_unix_ms = filetime_ms (om_last_write_time m),
      md_hidden = (om_file_attributes m AND 0x2 \<noteq> 0), md_availability = Online\<rparr>"

definition object_snapshot :: "fs_view \<Rightarrow> string \<Rightarrow> FileKey \<Rightarrow> ObjectLookup platform_result" where
  "object_snapshot fs path object_key =
     (case fv_symlink_metadata fs path of
        Inl e \<Rightarrow> (case io_kind e of
                    IoNotFound \<Rightarrow> Inr Missing
                  | IoPermissionDenied \<Rightarrow> Inr Unavailable
                  | IoOther \<Rightarrow> Inl (io_error_of ''read_changed_metadata'' e))
      | Inr m \<Rightarrow> Inr (Observed \<lparr>obj_object_key = object_key, obj_metadata = metadata_of m\<rparr>))"

section \<open>Identities\<close>

definition stable_hash_bytes :: "bytes \<Rightarrow> u128" where
  "stable_hash_bytes bs =
     foldl (\<lambda>h b. (h XOR ucast b) * 0x0000000001000000000000000000013b) 0x6c62272e07bb014262b821756295c58d bs"

definition file_key :: "VolumeId \<Rightarrow> u64 \<Rightarrow> FileKey" where
  "file_key volume_id reference = \<lparr>fk_volume_id = volume_id, fk_file_id = from_u128 (ucast reference)\<rparr>"

definition root_link_id :: "VolumeId \<Rightarrow> FileLinkId" where
  "root_link_id volume_id = from_u128 (as_u128 volume_id XOR 0x006c732d726f6f742d6c696e6b2d7631)"

definition link_hash :: "FileKey option \<Rightarrow> string \<Rightarrow> u128" where
  "link_hash parent name =
     stable_hash_bytes
       ((case parent of None \<Rightarrow> [] | Some p \<Rightarrow> into_bytes (fk_volume_id p) @ into_bytes (fk_file_id p)) @ as_bytes name)"

definition checkpoint_identity :: "VolumeId \<Rightarrow> u64" where
  "checkpoint_identity volume_id = of_nat (be_nat (take 8 (drop 8 (into_bytes volume_id))))"

definition volume_id_from_guid :: "string \<Rightarrow> VolumeId" where
  "volume_id_from_guid guid = from_u128 (stable_hash_bytes (as_bytes guid))"

section \<open>Translating one journal record\<close>

definition flag :: "u32 \<Rightarrow> SanitizedUsnRecord \<Rightarrow> bool" where
  "flag bits r \<longleftrightarrow> usn_reason r AND bits \<noteq> 0"

definition changed_object :: "fs_view \<Rightarrow> SanitizedUsnRecord \<Rightarrow> FileKey \<Rightarrow> ObjectLookup platform_result" where
  "changed_object fs record object_key =
     (case resolve_child fs (usn_parent_reference record) (usn_name record) of
        Inr path \<Rightarrow> object_snapshot fs path object_key
      | Inl e \<Rightarrow> if pe_kind e = PePermissionDenied \<or> pe_kind e = PeUnavailable then Inr Unavailable else Inl e)"

definition canonical_events ::
  "fs_view \<Rightarrow> WindowsCheckpoint \<Rightarrow> VolumeId \<Rightarrow> SanitizedUsnRecord
     \<Rightarrow> (WindowsCheckpoint \<times> FilesystemEvent list) platform_result" where
  "canonical_events fs saved volume_id record =
     (if usn_had_invalid_utf16 record
      then Inr (saved, [ReconciliationRequired volume_id ProviderRequested])
      else
      let object_key = file_key volume_id (usn_file_reference record);
          parent_key = file_key volume_id (usn_parent_reference record);
          path_link_id = (case known_link_id saved (usn_parent_reference record) (usn_name record) of
                            Some i \<Rightarrow> i
                          | None \<Rightarrow> from_u128 (link_hash (Some parent_key) (usn_name record)))
      in
      if flag REASON_RENAME_OLD_NAME record
      then Inr (remember_rename (forget_known_link saved (usn_parent_reference record) (usn_name record))
                  (usn_file_reference record) path_link_id, [])
      else
      let (file_link_id, saved) =
            (if flag REASON_RENAME_NEW_NAME record
             then let (taken, saved) = take_rename saved (usn_file_reference record);
                      stable = (case taken of Some i \<Rightarrow> i | None \<Rightarrow> path_link_id)
                  in (stable, remember_known_link saved (usn_parent_reference record) (usn_name record) stable)
             else (path_link_id, saved));
          link = \<lparr>lnk_file_link_id = file_link_id, lnk_object_key = object_key, lnk_parent_key = Some parent_key,
                  lnk_name = usn_name record\<rparr>
      in
      if flag REASON_FILE_DELETE record
      then Inr (forget_known_link saved (usn_parent_reference record) (usn_name record),
                [LinkRemoved file_link_id object_key, ObjectRemoved object_key])
      else
      and_then (changed_object fs record object_key) (\<lambda>lookup.
        if lookup = Unavailable then Inr (saved, [])
        else if flag REASON_HARD_LINK_CHANGE record \<and> \<not> flag (REASON_FILE_CREATE OR REASON_RENAME_NEW_NAME) record
        then Inr (saved, case lookup of
                    Observed _ \<Rightarrow> [LinkObserved link]
                  | Missing \<Rightarrow> [LinkRemoved file_link_id object_key]
                  | Unavailable \<Rightarrow> [])
        else
        let observes_link = flag (REASON_FILE_CREATE OR REASON_RENAME_NEW_NAME) record;
            observes_object = flag (REASON_FILE_CREATE OR REASON_BASIC_INFO_CHANGE OR REASON_DATA_CHANGE) record
        in Inr (saved,
             (if observes_object then (case lookup of Observed object \<Rightarrow> [ObjectObserved object] | _ \<Rightarrow> []) else [])
             @ (if observes_link then [LinkObserved link] else []))))"

section \<open>Reading changes\<close>

datatype TrackingMode = Snapshot | UsnJournal

record NativeVolume =
  nv_descriptor :: VolumeDescriptor
  nv_root :: string

record WindowsFilesystemProvider =
  wp_volumes :: "VolumeId \<rightharpoonup> NativeVolume"
  wp_tracking :: TrackingMode

definition new_provider :: WindowsFilesystemProvider where
  "new_provider = \<lparr>wp_volumes = Map.empty, wp_tracking = Snapshot\<rparr>"

definition new_with_usn_journal :: WindowsFilesystemProvider where
  "new_with_usn_journal = \<lparr>wp_volumes = Map.empty, wp_tracking = UsnJournal\<rparr>"

definition native_volume :: "WindowsFilesystemProvider \<Rightarrow> VolumeId \<Rightarrow> NativeVolume platform_result" where
  "native_volume p i =
     ok_or (wp_volumes p i) (platform_error PeUnavailable ''resolve_volume'' ''volume is not currently online'')"

definition capabilities :: "WindowsFilesystemProvider \<Rightarrow> PlatformCapabilities" where
  "capabilities p =
     (let journal = wp_tracking p = UsnJournal in
      \<lparr>cap_platform = Windows, cap_initial_scan = FilesystemCrawl,
       cap_change_tracking = (if journal then PersistentObjectJournal else SnapshotOnly),
       cap_privilege_model = OptionalBroker, cap_stable_object_ids = True, cap_hard_links = True,
       cap_persistent_history = journal\<rparr>)"

definition retained_start :: "JournalState \<Rightarrow> i64" where
  "retained_start st = max (jst_first_position st) (jst_lowest_valid_position st)"

text \<open>A \<open>for\<close> loop that emits events and counts them; the first refusal ends it.\<close>

fun emit_each :: "'s sink \<Rightarrow> 's \<Rightarrow> u32 \<Rightarrow> FilesystemEvent list \<Rightarrow> 's \<times> u32 platform_result" where
  "emit_each emit s emitted [] = (s, Inr emitted)"
| "emit_each emit s emitted (e # es) =
     (case emit s e of
        (s', Inl err) \<Rightarrow> (s', Inl err)
      | (s', Inr _) \<Rightarrow> emit_each emit s' (emitted + 1) es)"

definition emit_pending ::
  "'s sink \<Rightarrow> WindowsCheckpoint \<Rightarrow> u32 \<Rightarrow> 's \<Rightarrow> u32 \<Rightarrow> 's \<times> (WindowsCheckpoint \<times> u32) platform_result" where
  "emit_pending emit saved maximum_events s emitted =
     (let accepted = min (unat maximum_events) (length (wc_pending_events saved)) in
      case emit_each emit s emitted (take accepted (wc_pending_events saved)) of
        (s', Inl err) \<Rightarrow> (s', Inl err)
      | (s', Inr emitted') \<Rightarrow>
          (s', Inr (saved\<lparr>wc_pending_events := drop accepted (wc_pending_events saved)\<rparr>, emitted')))"

definition change_batch ::
  "checkpoint_json \<Rightarrow> VolumeId \<Rightarrow> WindowsCheckpoint \<Rightarrow> u32 \<Rightarrow> bool \<Rightarrow> ChangeBatch platform_result" where
  "change_batch js volume_id saved emitted_events has_more =
     and_then (encode_checkpoint js volume_id saved) (\<lambda>cp.
       Inr \<lparr>cb_checkpoint = cp, cb_emitted_events = emitted_events, cb_has_more = has_more\<rparr>)"

text \<open>The loop over a page. It ends the whole operation (\<open>Stopped\<close>, with the batch's remaining fields) when the
  event budget is used up, and otherwise runs to the end of the page. \<open>fs i\<close> is the filesystem while the
  \<open>i\<close>-th record of the page is translated.\<close>

datatype page_end = Stopped WindowsCheckpoint u32 bool | Finished WindowsCheckpoint u32

fun read_records ::
  "'s sink \<Rightarrow> (nat \<Rightarrow> fs_view) \<Rightarrow> VolumeId \<Rightarrow> u32 \<Rightarrow> JournalState \<Rightarrow> i64 \<Rightarrow> WindowsCheckpoint \<Rightarrow> u32 \<Rightarrow> 's \<Rightarrow> nat
     \<Rightarrow> SanitizedUsnRecord list \<Rightarrow> 's \<times> page_end platform_result" where
  "read_records emit fs volume_id maximum_events before page_next saved emitted s index [] =
     (s, Inr (Finished saved emitted))"
| "read_records emit fs volume_id maximum_events before page_next saved emitted s index (record # rest) =
     (let next_position = (case rest of [] \<Rightarrow> page_next | r # _ \<Rightarrow> usn_position r) in
      case canonical_events (fs index) saved volume_id record of
        Inl e \<Rightarrow> (s, Inl e)
      | Inr (saved, events) \<Rightarrow>
          let available = unat (maximum_events - emitted); accepted = min available (length events) in
          (case emit_each emit s emitted (take accepted events) of
             (s', Inl err) \<Rightarrow> (s', Inl err)
           | (s', Inr emitted') \<Rightarrow>
               let saved = saved\<lparr>wc_next_position := next_position\<rparr> in
               if accepted < length events
               then (s', Inr (Stopped (saved\<lparr>wc_pending_events := drop accepted events\<rparr>) emitted' True))
               else if emitted' = maximum_events
               then (s', Inr (Stopped saved emitted' (wc_next_position saved < jst_next_position before)))
               else read_records emit fs volume_id maximum_events before page_next saved emitted' s' (Suc index) rest))"

definition read_page ::
  "checkpoint_json \<Rightarrow> 's sink \<Rightarrow> (nat \<Rightarrow> fs_view) \<Rightarrow> journal_device \<Rightarrow> VolumeId \<Rightarrow> u32 \<Rightarrow> JournalState
     \<Rightarrow> WindowsCheckpoint \<Rightarrow> u32 \<Rightarrow> 's \<Rightarrow> 's \<times> ChangeBatch platform_result" where
  "read_page js emit fs dev volume_id maximum_events before saved emitted s =
     (case session_read dev (wc_next_position saved) (wc_journal_identity saved) of
        Inl e \<Rightarrow> (s, Inl e)
      | Inr page \<Rightarrow>
          if jp_next_position page < wc_next_position saved
          then (s, Inl (platform_error PeIo ''read_changes'' ''journal cursor moved backwards''))
          else
          (case read_records emit fs volume_id maximum_events before (jp_next_position page) saved emitted s 0
                  (jp_records page) of
             (s', Inl e) \<Rightarrow> (s', Inl e)
           | (s', Inr (Stopped saved emitted has_more)) \<Rightarrow> (s', change_batch js volume_id saved emitted has_more)
           | (s', Inr (Finished saved emitted)) \<Rightarrow>
               (s', and_then (session_query dev 1) (\<lambda>after.
                     and_then (validate_checkpoint saved (jst_identity after) (retained_start after)) (\<lambda>_.
                       change_batch js volume_id (saved\<lparr>wc_lowest_valid_position := retained_start after\<rparr>) emitted
                         (wc_next_position saved < jst_next_position after))))))"

definition read_changes ::
  "checkpoint_json \<Rightarrow> 's sink \<Rightarrow> (nat \<Rightarrow> fs_view) \<Rightarrow> journal_device \<Rightarrow> WindowsFilesystemProvider
     \<Rightarrow> ProviderCheckpoint \<Rightarrow> u32 \<Rightarrow> 's \<Rightarrow> 's \<times> ChangeBatch platform_result" where
  "read_changes js emit fs dev p checkpoint maximum_events s =
     (case decode_checkpoint js checkpoint of
        Inl e \<Rightarrow> (s, Inl e)
      | Inr saved \<Rightarrow>
      if wp_tracking p \<noteq> UsnJournal
      then (s, Inl (platform_error PeUnsupported ''read_changes''
                     ''this provider instance is configured for snapshots only''))
      else
      (case and_then (native_volume p (pc_volume_id checkpoint)) (\<lambda>native.
              and_then (session_open dev (nv_root native)) (\<lambda>_.
              and_then (session_query dev 0) (\<lambda>before.
              and_then (validate_checkpoint saved (jst_identity before) (retained_start before)) (\<lambda>_. Inr before)))) of
         Inl e \<Rightarrow> (s, Inl e)
       | Inr before \<Rightarrow>
           let saved = saved\<lparr>wc_lowest_valid_position := retained_start before\<rparr> in
           (case emit_pending emit saved maximum_events s 0 of
              (s', Inl e) \<Rightarrow> (s', Inl e)
            | (s', Inr (saved, emitted)) \<Rightarrow>
                if wc_pending_events saved \<noteq> [] \<or> emitted = maximum_events
                then (s', change_batch js (pc_volume_id checkpoint) saved emitted
                        (wc_pending_events saved \<noteq> [] \<or> wc_next_position saved < jst_next_position before))
                else read_page js emit fs dev (pc_volume_id checkpoint) maximum_events before saved emitted s')))"

section \<open>The unbounded stream of a page\<close>

text \<open>Each record of a page with the position that follows it, and the translation of a run of records without an
  event budget: the specification that bounded reads are measured against.\<close>

definition page_steps :: "JournalPage \<Rightarrow> (SanitizedUsnRecord \<times> i64) list" where
  "page_steps page = zip (jp_records page) (map usn_position (tl (jp_records page)) @ [jp_next_position page])"

fun translate ::
  "(nat \<Rightarrow> fs_view) \<Rightarrow> VolumeId \<Rightarrow> nat \<Rightarrow> WindowsCheckpoint \<Rightarrow> (SanitizedUsnRecord \<times> i64) list
     \<Rightarrow> (WindowsCheckpoint \<times> FilesystemEvent list) platform_result" where
  "translate fs v i saved [] = Inr (saved, [])"
| "translate fs v i saved ((r, next_position) # steps) =
     and_then (canonical_events (fs i) saved v r) (\<lambda>(saved', es).
     and_then (translate fs v (Suc i) (saved'\<lparr>wc_next_position := next_position\<rparr>) steps) (\<lambda>(saved'', es').
       Inr (saved'', es @ es')))"

text \<open>A sink that accepted a run of events, one after another.\<close>

fun fed :: "'s sink \<Rightarrow> 's \<Rightarrow> FilesystemEvent list \<Rightarrow> 's \<Rightarrow> bool" where
  "fed emit s [] s' \<longleftrightarrow> s' = s"
| "fed emit s (e # es) s' \<longleftrightarrow> (\<exists>t. emit s e = (t, Inr ()) \<and> fed emit t es s')"

lemma fed_append: "fed emit s (xs @ ys) u \<longleftrightarrow> (\<exists>t. fed emit s xs t \<and> fed emit t ys u)"
  by (induction xs arbitrary: s) auto

lemma emit_each_Inr:
  "emit_each emit s n es = (s', Inr m) \<Longrightarrow> fed emit s es s' \<and> m = n + of_nat (length es)"
proof (induction es arbitrary: s n)
  case (Cons e es)
  then obtain t where t: "emit s e = (t, Inr ())" "emit_each emit t (n + 1) es = (s', Inr m)"
    by (auto split: prod.splits sum.splits)
  from Cons.IH [OF t(2)] t(1) show ?case by (auto simp: algebra_simps)
qed simp

lemma unat_count:
  assumes "(m :: u32) = n + of_nat k" "unat n + k \<le> unat (b :: u32)"
  shows "unat m = unat n + k"
proof -
  have "unat b < 2 ^ 32" using unsigned_less [of b] by simp
  with assms(2) have "unat n + k < 2 ^ 32" by simp
  then show ?thesis using assms(1) by (simp add: unat_word_ariths unat_of_nat)
qed

section \<open>What translating one record does\<close>

text \<open>The identity a record's path has, as a map lookup.\<close>

definition path_identity :: "WindowsCheckpoint \<Rightarrow> VolumeId \<Rightarrow> SanitizedUsnRecord \<Rightarrow> FileLinkId" where
  "path_identity saved v r =
     (case known saved (usn_parent_reference r, usn_name r) of
        Some i \<Rightarrow> i
      | None \<Rightarrow> from_u128 (link_hash (Some (file_key v (usn_parent_reference r))) (usn_name r)))"

text \<open>The memory after a record: an old name moves its identity into the pending renames, a new name takes it
  back out and binds it to the new path, a deletion forgets the path.\<close>

definition memory_after ::
  "WindowsCheckpoint \<Rightarrow> VolumeId \<Rightarrow> SanitizedUsnRecord \<Rightarrow> (u64 \<rightharpoonup> FileLinkId) \<times> (u64 \<times> string \<rightharpoonup> FileLinkId)" where
  "memory_after saved v r =
     (let here = (usn_parent_reference r, usn_name r); f = usn_file_reference r; i = path_identity saved v r in
      if usn_had_invalid_utf16 r then (renames saved, known saved)
      else if flag REASON_RENAME_OLD_NAME r then ((renames saved)(f \<mapsto> i), (known saved)(here := None))
      else let (rn, kn) =
             (if flag REASON_RENAME_NEW_NAME r
              then ((renames saved)(f := None),
                    (known saved)(here \<mapsto> (case renames saved f of Some j \<Rightarrow> j | None \<Rightarrow> i)))
              else (renames saved, known saved))
           in if flag REASON_FILE_DELETE r then (rn, kn(here := None)) else (rn, kn))"

lemma canonical_events_keeps:
  assumes "canonical_events fs saved v r = Inr (saved', es)" "memory_ok saved"
  shows "same_cursor saved saved' \<and> memory_ok saved' \<and> (renames saved', known saved') = memory_after saved v r"
proof -
  have facts: "memory_ok (remember_known_link s p n i)" "known (remember_known_link s p n i) = (known s)((p, n) \<mapsto> i)"
      "memory_ok (forget_known_link s p n)" "known (forget_known_link s p n) = (known s)((p, n) := None)"
      "memory_ok (remember_rename s f i)" "renames (remember_rename s f i) = (renames s)(f \<mapsto> i)"
      "fst (take_rename s f) = renames s f" "memory_ok (snd (take_rename s f))"
      "renames (snd (take_rename s f)) = (renames s)(f := None)" "known_link_id s p n = known s (p, n)"
    if "memory_ok s" for s p n i f
    using link_facts [OF that] rename_facts [OF that] by simp_all
  obtain rn saved1 where taken: "take_rename saved (usn_file_reference r) = (rn, saved1)" by fastforce
  then have t: "rn = fst (take_rename saved (usn_file_reference r))" "saved1 = snd (take_rename saved (usn_file_reference r))"
    by simp_all
  consider (invalid) "usn_had_invalid_utf16 r"
    | (old) "\<not> usn_had_invalid_utf16 r" "flag REASON_RENAME_OLD_NAME r"
    | (new) "\<not> usn_had_invalid_utf16 r" "\<not> flag REASON_RENAME_OLD_NAME r" "flag REASON_RENAME_NEW_NAME r"
    | (same) "\<not> usn_had_invalid_utf16 r" "\<not> flag REASON_RENAME_OLD_NAME r" "\<not> flag REASON_RENAME_NEW_NAME r"
    by blast
  then show ?thesis
  proof cases
    case invalid
    then show ?thesis using assms by (auto simp: canonical_events_def memory_after_def Let_def same_cursor_memory)
  next
    case old
    then have "saved' = remember_rename (forget_known_link saved (usn_parent_reference r) (usn_name r))
        (usn_file_reference r) (path_identity saved v r)"
      using assms by (simp add: canonical_events_def Let_def path_identity_def facts)
    moreover note same_cursor_memory(2) [OF same_cursor_memory(6,3)]
    ultimately show ?thesis
      using old assms(2) by (simp add: memory_after_def Let_def facts memories_independent)
  next
    case new
    let ?i = "case renames saved (usn_file_reference r) of Some j \<Rightarrow> j | None \<Rightarrow> path_identity saved v r"
    let ?s = "remember_known_link saved1 (usn_parent_reference r) (usn_name r) ?i"
    have "saved' = (if flag REASON_FILE_DELETE r then forget_known_link ?s (usn_parent_reference r) (usn_name r) else ?s)"
    proof -
      have rn: "(case rn of Some i \<Rightarrow> i | None \<Rightarrow> case known_link_id saved (usn_parent_reference r) (usn_name r) of
          Some i \<Rightarrow> i | None \<Rightarrow> from_u128 (link_hash (Some (file_key v (usn_parent_reference r))) (usn_name r))) = ?i"
        using facts(7,10) [OF assms(2)] by (simp only: t path_identity_def)
      show ?thesis
        using assms(1) unfolding canonical_events_def Let_def taken prod.case
        by (simp only: new if_False if_True prod.case rn) (auto simp: result_simps split: if_splits)
    qed
    moreover have "same_cursor saved ?s" "same_cursor saved (forget_known_link ?s (usn_parent_reference r) (usn_name r))"
      unfolding t
      by (simp_all add: same_cursor_def take_rename_eq remember_known_link_eq forget_known_link_eq)
    moreover have ok: "memory_ok saved1" "renames saved1 = (renames saved)(usn_file_reference r := None)"
        "known saved1 = known saved"
      unfolding t using facts(8,9) [OF assms(2)] memories_independent by simp_all
    moreover note facts(1,2) [OF ok(1), of "usn_parent_reference r" "usn_name r" ?i]
    moreover note facts(3,4) [OF facts(1) [OF ok(1)], of _ _ _ "usn_parent_reference r" "usn_name r"]
    ultimately show ?thesis
      unfolding memory_after_def Let_def using new
      by (cases "flag REASON_FILE_DELETE r") (simp_all only: if_True if_False prod.case memories_independent simp_thms)
  next
    case same
    then have "saved' = (if flag REASON_FILE_DELETE r
        then forget_known_link saved (usn_parent_reference r) (usn_name r) else saved)"
      using assms by (auto simp: canonical_events_def Let_def result_simps split: if_splits)
    then show ?thesis
      using same assms(2) by (simp add: memory_after_def Let_def facts memories_independent same_cursor_memory)
  qed
qed

lemma read_records_splits:
  assumes "read_records emit fs v maxi before page_next saved n s i rs = (s', Inr out)"
    and "memory_ok saved" "wc_pending_events saved = []" "unat n < unat maxi"
  defines "steps \<equiv> zip rs (map usn_position (tl rs) @ [page_next])"
  shows "\<exists>k saved' es sent rest. k \<le> length rs \<and> translate fs v i saved (take k steps) = Inr (saved', es)
    \<and> es = sent @ rest \<and> fed emit s sent s' \<and> memory_ok saved' \<and> wc_pending_events saved' = []
    \<and> (case out of
         Finished c m \<Rightarrow> k = length rs \<and> rest = [] \<and> c = saved' \<and> unat m = unat n + length sent \<and> unat m < unat maxi
       | Stopped c m hm \<Rightarrow> 0 < k \<and> c = saved'\<lparr>wc_pending_events := rest\<rparr> \<and> unat m = unat n + length sent
           \<and> unat m = unat maxi \<and> hm = (rest \<noteq> [] \<or> wc_next_position saved' < jst_next_position before))"
  using assms(1-4) unfolding steps_def
proof (induction rs arbitrary: saved n s i)
  case Nil
  then show ?case by (intro exI [of _ 0] exI [of _ saved] exI [of _ "[]"]) auto
next
  case (Cons r rs)
  define np where "np = (case rs of [] \<Rightarrow> page_next | r # _ \<Rightarrow> usn_position r)"
  have steps: "zip (r # rs) (map usn_position (tl (r # rs)) @ [page_next])
      = (r, np) # zip rs (map usn_position (tl rs) @ [page_next])"
    by (cases rs) (simp_all add: np_def)
  obtain saved1 es1 where ce: "canonical_events (fs i) saved v r = Inr (saved1, es1)"
    using Cons.prems(1) by (cases "canonical_events (fs i) saved v r") auto
  have keep: "same_cursor saved saved1" "memory_ok saved1"
    using canonical_events_keeps [OF ce Cons.prems(2)] by blast+
  define a where "a = min (unat (maxi - n)) (length es1)"
  define saved2 where "saved2 = saved1\<lparr>wc_next_position := np\<rparr>"
  have s2: "memory_ok saved2" "wc_pending_events saved2 = []"
    using keep Cons.prems(3) by (simp_all add: saved2_def memory_ok_def same_cursor_def)
  obtain t m where em: "emit_each emit s n (take a es1) = (t, Inr m)"
    using Cons.prems(1) ce
    by (auto simp: Let_def a_def split: prod.splits sum.splits)
  have fed: "fed emit s (take a es1) t" "m = n + of_nat (length (take a es1))" using emit_each_Inr [OF em] by blast+
  have av: "unat (maxi - n) = unat maxi - unat n" using Cons.prems(4) by (simp add: unat_sub word_le_nat_alt)
  have m: "unat m = unat n + length (take a es1)" using fed(2) av Cons.prems(4)
    by (intro unat_count [where b = maxi]) (simp_all add: a_def)
  have run: "read_records emit fs v maxi before page_next saved n s i (r # rs) =
      (if a < length es1 then (t, Inr (Stopped (saved2\<lparr>wc_pending_events := drop a es1\<rparr>) m True))
       else if m = maxi then (t, Inr (Stopped saved2 m (wc_next_position saved2 < jst_next_position before)))
       else read_records emit fs v maxi before page_next saved2 m t (Suc i) rs)"
    using ce em by (simp add: Let_def a_def [symmetric] np_def [symmetric] saved2_def [symmetric])
  have one: "translate fs v i saved (take 1 ((r, np) # xs)) = Inr (saved2, es1)" for xs
    using ce by (simp add: saved2_def)
  show ?case
  proof (cases "a < length es1 \<or> m = maxi")
    case True
    have mx: "unat m = unat maxi" using True m av Cons.prems(4) by (auto simp: a_def)
    have out: "s' = t \<and> out = Stopped (saved2\<lparr>wc_pending_events := drop a es1\<rparr>) m
        (drop a es1 \<noteq> [] \<or> wc_next_position saved2 < jst_next_position before)"
      using Cons.prems(1) True s2(2) unfolding run by (auto split: if_splits)
    show ?thesis unfolding steps
      by (rule exI [of _ 1], rule exI [of _ saved2], rule exI [of _ es1], rule exI [of _ "take a es1"],
          rule exI [of _ "drop a es1"], intro conjI) (use one fed(1) s2 out m mx in simp_all)
  next
    case False
    then have run': "read_records emit fs v maxi before page_next saved2 m t (Suc i) rs = (s', Inr out)"
        and all: "take a es1 = es1"
      using Cons.prems(1) unfolding run by (auto simp: a_def)
    have lt: "unat m < unat maxi"
      using False m av Cons.prems(4) by (auto simp: a_def word_unat_eq_iff)
    obtain k saved' es sent rest where ih: "k \<le> length rs"
      "translate fs v (Suc i) saved2 (take k (zip rs (map usn_position (tl rs) @ [page_next]))) = Inr (saved', es)"
      "es = sent @ rest" "fed emit t sent s'" "memory_ok saved'" "wc_pending_events saved' = []"
      "case out of
         Finished c m' \<Rightarrow> k = length rs \<and> rest = [] \<and> c = saved' \<and> unat m' = unat m + length sent \<and> unat m' < unat maxi
       | Stopped c m' hm \<Rightarrow> 0 < k \<and> c = saved'\<lparr>wc_pending_events := rest\<rparr> \<and> unat m' = unat m + length sent
           \<and> unat m' = unat maxi \<and> hm = (rest \<noteq> [] \<or> wc_next_position saved' < jst_next_position before)"
      using Cons.IH [OF run' s2 lt] by blast
    have "translate fs v i saved (take (Suc k) ((r, np) # zip rs (map usn_position (tl rs) @ [page_next])))
        = Inr (saved', es1 @ es)"
      using ce ih(2) by (simp add: saved2_def [symmetric])
    moreover have "fed emit s (es1 @ sent) s'" using fed(1) ih(4) unfolding all by (auto simp: fed_append)
    ultimately show ?thesis unfolding steps
      by (intro exI [of _ "Suc k"] exI [of _ saved'] exI [of _ "es1 @ es"] exI [of _ "es1 @ sent"] exI [of _ rest] conjI)
         (use ih m all in \<open>simp_all split: page_end.splits\<close>)
  qed
qed

lemma emit_pending_splits:
  assumes "emit_pending emit saved maxi s 0 = (s', Inr (saved', m))"
  shows "\<exists>sent. fed emit s sent s' \<and> wc_pending_events saved = sent @ wc_pending_events saved'
    \<and> unat m = length sent \<and> length sent \<le> unat maxi \<and> saved' = saved\<lparr>wc_pending_events := wc_pending_events saved'\<rparr>"
proof -
  define a where "a = min (unat maxi) (length (wc_pending_events saved))"
  have em: "emit_each emit s 0 (take a (wc_pending_events saved)) = (s', Inr m)"
    and saved': "saved' = saved\<lparr>wc_pending_events := drop a (wc_pending_events saved)\<rparr>"
    using assms by (auto simp: emit_pending_def Let_def a_def split: prod.splits sum.splits)
  have "unat m = unat (0 :: u32) + length (take a (wc_pending_events saved))"
    using emit_each_Inr [OF em] by (intro unat_count [where b = maxi]) (auto simp: a_def)
  then show ?thesis
    using emit_each_Inr [OF em] saved' by (intro exI [of _ "take a (wc_pending_events saved)"]) (simp add: a_def)
qed

lemma change_batch_Inr:
  assumes "change_batch js v saved m hm = Inr batch" "json_round_trips js" "memory_ok saved"
  shows "cb_emitted_events batch = m \<and> cb_has_more batch = hm \<and> decode_checkpoint js (cb_checkpoint batch) = Inr saved
    \<and> pc_volume_id (cb_checkpoint batch) = v"
proof -
  obtain cp where "encode_checkpoint js v saved = Inr cp"
      "batch = \<lparr>cb_checkpoint = cp, cb_emitted_events = m, cb_has_more = hm\<rparr>"
    using assms(1) by (auto simp: change_batch_def result_simps)
  then show ?thesis using decode_encode_checkpoint [OF assms(2,3)] encode_checkpoint_Inr by auto
qed

text \<open>What one bounded read does to a decoded checkpoint, for some run of steps of the page it read.\<close>

definition bounded_read ::
  "(nat \<Rightarrow> fs_view) \<Rightarrow> journal_device \<Rightarrow> VolumeId \<Rightarrow> WindowsCheckpoint \<Rightarrow> FilesystemEvent list \<Rightarrow> WindowsCheckpoint \<Rightarrow> bool" where
  "bounded_read fs dev v saved sent saved' \<longleftrightarrow>
     (\<exists>steps k mid es lo.
        (steps = [] \<or> (\<exists>page. session_read dev (wc_next_position saved) (wc_journal_identity saved) = Inr page
                        \<and> steps = page_steps page))
      \<and> translate fs v 0 (saved\<lparr>wc_pending_events := [], wc_lowest_valid_position := lo\<rparr>) (take k steps) = Inr (mid, es)
      \<and> wc_pending_events saved @ es = sent @ wc_pending_events saved'
      \<and> saved' = mid\<lparr>wc_pending_events := wc_pending_events saved',
                     wc_lowest_valid_position := wc_lowest_valid_position saved'\<rparr>)"

lemma bounded_read_pending_only:
  assumes "wc_pending_events saved = sent @ wc_pending_events saved'"
    and "saved' = saved\<lparr>wc_lowest_valid_position := lo, wc_pending_events := wc_pending_events saved'\<rparr>"
  shows "bounded_read fs dev v saved sent saved'"
proof -
  let ?mid = "saved\<lparr>wc_pending_events := [], wc_lowest_valid_position := lo\<rparr>"
  have "saved' = ?mid\<lparr>wc_pending_events := wc_pending_events saved',
      wc_lowest_valid_position := wc_lowest_valid_position saved'\<rparr>"
    using assms(2) by (metis WindowsCheckpoint.surjective WindowsCheckpoint.update_convs(3,5)
        WindowsCheckpoint.select_convs(3))
  moreover have "translate fs v 0 ?mid (take 0 []) = Inr (?mid, [])" by simp
  ultimately show ?thesis
    unfolding bounded_read_def using assms(1)
    by (intro exI [of _ "[]"] exI [of _ 0] exI [of _ ?mid] exI [of _ "[]"] exI [of _ lo] conjI) simp_all
qed

lemma memory_ok_cursor [simp]:
  "memory_ok (s\<lparr>wc_lowest_valid_position := x\<rparr>) = memory_ok s" "memory_ok (s\<lparr>wc_pending_events := es\<rparr>) = memory_ok s"
  "memory_ok (s\<lparr>wc_next_position := x\<rparr>) = memory_ok s"
  by (simp_all add: memory_ok_def)

lemma read_page_splits:
  assumes "read_page js emit fs dev v maxi before saved n s = (s', Inr batch)"
    and "json_round_trips js" "memory_ok saved" "wc_pending_events saved = []" "unat n < unat maxi"
  shows "\<exists>sent saved'. fed emit s sent s' \<and> unat (cb_emitted_events batch) = unat n + length sent
    \<and> unat (cb_emitted_events batch) \<le> unat maxi
    \<and> decode_checkpoint js (cb_checkpoint batch) = Inr saved' \<and> memory_ok saved' \<and> pc_volume_id (cb_checkpoint batch) = v
    \<and> (wc_pending_events saved' \<noteq> [] \<longrightarrow> cb_has_more batch)
    \<and> (\<exists>page k mid es. session_read dev (wc_next_position saved) (wc_journal_identity saved) = Inr page
        \<and> translate fs v 0 saved (take k (page_steps page)) = Inr (mid, es) \<and> es = sent @ wc_pending_events saved'
        \<and> saved' = mid\<lparr>wc_pending_events := wc_pending_events saved',
                       wc_lowest_valid_position := wc_lowest_valid_position saved'\<rparr>)"
proof -
  obtain page where page: "session_read dev (wc_next_position saved) (wc_journal_identity saved) = Inr page"
      "\<not> jp_next_position page < wc_next_position saved"
    using assms(1) by (auto simp: read_page_def split: sum.splits if_splits)
  obtain t out where rr: "read_records emit fs v maxi before (jp_next_position page) saved n s 0 (jp_records page) = (t, Inr out)"
    using assms(1) page by (auto simp: read_page_def split: prod.splits sum.splits)
  obtain k mid es sent rest where r: "translate fs v 0 saved (take k (page_steps page)) = Inr (mid, es)"
      "es = sent @ rest" "fed emit s sent t" "memory_ok mid" "wc_pending_events mid = []"
      "case out of
         Finished c m \<Rightarrow> k = length (jp_records page) \<and> rest = [] \<and> c = mid \<and> unat m = unat n + length sent \<and> unat m < unat maxi
       | Stopped c m hm \<Rightarrow> 0 < k \<and> c = mid\<lparr>wc_pending_events := rest\<rparr> \<and> unat m = unat n + length sent
           \<and> unat m = unat maxi \<and> hm = (rest \<noteq> [] \<or> wc_next_position mid < jst_next_position before)"
    using read_records_splits [OF rr assms(3-5)] unfolding page_steps_def by blast
  show ?thesis
  proof (cases out)
    case (Stopped c m hm)
    then have b: "s' = t" "change_batch js v c m hm = Inr batch"
      using assms(1) page rr by (auto simp: read_page_def)
    have c: "c = mid\<lparr>wc_pending_events := rest\<rparr>" "memory_ok c" "wc_pending_events c = rest"
      using r(4,6) Stopped by simp_all
    note batch = change_batch_Inr [OF b(2) assms(2) c(2)]
    have "c = mid\<lparr>wc_pending_events := wc_pending_events c, wc_lowest_valid_position := wc_lowest_valid_position c\<rparr>"
      unfolding c(1) by simp
    moreover have "unat (cb_emitted_events batch) = unat n + length sent" "unat (cb_emitted_events batch) \<le> unat maxi"
        "wc_pending_events c \<noteq> [] \<longrightarrow> cb_has_more batch" "es = sent @ wc_pending_events c" "fed emit s sent s'"
      using batch b(1) c r(2,3,6) Stopped by auto
    ultimately show ?thesis using batch c(2) r(1) page(1) by blast
  next
    case (Finished c m)
    then obtain after where after: "change_batch js v (c\<lparr>wc_lowest_valid_position := retained_start after\<rparr>) m
        (wc_next_position c < jst_next_position after) = Inr batch" "s' = t"
      using assms(1) page rr by (auto simp: read_page_def result_simps)
    let ?c = "c\<lparr>wc_lowest_valid_position := retained_start after\<rparr>"
    have c: "c = mid" "rest = []" "memory_ok ?c" "wc_pending_events ?c = []" using r(4-6) Finished by simp_all
    note batch = change_batch_Inr [OF after(1) assms(2) c(3)]
    have "?c = mid\<lparr>wc_pending_events := wc_pending_events ?c, wc_lowest_valid_position := wc_lowest_valid_position ?c\<rparr>"
      unfolding c(1) using r(5) by simp
    moreover have "unat (cb_emitted_events batch) = unat n + length sent" "unat (cb_emitted_events batch) \<le> unat maxi"
        "wc_pending_events ?c \<noteq> [] \<longrightarrow> cb_has_more batch" "es = sent @ wc_pending_events ?c" "fed emit s sent s'"
      using batch after(2) c r(2,3,6) Finished by auto
    ultimately show ?thesis using batch c(3) r(1) page(1) by blast
  qed
qed

text \<open>C31: a bounded read neither loses nor repeats an event. The events the sink accepted, followed by those left
  pending in the new checkpoint, are the old pending events followed by the full translation of the records
  between the old and the new cursor; at most the requested number is emitted, the batch reports that
  number, and a non-empty remainder is reported as more to read.\<close>

theorem read_changes_splits_stream:
  assumes "json_round_trips js" "decode_checkpoint js cp = Inr saved" "memory_ok saved"
    and "read_changes js emit fs dev p cp maximum_events s = (s', Inr batch)"
  shows "\<exists>sent saved'. fed emit s sent s' \<and> unat (cb_emitted_events batch) = length sent
    \<and> length sent \<le> unat maximum_events
    \<and> decode_checkpoint js (cb_checkpoint batch) = Inr saved' \<and> memory_ok saved'
    \<and> pc_volume_id (cb_checkpoint batch) = pc_volume_id cp
    \<and> (wc_pending_events saved' \<noteq> [] \<longrightarrow> cb_has_more batch)
    \<and> bounded_read fs dev (pc_volume_id cp) saved sent saved'"
proof -
  let ?v = "pc_volume_id cp"
  obtain before where before: "and_then (native_volume p ?v) (\<lambda>native.
              and_then (session_open dev (nv_root native)) (\<lambda>_.
              and_then (session_query dev 0) (\<lambda>before.
              and_then (validate_checkpoint saved (jst_identity before) (retained_start before)) (\<lambda>_. Inr before))))
            = Inr before" and tracking: "wp_tracking p = UsnJournal"
    using assms(2,4) unfolding read_changes_def by (auto split: sum.splits if_splits)
  define saved0 where "saved0 = saved\<lparr>wc_lowest_valid_position := retained_start before\<rparr>"
  note run = assms(4) [unfolded read_changes_def assms(2) sum.case tracking before Let_def saved0_def [symmetric]]
  obtain t saved1 m where ep: "emit_pending emit saved0 maximum_events s 0 = (t, Inr (saved1, m))"
    using run by (auto split: prod.splits sum.splits)
  obtain sent where sent: "fed emit s sent t" "wc_pending_events saved = sent @ wc_pending_events saved1"
      "unat m = length sent" "length sent \<le> unat maximum_events"
      "saved1 = saved0\<lparr>wc_pending_events := wc_pending_events saved1\<rparr>"
    using emit_pending_splits [OF ep] by (auto simp: saved0_def)
  have ok: "memory_ok saved1" using assms(3) sent(5) by (metis memory_ok_cursor(1,2) saved0_def)
  show ?thesis
  proof (cases "wc_pending_events saved1 \<noteq> [] \<or> m = maximum_events")
    case True
    then have b: "s' = t" "change_batch js ?v saved1 m
        (wc_pending_events saved1 \<noteq> [] \<or> wc_next_position saved1 < jst_next_position before) = Inr batch"
      using run ep by auto
    have "bounded_read fs dev ?v saved sent saved1"
      using sent(2,5) by (intro bounded_read_pending_only [where lo = "retained_start before"]) (simp_all add: saved0_def)
    moreover have "wc_pending_events saved1 \<noteq> [] \<longrightarrow> cb_has_more batch"
        "unat (cb_emitted_events batch) = length sent"
      using change_batch_Inr [OF b(2) assms(1) ok] sent(3) by auto
    ultimately show ?thesis using change_batch_Inr [OF b(2) assms(1) ok] sent(1,4) ok b(1) by blast
  next
    case False
    then have pg: "read_page js emit fs dev ?v maximum_events before saved1 m t = (s', Inr batch)"
      using run ep by simp
    have lt: "unat m < unat maximum_events" using False sent(3,4) by (auto simp: word_unat_eq_iff)
    obtain sent2 saved' page k mid es where r: "fed emit t sent2 s'" "unat (cb_emitted_events batch) = unat m + length sent2"
        "unat (cb_emitted_events batch) \<le> unat maximum_events" "decode_checkpoint js (cb_checkpoint batch) = Inr saved'"
        "memory_ok saved'" "pc_volume_id (cb_checkpoint batch) = ?v" "wc_pending_events saved' \<noteq> [] \<longrightarrow> cb_has_more batch"
        "session_read dev (wc_next_position saved1) (wc_journal_identity saved1) = Inr page"
        "translate fs ?v 0 saved1 (take k (page_steps page)) = Inr (mid, es)" "es = sent2 @ wc_pending_events saved'"
        "saved' = mid\<lparr>wc_pending_events := wc_pending_events saved',
                       wc_lowest_valid_position := wc_lowest_valid_position saved'\<rparr>"
      using read_page_splits [OF pg assms(1) ok _ lt] False by blast
    have saved1: "saved1 = saved\<lparr>wc_pending_events := [], wc_lowest_valid_position := retained_start before\<rparr>"
      using sent(5) False by (simp add: saved0_def)
    have "session_read dev (wc_next_position saved) (wc_journal_identity saved) = Inr page"
      using r(8) unfolding saved1 by simp
    moreover have "wc_pending_events saved @ es = (sent @ sent2) @ wc_pending_events saved'"
      using sent(2) False r(10) by simp
    ultimately have "bounded_read fs dev ?v saved (sent @ sent2) saved'"
      unfolding bounded_read_def using r(9,11) unfolding saved1 by blast
    moreover have "fed emit s (sent @ sent2) s'" using sent(1) r(1) by (auto simp: fed_append)
    moreover have "unat (cb_emitted_events batch) = length (sent @ sent2)" using r(2) sent(3) by simp
    ultimately show ?thesis using r(3-7) by (metis)
  qed
qed

text \<open>A volume with a two-event backlog and an idle journal.\<close>

definition sample_saved :: WindowsCheckpoint where
  "sample_saved = empty_checkpoint\<lparr>wc_pending_events := [ObjectRemoved (file_key (from_u128 1) 4), ObjectRemoved (file_key (from_u128 1) 5)]\<rparr>"

definition sample_device :: journal_device where
  "sample_device = \<lparr>jd_open = (\<lambda>_. Inr ()), jd_query = (\<lambda>_. Inr (56, \<lparr>jst_identity = 7, jst_first_position = 0,
       jst_next_position = 100, jst_lowest_valid_position = 80\<rparr>)), jd_read = (\<lambda>_ _. Inl None),
     jd_journal_data_size = 56, jd_message = (\<lambda>_. [])\<rparr>"

definition sample_volume :: NativeVolume where
  "sample_volume = \<lparr>nv_descriptor = \<lparr>vd_volume_id = from_u128 1, vd_display_name = None, vd_mount_points = [],
     vd_filesystem = Some ''NTFS'', vd_removable = False, vd_local = True\<rparr>, nv_root = ''C:''\<rparr>"

definition sample_provider :: WindowsFilesystemProvider where
  "sample_provider = new_with_usn_journal\<lparr>wp_volumes := [from_u128 1 \<mapsto> sample_volume]\<rparr>"

definition sample_cp :: ProviderCheckpoint where
  "sample_cp = \<lparr>pc_provider_id = PROVIDER_ID, pc_format_version = 3, pc_volume_id = from_u128 1, pc_opaque = [1]\<rparr>"

text \<open>A JSON library that knows the two checkpoints of this example.\<close>

definition sample_json2 :: checkpoint_json where
  "sample_json2 =
     (let d = sample_saved\<lparr>wc_pending_events := [ObjectRemoved (file_key (from_u128 1) 5)]\<rparr> in
      \<lparr>js_to_vec = (\<lambda>c. if c = sample_saved then Inr [1] else if c = d then Inr [2] else Inl []),
       js_from_slice = (\<lambda>b. if b = [1] then Inr sample_saved else if b = [2] then Inr d else Inl [])\<rparr>)"

definition collect :: "FilesystemEvent list sink" where
  "collect s e = (s @ [e], Inr ())"

lemma sample_json2_round_trips: "json_round_trips sample_json2"
  unfolding json_round_trips_def sample_json2_def Let_def by (auto split: if_splits)

lemma sample_decode: "decode_checkpoint sample_json2 sample_cp = Inr sample_saved"
  by (simp add: decode_checkpoint_def sample_cp_def sample_json2_def Let_def sample_saved_def empty_checkpoint_def)

lemma sample_read:
  "\<exists>batch. read_changes sample_json2 collect (\<lambda>_. undefined) sample_device sample_provider sample_cp 1 [] =
     ([ObjectRemoved (file_key (from_u128 1) 4)], Inr batch) \<and> cb_has_more batch"
proof -
  have "volume_device_path ''C:'' = Inr [char_of (92 :: nat), char_of (92 :: nat), CHR ''.'', char_of (92 :: nat), CHR ''C'', CHR '':'']"
    by (simp add: volume_device_path_def utf16_units_def chars_def encode_utf16_def Let_def is_scalar_def
        is_surrogate_def string_of_def utf8_encode_def char_of_eq_iff)
  moreover have "sample_saved \<noteq> sample_saved\<lparr>wc_pending_events := [ObjectRemoved (file_key (from_u128 1) 5)]\<rparr>"
    by (simp add: sample_saved_def empty_checkpoint_def)
  moreover have "sample_saved\<lparr>wc_lowest_valid_position := 80\<rparr> = sample_saved"
    by (simp add: sample_saved_def empty_checkpoint_def)
  ultimately show ?thesis
    unfolding read_changes_def sample_decode
    by (simp add: sample_provider_def new_with_usn_journal_def native_volume_def sample_cp_def sample_volume_def
        session_open_def sample_device_def session_query_def validate_checkpoint_def retained_start_def Let_def
        emit_pending_def collect_def change_batch_def encode_checkpoint_def sample_json2_def sample_saved_def
        empty_checkpoint_def)
qed

theorem read_changes_splits_stream_witness:
  "\<exists>sent saved' s' batch. fed collect [] sent s' \<and> length sent \<le> 1
     \<and> read_changes sample_json2 collect (\<lambda>_. undefined) sample_device sample_provider sample_cp 1 [] = (s', Inr batch)
     \<and> bounded_read (\<lambda>_. undefined) sample_device (pc_volume_id sample_cp) sample_saved sent saved'"
proof -
  obtain batch where run: "read_changes sample_json2 collect (\<lambda>_. undefined) sample_device sample_provider sample_cp 1 [] =
     ([ObjectRemoved (file_key (from_u128 1) 4)], Inr batch)" using sample_read by blast
  have "memory_ok sample_saved" by (simp add: memory_ok_def sample_saved_def empty_checkpoint_def)
  from read_changes_splits_stream [OF sample_json2_round_trips sample_decode this run] run
  show ?thesis by auto
qed

section \<open>Stable identities across renames\<close>

definition record_identity :: "WindowsCheckpoint \<Rightarrow> VolumeId \<Rightarrow> SanitizedUsnRecord \<Rightarrow> FileLinkId" where
  "record_identity saved v r =
     (if flag REASON_RENAME_NEW_NAME r
      then (case renames saved (usn_file_reference r) of Some j \<Rightarrow> j | None \<Rightarrow> path_identity saved v r)
      else path_identity saved v r)"

definition record_link :: "WindowsCheckpoint \<Rightarrow> VolumeId \<Rightarrow> SanitizedUsnRecord \<Rightarrow> FileLinkSnapshot" where
  "record_link saved v r =
     \<lparr>lnk_file_link_id = record_identity saved v r, lnk_object_key = file_key v (usn_file_reference r),
      lnk_parent_key = Some (file_key v (usn_parent_reference r)), lnk_name = usn_name r\<rparr>"

lemma canonical_events_links:
  assumes "canonical_events fs saved v r = Inr (saved', es)" "memory_ok saved" "e \<in> set es"
  shows "e \<in> {ReconciliationRequired v ProviderRequested, LinkObserved (record_link saved v r),
           LinkRemoved (record_identity saved v r) (file_key v (usn_file_reference r)),
           ObjectRemoved (file_key v (usn_file_reference r))}
    \<or> (\<exists>md. e = ObjectObserved \<lparr>obj_object_key = file_key v (usn_file_reference r), obj_metadata = md\<rparr>)"
proof -
  let ?k = "file_key v (usn_file_reference r)"
  obtain rn saved1 where taken: "take_rename saved (usn_file_reference r) = (rn, saved1)" by fastforce
  have rn: "rn = renames saved (usn_file_reference r)"
    using rename_facts(1) [OF assms(2), of "usn_file_reference r"] taken by simp
  have path: "(case known_link_id saved (usn_parent_reference r) (usn_name r) of
          Some i \<Rightarrow> i | None \<Rightarrow> from_u128 (link_hash (Some (file_key v (usn_parent_reference r))) (usn_name r)))
      = path_identity saved v r"
    by (simp only: path_identity_def link_facts(1) [OF assms(2)])
  have snap: "\<exists>md. ob = \<lparr>obj_object_key = ?k, obj_metadata = md\<rparr>" if "changed_object fs r ?k = Inr (Observed ob)" for ob
    using that by (auto simp: changed_object_def object_snapshot_def split: sum.splits if_splits io_kind.splits)
  show ?thesis
  proof (cases "flag REASON_RENAME_NEW_NAME r")
    case True
    have i: "record_identity saved v r = (case rn of Some i \<Rightarrow> i | None \<Rightarrow> path_identity saved v r)"
      using True by (simp add: record_identity_def rn)
    show ?thesis
      using assms(1,3) unfolding canonical_events_def Let_def taken prod.case path
      by (simp only: True if_True prod.case i [symmetric] record_link_def [symmetric])
         (auto simp: result_simps split: if_splits ObjectLookup.splits dest: snap)
  next
    case False
    have i: "record_identity saved v r = path_identity saved v r" using False by (simp add: record_identity_def)
    show ?thesis
      using assms(1,3) unfolding canonical_events_def Let_def path
      by (simp only: False if_False prod.case i [symmetric] record_link_def [symmetric])
         (auto simp: result_simps split: if_splits ObjectLookup.splits dest: snap)
  qed
qed

lemma flag_or: "flag (a OR b) r \<longleftrightarrow> flag a r \<or> flag b r"
  by (simp add: flag_def bit.conj_disj_distrib or_eq_0_iff)

lemma file_key_inject: "file_key v a = file_key v b \<longleftrightarrow> a = b"
proof
  assume "file_key v a = file_key v b"
  then have "be_bytes 16 (unat (ucast a :: u128)) = be_bytes 16 (unat (ucast b :: u128))"
    by (simp add: file_key_def from_u128_def)
  then have "unat (ucast a :: u128) mod 256 ^ 16 = unat (ucast b :: u128) mod 256 ^ 16"
    by (metis be_nat_be_bytes)
  moreover have "unat (w :: u128) < 256 ^ 16" for w using unsigned_less [of w] by simp
  ultimately have "(ucast a :: u128) = ucast b" by (simp add: word_unat_eq_iff)
  moreover have "unat (ucast w :: u128) = unat w" for w :: u64
  proof -
    have "unat w < 2 ^ 64" using unsigned_less [of w] by simp
    then have "unat w < 2 ^ 128" by simp
    then show ?thesis by (simp add: unsigned_ucast_eq take_bit_nat_eq_self)
  qed
  ultimately show "a = b" by (metis word_unat_eq_iff)
qed simp

lemma translate_append:
  "translate fs v i saved (xs @ ys) =
     and_then (translate fs v i saved xs) (\<lambda>(s1, es1).
     and_then (translate fs v (i + length xs) s1 ys) (\<lambda>(s2, es2). Inr (s2, es1 @ es2)))"
proof (induction xs arbitrary: i saved)
  case Nil
  show ?case by (simp add: and_then_def split: sum.splits)
next
  case (Cons x xs)
  obtain r n where x: "x = (r, n)" by fastforce
  show ?case
    unfolding x append_Cons translate.simps
    by (cases "canonical_events (fs i) saved v r") (auto simp: Cons.IH and_then_def split: sum.splits)
qed

text \<open>Records of other files leave a pending rename alone and never speak of its file.\<close>

lemma translate_others:
  assumes "translate fs v i saved steps = Inr (saved', es)" "memory_ok saved"
    and "\<forall>(r, n) \<in> set steps. usn_file_reference r \<noteq> f"
  shows "memory_ok saved' \<and> renames saved' f = renames saved f
    \<and> (\<forall>l. LinkObserved l \<in> set es \<longrightarrow> lnk_object_key l \<noteq> file_key v f)"
  using assms
proof (induction steps arbitrary: i saved es)
  case (Cons x steps)
  obtain r n where x: "x = (r, n)" by fastforce
  obtain s1 es1 es2 where s1: "canonical_events (fs i) saved v r = Inr (s1, es1)"
      "translate fs v (Suc i) (s1\<lparr>wc_next_position := n\<rparr>) steps = Inr (saved', es2)" "es = es1 @ es2"
    using Cons.prems(1) x by (auto simp: result_simps)
  have f: "usn_file_reference r \<noteq> f" using Cons.prems(3) x by auto
  note k = canonical_events_keeps [OF s1(1) Cons.prems(2)]
  have "fst (memory_after saved v r) f = renames saved f"
    using f by (simp add: memory_after_def Let_def)
  then have ren: "renames s1 f = renames saved f" using k by (metis fst_conv)
  have "lnk_object_key l \<noteq> file_key v f" if "LinkObserved l \<in> set es1" for l
    using canonical_events_links [OF s1(1) Cons.prems(2) that] f by (auto simp: record_link_def file_key_inject)
  moreover have "renames (s1\<lparr>wc_next_position := n\<rparr>) = renames s1" by (simp add: renames_def)
  ultimately show ?case
    using Cons.IH [OF s1(2)] k Cons.prems(3) ren s1(3) x by fastforce
qed simp

text \<open>A rename seen as an old-name record and, after any number of records of other files, a new-name record
  keeps the link's identity: every link event of the renamed file carries the identity its old path had, the
  new path is bound to it for later records, and no rename stays pending.\<close>

theorem rename_keeps_link_identity:
  assumes "memory_ok saved" "translate fs v i saved ((old, n1) # mid @ [(new, n2)]) = Inr (saved', es)"
    and "\<not> usn_had_invalid_utf16 old" "flag REASON_RENAME_OLD_NAME old"
    and "\<not> usn_had_invalid_utf16 new" "flag REASON_RENAME_NEW_NAME new" "\<not> flag REASON_RENAME_OLD_NAME new"
        "\<not> flag REASON_FILE_DELETE new"
    and "usn_file_reference old = f" "usn_file_reference new = f" "\<forall>(r, n) \<in> set mid. usn_file_reference r \<noteq> f"
  shows "known saved' (usn_parent_reference new, usn_name new) = Some (path_identity saved v old)
    \<and> renames saved' f = None
    \<and> (\<forall>l. LinkObserved l \<in> set es \<longrightarrow> lnk_object_key l = file_key v f \<longrightarrow> lnk_file_link_id l = path_identity saved v old)
    \<and> (changed_object (fs (Suc (i + length mid))) new (file_key v f) \<noteq> Inr Unavailable \<longrightarrow>
        LinkObserved \<lparr>lnk_file_link_id = path_identity saved v old, lnk_object_key = file_key v f,
          lnk_parent_key = Some (file_key v (usn_parent_reference new)), lnk_name = usn_name new\<rparr> \<in> set es)"
proof -
  let ?id = "path_identity saved v old" and ?here = "(usn_parent_reference new, usn_name new)"
  obtain s1 es1 where old: "canonical_events (fs i) saved v old = Inr (s1, es1)"
    using assms(2) by (auto simp: result_simps)
  note k1 = canonical_events_keeps [OF old assms(1)]
  have es1: "es1 = []" using old assms(3,4) by (simp add: canonical_events_def Let_def)
  have r1: "renames s1 f = Some ?id" using k1 assms(3,4,9) by (simp add: memory_after_def Let_def)
  obtain s2 es2 s3 es3 where mid: "translate fs v (Suc i) (s1\<lparr>wc_next_position := n1\<rparr>) mid = Inr (s2, es2)"
      and new: "canonical_events (fs (Suc (i + length mid))) s2 v new = Inr (s3, es3)"
      and out: "saved' = s3\<lparr>wc_next_position := n2\<rparr>" "es = es2 @ es3"
    using assms(2) old es1 by (auto simp: result_simps translate_append)
  have m: "memory_ok s2" "renames s2 f = Some ?id" "\<forall>l. LinkObserved l \<in> set es2 \<longrightarrow> lnk_object_key l \<noteq> file_key v f"
    using translate_others [OF mid _ assms(11)] k1 r1 by (simp_all add: renames_def)
  have ident: "record_identity s2 v new = ?id" using m(2) assms(6,10) by (simp add: record_identity_def)
  have after: "(renames s3, known s3) = ((renames s2)(f := None), (known s2)(?here \<mapsto> ?id))"
    using canonical_events_keeps [OF new m(1)] m(2) assms(5-8,10) by (simp add: memory_after_def Let_def)
  have links: "lnk_file_link_id l = ?id" if "LinkObserved l \<in> set es3" for l
    using canonical_events_links [OF new m(1) that] ident by (auto simp: record_link_def)
  have seen: "LinkObserved (record_link s2 v new) \<in> set es3"
    if "changed_object (fs (Suc (i + length mid))) new (file_key v f) \<noteq> Inr Unavailable"
  proof -
    have path: "(case fst (take_rename s2 (usn_file_reference new)) of Some i \<Rightarrow> i | None \<Rightarrow> x) = record_identity s2 v new" for x
      using rename_facts(1) [OF m(1), of f] m(2) assms(10) ident by simp
    show ?thesis
      using new that assms(5-8,10) path unfolding canonical_events_def Let_def case_prod_beta
      by (auto simp: result_simps flag_or record_link_def split: if_splits)
  qed
  show ?thesis
    using after m(3) links seen ident out assms(10)
    by (auto simp: known_def renames_def record_link_def)
qed

definition rename_record :: "u32 \<Rightarrow> u64 \<Rightarrow> u64 \<Rightarrow> string \<Rightarrow> SanitizedUsnRecord" where
  "rename_record reason f p n = \<lparr>usn_file_reference = f, usn_parent_reference = p, usn_position = 0, usn_reason = reason,
     usn_attributes = 0, usn_name = n, usn_had_invalid_utf16 = False\<rparr>"

definition missing_view :: fs_view where
  "missing_view = \<lparr>fv_open_by_id = (\<lambda>_. Inr ()), fv_final_path = (\<lambda>_. Inr (0, [])), fv_message = (\<lambda>_. []),
     fv_join = (\<lambda>_ n. n), fv_symlink_metadata = (\<lambda>_. Inl \<lparr>io_kind = IoNotFound, io_text = []\<rparr>)\<rparr>"

lemma rename_flags:
  "flag REASON_RENAME_OLD_NAME (rename_record 0x1000 f p n)" "flag REASON_RENAME_NEW_NAME (rename_record 0x2000 f p n)"
  "\<not> flag REASON_RENAME_OLD_NAME (rename_record 0x2000 f p n)" "\<not> flag REASON_FILE_DELETE (rename_record 0x2000 f p n)"
  by (simp_all add: flag_def rename_record_def REASON_RENAME_OLD_NAME_def REASON_RENAME_NEW_NAME_def
      REASON_FILE_DELETE_def)

lemma rename_runs:
  "\<exists>saved' es. translate (\<lambda>_. missing_view) v 0 empty_checkpoint
     [(rename_record 0x1000 4 9 ''a'', 1), (rename_record 0x2000 4 8 ''b'', 2)] = Inr (saved', es)"
proof -
  let ?new = "rename_record 0x2000 4 8 ''b''"
  have "changed_object missing_view ?new k = Inr Missing" for k
    by (simp add: changed_object_def resolve_child_def missing_view_def object_snapshot_def Let_def)
  then have "\<exists>s' es. canonical_events missing_view s v ?new = Inr (s', es)" for s
    using rename_flags(2-4) [of 4 8 "''b''"]
    by (simp add: canonical_events_def Let_def case_prod_beta rename_record_def)
  moreover have "\<exists>s'. canonical_events missing_view s v (rename_record 0x1000 4 9 ''a'') = Inr (s', [])" for s
    using rename_flags(1) [of 4 9 "''a''"] by (simp add: canonical_events_def Let_def rename_record_def)
  ultimately show ?thesis by (auto simp: and_then_def split: sum.splits) (metis Inr_Inl_False)+
qed

theorem rename_keeps_link_identity_witness:
  "\<exists>saved' es. translate (\<lambda>_. missing_view) (from_u128 1) 0 empty_checkpoint
     [(rename_record 0x1000 4 9 ''a'', 1), (rename_record 0x2000 4 8 ''b'', 2)] = Inr (saved', es)
   \<and> known saved' (8, ''b'') = Some (path_identity empty_checkpoint (from_u128 1) (rename_record 0x1000 4 9 ''a''))"
proof -
  obtain saved' es where run: "translate (\<lambda>_. missing_view) (from_u128 1) 0 empty_checkpoint
     ((rename_record 0x1000 4 9 ''a'', 1) # [] @ [(rename_record 0x2000 4 8 ''b'', 2)]) = Inr (saved', es)"
    using rename_runs by fastforce
  have "memory_ok empty_checkpoint" by (simp add: memory_ok_def empty_checkpoint_def)
  then show ?thesis
    using rename_keeps_link_identity [OF _ run _ rename_flags(1) _ rename_flags(2-4), of 4] run
    by (simp add: rename_record_def)
qed

section \<open>Lost history\<close>



end
