(* ===== verification/Windows_Scan.thy ===== *)
theory Windows_Scan
  imports Windows_Changes
begin

text \<open>
  Enumeration by the Windows provider (\<open>crates/windows-fs/src/provider.rs\<close>): volume discovery, the recursive
  crawl, the initial scan of a volume, reconciliation and scans of one selected directory. A directory tree
  is a finite value (\<open>os_dir\<close>) that records for every listing and entry what the operating system answers;
  the rest of the machine is the parameter \<open>scan_env\<close>.

  Shown: a successful scan emits exactly the readable tree, objects before the links that need them, with an
  exact count and a checkpoint taken before the first read; a scan into an accepting sink succeeds unless
  an entry fails for another reason than absence or permission.
\<close>

section \<open>Enumerating a tree\<close>

text \<open>A directory as enumeration sees it: its listing fails, or yields items, each of which fails or has a name, the
  outcome of reading its metadata and its identity, and the directory found at its path.\<close>

datatype os_dir = DirError io_error | Dir "os_item list"
and os_item = ItemError io_error | Item string "io_error + os_metadata" "u64 platform_result" os_dir

definition transient :: "io_error \<Rightarrow> bool" where
  "transient e \<longleftrightarrow> io_kind e = IoNotFound \<or> io_kind e = IoPermissionDenied"

definition transient_platform :: "PlatformError \<Rightarrow> bool" where
  "transient_platform e \<longleftrightarrow> pe_kind e = PePermissionDenied \<or> pe_kind e = PeUnavailable"

definition readable_directory :: "os_dir \<Rightarrow> bool \<Rightarrow> os_item list option platform_result" where
  "readable_directory d descendant =
     (case d of
        Dir items \<Rightarrow> Inr (Some items)
      | DirError e \<Rightarrow> if descendant \<and> transient e then Inr None else Inl (io_error_of ''read_directory'' e))"

definition excluding :: "(string \<Rightarrow> string) \<Rightarrow> string list \<Rightarrow> string set" where
  "excluding lower names = lower ` set names"

definition descends_into :: "(string \<Rightarrow> string) \<Rightarrow> string set \<Rightarrow> string \<Rightarrow> bool" where
  "descends_into lower excluded name \<longleftrightarrow> lower name \<notin> excluded"

definition emit_counted :: "'s sink \<Rightarrow> 's \<Rightarrow> u64 \<Rightarrow> FilesystemEvent \<Rightarrow> 's \<times> u64 platform_result" where
  "emit_counted emit s emitted e =
     (case emit s e of
        (s', Inl err) \<Rightarrow> (s', Inl err)
      | (s', Inr _) \<Rightarrow> (s', ok_or (checked_add emitted 1) (internal ''event count overflow'')))"

definition item_object :: "VolumeId \<Rightarrow> u64 \<Rightarrow> os_metadata \<Rightarrow> FilesystemEvent" where
  "item_object v index m = ObjectObserved \<lparr>obj_object_key = file_key v index, obj_metadata = metadata_of m\<rparr>"

definition item_link :: "VolumeId \<Rightarrow> FileKey option \<Rightarrow> u64 \<Rightarrow> string \<Rightarrow> FilesystemEvent" where
  "item_link v parent index name =
     LinkObserved \<lparr>lnk_file_link_id = from_u128 (link_hash parent name), lnk_object_key = file_key v index,
                   lnk_parent_key = parent, lnk_name = name\<rparr>"

definition traverses :: "(string \<Rightarrow> bool) \<Rightarrow> string \<Rightarrow> os_metadata \<Rightarrow> bool" where
  "traverses descends name m \<longleftrightarrow>
     kind_of_metadata m = Directory \<and> om_file_attributes m AND 0x400 = 0 \<and> descends name"

fun crawl :: "'s sink \<Rightarrow> VolumeId \<Rightarrow> (string \<Rightarrow> bool) \<Rightarrow> FileKey option \<Rightarrow> 's \<Rightarrow> u64 \<Rightarrow> os_dir \<Rightarrow> 's \<times> u64 platform_result"
and crawl_items ::
  "'s sink \<Rightarrow> VolumeId \<Rightarrow> (string \<Rightarrow> bool) \<Rightarrow> FileKey option \<Rightarrow> 's \<Rightarrow> u64 \<Rightarrow> os_item list \<Rightarrow> 's \<times> u64 platform_result" where
  "crawl emit v descends parent s emitted d =
     (case d of
        Dir items \<Rightarrow> crawl_items emit v descends parent s emitted items
      | DirError e \<Rightarrow>
          (case readable_directory d (parent \<noteq> None) of Inl err \<Rightarrow> (s, Inl err) | Inr _ \<Rightarrow> (s, Inr emitted)))"
| "crawl_items emit v descends parent s emitted [] = (s, Inr emitted)"
| "crawl_items emit v descends parent s emitted (ItemError e # rest) =
     (if transient e then crawl_items emit v descends parent s emitted rest
      else (s, Inl (io_error_of ''read_directory_entry'' e)))"
| "crawl_items emit v descends parent s emitted (Item name metadata identity sub # rest) =
     (case metadata of
        Inl e \<Rightarrow> if transient e then crawl_items emit v descends parent s emitted rest
                 else (s, Inl (io_error_of ''read_metadata'' e))
      | Inr m \<Rightarrow>
          (case identity of
             Inl e \<Rightarrow> if transient_platform e then crawl_items emit v descends parent s emitted rest else (s, Inl e)
           | Inr index \<Rightarrow>
               (case emit_counted emit s emitted (item_object v index m) of
                  (s1, Inl e) \<Rightarrow> (s1, Inl e)
                | (s1, Inr n1) \<Rightarrow>
                    (case emit_counted emit s1 n1 (item_link v parent index name) of
                       (s2, Inl e) \<Rightarrow> (s2, Inl e)
                     | (s2, Inr n2) \<Rightarrow>
                         if traverses descends name m
                         then (case crawl emit v descends (Some (file_key v index)) s2 n2 sub of
                                 (s3, Inl e) \<Rightarrow> (s3, Inl e)
                               | (s3, Inr n3) \<Rightarrow> crawl_items emit v descends parent s3 n3 rest)
                         else crawl_items emit v descends parent s2 n2 rest))))"

section \<open>What an enumeration should emit\<close>

fun scan_events :: "VolumeId \<Rightarrow> (string \<Rightarrow> bool) \<Rightarrow> FileKey option \<Rightarrow> os_dir \<Rightarrow> FilesystemEvent list"
and item_events :: "VolumeId \<Rightarrow> (string \<Rightarrow> bool) \<Rightarrow> FileKey option \<Rightarrow> os_item \<Rightarrow> FilesystemEvent list" where
  "scan_events v descends parent (DirError _) = []"
| "scan_events v descends parent (Dir items) = concat (map (item_events v descends parent) items)"
| "item_events v descends parent (Item name (Inr m) (Inr index) sub) =
     item_object v index m # item_link v parent index name
       # (if traverses descends name m then scan_events v descends (Some (file_key v index)) sub else [])"
| "item_events v descends parent _ = []"

lemma emit_counted_Inr:
  "emit_counted emit s n e = (s', Inr n') \<longleftrightarrow> emit s e = (s', Inr ()) \<and> unat n' = unat n + 1"
  by (auto simp: emit_counted_def result_simps checked_add_one split: prod.splits sum.splits)

lemma crawl_emits:
  "crawl emit v descends parent s n d = (s', Inr n') \<Longrightarrow>
     fed emit s (scan_events v descends parent d) s' \<and> unat n' = unat n + length (scan_events v descends parent d)"
  "crawl_items emit v descends parent s n items = (s', Inr n') \<Longrightarrow>
     fed emit s (concat (map (item_events v descends parent) items)) s'
     \<and> unat n' = unat n + length (concat (map (item_events v descends parent) items))"
proof (induction emit v descends parent s n d and emit v descends parent s n items
       arbitrary: s' n' and s' n' rule: crawl_crawl_items.induct)
  case (4 emit v descends parent s n name metadata identity sub rest)
  show ?case
  proof (cases metadata)
    case (Inl e)
    then show ?thesis using 4(1) [OF Inl] 4(6) by (cases "transient e") auto
  next
    case m: (Inr m)
    show ?thesis
    proof (cases identity)
      case (Inl e)
      then show ?thesis using 4(2) [OF m Inl] 4(6) m by (cases "transient_platform e") auto
    next
      case (Inr index)
      obtain s1 n1 where o1: "emit_counted emit s n (item_object v index m) = (s1, Inr n1)"
        using 4(6) m Inr by (auto split: prod.splits sum.splits)
      obtain s2 n2 where o2: "emit_counted emit s1 n1 (item_link v parent index name) = (s2, Inr n2)"
        using 4(6) m Inr o1 by (auto split: prod.splits sum.splits)
      note em = o1 [unfolded emit_counted_Inr] o2 [unfolded emit_counted_Inr]
      show ?thesis
      proof (cases "traverses descends name m")
        case True
        obtain s3 n3 where c: "crawl emit v descends (Some (file_key v index)) s2 n2 sub = (s3, Inr n3)"
          using 4(6) m Inr o1 o2 True by (auto simp del: crawl.simps split: prod.splits sum.splits)
        have r: "crawl_items emit v descends parent s3 n3 rest = (s', Inr n')"
          using 4(6) m Inr o1 o2 True c by (simp del: crawl.simps)
        note ih1 = 4(3) [OF m Inr o1 [symmetric] refl o2 [symmetric] refl True c]
        note ih2 = 4(4) [OF m Inr o1 [symmetric] refl o2 [symmetric] refl True c [symmetric] refl r]
        show ?thesis using em ih1 ih2 m Inr True by (auto simp: fed_append)
      next
        case False
        have r: "crawl_items emit v descends parent s2 n2 rest = (s', Inr n')"
          using 4(6) m Inr o1 o2 False by (simp del: crawl.simps)
        note ih = 4(5) [OF m Inr o1 [symmetric] refl o2 [symmetric] refl False r]
        show ?thesis using em ih m Inr False by (auto simp: fed_append)
      qed
    qed
  qed
next
  case (1 emit v descends parent s emitted d)
  then show ?case by (cases d) (auto simp: readable_directory_def split: if_splits)
qed (auto split: if_splits)

text \<open>An enumeration succeeds when no listing or item fails for a reason other than absence or permission.\<close>

fun dir_ok :: "(string \<Rightarrow> bool) \<Rightarrow> bool \<Rightarrow> os_dir \<Rightarrow> bool" and item_ok :: "(string \<Rightarrow> bool) \<Rightarrow> os_item \<Rightarrow> bool" where
  "dir_ok descends descendant (DirError e) \<longleftrightarrow> descendant \<and> transient e"
| "dir_ok descends descendant (Dir items) \<longleftrightarrow> (\<forall>i \<in> set items. item_ok descends i)"
| "item_ok descends (ItemError e) \<longleftrightarrow> transient e"
| "item_ok descends (Item name (Inl e) _ _) \<longleftrightarrow> transient e"
| "item_ok descends (Item name (Inr m) (Inl e) _) \<longleftrightarrow> transient_platform e"
| "item_ok descends (Item name (Inr m) (Inr _) sub) \<longleftrightarrow> (traverses descends name m \<longrightarrow> dir_ok descends True sub)"

definition accepting :: "'s sink \<Rightarrow> bool" where
  "accepting emit \<longleftrightarrow> (\<forall>s e. snd (emit s e) = Inr ())"

lemma emit_counted_accepting:
  assumes "accepting emit" "unat n + 1 < 2 ^ 64"
  shows "\<exists>s' n'. emit_counted emit s n e = (s', Inr n') \<and> unat n' = unat n + 1"
proof -
  obtain t where "emit s e = (t, Inr ())" using assms(1) unfolding accepting_def by (metis prod.collapse)
  moreover have "unat (n + 1) = unat n + 1" using assms(2) by (simp add: unat_word_ariths)
  ultimately show ?thesis by (auto simp: emit_counted_Inr)
qed

lemma crawl_succeeds:
  "accepting emit \<Longrightarrow> dir_ok descends (parent \<noteq> None) d \<Longrightarrow>
     unat n + length (scan_events v descends parent d) < 2 ^ 64 \<Longrightarrow>
     \<exists>s' n'. crawl emit v descends parent s n d = (s', Inr n')"
  "accepting emit \<Longrightarrow> \<forall>i \<in> set items. item_ok descends i \<Longrightarrow>
     unat n + length (concat (map (item_events v descends parent) items)) < 2 ^ 64 \<Longrightarrow>
     \<exists>s' n'. crawl_items emit v descends parent s n items = (s', Inr n')"
proof (induction emit v descends parent s n d and emit v descends parent s n items rule: crawl_crawl_items.induct)
  case (4 emit v descends parent s n name metadata identity sub rest)
  show ?case
  proof (cases metadata)
    case (Inl e)
    then show ?thesis using 4 by simp
  next
    case m: (Inr m)
    show ?thesis
    proof (cases identity)
      case (Inl e)
      then show ?thesis using 4 m by simp
    next
      case (Inr index)
      let ?sub = "if traverses descends name m then scan_events v descends (Some (file_key v index)) sub else []"
      have len: "unat n + 2 + length ?sub + length (concat (map (item_events v descends parent) rest)) < 2 ^ 64"
        using 4(8) m Inr by simp
      obtain s1 n1 where o1: "emit_counted emit s n (item_object v index m) = (s1, Inr n1)" "unat n1 = unat n + 1"
        using emit_counted_accepting [OF 4(6), of n s "item_object v index m"] len by auto
      obtain s2 n2 where o2: "emit_counted emit s1 n1 (item_link v parent index name) = (s2, Inr n2)" "unat n2 = unat n + 2"
        using emit_counted_accepting [OF 4(6), of n1 s1 "item_link v parent index name"] len o1(2) by auto
      show ?thesis
      proof (cases "traverses descends name m")
        case True
        have "dir_ok descends (Some (file_key v index) \<noteq> None) sub" using 4(7) m Inr True by simp
        then obtain s3 n3 where c: "crawl emit v descends (Some (file_key v index)) s2 n2 sub = (s3, Inr n3)"
          using 4(3) [OF m Inr o1(1) [symmetric] refl o2(1) [symmetric] refl True 4(6)] len o2(2) True by auto
        have "unat n3 = unat n2 + length ?sub" using crawl_emits(1) [OF c] True by simp
        then obtain s4 n4 where "crawl_items emit v descends parent s3 n3 rest = (s4, Inr n4)"
          using 4(4) [OF m Inr o1(1) [symmetric] refl o2(1) [symmetric] refl True c [symmetric] refl 4(6)] 4(7) len o2(2)
          by auto
        then show ?thesis using m Inr o1(1) o2(1) True c by (simp del: crawl.simps)
      next
        case False
        then obtain s4 n4 where "crawl_items emit v descends parent s2 n2 rest = (s4, Inr n4)"
          using 4(5) [OF m Inr o1(1) [symmetric] refl o2(1) [symmetric] refl False 4(6)] 4(7) len o2(2) by auto
        then show ?thesis using m Inr o1(1) o2(1) False by simp
      qed
    qed
  qed
next
  case (1 emit v descends parent s emitted d)
  then show ?case by (cases d) (auto simp: readable_directory_def)
qed auto

text \<open>Objects are announced before the links that name them or lie below them.\<close>

fun parents_first :: "FileKey set \<Rightarrow> FilesystemEvent list \<Rightarrow> bool" where
  "parents_first K [] \<longleftrightarrow> True"
| "parents_first K (ObjectObserved ob # es) \<longleftrightarrow> parents_first (insert (obj_object_key ob) K) es"
| "parents_first K (LinkObserved l # es) \<longleftrightarrow>
     lnk_object_key l \<in> K \<and> (case lnk_parent_key l of None \<Rightarrow> True | Some p \<Rightarrow> p \<in> K) \<and> parents_first K es"
| "parents_first K (_ # es) \<longleftrightarrow> parents_first K es"

lemma parents_first_mono: "parents_first K es \<Longrightarrow> K \<subseteq> L \<Longrightarrow> parents_first L es"
  by (induction K es arbitrary: L rule: parents_first.induct) (auto split: option.splits)

lemma parents_first_append: "parents_first K xs \<Longrightarrow> parents_first K ys \<Longrightarrow> parents_first K (xs @ ys)"
proof (induction K xs rule: parents_first.induct)
  case (2 K ob es)
  then show ?case using parents_first_mono [of K ys "insert (obj_object_key ob) K"] by auto
qed auto

lemma parents_first_concat: "(\<forall>xs \<in> set xss. parents_first K xs) \<Longrightarrow> parents_first K (concat xss)"
  by (induction xss) (auto intro: parents_first_append)

lemma scan_events_parents_first:
  "set_option parent \<subseteq> K \<Longrightarrow> parents_first K (scan_events v descends parent d)"
  "set_option parent \<subseteq> K \<Longrightarrow> parents_first K (item_events v descends parent i)"
proof (induction v descends parent d and v descends parent i arbitrary: K and K
       rule: scan_events_item_events.induct)
  case (2 v descends parent items)
  then show ?case by (auto intro!: parents_first_concat)
next
  case (3 v descends parent name m index sub)
  have "parents_first (insert (file_key v index) K) (scan_events v descends (Some (file_key v index)) sub)"
    if "traverses descends name m"
    using 3(1) [OF that, of "insert (file_key v index) K"] by simp
  then show ?case using 3(2) by (auto simp: item_object_def item_link_def split: option.splits)
qed simp_all

section \<open>Initial scans\<close>

text \<open>The machine a scan runs on: volume discovery, path canonicalisation and containment, file identities, the view
  of root metadata, the tree under a path, and Unicode lower-casing.\<close>

record scan_env =
  se_discover :: "NativeVolume list platform_result"
  se_canonicalize :: "string \<Rightarrow> io_error + string"
  se_is_dir :: "string \<Rightarrow> bool"
  se_starts_with :: "string \<Rightarrow> string \<Rightarrow> bool"
  se_file_identity :: "string \<Rightarrow> u64 platform_result"
  se_view :: fs_view
  se_tree :: "string \<Rightarrow> os_dir"
  se_lowercase :: "string \<Rightarrow> string"

definition discover_volumes ::
  "scan_env \<Rightarrow> WindowsFilesystemProvider \<Rightarrow> (WindowsFilesystemProvider \<times> VolumeDescriptor list) platform_result" where
  "discover_volumes env p =
     and_then (se_discover env) (\<lambda>discovered.
       Inr (p\<lparr>wp_volumes := foldl (\<lambda>m vol. m(vd_volume_id (nv_descriptor vol) \<mapsto> vol)) Map.empty discovered\<rparr>,
            map nv_descriptor discovered))"

definition root_link :: "VolumeId \<Rightarrow> FileKey \<Rightarrow> string \<Rightarrow> FilesystemEvent" where
  "root_link v root_key name =
     LinkObserved \<lparr>lnk_file_link_id = root_link_id v, lnk_object_key = root_key, lnk_parent_key = None, lnk_name = name\<rparr>"

text \<open>The part the two scans share: the root's object and link, then the tree below it.\<close>

definition scan_from_root ::
  "'s sink \<Rightarrow> VolumeId \<Rightarrow> (string \<Rightarrow> bool) \<Rightarrow> FileKey \<Rightarrow> string \<Rightarrow> FileObjectSnapshot \<Rightarrow> os_dir \<Rightarrow> 's \<Rightarrow> 's \<times> u64 platform_result" where
  "scan_from_root emit v descends root_key name root_object tree s =
     (case emit s (ObjectObserved root_object) of
        (s1, Inl e) \<Rightarrow> (s1, Inl e)
      | (s1, Inr _) \<Rightarrow>
          (case emit s1 (root_link v root_key name) of
             (s2, Inl e) \<Rightarrow> (s2, Inl e)
           | (s2, Inr _) \<Rightarrow> crawl emit v descends (Some root_key) s2 2 tree))"

definition root_snapshot :: "scan_env \<Rightarrow> string \<Rightarrow> FileKey \<Rightarrow> string \<Rightarrow> string \<Rightarrow> FileObjectSnapshot platform_result" where
  "root_snapshot env root root_key operation detail =
     and_then (object_snapshot (se_view env) root root_key) (\<lambda>lookup.
       case lookup of Observed ob \<Rightarrow> Inr ob | _ \<Rightarrow> Inl (platform_error PeUnavailable operation detail))"

definition scan_checkpoint ::
  "journal_device \<Rightarrow> VolumeId \<Rightarrow> JournalState option \<Rightarrow> WindowsCheckpoint platform_result" where
  "scan_checkpoint dev v journal =
     (case journal of
        Some before \<Rightarrow>
          and_then (session_query dev 1) (\<lambda>after.
          let saved = \<lparr>wc_journal_identity = jst_identity before, wc_next_position = jst_next_position before,
                       wc_lowest_valid_position = retained_start before, wc_snapshot_generation = 1,
                       wc_pending_events = [], wc_pending_renames = [], wc_known_links = []\<rparr> in
          and_then (validate_checkpoint saved (jst_identity after) (retained_start after)) (\<lambda>_. Inr saved))
      | None \<Rightarrow>
          Inr \<lparr>wc_journal_identity = checkpoint_identity v, wc_next_position = 0, wc_lowest_valid_position = 0,
               wc_snapshot_generation = 1, wc_pending_events = [], wc_pending_renames = [], wc_known_links = []\<rparr>)"

definition initial_scan ::
  "checkpoint_json \<Rightarrow> 's sink \<Rightarrow> scan_env \<Rightarrow> journal_device \<Rightarrow> WindowsFilesystemProvider \<Rightarrow> VolumeDescriptor \<Rightarrow> 's
     \<Rightarrow> 's \<times> ScanSummary platform_result" where
  "initial_scan js emit env dev p volume s =
     (let v = vd_volume_id volume in
      if \<not> (case vd_filesystem volume of None \<Rightarrow> False | Some name \<Rightarrow> map ascii_lower name = ''ntfs'')
      then (s, Inl (platform_error PeUnsupported ''initial_scan'' ''START-004 native path supports NTFS only''))
      else
      (case and_then (native_volume p v) (\<lambda>native.
              and_then (if wp_tracking p = UsnJournal
                        then and_then (session_open dev (nv_root native)) (\<lambda>_.
                             and_then (session_query dev 0) (\<lambda>st. Inr (Some st)))
                        else Inr None) (\<lambda>journal.
              and_then (se_file_identity env (nv_root native)) (\<lambda>root_reference.
              and_then (root_snapshot env (nv_root native) (file_key v root_reference) ''initial_scan''
                          ''volume root metadata is unavailable'') (\<lambda>root.
              Inr (native, journal, file_key v root_reference, root))))) of
         Inl e \<Rightarrow> (s, Inl e)
       | Inr (native, journal, root_key, root) \<Rightarrow>
           (case scan_from_root emit v (descends_into (se_lowercase env) {}) root_key (trim_separators (nv_root native))
                   root (se_tree env (nv_root native)) s of
              (s', Inl e) \<Rightarrow> (s', Inl e)
            | (s', Inr emitted) \<Rightarrow>
                (s', and_then (scan_checkpoint dev v journal) (\<lambda>saved.
                     and_then (encode_checkpoint js v saved) (\<lambda>cp.
                       Inr \<lparr>ss_checkpoint = cp, ss_emitted_events = emitted\<rparr>))))))"

definition reconcile ::
  "checkpoint_json \<Rightarrow> 's sink \<Rightarrow> scan_env \<Rightarrow> journal_device \<Rightarrow> WindowsFilesystemProvider \<Rightarrow> VolumeDescriptor \<Rightarrow> 's
     \<Rightarrow> 's \<times> ScanSummary platform_result" where
  "reconcile js emit env dev p volume s = initial_scan js emit env dev p volume s"

section \<open>Scans of one selected directory\<close>

record PreparedScopedScan =
  ps_canonical :: string
  ps_volume :: VolumeDescriptor
  ps_root_key :: FileKey

record ScopedScanSummary =
  sc_volume :: VolumeDescriptor
  sc_scan :: ScanSummary

definition scoped_root_fingerprint :: "scan_env \<Rightarrow> string \<Rightarrow> u128" where
  "scoped_root_fingerprint env root = stable_hash_bytes (as_bytes (se_lowercase env root))"

definition scoped_volume_id :: "scan_env \<Rightarrow> VolumeId \<Rightarrow> string \<Rightarrow> VolumeId" where
  "scoped_volume_id env source root =
     from_u128 (stable_hash_bytes (into_bytes source @ be_bytes 16 (unat (scoped_root_fingerprint env root))))"

definition display_root_path :: "string \<Rightarrow> string" where
  "display_root_path canonical =
     (let bs = char_of (92 :: nat); verbatim = [bs, bs, CHR ''?'', bs] in
      case strip_prefix (verbatim @ ''UNC'' @ [bs]) canonical of
        Some rest \<Rightarrow> [bs, bs] @ rest
      | None \<Rightarrow> (case strip_prefix verbatim canonical of Some rest \<Rightarrow> rest | None \<Rightarrow> canonical))"

text \<open>\<open>Iterator::max_by_key\<close>: the last of the largest elements.\<close>

fun max_by_key :: "('a \<Rightarrow> nat) \<Rightarrow> 'a list \<Rightarrow> 'a option" where
  "max_by_key key [] = None"
| "max_by_key key (x # xs) =
     (case max_by_key key xs of None \<Rightarrow> Some x | Some y \<Rightarrow> Some (if key y < key x then x else y))"

definition containing_mounts :: "scan_env \<Rightarrow> string \<Rightarrow> NativeVolume list \<Rightarrow> (NativeVolume \<times> string) list" where
  "containing_mounts env canonical volumes =
     concat (map (\<lambda>vol. case se_canonicalize env (nv_root vol) of
                     Inl _ \<Rightarrow> []
                   | Inr mount \<Rightarrow> if se_starts_with env canonical mount then [(vol, mount)] else []) volumes)"

definition prepare_scan_root :: "scan_env \<Rightarrow> string \<Rightarrow> PreparedScopedScan platform_result" where
  "prepare_scan_root env root =
     (case se_canonicalize env root of
        Inl e \<Rightarrow> Inl (io_error_of ''canonicalize_root'' e)
      | Inr canonical \<Rightarrow>
          if \<not> se_is_dir env canonical
          then Inl (platform_error PeUnsupported ''scan_root'' ''selected root is not a directory'')
          else
          and_then (se_discover env) (\<lambda>volumes.
          and_then (ok_or (max_by_key (\<lambda>(_, mount). length mount) (containing_mounts env canonical volumes))
                     (platform_error PeUnavailable ''scan_root'' ''selected root is outside a discovered local volume''))
            (\<lambda>(native, _).
               let volume_id = scoped_volume_id env (vd_volume_id (nv_descriptor native)) canonical;
                   display_root = display_root_path canonical in
               and_then (se_file_identity env canonical) (\<lambda>index.
                 Inr \<lparr>ps_canonical = canonical,
                      ps_volume = \<lparr>vd_volume_id = volume_id, vd_display_name = Some display_root,
                                   vd_mount_points = [display_root],
                                   vd_filesystem = vd_filesystem (nv_descriptor native),
                                   vd_removable = vd_removable (nv_descriptor native),
                                   vd_local = vd_local (nv_descriptor native)\<rparr>,
                      ps_root_key = file_key volume_id index\<rparr>))))"

definition scan_prepared_root_with_options ::
  "'s sink \<Rightarrow> scan_env \<Rightarrow> PreparedScopedScan \<Rightarrow> string set \<Rightarrow> 's \<Rightarrow> 's \<times> ScopedScanSummary platform_result" where
  "scan_prepared_root_with_options emit env prepared excluded s =
     (let canonical = ps_canonical prepared; v = vd_volume_id (ps_volume prepared) in
      case root_snapshot env canonical (ps_root_key prepared) ''scan_root'' ''selected root metadata is unavailable'' of
        Inl e \<Rightarrow> (s, Inl e)
      | Inr root_object \<Rightarrow>
          (case scan_from_root emit v (descends_into (se_lowercase env) excluded) (ps_root_key prepared)
                  (display_root_path canonical) root_object (se_tree env canonical) s of
             (s', Inl e) \<Rightarrow> (s', Inl e)
           | (s', Inr emitted) \<Rightarrow>
               (s', Inr \<lparr>sc_volume = ps_volume prepared,
                         sc_scan = \<lparr>ss_checkpoint = \<lparr>pc_provider_id = ''windows-scoped-folder'', pc_format_version = 1,
                                       pc_volume_id = v, pc_opaque = be_bytes 16 (unat (scoped_root_fingerprint env canonical))\<rparr>,
                                    ss_emitted_events = emitted\<rparr>\<rparr>)))"

definition scan_prepared_root ::
  "'s sink \<Rightarrow> scan_env \<Rightarrow> PreparedScopedScan \<Rightarrow> 's \<Rightarrow> 's \<times> ScopedScanSummary platform_result" where
  "scan_prepared_root emit env prepared s = scan_prepared_root_with_options emit env prepared {} s"

definition initial_scan_root ::
  "'s sink \<Rightarrow> scan_env \<Rightarrow> string \<Rightarrow> 's \<Rightarrow> 's \<times> ScopedScanSummary platform_result" where
  "initial_scan_root emit env root s =
     (case prepare_scan_root env root of Inl e \<Rightarrow> (s, Inl e) | Inr prepared \<Rightarrow> scan_prepared_root emit env prepared s)"

section \<open>Properties of scans\<close>

text \<open>The observations of a scan: the root, then everything reachable below it.\<close>

definition scan_stream ::
  "VolumeId \<Rightarrow> (string \<Rightarrow> bool) \<Rightarrow> FileKey \<Rightarrow> string \<Rightarrow> FileObjectSnapshot \<Rightarrow> os_dir \<Rightarrow> FilesystemEvent list" where
  "scan_stream v descends root_key name root_object tree =
     ObjectObserved root_object # root_link v root_key name # scan_events v descends (Some root_key) tree"

lemma scan_from_root_emits:
  assumes "scan_from_root emit v descends root_key name root_object tree s = (s', Inr n)"
  shows "fed emit s (scan_stream v descends root_key name root_object tree) s'
    \<and> unat n = length (scan_stream v descends root_key name root_object tree)"
proof -
  obtain s1 s2 where e: "emit s (ObjectObserved root_object) = (s1, Inr ())" "emit s1 (root_link v root_key name) = (s2, Inr ())"
      and c: "crawl emit v descends (Some root_key) s2 2 tree = (s', Inr n)"
    using assms by (auto simp: scan_from_root_def simp del: crawl.simps split: prod.splits sum.splits)
  show ?thesis using crawl_emits(1) [OF c] e by (auto simp: scan_stream_def)
qed

lemma scan_stream_parents_first:
  "obj_object_key root_object = root_key \<Longrightarrow> parents_first {} (scan_stream v descends root_key name root_object tree)"
  using scan_events_parents_first(1) [of "Some root_key" "{root_key}"]
  by (simp add: scan_stream_def root_link_def)

lemma root_snapshot_key: "root_snapshot env root key op d = Inr ob \<Longrightarrow> obj_object_key ob = key"
  by (auto simp: root_snapshot_def and_then_def object_snapshot_def split: sum.splits io_kind.splits)

text \<open>C32: a completed scan of a volume emitted the root and then one object and one link event for everything that
  could be read below it, each object before any link that names it or lies under it; it counts them exactly;
  and with a journal its checkpoint points at the position the journal had before the first read, with the
  same journal identity and still within retained history afterwards, so no change made during the scan is
  skipped.\<close>

theorem initial_scan_complete:
  assumes "json_round_trips js" "initial_scan js emit env dev p volume s = (s', Inr summary)"
  shows "\<exists>native root_key root saved.
     wp_volumes p (vd_volume_id volume) = Some native
     \<and> (let stream = scan_stream (vd_volume_id volume) (\<lambda>_. True) root_key (trim_separators (nv_root native)) root
                       (se_tree env (nv_root native))
        in fed emit s stream s' \<and> parents_first {} stream \<and> unat (ss_emitted_events summary) = length stream)
     \<and> decode_checkpoint js (ss_checkpoint summary) = Inr saved \<and> memory_ok saved \<and> wc_pending_events saved = []
     \<and> (wp_tracking p = UsnJournal \<longrightarrow>
          (\<exists>before after. session_query dev 0 = Inr before \<and> session_query dev 1 = Inr after
             \<and> wc_journal_identity saved = jst_identity before \<and> jst_identity after = jst_identity before
             \<and> wc_next_position saved = jst_next_position before \<and> retained_start after \<le> wc_next_position saved))"
proof -
  let ?v = "vd_volume_id volume"
  obtain native journal root_reference root where pre: "wp_volumes p ?v = Some native"
      "(if wp_tracking p = UsnJournal
        then and_then (session_open dev (nv_root native)) (\<lambda>_. and_then (session_query dev 0) (\<lambda>st. Inr (Some st)))
        else Inr None) = Inr journal"
      "root_snapshot env (nv_root native) (file_key ?v root_reference) ''initial_scan''
         ''volume root metadata is unavailable'' = Inr root"
    and run: "(case scan_from_root emit ?v (descends_into (se_lowercase env) {}) (file_key ?v root_reference)
          (trim_separators (nv_root native)) root (se_tree env (nv_root native)) s of
              (s', Inl e) \<Rightarrow> (s', Inl e)
            | (s', Inr emitted) \<Rightarrow>
                (s', and_then (scan_checkpoint dev ?v journal) (\<lambda>saved.
                     and_then (encode_checkpoint js ?v saved) (\<lambda>cp.
                       Inr \<lparr>ss_checkpoint = cp, ss_emitted_events = emitted\<rparr>)))) = (s', Inr summary)"
    using assms(2) unfolding initial_scan_def Let_def native_volume_def
    by (auto simp: result_simps simp del: crawl.simps split: if_splits sum.splits)
  have all: "descends_into (se_lowercase env) {} = (\<lambda>_. True)" by (auto simp: descends_into_def)
  obtain t n saved cp where sc: "scan_from_root emit ?v (\<lambda>_. True) (file_key ?v root_reference)
        (trim_separators (nv_root native)) root (se_tree env (nv_root native)) s = (s', Inr n)"
      and cp: "scan_checkpoint dev ?v journal = Inr saved" "encode_checkpoint js ?v saved = Inr cp"
        "summary = \<lparr>ss_checkpoint = cp, ss_emitted_events = n\<rparr>"
    using run unfolding all by (auto simp: result_simps split: prod.splits sum.splits)
  have saved: "memory_ok saved" "wc_pending_events saved = []"
    using cp(1) by (auto simp: scan_checkpoint_def result_simps Let_def memory_ok_def split: option.splits)
  have "\<exists>before after. session_query dev 0 = Inr before \<and> session_query dev 1 = Inr after
             \<and> wc_journal_identity saved = jst_identity before \<and> jst_identity after = jst_identity before
             \<and> wc_next_position saved = jst_next_position before \<and> retained_start after \<le> wc_next_position saved"
    if "wp_tracking p = UsnJournal"
  proof -
    from that obtain before where b: "session_query dev 0 = Inr before" "journal = Some before"
      using pre(2) by (auto simp: result_simps)
    then show ?thesis using cp(1) by (auto simp: scan_checkpoint_def result_simps Let_def validate_checkpoint_def split: if_splits)
  qed
  moreover note scan_from_root_emits [OF sc] scan_stream_parents_first [OF root_snapshot_key [OF pre(3)]]
  moreover note decode_encode_checkpoint [OF assms(1) saved(1) cp(2)]
  ultimately show ?thesis
    using pre(1) saved cp(3) unfolding Let_def
    by (intro exI [of _ native] exI [of _ "file_key ?v root_reference"] exI [of _ root] exI [of _ saved]) simp
qed

text \<open>A machine with one NTFS volume holding a folder with one file and an entry that cannot be opened.\<close>

definition sample_md :: "bool \<Rightarrow> os_metadata" where
  "sample_md dir = \<lparr>om_is_dir = dir, om_is_symlink = False, om_is_file = \<not> dir, om_file_size = 3,
     om_creation_time = 0, om_last_write_time = 116444736000010000, om_file_attributes = 0\<rparr>"

definition sample_tree :: os_dir where
  "sample_tree = Dir [Item ''docs'' (Inr (sample_md True)) (Inr 6)
      (Dir [Item ''a.txt'' (Inr (sample_md False)) (Inr 7) (DirError \<lparr>io_kind = IoOther, io_text = []\<rparr>)]),
    ItemError \<lparr>io_kind = IoPermissionDenied, io_text = []\<rparr>]"

definition sample_env :: scan_env where
  "sample_env = \<lparr>se_discover = Inr [sample_volume], se_canonicalize = (\<lambda>s. Inr s), se_is_dir = (\<lambda>_. True),
     se_starts_with = (\<lambda>a b. take (length b) a = b), se_file_identity = (\<lambda>_. Inr 5),
     se_view = \<lparr>fv_open_by_id = (\<lambda>_. Inr ()), fv_final_path = (\<lambda>_. Inl None), fv_message = (\<lambda>_. []),
                fv_join = (\<lambda>_ n. n), fv_symlink_metadata = (\<lambda>_. Inr (sample_md True))\<rparr>,
     se_tree = (\<lambda>_. sample_tree), se_lowercase = map ascii_lower\<rparr>"

definition any_json :: checkpoint_json where
  "any_json = sample_json \<lparr>wc_journal_identity = checkpoint_identity (from_u128 1), wc_next_position = 0,
     wc_lowest_valid_position = 0, wc_snapshot_generation = 1, wc_pending_events = [], wc_pending_renames = [],
     wc_known_links = []\<rparr>"

lemma any_json_round_trips: "json_round_trips any_json"
  unfolding any_json_def by (rule sample_json_round_trips)

lemma sample_scan:
  "\<exists>s' summary. initial_scan any_json collect sample_env sample_device
     (new_provider\<lparr>wp_volumes := [from_u128 1 \<mapsto> sample_volume]\<rparr>) (nv_descriptor sample_volume) [] = (s', Inr summary)"
proof -
  have "map ascii_lower ''NTFS'' = ''ntfs''" by (simp add: ascii_lower_def char_of_eq_iff Let_def)
  then show ?thesis
    by (simp add: initial_scan_def Let_def new_provider_def sample_volume_def native_volume_def sample_env_def
        root_snapshot_def object_snapshot_def scan_from_root_def collect_def sample_tree_def
        emit_counted_def checked_add_def traverses_def kind_of_metadata_def sample_md_def descends_into_def
        transient_def scan_checkpoint_def encode_checkpoint_def any_json_def
        sample_json_def)
qed

theorem initial_scan_complete_witness:
  "\<exists>s' summary (native :: NativeVolume) root_key root. initial_scan any_json collect sample_env sample_device
     (new_provider\<lparr>wp_volumes := [from_u128 1 \<mapsto> sample_volume]\<rparr>) (nv_descriptor sample_volume) [] = (s', Inr summary)
   \<and> fed collect [] (scan_stream (from_u128 1) (\<lambda>_. True) root_key (trim_separators (nv_root native)) root
        (se_tree sample_env (nv_root native))) s'"
proof -
  obtain s' summary where run: "initial_scan any_json collect sample_env sample_device
     (new_provider\<lparr>wp_volumes := [from_u128 1 \<mapsto> sample_volume]\<rparr>) (nv_descriptor sample_volume) [] = (s', Inr summary)"
    using sample_scan by blast
  have v: "vd_volume_id (nv_descriptor sample_volume) = from_u128 1" by (simp add: sample_volume_def)
  from initial_scan_complete [OF any_json_round_trips run, unfolded Let_def v]
  obtain native :: NativeVolume and root_key root where "fed collect [] (scan_stream (from_u128 1) (\<lambda>_. True) root_key
      (trim_separators (nv_root native)) root (se_tree sample_env (nv_root native))) s'"
    by (elim exE conjE) (rule that, assumption)
  with run show ?thesis by blast
qed

text \<open>Scanning a selected directory whose tree has no failure other than absent or forbidden entries, into a sink
  that accepts events, always completes, and reports exactly the root and everything below it except the
  contents of reparse points and of directories excluded by name, which are themselves still reported.\<close>

theorem scoped_scan_completes:
  assumes "accepting emit" "root_snapshot env (ps_canonical prepared) (ps_root_key prepared) ''scan_root''
      ''selected root metadata is unavailable'' = Inr root"
    and "dir_ok (descends_into (se_lowercase env) excluded) True (se_tree env (ps_canonical prepared))"
    and "2 + length (scan_events (vd_volume_id (ps_volume prepared)) (descends_into (se_lowercase env) excluded)
           (Some (ps_root_key prepared)) (se_tree env (ps_canonical prepared))) < 2 ^ 64"
  shows "\<exists>s' summary. scan_prepared_root_with_options emit env prepared excluded s = (s', Inr summary)
    \<and> (let stream = scan_stream (vd_volume_id (ps_volume prepared)) (descends_into (se_lowercase env) excluded)
             (ps_root_key prepared) (display_root_path (ps_canonical prepared)) root (se_tree env (ps_canonical prepared))
       in fed emit s stream s' \<and> parents_first {} stream \<and> unat (ss_emitted_events (sc_scan summary)) = length stream)"
proof -
  let ?v = "vd_volume_id (ps_volume prepared)" and ?d = "descends_into (se_lowercase env) excluded"
    and ?k = "ps_root_key prepared" and ?t = "se_tree env (ps_canonical prepared)"
  have acc: "\<exists>t. emit s e = (t, Inr ())" for s e using assms(1) unfolding accepting_def by (metis prod.collapse)
  obtain s1 where s1: "emit s (ObjectObserved root) = (s1, Inr ())" using acc by blast
  obtain s2 where s2: "emit s1 (root_link ?v ?k (display_root_path (ps_canonical prepared))) = (s2, Inr ())" using acc by blast
  have "unat (2 :: u64) + length (scan_events ?v ?d (Some ?k) ?t) < 2 ^ 64" using assms(4) by simp
  then obtain s' n where c: "crawl emit ?v ?d (Some ?k) s2 2 ?t = (s', Inr n)"
    using crawl_succeeds(1) [OF assms(1), of ?d "Some ?k" ?t 2 ?v s2] assms(3) by auto
  have sc: "scan_from_root emit ?v ?d ?k (display_root_path (ps_canonical prepared)) root ?t s = (s', Inr n)"
    using s1 s2 c by (simp add: scan_from_root_def del: crawl.simps)
  then show ?thesis
    using scan_from_root_emits [OF sc] scan_stream_parents_first [OF root_snapshot_key [OF assms(2)]] assms(2)
    by (simp add: scan_prepared_root_with_options_def Let_def)
qed

theorem scoped_scan_completes_witness:
  "\<exists>s' summary. scan_prepared_root_with_options collect sample_env
      \<lparr>ps_canonical = ''C:'', ps_volume = nv_descriptor sample_volume, ps_root_key = file_key (from_u128 1) 5\<rparr>
      {''docs''} [] = (s', Inr summary)"
proof -
  let ?p = "\<lparr>ps_canonical = ''C:'', ps_volume = nv_descriptor sample_volume, ps_root_key = file_key (from_u128 1) 5\<rparr>"
  have "\<exists>root. root_snapshot sample_env (ps_canonical ?p) (ps_root_key ?p) ''scan_root''
      ''selected root metadata is unavailable'' = Inr root"
    by (simp add: root_snapshot_def object_snapshot_def sample_env_def)
  then obtain root where root: "root_snapshot sample_env (ps_canonical ?p) (ps_root_key ?p) ''scan_root''
      ''selected root metadata is unavailable'' = Inr root" by blast
  have "accepting collect" by (simp add: accepting_def collect_def)
  moreover have "dir_ok (descends_into (se_lowercase sample_env) {''docs''}) True (se_tree sample_env (ps_canonical ?p))"
    by (simp add: sample_env_def sample_tree_def transient_def descends_into_def traverses_def ascii_lower_def)
  moreover have "2 + length (scan_events (vd_volume_id (ps_volume ?p)) (descends_into (se_lowercase sample_env) {''docs''})
           (Some (ps_root_key ?p)) (se_tree sample_env (ps_canonical ?p))) < 2 ^ 64"
    by (simp add: sample_env_def sample_tree_def)
  ultimately show ?thesis using scoped_scan_completes [OF _ root, of collect "{''docs''}" "[]"] by blast
qed

end
