(* ===== verification/Agent_Api.thy ===== *)
theory Agent_Api
  imports Core_Models
begin

text \<open>
  The contract between the Agent and its local clients (\<open>crates/agent-api/src/contract.rs\<close>, \<open>codec.rs\<close>,
  \<open>lib.rs\<close>): requests and their validation, responses, and length-prefixed frames. JSON is the parameter
  \<open>wire_json\<close>; a \<open>BTreeSet\<close> of identifiers is compared with the list by its number of elements.

  Shown: what request validation accepts; framed messages are read back unchanged and no shorter or
  longer byte string is taken for one.
\<close>

section \<open>Limits and versions\<close>

definition AGENT_API_VERSION :: u32 where "AGENT_API_VERSION = 2"
definition AGENT_CODEC_VERSION :: u32 where "AGENT_CODEC_VERSION = 1"
definition MAX_FRAME_BYTES :: nat where "MAX_FRAME_BYTES = 1048576"
definition MAX_REQUEST_ID_BYTES :: nat where "MAX_REQUEST_ID_BYTES = 64"
definition MAX_QUERY_BYTES :: nat where "MAX_QUERY_BYTES = 1024"
definition MAX_TOP_K :: u16 where "MAX_TOP_K = 100"
definition MAX_LOOKUP_ITEMS :: nat where "MAX_LOOKUP_ITEMS = 100"
definition DEFAULT_DEADLINE_MS :: u32 where "DEFAULT_DEADLINE_MS = 2000"
definition MAX_DEADLINE_MS :: u32 where "MAX_DEADLINE_MS = 10000"

section \<open>Messages\<close>

datatype Capability = SearchCatalog | SearchContent | ReadMetadata | IndexStatusCapability

record Capabilities =
  cp_agent_api_versions :: "u32 list"
  cp_codec_versions :: "u32 list"
  cp_granted :: "Capability set"
  cp_maximum_top_k :: u16
  cp_maximum_frame_bytes :: u32
  cp_ranking_version :: u32

record ContentSearchRequest =
  cq_query :: string
  cq_top_k :: u16

datatype RequestOperation =
    CatalogSearch SearchRequest
  | ContentSearch ContentSearchRequest
  | CatalogGetItem DocumentId
  | CatalogGetItems "DocumentId list"
  | IndexGetStatus
  | AgentGetCapabilities
  | AgentGetHealth

record AgentRequest =
  rq_protocol_version :: u32
  rq_codec_version :: u32
  rq_request_id :: string
  rq_deadline_ms :: u32
  rq_operation :: RequestOperation

record CatalogItem =
  it_document_id :: DocumentId
  it_object_key :: FileKey
  it_file_link_id :: FileLinkId
  it_document_version :: DocumentVersion
  it_name :: string
  it_resolved_path :: string
  it_extension :: "string option"
  it_kind :: FileKind
  it_size :: u64
  it_modified_at_unix_ms :: "i64 option"
  it_availability :: Availability

record ContentSearchHit =
  ch_item :: CatalogItem
  ch_rank :: u32

record ContentSearchResponse =
  cr_content_schema :: string
  cr_took_micros :: u64
  cr_hits :: "ContentSearchHit list"

record IndexStatus =
  is_ready :: bool
  is_index_generation :: "IndexGeneration option"
  is_document_count :: u64
  is_durable_sequence :: u64
  is_applied_sequence :: u64
  is_backlog_mutations :: u64

record ServiceHealth =
  sh_service_ready :: bool
  sh_graph_ready :: bool
  sh_index_ready :: bool

datatype ResponsePayload =
    SearchPayload SearchResponse
  | ContentSearchPayload ContentSearchResponse
  | CatalogItemPayload CatalogItem
  | CatalogItemsPayload "CatalogItem list"
  | IndexStatusPayload IndexStatus
  | CapabilitiesPayload Capabilities
  | HealthPayload ServiceHealth

datatype AgentErrorCode =
    AeInvalidRequest | AeUnsupportedProtocolVersion | AeUnsupportedCodecVersion | AeUnsupportedCapability
  | AeUnauthorized | AeForbidden | AeQueryPolicyRejected | AeDeadlineExceeded | AeCancelled | AeNotFound
  | AeUnavailable | AeIndexNotReady | AeResourceExhausted | AeInternal

record AgentWireError =
  we_code :: AgentErrorCode
  we_message :: string

record AgentResponse =
  rs_protocol_version :: u32
  rs_request_id :: string
  rs_result :: "ResponsePayload option"
  rs_error :: "AgentWireError option"

type_synonym 'a agent_result = "AgentWireError + 'a"

datatype WireContractError =
    FrameTooLarge | IncompleteFrame | InvalidJson string | WireUnsupportedProtocolVersion
  | WireUnsupportedCodecVersion | WireInvalidRequest string | InvalidResponse

definition response_success :: "string \<Rightarrow> ResponsePayload \<Rightarrow> AgentResponse" where
  "response_success request_id payload =
     \<lparr>rs_protocol_version = AGENT_API_VERSION, rs_request_id = request_id, rs_result = Some payload, rs_error = None\<rparr>"

definition response_failure :: "string \<Rightarrow> AgentErrorCode \<Rightarrow> string \<Rightarrow> AgentResponse" where
  "response_failure request_id code message =
     \<lparr>rs_protocol_version = AGENT_API_VERSION, rs_request_id = request_id, rs_result = None,
      rs_error = Some \<lparr>we_code = code, we_message = message\<rparr>\<rparr>"

definition response_validate :: "AgentResponse \<Rightarrow> WireContractError + unit" where
  "response_validate r =
     (case (rs_result r, rs_error r) of
        (Some _, None) \<Rightarrow> Inr ()
      | (None, Some _) \<Rightarrow> Inr ()
      | _ \<Rightarrow> Inl InvalidResponse)"

section \<open>Validation\<close>

definition validate_operation :: "RequestOperation \<Rightarrow> WireContractError + unit" where
  "validate_operation operation =
     (case operation of
        CatalogSearch request \<Rightarrow>
          if sr_query request = [] \<or> MAX_QUERY_BYTES < length (sr_query request)
          then Inl (WireInvalidRequest ''query must be non-empty and bounded'')
          else if sr_top_k request = 0 \<or> MAX_TOP_K < sr_top_k request
          then Inl (WireInvalidRequest ''top_k must be within the v0.1 policy bound'')
          else if 32 < length (sf_extensions (sr_filters request))
          then Inl (WireInvalidRequest ''too many extension filters'')
          else Inr ()
      | ContentSearch request \<Rightarrow>
          if cq_query request = [] \<or> MAX_QUERY_BYTES < length (cq_query request)
          then Inl (WireInvalidRequest ''content query must be non-empty and bounded'')
          else if cq_top_k request = 0 \<or> MAX_TOP_K < cq_top_k request
          then Inl (WireInvalidRequest ''content top_k must be within the policy bound'')
          else Inr ()
      | CatalogGetItems document_ids \<Rightarrow>
          if document_ids = [] \<or> MAX_LOOKUP_ITEMS < length document_ids
          then Inl (WireInvalidRequest ''document lookup collection must be non-empty and bounded'')
          else if card (set document_ids) \<noteq> length document_ids
          then Inl (WireInvalidRequest ''document lookup IDs must be unique'')
          else Inr ()
      | _ \<Rightarrow> Inr ())"

definition request_validate :: "AgentRequest \<Rightarrow> WireContractError + unit" where
  "request_validate request =
     (if rq_protocol_version request \<noteq> AGENT_API_VERSION then Inl WireUnsupportedProtocolVersion
      else if rq_codec_version request \<noteq> AGENT_CODEC_VERSION then Inl WireUnsupportedCodecVersion
      else if rq_request_id request = [] \<or> MAX_REQUEST_ID_BYTES < length (rq_request_id request)
      then Inl (WireInvalidRequest ''request_id must be non-empty and bounded'')
      else if MAX_DEADLINE_MS < rq_deadline_ms request
      then Inl (WireInvalidRequest ''deadline exceeds the v0.1 policy maximum'')
      else validate_operation (rq_operation request))"

definition effective_deadline_ms :: "AgentRequest \<Rightarrow> u32" where
  "effective_deadline_ms request =
     (if rq_deadline_ms request = 0 then DEFAULT_DEADLINE_MS else min (rq_deadline_ms request) MAX_DEADLINE_MS)"

section \<open>Frames\<close>

text \<open>\<open>serde_json::to_vec\<close> and \<open>from_slice\<close> at the message type.\<close>

record 'a wire_json =
  wj_to_vec :: "'a \<Rightarrow> string + bytes"
  wj_from_slice :: "bytes \<Rightarrow> string + 'a"

definition encode_frame :: "'a wire_json \<Rightarrow> 'a \<Rightarrow> WireContractError + bytes" where
  "encode_frame js value =
     (case wj_to_vec js value of
        Inl e \<Rightarrow> Inl (InvalidJson e)
      | Inr payload \<Rightarrow>
          if MAX_FRAME_BYTES < length payload then Inl FrameTooLarge
          else if 2 ^ 32 \<le> length payload then Inl FrameTooLarge
          else Inr (le_bytes 4 (length payload) @ payload))"

definition decode_frame :: "'a wire_json \<Rightarrow> bytes \<Rightarrow> WireContractError + 'a" where
  "decode_frame js frame =
     (if length frame < 4 then Inl IncompleteFrame
      else let len = unat (of_nat (le_nat (take 4 frame)) :: u32) in
           if MAX_FRAME_BYTES < len then Inl FrameTooLarge
           else let payload = drop 4 frame in
                if length payload \<noteq> len then Inl IncompleteFrame
                else (case wj_from_slice js payload of Inl e \<Rightarrow> Inl (InvalidJson e) | Inr v \<Rightarrow> Inr v))"

section \<open>Properties\<close>

definition wire_json_round_trips :: "'a wire_json \<Rightarrow> bool" where
  "wire_json_round_trips js \<longleftrightarrow> (\<forall>v b. wj_to_vec js v = Inr b \<longrightarrow> wj_from_slice js b = Inr v)"

lemma le_nat_prefix: "length p = 4 \<Longrightarrow> unat (of_nat (le_nat p) :: u32) = le_nat p"
  using le_nat_less [of p] by (simp add: unat_of_nat)

lemma decode_frame_payload:
  assumes "length payload \<le> MAX_FRAME_BYTES"
  shows "decode_frame js (le_bytes 4 (length payload) @ rest) =
    (if length rest \<noteq> length payload then Inl IncompleteFrame
     else (case wj_from_slice js rest of Inl e \<Rightarrow> Inl (InvalidJson e) | Inr v \<Rightarrow> Inr v))"
proof -
  have "le_nat (le_bytes 4 (length payload)) = length payload"
    using assms by (simp add: le_nat_le_bytes MAX_FRAME_BYTES_def)
  moreover have "length payload < 4294967296" using assms by (simp add: MAX_FRAME_BYTES_def)
  ultimately show ?thesis
    using assms by (simp add: decode_frame_def unat_of_nat Let_def)
qed

text \<open>C25: a message that is framed is read back unchanged; a frame is at most four bytes longer than the payload
  bound; and the frame with its tail cut short or with bytes added after it is never taken for a message.\<close>

theorem frame_round_trip:
  assumes "wire_json_round_trips js" "encode_frame js v = Inr frame"
  shows "decode_frame js frame = Inr v \<and> length frame \<le> MAX_FRAME_BYTES + 4
    \<and> (\<forall>n < length frame. decode_frame js (take n frame) = Inl IncompleteFrame)
    \<and> (\<forall>extra. extra \<noteq> [] \<longrightarrow> decode_frame js (frame @ extra) = Inl IncompleteFrame)"
proof -
  obtain payload where p: "wj_to_vec js v = Inr payload" "length payload \<le> MAX_FRAME_BYTES"
      "frame = le_bytes 4 (length payload) @ payload"
    using assms(2) by (auto simp: encode_frame_def split: sum.splits if_splits)
  have "decode_frame js (take n frame) = Inl IncompleteFrame" if "n < length frame" for n
  proof (cases "n < 4")
    case True
    then have "length (take n frame) < 4" by simp
    then show ?thesis by (simp only: decode_frame_def if_True)
  next
    case False
    have "take n frame = le_bytes 4 (length payload) @ take (n - 4) payload" using p(3) False by simp
    moreover have "length (take (n - 4) payload) \<noteq> length payload" using that p(3) False by simp
    ultimately show ?thesis
      using decode_frame_payload [OF p(2), of js "take (n - 4) payload"] by (simp only: if_True not_False_eq_True)
  qed
  moreover have "decode_frame js (frame @ extra) = Inl IncompleteFrame" if "extra \<noteq> []" for extra
    using decode_frame_payload [OF p(2), of js "payload @ extra"] that p(3) by simp
  moreover have "decode_frame js frame = Inr v"
    using decode_frame_payload [OF p(2), of js payload] p(1,3) assms(1) by (simp add: wire_json_round_trips_def)
  moreover have "length frame \<le> MAX_FRAME_BYTES + 4" using p(2,3) by simp
  ultimately show ?thesis by blast
qed

theorem frame_round_trip_witness:
  "decode_frame \<lparr>wj_to_vec = (\<lambda>b :: bytes. Inr b), wj_from_slice = (\<lambda>b. Inr b)\<rparr> [2, 0, 0, 0, 123, 125] = Inr [123, 125]"
proof -
  let ?js = "\<lparr>wj_to_vec = (\<lambda>b :: bytes. Inr b), wj_from_slice = (\<lambda>b. Inr b)\<rparr> :: bytes wire_json"
  have "wire_json_round_trips ?js" by (simp add: wire_json_round_trips_def)
  moreover have "encode_frame ?js [123, 125] = Inr [2, 0, 0, 0, 123, 125]"
  proof -
    have "le_bytes (Suc (Suc (Suc (Suc 0)))) 2 = [2, 0, 0, 0]" by simp
    moreover have "(4 :: nat) = Suc (Suc (Suc (Suc 0)))" by simp
    ultimately have "le_bytes 4 (Suc (Suc 0)) = [2, 0, 0, 0]" by (simp only: numeral_2_eq_2 [symmetric])
    then show ?thesis by (simp add: encode_frame_def MAX_FRAME_BYTES_def)
  qed
  ultimately show ?thesis by (rule frame_round_trip [THEN conjunct1])
qed

lemma request_validate_iff:
  "request_validate r = Inr () \<longleftrightarrow>
     rq_protocol_version r = 2 \<and> rq_codec_version r = 1 \<and> 0 < length (rq_request_id r) \<and> length (rq_request_id r) \<le> 64
     \<and> rq_deadline_ms r \<le> 10000
     \<and> (case rq_operation r of
          CatalogSearch s \<Rightarrow> 0 < length (sr_query s) \<and> length (sr_query s) \<le> 1024 \<and> sr_top_k s \<noteq> 0 \<and> sr_top_k s \<le> 100
            \<and> length (sf_extensions (sr_filters s)) \<le> 32
        | ContentSearch s \<Rightarrow> 0 < length (cq_query s) \<and> length (cq_query s) \<le> 1024 \<and> cq_top_k s \<noteq> 0 \<and> cq_top_k s \<le> 100
        | CatalogGetItems ids \<Rightarrow> 0 < length ids \<and> length ids \<le> 100 \<and> distinct ids
        | _ \<Rightarrow> True)"
proof -
  have "validate_operation op = Inr () \<longleftrightarrow> (case op of
          CatalogSearch s \<Rightarrow> 0 < length (sr_query s) \<and> length (sr_query s) \<le> 1024 \<and> sr_top_k s \<noteq> 0 \<and> sr_top_k s \<le> 100
            \<and> length (sf_extensions (sr_filters s)) \<le> 32
        | ContentSearch s \<Rightarrow> 0 < length (cq_query s) \<and> length (cq_query s) \<le> 1024 \<and> cq_top_k s \<noteq> 0 \<and> cq_top_k s \<le> 100
        | CatalogGetItems ids \<Rightarrow> 0 < length ids \<and> length ids \<le> 100 \<and> distinct ids
        | _ \<Rightarrow> True)" for op
    using card_distinct distinct_card
    by (cases op) (auto simp: validate_operation_def MAX_QUERY_BYTES_def MAX_TOP_K_def MAX_LOOKUP_ITEMS_def not_less
        split: if_splits)
  then show ?thesis
    unfolding request_validate_def
    by (simp add: AGENT_API_VERSION_def AGENT_CODEC_VERSION_def MAX_REQUEST_ID_BYTES_def MAX_DEADLINE_MS_def not_less)
       (auto dest: leD)
qed

end
