(* ===== verification/Broker_Api.thy ===== *)
theory Broker_Api
  imports Windows_Scan Agent_Api
begin

text \<open>
  The contract of the elevated filesystem broker (\<open>crates/broker-api/src/lib.rs\<close>): versions and limits, the closed list of
  operations, the validation of requests, responses and their frames. The provider types are those of
  \<open>Windows_Checkpoint\<close>; JSON is the parameter \<open>wire_json\<close>.

  Shown: broker frames are Agent frames with their errors renamed, so that what holds of the one codec holds of the other,
  and what the validation of a request accepts.
\<close>

section \<open>Limits and versions\<close>

definition BROKER_PROTOCOL_VERSION :: u32 where "BROKER_PROTOCOL_VERSION = 1"
definition BROKER_CODEC_VERSION :: u32 where "BROKER_CODEC_VERSION = 1"
definition MAX_BROKER_FRAME_BYTES :: nat where "MAX_BROKER_FRAME_BYTES = 1048576"
definition MAX_BROKER_PAGE_EVENTS :: u16 where "MAX_BROKER_PAGE_EVENTS = 256"
definition MAX_BROKER_REQUEST_ID_BYTES :: nat where "MAX_BROKER_REQUEST_ID_BYTES = 64"
definition DEFAULT_BROKER_DEADLINE_MS :: u32 where "DEFAULT_BROKER_DEADLINE_MS = 5000"
definition MAX_BROKER_DEADLINE_MS :: u32 where "MAX_BROKER_DEADLINE_MS = 30000"

section \<open>Messages\<close>

datatype ScanMode = ScanInitial | ScanReconcile

datatype BrokerOperation =
    BrokerGetCapabilities
  | DiscoverVolumes
  | StartScan VolumeId ScanMode
  | ReadScanPage u64 u16
  | CancelScan u64
  | ReadChanges ProviderCheckpoint u16

record BrokerRequest =
  bq_protocol_version :: u32
  bq_codec_version :: u32
  bq_request_id :: string
  bq_deadline_ms :: u32
  bq_operation :: BrokerOperation

datatype BrokerOperationName =
    OpBrokerGetCapabilities | OpDiscoverVolumes | OpStartScan | OpReadScanPage | OpCancelScan | OpReadChanges

record BrokerCapabilities =
  bc_protocol_versions :: "u32 list"
  bc_codec_versions :: "u32 list"
  bc_allowed_operations :: "BrokerOperationName list"
  bc_maximum_frame_bytes :: u32
  bc_maximum_page_events :: u16
  bc_maximum_active_scans :: u16
  bc_provider :: PlatformCapabilities

record ScanPage =
  pg_events :: "FilesystemEvent list"
  pg_checkpoint :: "ProviderCheckpoint option"
  pg_complete :: bool
  pg_has_more :: bool

datatype BrokerPayload =
    CapabilitiesPayload BrokerCapabilities
  | VolumesPayload "VolumeDescriptor list"
  | ScanStartedPayload u64
  | ScanPagePayload ScanPage
  | ChangesPayload "FilesystemEvent list" ChangeBatch
  | ScanCancelledPayload u64

datatype BrokerErrorCode =
    BeInvalidRequest | BeUnsupportedProtocolVersion | BeUnsupportedCodecVersion | BeReplayRejected | BeNotFound
  | BePermissionDenied | BeUnsupported | BeUnavailable | BeSourceHistoryGap | BeResourceExhausted
  | BeDeadlineExceeded | BeCancelled | BeInternal

record BrokerWireError =
  be_code :: BrokerErrorCode
  be_message :: string

record BrokerResponse =
  br_protocol_version :: u32
  br_request_id :: string
  br_result :: "BrokerPayload option"
  br_error :: "BrokerWireError option"

datatype BrokerContractError =
    BrokerFrameTooLarge
  | BrokerIncompleteFrame
  | BrokerInvalidJson string
  | BrokerUnsupportedProtocolVersion
  | BrokerUnsupportedCodecVersion
  | BrokerInvalidRequest string
  | BrokerInvalidResponse

section \<open>Validation\<close>

fun broker_operation_validate :: "BrokerOperation \<Rightarrow> BrokerContractError + unit" where
  "broker_operation_validate (ReadScanPage _ maximum_events) =
     (if maximum_events = 0 \<or> MAX_BROKER_PAGE_EVENTS < maximum_events
      then Inl (BrokerInvalidRequest ''event page exceeds policy'') else Inr ())"
| "broker_operation_validate (ReadChanges checkpoint maximum_events) =
     (if maximum_events = 0 \<or> MAX_BROKER_PAGE_EVENTS < maximum_events
      then Inl (BrokerInvalidRequest ''event page exceeds policy'')
      else if 65536 < length (pc_opaque checkpoint) \<or> 64 < length (pc_provider_id checkpoint) \<or> pc_provider_id checkpoint = []
      then Inl (BrokerInvalidRequest ''provider checkpoint exceeds policy'') else Inr ())"
| "broker_operation_validate _ = Inr ()"

definition broker_request_validate :: "BrokerRequest \<Rightarrow> BrokerContractError + unit" where
  "broker_request_validate request =
     (if bq_protocol_version request \<noteq> BROKER_PROTOCOL_VERSION then Inl BrokerUnsupportedProtocolVersion
      else if bq_codec_version request \<noteq> BROKER_CODEC_VERSION then Inl BrokerUnsupportedCodecVersion
      else if bq_request_id request = [] \<or> MAX_BROKER_REQUEST_ID_BYTES < length (bq_request_id request)
      then Inl (BrokerInvalidRequest ''request_id is not bounded'')
      else if MAX_BROKER_DEADLINE_MS < bq_deadline_ms request then Inl (BrokerInvalidRequest ''deadline exceeds policy'')
      else broker_operation_validate (bq_operation request))"

definition broker_effective_deadline_ms :: "BrokerRequest \<Rightarrow> u32" where
  "broker_effective_deadline_ms request =
     (if bq_deadline_ms request = 0 then DEFAULT_BROKER_DEADLINE_MS
      else min (bq_deadline_ms request) MAX_BROKER_DEADLINE_MS)"

definition broker_success :: "string \<Rightarrow> BrokerPayload \<Rightarrow> BrokerResponse" where
  "broker_success request_id payload =
     \<lparr>br_protocol_version = BROKER_PROTOCOL_VERSION, br_request_id = request_id, br_result = Some payload, br_error = None\<rparr>"

definition broker_failure :: "string \<Rightarrow> BrokerErrorCode \<Rightarrow> string \<Rightarrow> BrokerResponse" where
  "broker_failure request_id code message =
     \<lparr>br_protocol_version = BROKER_PROTOCOL_VERSION, br_request_id = request_id, br_result = None,
      br_error = Some \<lparr>be_code = code, be_message = message\<rparr>\<rparr>"

definition broker_response_validate :: "BrokerResponse \<Rightarrow> BrokerContractError + unit" where
  "broker_response_validate response =
     (case (br_result response, br_error response) of
        (Some _, None) \<Rightarrow> Inr ()
      | (None, Some _) \<Rightarrow> Inr ()
      | _ \<Rightarrow> Inl BrokerInvalidResponse)"

section \<open>Frames\<close>

definition broker_encode_frame :: "'a wire_json \<Rightarrow> 'a \<Rightarrow> BrokerContractError + bytes" where
  "broker_encode_frame js value =
     (case wj_to_vec js value of
        Inl e \<Rightarrow> Inl (BrokerInvalidJson e)
      | Inr payload \<Rightarrow>
          if MAX_BROKER_FRAME_BYTES < length payload then Inl BrokerFrameTooLarge
          else if 2 ^ 32 \<le> length payload then Inl BrokerFrameTooLarge
          else Inr (le_bytes 4 (length payload) @ payload))"

definition broker_decode_frame :: "'a wire_json \<Rightarrow> bytes \<Rightarrow> BrokerContractError + 'a" where
  "broker_decode_frame js frame =
     (if length frame < 4 then Inl BrokerIncompleteFrame
      else let len = unat (of_nat (le_nat (take 4 frame)) :: u32) in
           if MAX_BROKER_FRAME_BYTES < len then Inl BrokerFrameTooLarge
           else let payload = drop 4 frame in
                if length payload \<noteq> len then Inl BrokerIncompleteFrame
                else (case wj_from_slice js payload of Inl e \<Rightarrow> Inl (BrokerInvalidJson e) | Inr v \<Rightarrow> Inr v))"

text \<open>The two codecs of the program differ in the names of their errors only.\<close>

fun broker_error_of :: "WireContractError \<Rightarrow> BrokerContractError" where
  "broker_error_of FrameTooLarge = BrokerFrameTooLarge"
| "broker_error_of IncompleteFrame = BrokerIncompleteFrame"
| "broker_error_of (InvalidJson e) = BrokerInvalidJson e"
| "broker_error_of _ = BrokerInvalidResponse"

lemma broker_frames:
  "broker_encode_frame js v = map_sum broker_error_of id (encode_frame js v)"
  "broker_decode_frame js frame = map_sum broker_error_of id (decode_frame js frame)"
  by (simp_all add: broker_encode_frame_def encode_frame_def broker_decode_frame_def decode_frame_def Let_def
      MAX_BROKER_FRAME_BYTES_def MAX_FRAME_BYTES_def split: sum.split)

lemma broker_frame_round_trip:
  assumes "wire_json_round_trips js" "broker_encode_frame js v = Inr frame"
  shows "broker_decode_frame js frame = Inr v"
proof -
  obtain payload where p: "wj_to_vec js v = Inr payload" "length payload \<le> MAX_FRAME_BYTES" "frame = le_bytes 4 (length payload) @ payload"
    using assms(2) by (auto simp: broker_encode_frame_def MAX_BROKER_FRAME_BYTES_def MAX_FRAME_BYTES_def split: sum.splits if_splits)
  then show ?thesis
    unfolding broker_frames using decode_frame_payload [OF p(2), of js payload] assms(1) by (simp add: wire_json_round_trips_def)
qed

lemma broker_request_validate_ok:
  "broker_request_validate request = Inr u \<longleftrightarrow>
     bq_protocol_version request = BROKER_PROTOCOL_VERSION \<and> bq_codec_version request = BROKER_CODEC_VERSION
     \<and> length (bq_request_id request) \<in> {1..MAX_BROKER_REQUEST_ID_BYTES} \<and> bq_deadline_ms request \<le> MAX_BROKER_DEADLINE_MS
     \<and> broker_operation_validate (bq_operation request) = Inr ()"
  by (auto simp: broker_request_validate_def Suc_le_eq not_le simp flip: not_less)

lemma broker_responses_valid [simp]:
  "broker_response_validate (broker_success r p) = Inr ()" "broker_response_validate (broker_failure r c m) = Inr ()"
  by (simp_all add: broker_response_validate_def broker_success_def broker_failure_def)

end
