(* ===== verification/Broker_Service.thy ===== *)
theory Broker_Service
  imports Broker_Api "HOL-Library.AList" "HOL-Library.Sublist"
begin

text \<open>
  The elevated filesystem broker (\<open>crates/fs-service/src/lib.rs\<close>): a dispatcher over any provider, with a bounded replay window and
  at most four scans, each fed by a thread through a bounded channel. The thread is the list of messages it has still to send; its
  turns interleave with the polls of a reader as a parameter says. Locks that a panic poisoned and the release of the
  service at the end of the process are not modelled.

  Shown: the window refuses exactly the recent identifiers; whatever the interleaving, a scan is delivered whole, in order
  and within a bounded number of reads; every response satisfies the contract and a replayed request changes nothing.
\<close>

section \<open>The replay window\<close>

record ReplayWindow =
  rw_capacity :: nat
  rw_order :: "string list"
  rw_present :: "string set"

definition new_replay_window :: "nat \<Rightarrow> ReplayWindow" where
  "new_replay_window capacity = \<lparr>rw_capacity = capacity, rw_order = [], rw_present = {}\<rparr>"

definition admit :: "ReplayWindow \<Rightarrow> string \<Rightarrow> ReplayWindow \<times> (unit + unit)" where
  "admit window request_id =
     (if request_id \<in> rw_present window then (window, Inl ())
      else
        let order = rw_order window @ [request_id]; present = insert request_id (rw_present window)
        in if rw_capacity window < length order
           then (window\<lparr>rw_order := tl order, rw_present := present - {hd order}\<rparr>, Inr ())
           else (window\<lparr>rw_order := order, rw_present := present\<rparr>, Inr ()))"

section \<open>A scan and its producer\<close>

text \<open>A scan runs on a thread of its own, which sends each event and at last its result through a bounded channel.
  \<open>sc_unsent\<close> is what the thread has still to send. A provider stops at the first event its sink refuses, so after a
  cancellation nothing more is sent.\<close>

datatype ScanMessage = EventMessage FilesystemEvent | TerminalMessage "ScanSummary platform_result"

record ScanState =
  sc_queue :: "ScanMessage list"
  sc_unsent :: "ScanMessage list"
  sc_cancellation :: bool
  sc_pending_terminal :: "ScanSummary platform_result option"

definition SCAN_QUEUE_EVENTS :: nat where "SCAN_QUEUE_EVENTS = 256"
definition MAX_ACTIVE_SCANS :: nat where "MAX_ACTIVE_SCANS = 4"
definition REPLAY_WINDOW_REQUESTS :: nat where "REPLAY_WINDOW_REQUESTS = 4096"

text \<open>One turn of the sending loop: the message at hand is refused, sent, or kept because the channel is full.\<close>

definition send_with_backpressure :: "ScanState \<Rightarrow> ScanState" where
  "send_with_backpressure st =
     (case sc_unsent st of
        [] \<Rightarrow> st
      | message # rest \<Rightarrow>
          if sc_cancellation st then st\<lparr>sc_unsent := []\<rparr>
          else if length (sc_queue st) < SCAN_QUEUE_EVENTS then st\<lparr>sc_queue := sc_queue st @ [message], sc_unsent := rest\<rparr>
          else st)"

definition spawn_scan :: "FilesystemEvent list \<Rightarrow> ScanSummary platform_result \<Rightarrow> ScanState" where
  "spawn_scan events result =
     \<lparr>sc_queue = [], sc_unsent = map EventMessage events @ [TerminalMessage result], sc_cancellation = False,
      sc_pending_terminal = None\<rparr>"

datatype received = Received ScanMessage | ChannelEmpty | Disconnected

definition try_recv :: "ScanState \<Rightarrow> ScanState \<times> received" where
  "try_recv st =
     (case sc_queue st of
        message # rest \<Rightarrow> (st\<lparr>sc_queue := rest\<rparr>, Received message)
      | [] \<Rightarrow> (st, if sc_unsent st = [] then Disconnected else ChannelEmpty))"

definition stopped_without_terminal :: PlatformError where
  "stopped_without_terminal = platform_error PeInternal ''scan_worker'' ''scan producer stopped without terminal state''"

text \<open>The receiving loop. Before its \<open>k\<close>-th poll, counted from the end, the producer takes \<open>turns k\<close> turns.\<close>

fun receive :: "(nat \<Rightarrow> nat) \<Rightarrow> nat \<Rightarrow> ScanState \<Rightarrow> ScanState \<times> FilesystemEvent list \<times> ScanSummary platform_result option" where
  "receive turns 0 st = (st, [], None)"
| "receive turns (Suc k) st =
     (case try_recv ((send_with_backpressure ^^ turns k) st) of
        (st', Received (EventMessage event)) \<Rightarrow>
          (case receive turns k st' of (st'', events, terminal) \<Rightarrow> (st'', event # events, terminal))
      | (st', Received (TerminalMessage result)) \<Rightarrow> (st', [], Some result)
      | (st', ChannelEmpty) \<Rightarrow> (st', [], None)
      | (st', Disconnected) \<Rightarrow> (st', [], Some (Inl stopped_without_terminal)))"

section \<open>Errors\<close>

record ServiceError =
  sv_code :: BrokerErrorCode
  sv_message :: string

type_synonym 'a service_result = "ServiceError + 'a"

definition service_error :: "BrokerErrorCode \<Rightarrow> string \<Rightarrow> ServiceError" where
  "service_error code message = \<lparr>sv_code = code, sv_message = message\<rparr>"

fun broker_code_of_kind :: "PlatformErrorKind \<Rightarrow> BrokerErrorCode" where
  "broker_code_of_kind PePermissionDenied = BePermissionDenied"
| "broker_code_of_kind PeUnsupported = BeUnsupported"
| "broker_code_of_kind PeInvalidCheckpoint = BeUnsupported"
| "broker_code_of_kind PeUnavailable = BeUnavailable"
| "broker_code_of_kind PeIo = BeUnavailable"
| "broker_code_of_kind PeSourceHistoryGap = BeSourceHistoryGap"
| "broker_code_of_kind PeResourceExhausted = BeResourceExhausted"
| "broker_code_of_kind PeCancelled = BeCancelled"
| "broker_code_of_kind PeInternal = BeInternal"

definition service_platform_error :: "PlatformError \<Rightarrow> ServiceError" where
  "service_platform_error e = service_error (broker_code_of_kind (pe_kind e)) ''filesystem metadata operation failed''"

definition contract_failure :: "string \<Rightarrow> BrokerContractError \<Rightarrow> BrokerResponse" where
  "contract_failure request_id e =
     broker_failure request_id
       (case e of
          BrokerUnsupportedProtocolVersion \<Rightarrow> BeUnsupportedProtocolVersion
        | BrokerUnsupportedCodecVersion \<Rightarrow> BeUnsupportedCodecVersion
        | _ \<Rightarrow> BeInvalidRequest)
       ''broker request contract rejected''"

text \<open>Time and cancellation of one request: what the \<open>n\<close>-th question is answered.\<close>

definition broker_check_request :: "(nat \<Rightarrow> bool) \<Rightarrow> (nat \<Rightarrow> nat) \<Rightarrow> nat \<Rightarrow> nat \<Rightarrow> unit service_result" where
  "broker_check_request cancelled elapsed deadline n =
     (if cancelled n then Inl (service_error BeCancelled ''broker request cancelled'')
      else if deadline \<le> elapsed n then Inl (service_error BeDeadlineExceeded ''broker request deadline exceeded'')
      else Inr ())"

section \<open>The service\<close>

text \<open>The trait \<open>FilesystemProvider\<close>. A scan and a change read are given by the events they emit to a sink that accepts
  every event, in order, and their result.\<close>

record 'p broker_provider =
  pv_capabilities :: "'p \<Rightarrow> PlatformCapabilities"
  pv_discover_volumes :: "'p \<Rightarrow> 'p \<times> VolumeDescriptor list platform_result"
  pv_initial_scan :: "'p \<Rightarrow> VolumeDescriptor \<Rightarrow> FilesystemEvent list \<times> ScanSummary platform_result"
  pv_reconcile :: "'p \<Rightarrow> VolumeDescriptor \<Rightarrow> FilesystemEvent list \<times> ScanSummary platform_result"
  pv_read_changes :: "'p \<Rightarrow> ProviderCheckpoint \<Rightarrow> u32 \<Rightarrow> 'p \<times> FilesystemEvent list \<times> ChangeBatch platform_result"

record 'p BrokerService =
  bk_provider :: 'p
  bk_replay :: ReplayWindow
  bk_scans :: "(u64 \<times> ScanState) list"
  bk_next_scan_id :: u64

definition new_broker_service :: "'p \<Rightarrow> 'p BrokerService" where
  "new_broker_service p =
     \<lparr>bk_provider = p, bk_replay = new_replay_window REPLAY_WINDOW_REQUESTS, bk_scans = [], bk_next_scan_id = 1\<rparr>"

definition broker_capabilities :: "'p broker_provider \<Rightarrow> 'p BrokerService \<Rightarrow> BrokerCapabilities" where
  "broker_capabilities pv svc =
     \<lparr>bc_protocol_versions = [BROKER_PROTOCOL_VERSION], bc_codec_versions = [BROKER_CODEC_VERSION],
      bc_allowed_operations = [OpBrokerGetCapabilities, OpDiscoverVolumes, OpStartScan, OpReadScanPage, OpCancelScan, OpReadChanges],
      bc_maximum_frame_bytes = of_nat MAX_BROKER_FRAME_BYTES, bc_maximum_page_events = MAX_BROKER_PAGE_EVENTS,
      bc_maximum_active_scans = of_nat MAX_ACTIVE_SCANS, bc_provider = pv_capabilities pv (bk_provider svc)\<rparr>"

definition scan_of_mode :: "'p broker_provider \<Rightarrow> ScanMode \<Rightarrow> 'p \<Rightarrow> VolumeDescriptor \<Rightarrow> FilesystemEvent list \<times> ScanSummary platform_result" where
  "scan_of_mode pv mode = (case mode of ScanInitial \<Rightarrow> pv_initial_scan pv | ScanReconcile \<Rightarrow> pv_reconcile pv)"

definition broker_start_scan ::
  "'p broker_provider \<Rightarrow> (nat \<Rightarrow> bool) \<Rightarrow> (nat \<Rightarrow> nat) \<Rightarrow> nat \<Rightarrow> VolumeId \<Rightarrow> ScanMode \<Rightarrow> 'p BrokerService
     \<Rightarrow> 'p BrokerService \<times> BrokerPayload service_result" where
  "broker_start_scan pv cancelled elapsed deadline volume_id mode svc =
     (case pv_discover_volumes pv (bk_provider svc) of
        (p, Inl e) \<Rightarrow> (svc\<lparr>bk_provider := p\<rparr>, Inl (service_platform_error e))
      | (p, Inr volumes) \<Rightarrow>
          let svc1 = svc\<lparr>bk_provider := p\<rparr> in
          (case find (\<lambda>volume. vd_volume_id volume = volume_id) volumes of
             None \<Rightarrow> (svc1, Inl (service_error BeNotFound ''volume is unavailable''))
           | Some volume \<Rightarrow>
               (case broker_check_request cancelled elapsed deadline 2 of
                  Inl e \<Rightarrow> (svc1, Inl e)
                | Inr _ \<Rightarrow>
                    if MAX_ACTIVE_SCANS \<le> length (bk_scans svc1)
                    then (svc1, Inl (service_error BeResourceExhausted ''active scan limit reached''))
                    else
                      let scan_id = bk_next_scan_id svc1; (events, result) = scan_of_mode pv mode p volume
                      in (svc1\<lparr>bk_next_scan_id := scan_id + 1,
                               bk_scans := AList.update scan_id (spawn_scan events result) (bk_scans svc1)\<rparr>,
                          Inr (ScanStartedPayload scan_id)))))"

text \<open>One page of a scan, and the scan afterwards, if it is still active.\<close>

definition scan_page :: "(nat \<Rightarrow> nat) \<Rightarrow> u16 \<Rightarrow> ScanState \<Rightarrow> ScanState option \<times> ScanPage service_result" where
  "scan_page turns maximum_events st =
     (case (case sc_pending_terminal st of
              Some terminal \<Rightarrow> (st\<lparr>sc_pending_terminal := None\<rparr>, [], Some terminal)
            | None \<Rightarrow> receive turns (unat maximum_events) st) of
        (st', events, terminal) \<Rightarrow>
          (case terminal of
             None \<Rightarrow> (Some st', Inr \<lparr>pg_events = events, pg_checkpoint = None, pg_complete = False, pg_has_more = True\<rparr>)
           | Some result \<Rightarrow>
               if events \<noteq> []
               then (Some (st'\<lparr>sc_pending_terminal := terminal\<rparr>),
                     Inr \<lparr>pg_events = events, pg_checkpoint = None, pg_complete = False, pg_has_more = True\<rparr>)
               else (None,
                     case result of
                       Inr summary \<Rightarrow> Inr \<lparr>pg_events = [], pg_checkpoint = Some (ss_checkpoint summary), pg_complete = True, pg_has_more = False\<rparr>
                     | Inl e \<Rightarrow> Inl (service_platform_error e))))"

definition broker_read_scan_page ::
  "(nat \<Rightarrow> nat) \<Rightarrow> u64 \<Rightarrow> u16 \<Rightarrow> 'p BrokerService \<Rightarrow> 'p BrokerService \<times> BrokerPayload service_result" where
  "broker_read_scan_page turns scan_id maximum_events svc =
     (case map_of (bk_scans svc) scan_id of
        None \<Rightarrow> (svc, Inl (service_error BeNotFound ''scan is not active''))
      | Some st \<Rightarrow>
          (case scan_page turns maximum_events st of
             (st', page) \<Rightarrow>
               (svc\<lparr>bk_scans := (case st' of None \<Rightarrow> AList.delete scan_id (bk_scans svc)
                                           | Some s \<Rightarrow> AList.update scan_id s (bk_scans svc))\<rparr>,
                and_then page (\<lambda>p. Inr (ScanPagePayload p)))))"

definition broker_cancel_scan :: "u64 \<Rightarrow> 'p BrokerService \<Rightarrow> 'p BrokerService \<times> BrokerPayload service_result" where
  "broker_cancel_scan scan_id svc =
     (case map_of (bk_scans svc) scan_id of
        None \<Rightarrow> (svc, Inl (service_error BeNotFound ''scan is not active''))
      | Some _ \<Rightarrow> (svc\<lparr>bk_scans := AList.delete scan_id (bk_scans svc)\<rparr>, Inr (ScanCancelledPayload scan_id)))"

definition broker_read_changes ::
  "'p broker_provider \<Rightarrow> ProviderCheckpoint \<Rightarrow> u16 \<Rightarrow> 'p BrokerService \<Rightarrow> 'p BrokerService \<times> BrokerPayload service_result" where
  "broker_read_changes pv checkpoint maximum_events svc =
     (case pv_read_changes pv (bk_provider svc) checkpoint (ucast maximum_events) of
        (p, events, Inl e) \<Rightarrow> (svc\<lparr>bk_provider := p\<rparr>, Inl (service_platform_error e))
      | (p, events, Inr batch) \<Rightarrow> (svc\<lparr>bk_provider := p\<rparr>, Inr (ChangesPayload events batch)))"

definition dispatch_operation ::
  "'p broker_provider \<Rightarrow> (nat \<Rightarrow> bool) \<Rightarrow> (nat \<Rightarrow> nat) \<Rightarrow> (nat \<Rightarrow> nat) \<Rightarrow> nat \<Rightarrow> BrokerOperation \<Rightarrow> 'p BrokerService
     \<Rightarrow> 'p BrokerService \<times> BrokerPayload service_result" where
  "dispatch_operation pv cancelled elapsed turns deadline operation svc =
     (case broker_check_request cancelled elapsed deadline 1 of
        Inl e \<Rightarrow> (svc, Inl e)
      | Inr _ \<Rightarrow>
          (case operation of
             BrokerGetCapabilities \<Rightarrow> (svc, Inr (CapabilitiesPayload (broker_capabilities pv svc)))
           | DiscoverVolumes \<Rightarrow>
               (case pv_discover_volumes pv (bk_provider svc) of
                  (p, Inl e) \<Rightarrow> (svc\<lparr>bk_provider := p\<rparr>, Inl (service_platform_error e))
                | (p, Inr volumes) \<Rightarrow> (svc\<lparr>bk_provider := p\<rparr>, Inr (VolumesPayload volumes)))
           | StartScan volume_id mode \<Rightarrow> broker_start_scan pv cancelled elapsed deadline volume_id mode svc
           | ReadScanPage scan_id maximum_events \<Rightarrow> broker_read_scan_page turns scan_id maximum_events svc
           | CancelScan scan_id \<Rightarrow> broker_cancel_scan scan_id svc
           | ReadChanges checkpoint maximum_events \<Rightarrow> broker_read_changes pv checkpoint maximum_events svc))"

definition broker_dispatch ::
  "'p broker_provider \<Rightarrow> (nat \<Rightarrow> bool) \<Rightarrow> (nat \<Rightarrow> nat) \<Rightarrow> (nat \<Rightarrow> nat) \<Rightarrow> BrokerRequest \<Rightarrow> 'p BrokerService
     \<Rightarrow> 'p BrokerService \<times> BrokerResponse" where
  "broker_dispatch pv cancelled elapsed turns request svc =
     (let request_id = (if length (bq_request_id request) \<le> 64 then bq_request_id request else []) in
      case broker_request_validate request of
        Inl e \<Rightarrow> (svc, contract_failure request_id e)
      | Inr _ \<Rightarrow>
          (case admit (bk_replay svc) (bq_request_id request) of
             (window, Inl _) \<Rightarrow>
               (svc\<lparr>bk_replay := window\<rparr>, broker_failure request_id BeReplayRejected
                  ''request identifier was replayed or replay state is unavailable'')
           | (window, Inr _) \<Rightarrow>
               let svc1 = svc\<lparr>bk_replay := window\<rparr> in
               if cancelled 0 then (svc1, broker_failure request_id BeCancelled ''broker request cancelled'')
               else (case dispatch_operation pv cancelled elapsed turns
                            (unat (broker_effective_deadline_ms request) * 1000000) (bq_operation request) svc1 of
                       (svc2, Inr payload) \<Rightarrow> (svc2, broker_success request_id payload)
                     | (svc2, Inl e) \<Rightarrow> (svc2, broker_failure request_id (sv_code e) (sv_message e)))))"
section \<open>The replay window refuses what it remembers\<close>

text \<open>The specification keeps every admitted identifier, oldest first, and looks at the last \<open>capacity\<close> of them.\<close>

definition recent :: "nat \<Rightarrow> string list \<Rightarrow> string list" where
  "recent capacity history = drop (length history - capacity) history"

fun admit_all :: "ReplayWindow \<Rightarrow> string list \<Rightarrow> ReplayWindow \<times> bool list" where
  "admit_all window [] = (window, [])"
| "admit_all window (r # rs) =
     (case admit window r of (window', answer) \<Rightarrow>
        case admit_all window' rs of (window'', answers) \<Rightarrow> (window'', (\<not> isl answer) # answers))"

fun admit_spec :: "nat \<Rightarrow> string list \<Rightarrow> string list \<Rightarrow> string list \<times> bool list" where
  "admit_spec capacity history [] = (history, [])"
| "admit_spec capacity history (r # rs) =
     (if r \<in> set (recent capacity history)
      then (case admit_spec capacity history rs of (history', answers) \<Rightarrow> (history', False # answers))
      else (case admit_spec capacity (history @ [r]) rs of (history', answers) \<Rightarrow> (history', True # answers)))"

definition window_of :: "nat \<Rightarrow> string list \<Rightarrow> ReplayWindow" where
  "window_of capacity history = \<lparr>rw_capacity = capacity, rw_order = recent capacity history, rw_present = set (recent capacity history)\<rparr>"

lemma recent_snoc:
  "recent capacity (history @ [r]) =
     (if capacity < length (recent capacity history @ [r]) then tl (recent capacity history @ [r]) else recent capacity history @ [r])"
proof (cases "length history < capacity")
  case True
  then show ?thesis by (simp add: recent_def)
next
  case False
  have "drop (Suc n) (history @ [r]) = tl (drop n history @ [r])" if "n \<le> length history" for n
    using that tl_drop [of n "history @ [r]"] by (simp only: drop_Suc) simp
  from this [of "length history - capacity"] False show ?thesis
    by (simp add: recent_def Suc_diff_le)
qed

lemma length_recent: "length (recent capacity history) = min capacity (length history)"
  by (simp add: recent_def)

lemma admit_window_of:
  assumes "distinct (recent capacity history)" and "r \<notin> set (recent capacity history)"
  shows "admit (window_of capacity history) r = (window_of capacity (history @ [r]), Inr ())
    \<and> distinct (recent capacity (history @ [r]))"
proof -
  let ?order = "recent capacity history @ [r]"
  have d: "distinct ?order" using assms by simp
  then have "distinct (tl ?order)" "set (tl ?order) = set ?order - {hd ?order}"
    by (cases ?order; auto)+
  then show ?thesis
    using assms d by (auto simp: admit_def window_of_def recent_snoc Let_def)
qed

lemma admit_all_refines:
  "distinct (recent capacity history) \<Longrightarrow>
     admit_all (window_of capacity history) rs = apfst (window_of capacity) (admit_spec capacity history rs)"
proof (induction rs arbitrary: history)
  case (Cons r rs)
  show ?case
  proof (cases "r \<in> set (recent capacity history)")
    case True
    then have "admit (window_of capacity history) r = (window_of capacity history, Inl ())" by (simp add: admit_def window_of_def)
    then show ?thesis using True Cons by (simp add: split_beta)
  next
    case False
    with admit_window_of [OF Cons.prems] have "admit (window_of capacity history) r = (window_of capacity (history @ [r]), Inr ())"
      "distinct (recent capacity (history @ [r]))" by blast+
    with Cons.IH [of "history @ [r]"] False show ?thesis by (simp add: split_beta)
  qed
qed simp

text \<open>C21: the broker's replay window refuses exactly the recent identifiers. For every sequence of requests, the window answers
  as the specification that remembers every admitted identifier and refuses one among the last \<open>capacity\<close>
  of them, and it never holds more than \<open>capacity\<close> identifiers.\<close>

theorem replay_window_refines:
  "snd (admit_all (new_replay_window capacity) rs) = snd (admit_spec capacity [] rs)
    \<and> length (rw_order (fst (admit_all (new_replay_window capacity) rs))) \<le> capacity
    \<and> rw_present (fst (admit_all (new_replay_window capacity) rs)) = set (rw_order (fst (admit_all (new_replay_window capacity) rs)))"
proof -
  have "new_replay_window capacity = window_of capacity []" by (simp add: new_replay_window_def window_of_def recent_def)
  then show ?thesis using admit_all_refines [of capacity "[]" rs] by (simp add: recent_def window_of_def length_recent)
qed

section \<open>A scan is delivered whole\<close>

text \<open>What an active scan still owes its client: some events and then its result.\<close>

definition scan_owes :: "FilesystemEvent list \<Rightarrow> ScanSummary platform_result \<Rightarrow> ScanState \<Rightarrow> bool" where
  "scan_owes rest result st \<longleftrightarrow> \<not> sc_cancellation st
     \<and> (case sc_pending_terminal st of
          None \<Rightarrow> sc_queue st @ sc_unsent st = map EventMessage rest @ [TerminalMessage result]
        | Some terminal \<Rightarrow> terminal = result \<and> rest = [] \<and> sc_queue st = [] \<and> sc_unsent st = [])"

lemma send_owes: "scan_owes rest result st \<Longrightarrow> scan_owes rest result ((send_with_backpressure ^^ n) st)"
proof (induction n)
  case (Suc n)
  moreover have "scan_owes rest result (send_with_backpressure s)" if "scan_owes rest result s" for s
    using that by (auto simp: scan_owes_def send_with_backpressure_def split: list.splits option.splits)
  ultimately show ?case by simp
qed simp

lemma send_pending [simp]: "sc_pending_terminal ((send_with_backpressure ^^ n) st) = sc_pending_terminal st"
  by (induction n) (simp_all add: send_with_backpressure_def split: list.split)

lemma send_some:
  assumes "scan_owes rest result st" "sc_pending_terminal st = None" "0 < n"
  shows "sc_queue ((send_with_backpressure ^^ n) st) \<noteq> []"
proof -
  have one: "sc_queue (send_with_backpressure s) \<noteq> []" if "scan_owes rest result s" "sc_pending_terminal s = None" for s
    using that by (auto simp: scan_owes_def send_with_backpressure_def SCAN_QUEUE_EVENTS_def split: list.splits)
  obtain m where "n = Suc m" using assms(3) by (cases n) simp_all
  then show ?thesis using one [OF send_owes [OF assms(1)], of m] assms(2) by simp
qed

lemma receive_owes:
  assumes "scan_owes rest result st" "sc_pending_terminal st = None" "receive turns k st = (st', events, terminal)"
  shows "\<exists>rest'. rest = events @ rest' \<and> length events \<le> k
    \<and> (terminal = None \<and> sc_pending_terminal st' = None \<and> scan_owes rest' result st'
       \<or> terminal = Some result \<and> rest' = [] \<and> scan_owes [] result (st'\<lparr>sc_pending_terminal := Some result\<rparr>))
    \<and> (0 < k \<and> (\<forall>i. 0 < turns i) \<longrightarrow> events \<noteq> [] \<or> terminal \<noteq> None)"
  using assms
proof (induction k arbitrary: rest st events)
  case (Suc k)
  define s where "s = (send_with_backpressure ^^ turns k) st"
  have owes: "scan_owes rest result s" "sc_pending_terminal s = None"
    using Suc.prems send_owes by (auto simp: s_def)
  show ?case
  proof (cases "sc_queue s")
    case Nil
    then have "try_recv s = (s, ChannelEmpty)" using owes by (auto simp: try_recv_def scan_owes_def)
    then have "st' = s" "events = []" "terminal = None" using Suc.prems(3) by (simp_all add: s_def)
    moreover have "turns k = 0" using Nil send_some [OF Suc.prems(1,2), of "turns k"] by (auto simp: s_def)
    ultimately show ?thesis using owes by auto
  next
    case (Cons message queue)
    then have recv: "try_recv s = (s\<lparr>sc_queue := queue\<rparr>, Received message)" by (simp add: try_recv_def)
    show ?thesis
    proof (cases rest)
      case Nil
      then have m: "message = TerminalMessage result" "queue = []" "sc_unsent s = []"
        using owes Cons by (auto simp: scan_owes_def)
      then have "st' = s\<lparr>sc_queue := []\<rparr>" "events = []" "terminal = Some result"
        using Suc.prems(3) recv by (simp_all add: s_def)
      then show ?thesis using Nil m owes by (simp add: scan_owes_def)
    next
      case (Cons event rest1)
      then have m: "message = EventMessage event" "scan_owes rest1 result (s\<lparr>sc_queue := queue\<rparr>)"
        using owes \<open>sc_queue s = message # queue\<close> by (auto simp: scan_owes_def)
      obtain st1 events1 terminal1 where r: "receive turns k (s\<lparr>sc_queue := queue\<rparr>) = (st1, events1, terminal1)" by (metis prod_cases3)
      then have e: "st' = st1" "events = event # events1" "terminal = terminal1"
        using Suc.prems(3) recv m(1) by (simp_all add: s_def)
      show ?thesis using Suc.IH [OF m(2) _ r [folded e(1,3)]] owes(2) Cons e(2) by auto
    qed
  qed
qed simp

text \<open>The last answer of a scan.\<close>

definition scan_end :: "ScanSummary platform_result \<Rightarrow> ScanPage service_result" where
  "scan_end result =
     (case result of
        Inr summary \<Rightarrow> Inr \<lparr>pg_events = [], pg_checkpoint = Some (ss_checkpoint summary), pg_complete = True, pg_has_more = False\<rparr>
      | Inl e \<Rightarrow> Inl (service_platform_error e))"

lemma scan_page_owes:
  assumes "scan_owes rest result st"
  shows "scan_page turns m st = (None, scan_end result) \<and> rest = []
    \<or> (\<exists>st' events rest'. scan_page turns m st
          = (Some st', Inr \<lparr>pg_events = events, pg_checkpoint = None, pg_complete = False, pg_has_more = True\<rparr>)
        \<and> rest = events @ rest' \<and> length events \<le> unat m \<and> scan_owes rest' result st'
        \<and> (0 < m \<and> (\<forall>i. 0 < turns i) \<longrightarrow> events \<noteq> []))"
proof (cases "sc_pending_terminal st")
  case (Some terminal)
  then show ?thesis using assms by (simp add: scan_page_def scan_owes_def scan_end_def)
next
  case None
  obtain st' events terminal where r: "receive turns (unat m) st = (st', events, terminal)" by (metis prod_cases3)
  from receive_owes [OF assms None r] obtain rest' where
    rest: "rest = events @ rest'" "length events \<le> unat m"
    and t: "terminal = None \<and> sc_pending_terminal st' = None \<and> scan_owes rest' result st'
       \<or> terminal = Some result \<and> rest' = [] \<and> scan_owes [] result (st'\<lparr>sc_pending_terminal := Some result\<rparr>)"
    and live: "0 < m \<and> (\<forall>i. 0 < turns i) \<longrightarrow> events \<noteq> [] \<or> terminal \<noteq> None"
    by (auto simp: word_less_nat_alt)
  then show ?thesis
    using None r by (cases terminal) (auto simp: scan_page_def scan_end_def)
qed

text \<open>A client that keeps pulling pages, each with its own bound and its own interleaving with the producer, until the scan is
  released.\<close>

fun pull_scan ::
  "u64 \<Rightarrow> ((nat \<Rightarrow> nat) \<times> u16) list \<Rightarrow> 'p BrokerService \<Rightarrow> 'p BrokerService \<times> BrokerPayload service_result list" where
  "pull_scan scan_id [] svc = (svc, [])"
| "pull_scan scan_id ((turns, m) # reads) svc =
     (case broker_read_scan_page turns scan_id m svc of
        (svc', answer) \<Rightarrow>
          if map_of (bk_scans svc') scan_id = None then (svc', [answer])
          else (case pull_scan scan_id reads svc' of (svc'', answers) \<Rightarrow> (svc'', answer # answers)))"

definition page_events :: "BrokerPayload service_result \<Rightarrow> FilesystemEvent list" where
  "page_events answer = (case answer of Inr (ScanPagePayload page) \<Rightarrow> pg_events page | _ \<Rightarrow> [])"

definition fair_read :: "(nat \<Rightarrow> nat) \<times> u16 \<Rightarrow> bool" where
  "fair_read r \<longleftrightarrow> 0 < snd r \<and> (\<forall>i. 0 < fst r i)"

lemma pull_scan_owes:
  assumes "map_of (bk_scans svc) scan_id = Some st" "scan_owes rest result st" "pull_scan scan_id reads svc = (svc', answers)"
  shows "prefix (concat (map page_events answers)) rest
    \<and> (map_of (bk_scans svc') scan_id = None \<longrightarrow>
        concat (map page_events answers) = rest \<and> answers \<noteq> [] \<and> last answers = and_then (scan_end result) (Inr \<circ> ScanPagePayload))
    \<and> ((\<forall>r \<in> set reads. fair_read r) \<and> length rest < length reads \<longrightarrow> map_of (bk_scans svc') scan_id = None)"
  using assms
proof (induction reads arbitrary: svc st rest answers)
  case Nil
  then show ?case by simp
next
  case (Cons r reads)
  obtain turns m where r: "r = (turns, m)" by (cases r)
  consider (ended) "scan_page turns m st = (None, scan_end result)" "rest = []"
    | (more) st1 events rest1 where "scan_page turns m st
          = (Some st1, Inr \<lparr>pg_events = events, pg_checkpoint = None, pg_complete = False, pg_has_more = True\<rparr>)"
        "rest = events @ rest1" "scan_owes rest1 result st1" "fair_read r \<longrightarrow> events \<noteq> []"
    using scan_page_owes [OF Cons.prems(2), of turns m] by (auto simp: fair_read_def r)
  then show ?case
  proof cases
    case ended
    then have "pull_scan scan_id (r # reads) svc
        = (svc\<lparr>bk_scans := AList.delete scan_id (bk_scans svc)\<rparr>, [and_then (scan_end result) (Inr \<circ> ScanPagePayload)])"
      using Cons.prems(1) by (simp add: r broker_read_scan_page_def delete_conv comp_def)
    then show ?thesis
      using Cons.prems(3) ended(2) by (auto simp: page_events_def scan_end_def delete_conv split: sum.splits)
  next
    case more
    let ?svc = "svc\<lparr>bk_scans := AList.update scan_id st1 (bk_scans svc)\<rparr>"
    let ?page = "\<lparr>pg_events = events, pg_checkpoint = None, pg_complete = False, pg_has_more = True\<rparr>"
    obtain answers1 where p: "pull_scan scan_id reads ?svc = (svc', answers1)" "answers = Inr (ScanPagePayload ?page) # answers1"
      using Cons.prems(1,3) more(1) by (auto simp: r broker_read_scan_page_def update_conv split: prod.splits)
    have "map_of (bk_scans ?svc) scan_id = Some st1" by (simp add: update_conv)
    note ih = Cons.IH [OF this more(3) p(1)]
    have events: "concat (map page_events answers) = events @ concat (map page_events answers1)" using p(2) by (simp add: page_events_def)
    have "length rest1 < length reads" if "fair_read r" "length rest < length (r # reads)"
      using that more(2,4) by (cases events) simp_all
    moreover have "answers1 \<noteq> [] \<longrightarrow> last answers = last answers1" using p(2) by simp
    ultimately show ?thesis using ih more(2) p(2) unfolding events by auto
  qed
qed

text \<open>A scan through the broker loses nothing and ends. However reads and the producer interleave, the events of the pages are, in
  order, a prefix of the events the provider emits; when the scan is released the client has all of them and the last answer
  carries the provider's result; and a client that keeps pulling while the producer takes turns needs at most
  one read more than there are events.\<close>

theorem broker_scan_delivers_stream:
  assumes "map_of (bk_scans svc) scan_id = Some (spawn_scan events result)" "pull_scan scan_id reads svc = (svc', answers)"
  shows "prefix (concat (map page_events answers)) events
    \<and> (map_of (bk_scans svc') scan_id = None \<longrightarrow>
        concat (map page_events answers) = events \<and> answers \<noteq> [] \<and> last answers = and_then (scan_end result) (Inr \<circ> ScanPagePayload))
    \<and> ((\<forall>r \<in> set reads. fair_read r) \<and> length events < length reads \<longrightarrow> map_of (bk_scans svc') scan_id = None)"
proof -
  have "scan_owes events result (spawn_scan events result)" by (simp add: scan_owes_def spawn_scan_def)
  from pull_scan_owes [OF assms(1) this assms(2)] show ?thesis .
qed

section \<open>The dispatcher\<close>

definition broker_ok :: "'p BrokerService \<Rightarrow> bool" where
  "broker_ok svc \<longleftrightarrow> length (bk_scans svc) \<le> MAX_ACTIVE_SCANS \<and> distinct (map fst (bk_scans svc))
     \<and> (\<exists>history. distinct (recent REPLAY_WINDOW_REQUESTS history) \<and> bk_replay svc = window_of REPLAY_WINDOW_REQUESTS history)"

lemma new_broker_ok: "broker_ok (new_broker_service p)"
  by (auto simp: broker_ok_def new_broker_service_def new_replay_window_def window_of_def recent_def intro!: exI [of _ "[]"])

text \<open>The scans after an operation: the table stays within its limit and holds one entry per scan.\<close>

lemma delete_scans:
  "length (AList.delete k xs) \<le> length xs" "distinct (map fst xs) \<Longrightarrow> distinct (map fst (AList.delete k xs))"
  by (auto simp: AList.delete_eq distinct_map_filter)

lemma update_scans: "length (AList.update k v xs) = (if map_of xs k = None then Suc (length xs) else length xs)"
proof (induction xs)
  case (Cons x xs)
  then show ?case by (cases x) auto
qed simp

lemma dispatch_operation_scans:
  assumes "dispatch_operation pv cancelled elapsed turns deadline operation svc = (svc', answer)"
    and "length (bk_scans svc) \<le> MAX_ACTIVE_SCANS" "distinct (map fst (bk_scans svc))"
  shows "length (bk_scans svc') \<le> MAX_ACTIVE_SCANS \<and> distinct (map fst (bk_scans svc')) \<and> bk_replay svc' = bk_replay svc"
proof (cases operation)
  case (StartScan v mode)
  then show ?thesis
    using assms by (auto simp: dispatch_operation_def broker_start_scan_def Let_def update_scans distinct_update
        split: prod.splits sum.splits option.splits if_splits)
next
  case (ReadScanPage k m)
  then show ?thesis
    using assms delete_scans(1) [of k "bk_scans svc"] delete_scans(2) [of "bk_scans svc" k]
    by (auto simp: dispatch_operation_def broker_read_scan_page_def update_scans distinct_update
        split: prod.splits sum.splits option.splits if_splits)
next
  case (CancelScan k)
  then show ?thesis
    using assms delete_scans(1) [of k "bk_scans svc"] delete_scans(2) [of "bk_scans svc" k]
    by (auto simp: dispatch_operation_def broker_cancel_scan_def split: prod.splits sum.splits option.splits)
qed (use assms in \<open>auto simp: dispatch_operation_def broker_read_changes_def split: prod.splits sum.splits\<close>)

lemma receive_bounded: "receive turns k st = (st', events, terminal) \<Longrightarrow> length events \<le> k"
  by (induction turns k st arbitrary: st' events terminal rule: receive.induct)
     (fastforce split: prod.splits received.splits ScanMessage.splits)+

lemma scan_page_bounded: "scan_page turns m st = (st', Inr page) \<Longrightarrow> length (pg_events page) \<le> unat m"
  using receive_bounded [of turns "unat m" st]
  by (auto simp: scan_page_def split: prod.splits option.splits if_splits sum.splits)

lemma dispatch_operation_page:
  assumes "dispatch_operation pv cancelled elapsed turns deadline operation svc = (svc', Inr (ScanPagePayload page))"
    and "broker_operation_validate operation = Inr ()"
  shows "length (pg_events page) \<le> unat MAX_BROKER_PAGE_EVENTS"
proof -
  obtain k m where op: "operation = ReadScanPage k m"
    using assms(1) by (cases operation)
      (auto simp: dispatch_operation_def broker_start_scan_def broker_cancel_scan_def broker_read_changes_def Let_def
        split: prod.splits sum.splits option.splits if_splits)
  then have "m \<le> MAX_BROKER_PAGE_EVENTS" using assms(2) by (auto simp: not_less split: if_splits)
  moreover have "length (pg_events page) \<le> unat m"
    using assms(1) scan_page_bounded [of turns m]
    by (auto simp: op dispatch_operation_def broker_read_scan_page_def result_simps split: prod.splits sum.splits option.splits)
  ultimately show ?thesis by (simp add: word_le_nat_alt)
qed

lemma admit_fresh:
  assumes "window = window_of REPLAY_WINDOW_REQUESTS history" "distinct (recent REPLAY_WINDOW_REQUESTS history)"
    and "r \<notin> rw_present window"
  shows "\<exists>window'. admit window r = (window', Inr ()) \<and> r \<in> rw_present window'
    \<and> (\<exists>history'. distinct (recent REPLAY_WINDOW_REQUESTS history') \<and> window' = window_of REPLAY_WINDOW_REQUESTS history')"
proof -
  have fresh: "r \<notin> set (recent REPLAY_WINDOW_REQUESTS history)" using assms(1,3) by (simp add: window_of_def)
  have "r \<in> set (recent REPLAY_WINDOW_REQUESTS (history @ [r]))"
    by (simp add: recent_def REPLAY_WINDOW_REQUESTS_def)
  then show ?thesis using admit_window_of [OF assms(2) fresh] assms(1) by (auto simp: window_of_def)
qed

text \<open>C20: the broker answers within its contract. Every response is well formed and names the request it answers; the service keeps at most
  four scans and a bounded replay window; a payload is sent only for a valid request whose identifier is not in the
  window, and the identifier is then in it; a replayed request changes nothing; and a page holds at most 256 events.\<close>

theorem broker_dispatch_contract:
  assumes "broker_ok svc" "broker_dispatch pv cancelled elapsed turns request svc = (svc', response)"
  shows "broker_ok svc' \<and> broker_response_validate response = Inr () \<and> br_protocol_version response = BROKER_PROTOCOL_VERSION
    \<and> br_request_id response = (if length (bq_request_id request) \<le> 64 then bq_request_id request else [])
    \<and> (br_result response \<noteq> None \<longrightarrow> broker_request_validate request = Inr ()
        \<and> bq_request_id request \<notin> rw_present (bk_replay svc) \<and> bq_request_id request \<in> rw_present (bk_replay svc'))
    \<and> (bq_request_id request \<in> rw_present (bk_replay svc) \<longrightarrow> svc' = svc)
    \<and> (\<forall>page. br_result response = Some (ScanPagePayload page) \<longrightarrow> length (pg_events page) \<le> unat MAX_BROKER_PAGE_EVENTS)"
proof (cases "broker_request_validate request")
  case (Inl e)
  then show ?thesis using assms by (auto simp: broker_dispatch_def contract_failure_def broker_failure_def broker_response_validate_def Let_def)
next
  case valid: (Inr u)
  let ?id = "bq_request_id request"
  have len: "length ?id \<le> 64" using valid by (simp add: broker_request_validate_ok MAX_BROKER_REQUEST_ID_BYTES_def)
  obtain history where h: "distinct (recent REPLAY_WINDOW_REQUESTS history)" "bk_replay svc = window_of REPLAY_WINDOW_REQUESTS history"
    using assms(1) by (auto simp: broker_ok_def)
  show ?thesis
  proof (cases "?id \<in> rw_present (bk_replay svc)")
    case True
    then have "admit (bk_replay svc) ?id = (bk_replay svc, Inl ())" by (simp add: admit_def)
    then show ?thesis using assms valid len
      by (auto simp: broker_dispatch_def Let_def broker_failure_def broker_response_validate_def)
  next
    case False
    from admit_fresh [OF h(2,1) this] obtain window history' where w: "admit (bk_replay svc) ?id = (window, Inr ())" "?id \<in> rw_present window"
        "distinct (recent REPLAY_WINDOW_REQUESTS history')" "window = window_of REPLAY_WINDOW_REQUESTS history'" by blast
    let ?svc = "svc\<lparr>bk_replay := window\<rparr>"
    have ok: "broker_ok s" if "length (bk_scans s) \<le> MAX_ACTIVE_SCANS" "distinct (map fst (bk_scans s))" "bk_replay s = window" for s :: "'a BrokerService"
      using that w(3,4) by (auto simp: broker_ok_def)
    obtain svc2 answer where d: "dispatch_operation pv cancelled elapsed turns (unat (broker_effective_deadline_ms request) * 1000000)
        (bq_operation request) ?svc = (svc2, answer)" by fastforce
    have op: "broker_operation_validate (bq_operation request) = Inr ()" using valid by (simp add: broker_request_validate_ok)
    have scans: "length (bk_scans svc2) \<le> MAX_ACTIVE_SCANS \<and> distinct (map fst (bk_scans svc2)) \<and> bk_replay svc2 = window"
      using dispatch_operation_scans [OF d] assms(1) by (simp add: broker_ok_def)
    have kept: "broker_ok ?svc" "broker_ok svc2" using ok [of ?svc] ok [of svc2] scans assms(1) by (simp_all add: broker_ok_def)
    have "(\<exists>c m. response = broker_failure ?id c m \<and> (svc' = ?svc \<or> svc' = svc2))
        \<or> (\<exists>payload. answer = Inr payload \<and> response = broker_success ?id payload \<and> svc' = svc2)"
      using assms(2) valid len w(1) d by (auto simp: broker_dispatch_def Let_def split: if_splits sum.splits)
    then show ?thesis
    proof (elim disjE exE conjE)
      fix payload assume p: "answer = Inr payload" "response = broker_success ?id payload" "svc' = svc2"
      have "length (pg_events page) \<le> unat MAX_BROKER_PAGE_EVENTS" if "payload = ScanPagePayload page" for page
        using dispatch_operation_page [OF d [unfolded p(1) that] op] .
      then show ?thesis using p valid len w(2) False kept scans by (simp add: broker_success_def broker_response_validate_def)
    qed (use len False kept in \<open>auto simp: broker_failure_def broker_response_validate_def\<close>)
  qed
qed

section \<open>The Windows provider behind the broker\<close>

text \<open>The broker process runs the service over the Windows provider, with a sink that keeps what it is given.\<close>

definition windows_provider ::
  "checkpoint_json \<Rightarrow> scan_env \<Rightarrow> (nat \<Rightarrow> fs_view) \<Rightarrow> journal_device \<Rightarrow> WindowsFilesystemProvider broker_provider" where
  "windows_provider js env fs dev =
     \<lparr>pv_capabilities = capabilities,
      pv_discover_volumes = (\<lambda>p. case discover_volumes env p of Inl e \<Rightarrow> (p, Inl e) | Inr (p', volumes) \<Rightarrow> (p', Inr volumes)),
      pv_initial_scan = (\<lambda>p volume. initial_scan js collect env dev p volume []),
      pv_reconcile = (\<lambda>p volume. reconcile js collect env dev p volume []),
      pv_read_changes = (\<lambda>p checkpoint n. (p, read_changes js collect fs dev p checkpoint n []))\<rparr>"

section \<open>Witnesses\<close>

definition sample_broker_provider :: "unit broker_provider" where
  "sample_broker_provider =
     \<lparr>pv_capabilities = (\<lambda>_. undefined), pv_discover_volumes = (\<lambda>p. (p, Inr [])),
      pv_initial_scan = (\<lambda>_ _. ([], Inl (platform_error PeUnsupported [] []))),
      pv_reconcile = (\<lambda>_ _. ([], Inl (platform_error PeUnsupported [] []))),
      pv_read_changes = (\<lambda>p cp n. (p, [ReconciliationRequired (pc_volume_id cp) EventOverflow],
         Inr \<lparr>cb_checkpoint = cp, cb_emitted_events = 1, cb_has_more = False\<rparr>))\<rparr>"

definition sample_broker_checkpoint :: ProviderCheckpoint where
  "sample_broker_checkpoint = \<lparr>pc_provider_id = ''p'', pc_format_version = 1, pc_volume_id = from_u128 1, pc_opaque = []\<rparr>"

definition sample_scan_summary :: ScanSummary where
  "sample_scan_summary = \<lparr>ss_checkpoint = sample_broker_checkpoint, ss_emitted_events = 1\<rparr>"

definition sample_scanning :: "unit BrokerService" where
  "sample_scanning = (new_broker_service ())
     \<lparr>bk_scans := [(1, spawn_scan [ReconciliationRequired (from_u128 1) EventOverflow] (Inr sample_scan_summary))]\<rparr>"

theorem broker_scan_delivers_stream_witness:
  "map_of (bk_scans (fst (pull_scan 1 [(\<lambda>_. 1, 1), (\<lambda>_. 1, 1)] sample_scanning))) 1 = None
   \<and> concat (map page_events (snd (pull_scan 1 [(\<lambda>_. 1, 1), (\<lambda>_. 1, 1)] sample_scanning)))
       = [ReconciliationRequired (from_u128 1) EventOverflow]"
proof -
  let ?run = "pull_scan 1 [(\<lambda>_. 1, 1), (\<lambda>_. 1, 1)] sample_scanning"
  have "map_of (bk_scans sample_scanning) 1
      = Some (spawn_scan [ReconciliationRequired (from_u128 1) EventOverflow] (Inr sample_scan_summary))"
    by (simp add: sample_scanning_def)
  from broker_scan_delivers_stream [OF this prod.collapse [symmetric], of "[(\<lambda>_. 1, 1), (\<lambda>_. 1, 1)]"]
  show ?thesis by (simp add: fair_read_def)
qed

definition sample_broker_request :: BrokerRequest where
  "sample_broker_request = \<lparr>bq_protocol_version = 1, bq_codec_version = 1, bq_request_id = ''r'', bq_deadline_ms = 0,
     bq_operation = DiscoverVolumes\<rparr>"

abbreviation (input) sample_dispatch :: "unit BrokerService \<Rightarrow> unit BrokerService \<times> BrokerResponse" where
  "sample_dispatch \<equiv> broker_dispatch sample_broker_provider (\<lambda>_. False) (\<lambda>_. 0) (\<lambda>_. 0) sample_broker_request"

theorem broker_dispatch_contract_witness:
  "br_result (snd (sample_dispatch (new_broker_service ()))) = Some (VolumesPayload [])
   \<and> ''r'' \<in> rw_present (bk_replay (fst (sample_dispatch (new_broker_service ()))))
   \<and> fst (sample_dispatch (fst (sample_dispatch (new_broker_service ())))) = fst (sample_dispatch (new_broker_service ()))"
proof -
  have result: "br_result (snd (sample_dispatch (new_broker_service ()))) = Some (VolumesPayload [])"
    by (simp add: broker_dispatch_def broker_request_validate_def sample_broker_request_def admit_def new_broker_service_def
        new_replay_window_def dispatch_operation_def broker_check_request_def sample_broker_provider_def broker_success_def
        broker_effective_deadline_ms_def BROKER_PROTOCOL_VERSION_def BROKER_CODEC_VERSION_def MAX_BROKER_REQUEST_ID_BYTES_def
        DEFAULT_BROKER_DEADLINE_MS_def REPLAY_WINDOW_REQUESTS_def)
  note first = broker_dispatch_contract [OF new_broker_ok prod.collapse [symmetric],
      of sample_broker_provider "\<lambda>_. False" "\<lambda>_. 0" "\<lambda>_. 0" sample_broker_request "()"]
  then have ok: "broker_ok (fst (sample_dispatch (new_broker_service ())))" by blast
  note second = broker_dispatch_contract [OF ok prod.collapse [symmetric],
      of sample_broker_provider "\<lambda>_. False" "\<lambda>_. 0" "\<lambda>_. 0" sample_broker_request]
  have "bq_request_id sample_broker_request = ''r''" by (simp add: sample_broker_request_def)
  then show ?thesis using result first second by simp
qed

end
