(* ===== verification/Sql_Table.thy ===== *)
theory Sql_Table
  imports Prelude
begin

text \<open>
  The relational vocabulary of the durable graph. A table is the list of its rows; the statements
  the store issues are a lookup by primary key, \<open>INSERT ... ON CONFLICT DO UPDATE\<close>, \<open>UPDATE ...
  WHERE\<close>, \<open>DELETE ... WHERE\<close> and bounded ordered scans (\<open>WHERE ... ORDER BY key LIMIT n\<close>).

  The locale \<open>sql_table\<close> is the contract of a table with a primary key and a conflict clause; it is
  interpreted once per table of the schema. The locale \<open>keyset_scan\<close> is the contract of a scan
  resumed after the last key of the previous page; it gives completeness of paging.
\<close>

definition tbl_find :: "('r \<Rightarrow> 'k) \<Rightarrow> 'k \<Rightarrow> 'r list \<Rightarrow> 'r option" where
  "tbl_find key k t = find (\<lambda>r. key r = k) t"

definition tbl_upsert :: "('r \<Rightarrow> 'k) \<Rightarrow> ('r \<Rightarrow> 'r \<Rightarrow> 'r) \<Rightarrow> 'r \<Rightarrow> 'r list \<Rightarrow> 'r list" where
  "tbl_upsert key merge row t =
     (if tbl_find key (key row) t = None then t @ [row]
      else map (\<lambda>r. if key r = key row then merge row r else r) t)"

definition tbl_update :: "('r \<Rightarrow> bool) \<Rightarrow> ('r \<Rightarrow> 'r) \<Rightarrow> 'r list \<Rightarrow> 'r list" where
  "tbl_update p f t = map (\<lambda>r. if p r then f r else r) t"

definition tbl_count :: "('r \<Rightarrow> bool) \<Rightarrow> 'r list \<Rightarrow> nat" where
  "tbl_count p t = length (filter p t)"

definition tbl_delete :: "('r \<Rightarrow> bool) \<Rightarrow> 'r list \<Rightarrow> 'r list" where
  "tbl_delete p t = filter (\<lambda>r. \<not> p r) t"

definition tbl_scan :: "('r \<Rightarrow> bool) \<Rightarrow> ('r \<Rightarrow> 'o::linorder) \<Rightarrow> nat \<Rightarrow> 'r list \<Rightarrow> 'r list" where
  "tbl_scan p ord n t = take n (sort_key ord (filter p t))"

named_theorems tbl_simps \<open>lookup after each kind of statement\<close>

lemma tbl_find_Some: "tbl_find key k t = Some r \<Longrightarrow> r \<in> set t \<and> key r = k"
  by (auto simp: tbl_find_def find_Some_iff)

lemma tbl_find_None: "tbl_find key k t = None \<longleftrightarrow> k \<notin> key ` set t"
  by (auto simp: tbl_find_def find_None_iff)

lemma tbl_find_distinct:
  "distinct (map key t) \<Longrightarrow> tbl_find key k t = Some r \<longleftrightarrow> r \<in> set t \<and> key r = k"
  by (induction t) (auto simp: tbl_find_def)

lemma tbl_find_key_in: "r \<in> set t \<Longrightarrow> tbl_find key (key r) t \<noteq> None"
  by (auto simp: tbl_find_None)

lemma tbl_find_Nil [simp]: "tbl_find key k [] = None"
  by (simp add: tbl_find_def)

lemma tbl_find_Cons: "tbl_find key k (r # t) = (if key r = k then Some r else tbl_find key k t)"
  by (simp add: tbl_find_def)

lemma tbl_find_append:
  "tbl_find key k (t @ u) = (case tbl_find key k t of None \<Rightarrow> tbl_find key k u | Some r \<Rightarrow> Some r)"
  by (induction t) (simp_all add: tbl_find_Cons)

lemma tbl_find_map:
  assumes "\<And>r. key (f r) = key r"
  shows "tbl_find key k (map f t) = map_option f (tbl_find key k t)"
  by (induction t) (simp_all add: tbl_find_Cons assms)

lemma tbl_find_update [tbl_simps]:
  assumes "\<And>r. key (f r) = key r"
  shows "tbl_find key k (tbl_update p f t) = map_option (\<lambda>r. if p r then f r else r) (tbl_find key k t)"
  unfolding tbl_update_def by (rule tbl_find_map) (simp add: assms)

lemma tbl_find_update_key [tbl_simps]:
  assumes "\<And>r. key (f r) = key r"
  shows "tbl_find key k (tbl_update (\<lambda>r. key r = d) f t) =
    (if k = d then map_option f (tbl_find key k t) else tbl_find key k t)"
  by (induction t) (auto simp: tbl_update_def tbl_find_Cons assms)

lemma map_key_update:
  assumes "\<And>r. key (f r) = key r"
  shows "map key (tbl_update p f t) = map key t"
  by (simp add: tbl_update_def assms comp_def)

lemma tbl_find_delete_key [tbl_simps]:
  "tbl_find key k (tbl_delete (\<lambda>r. key r = d) t) = (if k = d then None else tbl_find key k t)"
  by (induction t) (auto simp: tbl_delete_def tbl_find_Cons)

lemma set_tbl_delete [simp]: "set (tbl_delete p t) = {r \<in> set t. \<not> p r}"
  by (auto simp: tbl_delete_def)

lemma distinct_tbl_delete: "distinct (map key t) \<Longrightarrow> distinct (map key (tbl_delete p t))"
  by (simp add: tbl_delete_def distinct_map_filter)

lemma set_tbl_update: "set (tbl_update p f t) = (\<lambda>r. if p r then f r else r) ` set t"
  by (simp add: tbl_update_def)

lemma tbl_count_zero: "tbl_count p t = 0 \<longleftrightarrow> (\<forall>r \<in> set t. \<not> p r)"
  by (auto simp: tbl_count_def filter_empty_conv)

lemma tbl_count_key:
  "distinct (map key t) \<Longrightarrow> tbl_count (\<lambda>r. key r = k) t = (if tbl_find key k t = None then 0 else 1)"
  by (induction t) (auto simp: tbl_count_def tbl_find_Cons tbl_find_None)

lemma set_tbl_scan_subset: "set (tbl_scan p ord n t) \<subseteq> {r \<in> set t. p r}"
  unfolding tbl_scan_def using set_take_subset by fastforce

lemma length_tbl_scan: "length (tbl_scan p ord n t) = min n (tbl_count p t)"
  by (simp add: tbl_scan_def tbl_count_def min.commute)

lemma tbl_scan_complete:
  "length (tbl_scan p ord n t) < n \<Longrightarrow> set (tbl_scan p ord n t) = {r \<in> set t. p r}"
  by (auto simp: tbl_scan_def)

text \<open>The contract of a table with primary key \<open>key\<close> and conflict clause \<open>merge excluded old\<close>.\<close>

locale sql_table =
  fixes key :: "'r \<Rightarrow> 'k" and merge :: "'r \<Rightarrow> 'r \<Rightarrow> 'r"
  assumes merge_key: "key new = key old \<Longrightarrow> key (merge new old) = key old"
begin

lemma find_upsert:
  "tbl_find key k (tbl_upsert key merge row t) =
     (if k = key row
      then Some (case tbl_find key k t of None \<Rightarrow> row | Some old \<Rightarrow> merge row old)
      else tbl_find key k t)"
proof (cases "tbl_find key (key row) t")
  case None
  then show ?thesis
    by (auto simp: tbl_upsert_def tbl_find_append tbl_find_Cons split: option.splits)
next
  case (Some old)
  have "tbl_find key k (map (\<lambda>r. if key r = key row then merge row r else r) t) =
      map_option (\<lambda>r. if key r = key row then merge row r else r) (tbl_find key k t)"
    by (rule tbl_find_map) (simp add: merge_key)
  with Some show ?thesis
    by (cases "tbl_find key k t") (auto simp: tbl_upsert_def dest: tbl_find_Some)
qed

lemma keys_upsert: "key ` set (tbl_upsert key merge row t) = insert (key row) (key ` set t)"
proof (rule set_eqI)
  fix k
  show "k \<in> key ` set (tbl_upsert key merge row t) \<longleftrightarrow> k \<in> insert (key row) (key ` set t)"
    using tbl_find_None [of key k "tbl_upsert key merge row t"] tbl_find_None [of key k t]
    by (auto simp: find_upsert split: if_splits)
qed

lemma distinct_upsert:
  assumes "distinct (map key t)"
  shows "distinct (map key (tbl_upsert key merge row t))"
proof (cases "tbl_find key (key row) t")
  case None
  with assms show ?thesis by (simp add: tbl_upsert_def tbl_find_None)
next
  case (Some old)
  have "map key (map (\<lambda>r. if key r = key row then merge row r else r) t) = map key t"
    by (simp add: merge_key)
  with Some assms show ?thesis by (simp add: tbl_upsert_def del: map_map)
qed

lemma in_upsert:
  assumes "r \<in> set (tbl_upsert key merge row t)"
  shows "r = row \<or> (\<exists>old \<in> set t. key old = key row \<and> r = merge row old)
    \<or> (r \<in> set t \<and> key r \<noteq> key row)"
proof (cases "key row \<in> key ` set t")
  case True
  with assms show ?thesis by (auto simp: tbl_upsert_def tbl_find_None split: if_splits)
next
  case False
  with assms have "r = row \<or> r \<in> set t" by (auto simp: tbl_upsert_def tbl_find_None)
  with False show ?thesis by (metis image_eqI)
qed

lemma other_in_upsert:
  "r \<in> set t \<Longrightarrow> key r \<noteq> key row \<Longrightarrow> r \<in> set (tbl_upsert key merge row t)"
  by (auto simp: tbl_upsert_def intro: rev_image_eqI)

end

text \<open>
  The contract of a scan resumed by key: the rows \<open>rows s\<close> of a valid state have pairwise distinct
  keys, so that a page can be resumed after the last key of the page before.
\<close>

locale keyset_scan =
  fixes ord :: "'r \<Rightarrow> 'o::linorder" and rows :: "'s \<Rightarrow> 'r list" and valid :: "'s \<Rightarrow> bool"
  assumes ord_distinct: "valid s \<Longrightarrow> distinct (map ord (rows s))"
begin

lemma sorted_scan:
  assumes "valid s"
  shows "sorted_wrt (<) (map ord (sort_key ord (filter p (rows s))))"
proof -
  have "distinct (map ord (sort_key ord (filter p (rows s))))"
    using ord_distinct [OF assms] by (auto simp: distinct_map intro: inj_on_subset)
  then show ?thesis by (simp add: strict_sorted_iff)
qed

text \<open>A page followed by the scan after its last key is the whole scan.\<close>

lemma scan_resume:
  assumes "valid s" and page: "page = take n (sort_key ord (filter p (rows s)))" and "page \<noteq> []"
  shows "sort_key ord (filter p (rows s))
    = page @ sort_key ord (filter (\<lambda>r. p r \<and> ord (last page) < ord r) (rows s))"
proof -
  let ?s = "sort_key ord (filter p (rows s))"
  have split: "?s = page @ drop n ?s" using page by simp
  have sorted: "sorted_wrt (<) (map ord (page @ drop n ?s))"
    using sorted_scan [OF assms(1), of p] split by simp
  have "filter (\<lambda>r. ord (last page) < ord r) page = []"
  proof -
    have "ord r \<le> ord (last page)" if "r \<in> set page" for r
    proof -
      have "sorted (map ord page)" using sorted by (simp add: strict_sorted_iff sorted_append)
      moreover from that obtain i where "i < length page" "r = page ! i" by (auto simp: in_set_conv_nth)
      ultimately show ?thesis
        using assms(3) by (simp add: last_conv_nth sorted_iff_nth_mono)
    qed
    then show ?thesis by (auto simp: filter_empty_conv not_less)
  qed
  moreover have "filter (\<lambda>r. ord (last page) < ord r) (drop n ?s) = drop n ?s"
  proof (rule filter_True, rule ballI)
    fix r assume "r \<in> set (drop n ?s)"
    then show "ord (last page) < ord r"
      using sorted assms(3) last_in_set [OF assms(3)] by (simp add: sorted_wrt_append)
  qed
  ultimately have "filter (\<lambda>r. ord (last page) < ord r) ?s = drop n ?s"
    by (metis split append_Nil filter_append)
  moreover have "filter (\<lambda>r. ord (last page) < ord r) ?s
      = sort_key ord (filter (\<lambda>r. p r \<and> ord (last page) < ord r) (rows s))"
    by (simp add: filter_sort conj_commute)
  ultimately show ?thesis using split by simp
qed

text \<open>A row that a page passed over comes after the page's last key, and a page that is not full
  passed over none.\<close>

lemma scan_covers:
  assumes "valid s" and "r \<in> set (rows s)" and "p r" and "page = tbl_scan p ord n (rows s)"
  shows "r \<in> set page \<or> (length page = n \<and> (page \<noteq> [] \<longrightarrow> ord (last page) < ord r))"
proof -
  let ?s = "sort_key ord (filter p (rows s))"
  have "r \<in> set ?s" using assms(2,3) by simp
  moreover have "page = take n ?s" using assms(4) by (simp add: tbl_scan_def)
  ultimately show ?thesis
  proof (cases "page = []")
    case True
    then have "n = 0 \<or> ?s = []" using \<open>page = take n ?s\<close> by simp
    moreover have "?s \<noteq> []" using \<open>r \<in> set ?s\<close> by (metis list.set(1) empty_iff)
    ultimately show ?thesis using True by simp
  next
    case False
    have "length page = n" if "r \<notin> set page"
      using that \<open>page = take n ?s\<close> \<open>r \<in> set ?s\<close> by (metis length_take min.absorb2 nat_le_linear take_all)
    moreover have "ord (last page) < ord r" if "r \<notin> set page"
    proof -
      have "r \<in> set (page @ sort_key ord (filter (\<lambda>r. p r \<and> ord (last page) < ord r) (rows s)))"
        using scan_resume [OF assms(1) \<open>page = take n ?s\<close> False] \<open>r \<in> set ?s\<close> by simp
      with that show ?thesis by simp
    qed
    ultimately show ?thesis by blast
  qed
qed

end

end
