(* ===== verification/Graph_Store.thy ===== *)
theory Graph_Store
  imports Graph_Domain Sql_Table
begin

text \<open>
  The tables of the durable graph (\<open>crates/filesystem-graph/src/migrations.rs\<close>) and the statements
  that change one row set inside a transaction (\<open>crates/filesystem-graph/src/store.rs\<close>): upserts of
  volumes, objects and links, link removal, tombstones, refresh queues and the dispatch of a graph
  mutation.

  The database is the record \<open>graph_db\<close> of its tables, each a list of rows. Columns that hold the
  code of an enumeration hold the enumeration itself: the schema's \<open>CHECK\<close> clauses admit only codes
  of values, and decoding inverts encoding (see \<open>Graph_Domain\<close>). A pair of BLOB columns that names an
  object is one \<open>FileKey\<close>. Unique indexes and foreign keys are tested where a statement can violate
  them. A function that can fail returns the new database only on success, so an error propagates
  as the \<open>?\<close> operator propagates it and the surrounding transaction is rolled back.

  Shown here: lookups after each statement, and that every statement keeps the schema's
  constraints (primary keys, unique names, foreign keys) together with the rule that an object with
  a namespace link is never tombstoned.
\<close>

section \<open>Tables\<close>

record volume_row =
  v_volume_id :: VolumeId
  v_display_name :: "string option"
  v_mount_points :: "string list"
  v_filesystem :: "string option"
  v_removable :: bool
  v_local :: bool
  v_state :: VolumeState
  v_reconciliation_reason :: "ReconciliationReason option"
  v_generation :: i64

record checkpoint_row =
  cp_volume_id :: VolumeId
  cp_provider_id :: string
  cp_format_version :: i64
  cp_opaque :: bytes

record object_row =
  o_key :: FileKey
  o_kind :: FileKind
  o_size :: i64
  o_created_at_unix_ms :: "i64 option"
  o_modified_at_unix_ms :: "i64 option"
  o_hidden :: bool
  o_availability :: Availability
  o_tombstoned :: bool
  o_observation_generation :: i64

record link_row =
  l_file_link_id :: FileLinkId
  l_object :: FileKey
  l_parent :: "FileKey option"
  l_name :: string
  l_traversal_boundary :: bool
  l_observation_generation :: i64

datatype job_state = Pending | Done

record path_job_row =
  j_job_id :: i64
  j_root :: FileKey
  j_enqueued_generation :: i64
  j_state :: job_state
  j_cursor :: "FileLinkId option"

record volume_job_row =
  vj_volume_id :: VolumeId
  vj_enqueued_generation :: i64
  vj_cursor :: "FileLinkId option"
  vj_state :: job_state

record document_row =
  d_document_id :: DocumentId
  d_object :: FileKey
  d_file_link_id :: FileLinkId
  d_document_version :: i64
  d_document_json :: string
  d_projection_path :: "string option"
  d_projection_fingerprint :: "bytes option"

record outbox_row =
  ob_sequence :: i64
  ob_document_id :: DocumentId
  ob_document_version :: i64
  ob_mutation_json :: string

record consumer_row =
  c_consumer_id :: string
  c_last_sequence :: i64
  c_index_generation :: i64

record session_row =
  s_volume_id :: VolumeId
  s_scan_generation :: i64
  s_scan_mode :: ObservationScanMode
  s_phase :: ObservationScanPhase
  s_final_provider_id :: "string option"
  s_final_format_version :: "i64 option"
  s_final_checkpoint :: "bytes option"

text \<open>\<open>outbox_seq\<close> is the outbox's row of \<open>sqlite_sequence\<close>, absent before the first insert.\<close>

record graph_db =
  graph_volumes :: "volume_row list"
  graph_provider_checkpoints :: "checkpoint_row list"
  graph_file_objects :: "object_row list"
  graph_file_links :: "link_row list"
  graph_path_refresh_jobs :: "path_job_row list"
  graph_volume_projection_refresh_jobs :: "volume_job_row list"
  graph_catalog_documents :: "document_row list"
  graph_projection_outbox :: "outbox_row list"
  outbox_seq :: "i64 option"
  graph_projection_consumers :: "consumer_row list"
  graph_volume_observation_sessions :: "session_row list"

definition empty_db :: graph_db where
  "empty_db = \<lparr>graph_volumes = [], graph_provider_checkpoints = [], graph_file_objects = [],
     graph_file_links = [], graph_path_refresh_jobs = [],
     graph_volume_projection_refresh_jobs = [], graph_catalog_documents = [],
     graph_projection_outbox = [], outbox_seq = None, graph_projection_consumers = [],
     graph_volume_observation_sessions = []\<rparr>"

abbreviation find_volume :: "graph_db \<Rightarrow> VolumeId \<Rightarrow> volume_row option" where
  "find_volume db v \<equiv> tbl_find v_volume_id v (graph_volumes db)"
abbreviation find_object :: "graph_db \<Rightarrow> FileKey \<Rightarrow> object_row option" where
  "find_object db k \<equiv> tbl_find o_key k (graph_file_objects db)"
abbreviation find_link :: "graph_db \<Rightarrow> FileLinkId \<Rightarrow> link_row option" where
  "find_link db l \<equiv> tbl_find l_file_link_id l (graph_file_links db)"
abbreviation find_document :: "graph_db \<Rightarrow> DocumentId \<Rightarrow> document_row option" where
  "find_document db d \<equiv> tbl_find d_document_id d (graph_catalog_documents db)"
abbreviation find_session :: "graph_db \<Rightarrow> VolumeId \<Rightarrow> session_row option" where
  "find_session db v \<equiv> tbl_find s_volume_id v (graph_volume_observation_sessions db)"
abbreviation find_checkpoint :: "graph_db \<Rightarrow> VolumeId \<Rightarrow> checkpoint_row option" where
  "find_checkpoint db v \<equiv> tbl_find cp_volume_id v (graph_provider_checkpoints db)"
abbreviation find_consumer :: "graph_db \<Rightarrow> string \<Rightarrow> consumer_row option" where
  "find_consumer db c \<equiv> tbl_find c_consumer_id c (graph_projection_consumers db)"
abbreviation find_volume_job :: "graph_db \<Rightarrow> VolumeId \<Rightarrow> volume_job_row option" where
  "find_volume_job db v \<equiv> tbl_find vj_volume_id v (graph_volume_projection_refresh_jobs db)"

section \<open>Conflict clauses\<close>

definition volume_merge :: "volume_row \<Rightarrow> volume_row \<Rightarrow> volume_row" where
  "volume_merge new old = old\<lparr>v_display_name := v_display_name new,
     v_mount_points := v_mount_points new, v_filesystem := v_filesystem new,
     v_removable := v_removable new, v_local := v_local new, v_state := v_state new,
     v_reconciliation_reason := None\<rparr>"

definition object_merge :: "object_row \<Rightarrow> object_row \<Rightarrow> object_row" where
  "object_merge new old = old\<lparr>o_kind := o_kind new, o_size := o_size new,
     o_created_at_unix_ms := o_created_at_unix_ms new,
     o_modified_at_unix_ms := o_modified_at_unix_ms new, o_hidden := o_hidden new,
     o_availability := o_availability new, o_tombstoned := False,
     o_observation_generation := o_observation_generation new\<rparr>"

definition link_merge :: "link_row \<Rightarrow> link_row \<Rightarrow> link_row" where
  "link_merge new old = old\<lparr>l_parent := l_parent new, l_name := l_name new,
     l_traversal_boundary := l_traversal_boundary new,
     l_observation_generation := l_observation_generation new\<rparr>"

definition volume_job_merge :: "volume_job_row \<Rightarrow> volume_job_row \<Rightarrow> volume_job_row" where
  "volume_job_merge new old = old\<lparr>vj_enqueued_generation := vj_enqueued_generation new,
     vj_cursor := None, vj_state := Pending\<rparr>"

definition checkpoint_merge :: "checkpoint_row \<Rightarrow> checkpoint_row \<Rightarrow> checkpoint_row" where
  "checkpoint_merge new old = old\<lparr>cp_provider_id := cp_provider_id new,
     cp_format_version := cp_format_version new, cp_opaque := cp_opaque new\<rparr>"

section \<open>Statements\<close>

definition upsert_volume :: "graph_db \<Rightarrow> VolumeDescriptor \<Rightarrow> graph_db" where
  "upsert_volume db d = db\<lparr>graph_volumes := tbl_upsert v_volume_id volume_merge
     \<lparr>v_volume_id = vd_volume_id d, v_display_name = vd_display_name d,
      v_mount_points = vd_mount_points d, v_filesystem = vd_filesystem d,
      v_removable = vd_removable d, v_local = vd_local d, v_state = VolumeOnline,
      v_reconciliation_reason = None, v_generation = 0\<rparr> (graph_volumes db)\<rparr>"

definition object_row_of :: "FileObjectSnapshot \<Rightarrow> i64 \<Rightarrow> i64 \<Rightarrow> object_row" where
  "object_row_of obj sz generation =
     \<lparr>o_key = obj_object_key obj, o_kind = md_kind (obj_metadata obj), o_size = sz,
      o_created_at_unix_ms = md_created_at_unix_ms (obj_metadata obj),
      o_modified_at_unix_ms = md_modified_at_unix_ms (obj_metadata obj),
      o_hidden = md_hidden (obj_metadata obj),
      o_availability = md_availability (obj_metadata obj), o_tombstoned = False,
      o_observation_generation = generation\<rparr>"

definition upsert_object :: "graph_db \<Rightarrow> FileObjectSnapshot \<Rightarrow> i64 \<Rightarrow> graph_db graph_result" where
  "upsert_object db obj generation =
     and_then (ok_or (i64_try_from_u64 (md_size (obj_metadata obj))) (NumericRange ''file size'')) (\<lambda>sz.
     if find_volume db (fk_volume_id (obj_object_key obj)) = None
     then Inl (Sqlite ConstraintForeignKey)
     else Inr (db\<lparr>graph_file_objects :=
       tbl_upsert o_key object_merge (object_row_of obj sz generation) (graph_file_objects db)\<rparr>))"

definition require_single_update :: "nat \<Rightarrow> string \<Rightarrow> unit graph_result" where
  "require_single_update updated message =
     (if updated = 1 then Inr () else Inl (Invariant message))"

definition is_directory :: "graph_db \<Rightarrow> FileKey \<Rightarrow> bool graph_result" where
  "is_directory db obj =
     (case find_object db obj of
        None \<Rightarrow> Inl (Invariant ''directory check references unknown object'')
      | Some row \<Rightarrow> Inr (file_kind_code (o_kind row) = file_kind_code Directory))"

text \<open>\<open>INSERT OR IGNORE\<close> against the partial unique index on pending roots; the new row id is
  one more than the largest in use.\<close>

definition enqueue_refresh :: "graph_db \<Rightarrow> FileKey \<Rightarrow> i64 \<Rightarrow> (graph_db \<times> nat) graph_result" where
  "enqueue_refresh db obj generation =
     (if \<exists>j \<in> set (graph_path_refresh_jobs db). j_root j = obj \<and> j_state j = Pending
      then Inr (db, 0)
      else if find_object db obj = None then Inl (Sqlite ConstraintForeignKey)
      else Inr (db\<lparr>graph_path_refresh_jobs := graph_path_refresh_jobs db @
        [\<lparr>j_job_id = foldr max (map j_job_id (graph_path_refresh_jobs db)) 0 + 1, j_root = obj,
          j_enqueued_generation = generation, j_state = Pending, j_cursor = None\<rparr>]\<rparr>, 1))"

definition enqueue_volume_projection_refresh ::
    "graph_db \<Rightarrow> VolumeId \<Rightarrow> i64 \<Rightarrow> (graph_db \<times> nat) graph_result" where
  "enqueue_volume_projection_refresh db v generation =
     (if find_volume db v = None then Inl (Sqlite ConstraintForeignKey)
      else Inr (db\<lparr>graph_volume_projection_refresh_jobs :=
        tbl_upsert vj_volume_id volume_job_merge
          \<lparr>vj_volume_id = v, vj_enqueued_generation = generation, vj_cursor = None,
           vj_state = Pending\<rparr> (graph_volume_projection_refresh_jobs db)\<rparr>, 1))"

text \<open>The namespace slot of a link: the partial unique indexes allow one link per slot.\<close>

definition same_slot :: "VolumeId \<Rightarrow> FileKey option \<Rightarrow> string \<Rightarrow> link_row \<Rightarrow> bool" where
  "same_slot v parent name row \<longleftrightarrow> l_name row = name \<and> l_parent row = parent
     \<and> (parent = None \<longrightarrow> fk_volume_id (l_object row) = v)"

definition stale_observation_link_conflicts ::
    "graph_db \<Rightarrow> FileLinkSnapshot \<Rightarrow> (FileLinkId \<times> FileKey) list" where
  "stale_observation_link_conflicts db link =
     (case find (\<lambda>s. s_volume_id s = fk_volume_id (lnk_object_key link) \<and> s_phase s = Scanning)
             (graph_volume_observation_sessions db) of
        None \<Rightarrow> []
      | Some session \<Rightarrow>
          let cutoff = s_scan_generation session
          in (case find_link db (lnk_file_link_id link) of
                None \<Rightarrow> []
              | Some old \<Rightarrow>
                  if l_object old \<noteq> lnk_object_key link \<and> l_observation_generation old < cutoff
                  then [(lnk_file_link_id link, l_object old)] else [])
             @ (case find (\<lambda>row. same_slot (fk_volume_id (lnk_object_key link))
                            (lnk_parent_key link) (lnk_name link) row
                          \<and> l_file_link_id row \<noteq> lnk_file_link_id link
                          \<and> l_observation_generation row < cutoff) (graph_file_links db) of
                  None \<Rightarrow> []
                | Some row \<Rightarrow> [(l_file_link_id row, l_object row)]))"

definition set_tombstoned :: "graph_db \<Rightarrow> FileKey \<Rightarrow> bool \<Rightarrow> graph_db" where
  "set_tombstoned db obj b = db\<lparr>graph_file_objects :=
     tbl_update (\<lambda>r. o_key r = obj) (\<lambda>r. r\<lparr>o_tombstoned := b\<rparr>) (graph_file_objects db)\<rparr>"

definition remove_link_internal ::
    "graph_db \<Rightarrow> FileLinkId \<Rightarrow> FileKey \<Rightarrow> i64 \<Rightarrow> bool \<Rightarrow> (graph_db \<times> nat) graph_result" where
  "remove_link_internal db link expected generation refresh_directory_paths =
     (case find_link db link of
        None \<Rightarrow> Inr (db, 0)
      | Some row \<Rightarrow>
          if l_object row \<noteq> expected
          then Inl (Invariant ''link removal object identity does not match durable state'')
          else and_then (is_directory db expected) (\<lambda>directory.
            let db1 = db\<lparr>graph_file_links :=
                  tbl_delete (\<lambda>r. l_file_link_id r = link) (graph_file_links db)\<rparr>;
                remaining = tbl_count (\<lambda>r. l_object r = expected) (graph_file_links db1);
                db2 = (if remaining = 0 then set_tombstoned db1 expected True else db1)
            in if directory \<and> refresh_directory_paths then enqueue_refresh db2 expected generation
               else Inr (db2, 0)))"

definition remove_link ::
    "graph_db \<Rightarrow> FileLinkId \<Rightarrow> FileKey \<Rightarrow> i64 \<Rightarrow> (graph_db \<times> nat) graph_result" where
  "remove_link db link expected generation = remove_link_internal db link expected generation True"

definition remove_stale_conflicts ::
    "graph_db \<Rightarrow> (FileLinkId \<times> FileKey) list \<Rightarrow> i64 \<Rightarrow> graph_db graph_result" where
  "remove_stale_conflicts db conflicts generation =
     fold_r (\<lambda>db' (stale_link, stale_object).
       and_then (remove_link_internal db' stale_link stale_object generation False)
         (\<lambda>(db'', _). Inr db'')) db conflicts"

definition link_row_of :: "FileLinkSnapshot \<Rightarrow> bool \<Rightarrow> i64 \<Rightarrow> link_row" where
  "link_row_of link boundary generation =
     \<lparr>l_file_link_id = lnk_file_link_id link, l_object = lnk_object_key link,
      l_parent = lnk_parent_key link, l_name = lnk_name link, l_traversal_boundary = boundary,
      l_observation_generation = generation\<rparr>"

definition insert_link :: "graph_db \<Rightarrow> FileLinkSnapshot \<Rightarrow> bool \<Rightarrow> i64 \<Rightarrow> graph_db graph_result" where
  "insert_link db link boundary generation =
     (if \<exists>row \<in> set (graph_file_links db). l_file_link_id row \<noteq> lnk_file_link_id link
           \<and> same_slot (fk_volume_id (lnk_object_key link)) (lnk_parent_key link) (lnk_name link) row
      then Inl (Sqlite ConstraintUnique)
      else Inr (db\<lparr>graph_file_links :=
        tbl_upsert l_file_link_id link_merge (link_row_of link boundary generation) (graph_file_links db)\<rparr>))"

text \<open>The check of an existing link row: its object is fixed, and a directory that moves or is
  renamed queues a refresh of the paths below it.\<close>

definition link_change_refresh ::
    "graph_db \<Rightarrow> FileLinkSnapshot \<Rightarrow> i64 \<Rightarrow> (graph_db \<times> nat) graph_result" where
  "link_change_refresh db link generation =
     (case find_link db (lnk_file_link_id link) of
        None \<Rightarrow> Inr (db, 0)
      | Some old \<Rightarrow>
          if l_object old \<noteq> lnk_object_key link
          then Inl (Invariant ''a file-link ID cannot be rebound to another object'')
          else if lnk_parent_key link \<noteq> l_parent old \<or> l_name old \<noteq> lnk_name link
          then and_then (is_directory db (lnk_object_key link)) (\<lambda>directory.
                 if directory then enqueue_refresh db (lnk_object_key link) generation
                 else Inr (db, 0))
          else Inr (db, 0))"

definition upsert_link ::
    "graph_db \<Rightarrow> FileLinkSnapshot \<Rightarrow> bool \<Rightarrow> i64 \<Rightarrow> (graph_db \<times> nat) graph_result" where
  "upsert_link db link boundary generation =
     (if find_object db (lnk_object_key link) = None
      then Inl (Invariant ''link observation precedes its physical object'')
      else
        and_then (remove_stale_conflicts db (stale_observation_link_conflicts db link) generation) (\<lambda>db1.
        and_then (link_change_refresh db1 link generation) (\<lambda>(db2, refresh_jobs).
        and_then (insert_link db2 link boundary generation) (\<lambda>db3.
        Inr (set_tombstoned db3 (lnk_object_key link) False, refresh_jobs)))))"

definition tombstone_object :: "graph_db \<Rightarrow> FileKey \<Rightarrow> graph_db graph_result" where
  "tombstone_object db obj =
     (if tbl_count (\<lambda>r. l_object r = obj) (graph_file_links db) \<noteq> 0
      then Inl (Invariant ''object cannot be tombstoned while namespace links remain'')
      else and_then (require_single_update (tbl_count (\<lambda>r. o_key r = obj) (graph_file_objects db))
                       ''object tombstone references an unknown object'')
             (\<lambda>_. Inr (set_tombstoned db obj True)))"

definition set_volume_state :: "graph_db \<Rightarrow> VolumeId \<Rightarrow> VolumeState \<Rightarrow> graph_db graph_result" where
  "set_volume_state db v state =
     and_then (require_single_update (tbl_count (\<lambda>r. v_volume_id r = v) (graph_volumes db))
                 ''volume state update references an unknown volume'')
       (\<lambda>_. Inr (db\<lparr>graph_volumes :=
          tbl_update (\<lambda>r. v_volume_id r = v) (\<lambda>r. r\<lparr>v_state := state\<rparr>) (graph_volumes db)\<rparr>))"

definition require_reconciliation ::
    "graph_db \<Rightarrow> VolumeId \<Rightarrow> ReconciliationReason \<Rightarrow> graph_db graph_result" where
  "require_reconciliation db v reason =
     and_then (require_single_update (tbl_count (\<lambda>r. v_volume_id r = v) (graph_volumes db))
                 ''reconciliation references an unknown volume'')
       (\<lambda>_. Inr (db\<lparr>graph_volumes := tbl_update (\<lambda>r. v_volume_id r = v)
          (\<lambda>r. r\<lparr>v_state := NeedsReconciliation, v_reconciliation_reason := Some reason\<rparr>)
          (graph_volumes db)\<rparr>))"

fun apply_mutation :: "graph_db \<Rightarrow> GraphMutation \<Rightarrow> i64 \<Rightarrow> (graph_db \<times> nat) graph_result" where
  "apply_mutation db (UpsertVolume d) generation = Inr (upsert_volume db d, 0)"
| "apply_mutation db (SetVolumeState v state) generation =
     and_then (set_volume_state db v state)
       (\<lambda>db'. enqueue_volume_projection_refresh db' v generation)"
| "apply_mutation db (UpsertObject obj) generation =
     and_then (upsert_object db obj generation) (\<lambda>db'. Inr (db', 0))"
| "apply_mutation db (UpsertLink link boundary) generation = upsert_link db link boundary generation"
| "apply_mutation db (RemoveLink link obj) generation = remove_link db link obj generation"
| "apply_mutation db (TombstoneObject obj) generation =
     and_then (tombstone_object db obj) (\<lambda>db'. Inr (db', 0))"
| "apply_mutation db (RequireReconciliation v reason) generation =
     and_then (require_reconciliation db v reason)
       (\<lambda>db'. enqueue_volume_projection_refresh db' v generation)"

section \<open>The table contracts\<close>

interpretation volumes_table: sql_table v_volume_id volume_merge
  by unfold_locales (simp add: volume_merge_def)

interpretation objects_table: sql_table o_key object_merge
  by unfold_locales (simp add: object_merge_def)

interpretation links_table: sql_table l_file_link_id link_merge
  by unfold_locales (simp add: link_merge_def)

interpretation volume_jobs_table: sql_table vj_volume_id volume_job_merge
  by unfold_locales (simp add: volume_job_merge_def)

interpretation checkpoints_table: sql_table cp_volume_id checkpoint_merge
  by unfold_locales (simp add: checkpoint_merge_def)

section \<open>Schema constraints\<close>

text \<open>Primary keys, and the partial unique index on pending path refreshes.\<close>

definition keys_ok :: "graph_db \<Rightarrow> bool" where
  "keys_ok db \<longleftrightarrow>
     distinct (map v_volume_id (graph_volumes db))
   \<and> distinct (map cp_volume_id (graph_provider_checkpoints db))
   \<and> distinct (map o_key (graph_file_objects db))
   \<and> distinct (map l_file_link_id (graph_file_links db))
   \<and> distinct (map j_root (filter (\<lambda>j. j_state j = Pending) (graph_path_refresh_jobs db)))
   \<and> distinct (map j_job_id (graph_path_refresh_jobs db))
   \<and> distinct (map vj_volume_id (graph_volume_projection_refresh_jobs db))
   \<and> distinct (map d_document_id (graph_catalog_documents db))
   \<and> distinct (map d_file_link_id (graph_catalog_documents db))
   \<and> distinct (map c_consumer_id (graph_projection_consumers db))
   \<and> distinct (map s_volume_id (graph_volume_observation_sessions db))"

text \<open>The two unique indexes on link names: no two links share a namespace slot.\<close>

definition slots_ok :: "graph_db \<Rightarrow> bool" where
  "slots_ok db \<longleftrightarrow> (\<forall>a \<in> set (graph_file_links db). \<forall>b \<in> set (graph_file_links db).
     same_slot (fk_volume_id (l_object a)) (l_parent a) (l_name a) b
       \<longrightarrow> l_file_link_id a = l_file_link_id b)"

definition fk_ok :: "graph_db \<Rightarrow> bool" where
  "fk_ok db \<longleftrightarrow>
     (\<forall>r \<in> set (graph_file_objects db). find_volume db (fk_volume_id (o_key r)) \<noteq> None)
   \<and> (\<forall>r \<in> set (graph_provider_checkpoints db). find_volume db (cp_volume_id r) \<noteq> None)
   \<and> (\<forall>r \<in> set (graph_volume_projection_refresh_jobs db). find_volume db (vj_volume_id r) \<noteq> None)
   \<and> (\<forall>r \<in> set (graph_volume_observation_sessions db). find_volume db (s_volume_id r) \<noteq> None)
   \<and> (\<forall>r \<in> set (graph_path_refresh_jobs db). find_object db (j_root r) \<noteq> None)
   \<and> (\<forall>r \<in> set (graph_catalog_documents db). find_object db (d_object r) \<noteq> None)"

text \<open>Every link names a stored object, and that object is not tombstoned.\<close>

definition live_links :: "graph_db \<Rightarrow> bool" where
  "live_links db \<longleftrightarrow> (\<forall>r \<in> set (graph_file_links db).
     \<exists>obj. find_object db (l_object r) = Some obj \<and> \<not> o_tombstoned obj)"

definition schema_ok :: "graph_db \<Rightarrow> bool" where
  "schema_ok db \<longleftrightarrow> keys_ok db \<and> slots_ok db \<and> fk_ok db \<and> live_links db"

lemma schema_ok_empty: "schema_ok empty_db"
  by (simp add: schema_ok_def keys_ok_def slots_ok_def fk_ok_def live_links_def empty_db_def)

subsection \<open>Lookups after statements\<close>

lemma find_volume_upsert_volume:
  "find_volume (upsert_volume db d) v = None \<longleftrightarrow> v \<noteq> vd_volume_id d \<and> find_volume db v = None"
  by (simp add: upsert_volume_def volumes_table.find_upsert)

lemma find_object_set_tombstoned:
  "find_object (set_tombstoned db k b) k' =
     map_option (\<lambda>r. if k' = k then r\<lparr>o_tombstoned := b\<rparr> else r) (find_object db k')"
proof -
  have "find_object (set_tombstoned db k b) k' =
      map_option (\<lambda>r. if o_key r = k then r\<lparr>o_tombstoned := b\<rparr> else r) (find_object db k')"
    unfolding set_tombstoned_def by (simp add: tbl_find_update)
  then show ?thesis
    by (cases "find_object db k'") (auto dest: tbl_find_Some)
qed

lemma set_tombstoned_frame [simp]:
  "graph_volumes (set_tombstoned db k b) = graph_volumes db"
  "graph_provider_checkpoints (set_tombstoned db k b) = graph_provider_checkpoints db"
  "graph_file_links (set_tombstoned db k b) = graph_file_links db"
  "graph_path_refresh_jobs (set_tombstoned db k b) = graph_path_refresh_jobs db"
  "graph_volume_projection_refresh_jobs (set_tombstoned db k b) = graph_volume_projection_refresh_jobs db"
  "graph_catalog_documents (set_tombstoned db k b) = graph_catalog_documents db"
  "graph_projection_outbox (set_tombstoned db k b) = graph_projection_outbox db"
  "outbox_seq (set_tombstoned db k b) = outbox_seq db"
  "graph_projection_consumers (set_tombstoned db k b) = graph_projection_consumers db"
  "graph_volume_observation_sessions (set_tombstoned db k b) = graph_volume_observation_sessions db"
  by (simp_all add: set_tombstoned_def)

lemma set_tombstoned_keys [simp]:
  "map o_key (graph_file_objects (set_tombstoned db k b)) = map o_key (graph_file_objects db)"
  by (simp add: set_tombstoned_def map_key_update)

lemma set_tombstoned_keys_image:
  "o_key ` set (graph_file_objects (set_tombstoned db k b)) = o_key ` set (graph_file_objects db)"
  by (metis set_tombstoned_keys list.set_map)

lemma keys_ok_set_tombstoned [simp]: "keys_ok (set_tombstoned db k b) = keys_ok db"
  by (simp add: keys_ok_def)

lemma slots_ok_set_tombstoned [simp]: "slots_ok (set_tombstoned db k b) = slots_ok db"
  by (simp add: slots_ok_def)

lemma fk_ok_set_tombstoned: "fk_ok db \<Longrightarrow> fk_ok (set_tombstoned db k b)"
proof -
  assume "fk_ok db"
  moreover have "find_volume db (fk_volume_id (o_key r)) \<noteq> None"
    if "r \<in> set (graph_file_objects (set_tombstoned db k b))" for r
  proof -
    have "o_key r \<in> o_key ` set (graph_file_objects db)"
      using that set_tombstoned_keys_image by blast
    with \<open>fk_ok db\<close> show ?thesis by (auto simp: fk_ok_def)
  qed
  ultimately show ?thesis by (auto simp: fk_ok_def find_object_set_tombstoned)
qed

lemma live_links_set_tombstoned:
  assumes "live_links db" and "b \<Longrightarrow> \<forall>r \<in> set (graph_file_links db). l_object r \<noteq> k"
  shows "live_links (set_tombstoned db k b)"
  using assms by (cases b) (fastforce simp: live_links_def find_object_set_tombstoned)+

lemma schema_ok_set_tombstoned:
  assumes "schema_ok db" and "b \<Longrightarrow> \<forall>r \<in> set (graph_file_links db). l_object r \<noteq> k"
  shows "schema_ok (set_tombstoned db k b)"
  using assms by (simp add: schema_ok_def fk_ok_set_tombstoned live_links_set_tombstoned)

subsection \<open>Each statement keeps the schema\<close>

lemma schema_ok_upsert_volume: "schema_ok db \<Longrightarrow> schema_ok (upsert_volume db d)"
  by (auto simp: schema_ok_def keys_ok_def slots_ok_def fk_ok_def live_links_def upsert_volume_def
      volumes_table.distinct_upsert volumes_table.find_upsert)

lemma schema_ok_upsert_object:
  assumes "schema_ok db" and "upsert_object db obj g = Inr db'"
  shows "schema_ok db'"
proof -
  obtain sz where "db' = db\<lparr>graph_file_objects :=
        tbl_upsert o_key object_merge (object_row_of obj sz g) (graph_file_objects db)\<rparr>"
      "find_volume db (fk_volume_id (obj_object_key obj)) \<noteq> None"
    using assms(2) by (auto simp: upsert_object_def result_simps split: if_splits)
  moreover define row where "row = object_row_of obj sz g"
  ultimately have row: "o_key row = obj_object_key obj" "\<not> o_tombstoned row"
      "db' = db\<lparr>graph_file_objects := tbl_upsert o_key object_merge row (graph_file_objects db)\<rparr>"
      "find_volume db (fk_volume_id (o_key row)) \<noteq> None"
    by (simp_all add: object_row_of_def)
  have keys: "keys_ok db'" "slots_ok db'"
    using assms(1) row by (simp_all add: schema_ok_def keys_ok_def slots_ok_def objects_table.distinct_upsert)
  have found: "find_object db' k \<noteq> None" if "find_object db k \<noteq> None" for k
    using that row by (simp add: objects_table.find_upsert)
  have "fk_ok db'"
    using assms(1) row found
    by (auto simp: schema_ok_def fk_ok_def dest!: objects_table.in_upsert) (auto simp: object_merge_def)
  moreover have "live_links db'"
    using assms(1) row
    by (fastforce simp: schema_ok_def live_links_def objects_table.find_upsert object_merge_def
        split: option.splits)
  ultimately show ?thesis using keys by (simp add: schema_ok_def)
qed

lemma job_id_bound: "j \<in> set jobs \<Longrightarrow> j_job_id j \<le> foldr max (map j_job_id jobs) 0"
  by (induction jobs) (auto simp: le_max_iff_disj)

lemma schema_ok_enqueue_refresh:
  assumes "schema_ok db" and "enqueue_refresh db obj g = Inr (db', n)"
  shows "schema_ok db'"
  using assms job_id_bound [of _ "graph_path_refresh_jobs db"]
  by (fastforce simp: enqueue_refresh_def schema_ok_def keys_ok_def slots_ok_def fk_ok_def live_links_def
      split: if_splits)

lemma schema_ok_enqueue_volume:
  assumes "schema_ok db" and "enqueue_volume_projection_refresh db v g = Inr (db', n)"
  shows "schema_ok db'"
  using assms
  by (auto simp: enqueue_volume_projection_refresh_def schema_ok_def keys_ok_def slots_ok_def fk_ok_def
      live_links_def volume_jobs_table.distinct_upsert volume_job_merge_def
      split: if_splits dest!: volume_jobs_table.in_upsert)

lemma schema_ok_volume_update:
  assumes "schema_ok db" and "\<And>r. v_volume_id (f r) = v_volume_id r"
  shows "schema_ok (db\<lparr>graph_volumes := tbl_update p f (graph_volumes db)\<rparr>)"
  using assms
  by (auto simp: schema_ok_def keys_ok_def slots_ok_def fk_ok_def live_links_def map_key_update
      tbl_find_update)

lemma schema_ok_delete_link:
  assumes "schema_ok db"
  shows "schema_ok (db\<lparr>graph_file_links := tbl_delete p (graph_file_links db)\<rparr>)"
  using assms
  by (simp add: schema_ok_def keys_ok_def slots_ok_def fk_ok_def live_links_def distinct_tbl_delete)

lemma schema_ok_remove_link_internal:
  assumes "schema_ok db" and "remove_link_internal db l k g b = Inr (db', n)"
  shows "schema_ok db'"
proof (cases "find_link db l")
  case None
  with assms show ?thesis by (simp add: remove_link_internal_def)
next
  case (Some row)
  let ?db1 = "db\<lparr>graph_file_links := tbl_delete (\<lambda>r. l_file_link_id r = l) (graph_file_links db)\<rparr>"
  let ?db2 = "if tbl_count (\<lambda>r. l_object r = k) (graph_file_links ?db1) = 0
    then set_tombstoned ?db1 k True else ?db1"
  have "schema_ok ?db1" by (rule schema_ok_delete_link [OF assms(1)])
  then have "schema_ok ?db2"
    using schema_ok_set_tombstoned [of ?db1 True k] by (simp add: tbl_count_zero)
  moreover have "db' = ?db2 \<or> enqueue_refresh ?db2 k g = Inr (db', n)"
    using assms(2) Some by (auto simp: remove_link_internal_def result_simps Let_def split: if_splits)
  ultimately show ?thesis using schema_ok_enqueue_refresh by blast
qed

lemma schema_ok_remove_stale_conflicts:
  assumes "schema_ok db" and "remove_stale_conflicts db cs g = Inr db'"
  shows "schema_ok db'"
  using assms(2) unfolding remove_stale_conflicts_def
  by (rule fold_r_invariant [where P = schema_ok])
     (use assms(1) in \<open>auto simp: result_simps intro: schema_ok_remove_link_internal\<close>)

lemma same_slot_sym:
  "same_slot (fk_volume_id (l_object x)) (l_parent x) (l_name x) y
     \<Longrightarrow> same_slot (fk_volume_id (l_object y)) (l_parent y) (l_name y) x"
  by (auto simp: same_slot_def)

lemma schema_ok_insert_link:
  assumes "schema_ok db" and "insert_link db link b g = Inr db'"
    and "\<And>old. find_link db (lnk_file_link_id link) = Some old \<Longrightarrow> l_object old = lnk_object_key link"
    and "find_object db (lnk_object_key link) = Some obj"
  shows "schema_ok (set_tombstoned db' (lnk_object_key link) False)"
proof -
  obtain row where row: "l_file_link_id row = lnk_file_link_id link" "l_object row = lnk_object_key link"
      "l_parent row = lnk_parent_key link" "l_name row = lnk_name link"
      "db' = db\<lparr>graph_file_links := tbl_upsert l_file_link_id link_merge row (graph_file_links db)\<rparr>"
      "\<forall>r \<in> set (graph_file_links db). l_file_link_id r \<noteq> lnk_file_link_id link \<longrightarrow>
         \<not> same_slot (fk_volume_id (lnk_object_key link)) (lnk_parent_key link) (lnk_name link) r"
    using assms(2) that [of "link_row_of link b g"]
    by (auto simp: insert_link_def link_row_of_def split: if_splits)
  have merged: "l_object r = l_object row \<and> l_parent r = l_parent row \<and> l_name r = l_name row
      \<and> l_file_link_id r = l_file_link_id row \<or> r \<in> set (graph_file_links db) \<and> l_file_link_id r \<noteq> l_file_link_id row"
    if "r \<in> set (graph_file_links db')" for r
    using links_table.in_upsert [of r row "graph_file_links db"] that row assms(1,3)
    by (auto simp: link_merge_def schema_ok_def keys_ok_def tbl_find_distinct)
  have "keys_ok db'"
    using assms(1) row by (simp add: schema_ok_def keys_ok_def links_table.distinct_upsert)
  moreover have "fk_ok db'" using assms(1) row by (simp add: schema_ok_def fk_ok_def)
  moreover have "slots_ok db'"
    unfolding slots_ok_def
  proof (intro ballI impI)
    fix x y assume x: "x \<in> set (graph_file_links db')" and y: "y \<in> set (graph_file_links db')"
      and s: "same_slot (fk_volume_id (l_object x)) (l_parent x) (l_name x) y"
    have new: "l_file_link_id x = l_file_link_id row \<or> l_file_link_id y = l_file_link_id row
        \<Longrightarrow> l_file_link_id x = l_file_link_id y"
      using merged [OF x] merged [OF y] row s same_slot_sym [OF s] by (metis (no_types, lifting))
    show "l_file_link_id x = l_file_link_id y"
    proof (cases "l_file_link_id x = l_file_link_id row \<or> l_file_link_id y = l_file_link_id row")
      case False
      then have "x \<in> set (graph_file_links db)" "y \<in> set (graph_file_links db)"
        using merged [OF x] merged [OF y] by auto
      then show ?thesis using assms(1) s by (simp add: schema_ok_def slots_ok_def)
    qed (rule new)
  qed
  moreover have "live_links (set_tombstoned db' (lnk_object_key link) False)"
    unfolding live_links_def
  proof
    fix r assume "r \<in> set (graph_file_links (set_tombstoned db' (lnk_object_key link) False))"
    then have "r \<in> set (graph_file_links db')" by simp
    from merged [OF this] show "\<exists>obj. find_object (set_tombstoned db' (lnk_object_key link) False) (l_object r) = Some obj
        \<and> \<not> o_tombstoned obj"
      using assms(1,4) row by (fastforce simp: find_object_set_tombstoned schema_ok_def live_links_def)
  qed
  ultimately show ?thesis by (simp add: schema_ok_def fk_ok_set_tombstoned)
qed

lemma find_object_remove_link_internal:
  assumes "remove_link_internal db l k g b = Inr (db', n)"
  shows "find_object db' k' = None \<longleftrightarrow> find_object db k' = None"
  using assms
  by (auto simp: remove_link_internal_def enqueue_refresh_def result_simps Let_def
      find_object_set_tombstoned split: option.splits if_splits)

lemma find_object_remove_stale_conflicts:
  assumes "remove_stale_conflicts db cs g = Inr db'"
  shows "find_object db' k = None \<longleftrightarrow> find_object db k = None"
  using assms unfolding remove_stale_conflicts_def
  by (rule fold_r_invariant [where P = "\<lambda>s. find_object s k = None \<longleftrightarrow> find_object db k = None"])
     (auto simp: result_simps find_object_remove_link_internal)

lemma link_change_refresh_cases:
  assumes "link_change_refresh db link g = Inr (db', n)"
  shows "db' = db \<or> enqueue_refresh db (lnk_object_key link) g = Inr (db', n)"
    and "find_link db (lnk_file_link_id link) = Some old \<Longrightarrow> l_object old = lnk_object_key link"
  using assms by (auto simp: link_change_refresh_def result_simps split: option.splits if_splits)

lemma upsert_link_cases:
  assumes "upsert_link db link b g = Inr (db', n)"
  obtains db1 db2 db3 where "find_object db (lnk_object_key link) \<noteq> None"
    and "remove_stale_conflicts db (stale_observation_link_conflicts db link) g = Inr db1"
    and "link_change_refresh db1 link g = Inr (db2, n)"
    and "insert_link db2 link b g = Inr db3"
    and "db' = set_tombstoned db3 (lnk_object_key link) False"
  using assms by (auto simp: upsert_link_def result_simps split: if_splits)

lemma schema_ok_upsert_link:
  assumes "schema_ok db" and "upsert_link db link b g = Inr (db', n)"
  shows "schema_ok db'"
proof -
  from assms(2) obtain db1 db2 db3 where
      obj: "find_object db (lnk_object_key link) \<noteq> None"
    and db1: "remove_stale_conflicts db (stale_observation_link_conflicts db link) g = Inr db1"
    and ch: "link_change_refresh db1 link g = Inr (db2, n)"
    and db3: "insert_link db2 link b g = Inr db3"
    and db': "db' = set_tombstoned db3 (lnk_object_key link) False"
    by (rule upsert_link_cases)
  note db2 = link_change_refresh_cases [OF ch]
  have ok1: "schema_ok db1" by (rule schema_ok_remove_stale_conflicts [OF assms(1) db1])
  have ok2: "schema_ok db2" using db2(1) ok1 schema_ok_enqueue_refresh by blast
  have same: "graph_file_links db2 = graph_file_links db1" "graph_file_objects db2 = graph_file_objects db1"
    using db2(1) by (auto simp: enqueue_refresh_def split: if_splits)
  obtain o2 where o2: "find_object db2 (lnk_object_key link) = Some o2"
    using obj find_object_remove_stale_conflicts [OF db1, of "lnk_object_key link"] same by auto
  show ?thesis unfolding db'
    by (rule schema_ok_insert_link [OF ok2 db3 _ o2]) (use db2(2) same in simp)
qed

lemma schema_ok_tombstone_object:
  assumes "schema_ok db" and "tombstone_object db k = Inr db'"
  shows "schema_ok db'"
  using assms schema_ok_set_tombstoned [of db True k]
  by (auto simp: tombstone_object_def result_simps tbl_count_zero split: if_splits)

lemma schema_ok_set_volume_state:
  assumes "schema_ok db" and "set_volume_state db v s = Inr db'"
  shows "schema_ok db'"
  using assms(2) schema_ok_volume_update [OF assms(1), of "\<lambda>r. r\<lparr>v_state := s\<rparr>"]
  by (auto simp: set_volume_state_def result_simps)

lemma schema_ok_require_reconciliation:
  assumes "schema_ok db" and "require_reconciliation db v reason = Inr db'"
  shows "schema_ok db'"
  using assms(2) schema_ok_volume_update [OF assms(1),
      of "\<lambda>r. r\<lparr>v_state := NeedsReconciliation, v_reconciliation_reason := Some reason\<rparr>"]
  by (auto simp: require_reconciliation_def result_simps)

lemmas schema_ok_statements =
  schema_ok_upsert_volume schema_ok_upsert_object schema_ok_upsert_link
  schema_ok_remove_link_internal schema_ok_tombstone_object schema_ok_set_volume_state
  schema_ok_require_reconciliation schema_ok_enqueue_volume

lemma schema_ok_apply_mutation:
  assumes "schema_ok db" and "apply_mutation db m g = Inr (db', n)"
  shows "schema_ok db'"
  using assms
  by (cases m) (auto simp: result_simps remove_link_def dest: schema_ok_statements)

subsection \<open>What link statements can change\<close>

text \<open>
  The link statements write three tables: links, the tombstone column of objects, and the path
  refresh queue. A predicate that does not depend on those survives them.
\<close>

locale link_statement_invariant =
  fixes P :: "graph_db \<Rightarrow> bool"
  assumes keeps_links: "P db \<Longrightarrow> P (db\<lparr>graph_file_links := ls\<rparr>)"
    and keeps_tombstone: "P db \<Longrightarrow> P (set_tombstoned db k b)"
    and keeps_refresh_jobs: "P db \<Longrightarrow> P (db\<lparr>graph_path_refresh_jobs := js\<rparr>)"
begin

lemma keeps_enqueue_refresh: "P db \<Longrightarrow> enqueue_refresh db k g = Inr (db', n) \<Longrightarrow> P db'"
  by (auto simp: enqueue_refresh_def keeps_refresh_jobs split: if_splits)

lemma keeps_remove_link_internal:
  assumes "P db" and "remove_link_internal db l k g b = Inr (db', n)"
  shows "P db'"
proof (cases "find_link db l")
  case None
  with assms show ?thesis by (simp add: remove_link_internal_def)
next
  case (Some row)
  let ?db1 = "db\<lparr>graph_file_links := tbl_delete (\<lambda>r. l_file_link_id r = l) (graph_file_links db)\<rparr>"
  let ?db2 = "if tbl_count (\<lambda>r. l_object r = k) (graph_file_links ?db1) = 0
    then set_tombstoned ?db1 k True else ?db1"
  have "P ?db2" using assms(1) by (simp add: keeps_links keeps_tombstone)
  moreover have "db' = ?db2 \<or> enqueue_refresh ?db2 k g = Inr (db', n)"
    using assms(2) Some by (auto simp: remove_link_internal_def result_simps Let_def split: if_splits)
  ultimately show ?thesis using keeps_enqueue_refresh by blast
qed

lemma keeps_remove_stale_conflicts:
  assumes "P db" and "remove_stale_conflicts db cs g = Inr db'"
  shows "P db'"
  using assms(2) unfolding remove_stale_conflicts_def
  by (rule fold_r_invariant [where P = P])
     (use assms(1) in \<open>auto simp: result_simps intro: keeps_remove_link_internal\<close>)

lemma keeps_upsert_link:
  assumes "P db" and "upsert_link db link b g = Inr (db', n)"
  shows "P db'"
proof -
  from assms(2) obtain db1 db2 db3 where
      db1: "remove_stale_conflicts db (stale_observation_link_conflicts db link) g = Inr db1"
    and ch: "link_change_refresh db1 link g = Inr (db2, n)"
    and db3: "insert_link db2 link b g = Inr db3"
    and db': "db' = set_tombstoned db3 (lnk_object_key link) False"
    by (rule upsert_link_cases)
  have "P db1" by (rule keeps_remove_stale_conflicts [OF assms(1) db1])
  then have "P db2" using link_change_refresh_cases(1) [OF ch] keeps_enqueue_refresh by blast
  then have "P db3" using db3 by (auto simp: insert_link_def keeps_links split: if_splits)
  then show ?thesis by (simp add: db' keeps_tombstone)
qed

end

end
