(* ===== verification/Graph_Projection.thy ===== *)
theory Graph_Projection
  imports Graph_Store
begin

text \<open>
  The catalog projection of the durable graph (\<open>crates/filesystem-graph/src/store.rs\<close>): path
  resolution over parent objects, the desired catalog document of a link, its content fingerprint,
  the synchronisation of one link's desired state with the projection outbox, and the readers of
  desired state.

  Code outside the repository is a field of the record \<open>graph_env\<close>: \<open>serde_json\<close> serialisation and
  parsing, the \<open>sha2\<close> digest, and the Unicode case table behind \<open>str::to_lowercase\<close>.

  Shown: \<open>resolve_path\<close> returns a path exactly when the chain of unique parents reaches a root within
  the depth limit, and each of its errors means what its name says; synchronising a link makes its
  desired state agree with the graph; replaying the rows it appends to the outbox keeps an index in
  step with desired state.
\<close>

section \<open>Code outside the repository\<close>

type_synonym catalog_content = "CatalogIdentity \<times> string \<times> string \<times> string option \<times> FileMetadata"

record graph_env =
  env_to_lowercase :: "string \<Rightarrow> string"
  env_content_json :: "catalog_content \<Rightarrow> bytes option"
  env_sha256 :: "bytes \<Rightarrow> bytes"
  env_mutation_to_json :: "IndexMutation \<Rightarrow> string option"
  env_mutation_from_json :: "string \<Rightarrow> IndexMutation option"
  env_document_from_json :: "string \<Rightarrow> CatalogDocument option"

text \<open>What the projection relies on: parsing inverts serialisation of a mutation.\<close>

definition json_round_trip :: "graph_env \<Rightarrow> bool" where
  "json_round_trip env \<longleftrightarrow>
     (\<forall>m s. env_mutation_to_json env m = Some s \<longrightarrow> env_mutation_from_json env s = Some m)"

section \<open>Path resolution\<close>

record StoredLink =
  sl_file_link_id :: FileLinkId
  sl_object_key :: FileKey
  sl_parent_key :: "FileKey option"
  sl_name :: string
  sl_traversal_boundary :: bool

definition stored_link_from_row :: "link_row \<Rightarrow> StoredLink" where
  "stored_link_from_row row =
     \<lparr>sl_file_link_id = l_file_link_id row, sl_object_key = l_object row,
      sl_parent_key = l_parent row, sl_name = l_name row,
      sl_traversal_boundary = l_traversal_boundary row\<rparr>"

definition load_link :: "graph_db \<Rightarrow> FileLinkId \<Rightarrow> StoredLink option" where
  "load_link db link = map_option stored_link_from_row (find_link db link)"

definition load_only_link_for_object :: "graph_db \<Rightarrow> FileKey \<Rightarrow> StoredLink graph_result" where
  "load_only_link_for_object db obj =
     (case tbl_scan (\<lambda>r. l_object r = obj) l_file_link_id 2 (graph_file_links db) of
        [] \<Rightarrow> Inl (MissingParent obj)
      | [first] \<Rightarrow> Inr (stored_link_from_row first)
      | _ \<Rightarrow> Inl (AmbiguousParent obj))"

function resolve_loop ::
    "graph_db \<Rightarrow> nat \<Rightarrow> StoredLink \<Rightarrow> string list \<Rightarrow> FileKey set \<Rightarrow> bool \<Rightarrow> string list graph_result" where
  "resolve_loop db depth_limit current components seen is_target =
     (if depth_limit \<le> length components then Inl (DepthLimit depth_limit)
      else if sl_traversal_boundary current \<and> \<not> is_target
      then Inl (TraversalBoundary (sl_file_link_id current))
      else
        (case sl_parent_key current of
           None \<Rightarrow> Inr (rev (components @ [sl_name current]))
         | Some parent \<Rightarrow>
             if parent \<in> seen then Inl (ParentCycle parent)
             else
               (case load_only_link_for_object db parent of
                  Inl e \<Rightarrow> Inl e
                | Inr next \<Rightarrow> resolve_loop db depth_limit next (components @ [sl_name current])
                    (insert parent seen) False)))"
  by pat_completeness auto
termination
  by (relation "measure (\<lambda>(_, depth_limit, _, components, _, _). depth_limit - length components)") auto

declare resolve_loop.simps [simp del]

definition resolve_path_connection :: "graph_db \<Rightarrow> FileLinkId \<Rightarrow> nat \<Rightarrow> string list graph_result" where
  "resolve_path_connection db link depth_limit =
     (if depth_limit = 0 then Inl (DepthLimit 0)
      else and_then (ok_or (load_link db link) (LinkNotFound link)) (\<lambda>current.
        resolve_loop db depth_limit current [] {} True))"

definition resolve_path :: "graph_db \<Rightarrow> FileLinkId \<Rightarrow> nat \<Rightarrow> string list graph_result" where
  "resolve_path db link depth_limit =
     (if depth_limit = 0 then Inl (DepthLimit 0)
      else resolve_path_connection db link depth_limit)"

section \<open>Desired catalog documents\<close>

definition rsplit_once :: "char \<Rightarrow> string \<Rightarrow> (string \<times> string) option" where
  "rsplit_once c s =
     (if c \<in> set s
      then Some (rev (tl (dropWhile (\<lambda>x. x \<noteq> c) (rev s))), rev (takeWhile (\<lambda>x. x \<noteq> c) (rev s)))
      else None)"

definition extension_for_name :: "graph_env \<Rightarrow> string \<Rightarrow> string option" where
  "extension_for_name env name =
     Option.bind (rsplit_once (CHR ''.'') name)
       (\<lambda>(_, extension). if extension = [] then None else Some (env_to_lowercase env extension))"

definition volume_state :: "graph_db \<Rightarrow> VolumeId \<Rightarrow> VolumeState graph_result" where
  "volume_state db v =
     ok_or (map_option v_state (find_volume db v))
       (Invariant ''catalog object references a missing volume'')"

definition metadata_of_row :: "object_row \<Rightarrow> FileMetadata graph_result" where
  "metadata_of_row row =
     and_then (ok_or (u64_try_from_i64 (o_size row)) (Sqlite (IntegralValueOutOfRange (o_size row))))
       (\<lambda>sz. Inr \<lparr>md_kind = o_kind row, md_size = sz,
          md_created_at_unix_ms = o_created_at_unix_ms row,
          md_modified_at_unix_ms = o_modified_at_unix_ms row, md_hidden = o_hidden row,
          md_availability = o_availability row\<rparr>)"

definition load_object_metadata :: "graph_db \<Rightarrow> FileKey \<Rightarrow> FileMetadata graph_result" where
  "load_object_metadata db obj =
     (case find_object db obj of
        None \<Rightarrow> Inl (Invariant ''catalog link references a missing object'')
      | Some row \<Rightarrow>
          if o_tombstoned row then Inl (Invariant ''catalog link references a missing object'')
          else metadata_of_row row)"

fun effective_availability :: "VolumeState \<Rightarrow> Availability \<Rightarrow> Availability" where
  "effective_availability VolumeOnline a = a"
| "effective_availability VolumeOffline a = Offline"
| "effective_availability NeedsReconciliation a = UnknownAvailability"

definition document_id_for_link :: "FileLinkId \<Rightarrow> DocumentId" where
  "document_id_for_link link = Id128 (into_bytes link)"

definition build_catalog_document ::
    "graph_env \<Rightarrow> graph_db \<Rightarrow> StoredLink \<Rightarrow> u64 \<Rightarrow> CatalogDocument graph_result" where
  "build_catalog_document env db link version =
     and_then (load_object_metadata db (sl_object_key link)) (\<lambda>metadata.
     and_then (volume_state db (fk_volume_id (sl_object_key link))) (\<lambda>state.
     and_then (resolve_path_connection db (sl_file_link_id link) 512) (\<lambda>components.
     Inr \<lparr>doc_identity = \<lparr>ci_object_key = sl_object_key link,
             ci_file_link_id = sl_file_link_id link,
             ci_document_id = document_id_for_link (sl_file_link_id link)\<rparr>,
          doc_document_version = DocumentVersion version, doc_name = sl_name link,
          doc_resolved_path = display_path components,
          doc_extension = extension_for_name env (sl_name link),
          doc_metadata = metadata\<lparr>md_availability :=
            effective_availability state (md_availability metadata)\<rparr>\<rparr>)))"

definition content_of :: "CatalogDocument \<Rightarrow> catalog_content" where
  "content_of d = (doc_identity d, doc_name d, doc_resolved_path d, doc_extension d, doc_metadata d)"

definition catalog_content_equal :: "CatalogDocument \<Rightarrow> CatalogDocument \<Rightarrow> bool" where
  "catalog_content_equal left right \<longleftrightarrow> doc_identity left = doc_identity right
     \<and> doc_name left = doc_name right \<and> doc_resolved_path left = doc_resolved_path right
     \<and> doc_extension left = doc_extension right \<and> doc_metadata left = doc_metadata right"

definition catalog_content_fingerprint :: "graph_env \<Rightarrow> CatalogDocument \<Rightarrow> bytes graph_result" where
  "catalog_content_fingerprint env d =
     and_then (ok_or (env_content_json env (content_of d)) Serialization)
       (\<lambda>payload. Inr (env_sha256 env payload))"

section \<open>Outbox and desired state\<close>

datatype ProjectionOutboxMode = Durable | Rebuildable

text \<open>The row id \<open>AUTOINCREMENT\<close> assigns: one more than the largest the table holds or ever held.\<close>

definition next_outbox_sequence :: "graph_db \<Rightarrow> i64 option" where
  "next_outbox_sequence db =
     (let high = foldr max (map ob_sequence (graph_projection_outbox db))
                   (case outbox_seq db of None \<Rightarrow> 0 | Some s \<Rightarrow> s)
      in if high < i64_max then Some (high + 1) else None)"

definition append_outbox ::
    "graph_env \<Rightarrow> graph_db \<Rightarrow> DocumentId \<Rightarrow> u64 \<Rightarrow> IndexMutation \<Rightarrow> graph_db graph_result" where
  "append_outbox env db document_id document_version mutation =
     and_then (ok_or (i64_try_from_u64 document_version) (NumericRange ''document version'')) (\<lambda>version.
     and_then (ok_or (env_mutation_to_json env mutation) Serialization) (\<lambda>json.
     and_then (ok_or (next_outbox_sequence db) (Sqlite DatabaseFull)) (\<lambda>sequence.
     Inr (db\<lparr>graph_projection_outbox := graph_projection_outbox db @
               [\<lparr>ob_sequence = sequence, ob_document_id = document_id,
                 ob_document_version = version, ob_mutation_json = json\<rparr>],
             outbox_seq := Some sequence\<rparr>))))"

definition delete_catalog_projection ::
    "graph_env \<Rightarrow> graph_db \<Rightarrow> DocumentId \<Rightarrow> u64 \<Rightarrow> ProjectionOutboxMode \<Rightarrow> (graph_db \<times> nat) graph_result" where
  "delete_catalog_projection env db document_id version outbox_mode =
     (if find_document db document_id = None then Inr (db, 0)
      else
        and_then (if outbox_mode = Durable
                  then append_outbox env db document_id version
                         (Delete document_id (DocumentVersion version))
                  else Inr db) (\<lambda>db1.
        Inr (db1\<lparr>graph_catalog_documents :=
               tbl_delete (\<lambda>d. d_document_id d = document_id) (graph_catalog_documents db1)\<rparr>,
             if outbox_mode = Durable then 1 else 0)))"

definition document_merge :: "document_row \<Rightarrow> document_row \<Rightarrow> document_row" where
  "document_merge new old = old\<lparr>d_object := d_object new, d_file_link_id := d_file_link_id new,
     d_document_version := d_document_version new, d_document_json := d_document_json new,
     d_projection_path := d_projection_path new,
     d_projection_fingerprint := d_projection_fingerprint new\<rparr>"

fun unresolvable :: "GraphError \<Rightarrow> bool" where
  "unresolvable (MissingParent _) = True"
| "unresolvable (AmbiguousParent _) = True"
| "unresolvable (ParentCycle _) = True"
| "unresolvable (TraversalBoundary _) = True"
| "unresolvable (DepthLimit _) = True"
| "unresolvable _ = False"

definition content_unchanged ::
    "graph_env \<Rightarrow> document_row option \<Rightarrow> CatalogDocument \<Rightarrow> bytes \<Rightarrow> bool graph_result" where
  "content_unchanged env previous document fingerprint =
     (case previous of
        None \<Rightarrow> Inr False
      | Some row \<Rightarrow>
          (case d_projection_fingerprint row of
             Some previous_fingerprint \<Rightarrow> Inr (previous_fingerprint = fingerprint)
           | None \<Rightarrow>
               and_then (ok_or (env_document_from_json env (d_document_json row)) Serialization)
                 (\<lambda>previous_document. Inr (catalog_content_equal previous_document document))))"

text \<open>\<open>INSERT ... ON CONFLICT(document_id)\<close> with the table's other constraints: the link column is
  unique and the object must exist.\<close>

definition upsert_document :: "graph_db \<Rightarrow> document_row \<Rightarrow> graph_db graph_result" where
  "upsert_document db row =
     (if \<exists>d \<in> set (graph_catalog_documents db). d_file_link_id d = d_file_link_id row
           \<and> d_document_id d \<noteq> d_document_id row
      then Inl (Sqlite ConstraintUnique)
      else if find_object db (d_object row) = None then Inl (Sqlite ConstraintForeignKey)
      else Inr (db\<lparr>graph_catalog_documents :=
        tbl_upsert d_document_id document_merge row (graph_catalog_documents db)\<rparr>))"

definition sync_catalog_projection ::
    "graph_env \<Rightarrow> graph_db \<Rightarrow> FileLinkId \<Rightarrow> i64 \<Rightarrow> ProjectionOutboxMode \<Rightarrow> (graph_db \<times> nat) graph_result" where
  "sync_catalog_projection env db file_link_id generation outbox_mode =
     (let document_id = document_id_for_link file_link_id in
      and_then (ok_or (u64_try_from_i64 generation) (NumericRange ''document version'')) (\<lambda>version.
      case load_link db file_link_id of
        None \<Rightarrow> delete_catalog_projection env db document_id version outbox_mode
      | Some link \<Rightarrow>
          (case build_catalog_document env db link version of
             Inl e \<Rightarrow>
               if unresolvable e
               then delete_catalog_projection env db document_id version outbox_mode
               else Inl e
           | Inr document \<Rightarrow>
               and_then (catalog_content_fingerprint env document) (\<lambda>fingerprint.
               and_then (content_unchanged env (find_document db document_id) document fingerprint)
                 (\<lambda>unchanged.
               if unchanged then Inr (db, 0)
               else
                 and_then (upsert_document db
                   \<lparr>d_document_id = document_id, d_object = sl_object_key link,
                    d_file_link_id = file_link_id, d_document_version = generation,
                    d_document_json = [], d_projection_path = Some (doc_resolved_path document),
                    d_projection_fingerprint = Some fingerprint\<rparr>) (\<lambda>db1.
                 if outbox_mode = Durable
                 then and_then (append_outbox env db1 document_id version (Upsert document))
                        (\<lambda>db2. Inr (db2, 1))
                 else Inr (db1, 0)))))))"

definition projection_consumers_exist :: "graph_db \<Rightarrow> bool" where
  "projection_consumers_exist db \<longleftrightarrow> graph_projection_consumers db \<noteq> []"

subsection \<open>Readers of desired state\<close>

record StoredCatalogProjection =
  sp_document_id :: DocumentId
  sp_object_key :: FileKey
  sp_file_link_id :: FileLinkId
  sp_document_version :: u64
  sp_projection_path :: "string option"
  sp_legacy_document_json :: string
  sp_name :: string
  sp_metadata :: FileMetadata
  sp_volume_state :: VolumeState

definition into_document :: "graph_env \<Rightarrow> StoredCatalogProjection \<Rightarrow> CatalogDocument graph_result" where
  "into_document env p =
     (case sp_projection_path p of
        None \<Rightarrow> ok_or (env_document_from_json env (sp_legacy_document_json p)) Serialization
      | Some resolved_path \<Rightarrow>
          Inr \<lparr>doc_identity = \<lparr>ci_object_key = sp_object_key p, ci_file_link_id = sp_file_link_id p,
                 ci_document_id = sp_document_id p\<rparr>,
               doc_document_version = DocumentVersion (sp_document_version p), doc_name = sp_name p,
               doc_resolved_path = resolved_path, doc_extension = extension_for_name env (sp_name p),
               doc_metadata = (sp_metadata p)\<lparr>md_availability :=
                 effective_availability (sp_volume_state p) (md_availability (sp_metadata p))\<rparr>\<rparr>)"

text \<open>The joined row of a desired document: absent when the link, object or volume is.\<close>

definition joined_row ::
    "graph_db \<Rightarrow> document_row \<Rightarrow> (document_row \<times> link_row \<times> object_row \<times> volume_row) option" where
  "joined_row db d =
     (case (find_link db (d_file_link_id d), find_object db (d_object d),
            find_volume db (fk_volume_id (d_object d))) of
        (Some link, Some obj, Some vol) \<Rightarrow> Some (d, link, obj, vol)
      | _ \<Rightarrow> None)"

definition stored_catalog_projection_from_row ::
    "document_row \<times> link_row \<times> object_row \<times> volume_row \<Rightarrow> StoredCatalogProjection graph_result" where
  "stored_catalog_projection_from_row row =
     (case row of (d, link, obj, vol) \<Rightarrow>
        and_then (ok_or (u64_try_from_i64 (d_document_version d))
                    (Sqlite (IntegralValueOutOfRange (d_document_version d)))) (\<lambda>version.
        and_then (metadata_of_row obj) (\<lambda>metadata.
        Inr \<lparr>sp_document_id = d_document_id d, sp_object_key = d_object d,
             sp_file_link_id = d_file_link_id d, sp_document_version = version,
             sp_projection_path = d_projection_path d, sp_legacy_document_json = d_document_json d,
             sp_name = l_name link, sp_metadata = metadata, sp_volume_state = v_state vol\<rparr>)))"

definition decode_documents ::
    "graph_env \<Rightarrow> (document_row \<times> link_row \<times> object_row \<times> volume_row) list \<Rightarrow> CatalogDocument list graph_result" where
  "decode_documents env rows =
     fold_r (\<lambda>documents row.
       and_then (stored_catalog_projection_from_row row) (\<lambda>stored.
       and_then (into_document env stored) (\<lambda>document. Inr (documents @ [document])))) [] rows"

definition joined_rows :: "graph_db \<Rightarrow> (document_row \<times> link_row \<times> object_row \<times> volume_row) list" where
  "joined_rows db = List.map_filter (joined_row db) (graph_catalog_documents db)"

definition desired_catalog_documents :: "graph_env \<Rightarrow> graph_db \<Rightarrow> CatalogDocument list graph_result" where
  "desired_catalog_documents env db =
     decode_documents env (sort_key (d_document_id \<circ> fst) (joined_rows db))"

definition desired_catalog_page ::
    "graph_env \<Rightarrow> graph_db \<Rightarrow> DocumentId option \<Rightarrow> nat \<Rightarrow> CatalogDocument list graph_result" where
  "desired_catalog_page env db after limit =
     decode_documents env
       (case after of
          Some cursor \<Rightarrow>
            tbl_scan (\<lambda>row. cursor < d_document_id (fst row)) (d_document_id \<circ> fst) limit (joined_rows db)
        | None \<Rightarrow> tbl_scan (\<lambda>_. True) (d_document_id \<circ> fst) limit (joined_rows db))"

definition desired_catalog_document ::
    "graph_env \<Rightarrow> graph_db \<Rightarrow> DocumentId \<Rightarrow> CatalogDocument option graph_result" where
  "desired_catalog_document env db document_id =
     (case find (\<lambda>row. d_document_id (fst row) = document_id) (joined_rows db) of
        None \<Rightarrow> Inr None
      | Some row \<Rightarrow>
          and_then (stored_catalog_projection_from_row row) (\<lambda>stored.
          and_then (into_document env stored) (\<lambda>document. Inr (Some document))))"

definition desired_catalog_identities :: "graph_db \<Rightarrow> VolumeId \<Rightarrow> (FileLinkId \<times> FileKey) list" where
  "desired_catalog_identities db v =
     map (\<lambda>d. (d_file_link_id d, FileKey.make v (fk_file_id (d_object d))))
       (sort_key d_file_link_id
         (filter (\<lambda>d. fk_volume_id (d_object d) = v) (graph_catalog_documents db)))"

section \<open>Table contracts\<close>

interpretation documents_table: sql_table d_document_id document_merge
  by unfold_locales (simp add: document_merge_def)

section \<open>Path resolution is sound and complete\<close>

text \<open>The chain of links from a link to a root: each parent object has exactly one link, and no
  link above the first is a traversal boundary.\<close>

inductive parent_chain :: "graph_db \<Rightarrow> StoredLink \<Rightarrow> StoredLink list \<Rightarrow> bool" for db where
  root: "sl_parent_key l = None \<Longrightarrow> parent_chain db l [l]"
| step: "sl_parent_key l = Some p \<Longrightarrow> load_only_link_for_object db p = Inr l' \<Longrightarrow>
    \<not> sl_traversal_boundary l' \<Longrightarrow> parent_chain db l' ls \<Longrightarrow> parent_chain db l (l # ls)"

inductive_cases parent_chain_rootE: "parent_chain db l [l']"
inductive_cases parent_chainE: "parent_chain db l ls"

inductive parent_step :: "graph_db \<Rightarrow> StoredLink \<Rightarrow> StoredLink \<Rightarrow> bool" for db where
  "sl_parent_key l = Some p \<Longrightarrow> load_only_link_for_object db p = Inr l' \<Longrightarrow> parent_step db l l'"

definition chain_parents :: "StoredLink list \<Rightarrow> FileKey list" where
  "chain_parents ls = List.map_filter sl_parent_key ls"

lemma chain_parents_simps [simp]:
  "chain_parents [] = []"
  "sl_parent_key l = None \<Longrightarrow> chain_parents (l # ls) = chain_parents ls"
  "sl_parent_key l = Some p \<Longrightarrow> chain_parents (l # ls) = p # chain_parents ls"
  by (simp_all add: chain_parents_def List.map_filter_def)

lemma parent_chain_det: "parent_chain db l ls \<Longrightarrow> parent_chain db l ls' \<Longrightarrow> ls = ls'"
proof (induction arbitrary: ls' rule: parent_chain.induct)
  case (root l)
  from root.prems root.hyps show ?case by (cases rule: parent_chain.cases) auto
next
  case (step l p l' ls)
  from step.prems obtain ls2 where "ls' = l # ls2" "parent_chain db l' ls2"
    using step.hyps(1,2) by (cases rule: parent_chain.cases) simp_all
  then show ?case using step.IH by blast
qed

lemma parent_chain_shorter:
  "parent_chain db l ls \<Longrightarrow> p \<in> set (chain_parents ls) \<Longrightarrow>
     \<exists>l' ls'. load_only_link_for_object db p = Inr l' \<and> parent_chain db l' ls' \<and> length ls' < length ls"
proof (induction rule: parent_chain.induct)
  case (root l)
  then show ?case by simp
next
  case (step l q l' ls)
  show ?case
  proof (cases "p = q")
    case True
    with step.hyps show ?thesis by (intro exI [of _ l'] exI [of _ ls]) simp
  next
    case False
    with step.prems step.hyps step.IH show ?thesis using less_Suc_eq by fastforce
  qed
qed

lemma distinct_chain_parents: "parent_chain db l ls \<Longrightarrow> distinct (chain_parents ls)"
proof (induction rule: parent_chain.induct)
  case (step l p l' ls)
  have "p \<notin> set (chain_parents ls)"
  proof
    assume "p \<in> set (chain_parents ls)"
    then obtain ls' where "parent_chain db l' ls'" "length ls' < length ls"
      using parent_chain_shorter [OF step.hyps(4)] step.hyps(2) by fastforce
    then show False using parent_chain_det [OF step.hyps(4)] by auto
  qed
  with step show ?case by simp
qed simp

lemma resolve_loop_sound:
  "resolve_loop db lim cur comps seen t = Inr cs \<Longrightarrow>
     (t \<or> \<not> sl_traversal_boundary cur)
   \<and> (\<exists>ls. parent_chain db cur ls \<and> cs = rev (comps @ map sl_name ls) \<and> length comps + length ls \<le> lim)"
proof (induction db lim cur comps seen t rule: resolve_loop.induct)
  case (1 db lim cur comps seen t)
  have open_loop: "\<not> lim \<le> length comps" "t \<or> \<not> sl_traversal_boundary cur"
    using "1.prems" by (auto simp: resolve_loop.simps [of db lim cur comps seen t] split: if_splits)
  show ?case
  proof (cases "sl_parent_key cur")
    case None
    then have "cs = rev (comps @ [sl_name cur])"
      using "1.prems" open_loop by (auto simp: resolve_loop.simps [of db lim cur comps seen t])
    with None open_loop show ?thesis by (auto intro!: exI [of _ "[cur]"] parent_chain.root)
  next
    case (Some p)
    obtain l' where l': "p \<notin> seen" "load_only_link_for_object db p = Inr l'"
        "resolve_loop db lim l' (comps @ [sl_name cur]) (insert p seen) False = Inr cs"
      using "1.prems" open_loop Some
      by (auto simp: resolve_loop.simps [of db lim cur comps seen t] split: if_splits sum.splits)
    have "\<not> (sl_traversal_boundary cur \<and> \<not> t)" using open_loop by blast
    from "1.IH" [OF open_loop(1) this Some l'] obtain ls where
        "parent_chain db l' ls" "\<not> sl_traversal_boundary l'"
        "cs = rev ((comps @ [sl_name cur]) @ map sl_name ls)" "length (comps @ [sl_name cur]) + length ls \<le> lim"
      by auto
    with Some l' open_loop show ?thesis
      by (auto intro!: exI [of _ "cur # ls"] intro: parent_chain.step)
  qed
qed

lemma resolve_loop_complete:
  "parent_chain db cur ls \<Longrightarrow> t \<or> \<not> sl_traversal_boundary cur \<Longrightarrow> length comps + length ls \<le> lim \<Longrightarrow>
     seen \<inter> set (chain_parents ls) = {} \<Longrightarrow>
     resolve_loop db lim cur comps seen t = Inr (rev (comps @ map sl_name ls))"
proof (induction arbitrary: comps seen t rule: parent_chain.induct)
  case (root l)
  then show ?case by (auto simp: resolve_loop.simps [of db lim l])
next
  case (step l p l' ls)
  have "p \<notin> set (chain_parents ls)"
    using distinct_chain_parents [OF parent_chain.step [OF step.hyps]] step.hyps(1) by simp
  with step.prems step.hyps have
    "resolve_loop db lim l' (comps @ [sl_name l]) (insert p seen) False
      = Inr (rev ((comps @ [sl_name l]) @ map sl_name ls))"
    by (intro step.IH) auto
  with step.prems step.hyps show ?case by (auto simp: resolve_loop.simps [of db lim l])
qed

text \<open>C26: \<open>resolve_path\<close> returns a path exactly when the link exists and its chain of unique parents
  reaches a root within the depth limit without crossing a traversal boundary; the path is the
  names along that chain from the root down. In particular a cycle never yields a path and a
  resolvable link is never reported as cyclic.\<close>

theorem resolve_path_correct:
  "resolve_path db link depth_limit = Inr components \<longleftrightarrow>
     (\<exists>l ls. load_link db link = Some l \<and> parent_chain db l ls \<and> length ls \<le> depth_limit
        \<and> components = rev (map sl_name ls))"
proof -
  have nonempty: "ls \<noteq> []" if "parent_chain db l ls" for l ls
    using that by (cases rule: parent_chain.cases) auto
  show ?thesis
  proof
    assume "resolve_path db link depth_limit = Inr components"
    then show "\<exists>l ls. load_link db link = Some l \<and> parent_chain db l ls \<and> length ls \<le> depth_limit
        \<and> components = rev (map sl_name ls)"
      by (auto simp: resolve_path_def resolve_path_connection_def result_simps split: if_splits
          dest!: resolve_loop_sound)
  next
    assume "\<exists>l ls. load_link db link = Some l \<and> parent_chain db l ls \<and> length ls \<le> depth_limit
        \<and> components = rev (map sl_name ls)"
    then obtain l ls where "load_link db link = Some l" "parent_chain db l ls"
        "length ls \<le> depth_limit" "components = rev (map sl_name ls)" by blast
    moreover from this nonempty [of l ls] have "depth_limit \<noteq> 0"
      by (metis le_zero_eq length_0_conv)
    ultimately show "resolve_path db link depth_limit = Inr components"
      by (auto simp: resolve_path_def resolve_path_connection_def
          resolve_loop_complete [where comps = "[]" and seen = "{}" and t = True])
  qed
qed

text \<open>What each error says about the links above \<open>start\<close>.\<close>

fun resolve_error_meaning :: "graph_db \<Rightarrow> nat \<Rightarrow> StoredLink \<Rightarrow> GraphError \<Rightarrow> bool" where
  "resolve_error_meaning db lim start (MissingParent p) \<longleftrightarrow>
     (\<exists>a. (parent_step db)\<^sup>*\<^sup>* start a \<and> sl_parent_key a = Some p
        \<and> (\<forall>r \<in> set (graph_file_links db). l_object r \<noteq> p))"
| "resolve_error_meaning db lim start (AmbiguousParent p) \<longleftrightarrow>
     (\<exists>a. (parent_step db)\<^sup>*\<^sup>* start a \<and> sl_parent_key a = Some p
        \<and> 2 \<le> tbl_count (\<lambda>r. l_object r = p) (graph_file_links db))"
| "resolve_error_meaning db lim start (ParentCycle p) \<longleftrightarrow>
     (\<exists>a b. (parent_step db)\<^sup>*\<^sup>* start b \<and> load_only_link_for_object db p = Inr b
        \<and> (parent_step db)\<^sup>*\<^sup>* b a \<and> sl_parent_key a = Some p)"
| "resolve_error_meaning db lim start (TraversalBoundary link) \<longleftrightarrow>
     (\<exists>a. (parent_step db)\<^sup>+\<^sup>+ start a \<and> sl_file_link_id a = link \<and> sl_traversal_boundary a)"
| "resolve_error_meaning db lim start (DepthLimit n) \<longleftrightarrow>
     n = lim \<and> (\<exists>a. (parent_step db ^^ lim) start a)"
| "resolve_error_meaning db lim start _ \<longleftrightarrow> False"

lemma load_only_link_error:
  assumes "load_only_link_for_object db p = Inl e"
  shows "e = MissingParent p \<and> (\<forall>r \<in> set (graph_file_links db). l_object r \<noteq> p)
    \<or> e = AmbiguousParent p \<and> 2 \<le> tbl_count (\<lambda>r. l_object r = p) (graph_file_links db)"
proof -
  let ?s = "tbl_scan (\<lambda>r. l_object r = p) l_file_link_id 2 (graph_file_links db)"
  have len: "length ?s = min 2 (tbl_count (\<lambda>r. l_object r = p) (graph_file_links db))"
    by (rule length_tbl_scan)
  show ?thesis
  proof (cases ?s)
    case Nil
    then have "tbl_count (\<lambda>r. l_object r = p) (graph_file_links db) = 0" using len by (simp add: min_def split: if_splits)
    with Nil show ?thesis using assms by (simp add: load_only_link_for_object_def tbl_count_zero)
  next
    case (Cons a as)
    then show ?thesis using assms len
      by (cases as) (auto simp: load_only_link_for_object_def)
  qed
qed

lemma resolve_loop_error:
  "resolve_loop db lim cur comps seen t = Inl e \<Longrightarrow>
     (parent_step db ^^ length comps) start cur \<Longrightarrow> (t \<longleftrightarrow> comps = []) \<Longrightarrow> length comps \<le> lim \<Longrightarrow>
     (\<forall>p \<in> seen. \<exists>b. (parent_step db)\<^sup>*\<^sup>* start b \<and> load_only_link_for_object db p = Inr b
        \<and> (parent_step db)\<^sup>*\<^sup>* b cur) \<Longrightarrow>
     resolve_error_meaning db lim start e"
proof (induction db lim cur comps seen t rule: resolve_loop.induct)
  case (1 db lim cur comps seen t)
  have reach: "(parent_step db)\<^sup>*\<^sup>* start cur"
    using "1.prems"(2) by (rule relpowp_imp_rtranclp)
  note unfold = resolve_loop.simps [of db lim cur comps seen t]
  consider (depth) "lim \<le> length comps" | (boundary) "\<not> lim \<le> length comps" "sl_traversal_boundary cur \<and> \<not> t"
    | (run) "\<not> lim \<le> length comps" "\<not> (sl_traversal_boundary cur \<and> \<not> t)" by blast
  then show ?case
  proof cases
    case depth
    then have "e = DepthLimit lim" using "1.prems"(1) by (simp add: unfold)
    with depth "1.prems"(2,4) show ?thesis by auto
  next
    case boundary
    then have "e = TraversalBoundary (sl_file_link_id cur)" using "1.prems"(1)
      by (simp add: resolve_loop.simps [of db lim cur comps seen False])
    moreover have "length comps > 0" using boundary "1.prems"(3) by simp
    moreover have "(parent_step db)\<^sup>+\<^sup>+ start cur"
      using "1.prems"(2) \<open>length comps > 0\<close> tranclp_power [of "parent_step db" start cur] by blast
    ultimately show ?thesis using boundary by auto
  next
    case run
    then obtain p where p: "sl_parent_key cur = Some p"
      using "1.prems"(1) by (auto simp: unfold split: option.splits)
    show ?thesis
    proof (cases "p \<in> seen")
      case True
      with "1.prems"(1) run p have "e = ParentCycle p" by (simp add: unfold)
      with True "1.prems"(5) p show ?thesis by fastforce
    next
      case False
      show ?thesis
      proof (cases "load_only_link_for_object db p")
        case (Inl e')
        with "1.prems"(1) run p False have "e = e'" by (simp add: unfold)
        then show ?thesis using load_only_link_error [OF Inl] reach p by auto
      next
        case (Inr above)
        have st: "parent_step db cur above" using p Inr by (rule parent_step.intros)
        have "(parent_step db ^^ length (comps @ [sl_name cur])) start above"
          using "1.prems"(2) st by (auto intro: relcomppI)
        moreover have "\<exists>b. (parent_step db)\<^sup>*\<^sup>* start b \<and> load_only_link_for_object db q = Inr b
            \<and> (parent_step db)\<^sup>*\<^sup>* b above" if "q \<in> insert p seen" for q
          using that "1.prems"(5) Inr st reach by (auto intro: rtranclp.rtrancl_into_rtrancl)
        moreover have "resolve_loop db lim above (comps @ [sl_name cur]) (insert p seen) False = Inl e"
          using "1.prems"(1) run p False Inr by (simp add: unfold)
        ultimately show ?thesis
          using "1.IH" [OF run p False Inr] run by simp
      qed
    qed
  qed
qed

text \<open>When \<open>resolve_path\<close> fails on an existing link, the error is true of the stored links:
  a missing parent has no link, an ambiguous one has at least two, a reported cycle returns to the
  reported object, a reported boundary lies strictly above the link, and a depth error means that
  at least \<open>depth_limit\<close> links lie above the first.\<close>

theorem resolve_path_errors:
  assumes "resolve_path db link depth_limit = Inl e" and "load_link db link = Some start"
  shows "resolve_error_meaning db depth_limit start e"
proof (cases "depth_limit = 0")
  case True
  with assms show ?thesis by (auto simp: resolve_path_def intro: exI [of _ start])
next
  case False
  with assms have "resolve_loop db depth_limit start [] {} True = Inl e"
    by (simp add: resolve_path_def resolve_path_connection_def)
  then show ?thesis by (rule resolve_loop_error) auto
qed

text \<open>A small graph: a file in a directory, a link under an unlinked parent and a directory that is
  its own parent.\<close>

definition sample_key :: "nat \<Rightarrow> FileKey" where
  "sample_key n = FileKey.make (from_u128 1) (from_u128 (of_nat n))"

definition sample_link :: "nat \<Rightarrow> nat \<Rightarrow> nat option \<Rightarrow> string \<Rightarrow> link_row" where
  "sample_link i obj parent name =
     \<lparr>l_file_link_id = from_u128 (of_nat i), l_object = sample_key obj,
      l_parent = map_option sample_key parent, l_name = name, l_traversal_boundary = False,
      l_observation_generation = 0\<rparr>"

definition sample_db :: graph_db where
  "sample_db = empty_db\<lparr>graph_file_links :=
     [sample_link 10 2 None ''docs'', sample_link 11 3 (Some 2) ''a.txt'',
      sample_link 12 4 (Some 9) ''lost'', sample_link 13 5 (Some 5) ''loop'']\<rparr>"

lemma sample_missing: "resolve_path sample_db (from_u128 12) 512 = Inl (MissingParent (sample_key 9))"
  by code_simp

lemma sample_start:
  "load_link sample_db (from_u128 12) = Some (stored_link_from_row (sample_link 12 4 (Some 9) ''lost''))"
  by code_simp

theorem resolve_path_errors_witness:
  "resolve_error_meaning sample_db 512 (stored_link_from_row (sample_link 12 4 (Some 9) ''lost''))
     (MissingParent (sample_key 9))"
  by (rule resolve_path_errors [OF sample_missing sample_start])

section \<open>Synchronisation of one link\<close>

text \<open>The tables desired state is derived from: everything but desired state and its outbox.\<close>

definition graph_part :: "graph_db \<Rightarrow> graph_db" where
  "graph_part db = db\<lparr>graph_catalog_documents := [], graph_projection_outbox := [], outbox_seq := None\<rparr>"

lemma graph_part_fields [simp]:
  "graph_volumes (graph_part db) = graph_volumes db"
  "graph_provider_checkpoints (graph_part db) = graph_provider_checkpoints db"
  "graph_file_objects (graph_part db) = graph_file_objects db"
  "graph_file_links (graph_part db) = graph_file_links db"
  "graph_path_refresh_jobs (graph_part db) = graph_path_refresh_jobs db"
  "graph_volume_projection_refresh_jobs (graph_part db) = graph_volume_projection_refresh_jobs db"
  "graph_projection_consumers (graph_part db) = graph_projection_consumers db"
  "graph_volume_observation_sessions (graph_part db) = graph_volume_observation_sessions db"
  by (simp_all add: graph_part_def)

lemma graph_part_eq_fields:
  assumes "graph_part db' = graph_part db"
  shows "graph_volumes db' = graph_volumes db"
    and "graph_provider_checkpoints db' = graph_provider_checkpoints db"
    and "graph_file_objects db' = graph_file_objects db"
    and "graph_file_links db' = graph_file_links db"
    and "graph_path_refresh_jobs db' = graph_path_refresh_jobs db"
    and "graph_volume_projection_refresh_jobs db' = graph_volume_projection_refresh_jobs db"
    and "graph_projection_consumers db' = graph_projection_consumers db"
    and "graph_volume_observation_sessions db' = graph_volume_observation_sessions db"
  using assms graph_part_fields by metis+

lemma graph_part_updates [simp]:
  "graph_part (db\<lparr>graph_catalog_documents := ds\<rparr>) = graph_part db"
  "graph_part (db\<lparr>graph_projection_outbox := ob\<rparr>) = graph_part db"
  "graph_part (db\<lparr>outbox_seq := s\<rparr>) = graph_part db"
  by (simp_all add: graph_part_def)

lemma load_link_graph_part: "load_link (graph_part db) l = load_link db l"
  by (simp add: load_link_def)

lemma load_only_link_graph_part: "load_only_link_for_object (graph_part db) k = load_only_link_for_object db k"
  by (simp add: load_only_link_for_object_def)

lemma resolve_loop_graph_part:
  "resolve_loop (graph_part db) lim cur comps seen t = resolve_loop db lim cur comps seen t"
proof (induction db lim cur comps seen t rule: resolve_loop.induct)
  case (1 db lim cur comps seen t)
  then show ?case
    by (simp add: resolve_loop.simps [of db lim cur] resolve_loop.simps [of "graph_part db" lim cur]
        load_only_link_graph_part split: option.split sum.split)
qed

lemma build_catalog_document_graph_part:
  "build_catalog_document env (graph_part db) l v = build_catalog_document env db l v"
  by (simp add: build_catalog_document_def load_object_metadata_def volume_state_def
      resolve_path_connection_def load_link_graph_part resolve_loop_graph_part)

lemma build_catalog_document_version:
  "build_catalog_document env db l v = Inr d \<Longrightarrow>
     build_catalog_document env db l w = Inr (d\<lparr>doc_document_version := DocumentVersion w\<rparr>)"
  by (auto simp: build_catalog_document_def result_simps)

lemma build_catalog_document_identity:
  "build_catalog_document env db l v = Inr d \<Longrightarrow>
     ci_document_id (doc_identity d) = document_id_for_link (sl_file_link_id l)"
  by (auto simp: build_catalog_document_def result_simps)

lemma document_id_for_link_inj [simp]: "document_id_for_link a = document_id_for_link b \<longleftrightarrow> a = b"
  by (cases a; cases b) (simp add: document_id_for_link_def)

text \<open>The content fingerprint of a document, and the fingerprint desired state records for a
  document: the stored one, or that of the legacy payload.\<close>

definition fp_of :: "graph_env \<Rightarrow> CatalogDocument \<Rightarrow> bytes option" where
  "fp_of env d = map_option (env_sha256 env) (env_content_json env (content_of d))"

definition row_fp :: "graph_env \<Rightarrow> document_row \<Rightarrow> bytes option" where
  "row_fp env row =
     (case d_projection_fingerprint row of
        Some f \<Rightarrow> Some f
      | None \<Rightarrow> Option.bind (env_document_from_json env (d_document_json row)) (fp_of env))"

definition projected :: "graph_env \<Rightarrow> graph_db \<Rightarrow> DocumentId \<Rightarrow> bytes option option" where
  "projected env db d = map_option (row_fp env) (find_document db d)"

text \<open>The document the graph tables determine for a link: none when the link is gone or its path
  does not resolve.\<close>

definition current_document :: "graph_env \<Rightarrow> graph_db \<Rightarrow> FileLinkId \<Rightarrow> CatalogDocument option" where
  "current_document env db link =
     (case load_link db link of
        None \<Rightarrow> None
      | Some l \<Rightarrow> (case build_catalog_document env db l 0 of Inl _ \<Rightarrow> None | Inr d \<Rightarrow> Some d))"

definition in_sync :: "graph_env \<Rightarrow> graph_db \<Rightarrow> FileLinkId \<Rightarrow> bool" where
  "in_sync env db link \<longleftrightarrow>
     projected env db (document_id_for_link link) = map_option (fp_of env) (current_document env db link)"

lemma current_document_graph_part: "current_document env (graph_part db) l = current_document env db l"
  by (cases "load_link db l")
     (simp_all add: current_document_def load_link_graph_part build_catalog_document_graph_part)

lemma current_document_cong:
  "graph_part db' = graph_part db \<Longrightarrow> current_document env db' l = current_document env db l"
  by (metis current_document_graph_part)

lemma fp_of_version [simp]: "fp_of env (d\<lparr>doc_document_version := v\<rparr>) = fp_of env d"
  by (simp add: fp_of_def content_of_def)

lemma fp_of_content_equal: "catalog_content_equal a b \<Longrightarrow> fp_of env a = fp_of env b"
  by (simp add: fp_of_def content_of_def catalog_content_equal_def)

lemma fingerprint_fp_of: "catalog_content_fingerprint env d = Inr f \<longleftrightarrow> fp_of env d = Some f"
  by (auto simp: catalog_content_fingerprint_def fp_of_def result_simps)

lemma content_unchanged_True:
  assumes "content_unchanged env (find_document db k) d f = Inr True" and "fp_of env d = Some f"
  shows "projected env db k = Some (Some f)"
proof -
  obtain row where row: "find_document db k = Some row"
    using assms(1) by (cases "find_document db k") (simp_all add: content_unchanged_def)
  have "row_fp env row = Some f"
    using assms row fp_of_content_equal [of _ d env]
    by (cases "d_projection_fingerprint row") (auto simp: content_unchanged_def row_fp_def result_simps)
  with row show ?thesis by (simp add: projected_def)
qed

subsection \<open>The outbox records what desired state does\<close>

text \<open>A materialised index is a map from document identity to document; a mutation sets or clears
  one entry.\<close>

type_synonym index_state = "DocumentId \<Rightarrow> CatalogDocument option"

fun index_mutation :: "index_state \<Rightarrow> IndexMutation \<Rightarrow> index_state" where
  "index_mutation idx (Upsert d) = idx(ci_document_id (doc_identity d) \<mapsto> d)"
| "index_mutation idx (Delete k _) = idx(k := None)"

definition replay :: "index_state \<Rightarrow> IndexMutation list \<Rightarrow> index_state" where
  "replay idx ms = foldl index_mutation idx ms"

lemma replay_simps [simp]:
  "replay idx [] = idx"
  "replay idx (m # ms) = replay (index_mutation idx m) ms"
  "replay idx (ms @ ns) = replay (replay idx ms) ns"
  by (simp_all add: replay_def)

definition index_agrees :: "graph_env \<Rightarrow> index_state \<Rightarrow> graph_db \<Rightarrow> bool" where
  "index_agrees env idx db \<longleftrightarrow> (\<forall>k. map_option (fp_of env) (idx k) = projected env db k)"

text \<open>\<open>db'\<close> has the outbox of \<open>db\<close> followed by rows that decode to \<open>ms\<close>.\<close>

definition outbox_extends :: "graph_env \<Rightarrow> graph_db \<Rightarrow> graph_db \<Rightarrow> IndexMutation list \<Rightarrow> bool" where
  "outbox_extends env db db' ms \<longleftrightarrow>
     (\<exists>rows. graph_projection_outbox db' = graph_projection_outbox db @ rows
        \<and> map (env_mutation_from_json env \<circ> ob_mutation_json) rows = map Some ms)"

lemma outbox_extends_same: "graph_projection_outbox db' = graph_projection_outbox db \<Longrightarrow> outbox_extends env db db' []"
  by (simp add: outbox_extends_def)

lemma outbox_extends_trans:
  assumes "outbox_extends env a b ms" and "outbox_extends env b c ns"
  shows "outbox_extends env a c (ms @ ns)"
  using assms unfolding outbox_extends_def by (metis append.assoc map_append)

lemma append_outbox_extends:
  assumes "append_outbox env db k v m = Inr db'" and "json_round_trip env"
  shows "outbox_extends env db db' [m]"
  using assms by (auto simp: append_outbox_def outbox_extends_def json_round_trip_def result_simps)

lemma append_outbox_frame:
  assumes "append_outbox env db k v m = Inr db'"
  shows "graph_part db' = graph_part db" and "graph_catalog_documents db' = graph_catalog_documents db"
  using assms by (auto simp: append_outbox_def result_simps)

lemma projected_cong:
  "graph_catalog_documents db' = graph_catalog_documents db \<Longrightarrow> projected env db' k = projected env db k"
  by (simp add: projected_def)

lemma delete_catalog_projection_result:
  assumes "delete_catalog_projection env db k v mode = Inr (db', n)"
  shows "graph_part db' = graph_part db"
    and "find_document db' j = (if j = k then None else find_document db j)"
    and "mode = Durable \<Longrightarrow> json_round_trip env \<Longrightarrow>
      \<exists>ms. outbox_extends env db db' ms \<and> length ms = n \<and> (\<forall>idx. index_agrees env idx db \<longrightarrow> index_agrees env (replay idx ms) db')"
    and "mode = Rebuildable \<Longrightarrow> n = 0 \<and> graph_projection_outbox db' = graph_projection_outbox db \<and> outbox_seq db' = outbox_seq db"
proof -
  have *: "graph_part db' = graph_part db \<and> (\<forall>j. find_document db' j = (if j = k then None else find_document db j))"
    using assms
    by (auto simp: delete_catalog_projection_def result_simps tbl_simps append_outbox_frame split: if_splits)
  from * show "graph_part db' = graph_part db" by simp
  from * show found: "find_document db' j = (if j = k then None else find_document db j)" by simp
  show "mode = Rebuildable \<Longrightarrow> n = 0 \<and> graph_projection_outbox db' = graph_projection_outbox db \<and> outbox_seq db' = outbox_seq db"
    using assms by (auto simp: delete_catalog_projection_def result_simps split: if_splits)
  assume mode: "mode = Durable" and json: "json_round_trip env"
  show "\<exists>ms. outbox_extends env db db' ms \<and> length ms = n \<and> (\<forall>idx. index_agrees env idx db \<longrightarrow> index_agrees env (replay idx ms) db')"
  proof (cases "find_document db k")
    case None
    with assms have "db' = db" "n = 0" by (simp_all add: delete_catalog_projection_def)
    then show ?thesis by (intro exI [of _ "[]"]) (simp add: outbox_extends_same)
  next
    case (Some row)
    with assms mode obtain db1 where db1: "append_outbox env db k v (Delete k (DocumentVersion v)) = Inr db1"
        "graph_projection_outbox db' = graph_projection_outbox db1" "n = 1"
      by (auto simp: delete_catalog_projection_def result_simps)
    have "outbox_extends env db db' [Delete k (DocumentVersion v)]"
      using append_outbox_extends [OF db1(1) json] db1(2) by (simp add: outbox_extends_def)
    moreover have "index_agrees env (idx(k := None)) db'" if "index_agrees env idx db" for idx
      using that * by (auto simp: index_agrees_def projected_def)
    ultimately show ?thesis using db1(3) by (intro exI [of _ "[Delete k (DocumentVersion v)]"]) simp
  qed
qed

lemma upsert_document_result:
  assumes "upsert_document db row = Inr db'"
  shows "graph_part db' = graph_part db"
    and "graph_projection_outbox db' = graph_projection_outbox db" and "outbox_seq db' = outbox_seq db"
    and "find_document db' j = (if j = d_document_id row then Some row else find_document db j)"
proof -
  have db': "db' = db\<lparr>graph_catalog_documents :=
      tbl_upsert d_document_id document_merge row (graph_catalog_documents db)\<rparr>"
    using assms by (auto simp: upsert_document_def split: if_splits)
  have "document_merge row old = row" if "d_document_id old = d_document_id row" for old
    using that by (cases row; cases old) (simp add: document_merge_def)
  then show "find_document db' j = (if j = d_document_id row then Some row else find_document db j)"
    by (auto simp: db' documents_table.find_upsert dest: tbl_find_Some split: option.splits)
qed (use assms in \<open>auto simp: upsert_document_def split: if_splits\<close>)

lemma sync_catalog_projection_cases:
  assumes "sync_catalog_projection env db link g mode = Inr (db', n)"
  obtains (delete) v where "u64_try_from_i64 g = Some v" "current_document env db link = None"
      "delete_catalog_projection env db (document_id_for_link link) v mode = Inr (db', n)"
    | (keep) d f where "current_document env db link = Some d" "fp_of env d = Some f"
      "projected env db (document_id_for_link link) = Some (Some f)" "db' = db" "n = 0"
    | (store) l v d f db1 where "u64_try_from_i64 g = Some v" "load_link db link = Some l"
      "build_catalog_document env db l v = Inr d" "fp_of env d = Some f"
      "upsert_document db \<lparr>d_document_id = document_id_for_link link, d_object = sl_object_key l,
         d_file_link_id = link, d_document_version = g, d_document_json = [],
         d_projection_path = Some (doc_resolved_path d), d_projection_fingerprint = Some f\<rparr> = Inr db1"
      "if mode = Durable
       then append_outbox env db1 (document_id_for_link link) v (Upsert d) = Inr db' \<and> n = 1
       else db' = db1 \<and> n = 0"
proof -
  obtain v where v: "u64_try_from_i64 g = Some v"
    using assms by (auto simp: sync_catalog_projection_def result_simps Let_def)
  show thesis
  proof (cases "load_link db link")
    case None
    with assms v show thesis
      by (intro delete) (simp_all add: sync_catalog_projection_def current_document_def)
  next
    case (Some l)
    show thesis
    proof (cases "build_catalog_document env db l v")
      case (Inl e)
      then have "current_document env db link = None"
        using Some build_catalog_document_version [of env db l 0 _ v]
        by (auto simp: current_document_def split: sum.splits)
      with Inl Some assms v show thesis
        by (intro delete) (auto simp: sync_catalog_projection_def split: if_splits)
    next
      case (Inr d)
      let ?d0 = "d\<lparr>doc_document_version := DocumentVersion 0\<rparr>"
      have cur: "current_document env db link = Some ?d0"
        using Some build_catalog_document_version [OF Inr, of 0] by (simp add: current_document_def)
      obtain f u where f: "fp_of env d = Some f"
          "content_unchanged env (find_document db (document_id_for_link link)) d f = Inr u"
        using assms v Some Inr
        by (auto simp: sync_catalog_projection_def result_simps fingerprint_fp_of Let_def)
      show thesis
      proof (cases u)
        case True
        then have "db' = db" "n = 0"
          using assms v Some Inr f fingerprint_fp_of [of env d f] by (simp_all add: sync_catalog_projection_def)
        then show thesis using cur f True content_unchanged_True by (intro keep [of ?d0 f]) simp_all
      next
        case False
        then show thesis
          using assms v Some Inr f fingerprint_fp_of [of env d f]
          by (auto simp: sync_catalog_projection_def result_simps Let_def split: if_splits
              intro: store [OF v Some Inr f(1)])
      qed
    qed
  qed
qed

lemma sync_frame:
  assumes "sync_catalog_projection env db link g mode = Inr (db', n)"
  shows "graph_part db' = graph_part db"
    and "k \<noteq> document_id_for_link link \<Longrightarrow> find_document db' k = find_document db k"
proof -
  have "graph_part db' = graph_part db
      \<and> (k \<noteq> document_id_for_link link \<longrightarrow> find_document db' k = find_document db k)"
    using assms
  proof (cases rule: sync_catalog_projection_cases)
    case (delete v)
    then show ?thesis
      using delete_catalog_projection_result(1,2) [OF delete(3)] by simp
  next
    case (store l v d f db1)
    have "graph_part db' = graph_part db1" "graph_catalog_documents db' = graph_catalog_documents db1"
      using store(6) append_outbox_frame by (auto split: if_splits)
    then show ?thesis using upsert_document_result(1,4) [OF store(5)] by simp
  qed simp
  then show "graph_part db' = graph_part db"
    and "k \<noteq> document_id_for_link link \<Longrightarrow> find_document db' k = find_document db k" by simp_all
qed

lemma sync_makes_in_sync:
  assumes "sync_catalog_projection env db link g mode = Inr (db', n)"
  shows "in_sync env db' link"
proof -
  have cur: "current_document env db' link = current_document env db link"
    by (rule current_document_cong [OF sync_frame(1) [OF assms]])
  from assms show ?thesis
  proof (cases rule: sync_catalog_projection_cases)
    case (delete v)
    then show ?thesis
      using cur delete_catalog_projection_result(2) [OF delete(3), of "document_id_for_link link"]
      by (simp add: in_sync_def projected_def)
  next
    case (keep d f)
    then show ?thesis by (simp add: in_sync_def)
  next
    case (store l v d f db1)
    have "graph_catalog_documents db' = graph_catalog_documents db1"
      using store(6) append_outbox_frame by (auto split: if_splits)
    then have "projected env db' (document_id_for_link link) = Some (Some f)"
      using upsert_document_result(4) [OF store(5), of "document_id_for_link link"]
      by (simp add: projected_def row_fp_def)
    moreover have "current_document env db link = Some (d\<lparr>doc_document_version := DocumentVersion 0\<rparr>)"
      using store(2) build_catalog_document_version [OF store(3), of 0] by (simp add: current_document_def)
    ultimately show ?thesis using cur store(4) by (simp add: in_sync_def)
  qed
qed

lemma sync_keeps_in_sync:
  assumes "sync_catalog_projection env db link g mode = Inr (db', n)" and "in_sync env db other"
  shows "in_sync env db' other"
proof (cases "other = link")
  case True
  then show ?thesis using sync_makes_in_sync [OF assms(1)] by simp
next
  case False
  then have "projected env db' (document_id_for_link other) = projected env db (document_id_for_link other)"
    using sync_frame(2) [OF assms(1), of "document_id_for_link other"] by (simp add: projected_def)
  then show ?thesis
    using assms(2) current_document_cong [OF sync_frame(1) [OF assms(1)]] by (simp add: in_sync_def)
qed

lemma load_link_id: "load_link db link = Some l \<Longrightarrow> sl_file_link_id l = link"
  by (auto simp: load_link_def stored_link_from_row_def dest: tbl_find_Some)

lemma sync_replay:
  assumes "sync_catalog_projection env db link g Durable = Inr (db', n)" and "json_round_trip env"
  shows "\<exists>ms. outbox_extends env db db' ms \<and> length ms = n
    \<and> (\<forall>idx. index_agrees env idx db \<longrightarrow> index_agrees env (replay idx ms) db')"
  using assms(1)
proof (cases rule: sync_catalog_projection_cases)
  case (delete v)
  then show ?thesis using delete_catalog_projection_result(3) [OF delete(3)] assms(2) by simp
next
  case (keep d f)
  then show ?thesis by (intro exI [of _ "[]"]) (simp add: outbox_extends_same)
next
  case (store l v d f db1)
  then have app: "append_outbox env db1 (document_id_for_link link) v (Upsert d) = Inr db'" and n: "n = 1"
    by simp_all
  note up = upsert_document_result [OF store(5)]
  have ext: "outbox_extends env db db' [Upsert d]"
    using append_outbox_extends [OF app assms(2)] up(2) by (simp add: outbox_extends_def)
  have "index_agrees env (idx(document_id_for_link link \<mapsto> d)) db'" if "index_agrees env idx db" for idx
  proof -
    have "projected env db' k = (if k = document_id_for_link link then Some (Some f) else projected env db k)" for k
      using up(4) [of k] append_outbox_frame(2) [OF app] by (simp add: projected_def row_fp_def)
    with that store(4) show ?thesis by (simp add: index_agrees_def)
  qed
  moreover have "ci_document_id (doc_identity d) = document_id_for_link link"
    using build_catalog_document_identity [OF store(3)] load_link_id [OF store(2)] by simp
  ultimately show ?thesis using ext n by (intro exI [of _ "[Upsert d]"]) simp
qed

lemma sync_rebuildable_silent:
  assumes "sync_catalog_projection env db link g Rebuildable = Inr (db', n)"
  shows "n = 0 \<and> graph_projection_outbox db' = graph_projection_outbox db \<and> outbox_seq db' = outbox_seq db"
  using assms
proof (cases rule: sync_catalog_projection_cases)
  case (delete v)
  then show ?thesis using delete_catalog_projection_result(4) [OF delete(3)] by simp
next
  case (store l v d f db1)
  then show ?thesis using upsert_document_result(2,3) [OF store(5)] by simp
qed simp

subsection \<open>Invariants of desired state and the outbox\<close>

text \<open>The outbox is ordered by sequence below the high-water mark of its row ids, which no consumer
  is ahead of; each desired document is named after its link and has a path and a fingerprint, or
  neither.\<close>

definition high_water :: "graph_db \<Rightarrow> i64" where
  "high_water db = (case outbox_seq db of None \<Rightarrow> 0 | Some s \<Rightarrow> s)"

definition outbox_ok :: "graph_db \<Rightarrow> bool" where
  "outbox_ok db \<longleftrightarrow>
     sorted_wrt (<) (map ob_sequence (graph_projection_outbox db))
   \<and> (\<forall>r \<in> set (graph_projection_outbox db). 0 < ob_sequence r \<and> ob_sequence r \<le> high_water db)
   \<and> (\<forall>c \<in> set (graph_projection_consumers db). 0 \<le> c_last_sequence c \<and> c_last_sequence c \<le> high_water db)
   \<and> 0 \<le> high_water db \<and> high_water db \<le> i64_max
   \<and> (\<forall>d \<in> set (graph_catalog_documents db). d_document_id d = document_id_for_link (d_file_link_id d)
        \<and> (d_projection_path d = None \<longleftrightarrow> d_projection_fingerprint d = None))"

definition store_ok :: "graph_db \<Rightarrow> bool" where
  "store_ok db \<longleftrightarrow> schema_ok db \<and> outbox_ok db"

lemma outbox_ok_empty: "outbox_ok empty_db"
  by (simp add: outbox_ok_def empty_db_def high_water_def i64_max_def)

lemma foldr_max_le: "(\<forall>x \<in> set xs. x \<le> b) \<Longrightarrow> foldr max xs b = (b :: int)"
  by (induction xs) auto

lemma next_outbox_sequence_ok:
  assumes "outbox_ok db"
  shows "next_outbox_sequence db = (if high_water db < i64_max then Some (high_water db + 1) else None)"
proof -
  have "foldr max (map ob_sequence (graph_projection_outbox db)) (high_water db) = high_water db"
    by (rule foldr_max_le) (use assms in \<open>auto simp: outbox_ok_def\<close>)
  then show ?thesis by (simp add: next_outbox_sequence_def high_water_def Let_def)
qed

lemma append_outbox_ok:
  assumes "outbox_ok db" and "append_outbox env db k v m = Inr db'"
  shows "outbox_ok db'" and "high_water db' = high_water db + 1"
    and "\<exists>row. graph_projection_outbox db' = graph_projection_outbox db @ [row] \<and> ob_sequence row = high_water db + 1"
proof -
  obtain row where row: "db' = db\<lparr>graph_projection_outbox := graph_projection_outbox db @ [row],
        outbox_seq := Some (high_water db + 1)\<rparr>" "ob_sequence row = high_water db + 1" "high_water db < i64_max"
    using assms(2) next_outbox_sequence_ok [OF assms(1)]
    by (auto simp: append_outbox_def result_simps split: if_splits)
  have hw: "high_water db' = high_water db + 1" by (simp add: row high_water_def)
  have "ob_sequence r < high_water db + 1" if "r \<in> set (graph_projection_outbox db)" for r
    using that assms(1) by (fastforce simp: outbox_ok_def)
  then show "outbox_ok db'"
    using assms(1) row(2,3) unfolding outbox_ok_def hw
    by (auto simp: row(1) sorted_wrt_append)
  show "high_water db' = high_water db + 1" by (rule hw)
  show "\<exists>row. graph_projection_outbox db' = graph_projection_outbox db @ [row] \<and> ob_sequence row = high_water db + 1"
    using row by auto
qed

lemma schema_ok_append_outbox:
  assumes "schema_ok db" and "append_outbox env db k v m = Inr db'"
  shows "schema_ok db'"
  using assms
  by (auto simp: append_outbox_def result_simps schema_ok_def keys_ok_def slots_ok_def fk_ok_def live_links_def)

lemma store_ok_delete_document:
  assumes "store_ok db"
  shows "store_ok (db\<lparr>graph_catalog_documents := tbl_delete p (graph_catalog_documents db)\<rparr>)"
  using assms
  by (simp add: store_ok_def schema_ok_def keys_ok_def slots_ok_def fk_ok_def live_links_def outbox_ok_def
      high_water_def distinct_tbl_delete)

lemma store_ok_append_outbox:
  "store_ok db \<Longrightarrow> append_outbox env db k v m = Inr db' \<Longrightarrow> store_ok db'"
  unfolding store_ok_def using schema_ok_append_outbox append_outbox_ok(1) by blast

lemma distinct_map_upsert_other:
  assumes "distinct (map key t)" and "\<forall>r \<in> set t. key r = key row \<longrightarrow> pk r = pk row"
    and "distinct (map pk t)" and "\<And>old. pk old = pk row \<Longrightarrow> key (merge row old) = key row \<and> pk (merge row old) = pk row"
  shows "distinct (map key (tbl_upsert pk merge row t))"
proof (cases "tbl_find pk (pk row) t")
  case None
  then have "pk row \<notin> pk ` set t" by (simp add: tbl_find_None)
  then have "key row \<notin> key ` set t" using assms(2) by (metis (mono_tags, lifting) imageE image_eqI)
  with assms(1) None show ?thesis by (simp add: tbl_upsert_def)
next
  case (Some old)
  let ?f = "\<lambda>r. if pk r = pk row then merge row r else r"
  have kf: "(key \<circ> ?f) x = (if pk x = pk row then key row else key x)" for x
    by (simp add: assms(4))
  have "inj_on (key \<circ> ?f) (set t)"
  proof (rule inj_onI)
    fix a b assume ab: "a \<in> set t" "b \<in> set t" "(key \<circ> ?f) a = (key \<circ> ?f) b"
    note eq = ab(3) [unfolded kf]
    have inj: "inj_on key (set t)" "inj_on pk (set t)" using assms(1,3) by (auto simp: distinct_map)
    show "a = b"
    proof (cases "pk a = pk row")
      case True
      then have "pk b = pk row" using ab(2) eq assms(2) by (metis (full_types))
      with True ab(1,2) inj(2) show ?thesis by (simp add: inj_on_def)
    next
      case False
      then have "pk b \<noteq> pk row" using ab(1) eq assms(2) by (metis (full_types))
      with False ab(1,2) eq inj(1) show ?thesis by (simp add: inj_on_def)
    qed
  qed
  moreover have "distinct t" using assms(1) by (simp add: distinct_map)
  ultimately show ?thesis using Some by (simp add: tbl_upsert_def distinct_map)
qed

lemma store_ok_upsert_document:
  assumes "store_ok db" and "upsert_document db row = Inr db'"
    and "d_document_id row = document_id_for_link (d_file_link_id row)"
    and "d_projection_path row = None \<longleftrightarrow> d_projection_fingerprint row = None"
  shows "store_ok db'"
proof -
  let ?t = "tbl_upsert d_document_id document_merge row (graph_catalog_documents db)"
  have db': "db' = db\<lparr>graph_catalog_documents := ?t\<rparr>"
    and uniq: "\<forall>d \<in> set (graph_catalog_documents db). d_file_link_id d = d_file_link_id row
      \<longrightarrow> d_document_id d = d_document_id row"
    and fk: "find_object db (d_object row) \<noteq> None"
    using assms(2) by (auto simp: upsert_document_def split: if_splits)
  have rows: "r = row \<or> r \<in> set (graph_catalog_documents db)" if "r \<in> set ?t" for r
    using documents_table.in_upsert [OF that]
    by (cases row) (auto simp: document_merge_def)
  have "distinct (map d_file_link_id ?t)"
    using assms(1) uniq
    by (intro distinct_map_upsert_other)
       (simp_all add: store_ok_def schema_ok_def keys_ok_def document_merge_def)
  moreover have "distinct (map d_document_id ?t)"
    using assms(1) documents_table.distinct_upsert by (simp add: store_ok_def schema_ok_def keys_ok_def)
  moreover have "\<forall>d \<in> set ?t. find_object db (d_object d) \<noteq> None \<and> d_document_id d = document_id_for_link (d_file_link_id d)
      \<and> (d_projection_path d = None \<longleftrightarrow> d_projection_fingerprint d = None)"
    using rows fk assms(1,3,4) by (fastforce simp: store_ok_def schema_ok_def fk_ok_def outbox_ok_def)
  ultimately show ?thesis
    using assms(1)
    by (simp add: db' store_ok_def schema_ok_def keys_ok_def slots_ok_def fk_ok_def live_links_def
        outbox_ok_def high_water_def)
qed

lemma store_ok_sync:
  assumes "store_ok db" and "sync_catalog_projection env db link g mode = Inr (db', n)"
  shows "store_ok db'"
  using assms(2)
proof (cases rule: sync_catalog_projection_cases)
  case (delete v)
  then show ?thesis using assms(1) store_ok_append_outbox store_ok_delete_document
    by (auto simp: delete_catalog_projection_def result_simps split: if_splits)
next
  case (store l v d f db1)
  have "store_ok db1" by (rule store_ok_upsert_document [OF assms(1) store(5)]) simp_all
  then show ?thesis using store(6) store_ok_append_outbox by (auto split: if_splits)
qed (use assms in simp)

section \<open>Reading desired state\<close>

lemma joined_row_key: "joined_row db d = Some row \<Longrightarrow> fst row = d"
  by (auto simp: joined_row_def split: option.splits)

lemma map_fst_joined_rows:
  "map fst (joined_rows db) = filter (\<lambda>d. joined_row db d \<noteq> None) (graph_catalog_documents db)"
proof -
  have "map fst (List.map_filter (joined_row db) ds) = filter (\<lambda>d. joined_row db d \<noteq> None) ds" for ds
    by (induction ds) (auto simp: List.map_filter_def joined_row_key)
  then show ?thesis by (simp add: joined_rows_def)
qed

lemma distinct_joined_rows: "schema_ok db \<Longrightarrow> distinct (map (d_document_id \<circ> fst) (joined_rows db))"
  using map_fst_joined_rows [of db] distinct_map_filter [of d_document_id "graph_catalog_documents db"]
  by (simp add: schema_ok_def keys_ok_def flip: map_map)

lemma find_joined_row:
  assumes "schema_ok db"
  shows "find (\<lambda>row. d_document_id (fst row) = k) (joined_rows db) = Option.bind (find_document db k) (joined_row db)"
proof -
  have "find (\<lambda>row. d_document_id (fst row) = k) (List.map_filter (joined_row db) ds)
      = Option.bind (tbl_find d_document_id k ds) (joined_row db)"
    if "distinct (map d_document_id ds)" for ds
    using that
  proof (induction ds)
    case Nil
    then show ?case by (simp add: List.map_filter_def)
  next
    case (Cons d ds)
    have "find (\<lambda>row. d_document_id (fst row) = k) (List.map_filter (joined_row db) ds) = None"
      if "d_document_id d = k"
      using Cons that tbl_find_None [of d_document_id k ds] by simp
    with Cons show ?case
      by (cases "joined_row db d") (auto simp: List.map_filter_def tbl_find_Cons dest: joined_row_key)
  qed
  then show ?thesis using assms by (simp add: joined_rows_def schema_ok_def keys_ok_def)
qed

interpretation outbox_pages: keyset_scan ob_sequence graph_projection_outbox outbox_ok
  by unfold_locales (simp add: outbox_ok_def strict_sorted_iff)

interpretation desired_pages: keyset_scan "d_document_id \<circ> fst" joined_rows schema_ok
  by unfold_locales (rule distinct_joined_rows)

interpretation link_pages: keyset_scan l_file_link_id graph_file_links schema_ok
  by unfold_locales (simp add: schema_ok_def keys_ok_def)

interpretation document_pages: keyset_scan d_file_link_id graph_catalog_documents schema_ok
  by unfold_locales (simp add: schema_ok_def keys_ok_def)

lemma decode_documents_append:
  "decode_documents env (rows @ rest) = Inr docs \<longleftrightarrow>
     (\<exists>a b. decode_documents env rows = Inr a \<and> decode_documents env rest = Inr b \<and> docs = a @ b)"
proof -
  let ?f = "\<lambda>documents row. and_then (stored_catalog_projection_from_row row) (\<lambda>stored.
      and_then (into_document env stored) (\<lambda>document. Inr (documents @ [document])))"
  have shift: "fold_r ?f (acc @ xs) rs = Inr docs \<longleftrightarrow> (\<exists>b. fold_r ?f xs rs = Inr b \<and> docs = acc @ b)"
    for acc xs rs docs
    by (induction rs arbitrary: xs) (auto simp: result_simps)
  have "fold_r ?f acc rs = Inr docs \<longleftrightarrow> (\<exists>b. fold_r ?f [] rs = Inr b \<and> docs = acc @ b)" for acc rs docs
    using shift [of acc "[]" rs docs] by simp
  then show ?thesis
    unfolding decode_documents_def fold_r_append and_then_eq_Inr by blast
qed

lemma decode_documents_length: "decode_documents env rows = Inr docs \<Longrightarrow> length docs = length rows"
proof (induction rows arbitrary: docs)
  case Nil
  then show ?case by (simp add: decode_documents_def)
next
  case (Cons r rows)
  then obtain a b where "decode_documents env [r] = Inr a" "decode_documents env rows = Inr b" "docs = a @ b"
    using decode_documents_append [of env "[r]" rows docs] by auto
  then show ?case using Cons.IH by (auto simp: decode_documents_def result_simps)
qed

text \<open>The rows whose stored path makes the reader rebuild the document from the graph.\<close>

lemma desired_catalog_document_of_row:
  assumes "schema_ok db" and "find_document db k = Some row"
    and "joined_row db row = Some j" and "d_projection_path row = Some path"
  shows "desired_catalog_document env db k =
    and_then (stored_catalog_projection_from_row j) (\<lambda>s. and_then (into_document env s) (\<lambda>d. Inr (Some d)))"
  using assms by (simp add: desired_catalog_document_def find_joined_row)

text \<open>A document written to desired state is read back exactly as it was put into the outbox:
  identity, version, name, path, extension and metadata, although desired state stores only the
  path and a fingerprint and the reader takes the rest from the graph tables.\<close>

theorem desired_document_round_trip:
  assumes "store_ok db" and "load_link db link = Some l" and "build_catalog_document env db l v = Inr d"
    and "sync_catalog_projection env db link (uint v) mode = Inr (db', n)"
    and "\<And>row. find_document db (document_id_for_link link) = Some row \<Longrightarrow> row_fp env row \<noteq> fp_of env d"
  shows "desired_catalog_document env db' (document_id_for_link link) = Inr (Some d)"
  using assms(4)
proof (cases rule: sync_catalog_projection_cases)
  case (delete w)
  then show ?thesis
    using assms(2,3) build_catalog_document_version [OF assms(3), of 0] by (simp add: current_document_def)
next
  case (keep d' f)
  then have "fp_of env d = Some f"
    using assms(2) build_catalog_document_version [OF assms(3), of 0] by (auto simp: current_document_def)
  then show ?thesis using keep(3) assms(5) by (auto simp: projected_def)
next
  case (store l' w d' f db1)
  have same: "l' = l" "w = v" using store(1,2) assms(2) by (simp_all add: u64_try_from_i64_def)
  then have d': "d' = d" using store(3) assms(3) by simp
  let ?row = "\<lparr>d_document_id = document_id_for_link link, d_object = sl_object_key l,
    d_file_link_id = link, d_document_version = uint v, d_document_json = [],
    d_projection_path = Some (doc_resolved_path d), d_projection_fingerprint = Some f\<rparr>"
  have "graph_catalog_documents db' = graph_catalog_documents db1"
    using store(6) append_outbox_frame by (auto split: if_splits)
  then have row: "find_document db' (document_id_for_link link) = Some ?row"
    using upsert_document_result(4) [OF store(5), of "document_id_for_link link"] same d' by simp
  note part = graph_part_eq_fields [OF sync_frame(1) [OF assms(4)]]
  obtain lr where lr: "find_link db link = Some lr" "l = stored_link_from_row lr"
    using assms(2) by (auto simp: load_link_def)
  obtain meta state comps where b: "load_object_metadata db (sl_object_key l) = Inr meta"
      "volume_state db (fk_volume_id (sl_object_key l)) = Inr state"
      "d = \<lparr>doc_identity = \<lparr>ci_object_key = sl_object_key l, ci_file_link_id = sl_file_link_id l,
             ci_document_id = document_id_for_link (sl_file_link_id l)\<rparr>,
          doc_document_version = DocumentVersion v, doc_name = sl_name l,
          doc_resolved_path = display_path comps, doc_extension = extension_for_name env (sl_name l),
          doc_metadata = meta\<lparr>md_availability := effective_availability state (md_availability meta)\<rparr>\<rparr>"
    using assms(3) by (auto simp: build_catalog_document_def result_simps)
  obtain obj vol where ov: "find_object db (sl_object_key l) = Some obj" "metadata_of_row obj = Inr meta"
      "find_volume db (fk_volume_id (sl_object_key l)) = Some vol" "state = v_state vol"
    using b(1,2) by (auto simp: load_object_metadata_def volume_state_def result_simps split: option.splits if_splits)
  have "joined_row db' ?row = Some (?row, lr, obj, vol)"
    using lr(1) ov part by (simp add: joined_row_def)
  moreover have "schema_ok db'" using store_ok_sync [OF assms(1,4)] by (simp add: store_ok_def)
  ultimately show ?thesis
    using row ov(2,4) b(3) lr load_link_id [OF assms(2)]
    by (simp add: desired_catalog_document_of_row [OF _ row] stored_catalog_projection_from_row_def
        into_document_def u64_try_from_i64_def stored_link_from_row_def)
qed

subsection \<open>Graph mutations leave the projection tables alone\<close>

definition projection_part where
  "projection_part db = (graph_catalog_documents db, graph_projection_outbox db, outbox_seq db,
     graph_projection_consumers db, graph_volume_observation_sessions db, graph_provider_checkpoints db)"

interpretation projection_frame: link_statement_invariant "\<lambda>db. projection_part db = c" for c
  by unfold_locales (simp_all add: projection_part_def)

lemma projection_part_apply_mutation:
  assumes "apply_mutation db m g = Inr (db', n)"
  shows "projection_part db' = projection_part db"
proof (cases m)
  case (UpsertLink link b)
  with assms show ?thesis using projection_frame.keeps_upsert_link [OF refl] by simp
next
  case (RemoveLink l k)
  with assms show ?thesis using projection_frame.keeps_remove_link_internal [OF refl] by (simp add: remove_link_def)
qed (use assms in \<open>auto simp: result_simps upsert_volume_def set_volume_state_def upsert_object_def
      tombstone_object_def require_reconciliation_def enqueue_volume_projection_refresh_def
      projection_part_def split: if_splits\<close>)

lemma outbox_ok_cong: "projection_part db' = projection_part db \<Longrightarrow> outbox_ok db' = outbox_ok db"
  by (simp add: outbox_ok_def projection_part_def high_water_def)

lemma store_ok_apply_mutation:
  assumes "store_ok db" and "apply_mutation db m g = Inr (db', n)"
  shows "store_ok db'"
  using assms schema_ok_apply_mutation [of db m g db' n] outbox_ok_cong [OF projection_part_apply_mutation [OF assms(2)]]
  by (simp add: store_ok_def)

subsection \<open>A concrete graph\<close>

text \<open>A codec that serialises the members of a list by their position and nothing else.\<close>

definition sample_env :: "IndexMutation list \<Rightarrow> graph_env" where
  "sample_env ms =
     \<lparr>env_to_lowercase = id,
      env_content_json = (\<lambda>(_, name, path, _, meta). Some [of_nat (length name), of_nat (length path),
        if md_availability meta = Online then 1 else 0]),
      env_sha256 = id,
      env_mutation_to_json = (\<lambda>m. if m \<in> set ms then Some (replicate (length (takeWhile (\<lambda>x. x \<noteq> m) ms)) CHR ''x'') else None),
      env_mutation_from_json = (\<lambda>s. if length s < length ms then Some (ms ! length s) else None),
      env_document_from_json = (\<lambda>_. None)\<rparr>"

lemma json_round_trip_sample: "json_round_trip (sample_env ms)"
proof -
  have "length (takeWhile (\<lambda>x. x \<noteq> m) ms) < length ms \<and> ms ! length (takeWhile (\<lambda>x. x \<noteq> m) ms) = m"
    if "m \<in> set ms" for m
    using that by (induction ms) auto
  then show ?thesis by (auto simp: json_round_trip_def sample_env_def split: if_splits)
qed

definition sample_object :: "nat \<Rightarrow> FileKind \<Rightarrow> FileObjectSnapshot" where
  "sample_object n kind =
     \<lparr>obj_object_key = sample_key n,
      obj_metadata = \<lparr>md_kind = kind, md_size = 7, md_created_at_unix_ms = None,
        md_modified_at_unix_ms = Some 5, md_hidden = False, md_availability = Online\<rparr>\<rparr>"

definition sample_snapshot :: "nat \<Rightarrow> nat \<Rightarrow> nat option \<Rightarrow> string \<Rightarrow> FileLinkSnapshot" where
  "sample_snapshot i obj parent name =
     \<lparr>lnk_file_link_id = from_u128 (of_nat i), lnk_object_key = sample_key obj,
      lnk_parent_key = map_option sample_key parent, lnk_name = name\<rparr>"

definition sample_volume :: VolumeDescriptor where
  "sample_volume = \<lparr>vd_volume_id = from_u128 1, vd_display_name = None, vd_mount_points = [''C''],
     vd_filesystem = Some ''NTFS'', vd_removable = False, vd_local = True\<rparr>"

definition sample_mutations :: "GraphMutation list" where
  "sample_mutations =
     [UpsertVolume sample_volume,
      UpsertObject (sample_object 2 Directory), UpsertLink (sample_snapshot 10 2 None ''docs'') False,
      UpsertObject (sample_object 3 File), UpsertLink (sample_snapshot 11 3 (Some 2) ''a.txt'') False]"

definition apply_all :: "graph_db \<Rightarrow> GraphMutation list \<Rightarrow> graph_db graph_result" where
  "apply_all db ms = fold_r (\<lambda>db m. and_then (apply_mutation db m 1) (\<lambda>(db', _). Inr db')) db ms"

lemma store_ok_apply_all: "store_ok db \<Longrightarrow> apply_all db ms = Inr db' \<Longrightarrow> store_ok db'"
  unfolding apply_all_def
  by (erule fold_r_invariant) (auto simp: result_simps dest: store_ok_apply_mutation)

definition sample_store :: graph_db where
  "sample_store = projr (apply_all empty_db sample_mutations)"

lemma sample_store_run: "apply_all empty_db sample_mutations = Inr sample_store"
proof -
  have "\<not> isl (apply_all empty_db sample_mutations)" by code_simp
  then show ?thesis by (cases "apply_all empty_db sample_mutations") (simp_all add: sample_store_def)
qed

lemma sample_store_ok: "store_ok sample_store"
  by (rule store_ok_apply_all [OF _ sample_store_run])
     (simp add: store_ok_def schema_ok_empty outbox_ok_empty)

definition sample_document :: CatalogDocument where
  "sample_document =
     \<lparr>doc_identity = \<lparr>ci_object_key = sample_key 3, ci_file_link_id = from_u128 11, ci_document_id = from_u128 11\<rparr>,
      doc_document_version = DocumentVersion 1, doc_name = ''a.txt'', doc_resolved_path = ''docs/a.txt'',
      doc_extension = Some ''txt'', doc_metadata = obj_metadata (sample_object 3 File)\<rparr>"

definition sample_synced :: graph_db where
  "sample_synced = fst (projr (sync_catalog_projection (sample_env []) sample_store (from_u128 11) 1 Rebuildable))"

theorem desired_document_round_trip_witness:
  "desired_catalog_document (sample_env []) sample_synced (document_id_for_link (from_u128 11))
     = Inr (Some sample_document)"
proof (rule desired_document_round_trip [OF sample_store_ok, where v = 1 and mode = Rebuildable and n = 0])
  show "load_link sample_store (from_u128 11) = Some (stored_link_from_row
      \<lparr>l_file_link_id = from_u128 11, l_object = sample_key 3, l_parent = Some (sample_key 2),
       l_name = ''a.txt'', l_traversal_boundary = False, l_observation_generation = 1\<rparr>)"
    by code_simp
  show "build_catalog_document (sample_env []) sample_store (stored_link_from_row
      \<lparr>l_file_link_id = from_u128 11, l_object = sample_key 3, l_parent = Some (sample_key 2),
       l_name = ''a.txt'', l_traversal_boundary = False, l_observation_generation = 1\<rparr>) 1 = Inr sample_document"
    by code_simp
  show "sync_catalog_projection (sample_env []) sample_store (from_u128 11) (uint (1 :: u64)) Rebuildable
      = Inr (sample_synced, 0)"
    by code_simp
  have "find_document sample_store (document_id_for_link (from_u128 11)) = None" by code_simp
  then show "row_fp (sample_env []) row \<noteq> fp_of (sample_env []) sample_document"
    if "find_document sample_store (document_id_for_link (from_u128 11)) = Some row" for row
    using that by simp
qed

end
