(* ===== verification/Graph_Ingest.thy ===== *)
theory Graph_Ingest
  imports Graph_Projection
begin

text \<open>
  Atomic ingestion (\<open>crates/filesystem-graph/src/store.rs\<close>): a batch of graph mutations, the catalog
  projection of every link it affects and the provider checkpoint commit in one transaction, or not
  at all.

  A transaction body returns the new database or an error; \<open>transact\<close> commits or rolls back, so the
  public operations return the database afterwards together with their \<open>Result\<close>.

  Shown: every commit keeps the schema, its CHECK constraints and the outbox order; a failed batch
  changes nothing; a committed batch advances the generation of its own volume by one, stores its
  checkpoint, leaves every affected link's desired document in agreement with the graph, and appends
  to the outbox exactly the mutations that carry an agreeing index along; suppressing the outbox
  before the first consumer exists gives the same desired state.
\<close>

definition transact :: "graph_db \<Rightarrow> (graph_db \<times> 'a) graph_result \<Rightarrow> graph_db \<times> 'a graph_result" where
  "transact db r = (case r of Inl e \<Rightarrow> (db, Inl e) | Inr (db', x) \<Rightarrow> (db', Inr x))"

lemma transact_simps [simp]:
  "transact db (Inl e) = (db, Inl e)"
  "transact db (Inr (db', x)) = (db', Inr x)"
  by (simp_all add: transact_def)

section \<open>Batches\<close>

definition collect_object_link_ids :: "graph_db \<Rightarrow> FileKey \<Rightarrow> FileLinkId list \<Rightarrow> FileLinkId list" where
  "collect_object_link_ids db obj affected =
     fold insort_insert
       (map l_file_link_id (filter (\<lambda>r. l_object r = obj) (graph_file_links db))) affected"

fun collect_affected_links :: "graph_db \<Rightarrow> GraphMutation \<Rightarrow> FileLinkId list \<Rightarrow> FileLinkId list" where
  "collect_affected_links db (UpsertLink link _) affected =
     fold insort_insert (map fst (stale_observation_link_conflicts db link))
       (insort_insert (lnk_file_link_id link) affected)"
| "collect_affected_links db (RemoveLink link _) affected = insort_insert link affected"
| "collect_affected_links db (UpsertObject obj) affected =
     collect_object_link_ids db (obj_object_key obj) affected"
| "collect_affected_links db (TombstoneObject obj) affected =
     fold insort_insert
       (map d_file_link_id (filter (\<lambda>d. d_object d = obj) (graph_catalog_documents db)))
       (collect_object_link_ids db obj affected)"
| "collect_affected_links db (SetVolumeState _ _) affected = affected"
| "collect_affected_links db (RequireReconciliation _ _) affected = affected"
| "collect_affected_links db (UpsertVolume _) affected = affected"

definition apply_mutations ::
    "graph_db \<Rightarrow> GraphMutation list \<Rightarrow> i64 \<Rightarrow> (graph_db \<times> nat \<times> FileLinkId list) graph_result" where
  "apply_mutations db mutations generation =
     fold_r (\<lambda>(db, refresh_jobs, affected) m.
       and_then (apply_mutation db m generation) (\<lambda>(db', n).
       Inr (db', refresh_jobs + n, collect_affected_links db m affected))) (db, 0, []) mutations"

definition sync_links ::
    "graph_env \<Rightarrow> graph_db \<Rightarrow> FileLinkId list \<Rightarrow> i64 \<Rightarrow> ProjectionOutboxMode \<Rightarrow> (graph_db \<times> nat) graph_result" where
  "sync_links env db links generation outbox_mode =
     fold_r (\<lambda>(db, appended) link.
       and_then (sync_catalog_projection env db link generation outbox_mode) (\<lambda>(db', n).
       Inr (db', appended + n))) (db, 0) links"

definition current_generation :: "graph_db \<Rightarrow> VolumeId \<Rightarrow> i64" where
  "current_generation db v = (case find_volume db v of None \<Rightarrow> 0 | Some row \<Rightarrow> v_generation row)"

definition set_generation :: "graph_db \<Rightarrow> VolumeId \<Rightarrow> i64 \<Rightarrow> graph_db" where
  "set_generation db v generation = db\<lparr>graph_volumes :=
     tbl_update (\<lambda>r. v_volume_id r = v) (\<lambda>r. r\<lparr>v_generation := generation\<rparr>) (graph_volumes db)\<rparr>"

definition upsert_checkpoint :: "graph_db \<Rightarrow> checkpoint_row \<Rightarrow> graph_db graph_result" where
  "upsert_checkpoint db row =
     (if find_volume db (cp_volume_id row) = None then Inl (Sqlite ConstraintForeignKey)
      else Inr (db\<lparr>graph_provider_checkpoints :=
        tbl_upsert cp_volume_id checkpoint_merge row (graph_provider_checkpoints db)\<rparr>))"

definition batch_transaction ::
    "graph_env \<Rightarrow> graph_db \<Rightarrow> GraphMutationBatch \<Rightarrow> ProjectionOutboxMode \<Rightarrow>
     (graph_db \<times> i64 \<times> nat \<times> nat) graph_result" where
  "batch_transaction env db batch outbox_mode =
     (if outbox_mode = Rebuildable \<and> projection_consumers_exist db
      then Inl (Invariant ''rebuildable graph batch requires zero projection consumers'')
      else
        and_then (ok_or (checked_add_i64 (current_generation db (gb_volume_id batch)) 1)
                    (NumericRange ''graph generation'')) (\<lambda>generation.
        and_then (apply_mutations db (gb_mutations batch) generation) (\<lambda>(db1, refresh_jobs, affected).
        and_then (sync_links env db1 affected generation outbox_mode) (\<lambda>(db2, outbox_mutations).
        if tbl_count (\<lambda>r. v_volume_id r = gb_volume_id batch) (graph_volumes db2) \<noteq> 1
        then Inl (Invariant ''batch must upsert its volume before graph observations'')
        else
          and_then (upsert_checkpoint (set_generation db2 (gb_volume_id batch) generation)
            \<lparr>cp_volume_id = gb_volume_id batch, cp_provider_id = pc_provider_id (gb_checkpoint batch),
             cp_format_version = uint (pc_format_version (gb_checkpoint batch)),
             cp_opaque = pc_opaque (gb_checkpoint batch)\<rparr>) (\<lambda>db3.
          Inr (db3, generation, refresh_jobs, outbox_mutations))))))"

definition apply_batch_with_outbox_mode ::
    "graph_env \<Rightarrow> graph_db \<Rightarrow> GraphMutationBatch \<Rightarrow> ProjectionOutboxMode \<Rightarrow> graph_db \<times> ApplySummary graph_result" where
  "apply_batch_with_outbox_mode env db batch outbox_mode =
     (case graph_batch_validate batch of
        Inl e \<Rightarrow> (db, Inl e)
      | Inr _ \<Rightarrow>
          (case transact db (batch_transaction env db batch outbox_mode) of
             (db', Inl e) \<Rightarrow> (db', Inl e)
           | (db', Inr (generation, refresh_jobs, outbox_mutations)) \<Rightarrow>
               (db', and_then (ok_or (u64_try_from_i64 generation) (NumericRange ''graph generation'')) (\<lambda>g.
                  Inr \<lparr>as_mutations = length (gb_mutations batch), as_generation = g,
                       as_refresh_jobs_enqueued = refresh_jobs,
                       as_outbox_mutations_appended = outbox_mutations\<rparr>))))"

definition apply_batch where
  "apply_batch env db batch = apply_batch_with_outbox_mode env db batch Durable"

definition apply_rebuildable_batch where
  "apply_rebuildable_batch env db batch = apply_batch_with_outbox_mode env db batch Rebuildable"

definition ingest_snapshot ::
    "graph_env \<Rightarrow> graph_db \<Rightarrow> VolumeDescriptor \<Rightarrow> ProviderCheckpoint \<Rightarrow> FilesystemEvent list \<Rightarrow>
     graph_db \<times> ApplySummary graph_result" where
  "ingest_snapshot env db descriptor cp events =
     apply_batch env db
       \<lparr>gb_volume_id = vd_volume_id descriptor, gb_checkpoint = cp,
        gb_mutations = UpsertVolume descriptor # map mutation_of_event events\<rparr>"

definition has_projection_consumers :: "graph_db \<Rightarrow> bool" where
  "has_projection_consumers db = projection_consumers_exist db"

definition checkpoint :: "graph_db \<Rightarrow> VolumeId \<Rightarrow> ProviderCheckpoint option graph_result" where
  "checkpoint db v =
     (case find_checkpoint db v of
        None \<Rightarrow> Inr None
      | Some row \<Rightarrow>
          if 0 \<le> cp_format_version row \<and> cp_format_version row < 2 ^ 32
          then Inr (Some \<lparr>pc_provider_id = cp_provider_id row,
            pc_format_version = word_of_int (cp_format_version row), pc_volume_id = v,
            pc_opaque = cp_opaque row\<rparr>)
          else Inl (Sqlite (IntegralValueOutOfRange (cp_format_version row))))"

section \<open>Check constraints\<close>

text \<open>The CHECK clauses of the schema that bound numbers, and the one that ties the staged final
  checkpoint of an observation session to its phase.\<close>

definition session_check :: "session_row \<Rightarrow> bool" where
  "session_check s \<longleftrightarrow> 0 \<le> s_scan_generation s \<and> s_scan_generation s \<le> i64_max
   \<and> (\<forall>f. s_final_format_version s = Some f \<longrightarrow> 0 \<le> f)
   \<and> (if s_phase s = Scanning
      then s_final_provider_id s = None \<and> s_final_format_version s = None \<and> s_final_checkpoint s = None
      else s_final_provider_id s \<noteq> None \<and> s_final_format_version s \<noteq> None \<and> s_final_checkpoint s \<noteq> None)"

definition checks_ok :: "graph_db \<Rightarrow> bool" where
  "checks_ok db \<longleftrightarrow>
     (\<forall>r \<in> set (graph_volumes db). 0 \<le> v_generation r \<and> v_generation r \<le> i64_max)
   \<and> (\<forall>r \<in> set (graph_file_objects db). 0 \<le> o_size r \<and> o_size r \<le> i64_max)
   \<and> (\<forall>r \<in> set (graph_volume_observation_sessions db). session_check r)
   \<and> (\<forall>r \<in> set (graph_projection_consumers db). 0 \<le> c_index_generation r \<and> c_index_generation r \<le> i64_max)"

definition graph_ok :: "graph_db \<Rightarrow> bool" where
  "graph_ok db \<longleftrightarrow> store_ok db \<and> checks_ok db"

lemma graph_ok_empty: "graph_ok empty_db"
  using schema_ok_empty outbox_ok_empty
  by (simp add: graph_ok_def store_ok_def checks_ok_def) (simp add: empty_db_def)

interpretation checks_frame: link_statement_invariant checks_ok
  by unfold_locales (auto simp: checks_ok_def set_tombstoned_def set_tbl_update)

interpretation volumes_frame: link_statement_invariant "\<lambda>db. graph_volumes db = c" for c
  by unfold_locales simp_all

lemma checks_ok_volumes:
  assumes "checks_ok db" and "\<forall>r \<in> set vs. 0 \<le> v_generation r \<and> v_generation r \<le> i64_max"
  shows "checks_ok (db\<lparr>graph_volumes := vs\<rparr>)"
  using assms by (simp add: checks_ok_def)

lemma checks_ok_upsert_object:
  assumes "checks_ok db" and "upsert_object db obj g = Inr db'"
  shows "checks_ok db'"
proof -
  obtain sz where sz: "0 \<le> sz" "sz \<le> i64_max" "db' = db\<lparr>graph_file_objects :=
        tbl_upsert o_key object_merge (object_row_of obj sz g) (graph_file_objects db)\<rparr>"
    using assms(2) by (auto simp: upsert_object_def result_simps i64_try_from_u64_Some split: if_splits)
  have "0 \<le> o_size r \<and> o_size r \<le> i64_max"
    if "r \<in> set (tbl_upsert o_key object_merge (object_row_of obj sz g) (graph_file_objects db))" for r
    using objects_table.in_upsert [OF that] assms(1) sz(1,2)
    by (auto simp: checks_ok_def object_merge_def object_row_of_def)
  with assms(1) sz(3) show ?thesis by (simp add: checks_ok_def)
qed

lemma checks_ok_apply_mutation:
  assumes "checks_ok db" and "apply_mutation db m g = Inr (db', n)"
  shows "checks_ok db'"
proof (cases m)
  case (UpsertVolume d)
  have "0 \<le> v_generation r \<and> v_generation r \<le> i64_max" if "r \<in> set (graph_volumes (upsert_volume db d))" for r
    using that assms(1) unfolding upsert_volume_def
    by (auto simp: checks_ok_def volume_merge_def i64_max_def dest!: volumes_table.in_upsert)
  with assms UpsertVolume show ?thesis
    by (auto simp: upsert_volume_def intro!: checks_ok_volumes)
next
  case (UpsertObject obj)
  with assms show ?thesis by (auto simp: result_simps dest: checks_ok_upsert_object)
next
  case (UpsertLink link b)
  with assms show ?thesis using checks_frame.keeps_upsert_link by simp
next
  case (RemoveLink l k)
  with assms show ?thesis using checks_frame.keeps_remove_link_internal by (simp add: remove_link_def)
next
  case (TombstoneObject k)
  with assms show ?thesis by (auto simp: result_simps tombstone_object_def checks_frame.keeps_tombstone split: if_splits)
qed (use assms in \<open>auto simp: result_simps set_volume_state_def require_reconciliation_def
      enqueue_volume_projection_refresh_def checks_ok_def set_tbl_update split: if_splits\<close>)

lemma checks_ok_graph_part: "graph_part db' = graph_part db \<Longrightarrow> checks_ok db' = checks_ok db"
  using graph_part_eq_fields [of db' db] by (simp add: checks_ok_def)

lemma graph_ok_apply_mutation:
  "graph_ok db \<Longrightarrow> apply_mutation db m g = Inr (db', n) \<Longrightarrow> graph_ok db'"
  using store_ok_apply_mutation checks_ok_apply_mutation unfolding graph_ok_def by blast

lemma graph_ok_sync:
  "graph_ok db \<Longrightarrow> sync_catalog_projection env db l g mode = Inr (db', n) \<Longrightarrow> graph_ok db'"
  using store_ok_sync checks_ok_graph_part [OF sync_frame(1)] unfolding graph_ok_def by blast

section \<open>The parts of a batch\<close>

lemma set_insort_inserts [simp]: "set (fold insort_insert xs acc) = set xs \<union> set acc"
  by (induction xs arbitrary: acc) (auto simp: set_insort_insert)

lemma collect_affected_links_mono: "set affected \<subseteq> set (collect_affected_links db m affected)"
  by (cases m) (auto simp: collect_object_link_ids_def set_insort_insert)

lemma apply_mutations_invariant:
  assumes "apply_mutations db ms g = Inr (db', jobs, affected)" and "P db"
    and "\<And>db m db' n. P db \<Longrightarrow> apply_mutation db m g = Inr (db', n) \<Longrightarrow> P db'"
  shows "P db'"
proof -
  have "(\<lambda>(db, _, _). P db) (db', jobs, affected)"
    using assms(1) unfolding apply_mutations_def
    by (rule fold_r_invariant) (use assms(2,3) in \<open>auto simp: result_simps\<close>)
  then show ?thesis by simp
qed

lemma apply_mutations_projection_part:
  assumes "apply_mutations db ms g = Inr (db', jobs, affected)"
  shows "projection_part db' = projection_part db"
  by (rule apply_mutations_invariant [OF assms, where P = "\<lambda>s. projection_part s = projection_part db"])
     (simp_all add: projection_part_apply_mutation)

lemma sync_links_invariant:
  assumes "sync_links env db links g mode = Inr (db', n)" and "P db"
    and "\<And>db l db' n. P db \<Longrightarrow> sync_catalog_projection env db l g mode = Inr (db', n) \<Longrightarrow> P db'"
  shows "P db'"
proof -
  have "(\<lambda>(db, _). P db) (db', n)"
    using assms(1) unfolding sync_links_def
    by (rule fold_r_invariant) (use assms(2,3) in \<open>auto simp: result_simps\<close>)
  then show ?thesis by simp
qed

text \<open>One link and then the rest.\<close>

lemma sync_links_Cons:
  "sync_links env db (l # ls) g mode = Inr (db', n) \<longleftrightarrow>
     (\<exists>db1 a b. sync_catalog_projection env db l g mode = Inr (db1, a)
        \<and> sync_links env db1 ls g mode = Inr (db', b) \<and> n = a + b)"
proof -
  let ?f = "\<lambda>(db, appended) link. and_then (sync_catalog_projection env db link g mode)
    (\<lambda>(db', n). Inr (db', appended + n))"
  have shift: "fold_r ?f (s, a) ls = Inr (db', n) \<longleftrightarrow> (\<exists>b. fold_r ?f (s, 0) ls = Inr (db', b) \<and> n = a + b)" for s a n
  proof (induction ls arbitrary: s a n)
    case Nil
    then show ?case by auto
  next
    case (Cons x xs)
    show ?case
    proof (cases "sync_catalog_projection env s x g mode")
      case (Inr r)
      obtain s1 k where "r = (s1, k)" by (cases r)
      with Inr show ?thesis by (auto simp: Cons.IH [of s1 "a + k"] Cons.IH [of s1 k])
    qed simp
  qed
  show ?thesis
  proof (cases "sync_catalog_projection env db l g mode")
    case (Inr r)
    obtain s1 k where "r = (s1, k)" by (cases r)
    with Inr show ?thesis by (auto simp: sync_links_def shift [of s1 k])
  qed (simp add: sync_links_def)
qed

lemma sync_links_Nil [simp]: "sync_links env db [] g mode = Inr (db', n) \<longleftrightarrow> db' = db \<and> n = 0"
  by (auto simp: sync_links_def)

lemma sync_links_in_sync:
  assumes "sync_links env db links g mode = Inr (db', n)" and "l \<in> set links"
  shows "in_sync env db' l"
  using assms
proof (induction links arbitrary: db n)
  case (Cons x xs)
  from Cons.prems(1) obtain db1 a b where 1: "sync_catalog_projection env db x g mode = Inr (db1, a)"
      "sync_links env db1 xs g mode = Inr (db', b)"
    by (auto simp: sync_links_Cons)
  show ?case
  proof (cases "l = x")
    case True
    then have "in_sync env db1 l" using sync_makes_in_sync [OF 1(1)] by simp
    with 1(2) show ?thesis
      by (rule sync_links_invariant [where P = "\<lambda>s. in_sync env s l"]) (rule sync_keeps_in_sync)
  qed (use Cons.IH [OF 1(2)] Cons.prems(2) in simp)
qed simp

lemma sync_links_replay:
  assumes "sync_links env db links g Durable = Inr (db', n)" and "json_round_trip env"
  shows "\<exists>ms. outbox_extends env db db' ms \<and> length ms = n
    \<and> (\<forall>idx. index_agrees env idx db \<longrightarrow> index_agrees env (replay idx ms) db')"
  using assms(1)
proof (induction links arbitrary: db n)
  case Nil
  then show ?case by (intro exI [of _ "[]"]) (simp add: outbox_extends_same)
next
  case (Cons x xs)
  from Cons.prems obtain db1 a b where 1: "sync_catalog_projection env db x g Durable = Inr (db1, a)"
      "sync_links env db1 xs g Durable = Inr (db', b)" "n = a + b"
    by (auto simp: sync_links_Cons)
  from sync_replay [OF 1(1) assms(2)] obtain ms where ms: "outbox_extends env db db1 ms" "length ms = a"
      "\<forall>idx. index_agrees env idx db \<longrightarrow> index_agrees env (replay idx ms) db1" by blast
  from Cons.IH [OF 1(2)] obtain ns where ns: "outbox_extends env db1 db' ns" "length ns = b"
      "\<forall>idx. index_agrees env idx db1 \<longrightarrow> index_agrees env (replay idx ns) db'" by blast
  show ?case
    using outbox_extends_trans [OF ms(1) ns(1)] ms(2,3) ns(2,3) 1(3)
    by (intro exI [of _ "ms @ ns"]) simp
qed

section \<open>Committed and failed batches\<close>

lemma batch_transaction_cases:
  assumes "batch_transaction env db b mode = Inr (db', g, jobs, n)"
  obtains db1 affected db2 where "g = current_generation db (gb_volume_id b) + 1" "g \<le> i64_max"
    and "mode = Rebuildable \<Longrightarrow> graph_projection_consumers db = []"
    and "apply_mutations db (gb_mutations b) g = Inr (db1, jobs, affected)"
    and "sync_links env db1 affected g mode = Inr (db2, n)"
    and "find_volume db2 (gb_volume_id b) \<noteq> None"
    and "upsert_checkpoint (set_generation db2 (gb_volume_id b) g)
       \<lparr>cp_volume_id = gb_volume_id b, cp_provider_id = pc_provider_id (gb_checkpoint b),
        cp_format_version = uint (pc_format_version (gb_checkpoint b)),
        cp_opaque = pc_opaque (gb_checkpoint b)\<rparr> = Inr db'"
proof -
  from assms obtain db1 affected db2 where
      "g = current_generation db (gb_volume_id b) + 1" "g \<le> i64_max"
      "mode = Rebuildable \<Longrightarrow> graph_projection_consumers db = []"
      "apply_mutations db (gb_mutations b) g = Inr (db1, jobs, affected)"
      "sync_links env db1 affected g mode = Inr (db2, n)"
      and cp: "upsert_checkpoint (set_generation db2 (gb_volume_id b) g)
       \<lparr>cp_volume_id = gb_volume_id b, cp_provider_id = pc_provider_id (gb_checkpoint b),
        cp_format_version = uint (pc_format_version (gb_checkpoint b)),
        cp_opaque = pc_opaque (gb_checkpoint b)\<rparr> = Inr db'"
    by (auto simp: batch_transaction_def result_simps checked_add_i64_Some projection_consumers_exist_def
        split: if_splits prod.splits)
  moreover from cp have "find_volume db2 (gb_volume_id b) \<noteq> None"
    by (auto simp: upsert_checkpoint_def set_generation_def tbl_find_update split: if_splits)
  ultimately show thesis using that by blast
qed

lemma apply_batch_Inr:
  "apply_batch_with_outbox_mode env db b mode = (db', Inr s) \<longleftrightarrow>
     graph_batch_validate b = Inr ()
   \<and> (\<exists>g jobs n g'. batch_transaction env db b mode = Inr (db', g, jobs, n) \<and> u64_try_from_i64 g = Some g'
        \<and> s = \<lparr>as_mutations = length (gb_mutations b), as_generation = g',
               as_refresh_jobs_enqueued = jobs, as_outbox_mutations_appended = n\<rparr>)"
  by (auto simp: apply_batch_with_outbox_mode_def result_simps transact_def
      split: sum.splits prod.splits)

lemma apply_batch_Inl:
  "apply_batch_with_outbox_mode env db b mode = (db', Inl e) \<Longrightarrow>
     db' = db \<or> (\<exists>g jobs n. batch_transaction env db b mode = Inr (db', g, jobs, n) \<and> u64_try_from_i64 g = None)"
  by (auto simp: apply_batch_with_outbox_mode_def result_simps transact_def
      split: sum.splits prod.splits)

lemma current_generation_nonneg: "graph_ok db \<Longrightarrow> 0 \<le> current_generation db v"
  by (auto simp: current_generation_def graph_ok_def checks_ok_def split: option.splits dest: tbl_find_Some)

lemma set_generation_frame [simp]:
  "projection_part (set_generation db v g) = projection_part db"
  "graph_file_links (set_generation db v g) = graph_file_links db"
  "graph_file_objects (set_generation db v g) = graph_file_objects db"
  by (simp_all add: set_generation_def projection_part_def)

lemma find_volume_set_generation:
  "find_volume (set_generation db v g) w =
     map_option (\<lambda>r. if w = v then r\<lparr>v_generation := g\<rparr> else r) (find_volume db w)"
  unfolding set_generation_def by (simp add: tbl_find_update_key option.map_ident)

lemma graph_ok_set_generation:
  assumes "graph_ok db" and "0 \<le> g" and "g \<le> i64_max"
  shows "graph_ok (set_generation db v g)"
  using assms schema_ok_volume_update [of db "\<lambda>r. r\<lparr>v_generation := g\<rparr>"]
    outbox_ok_cong [OF set_generation_frame(1) [of db v g]]
  by (auto simp: graph_ok_def store_ok_def checks_ok_def set_generation_def set_tbl_update)

lemma graph_ok_upsert_checkpoint:
  assumes "graph_ok db" and "upsert_checkpoint db row = Inr db'"
  shows "graph_ok db'"
proof -
  let ?t = "tbl_upsert cp_volume_id checkpoint_merge row (graph_provider_checkpoints db)"
  have db': "db' = db\<lparr>graph_provider_checkpoints := ?t\<rparr>" "find_volume db (cp_volume_id row) \<noteq> None"
    using assms(2) by (auto simp: upsert_checkpoint_def split: if_splits)
  have "find_volume db (cp_volume_id r) \<noteq> None" if "r \<in> set ?t" for r
    using checkpoints_table.in_upsert [OF that] db'(2) assms(1)
    by (auto simp: graph_ok_def store_ok_def schema_ok_def fk_ok_def checkpoint_merge_def)
  moreover have "distinct (map cp_volume_id ?t)"
    using assms(1) checkpoints_table.distinct_upsert
    by (simp add: graph_ok_def store_ok_def schema_ok_def keys_ok_def)
  ultimately show ?thesis using assms(1)
    by (simp add: db' graph_ok_def store_ok_def schema_ok_def keys_ok_def slots_ok_def fk_ok_def
        live_links_def outbox_ok_def high_water_def checks_ok_def)
qed

lemma graph_ok_batch_transaction:
  assumes "graph_ok db" and "batch_transaction env db b mode = Inr (db', g, jobs, n)"
  shows "graph_ok db'" and "0 \<le> g"
proof -
  from assms(2) obtain db1 affected db2 where 1: "g = current_generation db (gb_volume_id b) + 1" "g \<le> i64_max"
      "apply_mutations db (gb_mutations b) g = Inr (db1, jobs, affected)"
      "sync_links env db1 affected g mode = Inr (db2, n)"
      "upsert_checkpoint (set_generation db2 (gb_volume_id b) g)
       \<lparr>cp_volume_id = gb_volume_id b, cp_provider_id = pc_provider_id (gb_checkpoint b),
        cp_format_version = uint (pc_format_version (gb_checkpoint b)),
        cp_opaque = pc_opaque (gb_checkpoint b)\<rparr> = Inr db'"
    by (rule batch_transaction_cases)
  show "0 \<le> g" using 1(1) current_generation_nonneg [OF assms(1)] by simp
  have "graph_ok db1"
    using 1(3) assms(1) by (rule apply_mutations_invariant) (rule graph_ok_apply_mutation)
  with 1(4) have "graph_ok db2" by (rule sync_links_invariant) (rule graph_ok_sync)
  then show "graph_ok db'"
    using graph_ok_upsert_checkpoint [OF graph_ok_set_generation 1(5)] \<open>0 \<le> g\<close> 1(2) by blast
qed

text \<open>C27: every outcome of applying a batch, committed or failed, leaves a database that satisfies
  the schema: primary keys, unique names per directory, foreign keys, CHECK clauses, ordered outbox,
  and no tombstoned object that still has a link.\<close>

theorem apply_batch_keeps_schema:
  assumes "graph_ok db" and "apply_batch_with_outbox_mode env db b mode = (db', r)"
  shows "graph_ok db'"
proof (cases r)
  case (Inl e)
  with assms show ?thesis using apply_batch_Inl graph_ok_batch_transaction(1) [OF assms(1)] by metis
next
  case (Inr s)
  with assms show ?thesis using graph_ok_batch_transaction(1) [OF assms(1)] by (auto simp: apply_batch_Inr)
qed

text \<open>A batch that is rejected commits nothing: neither graph state nor checkpoint changes.\<close>

theorem apply_batch_atomic:
  assumes "graph_ok db" and "apply_batch_with_outbox_mode env db b mode = (db', Inl e)"
  shows "db' = db"
  using apply_batch_Inl [OF assms(2)] graph_ok_batch_transaction(2) [OF assms(1)]
  by (auto simp: u64_try_from_i64_def split: if_splits)

subsection \<open>Generation and checkpoint\<close>

lemma find_volume_apply_mutation:
  assumes "apply_mutation db m g = Inr (db', n)" and "mutation_volumes m \<subseteq> {v}"
  shows "w \<noteq> v \<Longrightarrow> find_volume db' w = find_volume db w"
    and "current_generation db' v = current_generation db v"
proof -
  have "(w \<noteq> v \<longrightarrow> find_volume db' w = find_volume db w) \<and> current_generation db' v = current_generation db v"
  proof (cases m)
    case (UpsertVolume d)
    with assms have "db' = upsert_volume db d" "vd_volume_id d = v" by auto
    then show ?thesis
      by (auto simp: upsert_volume_def volumes_table.find_upsert current_generation_def volume_merge_def
          split: option.splits)
  next
    case (SetVolumeState u s)
    with assms have "graph_volumes db' = tbl_update (\<lambda>r. v_volume_id r = v) (\<lambda>r. r\<lparr>v_state := s\<rparr>) (graph_volumes db)"
      by (auto simp: result_simps set_volume_state_def enqueue_volume_projection_refresh_def split: if_splits)
    then show ?thesis
      by (auto simp: tbl_find_update_key current_generation_def split: option.splits)
  next
    case (RequireReconciliation u reason)
    with assms have "graph_volumes db' = tbl_update (\<lambda>r. v_volume_id r = v)
        (\<lambda>r. r\<lparr>v_state := NeedsReconciliation, v_reconciliation_reason := Some reason\<rparr>) (graph_volumes db)"
      by (auto simp: result_simps require_reconciliation_def enqueue_volume_projection_refresh_def split: if_splits)
    then show ?thesis
      by (auto simp: tbl_find_update_key current_generation_def split: option.splits)
  next
    case (UpsertLink link b)
    with assms have "graph_volumes db' = graph_volumes db"
      using volumes_frame.keeps_upsert_link [OF refl] by simp
    then show ?thesis by (simp add: current_generation_def)
  next
    case (RemoveLink l k)
    with assms have "graph_volumes db' = graph_volumes db"
      using volumes_frame.keeps_remove_link_internal [OF refl] by (simp add: remove_link_def)
    then show ?thesis by (simp add: current_generation_def)
  next
    case (UpsertObject obj)
    with assms have "graph_volumes db' = graph_volumes db"
      by (auto simp: result_simps upsert_object_def split: if_splits)
    then show ?thesis by (simp add: current_generation_def)
  next
    case (TombstoneObject k)
    with assms have "graph_volumes db' = graph_volumes db"
      by (auto simp: result_simps tombstone_object_def split: if_splits)
    then show ?thesis by (simp add: current_generation_def)
  qed
  then show "w \<noteq> v \<Longrightarrow> find_volume db' w = find_volume db w"
    and "current_generation db' v = current_generation db v" by simp_all
qed

lemma fold_r_preserves_over:
  assumes "fold_r f s xs = Inr s'" and "\<And>s x s'. x \<in> set xs \<Longrightarrow> f s x = Inr s' \<Longrightarrow> h s' = h s"
  shows "h s' = h s"
  using fold_r_relates [OF assms(1), of "\<lambda>a b. h b = h a"] assms(2) by simp

lemma find_volume_apply_mutations:
  assumes "apply_mutations db ms g = Inr (db', jobs, affected)" and "\<forall>m \<in> set ms. mutation_volumes m \<subseteq> {v}"
    and "w \<noteq> v"
  shows "find_volume db' w = find_volume db w"
proof -
  have "(\<lambda>(db, _, _). find_volume db w) (db', jobs, affected) = (\<lambda>(db, _, _). find_volume db w) (db, 0 :: nat, [] :: FileLinkId list)"
    using assms(1) unfolding apply_mutations_def
    by (rule fold_r_preserves_over)
       (use assms(2,3) in \<open>auto simp: result_simps dest!: find_volume_apply_mutation(1) [where v = v and w = w]\<close>)
  then show ?thesis by simp
qed

lemma find_checkpoint_upsert_checkpoint:
  assumes "upsert_checkpoint db row = Inr db'"
  shows "find_checkpoint db' w = (if w = cp_volume_id row then Some row else find_checkpoint db w)"
proof -
  have "checkpoint_merge row old = row" if "cp_volume_id old = cp_volume_id row" for old
    using that by (cases row; cases old) (simp add: checkpoint_merge_def)
  then have "(case find_checkpoint db w of None \<Rightarrow> row | Some old \<Rightarrow> checkpoint_merge row old) = row"
    if "w = cp_volume_id row"
    using that by (auto split: option.splits dest: tbl_find_Some)
  then show ?thesis using assms
    by (auto simp: upsert_checkpoint_def checkpoints_table.find_upsert split: if_splits)
qed

lemma checkpoint_of_row:
  "find_checkpoint db v = Some \<lparr>cp_volume_id = v, cp_provider_id = p, cp_format_version = uint (f :: u32), cp_opaque = o'\<rparr>
   \<Longrightarrow> checkpoint db v = Inr (Some \<lparr>pc_provider_id = p, pc_format_version = f, pc_volume_id = v, pc_opaque = o'\<rparr>)"
  using uint_lt2p [of f] by (simp add: checkpoint_def)

text \<open>A committed batch stores its checkpoint and advances the generation of its volume by
  exactly one, in the same transaction; checkpoints and generations of other volumes stay as they
  were.\<close>

theorem apply_batch_commits_checkpoint:
  assumes "graph_ok db" and "apply_batch_with_outbox_mode env db b mode = (db', Inr s)"
  defines "v \<equiv> gb_volume_id b"
  shows "checkpoint db' v = Inr (Some (gb_checkpoint b))
    \<and> current_generation db' v = current_generation db v + 1
    \<and> uint (as_generation s) = current_generation db' v
    \<and> (\<forall>w. w \<noteq> v \<longrightarrow> checkpoint db' w = checkpoint db w \<and> find_volume db' w = find_volume db w)"
proof -
  from assms(2) obtain g jobs n where valid: "graph_batch_validate b = Inr ()"
    and tx: "batch_transaction env db b mode = Inr (db', g, jobs, n)"
    and s: "u64_try_from_i64 g = Some (as_generation s)" by (auto simp: apply_batch_Inr)
  have iso: "pc_volume_id (gb_checkpoint b) = v" "\<forall>m \<in> set (gb_mutations b). mutation_volumes m \<subseteq> {v}"
    using valid by (simp_all add: graph_batch_validate_def validate_mutations_iff v_def split: if_splits)
  from tx obtain db1 affected db2 where g: "g = current_generation db v + 1" "g \<le> i64_max"
    and 1: "apply_mutations db (gb_mutations b) g = Inr (db1, jobs, affected)"
      "sync_links env db1 affected g mode = Inr (db2, n)" "find_volume db2 v \<noteq> None"
    and cp: "upsert_checkpoint (set_generation db2 v g)
       \<lparr>cp_volume_id = v, cp_provider_id = pc_provider_id (gb_checkpoint b),
        cp_format_version = uint (pc_format_version (gb_checkpoint b)),
        cp_opaque = pc_opaque (gb_checkpoint b)\<rparr> = Inr db'"
    unfolding v_def by (rule batch_transaction_cases)
  have part: "graph_part db2 = graph_part db1"
    using 1(2) by (rule sync_links_invariant) (simp_all add: sync_frame(1))
  have vol: "find_volume db' w = map_option (\<lambda>r. if w = v then r\<lparr>v_generation := g\<rparr> else r) (find_volume db1 w)" for w
    using cp find_volume_set_generation [of w db2 v g] graph_part_eq_fields(1) [OF part]
    by (auto simp: upsert_checkpoint_def split: if_splits)
  have "find_checkpoint db2 w = find_checkpoint db w" for w
    using graph_part_eq_fields(2) [OF part] apply_mutations_projection_part [OF 1(1)]
    by (simp add: projection_part_def)
  then have cps: "find_checkpoint db' w = (if w = v then Some \<lparr>cp_volume_id = v,
      cp_provider_id = pc_provider_id (gb_checkpoint b),
      cp_format_version = uint (pc_format_version (gb_checkpoint b)),
      cp_opaque = pc_opaque (gb_checkpoint b)\<rparr> else find_checkpoint db w)" for w
    using find_checkpoint_upsert_checkpoint [OF cp, of w] by (simp add: set_generation_def)
  have "checkpoint db' v = Inr (Some (gb_checkpoint b))"
    using checkpoint_of_row [where db = db' and v = v] cps [of v] iso(1) by simp
  moreover have "current_generation db' v = g"
    using vol [of v] 1(3) graph_part_eq_fields(1) [OF part] by (auto simp: current_generation_def)
  moreover have "uint (as_generation s) = g"
    using s g(2) u64_i64_round_trip [of g] by (auto simp: u64_try_from_i64_Some i64_try_from_u64_Some)
  moreover have "checkpoint db' w = checkpoint db w \<and> find_volume db' w = find_volume db w" if "w \<noteq> v" for w
    using that cps [of w] vol [of w] find_volume_apply_mutations [OF 1(1) iso(2) that]
    by (simp add: checkpoint_def option.map_ident)
  ultimately show ?thesis using g(1) by simp
qed

subsection \<open>The projection after a batch\<close>

lemma resolve_loop_links:
  "graph_file_links db' = graph_file_links db \<Longrightarrow>
     resolve_loop db' lim cur comps seen t = resolve_loop db lim cur comps seen t"
proof (induction db lim cur comps seen t rule: resolve_loop.induct)
  case (1 db lim cur comps seen t)
  then have "load_only_link_for_object db' k = load_only_link_for_object db k" for k
    by (simp add: load_only_link_for_object_def)
  with 1 show ?case
    by (simp add: resolve_loop.simps [of db lim cur] resolve_loop.simps [of db' lim cur]
        split: option.split sum.split)
qed

lemma current_document_links:
  assumes "graph_file_links db' = graph_file_links db" and "graph_file_objects db' = graph_file_objects db"
    and "\<And>v. map_option v_state (find_volume db' v) = map_option v_state (find_volume db v)"
  shows "current_document env db' l = current_document env db l"
proof -
  have "build_catalog_document env db' x v = build_catalog_document env db x v" for x v
    using assms
    by (simp add: build_catalog_document_def load_object_metadata_def volume_state_def
        resolve_path_connection_def load_link_def resolve_loop_links [OF assms(1)])
  with assms(1) show ?thesis
    by (cases "find_link db l") (simp_all add: current_document_def load_link_def)
qed

lemma in_sync_finish:
  assumes "upsert_checkpoint (set_generation db v g) row = Inr db'" and "in_sync env db l"
  shows "in_sync env db' l"
proof -
  have db': "db' = (set_generation db v g)\<lparr>graph_provider_checkpoints :=
      tbl_upsert cp_volume_id checkpoint_merge row (graph_provider_checkpoints (set_generation db v g))\<rparr>"
    using assms(1) by (auto simp: upsert_checkpoint_def split: if_splits)
  have "current_document env db' l = current_document env db l"
    by (rule current_document_links)
       (simp_all add: db' find_volume_set_generation option.map_comp comp_def if_distrib cong: if_cong option.map_cong)
  moreover have "graph_catalog_documents db' = graph_catalog_documents db"
    by (simp add: db' set_generation_def)
  ultimately show ?thesis using assms(2) by (simp add: in_sync_def projected_def)
qed

lemma apply_mutations_snoc:
  "apply_mutations db (ms @ [m]) g = Inr (db', jobs, affected) \<longleftrightarrow>
     (\<exists>db1 j1 a1 n. apply_mutations db ms g = Inr (db1, j1, a1) \<and> apply_mutation db1 m g = Inr (db', n)
        \<and> jobs = j1 + n \<and> affected = collect_affected_links db1 m a1)"
  by (auto simp: apply_mutations_def fold_r_append result_simps split: prod.splits)

text \<open>The links a batch is about: those it observes or removes, all links of the objects it
  observes, and the projected links of the objects it tombstones.\<close>

definition touched_links :: "graph_db \<Rightarrow> graph_db \<Rightarrow> GraphMutation list \<Rightarrow> FileLinkId set" where
  "touched_links db db' ms =
     {lnk_file_link_id link | link b. UpsertLink link b \<in> set ms}
   \<union> {l | l k. RemoveLink l k \<in> set ms}
   \<union> {l_file_link_id r | r obj. UpsertObject obj \<in> set ms \<and> r \<in> set (graph_file_links db')
        \<and> l_object r = obj_object_key obj}
   \<union> {d_file_link_id d | d. TombstoneObject (d_object d) \<in> set ms \<and> d \<in> set (graph_catalog_documents db)}"

lemma enqueue_refresh_links: "enqueue_refresh db k g = Inr (db', n) \<Longrightarrow> graph_file_links db' = graph_file_links db"
  by (auto simp: enqueue_refresh_def split: if_splits)

lemma remove_link_internal_links:
  assumes "remove_link_internal db l k g b = Inr (db', n)"
  shows "set (graph_file_links db') \<subseteq> set (graph_file_links db)"
  using assms
  by (auto simp: remove_link_internal_def result_simps Let_def dest!: enqueue_refresh_links
      split: option.splits if_splits)

lemma remove_stale_conflicts_links:
  assumes "remove_stale_conflicts db cs g = Inr db'"
  shows "set (graph_file_links db') \<subseteq> set (graph_file_links db)"
  using assms unfolding remove_stale_conflicts_def
  by (rule fold_r_relates [where R = "\<lambda>a b. set (graph_file_links b) \<subseteq> set (graph_file_links a)"])
     (auto simp: result_simps intro: subsetD [OF remove_link_internal_links])

lemma apply_mutation_links:
  assumes "apply_mutation db m g = Inr (db', n)" and "r \<in> set (graph_file_links db')"
  shows "r \<in> set (graph_file_links db) \<or> (\<exists>link b. m = UpsertLink link b \<and> l_file_link_id r = lnk_file_link_id link)"
proof (cases m)
  case (UpsertLink link b)
  with assms(1) have "upsert_link db link b g = Inr (db', n)" by simp
  then obtain db1 db2 db3 where
      db1: "remove_stale_conflicts db (stale_observation_link_conflicts db link) g = Inr db1"
    and ch: "link_change_refresh db1 link g = Inr (db2, n)"
    and db3: "insert_link db2 link b g = Inr db3"
    and db': "db' = set_tombstoned db3 (lnk_object_key link) False"
    by (rule upsert_link_cases)
  have "graph_file_links db2 = graph_file_links db1"
    using link_change_refresh_cases(1) [OF ch] enqueue_refresh_links by blast
  then have "graph_file_links db3 = tbl_upsert l_file_link_id link_merge (link_row_of link b g) (graph_file_links db1)"
    using db3 by (auto simp: insert_link_def split: if_splits)
  then show ?thesis
    using assms(2) db' UpsertLink remove_stale_conflicts_links [OF db1]
    by (auto simp: link_row_of_def link_merge_def dest!: links_table.in_upsert)
next
  case (RemoveLink l k)
  with assms show ?thesis by (auto simp: remove_link_def dest: remove_link_internal_links)
qed (use assms in \<open>auto simp: result_simps upsert_volume_def set_volume_state_def upsert_object_def
      tombstone_object_def require_reconciliation_def enqueue_volume_projection_refresh_def split: if_splits\<close>)

lemma touched_links_affected:
  "apply_mutations db ms g = Inr (db', jobs, affected) \<Longrightarrow> touched_links db db' ms \<subseteq> set affected"
proof (induction ms arbitrary: db' jobs affected rule: rev_induct)
  case Nil
  then show ?case by (simp add: touched_links_def)
next
  case (snoc m ms)
  then obtain db1 j1 a1 n where 1: "apply_mutations db ms g = Inr (db1, j1, a1)"
      "apply_mutation db1 m g = Inr (db', n)" "affected = collect_affected_links db1 m a1"
    by (auto simp: apply_mutations_snoc)
  have docs: "graph_catalog_documents db1 = graph_catalog_documents db"
    using apply_mutations_projection_part [OF 1(1)] by (simp add: projection_part_def)
  have "touched_links db db' (ms @ [m]) \<subseteq> touched_links db db1 ms \<union> set (collect_affected_links db1 m a1)"
  proof
    fix l assume l: "l \<in> touched_links db db' (ms @ [m])"
    have new: "l \<in> set (collect_affected_links db1 m a1)" if "l \<in> touched_links db db1 [m]"
      using that docs by (cases m) (auto simp: touched_links_def collect_object_link_ids_def set_insort_insert)
    from l consider
        (up) link b where "UpsertLink link b \<in> set (ms @ [m])" "l = lnk_file_link_id link"
      | (rm) k where "RemoveLink l k \<in> set (ms @ [m])"
      | (obj) r obj where "UpsertObject obj \<in> set (ms @ [m])" "r \<in> set (graph_file_links db')"
          "l_object r = obj_object_key obj" "l = l_file_link_id r"
      | (tomb) d where "TombstoneObject (d_object d) \<in> set (ms @ [m])"
          "d \<in> set (graph_catalog_documents db)" "l = d_file_link_id d"
      unfolding touched_links_def by blast
    then have "l \<in> touched_links db db1 ms \<union> touched_links db db1 [m]"
    proof cases
      case (obj r obj)
      from apply_mutation_links [OF 1(2) obj(2)] show ?thesis
      proof
        assume "r \<in> set (graph_file_links db1)"
        with obj show ?thesis by (auto simp: touched_links_def)
      next
        assume "\<exists>link b. m = UpsertLink link b \<and> l_file_link_id r = lnk_file_link_id link"
        with obj(4) show ?thesis by (auto simp: touched_links_def)
      qed
    qed (auto simp: touched_links_def)
    with new show "l \<in> touched_links db db1 ms \<union> set (collect_affected_links db1 m a1)" by blast
  qed
  then show ?case using snoc.IH [OF 1(1)] collect_affected_links_mono 1(3) by blast
qed

text \<open>After a committed batch, the desired document of every link the batch is about agrees with
  the graph: it exists exactly when the link exists and its path resolves, and then records the
  fingerprint of the document the graph determines.\<close>

theorem apply_batch_syncs_projection:
  assumes "apply_batch_with_outbox_mode env db b mode = (db', Inr s)"
    and "link \<in> touched_links db db' (gb_mutations b)"
  shows "in_sync env db' link"
proof -
  from assms(1) obtain g jobs n where tx: "batch_transaction env db b mode = Inr (db', g, jobs, n)"
    by (auto simp: apply_batch_Inr)
  then obtain db1 affected db2 row where
      1: "apply_mutations db (gb_mutations b) g = Inr (db1, jobs, affected)"
      "sync_links env db1 affected g mode = Inr (db2, n)"
    and cp: "upsert_checkpoint (set_generation db2 (gb_volume_id b) g) row = Inr db'"
    by (rule batch_transaction_cases)
  have "graph_part db2 = graph_part db1"
    using 1(2) by (rule sync_links_invariant) (simp_all add: sync_frame(1))
  then have "graph_file_links db' = graph_file_links db1"
    using cp graph_part_eq_fields(4) [of db2 db1] by (auto simp: upsert_checkpoint_def split: if_splits)
  then have "touched_links db db' (gb_mutations b) = touched_links db db1 (gb_mutations b)"
    by (simp add: touched_links_def)
  then have "link \<in> set affected" using touched_links_affected [OF 1(1)] assms(2) by blast
  with 1(2) have "in_sync env db2 link" by (rule sync_links_in_sync)
  with cp show ?thesis by (rule in_sync_finish)
qed

text \<open>C1: the outbox refines desired state. Whenever an index agrees with desired state, applying the
  mutations that a committed batch appended to the outbox, in order, gives an index that agrees with
  the desired state after the batch, and their number is the one reported. This relies on the JSON
  codec only through its round trip.\<close>

theorem apply_batch_outbox_refines:
  assumes "apply_batch env db b = (db', Inr s)" and "json_round_trip env"
  shows "\<exists>ms. outbox_extends env db db' ms \<and> length ms = as_outbox_mutations_appended s
    \<and> (\<forall>idx. index_agrees env idx db \<longrightarrow> index_agrees env (replay idx ms) db')"
proof -
  from assms(1) obtain g jobs where "batch_transaction env db b Durable = Inr (db', g, jobs, as_outbox_mutations_appended s)"
    by (auto simp: apply_batch_def apply_batch_Inr)
  then obtain db1 affected db2 row where
      1: "apply_mutations db (gb_mutations b) g = Inr (db1, jobs, affected)"
      "sync_links env db1 affected g Durable = Inr (db2, as_outbox_mutations_appended s)"
    and cp: "upsert_checkpoint (set_generation db2 (gb_volume_id b) g) row = Inr db'"
    by (rule batch_transaction_cases)
  have before: "graph_catalog_documents db1 = graph_catalog_documents db" "graph_projection_outbox db1 = graph_projection_outbox db"
    using apply_mutations_projection_part [OF 1(1)] by (simp_all add: projection_part_def)
  have after: "graph_catalog_documents db' = graph_catalog_documents db2" "graph_projection_outbox db' = graph_projection_outbox db2"
    using cp by (auto simp: upsert_checkpoint_def set_generation_def split: if_splits)
  from sync_links_replay [OF 1(2) assms(2)] show ?thesis
    by (simp add: outbox_extends_def index_agrees_def projected_def before after)
qed

subsection \<open>Suppressing the outbox\<close>

abbreviation with_outbox :: "graph_db \<Rightarrow> outbox_row list \<Rightarrow> i64 option \<Rightarrow> graph_db" where
  "with_outbox db rows s \<equiv> db\<lparr>graph_projection_outbox := rows, outbox_seq := s\<rparr>"

lemma graph_part_with_outbox: "graph_part (with_outbox db rows s) = graph_part db"
  by simp

lemma delete_catalog_projection_rebuildable:
  assumes "delete_catalog_projection env db k v Durable = Inr (db', n)"
  shows "delete_catalog_projection env (with_outbox db rows s) k v Rebuildable = Inr (with_outbox db' rows s, 0)"
  using assms by (auto simp: delete_catalog_projection_def append_outbox_def result_simps split: if_splits)

lemma sync_rebuildable:
  assumes "sync_catalog_projection env db l g Durable = Inr (db', n)"
  shows "sync_catalog_projection env (with_outbox db rows s) l g Rebuildable = Inr (with_outbox db' rows s, 0)"
proof -
  obtain v where v: "u64_try_from_i64 g = Some v"
    using assms by (auto simp: sync_catalog_projection_def result_simps Let_def)
  have same: "load_link (with_outbox db rows s) x = load_link db x"
      "build_catalog_document env (with_outbox db rows s) y v = build_catalog_document env db y v" for x y
    using load_link_graph_part [of "with_outbox db rows s" x] load_link_graph_part [of db x]
      build_catalog_document_graph_part [of env "with_outbox db rows s" y v]
      build_catalog_document_graph_part [of env db y v] by (simp_all add: graph_part_with_outbox)
  show ?thesis
  proof (cases "load_link db l")
    case None
    with assms v same show ?thesis
      using delete_catalog_projection_rebuildable by (simp add: sync_catalog_projection_def)
  next
    case (Some link)
    show ?thesis
    proof (cases "build_catalog_document env db link v")
      case (Inl e)
      with Some assms v same show ?thesis
        using delete_catalog_projection_rebuildable
        by (auto simp: sync_catalog_projection_def split: if_splits)
    next
      case (Inr d)
      with Some assms v same show ?thesis
        by (auto simp: sync_catalog_projection_def Let_def result_simps upsert_document_def append_outbox_def
            split: if_splits)
    qed
  qed
qed

lemma sync_links_rebuildable:
  "sync_links env db links g Durable = Inr (db', n) \<Longrightarrow>
     sync_links env (with_outbox db rows s) links g Rebuildable = Inr (with_outbox db' rows s, 0)"
proof (induction links arbitrary: db n)
  case Nil
  then show ?case by simp
next
  case (Cons x xs)
  then obtain db1 a b where "sync_catalog_projection env db x g Durable = Inr (db1, a)"
      "sync_links env db1 xs g Durable = Inr (db', b)"
    by (auto simp: sync_links_Cons)
  with Cons.IH sync_rebuildable show ?case unfolding sync_links_Cons by (metis add_0)
qed

text \<open>While no consumer is registered, a batch that would commit with the outbox also commits
  without it, and reaches the same graph and the same desired state; only the outbox differs, which
  keeps its old rows and its old high-water mark.\<close>

theorem rebuildable_batch_equivalent:
  assumes "apply_batch env db b = (db1, Inr s)" and "\<not> has_projection_consumers db"
  shows "\<exists>s'. apply_rebuildable_batch env db b
      = (with_outbox db1 (graph_projection_outbox db) (outbox_seq db), Inr s')
    \<and> as_generation s' = as_generation s \<and> as_refresh_jobs_enqueued s' = as_refresh_jobs_enqueued s
    \<and> as_outbox_mutations_appended s' = 0"
proof -
  let ?W = "\<lambda>x. with_outbox x (graph_projection_outbox db) (outbox_seq db)"
  from assms(1) obtain g jobs n where valid: "graph_batch_validate b = Inr ()"
    and tx: "batch_transaction env db b Durable = Inr (db1, g, jobs, n)"
    and g: "u64_try_from_i64 g = Some (as_generation s)" "as_refresh_jobs_enqueued s = jobs"
    by (auto simp: apply_batch_def apply_batch_Inr)
  from tx obtain m1 affected m2 where gen: "g = current_generation db (gb_volume_id b) + 1" "g \<le> i64_max"
    and 1: "apply_mutations db (gb_mutations b) g = Inr (m1, jobs, affected)"
      "sync_links env m1 affected g Durable = Inr (m2, n)"
    and cp: "upsert_checkpoint (set_generation m2 (gb_volume_id b) g)
       \<lparr>cp_volume_id = gb_volume_id b, cp_provider_id = pc_provider_id (gb_checkpoint b),
        cp_format_version = uint (pc_format_version (gb_checkpoint b)),
        cp_opaque = pc_opaque (gb_checkpoint b)\<rparr> = Inr db1"
    by (rule batch_transaction_cases)
  have "?W m1 = m1" using apply_mutations_projection_part [OF 1(1)] by (simp add: projection_part_def)
  then have sync: "sync_links env m1 affected g Rebuildable = Inr (?W m2, 0)"
    using sync_links_rebuildable [OF 1(2), where rows = "graph_projection_outbox db" and s = "outbox_seq db"] by simp
  have "upsert_checkpoint (set_generation (?W m2) (gb_volume_id b) g)
       \<lparr>cp_volume_id = gb_volume_id b, cp_provider_id = pc_provider_id (gb_checkpoint b),
        cp_format_version = uint (pc_format_version (gb_checkpoint b)),
        cp_opaque = pc_opaque (gb_checkpoint b)\<rparr> = Inr (?W db1)"
    using cp by (auto simp: upsert_checkpoint_def set_generation_def split: if_splits)
  moreover have "tbl_count (\<lambda>r. v_volume_id r = gb_volume_id b) (graph_volumes m2) = 1"
    using tx gen 1 by (auto simp: batch_transaction_def result_simps checked_add_i64_Some split: if_splits)
  moreover have "checked_add_i64 (current_generation db (gb_volume_id b)) 1 = Some g"
    using tx by (auto simp: batch_transaction_def result_simps checked_add_i64_Some split: if_splits)
  ultimately have "batch_transaction env db b Rebuildable = Inr (?W db1, g, jobs, 0)"
    using assms(2) 1(1) sync
    by (simp add: batch_transaction_def has_projection_consumers_def)
  then show ?thesis using valid g by (auto simp: apply_rebuildable_batch_def apply_batch_Inr)
qed

section \<open>A concrete batch\<close>

definition sample_checkpoint :: ProviderCheckpoint where
  "sample_checkpoint = \<lparr>pc_provider_id = ''windows-ntfs-usn'', pc_format_version = 1,
     pc_volume_id = from_u128 1, pc_opaque = [1, 2]\<rparr>"

definition sample_batch :: GraphMutationBatch where
  "sample_batch = \<lparr>gb_volume_id = from_u128 1, gb_checkpoint = sample_checkpoint,
     gb_mutations = sample_mutations\<rparr>"

definition sample_directory_document :: CatalogDocument where
  "sample_directory_document =
     \<lparr>doc_identity = \<lparr>ci_object_key = sample_key 2, ci_file_link_id = from_u128 10, ci_document_id = from_u128 10\<rparr>,
      doc_document_version = DocumentVersion 1, doc_name = ''docs'', doc_resolved_path = ''docs'',
      doc_extension = None, doc_metadata = obj_metadata (sample_object 2 Directory)\<rparr>"

definition batch_env :: graph_env where
  "batch_env = sample_env [Upsert sample_directory_document, Upsert sample_document]"

definition committed :: graph_db where
  "committed = fst (apply_batch batch_env empty_db sample_batch)"

definition sample_summary :: ApplySummary where
  "sample_summary = \<lparr>as_mutations = 5, as_generation = 1, as_refresh_jobs_enqueued = 0,
     as_outbox_mutations_appended = 2\<rparr>"

lemma sample_batch_commits: "apply_batch batch_env empty_db sample_batch = (committed, Inr sample_summary)"
proof -
  have "snd (apply_batch batch_env empty_db sample_batch) = Inr sample_summary" by code_simp
  then show ?thesis by (simp add: committed_def prod_eq_iff)
qed

lemmas sample_batch_commits_mode = sample_batch_commits [unfolded apply_batch_def]

theorem apply_batch_keeps_schema_witness: "graph_ok committed"
  by (rule apply_batch_keeps_schema [OF graph_ok_empty sample_batch_commits_mode])

definition failing_batch :: GraphMutationBatch where
  "failing_batch = sample_batch\<lparr>gb_mutations := sample_mutations @ [TombstoneObject (sample_key 3)]\<rparr>"

theorem apply_batch_atomic_witness: "fst (apply_batch batch_env empty_db failing_batch) = empty_db"
proof (rule apply_batch_atomic [OF graph_ok_empty])
  have "snd (apply_batch batch_env empty_db failing_batch)
      = Inl (Invariant ''object cannot be tombstoned while namespace links remain'')"
    by code_simp
  then show "apply_batch_with_outbox_mode batch_env empty_db failing_batch Durable
      = (fst (apply_batch batch_env empty_db failing_batch),
         Inl (Invariant ''object cannot be tombstoned while namespace links remain''))"
    by (simp add: apply_batch_def prod_eq_iff)
qed

theorem apply_batch_commits_checkpoint_witness:
  "checkpoint committed (from_u128 1) = Inr (Some sample_checkpoint)
   \<and> current_generation committed (from_u128 1) = 1"
  using apply_batch_commits_checkpoint [OF graph_ok_empty sample_batch_commits_mode]
  by (simp add: sample_batch_def current_generation_def empty_db_def)

theorem apply_batch_syncs_projection_witness: "in_sync batch_env committed (from_u128 11)"
proof (rule apply_batch_syncs_projection [OF sample_batch_commits_mode])
  have "UpsertLink (sample_snapshot 11 3 (Some 2) ''a.txt'') False \<in> set (gb_mutations sample_batch)"
    by (simp add: sample_batch_def sample_mutations_def)
  then have "lnk_file_link_id (sample_snapshot 11 3 (Some 2) ''a.txt'')
      \<in> touched_links empty_db committed (gb_mutations sample_batch)"
    unfolding touched_links_def by blast
  then show "from_u128 11 \<in> touched_links empty_db committed (gb_mutations sample_batch)"
    by (simp add: sample_snapshot_def)
qed

theorem apply_batch_outbox_refines_witness:
  "\<exists>ms. outbox_extends batch_env empty_db committed ms \<and> length ms = 2
     \<and> index_agrees batch_env (replay (\<lambda>_. None) ms) committed"
proof -
  have "index_agrees batch_env (\<lambda>_. None) empty_db"
    by (simp add: index_agrees_def projected_def empty_db_def)
  then show ?thesis
    using apply_batch_outbox_refines [OF sample_batch_commits] json_round_trip_sample
    by (auto simp: batch_env_def sample_summary_def)
qed

theorem rebuildable_batch_equivalent_witness:
  "\<exists>s'. apply_rebuildable_batch batch_env empty_db sample_batch = (with_outbox committed [] None, Inr s')
     \<and> as_generation s' = 1 \<and> as_refresh_jobs_enqueued s' = 0 \<and> as_outbox_mutations_appended s' = 0"
proof -
  have "\<not> has_projection_consumers empty_db"
    by (simp add: has_projection_consumers_def projection_consumers_exist_def empty_db_def)
  from rebuildable_batch_equivalent [OF sample_batch_commits this] show ?thesis
    by (simp add: sample_summary_def empty_db_def)
qed

end
