(* ===== verification/Graph_Outbox.thy ===== *)
theory Graph_Outbox
  imports Graph_Ingest
begin

text \<open>
  Consumers and maintenance of the projection (\<open>crates/filesystem-graph/src/store.rs\<close>): reading the
  outbox, acknowledging progress, pruning acknowledged rows, compacting legacy payloads, refreshing
  projected paths and volume state in bounded pages, and the integrity audit.

  Shown: sequence numbers in the outbox are consecutive and never reused, so every page a consumer
  reads passes \<open>MutationBatch::validate\<close>; progress only moves forward and never past the outbox;
  pruning never takes away a row that a registered consumer has yet to read; compaction does not
  change what desired state records; a refresh job brings every link of its volume in step page by
  page and finishes.
\<close>

section \<open>Reading and acknowledging\<close>

definition sequenced_of_row :: "graph_env \<Rightarrow> outbox_row \<Rightarrow> SequencedMutation graph_result" where
  "sequenced_of_row env row =
     and_then (ok_or (u64_try_from_i64 (ob_sequence row)) (NumericRange ''outbox sequence'')) (\<lambda>sequence.
     and_then (ok_or (env_mutation_from_json env (ob_mutation_json row)) Serialization) (\<lambda>mutation.
     Inr \<lparr>sm_sequence = MutationSeq sequence, sm_mutation = mutation\<rparr>))"

definition read_outbox ::
    "graph_env \<Rightarrow> graph_db \<Rightarrow> MutationSeq option \<Rightarrow> nat \<Rightarrow> MutationBatch graph_result" where
  "read_outbox env db sequence limit =
     and_then (ok_or (i64_try_from_u64 (case sequence of None \<Rightarrow> 0 | Some s \<Rightarrow> seq_value s))
                 (NumericRange ''outbox cursor'')) (\<lambda>after.
     and_then (fold_r (\<lambda>mutations row. and_then (sequenced_of_row env row) (\<lambda>m. Inr (mutations @ [m])))
                 [] (tbl_scan (\<lambda>r. after < ob_sequence r) ob_sequence limit (graph_projection_outbox db)))
       (\<lambda>mutations. Inr \<lparr>mb_mutations = mutations\<rparr>))"

definition latest_outbox_sequence :: "graph_db \<Rightarrow> MutationSeq graph_result" where
  "latest_outbox_sequence db =
     and_then (ok_or (u64_try_from_i64
         (max (foldr max (map ob_sequence (graph_projection_outbox db)) 0)
         (max (foldr max (map c_last_sequence (graph_projection_consumers db)) 0)
              (case outbox_seq db of None \<Rightarrow> 0 | Some s \<Rightarrow> s))))
        (NumericRange ''outbox sequence'')) (\<lambda>s. Inr (MutationSeq s))"

definition projector_checkpoint :: "graph_db \<Rightarrow> string \<Rightarrow> ProjectorCheckpoint option graph_result" where
  "projector_checkpoint db consumer_id =
     (case find_consumer db consumer_id of
        None \<Rightarrow> Inr None
      | Some row \<Rightarrow>
          and_then (ok_or (u64_try_from_i64 (c_last_sequence row)) (NumericRange ''projector sequence'')) (\<lambda>l.
          and_then (ok_or (u64_try_from_i64 (c_index_generation row)) (NumericRange ''index generation'')) (\<lambda>g.
          Inr (Some \<lparr>pr_consumer_id = consumer_id, pr_last_sequence = l, pr_index_generation = g\<rparr>))))"

definition consumer_merge :: "consumer_row \<Rightarrow> consumer_row \<Rightarrow> consumer_row" where
  "consumer_merge new old = old\<lparr>c_last_sequence := c_last_sequence new,
     c_index_generation := c_index_generation new\<rparr>"

definition acknowledge_projection ::
    "graph_db \<Rightarrow> string \<Rightarrow> MutationSeq \<Rightarrow> u64 \<Rightarrow> graph_db graph_result" where
  "acknowledge_projection db consumer_id last_seq index_generation =
     and_then (latest_outbox_sequence db) (\<lambda>latest.
     if seq_value latest < seq_value last_seq
     then Inl (Invariant ''projector checkpoint cannot advance beyond durable outbox'')
     else
       and_then (projector_checkpoint db consumer_id) (\<lambda>current.
       if (case current of None \<Rightarrow> False | Some c \<Rightarrow> seq_value last_seq < pr_last_sequence c)
       then Inl (Invariant ''projector checkpoint cannot move backwards'')
       else
         and_then (ok_or (i64_try_from_u64 (seq_value last_seq)) (NumericRange ''projector sequence'')) (\<lambda>l.
         and_then (ok_or (i64_try_from_u64 index_generation) (NumericRange ''index generation'')) (\<lambda>g.
         Inr (db\<lparr>graph_projection_consumers := tbl_upsert c_consumer_id consumer_merge
           \<lparr>c_consumer_id = consumer_id, c_last_sequence = l, c_index_generation = g\<rparr>
           (graph_projection_consumers db)\<rparr>)))))"

definition reset_projection_consumer :: "graph_db \<Rightarrow> string \<Rightarrow> graph_db \<times> bool" where
  "reset_projection_consumer db consumer_id =
     (db\<lparr>graph_projection_consumers :=
        tbl_delete (\<lambda>c. c_consumer_id c = consumer_id) (graph_projection_consumers db)\<rparr>,
      0 < tbl_count (\<lambda>c. c_consumer_id c = consumer_id) (graph_projection_consumers db))"

section \<open>Pruning and compaction\<close>

definition minimum_last_sequence :: "graph_db \<Rightarrow> i64 option" where
  "minimum_last_sequence db =
     (case map c_last_sequence (graph_projection_consumers db) of
        [] \<Rightarrow> None
      | s # rest \<Rightarrow> Some (foldr min rest s))"

definition prune_consumed_outbox :: "graph_db \<Rightarrow> graph_db \<times> nat" where
  "prune_consumed_outbox db =
     (case minimum_last_sequence db of
        None \<Rightarrow> (db, 0)
      | Some minimum \<Rightarrow>
          (db\<lparr>graph_projection_outbox :=
             tbl_delete (\<lambda>r. ob_sequence r \<le> minimum) (graph_projection_outbox db)\<rparr>,
           tbl_count (\<lambda>r. ob_sequence r \<le> minimum) (graph_projection_outbox db)))"

definition consumed_outbox_maintenance_pending :: "graph_db \<Rightarrow> bool" where
  "consumed_outbox_maintenance_pending db =
     (case minimum_last_sequence db of
        None \<Rightarrow> False
      | Some minimum \<Rightarrow> \<exists>r \<in> set (graph_projection_outbox db). ob_sequence r \<le> minimum)"

definition default_outbox_summary :: OutboxMaintenanceSummary where
  "default_outbox_summary =
     \<lparr>om_safe_through_sequence = None, om_deleted_rows = 0, om_backlog_remaining = False\<rparr>"

definition prune_rebuildable_outbox_bounded ::
    "graph_db \<Rightarrow> nat \<Rightarrow> bool \<Rightarrow> graph_db \<times> OutboxMaintenanceSummary graph_result" where
  "prune_rebuildable_outbox_bounded db maximum_rows allow_without_consumers =
     (if maximum_rows = 0 \<or> 100000 < maximum_rows
      then (db, Inl (InvalidBatch ''outbox maintenance bound must be between 1 and 100000''))
      else
        let safe_through =
          (case minimum_last_sequence db of
             Some minimum \<Rightarrow> Some minimum
           | None \<Rightarrow> if allow_without_consumers then outbox_seq db else None)
        in (case safe_through of
              None \<Rightarrow> (db, Inr default_outbox_summary)
            | Some safe \<Rightarrow>
                let doomed = map ob_sequence (tbl_scan (\<lambda>r. ob_sequence r \<le> safe) ob_sequence
                               maximum_rows (graph_projection_outbox db));
                    db' = db\<lparr>graph_projection_outbox :=
                      tbl_delete (\<lambda>r. ob_sequence r \<in> set doomed) (graph_projection_outbox db)\<rparr>;
                    backlog = (\<exists>r \<in> set (graph_projection_outbox db'). ob_sequence r \<le> safe)
                in (db',
                    and_then (ok_or (u64_try_from_i64 safe) (NumericRange ''outbox maintenance cursor''))
                      (\<lambda>s. Inr \<lparr>om_safe_through_sequence = Some s,
                         om_deleted_rows = tbl_count (\<lambda>r. ob_sequence r \<in> set doomed) (graph_projection_outbox db),
                         om_backlog_remaining = backlog\<rparr>))))"

definition legacy_desired_payload_maintenance_pending :: "graph_db \<Rightarrow> bool" where
  "legacy_desired_payload_maintenance_pending db \<longleftrightarrow>
     (\<exists>d \<in> set (graph_catalog_documents db). d_projection_path d = None)"

definition compact_row :: "graph_env \<Rightarrow> graph_db \<Rightarrow> document_row \<Rightarrow> graph_db graph_result" where
  "compact_row env db row =
     and_then (ok_or (env_document_from_json env (d_document_json row)) Serialization) (\<lambda>document.
     and_then (catalog_content_fingerprint env document) (\<lambda>fingerprint.
     Inr (db\<lparr>graph_catalog_documents :=
       tbl_update (\<lambda>d. d_document_id d = d_document_id row \<and> d_projection_path d = None)
         (\<lambda>d. d\<lparr>d_projection_path := Some (doc_resolved_path document),
                d_projection_fingerprint := Some fingerprint, d_document_json := []\<rparr>)
         (graph_catalog_documents db)\<rparr>)))"

definition compact_legacy_desired_payloads_bounded ::
    "graph_env \<Rightarrow> graph_db \<Rightarrow> nat \<Rightarrow> graph_db \<times> DesiredPayloadMaintenanceSummary graph_result" where
  "compact_legacy_desired_payloads_bounded env db maximum_rows =
     (if maximum_rows = 0 \<or> 100000 < maximum_rows
      then (db, Inl (InvalidBatch ''desired payload maintenance bound must be between 1 and 100000''))
      else
        let legacy_rows = tbl_scan (\<lambda>d. d_projection_path d = None) d_document_id maximum_rows
                            (graph_catalog_documents db)
        in transact db
             (and_then (fold_r (compact_row env) db legacy_rows) (\<lambda>db'.
              Inr (db', \<lparr>dp_rewritten_rows = length legacy_rows,
                dp_backlog_remaining = legacy_desired_payload_maintenance_pending db'\<rparr>))))"

section \<open>Path and volume refresh\<close>

definition pending_refresh_jobs :: "graph_db \<Rightarrow> nat \<Rightarrow> PathRefreshJob list graph_result" where
  "pending_refresh_jobs db limit =
     fold_r (\<lambda>jobs j.
       and_then (ok_or (u64_try_from_i64 (j_enqueued_generation j))
                   (Sqlite (IntegralValueOutOfRange (j_enqueued_generation j)))) (\<lambda>g.
       Inr (jobs @ [\<lparr>pj_job_id = j_job_id j, pj_volume_id = fk_volume_id (j_root j),
         pj_root_object = j_root j, pj_enqueued_generation = g\<rparr>]))) []
       (tbl_scan (\<lambda>j. j_state j = Pending) j_job_id limit (graph_path_refresh_jobs db))"

fun after_cursor :: "'a::linorder option \<Rightarrow> 'a \<Rightarrow> bool" where
  "after_cursor None x \<longleftrightarrow> True"
| "after_cursor (Some c) x \<longleftrightarrow> c < x"

definition volume_generation :: "graph_db \<Rightarrow> VolumeId \<Rightarrow> i64 graph_result" where
  "volume_generation db v =
     ok_or (map_option v_generation (find_volume db v)) (Sqlite QueryReturnedNoRows)"

definition links_page :: "graph_db \<Rightarrow> VolumeId \<Rightarrow> FileLinkId option \<Rightarrow> nat \<Rightarrow> FileLinkId list" where
  "links_page db v cursor n =
     map l_file_link_id (tbl_scan (\<lambda>r. fk_volume_id (l_object r) = v \<and> after_cursor cursor (l_file_link_id r))
       l_file_link_id n (graph_file_links db))"

definition documents_page :: "graph_db \<Rightarrow> VolumeId \<Rightarrow> FileLinkId option \<Rightarrow> nat \<Rightarrow> FileLinkId list" where
  "documents_page db v cursor n =
     map d_file_link_id (tbl_scan (\<lambda>d. fk_volume_id (d_object d) = v \<and> after_cursor cursor (d_file_link_id d))
       d_file_link_id n (graph_catalog_documents db))"

definition refresh_projection_paths ::
    "graph_env \<Rightarrow> graph_db \<Rightarrow> nat \<Rightarrow> graph_db \<times> ProjectionRefreshSummary graph_result" where
  "refresh_projection_paths env db maximum_links =
     (if maximum_links = 0 then (db, Inr default_refresh_summary)
      else
        (case tbl_scan (\<lambda>j. j_state j = Pending) j_job_id 1 (graph_path_refresh_jobs db) of
           [] \<Rightarrow> (db, Inr default_refresh_summary)
         | job # _ \<Rightarrow>
             let v = fk_volume_id (j_root job);
                 links = links_page db v (j_cursor job) maximum_links;
                 complete = length links < maximum_links
             in transact db
                  (and_then (volume_generation db v) (\<lambda>generation.
                   and_then (sync_links env db links generation Durable) (\<lambda>(db1, appended).
                   Inr (db1\<lparr>graph_path_refresh_jobs :=
                          tbl_update (\<lambda>j. j_job_id j = j_job_id job)
                            (\<lambda>j. if complete then j\<lparr>j_state := Done\<rparr>
                                 else j\<lparr>j_cursor := Some (last links)\<rparr>) (graph_path_refresh_jobs db1)\<rparr>,
                        \<lparr>rs_links_scanned = length links, rs_outbox_mutations_appended = appended,
                         rs_job_completed = complete\<rparr>))))))"

definition refresh_volume_projection ::
    "graph_env \<Rightarrow> graph_db \<Rightarrow> nat \<Rightarrow> graph_db \<times> ProjectionRefreshSummary graph_result" where
  "refresh_volume_projection env db maximum_links =
     (if maximum_links = 0 then (db, Inr default_refresh_summary)
      else
        (case tbl_scan (\<lambda>j. vj_state j = Pending) vj_volume_id 1 (graph_volume_projection_refresh_jobs db) of
           [] \<Rightarrow> (db, Inr default_refresh_summary)
         | job # _ \<Rightarrow>
             let v = vj_volume_id job;
                 links = documents_page db v (vj_cursor job) maximum_links;
                 complete = length links < maximum_links
             in transact db
                  (and_then (volume_generation db v) (\<lambda>generation.
                   and_then (sync_links env db links generation Durable) (\<lambda>(db1, appended).
                   Inr (db1\<lparr>graph_volume_projection_refresh_jobs :=
                          tbl_update (\<lambda>j. vj_volume_id j = v)
                            (\<lambda>j. if complete then j\<lparr>vj_state := Done\<rparr>
                                 else j\<lparr>vj_cursor := Some (last links)\<rparr>)
                            (graph_volume_projection_refresh_jobs db1)\<rparr>,
                        \<lparr>rs_links_scanned = length links, rs_outbox_mutations_appended = appended,
                         rs_job_completed = complete\<rparr>))))))"

definition projection_refresh_maintenance_pending :: "graph_db \<Rightarrow> bool" where
  "projection_refresh_maintenance_pending db \<longleftrightarrow>
     (\<exists>j \<in> set (graph_path_refresh_jobs db). j_state j = Pending)
   \<or> (\<exists>j \<in> set (graph_volume_projection_refresh_jobs db). vj_state j = Pending)"

definition complete_refresh_job :: "graph_db \<Rightarrow> i64 \<Rightarrow> graph_db \<times> bool" where
  "complete_refresh_job db job_id =
     (db\<lparr>graph_path_refresh_jobs :=
        tbl_update (\<lambda>j. j_job_id j = job_id \<and> j_state j = Pending) (\<lambda>j. j\<lparr>j_state := Done\<rparr>)
          (graph_path_refresh_jobs db)\<rparr>,
      tbl_count (\<lambda>j. j_job_id j = job_id \<and> j_state j = Pending) (graph_path_refresh_jobs db) = 1)"

section \<open>Statistics and audit\<close>

record GraphStats =
  gs_volumes :: u64
  gs_live_objects :: u64
  gs_live_files :: u64
  gs_live_file_bytes :: u64
  gs_tombstoned_objects :: u64
  gs_links :: u64
  gs_pending_refresh_jobs :: u64

definition nonnegative_u64 :: "i64 \<Rightarrow> string \<Rightarrow> u64 graph_result" where
  "nonnegative_u64 value field = ok_or (u64_try_from_i64 value) (NumericRange field)"

definition stats :: "graph_db \<Rightarrow> GraphStats graph_result" where
  "stats db =
     (let objs = graph_file_objects db;
          live = filter (\<lambda>r. \<not> o_tombstoned r) objs;
          files = filter (\<lambda>r. o_kind r = File) live;
          jobs = tbl_count (\<lambda>j. j_state j = Pending) (graph_path_refresh_jobs db)
               + tbl_count (\<lambda>j. vj_state j = Pending) (graph_volume_projection_refresh_jobs db)
      in if i64_max < sum_list (map o_size files) then Inl (Sqlite IntegerOverflow) else
      and_then (nonnegative_u64 (int (length (graph_volumes db))) ''aggregate count'') (\<lambda>volumes.
      and_then (nonnegative_u64 (int (length live)) ''live object count'') (\<lambda>live_objects.
      and_then (nonnegative_u64 (int (length files)) ''live file count'') (\<lambda>live_files.
      and_then (nonnegative_u64 (sum_list (map o_size files)) ''live file bytes'') (\<lambda>live_file_bytes.
      and_then (nonnegative_u64 (int (tbl_count o_tombstoned objs)) ''tombstoned object count'') (\<lambda>tombstoned.
      and_then (nonnegative_u64 (int (length (graph_file_links db))) ''aggregate count'') (\<lambda>links.
      and_then (nonnegative_u64 (int jobs) ''aggregate count'') (\<lambda>pending.
      Inr \<lparr>gs_volumes = volumes, gs_live_objects = live_objects, gs_live_files = live_files,
           gs_live_file_bytes = live_file_bytes, gs_tombstoned_objects = tombstoned,
           gs_links = links, gs_pending_refresh_jobs = pending\<rparr>))))))))"

text \<open>The audit's two \<open>LEFT JOIN\<close>s, in table order; SQL leaves the order of the result open.\<close>

definition audit_integrity :: "graph_db \<Rightarrow> nat \<Rightarrow> GraphIntegrityIssue list" where
  "audit_integrity db limit =
     take limit
       (map (\<lambda>obj. OrphanObject (o_key obj))
          (filter (\<lambda>obj. \<not> o_tombstoned obj \<and> tbl_count (\<lambda>l. l_object l = o_key obj) (graph_file_links db) = 0)
             (graph_file_objects db))
        @ List.map_filter
            (\<lambda>l. case l_parent l of
                    None \<Rightarrow> None
                  | Some parent \<Rightarrow>
                      if find_object db parent = None
                      then Some (MissingParentIssue (l_file_link_id l) parent) else None)
            (graph_file_links db))"

interpretation consumers_table: sql_table c_consumer_id consumer_merge
  by unfold_locales (simp add: consumer_merge_def)

section \<open>The outbox is a run of consecutive sequence numbers\<close>

definition outbox_contiguous :: "graph_db \<Rightarrow> bool" where
  "outbox_contiguous db \<longleftrightarrow> map ob_sequence (graph_projection_outbox db) =
     [high_water db - int (length (graph_projection_outbox db)) + 1 .. high_water db]"

lemma outbox_contiguous_empty: "outbox_contiguous empty_db"
  by (simp add: outbox_contiguous_def empty_db_def)

lemma outbox_contiguous_cong:
  "graph_projection_outbox db' = graph_projection_outbox db \<Longrightarrow> outbox_seq db' = outbox_seq db \<Longrightarrow>
     outbox_contiguous db' = outbox_contiguous db"
  by (simp add: outbox_contiguous_def high_water_def)

lemma outbox_contiguous_append:
  assumes "outbox_ok db" and "outbox_contiguous db" and "append_outbox env db k v m = Inr db'"
  shows "outbox_contiguous db'"
proof -
  obtain row where row: "graph_projection_outbox db' = graph_projection_outbox db @ [row]"
      "ob_sequence row = high_water db + 1"
    using append_outbox_ok(3) [OF assms(1,3)] by auto
  let ?n = "int (length (graph_projection_outbox db))"
  have "[high_water db - ?n + 1 .. high_water db + 1] = [high_water db - ?n + 1 .. high_water db] @ [high_water db + 1]"
    using upto_rec2 [of "high_water db - ?n + 1" "high_water db + 1"] by simp
  then show ?thesis
    using assms(2) row append_outbox_ok(2) [OF assms(1,3)] by (simp add: outbox_contiguous_def)
qed

lemma outbox_contiguous_sync:
  assumes "store_ok db" and "outbox_contiguous db" and "sync_catalog_projection env db l g mode = Inr (db', n)"
  shows "outbox_contiguous db'"
  using assms(3)
proof (cases rule: sync_catalog_projection_cases)
  case (delete v)
  then show ?thesis
    using assms(1,2) outbox_contiguous_append
    by (auto simp: delete_catalog_projection_def result_simps store_ok_def outbox_contiguous_def high_water_def
        split: if_splits)
next
  case (store link v d f db1)
  have "store_ok db1" by (rule store_ok_upsert_document [OF assms(1) store(5)]) simp_all
  moreover have "outbox_contiguous db1"
    using assms(2) outbox_contiguous_cong upsert_document_result(2,3) [OF store(5)] by blast
  ultimately show ?thesis
    using store(6) outbox_contiguous_append by (auto simp: store_ok_def split: if_splits)
qed (use assms in simp)

lemma outbox_contiguous_sync_links:
  assumes "sync_links env db links g mode = Inr (db', n)" and "store_ok db" and "outbox_contiguous db"
  shows "outbox_contiguous db'"
proof -
  have "store_ok db' \<and> outbox_contiguous db'"
    by (rule sync_links_invariant [OF assms(1), where P = "\<lambda>s. store_ok s \<and> outbox_contiguous s"])
       (use assms store_ok_sync outbox_contiguous_sync in blast)+
  then show ?thesis by simp
qed

lemma outbox_contiguous_batch:
  assumes "graph_ok db" and "outbox_contiguous db" and "batch_transaction env db b mode = Inr (db', g, jobs, n)"
  shows "outbox_contiguous db'"
proof -
  from assms(3) obtain db1 affected db2 row where
      1: "apply_mutations db (gb_mutations b) g = Inr (db1, jobs, affected)"
      "sync_links env db1 affected g mode = Inr (db2, n)"
    and cp: "upsert_checkpoint (set_generation db2 (gb_volume_id b) g) row = Inr db'"
    by (rule batch_transaction_cases)
  have "outbox_contiguous db1"
    using outbox_contiguous_cong [of db1 db] apply_mutations_projection_part [OF 1(1)] assms(2)
    by (simp add: projection_part_def)
  moreover have "graph_ok db1"
    using 1(1) assms(1) by (rule apply_mutations_invariant) (rule graph_ok_apply_mutation)
  ultimately have "outbox_contiguous db2" using outbox_contiguous_sync_links [OF 1(2)] by (simp add: graph_ok_def)
  then show ?thesis
    using cp outbox_contiguous_cong [of db' db2] by (auto simp: upsert_checkpoint_def set_generation_def split: if_splits)
qed

lemma filter_greater_upto: "filter (\<lambda>x. a < x) [b .. c] = [max b (a + 1) .. c]" for a :: int
proof (rule sorted_distinct_set_unique)
  have "sorted (map id [b .. c])" by simp
  then have "sorted (map id (filter (\<lambda>x. a < x) [b .. c]))" by (rule sorted_filter)
  then show "sorted (filter (\<lambda>x. a < x) [b .. c])" by simp
qed auto

lemma sort_key_outbox:
  assumes "outbox_ok db"
  shows "sort_key ob_sequence (filter p (graph_projection_outbox db)) = filter p (graph_projection_outbox db)"
proof (rule sort_key_id_if_sorted)
  have "sorted (map ob_sequence (graph_projection_outbox db))"
    using assms by (simp add: outbox_ok_def strict_sorted_iff)
  then show "sorted (map ob_sequence (filter p (graph_projection_outbox db)))"
    by (rule sorted_filter)
qed

lemma outbox_page_sequences:
  assumes "outbox_ok db" and "outbox_contiguous db"
    and "page = tbl_scan (\<lambda>r. after < ob_sequence r) ob_sequence limit (graph_projection_outbox db)"
    and "i < length page"
  shows "ob_sequence (page ! i) = ob_sequence (page ! 0) + int i"
proof -
  let ?s = "filter (\<lambda>r. after < ob_sequence r) (graph_projection_outbox db)"
  let ?lo = "max (high_water db - int (length (graph_projection_outbox db)) + 1) (after + 1)"
  have page: "page = take limit ?s" using assms(1,3) by (simp add: tbl_scan_def sort_key_outbox)
  have "map ob_sequence ?s = filter (\<lambda>x. after < x) (map ob_sequence (graph_projection_outbox db))"
    by (simp add: filter_map comp_def)
  also have "\<dots> = [?lo .. high_water db]"
    using assms(2) by (simp add: outbox_contiguous_def filter_greater_upto)
  finally have seqs: "map ob_sequence ?s = [?lo .. high_water db]" .
  have "ob_sequence (page ! j) = ?lo + int j" if "j < length page" for j
  proof -
    have j: "j < length ?s" "page ! j = ?s ! j" using that page by simp_all
    then have "ob_sequence (?s ! j) = [?lo .. high_water db] ! j" using seqs by (metis nth_map)
    moreover have "j < length [?lo .. high_water db]" using j seqs by (metis length_map)
    ultimately show ?thesis using j(2) by (simp add: nth_upto)
  qed
  from this [OF assms(4)] this [of 0] assms(4) show ?thesis by (cases page) auto
qed

lemma sequenced_of_row_Inr:
  "sequenced_of_row env row = Inr m \<longleftrightarrow> 0 \<le> ob_sequence row
     \<and> sm_sequence m = MutationSeq (word_of_int (ob_sequence row))
     \<and> env_mutation_from_json env (ob_mutation_json row) = Some (sm_mutation m)"
  by (cases m) (auto simp: sequenced_of_row_def result_simps u64_try_from_i64_Some)

lemma read_outbox_Inr:
  "read_outbox env db cursor limit = Inr batch \<longleftrightarrow>
     (\<exists>after. i64_try_from_u64 (case cursor of None \<Rightarrow> 0 | Some s \<Rightarrow> seq_value s) = Some after
        \<and> list_all2 (\<lambda>row m. sequenced_of_row env row = Inr m)
            (tbl_scan (\<lambda>r. after < ob_sequence r) ob_sequence limit (graph_projection_outbox db)) (mb_mutations batch))"
  by (cases batch) (auto simp: read_outbox_def result_simps fold_r_collect)

lemma unat_word_of_i64: "0 \<le> x \<Longrightarrow> x \<le> i64_max \<Longrightarrow> unat (word_of_int x :: u64) = nat x"
  by (simp add: unat_eq_nat_uint uint_word_of_int i64_max_def)

text \<open>Every non-empty page of the outbox, whatever cursor and limit it is read with, is a batch of
  consecutive sequence numbers that \<open>MutationBatch::validate\<close> accepts, so a consumer never stops on a
  gap.\<close>

theorem read_outbox_pages_validate:
  assumes "graph_ok db" and "outbox_contiguous db"
    and "read_outbox env db cursor limit = Inr batch" and "mb_mutations batch \<noteq> []"
  shows "batch_validate batch = Inr ()"
proof -
  obtain after where all: "list_all2 (\<lambda>row m. sequenced_of_row env row = Inr m)
      (tbl_scan (\<lambda>r. after < ob_sequence r) ob_sequence limit (graph_projection_outbox db)) (mb_mutations batch)"
    using assms(3) by (auto simp: read_outbox_Inr)
  define page where "page = tbl_scan (\<lambda>r. after < ob_sequence r) ob_sequence limit (graph_projection_outbox db)"
  have len: "length page = length (mb_mutations batch)" using all unfolding page_def by (rule list_all2_lengthD)
  have ok: "outbox_ok db" using assms(1) by (simp add: graph_ok_def store_ok_def)
  have seq: "seq_nat (mb_mutations batch ! i) = nat (ob_sequence (page ! i))
      \<and> 0 \<le> ob_sequence (page ! i) \<and> ob_sequence (page ! i) \<le> i64_max" if "i < length page" for i
  proof -
    have "page ! i \<in> set (graph_projection_outbox db)"
      using nth_mem [OF that] set_tbl_scan_subset [of "\<lambda>r. after < ob_sequence r" ob_sequence limit "graph_projection_outbox db"]
      by (auto simp flip: page_def)
    then have "0 < ob_sequence (page ! i)" "ob_sequence (page ! i) \<le> i64_max"
      using ok by (auto simp: outbox_ok_def)
    moreover have "sequenced_of_row env (page ! i) = Inr (mb_mutations batch ! i)"
      using all that unfolding page_def by (rule list_all2_nthD)
    ultimately show ?thesis by (simp add: sequenced_of_row_Inr unat_word_of_i64)
  qed
  have "seq_nat (mb_mutations batch ! i) = seq_nat (mb_mutations batch ! 0) + i"
    if i: "i < length (mb_mutations batch)" for i
  proof -
    have that: "i < length page" using i len by simp
    have "0 < length page" using that by linarith
    from seq [OF this] have "seq_nat (mb_mutations batch ! 0) = nat (ob_sequence (page ! 0))" "0 \<le> ob_sequence (page ! 0)"
      by simp_all
    moreover have "seq_nat (mb_mutations batch ! i) = nat (ob_sequence (page ! 0) + int i)"
      using outbox_page_sequences [OF ok assms(2) page_def that] seq [OF that] by simp
    ultimately show ?thesis by (simp add: nat_add_distrib)
  qed
  moreover have "seq_nat (last (mb_mutations batch)) < unat u64_max"
  proof -
    have "length page - 1 < length page" using assms(4) len by (cases page) auto
    from seq [OF this] show ?thesis
      using len assms(4) by (simp add: last_conv_nth i64_max_def u64_max_def) linarith
  qed
  ultimately show ?thesis unfolding batch_validate_iff Let_def using assms(4) by blast
qed

section \<open>Acknowledgement\<close>

lemma foldr_max_0: "(\<forall>x \<in> set xs. x \<le> b) \<Longrightarrow> 0 \<le> b \<Longrightarrow> foldr max xs 0 \<le> (b :: int)"
  by (induction xs) auto

lemma latest_outbox_sequence_ok:
  assumes "graph_ok db"
  shows "latest_outbox_sequence db = Inr (MutationSeq (word_of_int (high_water db)))"
proof -
  have ok: "outbox_ok db" using assms by (simp add: graph_ok_def store_ok_def)
  have "foldr max (map ob_sequence (graph_projection_outbox db)) 0 \<le> high_water db"
      "foldr max (map c_last_sequence (graph_projection_consumers db)) 0 \<le> high_water db"
    by (rule foldr_max_0; use ok in \<open>auto simp: outbox_ok_def\<close>)+
  then have "max (foldr max (map ob_sequence (graph_projection_outbox db)) 0)
      (max (foldr max (map c_last_sequence (graph_projection_consumers db)) 0) (high_water db)) = high_water db"
    by simp
  then show ?thesis
    using ok by (simp add: latest_outbox_sequence_def high_water_def outbox_ok_def u64_try_from_i64_def)
qed

lemma projector_checkpoint_ok:
  assumes "graph_ok db"
  shows "projector_checkpoint db c = Inr (map_option (\<lambda>row. \<lparr>pr_consumer_id = c,
    pr_last_sequence = word_of_int (c_last_sequence row),
    pr_index_generation = word_of_int (c_index_generation row)\<rparr>) (find_consumer db c))"
proof (cases "find_consumer db c")
  case (Some row)
  then have "row \<in> set (graph_projection_consumers db)" by (auto dest: tbl_find_Some)
  then have "0 \<le> c_last_sequence row" "0 \<le> c_index_generation row"
    using assms by (auto simp: graph_ok_def store_ok_def outbox_ok_def checks_ok_def)
  with Some show ?thesis by (simp add: projector_checkpoint_def u64_try_from_i64_def)
qed (simp add: projector_checkpoint_def)

lemma consumer_bounds:
  assumes "graph_ok db" and "find_consumer db c = Some row"
  shows "0 \<le> c_last_sequence row" and "c_last_sequence row \<le> high_water db" and "high_water db \<le> i64_max"
  using assms tbl_find_Some [OF assms(2)]
  by (auto simp: graph_ok_def store_ok_def outbox_ok_def)

lemma uint_word_of_i64: "0 \<le> x \<Longrightarrow> x \<le> i64_max \<Longrightarrow> uint (word_of_int x :: u64) = x"
  by (simp add: uint_word_of_int i64_max_def)

lemma acknowledge_projection_result:
  assumes "graph_ok db" and "uint g \<le> i64_max"
  shows "acknowledge_projection db c (MutationSeq s) g =
    (if uint s > high_water db then Inl (Invariant ''projector checkpoint cannot advance beyond durable outbox'')
     else if (\<exists>row. find_consumer db c = Some row \<and> uint s < c_last_sequence row)
     then Inl (Invariant ''projector checkpoint cannot move backwards'')
     else Inr (db\<lparr>graph_projection_consumers := tbl_upsert c_consumer_id consumer_merge
       \<lparr>c_consumer_id = c, c_last_sequence = uint s, c_index_generation = uint g\<rparr> (graph_projection_consumers db)\<rparr>))"
proof -
  have hw: "0 \<le> high_water db" "high_water db \<le> i64_max"
    using assms(1) by (auto simp: graph_ok_def store_ok_def outbox_ok_def)
  have beyond: "word_of_int (high_water db) < s \<longleftrightarrow> high_water db < uint s"
    using uint_word_of_i64 [OF hw] by (simp add: word_less_def)
  have behind: "s < word_of_int (c_last_sequence row) \<longleftrightarrow> uint s < c_last_sequence row"
    if "find_consumer db c = Some row" for row
    using consumer_bounds [OF assms(1) that] uint_word_of_i64 [of "c_last_sequence row"] by (simp add: word_less_def)
  show ?thesis
    using hw assms(2) beyond behind
    by (cases "find_consumer db c")
       (auto simp: acknowledge_projection_def latest_outbox_sequence_ok [OF assms(1)]
          projector_checkpoint_ok [OF assms(1)] i64_try_from_u64_def)
qed

lemma graph_ok_consumers:
  assumes "graph_ok db" and "distinct (map c_consumer_id cs)"
    and "\<forall>c \<in> set cs. 0 \<le> c_last_sequence c \<and> c_last_sequence c \<le> high_water db
      \<and> 0 \<le> c_index_generation c \<and> c_index_generation c \<le> i64_max"
  shows "graph_ok (db\<lparr>graph_projection_consumers := cs\<rparr>)"
  using assms
  by (simp add: graph_ok_def store_ok_def schema_ok_def keys_ok_def slots_ok_def fk_ok_def live_links_def
      outbox_ok_def high_water_def checks_ok_def)

lemma acknowledge_projection_ok:
  assumes "graph_ok db" and "uint g \<le> i64_max" and "acknowledge_projection db c (MutationSeq s) g = Inr db'"
  shows "graph_ok db'"
    and "find_consumer db' c' = (if c' = c then Some \<lparr>c_consumer_id = c, c_last_sequence = uint s,
           c_index_generation = uint g\<rparr> else find_consumer db c')"
proof -
  let ?row = "\<lparr>c_consumer_id = c, c_last_sequence = uint s, c_index_generation = uint g\<rparr>"
  let ?t = "tbl_upsert c_consumer_id consumer_merge ?row (graph_projection_consumers db)"
  have s: "uint s \<le> high_water db" and db': "db' = db\<lparr>graph_projection_consumers := ?t\<rparr>"
    using assms(3) unfolding acknowledge_projection_result [OF assms(1,2)] by (auto split: if_splits)
  have merge: "consumer_merge ?row old = ?row" if "c_consumer_id old = c" for old
    using that by (cases old) (simp add: consumer_merge_def)
  show "find_consumer db' c' = (if c' = c then Some ?row else find_consumer db c')"
    using merge by (auto simp: db' consumers_table.find_upsert split: option.splits dest: tbl_find_Some)
  have "0 \<le> c_last_sequence r \<and> c_last_sequence r \<le> high_water db
      \<and> 0 \<le> c_index_generation r \<and> c_index_generation r \<le> i64_max" if "r \<in> set ?t" for r
  proof -
    have "r = ?row \<or> r \<in> set (graph_projection_consumers db)"
      using consumers_table.in_upsert [OF that] merge by auto
    then show ?thesis using assms(1,2) s
      by (elim disjE) (simp_all add: graph_ok_def store_ok_def outbox_ok_def checks_ok_def)
  qed
  then show "graph_ok db'" unfolding db'
    using assms(1) consumers_table.distinct_upsert
    by (intro graph_ok_consumers) (simp_all add: graph_ok_def store_ok_def schema_ok_def keys_ok_def)
qed

text \<open>Acknowledging a projection succeeds exactly when the cursor lies within the durable outbox
  and does not move the consumer backwards; it then records that cursor and generation for this
  consumer, leaves every other consumer alone and keeps the database valid.\<close>

theorem acknowledge_projection_correct:
  assumes "graph_ok db" and "uint g \<le> i64_max"
  shows "case acknowledge_projection db c (MutationSeq s) g of
      Inl _ \<Rightarrow> high_water db < uint s \<or> (\<exists>row. find_consumer db c = Some row \<and> uint s < c_last_sequence row)
    | Inr db' \<Rightarrow> uint s \<le> high_water db
        \<and> (find_consumer db c = None \<or> (\<exists>row. find_consumer db c = Some row \<and> c_last_sequence row \<le> uint s))
        \<and> projector_checkpoint db' c =
            Inr (Some \<lparr>pr_consumer_id = c, pr_last_sequence = s, pr_index_generation = g\<rparr>)
        \<and> (\<forall>c'. c' = c \<or> find_consumer db' c' = find_consumer db c')
        \<and> graph_ok db'"
proof (cases "acknowledge_projection db c (MutationSeq s) g")
  case (Inl e)
  then show ?thesis unfolding acknowledge_projection_result [OF assms] by (auto split: if_splits)
next
  case (Inr db')
  note ok = acknowledge_projection_ok [OF assms Inr]
  have "projector_checkpoint db' c = Inr (Some \<lparr>pr_consumer_id = c, pr_last_sequence = s, pr_index_generation = g\<rparr>)"
    using ok(2) [of c] by (simp add: projector_checkpoint_ok [OF ok(1)])
  moreover have "uint s \<le> high_water db"
      "find_consumer db c = None \<or> (\<exists>row. find_consumer db c = Some row \<and> c_last_sequence row \<le> uint s)"
    using Inr unfolding acknowledge_projection_result [OF assms]
    by (cases "find_consumer db c"; auto split: if_splits)+
  ultimately show ?thesis using Inr ok by simp
qed

theorem acknowledge_projection_correct_witness:
  "case acknowledge_projection empty_db ''TANTIVY-SCHEMA-v1'' (MutationSeq 0) 1 of
      Inl _ \<Rightarrow> False
    | Inr db' \<Rightarrow> projector_checkpoint db' ''TANTIVY-SCHEMA-v1'' =
        Inr (Some \<lparr>pr_consumer_id = ''TANTIVY-SCHEMA-v1'', pr_last_sequence = 0, pr_index_generation = 1\<rparr>)"
  using acknowledge_projection_correct [OF graph_ok_empty, where g = 1 and c = "''TANTIVY-SCHEMA-v1''" and s = 0]
  by (simp add: i64_max_def high_water_def empty_db_def split: sum.splits)

section \<open>Pruning\<close>

lemma foldr_min_le: "x \<in> set (s # xs) \<Longrightarrow> foldr min xs s \<le> (x :: int)"
  by (induction xs) (auto simp: min_le_iff_disj)

lemma minimum_last_sequence_le:
  assumes "minimum_last_sequence db = Some m" and "c \<in> set (graph_projection_consumers db)"
  shows "m \<le> c_last_sequence c"
proof -
  obtain s xs where sx: "map c_last_sequence (graph_projection_consumers db) = s # xs" "m = foldr min xs s"
    using assms(1) by (auto simp: minimum_last_sequence_def split: list.splits)
  have "c_last_sequence c \<in> set (map c_last_sequence (graph_projection_consumers db))" using assms(2) by simp
  then show ?thesis using sx foldr_min_le by simp
qed

lemma minimum_last_sequence_None: "minimum_last_sequence db = None \<longleftrightarrow> graph_projection_consumers db = []"
  by (auto simp: minimum_last_sequence_def split: list.splits)

definition safe_through :: "graph_db \<Rightarrow> bool \<Rightarrow> i64 option" where
  "safe_through db allow =
     (case minimum_last_sequence db of Some m \<Rightarrow> Some m | None \<Rightarrow> if allow then outbox_seq db else None)"

text \<open>The bounded prune drops a prefix of the outbox below the safe cursor.\<close>

lemma sorted_filter_le_prefix:
  "sorted (map key xs) \<Longrightarrow> filter (\<lambda>x. key x \<le> s) xs = takeWhile (\<lambda>x. key x \<le> s) xs" for s :: "'b::linorder"
proof (induction xs)
  case (Cons x xs)
  have "filter (\<lambda>x. key x \<le> s) xs = []" if "\<not> key x \<le> s"
    using Cons.prems that by (fastforce simp: filter_empty_conv)
  with Cons show ?case by auto
qed simp

lemma delete_keys_of_prefix:
  assumes "distinct (map key xs)"
  shows "tbl_delete (\<lambda>x. key x \<in> set (map key (take n xs))) xs = drop n xs"
proof -
  have "filter (\<lambda>x. key x \<notin> key ` set (take n xs)) (take n xs @ drop n xs) = drop n xs"
  proof -
    have "key x \<notin> key ` set (take n xs)" if "x \<in> set (drop n xs)" for x
    proof -
      have "set (map key (take n xs)) \<inter> set (map key (drop n xs)) = {}"
        using assms by (metis append_take_drop_id distinct_append map_append)
      with that show ?thesis by auto
    qed
    then show ?thesis by (simp only: filter_append) (simp add: filter_empty_conv)
  qed
  then show ?thesis by (simp add: tbl_delete_def)
qed

lemma prune_bounded_prefix:
  assumes "outbox_ok db" and "1 \<le> n" and "n \<le> 100000" and "safe_through db allow = Some safe"
    and "prune_rebuildable_outbox_bounded db n allow = (db', r)"
  defines "k \<equiv> min n (tbl_count (\<lambda>r. ob_sequence r \<le> safe) (graph_projection_outbox db))"
  shows "db' = db\<lparr>graph_projection_outbox := drop k (graph_projection_outbox db)\<rparr>"
    and "\<forall>x \<in> set (take k (graph_projection_outbox db)). ob_sequence x \<le> safe"
    and "r = and_then (ok_or (u64_try_from_i64 safe) (NumericRange ''outbox maintenance cursor''))
      (\<lambda>s. Inr \<lparr>om_safe_through_sequence = Some s, om_deleted_rows = k,
         om_backlog_remaining = (n < tbl_count (\<lambda>r. ob_sequence r \<le> safe) (graph_projection_outbox db))\<rparr>)"
proof -
  let ?ob = "graph_projection_outbox db"
  let ?p = "\<lambda>r. ob_sequence r \<le> safe"
  have sorted: "sorted (map ob_sequence ?ob)" and distinct: "distinct (map ob_sequence ?ob)"
    using assms(1) by (simp_all add: outbox_ok_def strict_sorted_iff)
  have pre: "filter ?p ?ob = takeWhile ?p ?ob" by (rule sorted_filter_le_prefix [OF sorted])
  have cnt: "tbl_count ?p ?ob = length (takeWhile ?p ?ob)" by (simp add: tbl_count_def pre)
  have tk: "takeWhile ?p ?ob = take (length (takeWhile ?p ?ob)) ?ob" by (metis takeWhile_eq_take)
  have scan: "tbl_scan ?p ob_sequence n ?ob = take k ?ob"
  proof -
    have "take n (takeWhile ?p ?ob) = take n (take (length (takeWhile ?p ?ob)) ?ob)" using tk by (rule arg_cong)
    moreover have "sort_key ob_sequence (filter ?p ?ob) = takeWhile ?p ?ob"
      using sort_key_outbox [OF assms(1), of ?p] pre by simp
    ultimately show ?thesis
      by (simp only: tbl_scan_def take_take k_def cnt)
  qed
  have del: "tbl_delete (\<lambda>x. ob_sequence x \<in> set (map ob_sequence (take k ?ob))) ?ob = drop k ?ob"
    by (rule delete_keys_of_prefix [OF distinct])
  show small: "\<forall>x \<in> set (take k ?ob). ob_sequence x \<le> safe"
    using set_tbl_scan_subset [of ?p ob_sequence n ?ob] scan by auto
  have kle: "k \<le> length ?ob" by (simp add: k_def tbl_count_def min.coboundedI2)
  have "tbl_count (\<lambda>x. ob_sequence x \<in> set (map ob_sequence (take k ?ob))) ?ob = k"
  proof -
    have "length (filter (\<lambda>x. \<not> ob_sequence x \<in> set (map ob_sequence (take k ?ob))) ?ob) = length (drop k ?ob)"
      using del unfolding tbl_delete_def by (rule arg_cong)
    then have "tbl_count (\<lambda>x. ob_sequence x \<in> set (map ob_sequence (take k ?ob))) ?ob + length (drop k ?ob) = length ?ob"
      using sum_length_filter_compl [of "\<lambda>x. ob_sequence x \<in> set (map ob_sequence (take k ?ob))" ?ob]
      unfolding tbl_count_def by linarith
    with kle show ?thesis unfolding length_drop by linarith
  qed
  moreover have "(\<exists>x \<in> set (drop k ?ob). ob_sequence x \<le> safe) \<longleftrightarrow> n < tbl_count ?p ?ob"
  proof -
    have "tbl_count ?p (take k ?ob) + tbl_count ?p (drop k ?ob) = tbl_count ?p ?ob"
      by (metis append_take_drop_id filter_append length_append tbl_count_def)
    moreover have "tbl_count ?p (take k ?ob) = k"
    proof -
      have "filter ?p (take k ?ob) = take k ?ob" by (rule filter_True [OF small])
      then have "tbl_count ?p (take k ?ob) = length (take k ?ob)" unfolding tbl_count_def by (rule arg_cong)
      moreover have "length (take k ?ob) = k" using kle by (rule length_take [THEN trans, OF min.absorb2])
      ultimately show ?thesis by (rule trans)
    qed
    ultimately have "tbl_count ?p (drop k ?ob) \<noteq> 0 \<longleftrightarrow> k < tbl_count ?p ?ob" by linarith
    moreover have "k < tbl_count ?p ?ob \<longleftrightarrow> n < tbl_count ?p ?ob" unfolding k_def by linarith
    moreover have "(\<exists>x \<in> set (drop k ?ob). ob_sequence x \<le> safe) \<longleftrightarrow> tbl_count ?p (drop k ?ob) \<noteq> 0"
      unfolding tbl_count_zero by blast
    ultimately show ?thesis by blast
  qed
  ultimately show "db' = db\<lparr>graph_projection_outbox := drop k ?ob\<rparr>"
    and "r = and_then (ok_or (u64_try_from_i64 safe) (NumericRange ''outbox maintenance cursor''))
      (\<lambda>s. Inr \<lparr>om_safe_through_sequence = Some s, om_deleted_rows = k,
         om_backlog_remaining = (n < tbl_count ?p ?ob)\<rparr>)"
    using assms(2-5) scan del
    by (auto simp: prune_rebuildable_outbox_bounded_def safe_through_def Let_def simp del: set_tbl_delete)
qed

lemma prune_consumed_outbox_cases:
  assumes "prune_consumed_outbox db = (db', n)"
  shows "db' = db \<or> (\<exists>m. minimum_last_sequence db = Some m \<and> db' = db\<lparr>graph_projection_outbox :=
    tbl_delete (\<lambda>r. ob_sequence r \<le> m) (graph_projection_outbox db)\<rparr>)"
  using assms by (auto simp: prune_consumed_outbox_def split: option.splits)

lemma read_outbox_cong:
  assumes "filter (\<lambda>r. uint s < ob_sequence r) (graph_projection_outbox db')
    = filter (\<lambda>r. uint s < ob_sequence r) (graph_projection_outbox db)"
  shows "read_outbox env db' (Some (MutationSeq s)) limit = read_outbox env db (Some (MutationSeq s)) limit"
  using assms by (cases "uint s \<le> i64_max") (simp_all add: read_outbox_def tbl_scan_def i64_try_from_u64_def)

text \<open>C30: pruning never takes a row away from a registered consumer: from its own cursor onwards, or
  any later one, it reads exactly the same pages as before, whichever prune ran.\<close>

theorem prune_keeps_unread_rows:
  assumes "graph_ok db" and "c \<in> set (graph_projection_consumers db)" and "c_last_sequence c \<le> uint s"
    and "db' = fst (prune_consumed_outbox db) \<or> db' = fst (prune_rebuildable_outbox_bounded db n allow)"
  shows "read_outbox env db' (Some (MutationSeq s)) limit = read_outbox env db (Some (MutationSeq s)) limit"
proof (rule read_outbox_cong)
  let ?ob = "graph_projection_outbox db"
  obtain m where m: "minimum_last_sequence db = Some m"
    using assms(2) minimum_last_sequence_None [of db] by (cases "minimum_last_sequence db") auto
  have le: "m \<le> uint s" using minimum_last_sequence_le [OF m assms(2)] assms(3) by simp
  have "graph_projection_outbox db' = ?ob \<or> (\<exists>p. graph_projection_outbox db' = filter p ?ob \<and> (\<forall>r. m < ob_sequence r \<longrightarrow> p r))"
    using assms(4)
  proof
    assume "db' = fst (prune_consumed_outbox db)"
    then have "graph_projection_outbox db' = filter (\<lambda>r. \<not> ob_sequence r \<le> m) ?ob"
      using m by (simp add: prune_consumed_outbox_def tbl_delete_def)
    then show ?thesis by (intro disjI2 exI [of _ "\<lambda>r. \<not> ob_sequence r \<le> m"]) simp
  next
    let ?d = "map ob_sequence (tbl_scan (\<lambda>r. ob_sequence r \<le> m) ob_sequence n ?ob)"
    assume "db' = fst (prune_rebuildable_outbox_bounded db n allow)"
    then have "graph_projection_outbox db' = ?ob \<or> graph_projection_outbox db' = filter (\<lambda>r. ob_sequence r \<notin> set ?d) ?ob"
      using m by (simp add: prune_rebuildable_outbox_bounded_def Let_def tbl_delete_def)
    moreover have "ob_sequence r \<notin> set ?d" if "m < ob_sequence r" for r
      using that set_tbl_scan_subset [of "\<lambda>r. ob_sequence r \<le> m" ob_sequence n ?ob] by fastforce
    ultimately show ?thesis by blast
  qed
  then show "filter (\<lambda>r. uint s < ob_sequence r) (graph_projection_outbox db') = filter (\<lambda>r. uint s < ob_sequence r) ?ob"
  proof
    assume "\<exists>p. graph_projection_outbox db' = filter p ?ob \<and> (\<forall>r. m < ob_sequence r \<longrightarrow> p r)"
    then obtain p where "graph_projection_outbox db' = filter p ?ob" "\<And>r. m < ob_sequence r \<Longrightarrow> p r" by blast
    with le show ?thesis by (auto intro!: filter_cong)
  qed simp
qed

lemma graph_ok_drop_outbox:
  assumes "graph_ok db"
  shows "graph_ok (db\<lparr>graph_projection_outbox := drop k (graph_projection_outbox db)\<rparr>)"
proof -
  have "sorted_wrt (<) (map ob_sequence (drop k (graph_projection_outbox db)))"
    using assms sorted_wrt_drop [of "(<)" "map ob_sequence (graph_projection_outbox db)" k]
    by (simp add: graph_ok_def store_ok_def outbox_ok_def drop_map)
  then show ?thesis using assms
    by (auto simp: graph_ok_def store_ok_def schema_ok_def keys_ok_def slots_ok_def fk_ok_def live_links_def
        outbox_ok_def high_water_def checks_ok_def dest: in_set_dropD)
qed

lemma drop_upto: "drop k [a .. b] = [a + int k .. b]" for a b :: int
proof (induction k arbitrary: a)
  case (Suc k)
  then show ?case by (cases "a \<le> b") (simp_all add: upto_rec1 [of a b] algebra_simps)
qed simp

lemma outbox_contiguous_drop:
  assumes "outbox_contiguous db" and "k \<le> length (graph_projection_outbox db)"
  shows "outbox_contiguous (db\<lparr>graph_projection_outbox := drop k (graph_projection_outbox db)\<rparr>)"
  using assms by (simp add: outbox_contiguous_def high_water_def drop_upto of_nat_diff algebra_simps flip: drop_map)

text \<open>A bounded prune removes at most \<open>maximum_rows\<close> rows, all of them at or below the safe cursor;
  it reports exactly what it removed and whether more remains, and keeps the high-water mark, the
  consecutive numbering and the rest of the database.\<close>

theorem prune_bounded_correct:
  assumes "graph_ok db" and "outbox_contiguous db" and "1 \<le> n" and "n \<le> 100000"
    and "safe_through db allow = Some safe"
    and "prune_rebuildable_outbox_bounded db n allow = (db', Inr s)"
  shows "om_deleted_rows s \<le> n
    \<and> graph_projection_outbox db' = drop (om_deleted_rows s) (graph_projection_outbox db)
    \<and> list_all (\<lambda>r. ob_sequence r \<le> safe) (take (om_deleted_rows s) (graph_projection_outbox db))
    \<and> om_backlog_remaining s = list_ex (\<lambda>r. ob_sequence r \<le> safe) (graph_projection_outbox db')
    \<and> high_water db' = high_water db \<and> graph_ok db' \<and> outbox_contiguous db'"
proof -
  have ok: "outbox_ok db" using assms(1) by (simp add: graph_ok_def store_ok_def)
  let ?p = "\<lambda>r. ob_sequence r \<le> safe"
  define k where "k = min n (tbl_count ?p (graph_projection_outbox db))"
  note pre = prune_bounded_prefix [OF ok assms(3-6), folded k_def]
  have k: "om_deleted_rows s = k" "om_backlog_remaining s = (n < tbl_count ?p (graph_projection_outbox db))"
    using pre(3) [symmetric] by (auto simp: result_simps)
  have kle: "k \<le> length (graph_projection_outbox db)" by (simp add: k_def tbl_count_def min.coboundedI2)
  have "tbl_count ?p (take k (graph_projection_outbox db)) + tbl_count ?p (drop k (graph_projection_outbox db))
      = tbl_count ?p (graph_projection_outbox db)"
    by (metis append_take_drop_id filter_append length_append tbl_count_def)
  moreover have "tbl_count ?p (take k (graph_projection_outbox db)) = k"
    unfolding tbl_count_def filter_True [OF pre(2)] using kle by simp
  ultimately have "tbl_count ?p (drop k (graph_projection_outbox db)) \<noteq> 0 \<longleftrightarrow> n < tbl_count ?p (graph_projection_outbox db)"
    unfolding k_def by linarith
  then have "om_backlog_remaining s = list_ex ?p (drop k (graph_projection_outbox db))"
    unfolding k(2) tbl_count_zero by (auto simp: list_ex_iff)
  moreover have "k \<le> n" by (simp add: k_def)
  ultimately show ?thesis
    using pre(1,2) k(1) graph_ok_drop_outbox [OF assms(1), of k] outbox_contiguous_drop [OF assms(2) kle]
    by (simp add: list_all_iff high_water_def)
qed

section \<open>Compaction\<close>

definition legacy_count :: "graph_db \<Rightarrow> nat" where
  "legacy_count db = tbl_count (\<lambda>d. d_projection_path d = None) (graph_catalog_documents db)"

lemma tbl_count_update_one:
  assumes "distinct (map key t)" and "r \<in> set t" and "p r" and "\<not> p (f r)"
  shows "tbl_count p (tbl_update (\<lambda>x. key x = key r \<and> p x) f t) = tbl_count p t - 1"
  using assms
proof (induction t)
  case (Cons x t)
  show ?case
  proof (cases "x = r")
    case True
    then have "\<forall>y \<in> set t. key y \<noteq> key r" using Cons.prems(1) by (auto simp: image_iff)
    then have "tbl_update (\<lambda>x. key x = key r \<and> p x) f t = t"
      by (auto simp: tbl_update_def intro!: map_idI)
    with True Cons.prems show ?thesis by (simp add: tbl_update_def tbl_count_def)
  next
    case False
    then have "r \<in> set t" "key x \<noteq> key r" using Cons.prems by auto
    moreover from this have "0 < tbl_count p t" using Cons.prems(3) by (metis gr0I tbl_count_zero)
    ultimately show ?thesis
      using Cons by (auto simp: tbl_update_def tbl_count_def)
  qed
qed simp

lemma graph_ok_documents:
  assumes "graph_ok db" and "distinct (map d_document_id ds)" and "distinct (map d_file_link_id ds)"
    and "\<forall>d \<in> set ds. find_object db (d_object d) \<noteq> None
      \<and> d_document_id d = document_id_for_link (d_file_link_id d)
      \<and> (d_projection_path d = None \<longleftrightarrow> d_projection_fingerprint d = None)"
  shows "graph_ok (db\<lparr>graph_catalog_documents := ds\<rparr>)"
  using assms
  by (simp add: graph_ok_def store_ok_def schema_ok_def keys_ok_def slots_ok_def fk_ok_def live_links_def
      outbox_ok_def high_water_def checks_ok_def)

lemma compact_row_result:
  assumes "graph_ok db" and "row \<in> set (graph_catalog_documents db)" and "d_projection_path row = None"
    and "compact_row env db row = Inr db'"
  shows "graph_ok db'" and "projected env db' k = projected env db k"
    and "legacy_count db' = legacy_count db - 1"
    and "\<forall>d \<in> set (graph_catalog_documents db). d_document_id d \<noteq> d_document_id row \<longrightarrow> d \<in> set (graph_catalog_documents db')"
    and "graph_part db' = graph_part db" and "graph_projection_outbox db' = graph_projection_outbox db"
    and "outbox_seq db' = outbox_seq db"
proof -
  let ?ds = "graph_catalog_documents db"
  have keys: "distinct (map d_document_id ?ds)"
    using assms(1) by (simp add: graph_ok_def store_ok_def schema_ok_def keys_ok_def)
  have fpn: "d_projection_fingerprint row = None"
    using assms(1-3) by (auto simp: graph_ok_def store_ok_def outbox_ok_def)
  obtain doc f where doc: "env_document_from_json env (d_document_json row) = Some doc" "fp_of env doc = Some f"
    and db': "db' = db\<lparr>graph_catalog_documents :=
       tbl_update (\<lambda>d. d_document_id d = d_document_id row \<and> d_projection_path d = None)
         (\<lambda>d. d\<lparr>d_projection_path := Some (doc_resolved_path doc),
                d_projection_fingerprint := Some f, d_document_json := []\<rparr>) ?ds\<rparr>"
    using assms(4) by (auto simp: compact_row_def result_simps fingerprint_fp_of)
  let ?g = "\<lambda>d. d\<lparr>d_projection_path := Some (doc_resolved_path doc),
                d_projection_fingerprint := Some f, d_document_json := []\<rparr>"
  show "graph_part db' = graph_part db" "graph_projection_outbox db' = graph_projection_outbox db"
    "outbox_seq db' = outbox_seq db" by (simp_all add: db')
  show "legacy_count db' = legacy_count db - 1"
    using tbl_count_update_one [OF keys assms(2), of "\<lambda>d. d_projection_path d = None" ?g] assms(3)
    by (simp add: legacy_count_def db')
  show "\<forall>d \<in> set ?ds. d_document_id d \<noteq> d_document_id row \<longrightarrow> d \<in> set (graph_catalog_documents db')"
    by (auto simp: db' set_tbl_update intro: rev_image_eqI)
  have find: "find_document db' k = map_option (\<lambda>d. if d_document_id d = d_document_id row \<and> d_projection_path d = None then ?g d else d) (find_document db k)"
    unfolding db' by (simp add: tbl_find_update)
  show "projected env db' k = projected env db k"
  proof (cases "find_document db k")
    case (Some d)
    show ?thesis
    proof (cases "d_document_id d = d_document_id row")
      case True
      then have "d = row"
        using keys assms(2) tbl_find_Some [OF Some] by (auto simp: distinct_map inj_on_def)
      then show ?thesis using Some find doc fpn assms(3) by (simp add: projected_def row_fp_def)
    qed (use Some find in \<open>simp add: projected_def\<close>)
  qed (use find in \<open>simp add: projected_def\<close>)
  have "map d_file_link_id (graph_catalog_documents db') = map d_file_link_id ?ds"
    "map d_document_id (graph_catalog_documents db') = map d_document_id ?ds"
    by (simp_all add: db' map_key_update)
  moreover have "\<forall>d \<in> set ?ds. find_object db (d_object d) \<noteq> None
      \<and> d_document_id d = document_id_for_link (d_file_link_id d)
      \<and> (d_projection_path d = None \<longleftrightarrow> d_projection_fingerprint d = None)"
    using assms(1) by (simp add: graph_ok_def store_ok_def schema_ok_def fk_ok_def outbox_ok_def)
  then have "\<forall>d \<in> set (graph_catalog_documents db'). find_object db (d_object d) \<noteq> None
      \<and> d_document_id d = document_id_for_link (d_file_link_id d)
      \<and> (d_projection_path d = None \<longleftrightarrow> d_projection_fingerprint d = None)"
    by (auto simp: db' set_tbl_update)
  moreover have "distinct (map d_file_link_id ?ds)"
    using assms(1) by (simp add: graph_ok_def store_ok_def schema_ok_def keys_ok_def)
  ultimately have "graph_ok (db\<lparr>graph_catalog_documents := graph_catalog_documents db'\<rparr>)"
    using keys by (intro graph_ok_documents [OF assms(1)]) simp_all
  then show "graph_ok db'" by (simp add: db')
qed

lemma compact_rows_result:
  assumes "fold_r (compact_row env) db rows = Inr db'" and "graph_ok db"
    and "set rows \<subseteq> {d \<in> set (graph_catalog_documents db). d_projection_path d = None}"
    and "distinct (map d_document_id rows)"
  shows "graph_ok db' \<and> (\<forall>k. projected env db' k = projected env db k)
    \<and> legacy_count db' = legacy_count db - length rows \<and> graph_part db' = graph_part db
    \<and> graph_projection_outbox db' = graph_projection_outbox db \<and> outbox_seq db' = outbox_seq db"
  using assms
proof (induction rows arbitrary: db)
  case (Cons r rows)
  from Cons.prems(1) obtain db1 where db1: "compact_row env db r = Inr db1" "fold_r (compact_row env) db1 rows = Inr db'"
    by (auto simp: result_simps)
  have r: "r \<in> set (graph_catalog_documents db)" "d_projection_path r = None" using Cons.prems(3) by auto
  note one = compact_row_result [OF Cons.prems(2) r db1(1)]
  have "set rows \<subseteq> {d \<in> set (graph_catalog_documents db1). d_projection_path d = None}"
  proof
    fix d assume d: "d \<in> set rows"
    then have "d_document_id d \<noteq> d_document_id r" using Cons.prems(4) by (auto simp: image_iff)
    with d Cons.prems(3) one(4) show "d \<in> {d \<in> set (graph_catalog_documents db1). d_projection_path d = None}"
      by auto
  qed
  with Cons.IH [OF db1(2) one(1)] Cons.prems(4) one show ?case by simp
qed simp

text \<open>Compacting legacy payloads rewrites at most \<open>maximum_rows\<close> rows, reports how many and whether
  any remain, and does not change what desired state records for any document, so no index has to
  hear about it; a failed run changes nothing.\<close>

theorem compaction_preserves_projection:
  assumes "graph_ok db" and "compact_legacy_desired_payloads_bounded env db n = (db', r)"
  shows "case r of
      Inl _ \<Rightarrow> db' = db
    | Inr s \<Rightarrow> (\<forall>k. projected env db' k = projected env db k)
        \<and> dp_rewritten_rows s = min n (legacy_count db)
        \<and> legacy_count db' = legacy_count db - n
        \<and> dp_backlog_remaining s = (legacy_count db' \<noteq> 0)
        \<and> graph_part db' = graph_part db \<and> graph_projection_outbox db' = graph_projection_outbox db
        \<and> graph_ok db'"
proof (cases r)
  case (Inl e)
  with assms(2) show ?thesis
    by (auto simp: compact_legacy_desired_payloads_bounded_def transact_def Let_def
        split: if_splits sum.splits)
next
  case (Inr s)
  let ?rows = "tbl_scan (\<lambda>d. d_projection_path d = None) d_document_id n (graph_catalog_documents db)"
  have run: "fold_r (compact_row env) db ?rows = Inr db'"
    and s: "dp_rewritten_rows s = length ?rows" "dp_backlog_remaining s = legacy_desired_payload_maintenance_pending db'"
    using assms(2) Inr
    by (auto simp: compact_legacy_desired_payloads_bounded_def transact_def Let_def result_simps
        split: if_splits sum.splits)
  have "distinct (map d_document_id (graph_catalog_documents db))"
    using assms(1) by (simp add: graph_ok_def store_ok_def schema_ok_def keys_ok_def)
  then have "distinct (map d_document_id (sort_key d_document_id (filter (\<lambda>d. d_projection_path d = None) (graph_catalog_documents db))))"
    by (auto simp: distinct_map intro: inj_on_subset)
  then have "distinct (map d_document_id ?rows)"
    unfolding tbl_scan_def by (metis distinct_take take_map)
  from compact_rows_result [OF run assms(1) set_tbl_scan_subset this] length_tbl_scan [of "\<lambda>d. d_projection_path d = None" d_document_id n "graph_catalog_documents db"]
  have res: "graph_ok db'" "\<forall>k. projected env db' k = projected env db k" "graph_part db' = graph_part db"
      "graph_projection_outbox db' = graph_projection_outbox db"
      "legacy_count db' = legacy_count db - min n (legacy_count db)" "length ?rows = min n (legacy_count db)"
    by (simp_all add: legacy_count_def)
  moreover have "legacy_desired_payload_maintenance_pending db' \<longleftrightarrow> legacy_count db' \<noteq> 0"
    by (simp add: legacy_desired_payload_maintenance_pending_def legacy_count_def tbl_count_zero)
  ultimately show ?thesis using Inr s by (simp add: min_def)
qed

text \<open>A database with one legacy row.\<close>

definition legacy_env :: graph_env where
  "legacy_env = (sample_env [])\<lparr>env_document_from_json := (\<lambda>_. Some sample_document)\<rparr>"

definition legacy_store :: graph_db where
  "legacy_store = sample_store\<lparr>graph_catalog_documents :=
     [\<lparr>d_document_id = document_id_for_link (from_u128 11), d_object = sample_key 3,
       d_file_link_id = from_u128 11, d_document_version = 1, d_document_json = ''x'',
       d_projection_path = None, d_projection_fingerprint = None\<rparr>]\<rparr>"

lemma graph_ok_apply_all: "graph_ok db \<Longrightarrow> apply_all db ms = Inr db' \<Longrightarrow> graph_ok db'"
  unfolding apply_all_def
  by (erule fold_r_invariant) (auto simp: result_simps dest: graph_ok_apply_mutation)

lemma legacy_store_ok: "graph_ok legacy_store"
proof -
  have "graph_ok sample_store" by (rule graph_ok_apply_all [OF graph_ok_empty sample_store_run])
  moreover have "find_object sample_store (sample_key 3) \<noteq> None" by code_simp
  ultimately show ?thesis
    unfolding legacy_store_def by (intro graph_ok_documents) simp_all
qed

definition compacted :: graph_db where
  "compacted = fst (compact_legacy_desired_payloads_bounded legacy_env legacy_store 10)"

theorem compaction_preserves_projection_witness:
  "projected legacy_env compacted (from_u128 11) = projected legacy_env legacy_store (from_u128 11) \<and> legacy_count compacted = 0"
proof -
  define r where "r = snd (compact_legacy_desired_payloads_bounded legacy_env legacy_store 10)"
  have "\<not> isl (fold_r (compact_row legacy_env) legacy_store
      (tbl_scan (\<lambda>d. d_projection_path d = None) d_document_id 10 (graph_catalog_documents legacy_store)))"
    by code_simp
  then have "\<not> isl (snd (compact_legacy_desired_payloads_bounded legacy_env legacy_store 10))"
    by (auto simp: compact_legacy_desired_payloads_bounded_def Let_def and_then_def split: sum.splits)
  then obtain s where s: "r = Inr s" by (cases r) (simp_all add: r_def)
  have "compact_legacy_desired_payloads_bounded legacy_env legacy_store 10 = (compacted, r)"
    by (simp add: compacted_def r_def)
  from compaction_preserves_projection [OF legacy_store_ok this] show ?thesis
    by (simp add: s legacy_count_def legacy_store_def tbl_count_def)
qed

section \<open>A consumer of the concrete batch\<close>

lemma committed_ok: "graph_ok committed" "outbox_contiguous committed"
  using graph_ok_batch_transaction(1) [OF graph_ok_empty]
    outbox_contiguous_batch [OF graph_ok_empty outbox_contiguous_empty] sample_batch_commits_mode
  by (auto simp: apply_batch_Inr)

definition first_page :: MutationBatch where
  "first_page = projr (read_outbox batch_env committed None 5)"

theorem read_outbox_pages_validate_witness: "batch_validate first_page = Inr ()"
proof (rule read_outbox_pages_validate [OF committed_ok, of batch_env None 5])
  have "\<not> isl (read_outbox batch_env committed None 5)" by code_simp
  then show "read_outbox batch_env committed None 5 = Inr first_page"
    by (cases "read_outbox batch_env committed None 5") (simp_all add: first_page_def)
  show "mb_mutations first_page \<noteq> []" by code_simp
qed

definition sample_consumer :: consumer_row where
  "sample_consumer = \<lparr>c_consumer_id = ''TANTIVY-SCHEMA-v1'', c_last_sequence = 1, c_index_generation = 1\<rparr>"

definition consumed :: graph_db where
  "consumed = committed\<lparr>graph_projection_consumers := [sample_consumer]\<rparr>"

lemma consumed_ok: "graph_ok consumed" "outbox_contiguous consumed"
proof -
  have "high_water committed = 2" by code_simp
  then show "graph_ok consumed"
    unfolding consumed_def
    by (intro graph_ok_consumers committed_ok) (simp_all add: sample_consumer_def i64_max_def)
  show "outbox_contiguous consumed"
    using committed_ok(2) outbox_contiguous_cong [of consumed committed] by (simp add: consumed_def)
qed

theorem prune_keeps_unread_rows_witness:
  "read_outbox batch_env (fst (prune_consumed_outbox consumed)) (Some (MutationSeq 1)) 5
     = read_outbox batch_env consumed (Some (MutationSeq 1)) 5"
  by (rule prune_keeps_unread_rows [OF consumed_ok(1), of sample_consumer])
     (simp_all add: consumed_def sample_consumer_def)

theorem prune_bounded_correct_witness:
  "\<exists>s. snd (prune_rebuildable_outbox_bounded consumed 5 False) = Inr s \<and> om_deleted_rows s \<le> 5
     \<and> graph_ok (fst (prune_rebuildable_outbox_bounded consumed 5 False))"
proof -
  have safe: "safe_through consumed False = Some 1"
    by (simp add: safe_through_def minimum_last_sequence_def consumed_def sample_consumer_def)
  then obtain s where s: "snd (prune_rebuildable_outbox_bounded consumed 5 False) = Inr s"
    by (simp add: prune_rebuildable_outbox_bounded_def Let_def minimum_last_sequence_def consumed_def
        sample_consumer_def u64_try_from_i64_def)
  then have "prune_rebuildable_outbox_bounded consumed 5 False
      = (fst (prune_rebuildable_outbox_bounded consumed 5 False), Inr s)"
    by (simp add: prod_eq_iff)
  from prune_bounded_correct [OF consumed_ok _ _ safe this] s show ?thesis by simp
qed

section \<open>Refresh jobs\<close>

text \<open>All links of the volume up to the cursor agree with the graph; before the first page there is
  nothing to agree.\<close>

definition refreshed_upto :: "graph_env \<Rightarrow> graph_db \<Rightarrow> VolumeId \<Rightarrow> FileLinkId option \<Rightarrow> bool" where
  "refreshed_upto env db v cursor \<longleftrightarrow>
     (\<forall>r \<in> set (graph_file_links db). fk_volume_id (l_object r) = v \<and> \<not> after_cursor cursor (l_file_link_id r)
        \<longrightarrow> in_sync env db (l_file_link_id r))"

definition volume_refreshed :: "graph_env \<Rightarrow> graph_db \<Rightarrow> VolumeId \<Rightarrow> bool" where
  "volume_refreshed env db v \<longleftrightarrow>
     (\<forall>r \<in> set (graph_file_links db). fk_volume_id (l_object r) = v \<longrightarrow> in_sync env db (l_file_link_id r))"

definition links_remaining :: "graph_db \<Rightarrow> VolumeId \<Rightarrow> FileLinkId option \<Rightarrow> nat" where
  "links_remaining db v cursor =
     tbl_count (\<lambda>r. fk_volume_id (l_object r) = v \<and> after_cursor cursor (l_file_link_id r)) (graph_file_links db)"

lemma refreshed_upto_start: "refreshed_upto env db v None"
  by (simp add: refreshed_upto_def)

lemma in_sync_jobs [simp]:
  "in_sync env (db\<lparr>graph_path_refresh_jobs := js\<rparr>) l = in_sync env db l"
  "in_sync env (db\<lparr>graph_volume_projection_refresh_jobs := vjs\<rparr>) l = in_sync env db l"
  using current_document_links [of "db\<lparr>graph_path_refresh_jobs := js\<rparr>" db env l]
    current_document_links [of "db\<lparr>graph_volume_projection_refresh_jobs := vjs\<rparr>" db env l]
  by (simp_all add: in_sync_def projected_def)

lemma sync_links_keeps_in_sync:
  assumes "sync_links env db links g mode = Inr (db', n)" and "in_sync env db l"
  shows "in_sync env db' l"
  using assms(1,2) by (rule sync_links_invariant [where P = "\<lambda>s. in_sync env s l"]) (rule sync_keeps_in_sync)

lemma sync_links_graph_part:
  assumes "sync_links env db links g mode = Inr (db', n)"
  shows "graph_part db' = graph_part db"
  using assms by (rule sync_links_invariant [where P = "\<lambda>s. graph_part s = graph_part db"]) (simp_all add: sync_frame(1))

lemma links_page_covers:
  assumes "schema_ok db" and "r \<in> set (graph_file_links db)" and "fk_volume_id (l_object r) = v"
    and "after_cursor cursor (l_file_link_id r)" and "page = links_page db v cursor n"
  shows "l_file_link_id r \<in> set page \<or> (length page = n \<and> (page \<noteq> [] \<longrightarrow> last page < l_file_link_id r))"
proof -
  let ?p = "\<lambda>r. fk_volume_id (l_object r) = v \<and> after_cursor cursor (l_file_link_id r)"
  let ?rows = "tbl_scan ?p l_file_link_id n (graph_file_links db)"
  have "page = map l_file_link_id ?rows" using assms(5) by (simp add: links_page_def)
  then show ?thesis
    using link_pages.scan_covers [OF assms(1,2), of ?p ?rows n] assms(3,4) by (auto simp: last_map)
qed

lemma refreshed_upto_page:
  assumes "schema_ok db" and "refreshed_upto env db v cursor" and "page = links_page db v cursor n"
    and "sync_links env db page g mode = Inr (db', k)" and "0 < n"
  shows "if length page < n then volume_refreshed env db' v else refreshed_upto env db' v (Some (last page))"
proof -
  have links: "graph_file_links db' = graph_file_links db"
    using graph_part_eq_fields(4) [OF sync_links_graph_part [OF assms(4)]] .
  have "in_sync env db' (l_file_link_id r)"
    if r: "r \<in> set (graph_file_links db)" "fk_volume_id (l_object r) = v"
      and near: "length page < n \<or> \<not> last page < l_file_link_id r" for r
  proof (cases "after_cursor cursor (l_file_link_id r)")
    case True
    have "page \<noteq> [] \<or> length page < n" using assms(5) by (cases page) auto
    then have "l_file_link_id r \<in> set page"
      using links_page_covers [OF assms(1) r True assms(3)] near by auto
    with assms(4) show ?thesis by (rule sync_links_in_sync)
  next
    case False
    with r assms(2) have "in_sync env db (l_file_link_id r)" by (simp add: refreshed_upto_def)
    with assms(4) show ?thesis by (rule sync_links_keeps_in_sync)
  qed
  then show ?thesis using links by (simp add: refreshed_upto_def volume_refreshed_def)
qed

lemma links_remaining_page:
  assumes "schema_ok db" and "page = links_page db v cursor n" and "length page = n" and "0 < n"
  shows "links_remaining db v (Some (last page)) + n = links_remaining db v cursor"
proof -
  let ?p = "\<lambda>r. fk_volume_id (l_object r) = v \<and> after_cursor cursor (l_file_link_id r)"
  let ?rows = "tbl_scan ?p l_file_link_id n (graph_file_links db)"
  have ne: "?rows \<noteq> []" and page: "page = map l_file_link_id ?rows" and len: "length ?rows = n"
    using assms(2-4) by (auto simp: links_page_def)
  have lastp: "last page = l_file_link_id (last ?rows)" using page ne by (simp add: last_map)
  have "last ?rows \<in> set ?rows" using ne by simp
  then have "after_cursor cursor (last page)"
    using set_tbl_scan_subset [of ?p l_file_link_id n "graph_file_links db"] lastp by auto
  then have after: "(?p r \<and> last page < l_file_link_id r)
      \<longleftrightarrow> (fk_volume_id (l_object r) = v \<and> after_cursor (Some (last page)) (l_file_link_id r))" for r
    by (cases cursor) auto
  have "length (sort_key l_file_link_id (filter ?p (graph_file_links db)))
      = length ?rows + length (sort_key l_file_link_id (filter (\<lambda>r. ?p r \<and> l_file_link_id (last ?rows) < l_file_link_id r) (graph_file_links db)))"
    using link_pages.scan_resume [OF assms(1), of ?rows n ?p] ne
    by (metis (no_types, lifting) length_append tbl_scan_def)
  moreover have "filter (\<lambda>r. ?p r \<and> l_file_link_id (last ?rows) < l_file_link_id r) (graph_file_links db)
      = filter (\<lambda>r. fk_volume_id (l_object r) = v \<and> after_cursor (Some (last page)) (l_file_link_id r)) (graph_file_links db)"
    by (rule filter_cong [OF refl]) (use after lastp in metis)
  ultimately show ?thesis
    using len unfolding links_remaining_def tbl_count_def length_sort by simp
qed

text \<open>The path job a refresh works on: the pending one with the smallest id.\<close>

definition current_path_job :: "graph_db \<Rightarrow> path_job_row option" where
  "current_path_job db =
     (case tbl_scan (\<lambda>j. j_state j = Pending) j_job_id 1 (graph_path_refresh_jobs db) of
        [] \<Rightarrow> None | job # _ \<Rightarrow> Some job)"

lemma current_path_job_Some:
  "current_path_job db = Some job \<Longrightarrow> job \<in> set (graph_path_refresh_jobs db) \<and> j_state job = Pending"
  using set_tbl_scan_subset [of "\<lambda>j. j_state j = Pending" j_job_id 1 "graph_path_refresh_jobs db"]
  by (auto simp: current_path_job_def split: list.splits)

lemma refresh_projection_paths_run:
  assumes "refresh_projection_paths env db n = (db', Inr s)" and "0 < n" and "current_path_job db = Some job"
  defines "page \<equiv> links_page db (fk_volume_id (j_root job)) (j_cursor job) n"
  obtains g db1 where "volume_generation db (fk_volume_id (j_root job)) = Inr g"
    "sync_links env db page g Durable = Inr (db1, rs_outbox_mutations_appended s)"
    "db' = db1\<lparr>graph_path_refresh_jobs := tbl_update (\<lambda>j. j_job_id j = j_job_id job)
       (\<lambda>j. if length page < n then j\<lparr>j_state := Done\<rparr> else j\<lparr>j_cursor := Some (last page)\<rparr>)
       (graph_path_refresh_jobs db1)\<rparr>"
    "rs_links_scanned s = length page" "rs_job_completed s \<longleftrightarrow> length page < n"
proof -
  have scan: "tbl_scan (\<lambda>j. j_state j = Pending) j_job_id 1 (graph_path_refresh_jobs db) = [job]"
  proof -
    have "length (tbl_scan (\<lambda>j. j_state j = Pending) j_job_id 1 (graph_path_refresh_jobs db)) \<le> 1"
      by (simp add: length_tbl_scan)
    then show ?thesis using assms(3)
      by (auto simp: current_path_job_def split: list.splits)
  qed
  show thesis
  proof (cases "volume_generation db (fk_volume_id (j_root job))")
    case (Inl e)
    then show thesis using assms(1,2) scan by (simp add: refresh_projection_paths_def Let_def)
  next
    case (Inr g)
    show thesis
    proof (cases "sync_links env db page g Durable")
      case (Inl e)
      then show thesis using assms(1,2) scan Inr by (simp add: refresh_projection_paths_def Let_def page_def)
    next
      case sync: (Inr r)
      obtain db1 k where r: "r = (db1, k)" by (cases r)
      show thesis
        using assms(1,2) scan Inr sync [unfolded page_def] r
        by (intro that [of g db1, unfolded page_def]) (auto simp: refresh_projection_paths_def Let_def)
    qed
  qed
qed

text \<open>One call of the path refresh examines at most \<open>maximum_links\<close> links of the job's volume after
  the job's cursor and brings them in step with the graph. If the call completes the job, every link
  of the volume agrees with the graph; otherwise the job stays queued with a cursor that is
  \<open>maximum_links\<close> links further and everything up to it agrees. So a job takes
  \<open>links_remaining div maximum_links + 1\<close> calls, however often the process restarts between them.\<close>

theorem refresh_projection_paths_progress:
  assumes "graph_ok db" and "0 < n" and "current_path_job db = Some job"
    and "refreshed_upto env db (fk_volume_id (j_root job)) (j_cursor job)"
    and "refresh_projection_paths env db n = (db', Inr s)"
  defines "v \<equiv> fk_volume_id (j_root job)"
  shows "rs_links_scanned s \<le> n
    \<and> (if rs_job_completed s
       then volume_refreshed env db' v \<and> job\<lparr>j_state := Done\<rparr> \<in> set (graph_path_refresh_jobs db')
       else \<exists>cursor. job\<lparr>j_cursor := Some cursor\<rparr> \<in> set (graph_path_refresh_jobs db')
         \<and> refreshed_upto env db' v (Some cursor)
         \<and> links_remaining db' v (Some cursor) + n = links_remaining db v (j_cursor job))"
proof -
  let ?page = "links_page db v (j_cursor job) n"
  from assms(5,2,3) obtain g db1 where "volume_generation db v = Inr g"
    and sync: "sync_links env db ?page g Durable = Inr (db1, rs_outbox_mutations_appended s)"
    and db': "db' = db1\<lparr>graph_path_refresh_jobs := tbl_update (\<lambda>j. j_job_id j = j_job_id job)
       (\<lambda>j. if length ?page < n then j\<lparr>j_state := Done\<rparr> else j\<lparr>j_cursor := Some (last ?page)\<rparr>)
       (graph_path_refresh_jobs db1)\<rparr>"
    and s: "rs_links_scanned s = length ?page" "rs_job_completed s \<longleftrightarrow> length ?page < n"
    unfolding v_def by (rule refresh_projection_paths_run)
  have ok: "schema_ok db" using assms(1) by (simp add: graph_ok_def store_ok_def)
  note part = graph_part_eq_fields [OF sync_links_graph_part [OF sync]]
  have len: "length ?page \<le> n" by (simp add: links_page_def length_tbl_scan)
  have job: "job \<in> set (graph_path_refresh_jobs db1)"
    using current_path_job_Some [OF assms(3)] part(5) by simp
  have upto: "if length ?page < n then volume_refreshed env db1 v else refreshed_upto env db1 v (Some (last ?page))"
    by (rule refreshed_upto_page [OF ok assms(4) [folded v_def] refl sync assms(2)])
  have same: "graph_file_links db' = graph_file_links db1" "in_sync env db' l = in_sync env db1 l" for l
    by (simp_all add: db')
  show ?thesis
  proof (cases "length ?page < n")
    case True
    then have "job\<lparr>j_state := Done\<rparr> \<in> set (graph_path_refresh_jobs db')"
      using job by (auto simp: db' set_tbl_update image_iff intro!: bexI [of _ job])
    with True upto same len s show ?thesis by (simp add: volume_refreshed_def)
  next
    case False
    then have "job\<lparr>j_cursor := Some (last ?page)\<rparr> \<in> set (graph_path_refresh_jobs db')"
      using job by (auto simp: db' set_tbl_update image_iff intro!: bexI [of _ job])
    moreover have "links_remaining db' v (Some (last ?page)) + n = links_remaining db v (j_cursor job)"
      using links_remaining_page [OF ok refl _ assms(2)] False len same(1) part(4)
      by (simp add: links_remaining_def)
    moreover have "refreshed_upto env db' v (Some (last ?page))"
      using upto False same by (simp add: refreshed_upto_def)
    ultimately show ?thesis using False len s by auto
  qed
qed

lemma not_isl_Inr: "\<not> isl x \<Longrightarrow> \<exists>y. x = Inr y"
  by (cases x) simp_all

lemma graph_ok_sync_links: "graph_ok db \<Longrightarrow> sync_links env db links g mode = Inr (db', n) \<Longrightarrow> graph_ok db'"
  by (erule sync_links_invariant [rotated]) (auto dest: graph_ok_sync)

lemma graph_ok_with_path_jobs:
  assumes "graph_ok db" and "distinct (map j_root (filter (\<lambda>j. j_state j = Pending) js))"
    and "distinct (map j_job_id js)" and "\<forall>j \<in> set js. find_object db (j_root j) \<noteq> None"
  shows "graph_ok (db\<lparr>graph_path_refresh_jobs := js\<rparr>)"
  using assms
  by (simp add: graph_ok_def store_ok_def schema_ok_def keys_ok_def slots_ok_def fk_ok_def live_links_def
      outbox_ok_def high_water_def checks_ok_def)

lemma graph_ok_with_volume_jobs:
  assumes "graph_ok db" and "distinct (map vj_volume_id js)"
    and "\<forall>j \<in> set js. find_volume db (vj_volume_id j) \<noteq> None"
  shows "graph_ok (db\<lparr>graph_volume_projection_refresh_jobs := js\<rparr>)"
  using assms
  by (simp add: graph_ok_def store_ok_def schema_ok_def keys_ok_def slots_ok_def fk_ok_def live_links_def
      outbox_ok_def high_water_def checks_ok_def)

lemma graph_ok_path_jobs:
  assumes "graph_ok db"
  shows "graph_ok (db\<lparr>graph_path_refresh_jobs := tbl_update (\<lambda>j. j_job_id j = i)
    (\<lambda>j. if c then j\<lparr>j_state := Done\<rparr> else j\<lparr>j_cursor := x\<rparr>) (graph_path_refresh_jobs db)\<rparr>)"
proof -
  let ?f = "\<lambda>j. if c then j\<lparr>j_state := Done\<rparr> else j\<lparr>j_cursor := x\<rparr>"
  have roots: "distinct (map j_root (filter (\<lambda>j. j_state j = Pending) (tbl_update (\<lambda>j. j_job_id j = i) ?f js)))
      \<and> set (map j_root (filter (\<lambda>j. j_state j = Pending) (tbl_update (\<lambda>j. j_job_id j = i) ?f js)))
        \<subseteq> set (map j_root (filter (\<lambda>j. j_state j = Pending) js))"
    if "distinct (map j_root (filter (\<lambda>j. j_state j = Pending) js))" for js :: "path_job_row list"
    using that by (induction js) (auto simp: tbl_update_def)
  have ids: "map j_job_id (tbl_update (\<lambda>j. j_job_id j = i) ?f js) = map j_job_id js" for js :: "path_job_row list"
    by (rule map_key_update) simp
  have "\<forall>j \<in> set (tbl_update (\<lambda>j. j_job_id j = i) ?f (graph_path_refresh_jobs db)). find_object db (j_root j) \<noteq> None"
    using assms by (auto simp: set_tbl_update graph_ok_def store_ok_def schema_ok_def fk_ok_def)
  moreover have "distinct (map j_root (filter (\<lambda>j. j_state j = Pending) (graph_path_refresh_jobs db)))"
      "distinct (map j_job_id (graph_path_refresh_jobs db))"
    using assms by (simp_all add: graph_ok_def store_ok_def schema_ok_def keys_ok_def)
  ultimately show ?thesis
    by (intro graph_ok_with_path_jobs [OF assms]) (use roots ids in \<open>simp_all only:\<close>)
qed

lemma graph_ok_volume_jobs:
  assumes "graph_ok db"
  shows "graph_ok (db\<lparr>graph_volume_projection_refresh_jobs := tbl_update (\<lambda>j. vj_volume_id j = i)
    (\<lambda>j. if c then j\<lparr>vj_state := Done\<rparr> else j\<lparr>vj_cursor := x\<rparr>) (graph_volume_projection_refresh_jobs db)\<rparr>)"
proof -
  let ?f = "\<lambda>j. if c then j\<lparr>vj_state := Done\<rparr> else j\<lparr>vj_cursor := x\<rparr>"
  have ids: "map vj_volume_id (tbl_update (\<lambda>j. vj_volume_id j = i) ?f js) = map vj_volume_id js" for js :: "volume_job_row list"
    by (rule map_key_update) simp
  have "\<forall>j \<in> set (tbl_update (\<lambda>j. vj_volume_id j = i) ?f (graph_volume_projection_refresh_jobs db)).
      find_volume db (vj_volume_id j) \<noteq> None"
    using assms by (auto simp: set_tbl_update graph_ok_def store_ok_def schema_ok_def fk_ok_def)
  moreover have "distinct (map vj_volume_id (graph_volume_projection_refresh_jobs db))"
    using assms by (simp add: graph_ok_def store_ok_def schema_ok_def keys_ok_def)
  ultimately show ?thesis
    by (intro graph_ok_with_volume_jobs [OF assms]) (use ids in \<open>simp_all only:\<close>)
qed

text \<open>Both refreshes are one page of synchronisation followed by an update of a job table.\<close>

definition refresh_step :: "graph_env \<Rightarrow> graph_db \<Rightarrow> graph_db \<Rightarrow> ProjectionRefreshSummary \<Rightarrow> bool" where
  "refresh_step env db db' s \<longleftrightarrow>
     (\<exists>links g db1. sync_links env db links g Durable = Inr (db1, rs_outbox_mutations_appended s)
        \<and> graph_catalog_documents db' = graph_catalog_documents db1
        \<and> graph_projection_outbox db' = graph_projection_outbox db1 \<and> outbox_seq db' = outbox_seq db1
        \<and> graph_projection_consumers db' = graph_projection_consumers db1
        \<and> (graph_ok db1 \<longrightarrow> graph_ok db'))"

lemma refresh_step_default:
  assumes "s = default_refresh_summary"
  shows "refresh_step env db db s"
  unfolding refresh_step_def
  by (rule exI [of _ "[]"]) (simp add: assms default_refresh_summary_def)

lemma refresh_paths_step:
  assumes "refresh_projection_paths env db n = (db', r)"
  shows "case r of Inl _ \<Rightarrow> db' = db | Inr s \<Rightarrow> refresh_step env db db' s"
proof (cases "n = 0 \<or> tbl_scan (\<lambda>j. j_state j = Pending) j_job_id 1 (graph_path_refresh_jobs db) = []")
  case True
  then have "db' = db" "r = Inr default_refresh_summary"
    using assms by (auto simp: refresh_projection_paths_def simp del: One_nat_def split: if_splits)
  then show ?thesis by (simp add: refresh_step_default)
next
  case False
  then obtain job rest where job: "tbl_scan (\<lambda>j. j_state j = Pending) j_job_id 1 (graph_path_refresh_jobs db) = job # rest"
    by (cases "tbl_scan (\<lambda>j. j_state j = Pending) j_job_id 1 (graph_path_refresh_jobs db)") auto
  let ?links = "links_page db (fk_volume_id (j_root job)) (j_cursor job) n"
  show ?thesis
  proof (cases r)
    case (Inl e)
    then show ?thesis using assms job False
      by (auto simp: refresh_projection_paths_def Let_def transact_def result_simps simp del: One_nat_def split: sum.splits)
  next
    case (Inr s)
    then obtain g db1 where "sync_links env db ?links g Durable = Inr (db1, rs_outbox_mutations_appended s)"
      and db': "db' = db1\<lparr>graph_path_refresh_jobs := tbl_update (\<lambda>j. j_job_id j = j_job_id job)
            (\<lambda>j. if length ?links < n then j\<lparr>j_state := Done\<rparr> else j\<lparr>j_cursor := Some (last ?links)\<rparr>)
            (graph_path_refresh_jobs db1)\<rparr>"
      using assms job False
      by (auto simp: refresh_projection_paths_def Let_def transact_def result_simps simp del: One_nat_def split: sum.splits)
    moreover have "graph_ok db1 \<Longrightarrow> graph_ok db'" unfolding db' by (rule graph_ok_path_jobs)
    ultimately show ?thesis unfolding refresh_step_def Inr by (auto simp: db')
  qed
qed

lemma refresh_volume_step:
  assumes "refresh_volume_projection env db n = (db', r)"
  shows "case r of Inl _ \<Rightarrow> db' = db | Inr s \<Rightarrow> refresh_step env db db' s"
proof (cases "n = 0 \<or> tbl_scan (\<lambda>j. vj_state j = Pending) vj_volume_id 1 (graph_volume_projection_refresh_jobs db) = []")
  case True
  then have "db' = db" "r = Inr default_refresh_summary"
    using assms by (auto simp: refresh_volume_projection_def simp del: One_nat_def split: if_splits)
  then show ?thesis by (simp add: refresh_step_default)
next
  case False
  then obtain job rest where job: "tbl_scan (\<lambda>j. vj_state j = Pending) vj_volume_id 1 (graph_volume_projection_refresh_jobs db) = job # rest"
    by (cases "tbl_scan (\<lambda>j. vj_state j = Pending) vj_volume_id 1 (graph_volume_projection_refresh_jobs db)") auto
  let ?links = "documents_page db (vj_volume_id job) (vj_cursor job) n"
  show ?thesis
  proof (cases r)
    case (Inl e)
    then show ?thesis using assms job False
      by (auto simp: refresh_volume_projection_def Let_def transact_def result_simps simp del: One_nat_def split: sum.splits)
  next
    case (Inr s)
    then obtain g db1 where "sync_links env db ?links g Durable = Inr (db1, rs_outbox_mutations_appended s)"
      and db': "db' = db1\<lparr>graph_volume_projection_refresh_jobs := tbl_update (\<lambda>j. vj_volume_id j = vj_volume_id job)
            (\<lambda>j. if length ?links < n then j\<lparr>vj_state := Done\<rparr> else j\<lparr>vj_cursor := Some (last ?links)\<rparr>)
            (graph_volume_projection_refresh_jobs db1)\<rparr>"
      using assms job False
      by (auto simp: refresh_volume_projection_def Let_def transact_def result_simps simp del: One_nat_def split: sum.splits)
    moreover have "graph_ok db1 \<Longrightarrow> graph_ok db'" unfolding db' by (rule graph_ok_volume_jobs)
    ultimately show ?thesis unfolding refresh_step_def Inr by (auto simp: db')
  qed
qed

text \<open>A path or volume refresh refines desired state like a batch does: an index that agreed before
  agrees after it applies the rows the refresh appended, whose number is the one reported; a failed
  refresh changes nothing, and the database stays valid with consecutive outbox numbering.\<close>

theorem refresh_outbox_refines:
  assumes "graph_ok db" and "outbox_contiguous db" and "json_round_trip env"
    and "refresh_projection_paths env db n = (db', r) \<or> refresh_volume_projection env db n = (db', r)"
  shows "graph_ok db' \<and> outbox_contiguous db'
    \<and> (case r of
         Inl _ \<Rightarrow> db' = db
       | Inr s \<Rightarrow> \<exists>ms. outbox_extends env db db' ms \<and> length ms = rs_outbox_mutations_appended s
           \<and> (\<forall>idx. index_agrees env idx db \<longrightarrow> index_agrees env (replay idx ms) db'))"
proof -
  have step: "case r of Inl _ \<Rightarrow> db' = db | Inr s \<Rightarrow> refresh_step env db db' s"
    using assms(4) refresh_paths_step refresh_volume_step by blast
  show ?thesis
  proof (cases r)
    case (Inl e)
    with step assms show ?thesis by simp
  next
    case (Inr s)
    with step obtain links g db1 where sync: "sync_links env db links g Durable = Inr (db1, rs_outbox_mutations_appended s)"
      and same: "graph_catalog_documents db' = graph_catalog_documents db1"
        "graph_projection_outbox db' = graph_projection_outbox db1" "outbox_seq db' = outbox_seq db1"
      and ok: "graph_ok db1 \<Longrightarrow> graph_ok db'" by (auto simp: refresh_step_def)
    have "outbox_contiguous db1"
      using outbox_contiguous_sync_links [OF sync] assms(1,2) by (simp add: graph_ok_def)
    then have "outbox_contiguous db'" using outbox_contiguous_cong [OF same(2,3)] by simp
    moreover have "graph_ok db'" by (rule ok [OF graph_ok_sync_links [OF assms(1) sync]])
    ultimately show ?thesis
      using sync_links_replay [OF sync assms(3)] Inr
      by (simp add: outbox_extends_def index_agrees_def projected_def same)
  qed
qed

definition queued :: graph_db where
  "queued = committed\<lparr>graph_path_refresh_jobs :=
     [\<lparr>j_job_id = 1, j_root = sample_key 2, j_enqueued_generation = 1, j_state = Pending, j_cursor = None\<rparr>]\<rparr>"

lemma queued_ok: "graph_ok queued" "outbox_contiguous queued"
proof -
  have "find_object committed (sample_key 2) \<noteq> None" by code_simp
  then show "graph_ok queued"
    unfolding queued_def by (intro graph_ok_with_path_jobs committed_ok) simp_all
  show "outbox_contiguous queued"
    using committed_ok(2) outbox_contiguous_cong [of queued committed] by (simp add: queued_def)
qed

definition refresh_result :: "ProjectionRefreshSummary graph_result" where
  "refresh_result = snd (refresh_projection_paths batch_env queued 1)"

lemma refresh_result_Inr: "\<exists>s. refresh_result = Inr s"
proof -
  have "\<not> isl refresh_result" by code_simp
  then show ?thesis by (rule not_isl_Inr)
qed

theorem refresh_outbox_refines_witness:
  "graph_ok (fst (refresh_projection_paths batch_env queued 1))
   \<and> outbox_contiguous (fst (refresh_projection_paths batch_env queued 1))"
  using refresh_outbox_refines [OF queued_ok, of batch_env 1
      "fst (refresh_projection_paths batch_env queued 1)" "snd (refresh_projection_paths batch_env queued 1)"]
    json_round_trip_sample by (simp add: batch_env_def)

theorem refresh_projection_paths_progress_witness:
  "\<exists>s. refresh_result = Inr s \<and> rs_links_scanned s \<le> 1"
proof -
  obtain s where s: "refresh_result = Inr s" using refresh_result_Inr by blast
  have job: "current_path_job queued = Some \<lparr>j_job_id = 1, j_root = sample_key 2, j_enqueued_generation = 1,
      j_state = Pending, j_cursor = None\<rparr>"
    by (simp add: current_path_job_def queued_def tbl_scan_def)
  have run: "refresh_projection_paths batch_env queued 1 = (fst (refresh_projection_paths batch_env queued 1), Inr s)"
    using s by (simp add: refresh_result_def prod_eq_iff)
  have "rs_links_scanned s \<le> 1"
    by (rule refresh_projection_paths_progress [OF queued_ok(1) _ job _ run, THEN conjunct1])
       (simp_all add: refreshed_upto_start)
  with s show ?thesis by blast
qed

end
