(* ===== verification/Catalog_Index.thy ===== *)
theory Catalog_Index
  imports Graph_Outbox Unicode "HOL-Library.Multiset" "HOL-Library.Sublist"
begin

text \<open>
  The materialised catalog (\<open>crates/catalog-index/src/index.rs\<close>): the searchable form of a document,
  the writer that applies index mutations, the reader's queries and the order-independent
  convergence fingerprint.

  Tantivy is outside the repository: it is the record \<open>tantivy\<close> of the operations the crate calls, on
  a committed index \<open>'i\<close> and an open writer \<open>'w\<close>. The observers \<open>tv_documents\<close> and \<open>tv_pending\<close> say
  which documents a reader sees and which a commit would publish; \<open>tantivy_laws\<close> states the
  documented effect of each operation on them. Unicode tables, JSON and the hasher are the record
  \<open>catalog_env\<close>.

  Shown: a committed writer represents exactly the map of documents its mutations describe, so that
  looking a document up gives the last one written; trigram queries match exactly the substrings of
  three characters or more; and the fingerprint does not depend on the order of documents.
\<close>

section \<open>Code outside the repository\<close>

record catalog_env =
  ce_nfkc :: "uchar list \<Rightarrow> uchar list"
  ce_char_to_lowercase :: "uchar \<Rightarrow> uchar list"
  ce_is_alphanumeric :: "uchar \<Rightarrow> bool"
  ce_text_tokenizer :: "uchar list \<Rightarrow> uchar list list"
  ce_document_to_json :: "CatalogDocument \<Rightarrow> string option"
  ce_document_from_json :: "string \<Rightarrow> CatalogDocument option"
  ce_hash :: "string \<Rightarrow> u64"

datatype catalog_field = FDocumentId | FExactName | FNameTokens | FNamePrefixes | FNameTrigrams | FPathTokens

datatype catalog_query = TermQuery catalog_field string | PhraseQuery catalog_field "string list" | AllQuery

record TantivyDocument =
  td_document_id :: string
  td_document_version :: u64
  td_payload :: string
  td_exact_name :: string
  td_name_tokens :: string
  td_name_prefixes :: string
  td_name_trigrams :: string
  td_path_tokens :: string

record ('i, 'w) tantivy =
  tv_create :: "'i option"
  tv_writer :: "'i \<Rightarrow> nat \<Rightarrow> 'w option"
  tv_delete_term :: "'w \<Rightarrow> string \<Rightarrow> 'w"
  tv_add_document :: "'w \<Rightarrow> TantivyDocument \<Rightarrow> 'w option"
  tv_commit :: "'w \<Rightarrow> 'i option"
  tv_wait_merging_threads :: "'w \<Rightarrow> bool"
  tv_search :: "'i \<Rightarrow> catalog_query \<Rightarrow> nat \<Rightarrow> TantivyDocument list option"
  tv_documents :: "'i \<Rightarrow> TantivyDocument list"
  tv_pending :: "'w \<Rightarrow> TantivyDocument list"

definition tantivy_laws :: "('i, 'w) tantivy \<Rightarrow> bool" where
  "tantivy_laws tv \<longleftrightarrow>
     (\<forall>i. tv_create tv = Some i \<longrightarrow> tv_documents tv i = [])
   \<and> (\<forall>i h w. tv_writer tv i h = Some w \<longrightarrow> mset (tv_pending tv w) = mset (tv_documents tv i))
   \<and> (\<forall>w t. mset (tv_pending tv (tv_delete_term tv w t)) = mset (filter (\<lambda>d. td_document_id d \<noteq> t) (tv_pending tv w)))
   \<and> (\<forall>w d w'. tv_add_document tv w d = Some w' \<longrightarrow> mset (tv_pending tv w') = add_mset d (mset (tv_pending tv w)))
   \<and> (\<forall>w i. tv_commit tv w = Some i \<longrightarrow> mset (tv_documents tv i) = mset (tv_pending tv w))
   \<and> (\<forall>i t n ds. tv_search tv i (TermQuery FDocumentId t) n = Some ds \<and> 0 < n \<longrightarrow>
        set ds \<subseteq> {d \<in> set (tv_documents tv i). td_document_id d = t}
        \<and> (ds = [] \<longrightarrow> (\<forall>d \<in> set (tv_documents tv i). td_document_id d \<noteq> t)))"

section \<open>Errors and names\<close>

definition CATALOG_SCHEMA_ID :: string where "CATALOG_SCHEMA_ID = ''TANTIVY-SCHEMA-v1''"

datatype CatalogIndexError =
    Tantivy
  | CatalogIo
  | CatalogSerialization
  | SchemaMismatch string
  | MissingField string
  | Poison string
  | InvalidDocumentId IdParseError
  | ShortSubstring

datatype CatalogQueryMode = QueryExact | QueryToken | QueryPrefix | QuerySubstring | QueryPath

definition document_id_spec :: id_spec where
  "document_id_spec = \<lparr>id_kind = ''document ID'', id_prefix = ''document:''\<rparr>"

section \<open>The searchable form of a document\<close>

definition normalize :: "catalog_env \<Rightarrow> string \<Rightarrow> uchar list" where
  "normalize env value = concat (map (ce_char_to_lowercase env) (ce_nfkc env (chars value)))"

fun split_on :: "('a \<Rightarrow> bool) \<Rightarrow> 'a list \<Rightarrow> 'a list list" where
  "split_on p [] = [[]]"
| "split_on p (c # cs) = (if p c then [] # split_on p cs
     else (case split_on p cs of t # ts \<Rightarrow> (c # t) # ts | [] \<Rightarrow> [[c]]))"

definition tokens :: "catalog_env \<Rightarrow> uchar list \<Rightarrow> uchar list list" where
  "tokens env value = filter (\<lambda>t. t \<noteq> []) (split_on (\<lambda>c. \<not> ce_is_alphanumeric env c) value)"

definition prefixes :: "uchar list \<Rightarrow> nat \<Rightarrow> uchar list list" where
  "prefixes value maximum_length = map (\<lambda>n. take n value) [1..<Suc (min (length value) maximum_length)]"

definition grams :: "uchar list \<Rightarrow> nat \<Rightarrow> uchar list list" where
  "grams value width = map (\<lambda>i. take width (drop i value)) [0..<Suc (length value) - width]"

definition join_space :: "uchar list list \<Rightarrow> uchar list" where
  "join_space ts = (if ts = [] then [] else hd ts @ concat (map (\<lambda>t. 32 # t) (tl ts)))"

definition index_document :: "catalog_env \<Rightarrow> CatalogDocument \<Rightarrow> CatalogIndexError + TantivyDocument" where
  "index_document env document =
     (let normalized_name = normalize env (doc_name document);
          normalized_path = normalize env (doc_resolved_path document);
          ts = tokens env normalized_name
      in and_then (ok_or (ce_document_to_json env document) CatalogSerialization) (\<lambda>payload.
         Inr \<lparr>td_document_id = display_id document_id_spec (ci_document_id (doc_identity document)),
              td_document_version = version_value (doc_document_version document),
              td_payload = payload,
              td_exact_name = string_of normalized_name,
              td_name_tokens = string_of (join_space ts),
              td_name_prefixes = string_of (join_space (concat (map (\<lambda>t. prefixes t 32) ts))),
              td_name_trigrams = string_of (join_space (grams normalized_name 3)),
              td_path_tokens = string_of normalized_path\<rparr>))"

definition document_id_from_link :: "CatalogDocument \<Rightarrow> DocumentId" where
  "document_id_from_link document = from_bytes (into_bytes (ci_file_link_id (doc_identity document)))"

section \<open>The writer\<close>

definition writer_delete :: "('i, 'w) tantivy \<Rightarrow> 'w \<Rightarrow> DocumentId \<Rightarrow> 'w" where
  "writer_delete tv w document_id = tv_delete_term tv w (display_id document_id_spec document_id)"

definition writer_add :: "('i, 'w) tantivy \<Rightarrow> catalog_env \<Rightarrow> 'w \<Rightarrow> CatalogDocument \<Rightarrow> CatalogIndexError + 'w" where
  "writer_add tv env w document =
     and_then (index_document env document) (\<lambda>d. ok_or (tv_add_document tv w d) Tantivy)"

fun writer_apply :: "('i, 'w) tantivy \<Rightarrow> catalog_env \<Rightarrow> 'w \<Rightarrow> IndexMutation \<Rightarrow> CatalogIndexError + 'w" where
  "writer_apply tv env w (Upsert document) =
     (if ci_document_id (doc_identity document) \<noteq> document_id_from_link document
      then Inl (Poison ''document ID must be derived from the file-link ID'')
      else writer_add tv env (writer_delete tv w (ci_document_id (doc_identity document))) document)"
| "writer_apply tv env w (Delete document_id _) = Inr (writer_delete tv w document_id)"

definition add_current :: "('i, 'w) tantivy \<Rightarrow> catalog_env \<Rightarrow> 'w \<Rightarrow> CatalogDocument \<Rightarrow> CatalogIndexError + 'w" where
  "add_current tv env w document =
     (if ci_document_id (doc_identity document) \<noteq> document_id_from_link document
      then Inl (Poison ''document ID must be derived from the file-link ID'')
      else writer_add tv env w document)"

section \<open>The reader\<close>

definition stored_payload :: "catalog_env \<Rightarrow> TantivyDocument \<Rightarrow> CatalogIndexError + CatalogDocument" where
  "stored_payload env d = ok_or (ce_document_from_json env (td_payload d)) CatalogSerialization"

definition lookup_document ::
    "('i, 'w) tantivy \<Rightarrow> catalog_env \<Rightarrow> 'i \<Rightarrow> DocumentId \<Rightarrow> CatalogIndexError + CatalogDocument option" where
  "lookup_document tv env i document_id =
     and_then (ok_or (tv_search tv i (TermQuery FDocumentId (display_id document_id_spec document_id)) 1) Tantivy)
       (\<lambda>found. case found of
          [] \<Rightarrow> Inr None
        | d # _ \<Rightarrow> and_then (stored_payload env d) (\<lambda>document. Inr (Some document)))"

definition candidate_query :: "catalog_env \<Rightarrow> string \<Rightarrow> CatalogQueryMode \<Rightarrow> CatalogIndexError + catalog_query" where
  "candidate_query env query mode =
     (let normalized = normalize env query
      in case mode of
           QueryExact \<Rightarrow> Inr (TermQuery FExactName (string_of normalized))
         | QueryToken \<Rightarrow> Inr (TermQuery FNameTokens (string_of normalized))
         | QueryPrefix \<Rightarrow> Inr (TermQuery FNamePrefixes (string_of normalized))
         | QuerySubstring \<Rightarrow>
             (let terms = map string_of (grams normalized 3)
              in if terms = [] then Inl ShortSubstring
                 else if length terms = 1 then Inr (TermQuery FNameTrigrams (hd terms))
                 else Inr (PhraseQuery FNameTrigrams terms))
         | QueryPath \<Rightarrow> Inr (TermQuery FPathTokens (string_of normalized)))"

definition candidate_addresses ::
    "('i, 'w) tantivy \<Rightarrow> catalog_env \<Rightarrow> 'i \<Rightarrow> string \<Rightarrow> CatalogQueryMode \<Rightarrow> nat \<Rightarrow> CatalogIndexError + TantivyDocument list" where
  "candidate_addresses tv env i query mode limit =
     and_then (candidate_query env query mode) (\<lambda>q. ok_or (tv_search tv i q limit) Tantivy)"

definition search_candidates ::
    "('i, 'w) tantivy \<Rightarrow> catalog_env \<Rightarrow> 'i \<Rightarrow> string \<Rightarrow> CatalogQueryMode \<Rightarrow> nat \<Rightarrow> CatalogIndexError + DocumentId list" where
  "search_candidates tv env i query mode limit =
     and_then (candidate_addresses tv env i query mode limit) (\<lambda>found.
     fold_r (\<lambda>ids d. case id_from_str document_id_spec (td_document_id d) of
         Inl e \<Rightarrow> Inl (InvalidDocumentId e) | Inr k \<Rightarrow> Inr (ids @ [k])) [] found)"

definition search_candidate_documents ::
    "('i, 'w) tantivy \<Rightarrow> catalog_env \<Rightarrow> 'i \<Rightarrow> string \<Rightarrow> CatalogQueryMode \<Rightarrow> nat \<Rightarrow> CatalogIndexError + CatalogDocument list" where
  "search_candidate_documents tv env i query mode limit =
     and_then (candidate_addresses tv env i query mode limit) (\<lambda>found.
     fold_r (\<lambda>ds d. and_then (stored_payload env d) (\<lambda>document. Inr (ds @ [document]))) [] found)"

section \<open>The convergence fingerprint\<close>

record CatalogFingerprint =
  cf_documents :: u64
  cf_unique_documents :: u64
  cf_payload_hash_xor :: u64
  cf_payload_hash_sum :: u64

definition default_fingerprint :: CatalogFingerprint where
  "default_fingerprint = \<lparr>cf_documents = 0, cf_unique_documents = 0, cf_payload_hash_xor = 0, cf_payload_hash_sum = 0\<rparr>"

definition document_hash :: "catalog_env \<Rightarrow> CatalogDocument \<Rightarrow> CatalogIndexError + u64" where
  "document_hash env document = 
     and_then (ok_or (ce_document_to_json env document) CatalogSerialization) (\<lambda>payload. Inr (ce_hash env payload))"

definition add_desired ::
    "catalog_env \<Rightarrow> CatalogFingerprint \<Rightarrow> CatalogDocument \<Rightarrow> CatalogIndexError + CatalogFingerprint" where
  "add_desired env f document =
     and_then (document_hash env document) (\<lambda>hash.
     Inr \<lparr>cf_documents = saturating_add (cf_documents f) 1,
          cf_unique_documents = saturating_add (cf_unique_documents f) 1,
          cf_payload_hash_xor = cf_payload_hash_xor f XOR hash,
          cf_payload_hash_sum = cf_payload_hash_sum f + hash\<rparr>)"

definition duplicate_documents :: "CatalogFingerprint \<Rightarrow> u64" where
  "duplicate_documents f = saturating_sub (cf_documents f) (cf_unique_documents f)"

definition fingerprint_step ::
    "catalog_env \<Rightarrow> CatalogFingerprint \<times> DocumentId set \<Rightarrow> TantivyDocument \<Rightarrow>
     CatalogIndexError + CatalogFingerprint \<times> DocumentId set" where
  "fingerprint_step env state d =
     (case state of (f, identities) \<Rightarrow>
        and_then (stored_payload env d) (\<lambda>document.
        and_then (document_hash env document) (\<lambda>hash.
        let k = ci_document_id (doc_identity document)
        in Inr (\<lparr>cf_documents = saturating_add (cf_documents f) 1,
                 cf_unique_documents = (if k \<in> identities then cf_unique_documents f
                                        else saturating_add (cf_unique_documents f) 1),
                 cf_payload_hash_xor = cf_payload_hash_xor f XOR hash,
                 cf_payload_hash_sum = cf_payload_hash_sum f + hash\<rparr>, insert k identities))))"

definition fingerprint :: "('i, 'w) tantivy \<Rightarrow> catalog_env \<Rightarrow> 'i \<Rightarrow> CatalogIndexError + CatalogFingerprint" where
  "fingerprint tv env i =
     and_then (fold_r (fingerprint_step env) (default_fingerprint, {}) (tv_documents tv i)) (\<lambda>(f, _). Inr f)"

section \<open>What an index represents\<close>

abbreviation docid :: "CatalogDocument \<Rightarrow> DocumentId" where
  "docid d \<equiv> ci_document_id (doc_identity d)"

definition document_map :: "CatalogDocument list \<Rightarrow> index_state" where
  "document_map ds = map_of (map (\<lambda>d. (docid d, d)) ds)"

text \<open>The live documents are the searchable forms of the documents of a map, each once.\<close>

definition represents :: "catalog_env \<Rightarrow> TantivyDocument list \<Rightarrow> index_state \<Rightarrow> bool" where
  "represents env tds idx \<longleftrightarrow>
     (\<exists>ds. distinct (map docid ds) \<and> document_map ds = idx
        \<and> list_all2 (\<lambda>td d. index_document env d = Inr td) tds ds)"

definition document_json_round_trip :: "catalog_env \<Rightarrow> bool" where
  "document_json_round_trip env \<longleftrightarrow>
     (\<forall>d s. ce_document_to_json env d = Some s \<longrightarrow> ce_document_from_json env s = Some d)"

lemma hex_byte_inj: "hex_byte a = hex_byte b \<longleftrightarrow> a = b"
proof
  assume eq: "hex_byte a = hex_byte b"
  have n: "unat x div 16 < 16" "unat x mod 16 < 16" for x :: u8 using unat_u8_less [of x] by auto
  have digit: "m = k" if "hex_digit m = hex_digit k" "m < 16" "k < 16" for m k
  proof -
    have "(of_nat m :: u8) = of_nat k" using that hex_nibble_hex_digit by (metis option.inject)
    then have "unat (of_nat m :: u8) = unat (of_nat k :: u8)" by simp
    then show ?thesis using that(2,3) by (simp add: unat_of_nat_u8)
  qed
  have "unat a div 16 = unat b div 16" "unat a mod 16 = unat b mod 16"
    using eq n digit by (simp_all add: hex_byte_def)
  then have "unat a = unat b" by (metis div_mult_mod_eq)
  then show "a = b" by (rule unsigned_word_eqI)
qed simp

lemma hex_bytes_inj: "concat (map hex_byte xs) = concat (map hex_byte ys) \<longleftrightarrow> xs = ys"
proof (induction xs arbitrary: ys)
  case Nil
  then show ?case by (cases ys) (simp_all add: hex_byte_def)
next
  case (Cons x xs)
  show ?case
  proof (cases ys)
    case Nil
    then show ?thesis by (simp add: hex_byte_def)
  next
    case [simp]: (Cons y zs)
    have len: "length (hex_byte x) = length (hex_byte y)" by (simp add: hex_byte_def)
    show ?thesis using Cons.IH [of zs] hex_byte_inj [of x y] append_eq_append_conv [OF disjI1 [OF len]] by auto
  qed
qed

lemma display_id_inj [simp]: "display_id spec i = display_id spec j \<longleftrightarrow> i = j"
  by (cases i; cases j) (simp add: display_id_def hex_bytes_inj)

lemma index_document_id: "index_document env d = Inr td \<Longrightarrow> td_document_id td = display_id document_id_spec (docid d)"
  by (auto simp: index_document_def result_simps Let_def)

lemma index_document_payload: "index_document env d = Inr td \<Longrightarrow> ce_document_to_json env d = Some (td_payload td)"
  by (auto simp: index_document_def result_simps Let_def)

lemma document_map_filter: "document_map (filter (\<lambda>d. docid d \<noteq> k) ds) = (document_map ds)(k := None)"
  by (induction ds) (auto simp: document_map_def)

lemma document_map_None: "document_map ds k = None \<longleftrightarrow> k \<notin> docid ` set ds"
  by (simp add: document_map_def map_of_eq_None_iff image_image)

lemma document_map_Some: "distinct (map docid ds) \<Longrightarrow> document_map ds k = Some d \<longleftrightarrow> d \<in> set ds \<and> docid d = k"
  by (auto simp: document_map_def map_of_eq_Some_iff comp_def)

lemma represents_mset:
  assumes "represents env tds idx" and "mset tds' = mset tds"
  shows "represents env tds' idx"
proof -
  from assms(1) obtain ds where ds: "distinct (map docid ds)" "document_map ds = idx"
      "list_all2 (\<lambda>td d. index_document env d = Inr td) tds ds" unfolding represents_def by blast
  from list_all2_reorder_left_invariance [OF ds(3) assms(2)] obtain ds' where
    ds': "list_all2 (\<lambda>td d. index_document env d = Inr td) tds' ds'" "mset ds' = mset ds" by blast
  have "mset (map docid ds') = mset (map docid ds)" using ds'(2) by simp
  then have "distinct (map docid ds')" using ds(1) by (metis mset_eq_imp_distinct_iff)
  moreover have "document_map ds' = document_map ds"
  proof (rule ext)
    fix k
    show "document_map ds' k = document_map ds k"
      using document_map_None [of ds k] document_map_None [of ds' k] document_map_Some [OF ds(1), of k]
        document_map_Some [OF \<open>distinct (map docid ds')\<close>, of k] mset_eq_setD [OF ds'(2)]
      by (cases "document_map ds k") auto
  qed
  ultimately show ?thesis using ds(2) ds'(1) unfolding represents_def by blast
qed

lemma represents_empty: "represents env [] (\<lambda>_. None)"
  unfolding represents_def by (intro exI [of _ "[]"]) (simp add: document_map_def fun_eq_iff)

lemma represents_delete:
  assumes "represents env tds idx"
  shows "represents env (filter (\<lambda>td. td_document_id td \<noteq> display_id document_id_spec k) tds) (idx(k := None))"
proof -
  from assms obtain ds where ds: "distinct (map docid ds)" "document_map ds = idx"
      "list_all2 (\<lambda>td d. index_document env d = Inr td) tds ds" unfolding represents_def by blast
  have "list_all2 (\<lambda>td d. index_document env d = Inr td)
      (filter (\<lambda>td. td_document_id td \<noteq> display_id document_id_spec k) tds) (filter (\<lambda>d. docid d \<noteq> k) ds)"
    using ds(3) by (induction rule: list_all2_induct) (auto dest: index_document_id)
  then show ?thesis
    unfolding represents_def using ds(1,2) document_map_filter distinct_map_filter by metis
qed

lemma represents_add:
  assumes "represents env tds idx" and "idx (docid d) = None" and "index_document env d = Inr td"
  shows "represents env (td # tds) (idx(docid d \<mapsto> d))"
proof -
  from assms(1) obtain ds where ds: "distinct (map docid ds)" "document_map ds = idx"
      "list_all2 (\<lambda>td d. index_document env d = Inr td) tds ds" unfolding represents_def by blast
  have "document_map (d # ds) = idx(docid d \<mapsto> d)" using ds(2) by (simp add: document_map_def fun_upd_def)
  moreover have "distinct (map docid (d # ds))"
    using ds(1,2) assms(2) document_map_None [of ds "docid d"] by simp
  ultimately show ?thesis unfolding represents_def using ds(3) assms(3) by (intro exI [of _ "d # ds"]) simp
qed

section \<open>The writer keeps the representation\<close>

lemma writer_add_represents:
  assumes "tantivy_laws tv" and "represents env (tv_pending tv w) idx" and "idx (docid d) = None"
    and "writer_add tv env w d = Inr w'"
  shows "represents env (tv_pending tv w') (idx(docid d \<mapsto> d))"
proof -
  obtain td where td: "index_document env d = Inr td" "tv_add_document tv w td = Some w'"
    using assms(4) by (auto simp: writer_add_def result_simps)
  have "mset (tv_pending tv w') = mset (td # tv_pending tv w)"
    using assms(1) td(2) by (simp add: tantivy_laws_def)
  then show ?thesis using represents_mset [OF represents_add [OF assms(2,3) td(1)]] by simp
qed

lemma writer_delete_represents:
  assumes "tantivy_laws tv" and "represents env (tv_pending tv w) idx"
  shows "represents env (tv_pending tv (writer_delete tv w k)) (idx(k := None))"
proof -
  have "mset (tv_pending tv (writer_delete tv w k))
      = mset (filter (\<lambda>td. td_document_id td \<noteq> display_id document_id_spec k) (tv_pending tv w))"
    using assms(1) by (simp add: tantivy_laws_def writer_delete_def)
  then show ?thesis using represents_mset [OF represents_delete [OF assms(2)]] by simp
qed

lemma writer_apply_represents:
  assumes "tantivy_laws tv" and "represents env (tv_pending tv w) idx" and "writer_apply tv env w m = Inr w'"
  shows "represents env (tv_pending tv w') (index_mutation idx m)"
proof (cases m)
  case (Upsert d)
  note del = writer_delete_represents [OF assms(1,2), of "docid d"]
  have "writer_add tv env (writer_delete tv w (docid d)) d = Inr w'"
    using assms(3) Upsert by (simp split: if_splits)
  from writer_add_represents [OF assms(1) del _ this] Upsert show ?thesis by simp
next
  case (Delete k v)
  with assms(3) writer_delete_represents [OF assms(1,2), of k] show ?thesis by simp
qed

lemma writer_applies_represents:
  assumes "tantivy_laws tv" and "fold_r (writer_apply tv env) w ms = Inr w'" and "represents env (tv_pending tv w) idx"
  shows "represents env (tv_pending tv w') (replay idx ms)"
  using assms(2,3)
proof (induction ms arbitrary: w idx)
  case (Cons m ms)
  then obtain w1 where "writer_apply tv env w m = Inr w1" "fold_r (writer_apply tv env) w1 ms = Inr w'"
    by (auto simp: result_simps)
  with Cons.IH writer_apply_represents [OF assms(1) Cons.prems(2)] show ?case by simp
qed simp

lemma tantivy_search:
  assumes "tantivy_laws tv" and "tv_search tv i (TermQuery FDocumentId t) 1 = Some ds"
  shows "set ds \<subseteq> {d \<in> set (tv_documents tv i). td_document_id d = t}
    \<and> (ds = [] \<longrightarrow> (\<forall>d \<in> set (tv_documents tv i). td_document_id d \<noteq> t))"
proof -
  have "\<forall>i t n ds. tv_search tv i (TermQuery FDocumentId t) n = Some ds \<and> 0 < n \<longrightarrow>
        set ds \<subseteq> {d \<in> set (tv_documents tv i). td_document_id d = t}
        \<and> (ds = [] \<longrightarrow> (\<forall>d \<in> set (tv_documents tv i). td_document_id d \<noteq> t))"
    using assms(1) unfolding tantivy_laws_def by (elim conjE)
  then show ?thesis using assms(2) zero_less_one by blast
qed

lemma lookup_represented:
  assumes "tantivy_laws tv" and "document_json_round_trip env" and "represents env (tv_documents tv i) idx"
  shows "lookup_document tv env i k = Inr (idx k) \<or> lookup_document tv env i k = Inl Tantivy"
proof (cases "tv_search tv i (TermQuery FDocumentId (display_id document_id_spec k)) 1")
  case None
  then show ?thesis by (simp add: lookup_document_def)
next
  case (Some found)
  from assms(3) obtain ds where ds: "distinct (map docid ds)" "document_map ds = idx"
      "list_all2 (\<lambda>td d. index_document env d = Inr td) (tv_documents tv i) ds" unfolding represents_def by blast
  have sub: "set found \<subseteq> {td \<in> set (tv_documents tv i). td_document_id td = display_id document_id_spec k}"
    and none: "found = [] \<Longrightarrow> \<forall>td \<in> set (tv_documents tv i). td_document_id td \<noteq> display_id document_id_spec k"
    using tantivy_search [OF assms(1) Some] by simp_all
  show ?thesis
  proof (cases found)
    case Nil
    have "k \<notin> docid ` set ds"
    proof
      assume "k \<in> docid ` set ds"
      then obtain n where n: "n < length ds" "docid (ds ! n) = k" by (auto simp: in_set_conv_nth)
      have "td_document_id (tv_documents tv i ! n) = display_id document_id_spec k"
        using index_document_id [OF list_all2_nthD2 [OF ds(3) n(1)]] n(2) by simp
      then show False using none [OF Nil] n(1) list_all2_lengthD [OF ds(3)] by (metis nth_mem)
    qed
    with Nil Some ds(2) document_map_None [of ds k] show ?thesis by (simp add: lookup_document_def)
  next
    case (Cons td rest)
    with sub have td: "td \<in> set (tv_documents tv i)" "td_document_id td = display_id document_id_spec k" by auto
    then obtain n where n: "n < length (tv_documents tv i)" "tv_documents tv i ! n = td" by (auto simp: in_set_conv_nth)
    then obtain d where d: "d \<in> set ds" "index_document env d = Inr td"
      using list_all2_nthD [OF ds(3) n(1)] list_all2_lengthD [OF ds(3)] by (metis nth_mem)
    then have "docid d = k" using index_document_id td(2) by fastforce
    with d(1) ds(1,2) have "idx k = Some d" using document_map_Some by blast
    moreover have "stored_payload env td = Inr d"
      using index_document_payload [OF d(2)] assms(2) by (simp add: stored_payload_def document_json_round_trip_def)
    ultimately show ?thesis using Cons Some by (simp add: lookup_document_def)
  qed
qed

text \<open>Committing mutations makes the index hold exactly the documents they describe: starting from
  an index that represents a map of documents, the committed index represents the map after
  replaying the mutations, and looking up any document identity gives that map's entry (or reports
  that the search failed).\<close>

theorem catalog_commit_lookup:
  assumes "tantivy_laws tv" and "document_json_round_trip env" and "represents env (tv_documents tv i) idx"
    and "tv_writer tv i heap = Some w" and "fold_r (writer_apply tv env) w ms = Inr w'" and "tv_commit tv w' = Some i'"
  shows "represents env (tv_documents tv i') (replay idx ms)
    \<and> (lookup_document tv env i' k = Inr (replay idx ms k) \<or> lookup_document tv env i' k = Inl Tantivy)"
proof -
  have "mset (tv_pending tv w) = mset (tv_documents tv i)" "mset (tv_documents tv i') = mset (tv_pending tv w')"
    using assms(1,4,6) by (simp_all add: tantivy_laws_def)
  then have "represents env (tv_documents tv i') (replay idx ms)"
    using writer_applies_represents [OF assms(1,5)] represents_mset assms(3) by blast
  then show ?thesis using lookup_represented [OF assms(1,2)] by blast
qed

section \<open>Trigrams\<close>

lemma length_grams: "length (grams t w) = Suc (length t) - w"
  by (simp add: grams_def)

lemma nth_grams: "i < Suc (length t) - w \<Longrightarrow> grams t w ! i = take w (drop i t)"
  by (simp add: grams_def)

lemma grams_infix:
  assumes "w \<le> length q"
  shows "grams (ps @ q @ ss) w = take (length ps) (grams (ps @ q @ ss) w) @ grams q w
    @ drop (length ps + (Suc (length q) - w)) (grams (ps @ q @ ss) w)"
proof (rule nth_equalityI)
  let ?t = "ps @ q @ ss"
  let ?n = "length ps" and ?m = "Suc (length q) - w" and ?l = "Suc (length ?t) - w"
  have l: "?n + ?m \<le> ?l" using assms by simp
  show "length (grams ?t w) = length (take ?n (grams ?t w) @ grams q w @ drop (?n + ?m) (grams ?t w))"
    using l by (simp add: length_grams)
  fix i assume "i < length (grams ?t w)"
  then have i: "i < ?l" by (simp add: length_grams)
  have pre: "length (take ?n (grams ?t w)) = ?n" using l by (simp add: length_grams)
  consider "i < ?n" | "?n \<le> i" "i - ?n < ?m" | "?n \<le> i" "?m \<le> i - ?n" by linarith
  then show "grams ?t w ! i = (take ?n (grams ?t w) @ grams q w @ drop (?n + ?m) (grams ?t w)) ! i"
  proof cases
    case 1
    then show ?thesis by (simp add: nth_append pre del: length_take)
  next
    case 2
    have "take w (drop i ?t) = take w (drop (i - ?n) q)"
      using 2 assms by (simp add: drop_append take_append)
    moreover have "(take ?n (grams ?t w) @ grams q w @ drop (?n + ?m) (grams ?t w)) ! i = grams q w ! (i - ?n)"
      using 2 by (simp add: nth_append pre length_grams del: length_take)
    ultimately show ?thesis using nth_grams [OF i] nth_grams [OF 2(2)] by simp
  next
    case 3
    have "(take ?n (grams ?t w) @ grams q w @ drop (?n + ?m) (grams ?t w)) ! i
        = drop (?n + ?m) (grams ?t w) ! (i - ?n - ?m)"
      using 3 by (simp add: nth_append pre length_grams del: length_take)
    also have "\<dots> = grams ?t w ! (?n + ?m + (i - ?n - ?m))"
      by (rule nth_drop) (use l in \<open>simp add: length_grams\<close>)
    finally show ?thesis using 3 by simp
  qed
qed

lemma sublist_grams_iff:
  assumes three: "3 \<le> length q"
  shows "sublist (grams q 3) (grams name 3) \<longleftrightarrow> sublist q name"
proof
  assume "sublist q name"
  then obtain ps ss where "name = ps @ q @ ss" by (auto simp: sublist_def)
  then show "sublist (grams q 3) (grams name 3)"
    using grams_infix [OF three, of ps ss] unfolding sublist_def by blast
next
  assume "sublist (grams q 3) (grams name 3)"
  then obtain ps ss where split: "grams name 3 = ps @ grams q 3 @ ss" by (auto simp: sublist_def)
  let ?n = "length ps"
  have len: "?n + length q \<le> length name"
    using arg_cong [OF split, of length] three by (simp add: length_grams)
  have "take (length q) (drop ?n name) = q"
  proof (rule nth_equalityI)
    show "length (take (length q) (drop ?n name)) = length q" using len by simp
    fix j assume j: "j < length (take (length q) (drop ?n name))"
    define i where "i = min j (length q - 3)"
    have i: "i < Suc (length q) - 3" "i \<le> j" "j - i < 3" "j < length q" using three j by (auto simp: i_def)
    have "grams name 3 ! (?n + i) = grams q 3 ! i"
      using split i(1) by (simp add: nth_append length_grams)
    then have "take 3 (drop (?n + i) name) = take 3 (drop i q)"
      using i(1) len by (simp add: nth_grams)
    then have "take 3 (drop (?n + i) name) ! (j - i) = take 3 (drop i q) ! (j - i)" by simp
    then show "take (length q) (drop ?n name) ! j = q ! j" using i len by simp
  qed
  then have "name = take ?n name @ q @ drop (?n + length q) name"
    by (metis append_take_drop_id drop_drop add.commute)
  then show "sublist q name" unfolding sublist_def by blast
qed

text \<open>
  The schema declares the trigram field as \<open>TEXT\<close>, so Tantivy's default tokenizer turns the joined
  trigrams into terms and their positions. The laws are the documented ones: the tokenizer splits
  at white space and punctuation, and short lower-case words separated by spaces come out as they
  are. A term query asks for the presence of a term, a phrase query for consecutive terms.
\<close>

definition plain_char :: "catalog_env \<Rightarrow> uchar \<Rightarrow> bool" where
  "plain_char env c \<longleftrightarrow> is_scalar c \<and> ce_is_alphanumeric env c \<and> ce_char_to_lowercase env c = [c]"

definition text_tokenizer_laws :: "catalog_env \<Rightarrow> bool" where
  "text_tokenizer_laws env \<longleftrightarrow>
     (\<forall>s t c. t \<in> set (ce_text_tokenizer env s) \<and> c \<in> set t \<longrightarrow>
        is_scalar c \<and> (c < 128 \<longrightarrow> ce_is_alphanumeric env c))
   \<and> (\<forall>ts. (\<forall>t \<in> set ts. length t = 3 \<and> (\<forall>c \<in> set t. plain_char env c)) \<longrightarrow> ce_text_tokenizer env (join_space ts) = ts)"

definition text_terms :: "catalog_env \<Rightarrow> string \<Rightarrow> string list" where
  "text_terms env s = map string_of (ce_text_tokenizer env (chars s))"

definition trigram_query_matches :: "catalog_env \<Rightarrow> catalog_query \<Rightarrow> TantivyDocument \<Rightarrow> bool" where
  "trigram_query_matches env q td \<longleftrightarrow>
     (case q of
        TermQuery FNameTrigrams g \<Rightarrow> g \<in> set (text_terms env (td_name_trigrams td))
      | PhraseQuery FNameTrigrams gs \<Rightarrow> sublist gs (text_terms env (td_name_trigrams td))
      | _ \<Rightarrow> False)"

lemma string_of_inj: "inj_on string_of {cs. \<forall>c \<in> set cs. is_scalar c}"
  by (rule inj_onI) (metis (no_types, lifting) chars_string_of mem_Collect_eq)

lemma sublist_map_inj:
  assumes "inj_on f A" and "set xs \<subseteq> A" and "set ys \<subseteq> A"
  shows "sublist (map f xs) (map f ys) \<longleftrightarrow> sublist xs ys"
proof
  assume "sublist (map f xs) (map f ys)"
  then obtain ps ss where "map f ys = ps @ map f xs @ ss" by (auto simp: sublist_def)
  then obtain as ds where "ys = as @ ds" and ds: "map f ds = map f xs @ ss"
    using map_eq_append_conv [of f ys ps "map f xs @ ss"] by auto
  moreover obtain bs cs where "ds = bs @ cs" "map f xs = map f bs" using ds map_eq_append_conv [of f ds "map f xs" ss] by auto
  ultimately have s: "ys = as @ bs @ cs" "map f xs = map f bs" by simp_all
  moreover have "inj_on f (set xs \<union> set bs)" using assms s(1) by (auto intro: inj_on_subset)
  ultimately have "xs = bs" by (simp add: inj_on_map_eq_map)
  then show "sublist xs ys" using s(1) unfolding sublist_def by blast
qed (rule map_mono_sublist)

lemma set_grams: "g \<in> set (grams v w) \<Longrightarrow> set g \<subseteq> set v \<and> (w \<le> length v \<longrightarrow> length g = w)"
  by (auto simp: grams_def dest!: in_set_takeD in_set_dropD)

lemma substring_query:
  assumes "q = normalize env query" and "3 \<le> length q"
  shows "candidate_query env query QuerySubstring =
           Inr (if length (grams q 3) = 1 then TermQuery FNameTrigrams (string_of (hd (grams q 3)))
                else PhraseQuery FNameTrigrams (map string_of (grams q 3)))"
    and "trigram_query_matches env (projr (candidate_query env query QuerySubstring)) td
         \<longleftrightarrow> sublist (map string_of (grams q 3)) (text_terms env (td_name_trigrams td))"
proof -
  obtain g gs where g: "grams q 3 = g # gs"
    using length_grams [of q 3] assms(2) by (cases "grams q 3") auto
  show c: "candidate_query env query QuerySubstring =
           Inr (if length (grams q 3) = 1 then TermQuery FNameTrigrams (string_of (hd (grams q 3)))
                else PhraseQuery FNameTrigrams (map string_of (grams q 3)))"
    using assms(1) [symmetric] g by (cases gs) (simp_all add: candidate_query_def Let_def)
  have one: "x \<in> set xs \<longleftrightarrow> sublist [x] xs" for x and xs :: "string list"
    by (simp add: sublist_def in_set_conv_decomp)
  show "trigram_query_matches env (projr (candidate_query env query QuerySubstring)) td
         \<longleftrightarrow> sublist (map string_of (grams q 3)) (text_terms env (td_name_trigrams td))"
    unfolding c using g one by (cases gs) (simp_all add: trigram_query_matches_def)
qed

lemma trigram_terms:
  assumes "text_tokenizer_laws env" and "index_document env d = Inr td"
    and "\<forall>c \<in> set (normalize env (doc_name d)). plain_char env c"
  shows "text_terms env (td_name_trigrams td) = map string_of (grams (normalize env (doc_name d)) 3)"
proof -
  let ?gs = "grams (normalize env (doc_name d)) 3"
  have td: "td_name_trigrams td = string_of (join_space ?gs)"
    using assms(2) by (auto simp: index_document_def result_simps Let_def)
  have gs: "length g = 3 \<and> (\<forall>c \<in> set g. plain_char env c)" if "g \<in> set ?gs" for g
  proof (cases "3 \<le> length (normalize env (doc_name d))")
    case True
    then show ?thesis using set_grams [OF that] assms(3) by blast
  next
    case False
    then have "?gs = []" by (simp add: grams_def)
    with that show ?thesis by simp
  qed
  have "set (join_space ?gs) \<subseteq> insert 32 (\<Union> (set ` set ?gs))"
    by (cases ?gs) (auto simp: join_space_def)
  moreover have "is_scalar 32" by (simp add: is_scalar_def is_surrogate_def)
  ultimately have "\<forall>c \<in> set (join_space ?gs). is_scalar c" using gs by (auto simp: plain_char_def)
  then have "chars (td_name_trigrams td) = join_space ?gs" unfolding td by (rule chars_string_of)
  moreover have "ce_text_tokenizer env (join_space ?gs) = ?gs"
    using assms(1) gs unfolding text_tokenizer_laws_def by blast
  ultimately show ?thesis by (simp add: text_terms_def)
qed

text \<open>Substring search is exact on names of plain characters. When the normalised name consists of
  lower-case letters and digits, the query built for a substring of three characters or more
  matches the indexed document exactly when the normalised query occurs in the normalised name.\<close>

theorem substring_search_exact:
  assumes "text_tokenizer_laws env" and "index_document env d = Inr td"
    and "\<forall>c \<in> set (normalize env (doc_name d)). plain_char env c"
    and "\<forall>c \<in> set (normalize env query). is_scalar c" and "3 \<le> length (normalize env query)"
  shows "\<exists>q. candidate_query env query QuerySubstring = Inr q
    \<and> (trigram_query_matches env q td \<longleftrightarrow> sublist (normalize env query) (normalize env (doc_name d)))"
proof -
  let ?q = "normalize env query" and ?n = "normalize env (doc_name d)"
  have "set (grams ?q 3) \<subseteq> {cs. \<forall>c \<in> set cs. is_scalar c}" "set (grams ?n 3) \<subseteq> {cs. \<forall>c \<in> set cs. is_scalar c}"
    using assms(3,4) set_grams by (fastforce simp: plain_char_def)+
  from sublist_map_inj [OF string_of_inj this] have
    "sublist (map string_of (grams ?q 3)) (text_terms env (td_name_trigrams td)) \<longleftrightarrow> sublist ?q ?n"
    unfolding trigram_terms [OF assms(1,2,3)] using sublist_grams_iff [OF assms(5)] by simp
  then show ?thesis using substring_query(1) [OF refl assms(5)] substring_query(2) [OF refl assms(5), of td] by auto
qed


section \<open>Fingerprints do not depend on order\<close>

lemma fold_r_swap_front:
  assumes "\<And>s x y. and_then (f s x) (\<lambda>t. f t y) = and_then (f s y) (\<lambda>t. f t x)"
  shows "fold_r f s (xs @ x # ys) = fold_r f s (x # xs @ ys)"
proof (induction xs arbitrary: s)
  case (Cons a xs)
  have "fold_r f s ((a # xs) @ x # ys) = and_then (f s a) (\<lambda>t. fold_r f t (x # xs @ ys))"
    by (simp only: append_Cons fold_r.simps Cons.IH)
  also have "\<dots> = and_then (and_then (f s a) (\<lambda>t. f t x)) (\<lambda>t. fold_r f t (xs @ ys))"
    by (cases "f s a") simp_all
  also have "\<dots> = and_then (and_then (f s x) (\<lambda>t. f t a)) (\<lambda>t. fold_r f t (xs @ ys))"
    by (simp only: assms)
  also have "\<dots> = fold_r f s (x # (a # xs) @ ys)" by (cases "f s x") simp_all
  finally show ?case .
qed simp

lemma fold_r_mset:
  assumes "\<And>s x y. and_then (f s x) (\<lambda>t. f t y) = and_then (f s y) (\<lambda>t. f t x)" and "mset xs = mset ys"
  shows "fold_r f s xs = fold_r f s ys"
  using assms(2)
proof (induction xs arbitrary: s ys)
  case (Cons x xs)
  then have "x \<in> set ys" by (metis list.set_intros(1) set_mset_mset)
  then obtain as bs where ys: "ys = as @ x # bs" by (meson split_list)
  with Cons.prems have "mset xs = mset (as @ bs)" by simp
  then have "fold_r f t xs = fold_r f t (as @ bs)" for t by (rule Cons.IH)
  then show ?case unfolding ys fold_r_swap_front [OF assms(1)] by simp
qed simp

lemma add_desired_commute:
  "and_then (add_desired env f x) (\<lambda>t. add_desired env t y) = and_then (add_desired env f y) (\<lambda>t. add_desired env t x)"
proof -
  have err: "document_hash env d = Inl e \<Longrightarrow> e = CatalogSerialization" for d e
    by (cases "ce_document_to_json env d") (auto simp: document_hash_def)
  show ?thesis
    using err [of x] err [of y]
    by (cases "document_hash env x"; cases "document_hash env y")
       (simp_all add: add_desired_def ac_simps xor.left_commute)
qed

lemma fingerprint_steps:
  assumes "document_json_round_trip env" and "list_all2 (\<lambda>td d. index_document env d = Inr td) tds ds"
    and "distinct (map docid ds)" and "docid ` set ds \<inter> seen = {}"
  shows "and_then (fold_r (fingerprint_step env) (f, seen) tds) (\<lambda>(g, _). Inr g) = fold_r (add_desired env) f ds"
  using assms(2-4)
proof (induction arbitrary: f seen rule: list_all2_induct)
  case (Cons td tds d ds)
  have p: "stored_payload env td = Inr d"
    using index_document_payload [OF Cons.hyps(1)] assms(1) by (simp add: stored_payload_def document_json_round_trip_def)
  have new: "docid d \<notin> seen" "docid ` set ds \<inter> insert (docid d) seen = {}" using Cons.prems by auto
  show ?case
  proof (cases "document_hash env d")
    case (Inl e)
    then have "fingerprint_step env (f, seen) td = Inl e" "add_desired env f d = Inl e"
      by (simp_all add: fingerprint_step_def p add_desired_def)
    then show ?thesis by simp
  next
    case (Inr h)
    let ?f = "\<lparr>cf_documents = saturating_add (cf_documents f) 1,
        cf_unique_documents = saturating_add (cf_unique_documents f) 1,
        cf_payload_hash_xor = cf_payload_hash_xor f XOR h, cf_payload_hash_sum = cf_payload_hash_sum f + h\<rparr>"
    have "and_then (fold_r (fingerprint_step env) (?f, insert (docid d) seen) tds) (\<lambda>(g, _). Inr g) = fold_r (add_desired env) ?f ds"
      using Cons.IH [of "insert (docid d) seen" ?f] Cons.prems(1) new(2) by simp
    moreover have "fingerprint_step env (f, seen) td = Inr (?f, insert (docid d) seen)"
      using Inr new(1) by (simp add: fingerprint_step_def p Let_def)
    moreover have "add_desired env f d = Inr ?f" using Inr by (simp add: add_desired_def)
    ultimately show ?thesis by simp
  qed
qed simp

text \<open>Convergence can be checked by fingerprints. If the index represents a map of documents, its
  fingerprint, read in whatever order the segments hold the documents, is the fingerprint of any
  duplicate-free listing of that map, and the two agree on reporting no duplicates.\<close>

theorem fingerprint_converges:
  assumes "document_json_round_trip env" and "represents env (tv_documents tv i) idx"
    and "distinct (map docid desired)" and "document_map desired = idx"
  shows "fingerprint tv env i = fold_r (add_desired env) default_fingerprint desired"
proof -
  from assms(2) obtain ds where ds: "distinct (map docid ds)" "document_map ds = idx"
      "list_all2 (\<lambda>td d. index_document env d = Inr td) (tv_documents tv i) ds" unfolding represents_def by blast
  have "d \<in> set ds \<longleftrightarrow> d \<in> set desired" for d
    using document_map_Some [OF ds(1), of "docid d" d] document_map_Some [OF assms(3), of "docid d" d] ds(2) assms(4)
    by simp
  then have "set ds = set desired" by blast
  moreover have "distinct ds" "distinct desired" using ds(1) assms(3) by (simp_all add: distinct_map)
  ultimately have "mset ds = mset desired" by (simp add: set_eq_iff_mset_eq_distinct)
  then have "fold_r (add_desired env) default_fingerprint ds = fold_r (add_desired env) default_fingerprint desired"
    by (rule fold_r_mset [OF add_desired_commute])
  then show ?thesis using fingerprint_steps [OF assms(1) ds(3,1), of "{}" default_fingerprint]
    by (simp add: fingerprint_def)
qed

section \<open>A concrete index\<close>

definition list_tantivy :: "(TantivyDocument list, TantivyDocument list) tantivy" where
  "list_tantivy = \<lparr>tv_create = Some [], tv_writer = (\<lambda>i _. Some i),
     tv_delete_term = (\<lambda>w t. filter (\<lambda>d. td_document_id d \<noteq> t) w), tv_add_document = (\<lambda>w d. Some (d # w)),
     tv_commit = Some, tv_wait_merging_threads = (\<lambda>_. True),
     tv_search = (\<lambda>i q n. case q of TermQuery FDocumentId t \<Rightarrow> Some (take n (filter (\<lambda>d. td_document_id d = t) i))
                     | _ \<Rightarrow> Some []),
     tv_documents = id, tv_pending = id\<rparr>"

lemma list_tantivy_laws: "tantivy_laws list_tantivy"
  unfolding tantivy_laws_def
proof (intro conjI allI impI)
  fix i t n ds
  assume "tv_search list_tantivy i (TermQuery FDocumentId t) n = Some ds \<and> 0 < n"
  then have ds: "ds = take n (filter (\<lambda>d. td_document_id d = t) i)" "0 < n" by (simp_all add: list_tantivy_def)
  show "set ds \<subseteq> {d \<in> set (tv_documents list_tantivy i). td_document_id d = t}"
    using ds(1) by (auto simp: list_tantivy_def dest: in_set_takeD)
  show "\<forall>d \<in> set (tv_documents list_tantivy i). td_document_id d \<noteq> t" if "ds = []"
    using ds that by (auto simp: list_tantivy_def filter_empty_conv)
qed (auto simp: list_tantivy_def)

definition sample_catalog_env :: "CatalogDocument list \<Rightarrow> catalog_env" where
  "sample_catalog_env ds =
     \<lparr>ce_nfkc = id, ce_char_to_lowercase = (\<lambda>c. [c]), ce_is_alphanumeric = (\<lambda>c. 47 < c),
      ce_text_tokenizer = (\<lambda>s. filter (\<lambda>t. t \<noteq> []) (split_on (\<lambda>c. c \<le> 47 \<or> \<not> is_scalar c) s)),
      ce_document_to_json = (\<lambda>d. if d \<in> set ds then Some (replicate (length (takeWhile (\<lambda>x. x \<noteq> d) ds)) CHR ''x'') else None),
      ce_document_from_json = (\<lambda>s. if length s < length ds then Some (ds ! length s) else None),
      ce_hash = (\<lambda>s. of_nat (length s))\<rparr>"

lemma sample_catalog_round_trip: "document_json_round_trip (sample_catalog_env ds)"
proof -
  have "length (takeWhile (\<lambda>x. x \<noteq> d) ds) < length ds \<and> ds ! length (takeWhile (\<lambda>x. x \<noteq> d) ds) = d"
    if "d \<in> set ds" for d
    using that by (induction ds) auto
  then show ?thesis by (auto simp: document_json_round_trip_def sample_catalog_env_def split: if_splits)
qed

definition one_document_env :: catalog_env where
  "one_document_env = sample_catalog_env [sample_document]"

definition indexed_once :: "TantivyDocument list" where
  "indexed_once = projr (fold_r (writer_apply list_tantivy one_document_env) [] [Upsert sample_document])"

lemma indexed_once_run:
  "fold_r (writer_apply list_tantivy one_document_env) [] [Upsert sample_document] = Inr indexed_once"
proof -
  have "\<not> isl (fold_r (writer_apply list_tantivy one_document_env) [] [Upsert sample_document])"
    by (simp add: sample_document_def document_id_from_link_def from_bytes_def from_u128_def writer_add_def
        index_document_def Let_def one_document_env_def sample_catalog_env_def list_tantivy_def)
  then show ?thesis unfolding indexed_once_def by (metis sum.collapse(2))
qed

lemma represents_list_empty: "represents one_document_env (tv_documents list_tantivy []) (\<lambda>_. None)"
  using represents_empty by (simp add: list_tantivy_def)

theorem catalog_commit_lookup_witness:
  "represents one_document_env indexed_once [docid sample_document \<mapsto> sample_document]"
proof -
  have "tv_writer list_tantivy [] 0 = Some []" "tv_commit list_tantivy indexed_once = Some indexed_once"
      "tv_documents list_tantivy indexed_once = indexed_once"
    by (simp_all add: list_tantivy_def)
  from catalog_commit_lookup [OF list_tantivy_laws _ represents_list_empty this(1) indexed_once_run this(2)] this(3)
  show ?thesis using sample_catalog_round_trip by (simp add: one_document_env_def)
qed

lemma split_on_word: "\<forall>c \<in> set t. \<not> p c \<Longrightarrow> p s \<Longrightarrow> split_on p (t @ s # rest) = t # split_on p rest"
  by (induction t) auto

lemma split_on_end: "\<forall>c \<in> set t. \<not> p c \<Longrightarrow> split_on p t = [t]"
  by (induction t) auto

lemma split_on_words:
  assumes "\<forall>t \<in> set (w # ws). \<forall>c \<in> set t. \<not> p c" and "p 32"
  shows "split_on p (w @ concat (map (\<lambda>t. 32 # t) ws)) = w # ws"
  using assms(1)
proof (induction ws arbitrary: w)
  case (Cons x xs)
  then have "split_on p (w @ 32 # x @ concat (map (\<lambda>t. 32 # t) xs)) = w # split_on p (x @ concat (map (\<lambda>t. 32 # t) xs))"
    using assms(2) by (intro split_on_word) simp_all
  with Cons show ?case by simp
qed (simp add: split_on_end)

lemma split_on_chars: "t \<in> set (split_on p s) \<Longrightarrow> c \<in> set t \<Longrightarrow> c \<in> set s \<and> \<not> p c"
proof (induction s arbitrary: t)
  case (Cons a s)
  then show ?case
    by (cases "split_on p s") (auto split: if_splits, (metis list.set_intros)+)
qed simp

lemma sample_text_tokenizer: "text_tokenizer_laws (sample_catalog_env ds)"
proof -
  have words: "filter (\<lambda>t. t \<noteq> []) (split_on (\<lambda>c. c \<le> 47 \<or> \<not> is_scalar c) (join_space ts)) = ts"
    if "\<forall>t \<in> set ts. length t = 3 \<and> (\<forall>c \<in> set t. plain_char (sample_catalog_env ds) c)" for ts :: "uchar list list"
  proof (cases ts)
    case (Cons w ws)
    have "\<not> (c \<le> 47 \<or> \<not> is_scalar c)" if "t \<in> set ts" "c \<in> set t" for t c
      using bspec [OF \<open>\<forall>t \<in> set ts. _ t\<close> that(1)] that(2) by (fastforce simp: plain_char_def sample_catalog_env_def)
    then have "split_on (\<lambda>c. c \<le> 47 \<or> \<not> is_scalar c) (join_space ts) = ts"
      unfolding Cons join_space_def by (simp add: split_on_words)
    moreover have "\<forall>t \<in> set ts. t \<noteq> []" using that by fastforce
    ultimately show ?thesis by simp
  qed (simp add: join_space_def)
  show ?thesis
    unfolding text_tokenizer_laws_def
    using words by (auto simp: sample_catalog_env_def dest: split_on_chars)
qed

definition notes_document :: CatalogDocument where
  "notes_document = sample_document\<lparr>doc_name := ''notes''\<rparr>"

theorem substring_search_exact_witness:
  "\<exists>td q. candidate_query (sample_catalog_env [notes_document]) ''ote'' QuerySubstring = Inr q
     \<and> trigram_query_matches (sample_catalog_env [notes_document]) q td"
proof -
  let ?env = "sample_catalog_env [notes_document]"
  have norm: "normalize ?env ''ote'' = [111, 116, 101]" "normalize ?env (doc_name notes_document) = [110, 111, 116, 101, 115]"
    by (simp_all add: normalize_def sample_catalog_env_def chars_def notes_document_def)
  obtain td where td: "index_document ?env notes_document = Inr td"
    by (simp add: index_document_def Let_def sample_catalog_env_def)
  have "sublist [111, 116, 101] ([110, 111, 116, 101, 115] :: uchar list)"
    unfolding sublist_def by (intro exI [of _ "[110]"] exI [of _ "[115]"]) simp
  moreover have "\<forall>c \<in> set (normalize ?env (doc_name notes_document)). plain_char ?env c"
      "\<forall>c \<in> set (normalize ?env ''ote''). is_scalar c"
    unfolding norm by (simp_all add: plain_char_def is_scalar_def is_surrogate_def) (simp add: sample_catalog_env_def)
  ultimately show ?thesis
    using substring_search_exact [OF sample_text_tokenizer td, of "''ote''"] unfolding norm by force
qed


theorem fingerprint_converges_witness:
  "fingerprint list_tantivy one_document_env [] = Inr default_fingerprint"
  using fingerprint_converges [OF sample_catalog_round_trip, of "[sample_document]" list_tantivy "[]" "\<lambda>_. None" "[]"]
    represents_list_empty by (simp add: one_document_env_def document_map_def fun_eq_iff)

end
