(* ===== verification/Projector.thy ===== *)
theory Projector
  imports Catalog_Index
begin

text \<open>
  The projection worker (\<open>crates/catalog-index/src/projector.rs\<close>): it recovers or rebuilds the active
  catalog generation and then replays the outbox in bounded batches, acknowledging each batch only
  after the index has committed it.

  The worker's state is the graph database and the directory of generations (\<open>catalog_root\<close>, a map from
  path to directory); an operation returns both with its result, on errors too, because a commit that
  is not acknowledged is a state the next run starts from. The clock is the argument \<open>elapsed\<close> (time
  since the start of the run at each check) and whether directories and markers can be written is \<open>worker_io\<close>. The two loops whose
  end depends on the directory and on stored documents are \<open>partial_function (option)\<close>: \<open>None\<close> means
  that the loop does not return.

  The worker holds the graph connection for the whole call; writes by another connection between its
  statements are outside this model.

  Shown: the unused generation found is the least one and is found whenever one exists; rebuilding
  reads every desired document once and ends; whatever a run does, failing at any point included,
  replaying the unread outbox rows on the active index gives desired state; and a run that reports
  no backlog leaves the active index equal to desired state.
\<close>

section \<open>The worker's state\<close>

record 'i gen_dir =
  gd_marker :: "string option"
  gd_index :: "'i option"

type_synonym 'i catalog_root = "string \<Rightarrow> 'i gen_dir option"

record worker_io =
  io_create_root :: bool
  io_create_dir :: "string \<Rightarrow> bool"
  io_write_marker :: "string \<Rightarrow> bool"

datatype ProjectionWorkerError =
    WorkerGraph GraphError
  | WorkerCatalog CatalogIndexError
  | WorkerIo
  | WorkerOutbox string

record ProjectionWorkerOptions =
  po_maximum_batch_mutations :: u32
  po_maximum_batches :: u32
  po_maximum_run_time :: nat
  po_writer_heap_bytes :: nat
  po_rebuild_page_size :: u32

text \<open>Durations are in nanoseconds.\<close>

definition default_worker_options :: ProjectionWorkerOptions where
  "default_worker_options = \<lparr>po_maximum_batch_mutations = 10000, po_maximum_batches = 100,
     po_maximum_run_time = 30 * 1000000000, po_writer_heap_bytes = 128 * 1024 * 1024,
     po_rebuild_page_size = 10000\<rparr>"

datatype RecoveryKind = ExistingGeneration | RebuiltGeneration

record ProjectionRunSummary =
  ps_recovery :: RecoveryKind
  ps_index_generation :: u64
  ps_committed_batches :: nat
  ps_applied_mutations :: nat
  ps_applied_sequence :: u64
  ps_backlog_remaining :: bool

section \<open>Generations\<close>

fun dec_digits :: "nat \<Rightarrow> nat \<Rightarrow> string" where
  "dec_digits 0 v = []"
| "dec_digits (Suc n) v = dec_digits n (v div 10) @ [char_of (48 + v mod 10)]"

text \<open>\<open>{generation:020}\<close> prints exactly twenty digits, because every \<open>u64\<close> has at most twenty.\<close>

definition generation_path :: "u64 \<Rightarrow> string" where
  "generation_path generation = ''generation-'' @ dec_digits 20 (unat generation)"

partial_function (option) next_unused_generation :: "'i catalog_root \<Rightarrow> u64 \<Rightarrow> u64 option" where
  "next_unused_generation root generation =
     (if root (generation_path generation) \<noteq> None
      then next_unused_generation root (saturating_add generation 1)
      else Some generation)"

definition catalog_create ::
    "('i, 'w) tantivy \<Rightarrow> worker_io \<Rightarrow> 'i catalog_root \<Rightarrow> string \<Rightarrow> 'i catalog_root \<times> (CatalogIndexError + 'i)" where
  "catalog_create tv io root path =
     (if root path \<noteq> None \<or> \<not> io_create_dir io path then (root, Inl CatalogIo)
      else if \<not> io_write_marker io path then (root(path \<mapsto> \<lparr>gd_marker = None, gd_index = None\<rparr>), Inl CatalogIo)
      else (case tv_create tv of
              None \<Rightarrow> (root(path \<mapsto> \<lparr>gd_marker = Some CATALOG_SCHEMA_ID, gd_index = None\<rparr>), Inl Tantivy)
            | Some i \<Rightarrow> (root(path \<mapsto> \<lparr>gd_marker = Some CATALOG_SCHEMA_ID, gd_index = Some i\<rparr>), Inr i)))"

definition catalog_open :: "'i catalog_root \<Rightarrow> string \<Rightarrow> CatalogIndexError + 'i" where
  "catalog_open root path =
     (case root path of
        None \<Rightarrow> Inl CatalogIo
      | Some dir \<Rightarrow>
          (case gd_marker dir of
             None \<Rightarrow> Inl CatalogIo
           | Some found \<Rightarrow>
               if found \<noteq> CATALOG_SCHEMA_ID then Inl (SchemaMismatch found)
               else ok_or (gd_index dir) Tantivy))"

text \<open>A commit publishes the writer's documents in the generation's directory.\<close>

definition catalog_commit ::
    "('i, 'w) tantivy \<Rightarrow> 'i catalog_root \<Rightarrow> string \<Rightarrow> 'w \<Rightarrow> 'i catalog_root \<times> (ProjectionWorkerError + unit)" where
  "catalog_commit tv root path w =
     (case tv_commit tv w of
        None \<Rightarrow> (root, Inl (WorkerCatalog Tantivy))
      | Some i \<Rightarrow>
          (root(path \<mapsto> \<lparr>gd_marker = Some CATALOG_SCHEMA_ID, gd_index = Some i\<rparr>),
           if tv_wait_merging_threads tv w then Inr () else Inl (WorkerCatalog Tantivy)))"

section \<open>Rebuilding\<close>

partial_function (option) rebuild_pages ::
    "('i, 'w) tantivy \<Rightarrow> graph_env \<Rightarrow> catalog_env \<Rightarrow> graph_db \<Rightarrow> u32 \<Rightarrow> 'w \<Rightarrow> DocumentId option \<Rightarrow>
     (ProjectionWorkerError + 'w) option" where
  "rebuild_pages tv env cenv db page_size w after =
     (case desired_catalog_page env db after (unat page_size) of
        Inl e \<Rightarrow> Some (Inl (WorkerGraph e))
      | Inr documents \<Rightarrow>
          if documents = [] then Some (Inr w)
          else
            (case fold_r (add_current tv cenv) w documents of
               Inl e \<Rightarrow> Some (Inl (WorkerCatalog e))
             | Inr w' \<Rightarrow>
                 if length documents < unat page_size then Some (Inr w')
                 else rebuild_pages tv env cenv db page_size w'
                        (Some (ci_document_id (doc_identity (last documents))))))"

definition publish_rebuild ::
    "('i, 'w) tantivy \<Rightarrow> graph_db \<Rightarrow> 'i catalog_root \<Rightarrow> u64 \<Rightarrow> 'w \<Rightarrow>
     graph_db \<times> 'i catalog_root \<times> (ProjectionWorkerError + RecoveryKind \<times> u64)" where
  "publish_rebuild tv db root generation w =
     (case catalog_commit tv root (generation_path generation) w of
        (root', Inl e) \<Rightarrow> (db, root', Inl e)
      | (root', Inr _) \<Rightarrow>
          (case latest_outbox_sequence db of
             Inl e \<Rightarrow> (db, root', Inl (WorkerGraph e))
           | Inr sequence \<Rightarrow>
               (case acknowledge_projection db CATALOG_SCHEMA_ID sequence generation of
                  Inl e \<Rightarrow> (db, root', Inl (WorkerGraph e))
                | Inr db' \<Rightarrow> (db', root', Inr (RebuiltGeneration, generation)))))"

definition rebuild ::
    "('i, 'w) tantivy \<Rightarrow> graph_env \<Rightarrow> catalog_env \<Rightarrow> worker_io \<Rightarrow> ProjectionWorkerOptions \<Rightarrow>
     graph_db \<Rightarrow> 'i catalog_root \<Rightarrow> u64 \<Rightarrow>
     (graph_db \<times> 'i catalog_root \<times> (ProjectionWorkerError + RecoveryKind \<times> u64)) option" where
  "rebuild tv env cenv io opts db root minimum_generation =
     Option.bind (next_unused_generation root minimum_generation) (\<lambda>generation.
     (case catalog_create tv io root (generation_path generation) of
        (root1, Inl e) \<Rightarrow> Some (db, root1, Inl (WorkerCatalog e))
      | (root1, Inr i) \<Rightarrow>
          (case tv_writer tv i (po_writer_heap_bytes opts) of
             None \<Rightarrow> Some (db, root1, Inl (WorkerCatalog Tantivy))
           | Some w \<Rightarrow>
               Option.bind (rebuild_pages tv env cenv db (po_rebuild_page_size opts) w None) (\<lambda>r.
               case r of
                 Inl e \<Rightarrow> Some (db, root1, Inl e)
               | Inr w' \<Rightarrow> Some (publish_rebuild tv db root1 generation w')))))"

definition recover ::
    "('i, 'w) tantivy \<Rightarrow> graph_env \<Rightarrow> catalog_env \<Rightarrow> worker_io \<Rightarrow> ProjectionWorkerOptions \<Rightarrow>
     graph_db \<Rightarrow> 'i catalog_root \<Rightarrow>
     (graph_db \<times> 'i catalog_root \<times> (ProjectionWorkerError + RecoveryKind \<times> u64)) option" where
  "recover tv env cenv io opts db root =
     (case projector_checkpoint db CATALOG_SCHEMA_ID of
        Inl e \<Rightarrow> Some (db, root, Inl (WorkerGraph e))
      | Inr (Some cp) \<Rightarrow>
          (case catalog_open root (generation_path (pr_index_generation cp)) of
             Inr _ \<Rightarrow> Some (db, root, Inr (ExistingGeneration, pr_index_generation cp))
           | Inl _ \<Rightarrow> rebuild tv env cenv io opts db root (saturating_add (pr_index_generation cp) 1))
      | Inr None \<Rightarrow> rebuild tv env cenv io opts db root 1)"

section \<open>Consuming the outbox\<close>

text \<open>One pass of the loop: \<open>Inr None\<close> leaves the loop, \<open>Inr (Some n)\<close> has acknowledged \<open>n\<close> mutations.\<close>

definition run_batch ::
    "('i, 'w) tantivy \<Rightarrow> graph_env \<Rightarrow> catalog_env \<Rightarrow> ProjectionWorkerOptions \<Rightarrow> u64 \<Rightarrow>
     graph_db \<Rightarrow> 'i catalog_root \<Rightarrow> graph_db \<times> 'i catalog_root \<times> (ProjectionWorkerError + nat option)" where
  "run_batch tv env cenv opts generation db root =
     (case projector_checkpoint db CATALOG_SCHEMA_ID of
        Inl e \<Rightarrow> (db, root, Inl (WorkerGraph e))
      | Inr None \<Rightarrow> (db, root, Inl (WorkerOutbox ''missing active checkpoint''))
      | Inr (Some cp) \<Rightarrow>
          (case read_outbox env db (Some (MutationSeq (pr_last_sequence cp))) (unat (po_maximum_batch_mutations opts)) of
             Inl e \<Rightarrow> (db, root, Inl (WorkerGraph e))
           | Inr batch \<Rightarrow>
               if mb_mutations batch = [] then (db, root, Inr None)
               else
                 (case batch_validate batch of
                    Inl e \<Rightarrow> (db, root, Inl (WorkerOutbox ''invalid batch''))
                  | Inr _ \<Rightarrow>
                      (case catalog_open root (generation_path generation) of
                         Inl e \<Rightarrow> (db, root, Inl (WorkerCatalog e))
                       | Inr i \<Rightarrow>
                           (case tv_writer tv i (po_writer_heap_bytes opts) of
                              None \<Rightarrow> (db, root, Inl (WorkerCatalog Tantivy))
                            | Some w \<Rightarrow>
                                (case fold_r (writer_apply tv cenv) w (map sm_mutation (mb_mutations batch)) of
                                   Inl e \<Rightarrow> (db, root, Inl (WorkerCatalog e))
                                 | Inr w' \<Rightarrow>
                                     (case catalog_commit tv root (generation_path generation) w' of
                                        (root', Inl e) \<Rightarrow> (db, root', Inl e)
                                      | (root', Inr _) \<Rightarrow>
                                          (case last_sequence batch of
                                             None \<Rightarrow> (db, root', Inl (WorkerOutbox ''non-empty batch lost its tail''))
                                           | Some l \<Rightarrow>
                                               (case acknowledge_projection db CATALOG_SCHEMA_ID l generation of
                                                  Inl e \<Rightarrow> (db, root', Inl (WorkerGraph e))
                                                | Inr db' \<Rightarrow> (db', root', Inr (Some (length (mb_mutations batch)))))))))))))"

fun run_loop ::
    "('i, 'w) tantivy \<Rightarrow> graph_env \<Rightarrow> catalog_env \<Rightarrow> ProjectionWorkerOptions \<Rightarrow> (nat \<Rightarrow> nat) \<Rightarrow> u64 \<Rightarrow> nat \<Rightarrow>
     graph_db \<Rightarrow> 'i catalog_root \<Rightarrow> nat \<Rightarrow> graph_db \<times> 'i catalog_root \<times> (ProjectionWorkerError + nat \<times> nat)" where
  "run_loop tv env cenv opts elapsed generation 0 db root applied = (db, root, Inr (0, applied))"
| "run_loop tv env cenv opts elapsed generation (Suc n) db root applied =
     (if po_maximum_run_time opts \<le> elapsed n then (db, root, Inr (Suc n, applied))
      else
        (case run_batch tv env cenv opts generation db root of
           (db', root', Inl e) \<Rightarrow> (db', root', Inl e)
         | (db', root', Inr None) \<Rightarrow> (db', root', Inr (Suc n, applied))
         | (db', root', Inr (Some k)) \<Rightarrow>
             run_loop tv env cenv opts elapsed generation n db' root' (applied + k)))"

definition run_summary ::
    "graph_db \<Rightarrow> RecoveryKind \<Rightarrow> u64 \<Rightarrow> nat \<Rightarrow> nat \<Rightarrow> ProjectionWorkerError + ProjectionRunSummary" where
  "run_summary db recovery generation batches applied =
     (case projector_checkpoint db CATALOG_SCHEMA_ID of
        Inl e \<Rightarrow> Inl (WorkerGraph e)
      | Inr None \<Rightarrow> Inl (WorkerOutbox ''missing final checkpoint'')
      | Inr (Some cp) \<Rightarrow>
          (case latest_outbox_sequence db of
             Inl e \<Rightarrow> Inl (WorkerGraph e)
           | Inr latest \<Rightarrow>
               Inr \<lparr>ps_recovery = recovery, ps_index_generation = generation,
                    ps_committed_batches = batches, ps_applied_mutations = applied,
                    ps_applied_sequence = pr_last_sequence cp,
                    ps_backlog_remaining = (pr_last_sequence cp < seq_value latest)\<rparr>))"

definition run ::
    "('i, 'w) tantivy \<Rightarrow> graph_env \<Rightarrow> catalog_env \<Rightarrow> worker_io \<Rightarrow> ProjectionWorkerOptions \<Rightarrow> (nat \<Rightarrow> nat) \<Rightarrow>
     graph_db \<Rightarrow> 'i catalog_root \<Rightarrow>
     (graph_db \<times> 'i catalog_root \<times> (ProjectionWorkerError + ProjectionRunSummary)) option" where
  "run tv env cenv io opts elapsed db root =
     (if \<not> io_create_root io then Some (db, root, Inl WorkerIo)
      else
        Option.bind (recover tv env cenv io opts db root) (\<lambda>(db1, root1, r).
        case r of
          Inl e \<Rightarrow> Some (db1, root1, Inl e)
        | Inr (recovery, generation) \<Rightarrow>
            (case run_loop tv env cenv opts elapsed generation (unat (po_maximum_batches opts)) db1 root1 0 of
               (db2, root2, Inl e) \<Rightarrow> Some (db2, root2, Inl e)
             | (db2, root2, Inr (unused, applied)) \<Rightarrow>
                 Some (db2, root2, run_summary db2 recovery generation
                   (unat (po_maximum_batches opts) - unused) applied))))"

definition active_index ::
    "graph_db \<Rightarrow> 'i catalog_root \<Rightarrow> ProjectionWorkerError + 'i" where
  "active_index db root =
     (case projector_checkpoint db CATALOG_SCHEMA_ID of
        Inl e \<Rightarrow> Inl (WorkerGraph e)
      | Inr None \<Rightarrow> Inl (WorkerOutbox ''no active catalog generation'')
      | Inr (Some cp) \<Rightarrow>
          (case catalog_open root (generation_path (pr_index_generation cp)) of
             Inl e \<Rightarrow> Inl (WorkerCatalog e)
           | Inr i \<Rightarrow> Inr i))"

section \<open>Generation numbers\<close>

lemma unat_u64_less: "unat (x :: u64) < 2 ^ 64"
  using unsigned_less [of x] by simp

lemma length_dec_digits [simp]: "length (dec_digits n v) = n"
  by (induction n arbitrary: v) simp_all

lemma dec_digits_inj:
  assumes "dec_digits n v = dec_digits n w" and "v < 10 ^ n" and "w < 10 ^ n"
  shows "v = w"
  using assms
proof (induction n arbitrary: v w)
  case (Suc n)
  have "dec_digits n (v div 10) = dec_digits n (w div 10)" "char_of (48 + v mod 10) = (char_of (48 + w mod 10) :: char)"
    using Suc.prems(1) by simp_all
  moreover from this(2) have "(of_char (char_of (48 + v mod 10) :: char) :: nat) = of_char (char_of (48 + w mod 10) :: char)"
    by simp
  then have "v mod 10 = w mod 10" by simp
  moreover have "v div 10 < 10 ^ n" "w div 10 < 10 ^ n" using Suc.prems(2,3) by auto
  ultimately have "v div 10 = w div 10" "v mod 10 = w mod 10" using Suc.IH by blast+
  then show ?case by (metis div_mult_mod_eq)
qed simp

lemma generation_path_inj [simp]: "generation_path g = generation_path h \<longleftrightarrow> g = h"
proof
  assume "generation_path g = generation_path h"
  then have "dec_digits 20 (unat g) = dec_digits 20 (unat h)" by (simp add: generation_path_def)
  moreover have "unat x < 10 ^ 20" for x :: u64 using unat_u64_less [of x] by simp
  ultimately show "g = h" using dec_digits_inj unsigned_word_eqI by blast
qed simp

lemma next_unused_generation_Some:
  assumes "next_unused_generation root m = Some g"
  shows "root (generation_path g) = None \<and> m \<le> g \<and> (\<forall>h. m \<le> h \<longrightarrow> h < g \<longrightarrow> root (generation_path h) \<noteq> None)"
proof (rule next_unused_generation.raw_induct [OF _ assms])
  fix f :: "'a catalog_root \<Rightarrow> u64 \<Rightarrow> u64 option" and root :: "'a catalog_root" and m g
  assume IH: "\<And>root m g. f root m = Some g \<Longrightarrow>
      root (generation_path g) = None \<and> m \<le> g \<and> (\<forall>h. m \<le> h \<longrightarrow> h < g \<longrightarrow> root (generation_path h) \<noteq> None)"
    and step: "(if root (generation_path m) \<noteq> None then f root (saturating_add m 1) else Some m) = Some g"
  show "root (generation_path g) = None \<and> m \<le> g \<and> (\<forall>h. m \<le> h \<longrightarrow> h < g \<longrightarrow> root (generation_path h) \<noteq> None)"
  proof (cases "root (generation_path m) = None")
    case False
    with step have rec: "f root (saturating_add m 1) = Some g" by simp
    note ih = IH [OF this]
    have up: "unat (saturating_add m 1) = min (unat m + 1) (2 ^ 64 - 1)" by (simp add: unat_saturating_add)
    have "m \<le> saturating_add m 1" using up unat_u64_less [of m] by (simp add: word_le_nat_alt)
    moreover have "h = m \<or> saturating_add m 1 \<le> h" if "m \<le> h" for h
    proof (cases "h = m")
      case False
      then have "unat m < unat h" using that by (metis word_le_nat_alt le_neq_implies_less unsigned_word_eqI)
      then show ?thesis using up by (simp add: word_le_nat_alt min_def)
    qed simp
    ultimately show ?thesis using ih False by (metis order.trans)
  qed (use step in auto)
qed

lemma next_unused_generation_returns:
  assumes "m \<le> h" and "root (generation_path h) = None"
  shows "\<exists>g. next_unused_generation root m = Some g"
  using assms
proof (induction "unat h - unat m" arbitrary: m rule: less_induct)
  case less
  show ?case
  proof (cases "root (generation_path m) = None")
    case True
    then show ?thesis by (subst next_unused_generation.simps) simp
  next
    case False
    then have "unat m < unat h"
      using less.prems by (metis word_le_nat_alt le_neq_implies_less unsigned_word_eqI)
    moreover have up: "unat (saturating_add m 1) = unat m + 1"
      using \<open>unat m < unat h\<close> unat_u64_less [of h] by (simp add: unat_saturating_add)
    ultimately have "unat h - unat (saturating_add m 1) < unat h - unat m" "saturating_add m 1 \<le> h"
      by (simp_all add: word_le_nat_alt)
    from less.hyps [OF this less.prems(2)] False show ?thesis
      by (subst next_unused_generation.simps) simp
  qed
qed

text \<open>C39: choosing a generation for a rebuild is the search for the least unused number: the loop
  returns a generation exactly when some number from the minimum on is unused, and then the least
  one; it does not return when every one of them exists, because the counter saturates.\<close>

theorem next_unused_generation_least:
  "(\<forall>g. next_unused_generation root m = Some g \<longleftrightarrow>
      (root (generation_path g) = None \<and> m \<le> g \<and> {h. m \<le> h \<and> h < g} \<subseteq> {h. root (generation_path h) \<noteq> None}))
   \<and> (next_unused_generation root m = None \<longleftrightarrow> {h. m \<le> h} \<subseteq> {h. root (generation_path h) \<noteq> None})"
proof (intro conjI allI)
  have some: "root (generation_path g) = None \<and> m \<le> g \<and> {h. m \<le> h \<and> h < g} \<subseteq> {h. root (generation_path h) \<noteq> None}"
    if "next_unused_generation root m = Some g" for g
    using next_unused_generation_Some [OF that] by auto
  fix g
  show "next_unused_generation root m = Some g \<longleftrightarrow>
      (root (generation_path g) = None \<and> m \<le> g \<and> {h. m \<le> h \<and> h < g} \<subseteq> {h. root (generation_path h) \<noteq> None})"
  proof
    assume g: "root (generation_path g) = None \<and> m \<le> g \<and> {h. m \<le> h \<and> h < g} \<subseteq> {h. root (generation_path h) \<noteq> None}"
    then obtain g' where g': "next_unused_generation root m = Some g'"
      using next_unused_generation_returns by blast
    have "g' = g"
      using some [OF g'] g by (cases g' g rule: linorder_cases) auto
    with g' show "next_unused_generation root m = Some g" by simp
  qed (rule some)
  show "next_unused_generation root m = None \<longleftrightarrow> {h. m \<le> h} \<subseteq> {h. root (generation_path h) \<noteq> None}"
    using next_unused_generation_returns [of m _ root] some by (cases "next_unused_generation root m") fastforce+
qed

section \<open>Replaying twice\<close>

fun mutation_key :: "IndexMutation \<Rightarrow> DocumentId" where
  "mutation_key (Upsert d) = docid d"
| "mutation_key (Delete k _) = k"

fun mutation_entry :: "IndexMutation \<Rightarrow> CatalogDocument option" where
  "mutation_entry (Upsert d) = Some d"
| "mutation_entry (Delete _ _) = None"

lemma index_mutation_upd: "index_mutation idx m = idx(mutation_key m := mutation_entry m)"
  by (cases m) simp_all

lemma replay_apply:
  "replay idx ms k = (case filter (\<lambda>m. mutation_key m = k) ms of [] \<Rightarrow> idx k | ns \<Rightarrow> mutation_entry (last ns))"
  by (induction ms arbitrary: idx) (auto simp: index_mutation_upd split: list.splits)

lemma replay_idem [simp]: "replay (replay idx ms) ms = replay idx ms"
  by (rule ext) (simp add: replay_apply split: list.splits)

lemma replay_upserts:
  assumes "distinct (map docid ds)"
  shows "replay (\<lambda>_. None) (map Upsert ds) = document_map ds"
proof (rule ext)
  fix k
  have f: "filter (\<lambda>m. mutation_key m = k) (map Upsert ds) = map Upsert (filter (\<lambda>d. docid d = k) ds)"
    by (simp add: filter_map comp_def)
  show "replay (\<lambda>_. None) (map Upsert ds) k = document_map ds k"
  proof (cases "filter (\<lambda>d. docid d = k) ds")
    case Nil
    then have "document_map ds k = None" by (auto simp: document_map_None filter_empty_conv)
    with Nil show ?thesis by (simp add: replay_apply f)
  next
    case (Cons d rest)
    have "set (filter (\<lambda>d. docid d = k) ds) \<subseteq> {d}"
    proof
      fix x assume x: "x \<in> set (filter (\<lambda>d. docid d = k) ds)"
      have "d \<in> set (filter (\<lambda>d. docid d = k) ds)" using Cons by simp
      with x assms show "x \<in> {d}" by (auto simp: distinct_map inj_on_def)
    qed
    then have "last (filter (\<lambda>d. docid d = k) ds) = d" using Cons by (metis insert_iff last_in_set list.distinct(1) singletonD subsetD)
    moreover have "document_map ds k = Some d"
      using document_map_Some [OF assms] Cons by (metis (mono_tags, lifting) list.set_intros(1) mem_Collect_eq set_filter)
    ultimately show ?thesis using Cons by (auto simp: replay_apply f last_map split: if_splits)
  qed
qed

section \<open>A rebuild reads every desired document once\<close>

lemma and_then_assoc: "and_then (and_then x f) g = and_then x (\<lambda>a. and_then (f a) g)"
  by (cases x) simp_all

text \<open>What desired state reads back is what it has recorded: every document decodes, under its own
  identity and with the recorded fingerprint.\<close>

definition recorded_current :: "graph_env \<Rightarrow> graph_db \<Rightarrow> bool" where
  "recorded_current env db \<longleftrightarrow>
     (\<forall>k. \<exists>d. desired_catalog_document env db k = Inr d \<and> map_option (fp_of env) d = projected env db k
        \<and> (d = None \<or> docid (the d) = k))"

definition decode_row ::
    "graph_env \<Rightarrow> document_row \<times> link_row \<times> object_row \<times> volume_row \<Rightarrow> CatalogDocument graph_result" where
  "decode_row env row = and_then (stored_catalog_projection_from_row row) (into_document env)"

lemma decode_documents_iff:
  "decode_documents env rows = Inr docs \<longleftrightarrow> list_all2 (\<lambda>row d. decode_row env row = Inr d) rows docs"
proof -
  have "(\<lambda>documents row. and_then (stored_catalog_projection_from_row row) (\<lambda>stored.
      and_then (into_document env stored) (\<lambda>document. Inr (documents @ [document]))))
    = (\<lambda>acc row. and_then (decode_row env row) (\<lambda>y. Inr (acc @ [y])))"
    by (intro ext) (simp add: decode_row_def and_then_assoc)
  then show ?thesis unfolding decode_documents_def by (simp add: fold_r_collect)
qed

lemma recorded_row:
  assumes "schema_ok db" and "recorded_current env db" and "row \<in> set (joined_rows db)"
  shows "\<exists>d. decode_row env row = Inr d \<and> docid d = d_document_id (fst row)
    \<and> desired_catalog_document env db (d_document_id (fst row)) = Inr (Some d)"
proof -
  let ?k = "d_document_id (fst row)"
  obtain row' where row': "find (\<lambda>r. d_document_id (fst r) = ?k) (joined_rows db) = Some row'"
    using assms(3) by (metis (mono_tags, lifting) find_None_iff not_Some_eq)
  then have "row' \<in> set (joined_rows db)" "d_document_id (fst row') = ?k" by (auto simp: find_Some_iff)
  then have "row' = row"
    using distinct_joined_rows [OF assms(1)] assms(3) by (auto simp: distinct_map inj_on_def)
  with row' have "desired_catalog_document env db ?k = and_then (decode_row env row) (\<lambda>d. Inr (Some d))"
    by (simp add: desired_catalog_document_def decode_row_def and_then_assoc)
  moreover obtain d where "desired_catalog_document env db ?k = Inr d" "d = None \<or> docid (the d) = ?k"
    using assms(2) unfolding recorded_current_def by blast
  ultimately show ?thesis by (cases "decode_row env row") auto
qed

definition row_document :: "graph_env \<Rightarrow> document_row \<times> link_row \<times> object_row \<times> volume_row \<Rightarrow> CatalogDocument" where
  "row_document env row = projr (decode_row env row)"

lemma recorded_decode:
  assumes "schema_ok db" and "recorded_current env db" and "set rows \<subseteq> set (joined_rows db)"
  shows "decode_documents env rows = Inr (map (row_document env) rows)"
    and "map docid (map (row_document env) rows) = map (d_document_id \<circ> fst) rows"
proof -
  have row: "decode_row env r = Inr (row_document env r) \<and> docid (row_document env r) = d_document_id (fst r)"
    if "r \<in> set rows" for r
    using recorded_row [OF assms(1,2)] that assms(3) by (fastforce simp: row_document_def)
  then show "decode_documents env rows = Inr (map (row_document env) rows)"
    unfolding decode_documents_iff by (simp add: list_all2_map2 list.rel_refl_strong)
  show "map docid (map (row_document env) rows) = map (d_document_id \<circ> fst) rows" using row by simp
qed

lemma add_currents_represent:
  assumes "tantivy_laws tv" and "fold_r (add_current tv cenv) w ds = Inr w'" and "represents cenv (tv_pending tv w) idx"
    and "distinct (map docid ds)" and "\<And>d. d \<in> set ds \<Longrightarrow> idx (docid d) = None"
  shows "represents cenv (tv_pending tv w') (replay idx (map Upsert ds))"
  using assms(2-5)
proof (induction ds arbitrary: w idx)
  case (Cons d ds)
  then obtain w1 where w1: "add_current tv cenv w d = Inr w1" "fold_r (add_current tv cenv) w1 ds = Inr w'"
    by (auto simp: result_simps)
  then have "writer_add tv cenv w d = Inr w1" by (simp add: add_current_def split: if_splits)
  from writer_add_represents [OF assms(1) Cons.prems(2) _ this]
  have "represents cenv (tv_pending tv w1) (idx(docid d \<mapsto> d))" using Cons.prems(4) by simp
  moreover have "(idx(docid d \<mapsto> d)) (docid e) = None" if "e \<in> set ds" for e
    using Cons.prems(3) Cons.prems(4) [of e] that by (cases "docid e = docid d") (simp_all, metis imageI)
  moreover have "distinct (map docid ds)" using Cons.prems(3) by simp
  ultimately have "represents cenv (tv_pending tv w') (replay (idx(docid d \<mapsto> d)) (map Upsert ds))"
    using Cons.IH [OF w1(2)] by blast
  then show ?case by simp
qed simp

abbreviation desired_rows :: "graph_db \<Rightarrow> (document_row \<times> link_row \<times> object_row \<times> volume_row) list" where
  "desired_rows db \<equiv> sort_key (d_document_id \<circ> fst) (joined_rows db)"

abbreviation unread_rows :: "graph_db \<Rightarrow> DocumentId option \<Rightarrow> (document_row \<times> link_row \<times> object_row \<times> volume_row) list" where
  "unread_rows db after \<equiv> sort_key (d_document_id \<circ> fst)
     (filter (\<lambda>row. after_cursor after (d_document_id (fst row))) (joined_rows db))"

text \<open>Reading page after page of desired state: a page is the next stretch of the rows in identity order, and
  its last identity is the cursor of the rest.\<close>

lemma desired_page:
  fixes after :: "DocumentId option"
  assumes "schema_ok db" and "recorded_current env db" and rows: "desired_rows db = seen @ unread_rows db after" and n: "0 < n"
  defines "page \<equiv> take n (unread_rows db after)"
  shows "desired_catalog_page env db after n = Inr (map (row_document env) page)"
    and "length page < n \<Longrightarrow> desired_rows db = seen @ page"
    and "page \<noteq> [] \<Longrightarrow> desired_rows db
           = (seen @ page) @ unread_rows db (Some (docid (last (map (row_document env) page))))"
proof -
  let ?ord = "d_document_id \<circ> fst"
  define p where "p = (\<lambda>row :: document_row \<times> link_row \<times> object_row \<times> volume_row. after_cursor after (d_document_id (fst row)))"
  have sub: "set page \<subseteq> set (joined_rows db)" by (auto simp: page_def dest: in_set_takeD)
  have "desired_catalog_page env db after n = decode_documents env page"
    unfolding desired_catalog_page_def page_def by (cases after) (simp_all add: tbl_scan_def)
  then show "desired_catalog_page env db after n = Inr (map (row_document env) page)"
    using recorded_decode(1) [OF assms(1,2) sub] by simp
  show "desired_rows db = seen @ page" if "length page < n"
  proof -
    have "page = unread_rows db after" using that unfolding page_def by simp
    then show ?thesis using rows by simp
  qed
  show "desired_rows db = (seen @ page) @ unread_rows db (Some (docid (last (map (row_document env) page))))" if "page \<noteq> []"
  proof -
    have last: "docid (last (map (row_document env) page)) = ?ord (last page)"
      using arg_cong [OF recorded_decode(2) [OF assms(1,2) sub], of last] that by (simp add: last_map)
    have "unread_rows db after = page @ sort_key ?ord (filter (\<lambda>r. p r \<and> ?ord (last page) < ?ord r) (joined_rows db))"
      using desired_pages.scan_resume [OF assms(1) _ that, of n p] by (simp add: page_def p_def)
    moreover have "p r \<and> ?ord (last page) < ?ord r \<longleftrightarrow> ?ord (last page) < ?ord r" for r
    proof -
      have "p (last page)" using last_in_set [OF that] by (auto simp: page_def p_def dest!: in_set_takeD)
      then show ?thesis unfolding p_def by (cases after) auto
    qed
    ultimately show ?thesis using rows last by simp
  qed
qed

lemma desired_page_added:
  assumes "tantivy_laws tv" and "schema_ok db" and "recorded_current env db" and rows: "desired_rows db = (seen @ page) @ rest"
    and "represents cenv (tv_pending tv w) (replay (\<lambda>_. None) (map Upsert (map (row_document env) seen)))"
    and "fold_r (add_current tv cenv) w (map (row_document env) page) = Inr w'"
  shows "represents cenv (tv_pending tv w') (replay (\<lambda>_. None) (map Upsert (map (row_document env) (seen @ page))))"
proof -
  let ?docs = "map (row_document env)"
  have "set (desired_rows db) \<subseteq> set (joined_rows db)" by simp
  then have "set (seen @ page) \<subseteq> set (joined_rows db)" using rows by simp
  from recorded_decode(2) [OF assms(2,3) this] have "map docid (?docs (seen @ page)) = map (d_document_id \<circ> fst) (seen @ page)" .
  moreover have "distinct (map (d_document_id \<circ> fst) (desired_rows db))"
    using desired_pages.sorted_scan [OF assms(2), of "\<lambda>_. True"] by (simp add: strict_sorted_iff)
  then have "distinct (map (d_document_id \<circ> fst) (seen @ page))" unfolding rows by (simp add: Int_Un_distrib)
  ultimately have dist: "distinct (map docid (?docs (seen @ page)))" by metis
  then have "replay (\<lambda>_. None) (map Upsert (?docs seen)) (docid d) = None" if "d \<in> set (?docs page)" for d
    using that replay_upserts [of "?docs seen"] by (auto simp: document_map_None image_image)
  with add_currents_represent [OF assms(1,6,5)] dist show ?thesis by simp
qed

lemma rebuild_pages_represent:
  fixes after :: "DocumentId option"
  assumes "tantivy_laws tv" and "schema_ok db" and "recorded_current env db" and "0 < page_size"
    and "desired_rows db = seen @ unread_rows db after"
    and "represents cenv (tv_pending tv w) (replay (\<lambda>_. None) (map Upsert (map (row_document env) seen)))"
  shows "\<exists>r. rebuild_pages tv env cenv db page_size w after = Some r
    \<and> (\<forall>w'. r = Inr w' \<longrightarrow> represents cenv (tv_pending tv w')
          (replay (\<lambda>_. None) (map Upsert (map (row_document env) (desired_rows db)))))"
  using assms(5,6)
proof (induction "length (desired_rows db) - length seen" arbitrary: seen w after rule: less_induct)
  case less
  define page where "page = take (unat page_size) (unread_rows db after)"
  define docs where "docs = map (row_document env) page"
  have psz: "0 < unat page_size" using assms(4) by (simp add: word_less_nat_alt)
  note paged = desired_page [OF assms(2,3) less.prems(1) psz, folded page_def, folded docs_def]
  consider (empty) "docs = []" | (failed) e where "docs \<noteq> []" "fold_r (add_current tv cenv) w docs = Inl e"
    | (added) w1 where "docs \<noteq> []" "fold_r (add_current tv cenv) w docs = Inr w1"
    by (cases "fold_r (add_current tv cenv) w docs") auto
  then show ?case
  proof cases
    case empty
    then show ?thesis using paged(1,2) psz less.prems(2) by (subst rebuild_pages.simps) (simp add: docs_def)
  next
    case failed
    then show ?thesis using paged(1) by (subst rebuild_pages.simps) simp
  next
    case added
    then have page: "page \<noteq> []" by (simp add: docs_def)
    have rep: "represents cenv (tv_pending tv w1) (replay (\<lambda>_. None) (map Upsert (map (row_document env) (seen @ page))))"
      using desired_page_added [OF assms(1,2,3) paged(3) [OF page] less.prems(2) added(2) [unfolded docs_def]] .
    show ?thesis
    proof (cases "length docs < unat page_size")
      case True
      with added rep paged(1,2) show ?thesis by (subst rebuild_pages.simps) (simp add: docs_def)
    next
      case False
      have "length (desired_rows db) - length (seen @ page) < length (desired_rows db) - length seen"
        using page arg_cong [OF paged(3) [OF page], of length] by simp
      from less.hyps [OF this paged(3) [OF page] rep] show ?thesis
        using paged(1) added False by (subst rebuild_pages.simps) simp
    qed
  qed
qed

lemma rebuilt_agrees:
  assumes "schema_ok db" and "recorded_current env db"
  shows "index_agrees env (replay (\<lambda>_. None) (map Upsert (map (row_document env) (desired_rows db)))) db"
proof -
  let ?ds = "map (row_document env) (desired_rows db)"
  have ids: "map docid ?ds = map (d_document_id \<circ> fst) (desired_rows db)"
    using recorded_decode(2) [OF assms, of "desired_rows db"] by simp
  have dist: "distinct (map docid ?ds)"
    unfolding ids using desired_pages.sorted_scan [OF assms(1), of "\<lambda>_. True"] by (simp add: strict_sorted_iff)
  have "desired_catalog_document env db k = Inr (document_map ?ds k)" for k
  proof (cases "find (\<lambda>row. d_document_id (fst row) = k) (joined_rows db)")
    case None
    then have "\<forall>row \<in> set (joined_rows db). d_document_id (fst row) \<noteq> k" by (metis (mono_tags, lifting) find_None_iff)
    then have "k \<notin> set (map (d_document_id \<circ> fst) (desired_rows db))" by fastforce
    then have "document_map ?ds k = None" unfolding ids [symmetric] document_map_None by (simp only: set_map not_False_eq_True)
    with None show ?thesis by (simp add: desired_catalog_document_def)
  next
    case (Some row)
    then have row: "row \<in> set (joined_rows db)" "d_document_id (fst row) = k" by (auto simp: find_Some_iff)
    from recorded_row [OF assms row(1)] obtain d where
      d: "decode_row env row = Inr d" "docid d = k" "desired_catalog_document env db k = Inr (Some d)"
      using row(2) by auto
    moreover have "d \<in> set ?ds" using row(1) d(1) by (force simp: row_document_def)
    ultimately show ?thesis using document_map_Some [OF dist, of k d] by simp
  qed
  then show ?thesis
    using assms(2) unfolding index_agrees_def recorded_current_def replay_upserts [OF dist]
    by (metis sum.inject(2))
qed

section \<open>The catalog lags behind the graph by the unread rows\<close>

text \<open>A committed index \<open>i\<close> of the registered consumer, replayed with the rows the consumer has not
  acknowledged, agrees with desired state.\<close>

definition index_lags :: "('i, 'w) tantivy \<Rightarrow> graph_env \<Rightarrow> catalog_env \<Rightarrow> graph_db \<Rightarrow> 'i \<Rightarrow> bool" where
  "index_lags tv env cenv db i \<longleftrightarrow>
     (\<exists>row idx ms. find_consumer db CATALOG_SCHEMA_ID = Some row
        \<and> represents cenv (tv_documents tv i) idx
        \<and> map (env_mutation_from_json env \<circ> ob_mutation_json)
            (filter (\<lambda>r. c_last_sequence row < ob_sequence r) (graph_projection_outbox db)) = map Some ms
        \<and> index_agrees env (replay idx ms) db)"

text \<open>Whenever an active generation opens, its index lags behind desired state by the unread rows.\<close>

definition catalog_consistent ::
    "('i, 'w) tantivy \<Rightarrow> graph_env \<Rightarrow> catalog_env \<Rightarrow> graph_db \<Rightarrow> 'i catalog_root \<Rightarrow> bool" where
  "catalog_consistent tv env cenv db root \<longleftrightarrow>
     (case active_index db root of Inl _ \<Rightarrow> True | Inr i \<Rightarrow> index_lags tv env cenv db i)"

definition same_but_consumers :: "graph_db \<Rightarrow> graph_db \<Rightarrow> bool" where
  "same_but_consumers db db' \<longleftrightarrow> (\<exists>cs. db' = db\<lparr>graph_projection_consumers := cs\<rparr>)"

lemma same_but_consumers_refl [simp]: "same_but_consumers db db"
  unfolding same_but_consumers_def by (rule exI [of _ "graph_projection_consumers db"]) simp

lemma same_but_consumers_trans:
  "same_but_consumers a b \<Longrightarrow> same_but_consumers b c \<Longrightarrow> same_but_consumers a c"
  by (auto simp: same_but_consumers_def)

lemma same_but_consumers_reads:
  assumes "same_but_consumers db db'"
  shows "projected env db' k = projected env db k" and "desired_catalog_document env db' k = desired_catalog_document env db k"
    and "graph_projection_outbox db' = graph_projection_outbox db" and "high_water db' = high_water db"
    and "index_agrees env idx db' = index_agrees env idx db" and "recorded_current env db' = recorded_current env db"
proof -
  obtain cs where db': "db' = db\<lparr>graph_projection_consumers := cs\<rparr>" using assms by (auto simp: same_but_consumers_def)
  show p: "projected env db' k = projected env db k" for k by (simp add: db' projected_def)
  have "joined_row db' = joined_row db" by (intro ext) (simp add: db' joined_row_def)
  then have "joined_rows db' = joined_rows db" by (simp add: db' joined_rows_def)
  then show d: "desired_catalog_document env db' k = desired_catalog_document env db k" for k
    by (simp add: desired_catalog_document_def)
  show "graph_projection_outbox db' = graph_projection_outbox db" "high_water db' = high_water db"
    by (simp_all add: db' high_water_def)
  show "index_agrees env idx db' = index_agrees env idx db" "recorded_current env db' = recorded_current env db"
    by (simp_all add: index_agrees_def recorded_current_def p d)
qed

lemma acknowledge_same:
  assumes "acknowledge_projection db c s g = Inr db'"
  shows "same_but_consumers db db'" and "uint g \<le> i64_max"
  using assms
  by (auto simp: acknowledge_projection_def result_simps same_but_consumers_def i64_try_from_u64_def split: if_splits)

lemma active_index_ok:
  assumes "graph_ok db"
  shows "active_index db root = (case find_consumer db CATALOG_SCHEMA_ID of
      None \<Rightarrow> Inl (WorkerOutbox ''no active catalog generation'')
    | Some row \<Rightarrow> (case catalog_open root (generation_path (word_of_int (c_index_generation row))) of
        Inl e \<Rightarrow> Inl (WorkerCatalog e) | Inr i \<Rightarrow> Inr i))"
  by (cases "find_consumer db CATALOG_SCHEMA_ID") (simp_all add: active_index_def projector_checkpoint_ok [OF assms])

lemma catalog_commit_cases:
  assumes "catalog_commit tv root path w = (root', r)"
  obtains "root' = root" "r = Inl (WorkerCatalog Tantivy)"
  | i where "tv_commit tv w = Some i" "root' = root(path \<mapsto> \<lparr>gd_marker = Some CATALOG_SCHEMA_ID, gd_index = Some i\<rparr>)"
      "r = Inr () \<or> r = Inl (WorkerCatalog Tantivy)"
  using assms by (auto simp: catalog_commit_def split: option.splits if_splits)

lemma catalog_open_upd:
  "catalog_open (root(path \<mapsto> \<lparr>gd_marker = Some CATALOG_SCHEMA_ID, gd_index = Some i\<rparr>)) p
     = (if p = path then Inr i else catalog_open root p)"
  by (simp add: catalog_open_def)

text \<open>The rows of a page and the rows after its last sequence number are the unread rows.\<close>

lemma unread_split:
  assumes "outbox_ok db" and "page = tbl_scan (\<lambda>r. after < ob_sequence r) ob_sequence n (graph_projection_outbox db)"
    and "page \<noteq> []"
  shows "filter (\<lambda>r. after < ob_sequence r) (graph_projection_outbox db)
    = page @ filter (\<lambda>r. ob_sequence (last page) < ob_sequence r) (graph_projection_outbox db)"
proof -
  have page: "page = take n (sort_key ob_sequence (filter (\<lambda>r. after < ob_sequence r) (graph_projection_outbox db)))"
    using assms(2) by (simp add: tbl_scan_def)
  have "after < ob_sequence (last page)"
    using last_in_set [OF assms(3)] set_tbl_scan_subset [of "\<lambda>r. after < ob_sequence r" ob_sequence n] assms(2) by auto
  then have "filter (\<lambda>r. after < ob_sequence r \<and> ob_sequence (last page) < ob_sequence r) (graph_projection_outbox db)
      = filter (\<lambda>r. ob_sequence (last page) < ob_sequence r) (graph_projection_outbox db)"
    by (intro filter_cong) auto
  then show ?thesis
    using outbox_pages.scan_resume [OF assms(1) page assms(3)] unfolding sort_key_outbox [OF assms(1)] by simp
qed

section \<open>One batch\<close>

text \<open>A state of the worker: the graph is well formed, desired state reads back as recorded, and the
  consumer row names a generation that opens on an index that lags.\<close>

definition worker_ready ::
    "('i, 'w) tantivy \<Rightarrow> graph_env \<Rightarrow> catalog_env \<Rightarrow> u64 \<Rightarrow> graph_db \<Rightarrow> 'i catalog_root \<Rightarrow> bool" where
  "worker_ready tv env cenv g db root \<longleftrightarrow>
     graph_ok db \<and> (\<exists>row i. find_consumer db CATALOG_SCHEMA_ID = Some row \<and> word_of_int (c_index_generation row) = g
        \<and> catalog_open root (generation_path g) = Inr i \<and> index_lags tv env cenv db i)"

lemma worker_ready_consistent:
  assumes "worker_ready tv env cenv g db root"
  shows "graph_ok db" and "catalog_consistent tv env cenv db root"
  using assms by (auto simp: worker_ready_def catalog_consistent_def active_index_ok split: option.splits)

lemma list_all2_last: "list_all2 P xs ys \<Longrightarrow> xs \<noteq> [] \<Longrightarrow> P (last xs) (last ys)"
  by (induction rule: list_all2_induct) auto

text \<open>A page read at a consumer's cursor is the front of its unread rows, and the rows after its last sequence
  number are the rest.\<close>

lemma outbox_page:
  assumes ok: "graph_ok db" and row: "find_consumer db c = Some row"
    and read: "read_outbox env db (Some (MutationSeq (word_of_int (c_last_sequence row)))) n = Inr b" and "mb_mutations b \<noteq> []"
    and ms: "map (env_mutation_from_json env \<circ> ob_mutation_json)
        (filter (\<lambda>r. c_last_sequence row < ob_sequence r) (graph_projection_outbox db)) = map Some ms"
  obtains rest s where "ms = map sm_mutation (mb_mutations b) @ rest" "sm_sequence (last (mb_mutations b)) = MutationSeq s"
    "map (env_mutation_from_json env \<circ> ob_mutation_json)
       (filter (\<lambda>r. uint s < ob_sequence r) (graph_projection_outbox db)) = map Some rest"
proof -
  have obok: "outbox_ok db" using ok by (simp add: graph_ok_def store_ok_def)
  define page where "page = tbl_scan (\<lambda>r. c_last_sequence row < ob_sequence r) ob_sequence n (graph_projection_outbox db)"
  have "i64_try_from_u64 (word_of_int (c_last_sequence row) :: u64) = Some (c_last_sequence row)"
    using consumer_bounds [OF ok row] by (simp add: i64_try_from_u64_def uint_word_of_i64)
  then have all: "list_all2 (\<lambda>row m. sequenced_of_row env row = Inr m) page (mb_mutations b)"
    using read unfolding read_outbox_Inr page_def by simp
  have page: "page \<noteq> []" using all assms(4) by auto
  let ?rest = "filter (\<lambda>r. ob_sequence (last page) < ob_sequence r) (graph_projection_outbox db)"
  have split: "filter (\<lambda>r. c_last_sequence row < ob_sequence r) (graph_projection_outbox db) = page @ ?rest"
    by (rule unread_split [OF obok page_def page])
  have "map (env_mutation_from_json env \<circ> ob_mutation_json) page = map Some (map sm_mutation (mb_mutations b))"
    using all by (induction rule: list_all2_induct) (simp_all add: sequenced_of_row_Inr)
  with ms split obtain rest where rest: "ms = map sm_mutation (mb_mutations b) @ rest"
      "map (env_mutation_from_json env \<circ> ob_mutation_json) ?rest = map Some rest"
    by (metis (no_types, lifting) append_eq_map_conv map_append inj_map_eq_map inj_Some same_append_eq)
  have lastm: "sequenced_of_row env (last page) = Inr (last (mb_mutations b))"
    by (rule list_all2_last [OF all page])
  have "last page \<in> set (graph_projection_outbox db)"
    using last_in_set [OF page] split by (metis (no_types, lifting) Un_iff filter_is_subset set_append subsetD)
  then have lp: "0 \<le> ob_sequence (last page)" "ob_sequence (last page) \<le> i64_max"
    using obok by (auto simp: outbox_ok_def)
  define s where "s = (word_of_int (ob_sequence (last page)) :: u64)"
  have s: "sm_sequence (last (mb_mutations b)) = MutationSeq s" "uint s = ob_sequence (last page)"
    using lastm lp by (simp_all add: sequenced_of_row_Inr s_def uint_word_of_i64)
  show thesis by (rule that [OF rest(1) s(1)]) (use rest(2) s(2) in simp)
qed

lemma run_batch_ready:
  assumes laws: "tantivy_laws tv" and ready: "worker_ready tv env cenv g db root"
    and run: "run_batch tv env cenv opts g db root = (db', root', r)"
  shows "worker_ready tv env cenv g db' root' \<and> same_but_consumers db db'"
proof -
  obtain row i idx ms where ok: "graph_ok db" and row: "find_consumer db CATALOG_SCHEMA_ID = Some row"
    and g: "word_of_int (c_index_generation row) = g" and opened: "catalog_open root (generation_path g) = Inr i"
    and rep: "represents cenv (tv_documents tv i) idx"
    and ms: "map (env_mutation_from_json env \<circ> ob_mutation_json)
        (filter (\<lambda>r. c_last_sequence row < ob_sequence r) (graph_projection_outbox db)) = map Some ms"
    and agrees: "index_agrees env (replay idx ms) db"
    using ready unfolding worker_ready_def index_lags_def by (metis option.inject)
  have committed: "index_lags tv env cenv db j" if "represents cenv (tv_documents tv j) (replay idx ns)" "ms = ns @ rest" for j ns rest
  proof -
    have "replay (replay idx ns) ms = replay idx ms" using that(2) by simp
    then show ?thesis unfolding index_lags_def using row that(1) ms agrees by (metis (no_types, lifting))
  qed
  define batch where "batch = read_outbox env db (Some (MutationSeq (word_of_int (c_last_sequence row)))) (unat (po_maximum_batch_mutations opts))"
  note run' = run [unfolded run_batch_def projector_checkpoint_ok [OF ok] row, simplified, folded batch_def, unfolded opened, simplified]
  show ?thesis
  proof (cases "\<exists>b w w' j. batch = Inr b \<and> mb_mutations b \<noteq> [] \<and> tv_writer tv i (po_writer_heap_bytes opts) = Some w
      \<and> fold_r (writer_apply tv cenv) w (map sm_mutation (mb_mutations b)) = Inr w' \<and> tv_commit tv w' = Some j
      \<and> root' = root(generation_path g \<mapsto> \<lparr>gd_marker = Some CATALOG_SCHEMA_ID, gd_index = Some j\<rparr>)
      \<and> (db' = db \<or> acknowledge_projection db CATALOG_SCHEMA_ID (sm_sequence (last (mb_mutations b))) g = Inr db')")
    case False
    then have "db' = db \<and> root' = root" using run'
      by (auto simp: catalog_commit_def last_sequence_def split: sum.splits option.splits if_splits)
    then show ?thesis using ready by simp
  next
    case True
    then obtain b w w' j where b: "batch = Inr b" "mb_mutations b \<noteq> []" "tv_writer tv i (po_writer_heap_bytes opts) = Some w"
        "fold_r (writer_apply tv cenv) w (map sm_mutation (mb_mutations b)) = Inr w'" "tv_commit tv w' = Some j"
        "root' = root(generation_path g \<mapsto> \<lparr>gd_marker = Some CATALOG_SCHEMA_ID, gd_index = Some j\<rparr>)"
      and db': "db' = db \<or> acknowledge_projection db CATALOG_SCHEMA_ID (sm_sequence (last (mb_mutations b))) g = Inr db'"
      by blast
    let ?ns = "map sm_mutation (mb_mutations b)"
    obtain rest s where rest: "ms = ?ns @ rest" "sm_sequence (last (mb_mutations b)) = MutationSeq s"
        "map (env_mutation_from_json env \<circ> ob_mutation_json)
           (filter (\<lambda>r. uint s < ob_sequence r) (graph_projection_outbox db)) = map Some rest"
      by (rule outbox_page [OF ok row b(1) [unfolded batch_def] b(2) ms])
    have "mset (tv_pending tv w) = mset (tv_documents tv i)" "mset (tv_documents tv j) = mset (tv_pending tv w')"
      using laws b(3,5) by (simp_all add: tantivy_laws_def)
    then have repj: "represents cenv (tv_documents tv j) (replay idx ?ns)"
      using writer_applies_represents [OF laws b(4) represents_mset [OF rep]] represents_mset by metis
    have openj: "catalog_open root' (generation_path g) = Inr j" by (simp add: b(6) catalog_open_upd)
    from db' show ?thesis
    proof
      assume "db' = db"
      then show ?thesis unfolding worker_ready_def using ok row g openj committed [OF repj rest(1)] by auto
    next
      assume ack: "acknowledge_projection db CATALOG_SCHEMA_ID (sm_sequence (last (mb_mutations b))) g = Inr db'"
      note same = acknowledge_same [OF ack]
      note after = acknowledge_projection_ok [OF ok same(2) ack [unfolded rest(2)]]
      have "index_lags tv env cenv db' j"
        unfolding index_lags_def using after(2) [of CATALOG_SCHEMA_ID] repj rest(1,3) agrees
          same_but_consumers_reads(3) [OF same(1)] same_but_consumers_reads(5) [OF same(1)] by auto
      then show ?thesis unfolding worker_ready_def using after(1) after(2) [of CATALOG_SCHEMA_ID] openj same(1) by simp
    qed
  qed
qed

lemma run_loop_ready:
  assumes "tantivy_laws tv" and "worker_ready tv env cenv g db root"
    and "run_loop tv env cenv opts elapsed g n db root applied = (db', root', r)"
  shows "worker_ready tv env cenv g db' root' \<and> same_but_consumers db db'"
  using assms(2,3)
proof (induction n arbitrary: db root applied)
  case (Suc n)
  obtain db1 root1 r1 where b: "run_batch tv env cenv opts g db root = (db1, root1, r1)" by (metis prod_cases3)
  note ready = run_batch_ready [OF assms(1) Suc.prems(1) b]
  show ?case
  proof (cases "po_maximum_run_time opts \<le> elapsed n \<or> (\<exists>e. r1 = Inl e) \<or> r1 = Inr None")
    case True
    then have "(db', root') = (db, root) \<or> (db', root') = (db1, root1)"
      using Suc.prems(2) b by (auto split: if_splits)
    then show ?thesis using ready Suc.prems(1) by auto
  next
    case False
    then obtain k where "r1 = Inr (Some k)" by (cases r1) auto
    with False b Suc.prems(2) have "run_loop tv env cenv opts elapsed g n db1 root1 (applied + k) = (db', root', r)" by simp
    from Suc.IH [OF _ this] ready show ?thesis using same_but_consumers_trans by blast
  qed
qed simp

section \<open>Recovery\<close>

text \<open>Generation \<open>g\<close> was created, filled, committed and acknowledged at the end of the outbox.\<close>

definition rebuilt ::
    "('i, 'w) tantivy \<Rightarrow> graph_env \<Rightarrow> catalog_env \<Rightarrow> ProjectionWorkerOptions \<Rightarrow> graph_db \<Rightarrow> graph_db \<Rightarrow> 'i catalog_root \<Rightarrow>
     u64 \<Rightarrow> bool" where
  "rebuilt tv env cenv opts db db' root' g \<longleftrightarrow>
     (\<exists>i w w' j s. tv_create tv = Some i \<and> tv_writer tv i (po_writer_heap_bytes opts) = Some w
        \<and> rebuild_pages tv env cenv db (po_rebuild_page_size opts) w None = Some (Inr w') \<and> tv_commit tv w' = Some j
        \<and> catalog_open root' (generation_path g) = Inr j \<and> latest_outbox_sequence db = Inr s
        \<and> acknowledge_projection db CATALOG_SCHEMA_ID s g = Inr db')"

lemma rebuild_outcome:
  assumes "rebuild tv env cenv io opts db root m = Some (db', root', r)"
  obtains g where "next_unused_generation root m = Some g"
    and "\<And>p. p \<noteq> generation_path g \<Longrightarrow> root' p = root p"
    and "(\<exists>e. r = Inl e \<and> db' = db) \<or> (r = Inr (RebuiltGeneration, g) \<and> rebuilt tv env cenv opts db db' root' g)"
proof -
  obtain g where g: "next_unused_generation root m = Some g"
    using assms by (cases "next_unused_generation root m") (simp_all add: rebuild_def)
  obtain root1 c where c: "catalog_create tv io root (generation_path g) = (root1, c)" by fastforce
  have c1: "root1 p = root p" if "p \<noteq> generation_path g" for p
    using c that by (auto simp: catalog_create_def split: if_splits option.splits)
  show ?thesis
  proof (cases "\<exists>i w w'. c = Inr i \<and> tv_writer tv i (po_writer_heap_bytes opts) = Some w
      \<and> rebuild_pages tv env cenv db (po_rebuild_page_size opts) w None = Some (Inr w')")
    case False
    have "db' = db \<and> root' = root1 \<and> (\<exists>e. r = Inl e)"
    proof (cases c)
      case (Inl e)
      then show ?thesis using assms g c by (auto simp: rebuild_def)
    next
      case i: (Inr i)
      show ?thesis
      proof (cases "tv_writer tv i (po_writer_heap_bytes opts)")
        case None
        then show ?thesis using assms g c i by (auto simp: rebuild_def)
      next
        case (Some w)
        then have "Option.bind (rebuild_pages tv env cenv db (po_rebuild_page_size opts) w None)
            (case_sum (\<lambda>e. Some (db, root1, Inl e)) (\<lambda>w'. Some (publish_rebuild tv db root1 g w'))) = Some (db', root', r)"
          using assms g c i by (simp add: rebuild_def)
        then obtain q where "rebuild_pages tv env cenv db (po_rebuild_page_size opts) w None = Some q"
            "case_sum (\<lambda>e. Some (db, root1, Inl e)) (\<lambda>w'. Some (publish_rebuild tv db root1 g w')) q = Some (db', root', r)"
          by (auto simp: bind_eq_Some_conv)
        then show ?thesis using False i Some by (cases q) auto
      qed
    qed
    then show ?thesis using that [OF g] c1 by blast
  next
    case True
    then obtain i w w' where w: "c = Inr i" "tv_writer tv i (po_writer_heap_bytes opts) = Some w"
        "rebuild_pages tv env cenv db (po_rebuild_page_size opts) w None = Some (Inr w')" by blast
    have pub: "publish_rebuild tv db root1 g w' = (db', root', r)"
      using assms g c w by (simp add: rebuild_def)
    have create: "tv_create tv = Some i" using c w(1) by (auto simp: catalog_create_def split: if_splits option.splits)
    obtain root2 k where k: "catalog_commit tv root1 (generation_path g) w' = (root2, k)" by fastforce
    have root': "root' = root2" using pub k by (auto simp: publish_rebuild_def split: sum.splits)
    have frame: "root' p = root p" if "p \<noteq> generation_path g" for p
      using k c1 [OF that] that unfolding root' by (auto elim!: catalog_commit_cases)
    have "(\<exists>e. r = Inl e \<and> db' = db) \<or> (r = Inr (RebuiltGeneration, g) \<and> (\<exists>j s. tv_commit tv w' = Some j
        \<and> catalog_open root' (generation_path g) = Inr j \<and> latest_outbox_sequence db = Inr s
        \<and> acknowledge_projection db CATALOG_SCHEMA_ID s g = Inr db'))"
      using pub k unfolding root'
      by (auto elim!: catalog_commit_cases simp: publish_rebuild_def catalog_open_upd split: sum.splits)
    then have "(\<exists>e. r = Inl e \<and> db' = db) \<or> (r = Inr (RebuiltGeneration, g) \<and> rebuilt tv env cenv opts db db' root' g)"
      unfolding rebuilt_def using create w by blast
    then show ?thesis using that [OF g frame] by blast
  qed
qed

lemma rebuild_returns:
  assumes "tantivy_laws tv" and "schema_ok db" and "recorded_current env db" and "0 < po_rebuild_page_size opts"
    and "m \<le> h" and "root (generation_path h) = None"
  shows "\<exists>x. rebuild tv env cenv io opts db root m = Some x"
proof -
  obtain g where g: "next_unused_generation root m = Some g" using next_unused_generation_returns [of m h root] assms(5,6) by blast
  have "\<exists>r. rebuild_pages tv env cenv db (po_rebuild_page_size opts) w None = Some r"
    if "tv_create tv = Some i" "tv_writer tv i n = Some w" for i n w
  proof -
    have "tv_documents tv i = []" "mset (tv_pending tv w) = mset (tv_documents tv i)"
      using assms(1) that by (simp_all add: tantivy_laws_def)
    then have "represents cenv (tv_pending tv w) (\<lambda>_. None)" using represents_empty by simp
    then show ?thesis
      using rebuild_pages_represent [OF assms(1-4), where after = None and seen = "[]" and cenv = cenv and w = w] by auto
  qed
  note pages = this
  obtain root1 c where c: "catalog_create tv io root (generation_path g) = (root1, c)" by fastforce
  show ?thesis
  proof (cases c)
    case (Inl e)
    then show ?thesis using g c by (simp add: rebuild_def)
  next
    case (Inr i)
    then have create: "tv_create tv = Some i" using c by (auto simp: catalog_create_def split: if_splits option.splits)
    show ?thesis
    proof (cases "tv_writer tv i (po_writer_heap_bytes opts)")
      case None
      then show ?thesis using g c Inr by (simp add: rebuild_def)
    next
      case (Some w)
      from pages [OF create this] obtain r where
        "rebuild_pages tv env cenv db (po_rebuild_page_size opts) w None = Some r" by blast
      then show ?thesis using g c Inr Some by (cases r) (simp_all add: rebuild_def del: split_paired_Ex)
    qed
  qed
qed

lemma rebuild_ready:
  assumes laws: "tantivy_laws tv" and ok: "graph_ok db" and "recorded_current env db" and "0 < po_rebuild_page_size opts"
    and "rebuild tv env cenv io opts db root m = Some (db', root', Inr (k, g))"
  shows "worker_ready tv env cenv g db' root' \<and> same_but_consumers db db'"
proof -
  have schema: "schema_ok db" using ok by (simp add: graph_ok_def store_ok_def)
  have "rebuilt tv env cenv opts db db' root' g"
    by (rule rebuild_outcome [OF assms(5)]) auto
  then obtain i w w' j s where w: "tv_create tv = Some i"
      "tv_writer tv i (po_writer_heap_bytes opts) = Some w"
      "rebuild_pages tv env cenv db (po_rebuild_page_size opts) w None = Some (Inr w')" "tv_commit tv w' = Some j"
    and openj: "catalog_open root' (generation_path g) = Inr j" and s: "latest_outbox_sequence db = Inr s"
    and ack: "acknowledge_projection db CATALOG_SCHEMA_ID s g = Inr db'"
    unfolding rebuilt_def by blast
  have "tv_documents tv i = []" "mset (tv_pending tv w) = mset (tv_documents tv i)" "mset (tv_documents tv j) = mset (tv_pending tv w')"
    using laws w(1,2,4) by (simp_all add: tantivy_laws_def)
  then have "represents cenv (tv_pending tv w) (\<lambda>_. None)" and repr: "\<And>x. represents cenv (tv_pending tv w') x \<Longrightarrow> represents cenv (tv_documents tv j) x"
    using represents_empty represents_mset by (simp, metis)
  let ?idx = "replay (\<lambda>_. None) (map Upsert (map (row_document env) (desired_rows db)))"
  have "represents cenv (tv_pending tv w') ?idx"
    using rebuild_pages_represent [OF laws schema assms(3,4), where after = None and seen = "[]" and cenv = cenv and w = w] w(3) \<open>represents cenv (tv_pending tv w) _\<close>
    by simp
  then have repj: "represents cenv (tv_documents tv j) ?idx" by (rule repr)
  have hw: "s = MutationSeq (word_of_int (high_water db))" using s latest_outbox_sequence_ok [OF ok] by simp
  have "0 \<le> high_water db" "high_water db \<le> i64_max" using ok by (simp_all add: graph_ok_def store_ok_def outbox_ok_def)
  then have hwu: "uint (word_of_int (high_water db) :: u64) = high_water db" by (rule uint_word_of_i64)
  note same = acknowledge_same [OF ack]
  note after = acknowledge_projection_ok [OF ok same(2) ack [unfolded hw]]
  have "filter (\<lambda>r. high_water db < ob_sequence r) (graph_projection_outbox db) = []"
    using ok by (auto simp: graph_ok_def store_ok_def outbox_ok_def filter_empty_conv not_less)
  then have "index_lags tv env cenv db' j"
    unfolding index_lags_def
    using after(2) [of CATALOG_SCHEMA_ID] hwu repj rebuilt_agrees [OF schema assms(3)]
      same_but_consumers_reads(3) [OF same(1)] same_but_consumers_reads(5) [OF same(1)]
    by (intro exI conjI) (rule refl | simp)+
  then show ?thesis unfolding worker_ready_def using after(1) after(2) [of CATALOG_SCHEMA_ID] openj same(1) by simp
qed

lemma recover_ready:
  assumes laws: "tantivy_laws tv" and ok: "graph_ok db" and current: "isl (active_index db root) \<Longrightarrow> recorded_current env db" and "0 < po_rebuild_page_size opts"
    and cons: "catalog_consistent tv env cenv db root"
    and rec: "recover tv env cenv io opts db root = Some (db', root', r)"
  shows "same_but_consumers db db' \<and> (case r of
      Inl _ \<Rightarrow> db' = db \<and> catalog_consistent tv env cenv db root'
    | Inr (_, g) \<Rightarrow> worker_ready tv env cenv g db' root')"
proof (cases "active_index db root")
  case (Inr i)
  then obtain row where row: "find_consumer db CATALOG_SCHEMA_ID = Some row"
      "catalog_open root (generation_path (word_of_int (c_index_generation row))) = Inr i"
    by (auto simp: active_index_ok [OF ok] split: option.splits sum.splits)
  have "worker_ready tv env cenv (word_of_int (c_index_generation row)) db root"
    unfolding worker_ready_def using ok row cons Inr by (auto simp: catalog_consistent_def)
  then show ?thesis using rec row by (auto simp: recover_def projector_checkpoint_ok [OF ok])
next
  case (Inl e)
  then have current': "recorded_current env db" using current by simp
  obtain m where m: "rebuild tv env cenv io opts db root m = Some (db', root', r)"
      and above: "\<And>row. find_consumer db CATALOG_SCHEMA_ID = Some row \<Longrightarrow>
        m = saturating_add (word_of_int (c_index_generation row)) 1"
    using rec Inl by (auto simp: recover_def projector_checkpoint_ok [OF ok] active_index_ok [OF ok] split: option.splits sum.splits)
  show ?thesis
  proof (cases r)
    case (Inr x)
    obtain k g where "x = (k, g)" by fastforce
    then show ?thesis using rebuild_ready [OF laws ok current' assms(4)] m Inr by simp
  next
    case (Inl e')
    with rebuild_outcome [OF m] obtain g where g: "next_unused_generation root m = Some g"
        "\<And>p. p \<noteq> generation_path g \<Longrightarrow> root' p = root p" "db' = db" by (metis Inl_Inr_False)
    have "catalog_open root' (generation_path (word_of_int (c_index_generation row)))
        = catalog_open root (generation_path (word_of_int (c_index_generation row)))"
      if "find_consumer db CATALOG_SCHEMA_ID = Some row" for row
    proof -
      let ?old = "word_of_int (c_index_generation row) :: u64"
      have "row \<in> set (graph_projection_consumers db)" using that by (auto dest: tbl_find_Some)
      then have "0 \<le> c_index_generation row" "c_index_generation row \<le> i64_max"
        using ok by (auto simp: graph_ok_def store_ok_def schema_ok_def checks_ok_def)
      then have "unat ?old < 2 ^ 63" by (simp add: unat_word_of_i64 i64_max_def nat_less_iff)
      then have "unat m = unat ?old + 1" using above [OF that] by (simp add: unat_saturating_add)
      moreover have "m \<le> g" using next_unused_generation_Some [OF g(1)] by simp
      ultimately have "g \<noteq> ?old" by (auto simp: word_le_nat_alt)
      then have "generation_path ?old \<noteq> generation_path g" by simp
      then show ?thesis using g(2) by (simp add: catalog_open_def)
    qed
    then have "active_index db root' = active_index db root"
      by (cases "find_consumer db CATALOG_SCHEMA_ID") (simp_all add: active_index_ok [OF ok])
    then show ?thesis using Inl g(3) cons by (simp add: catalog_consistent_def)
  qed
qed

section \<open>Whole runs\<close>

lemma run_cases:
  assumes "run tv env cenv io opts elapsed db root = Some (db', root', r)"
  obtains "db' = db" "root' = root" "r = Inl WorkerIo"
  | e where "recover tv env cenv io opts db root = Some (db', root', Inl e)" "r = Inl e"
  | db1 root1 k g x where "recover tv env cenv io opts db root = Some (db1, root1, Inr (k, g))"
      "run_loop tv env cenv opts elapsed g (unat (po_maximum_batches opts)) db1 root1 0 = (db', root', x)"
      "case x of Inl e \<Rightarrow> r = Inl e
         | Inr (unused, applied) \<Rightarrow> r = run_summary db' k g (unat (po_maximum_batches opts) - unused) applied"
proof (cases "io_create_root io")
  case False
  then show ?thesis using assms that(1) by (simp add: run_def)
next
  case True
  with assms obtain db1 root1 y where rec: "recover tv env cenv io opts db root = Some (db1, root1, y)"
    by (auto simp: run_def bind_eq_Some_conv)
  show ?thesis
  proof (cases y)
    case (Inl e)
    then show ?thesis using assms True rec that(2) by (simp add: run_def)
  next
    case (Inr kg)
    obtain k g where kg: "kg = (k, g)" by fastforce
    obtain db2 root2 x where loop:
      "run_loop tv env cenv opts elapsed g (unat (po_maximum_batches opts)) db1 root1 0 = (db2, root2, x)"
      by (metis prod_cases3)
    have "db2 = db'" "root2 = root'" "case x of Inl e \<Rightarrow> r = Inl e
         | Inr (unused, applied) \<Rightarrow> r = run_summary db' k g (unat (po_maximum_batches opts) - unused) applied"
      using assms True rec Inr kg loop by (auto simp: run_def split: sum.splits)
    then show ?thesis using that(3) rec Inr kg loop by blast
  qed
qed

lemma run_ready:
  assumes "tantivy_laws tv" and "graph_ok db" and "isl (active_index db root) \<longrightarrow> recorded_current env db" and "0 < po_rebuild_page_size opts"
    and "catalog_consistent tv env cenv db root"
    and "run tv env cenv io opts elapsed db root = Some (db', root', r)"
  shows "graph_ok db' \<and> same_but_consumers db db' \<and> catalog_consistent tv env cenv db' root'
    \<and> (\<forall>s. r = Inr s \<longrightarrow> worker_ready tv env cenv (ps_index_generation s) db' root')"
  using assms(6)
proof (cases rule: run_cases)
  case 1
  then show ?thesis using assms(2,5) by simp
next
  case (2 e)
  then show ?thesis using recover_ready [OF assms(1,2) mp [OF assms(3)] assms(4,5) 2(1)] assms(2) by simp
next
  case (3 db1 root1 k g x)
  have ready: "worker_ready tv env cenv g db1 root1" "same_but_consumers db db1"
    using recover_ready [OF assms(1,2) mp [OF assms(3)] assms(4,5) 3(1)] by simp_all
  have final: "worker_ready tv env cenv g db' root'" "same_but_consumers db1 db'"
    using run_loop_ready [OF assms(1) ready(1) 3(2)] by simp_all
  have "ps_index_generation s = g" if "r = Inr s" for s
    using 3(3) that
    by (auto simp: run_summary_def projector_checkpoint_ok [OF worker_ready_consistent(1) [OF final(1)]]
        latest_outbox_sequence_ok [OF worker_ready_consistent(1) [OF final(1)]] split: sum.splits option.splits)
  then show ?thesis
    using final worker_ready_consistent [OF final(1)] same_but_consumers_trans [OF ready(2) final(2)] by auto
qed

lemma run_returns:
  assumes "tantivy_laws tv" and "graph_ok db" and "isl (active_index db root) \<longrightarrow> recorded_current env db" and "0 < po_rebuild_page_size opts"
    and "root (generation_path (- 1)) = None"
  shows "\<exists>x. run tv env cenv io opts elapsed db root = Some x"
proof -
  have "schema_ok db" using assms(2) by (simp add: graph_ok_def store_ok_def)
  then have reb: "\<exists>x. rebuild tv env cenv io opts db root m = Some x" if "isl (active_index db root)" for m
    using rebuild_returns [OF assms(1) _ _ assms(4), of db env m "- 1" root] assms(3,5) that by simp
  have "\<exists>x. recover tv env cenv io opts db root = Some x"
  proof (cases "active_index db root")
    case (Inl e)
    then have "isl (active_index db root)" by simp
    from reb [OF this] show ?thesis
      by (auto simp: recover_def projector_checkpoint_ok [OF assms(2)] split: option.splits sum.splits)
  next
    case (Inr i)
    then show ?thesis
      by (auto simp: recover_def projector_checkpoint_ok [OF assms(2)] active_index_ok [OF assms(2)] split: option.splits sum.splits)
  qed
  then show ?thesis by (auto simp: run_def split: sum.splits prod.splits)
qed

text \<open>A run that reports no backlog has read every row, and an index that has no rows left to read agrees with
  desired state.\<close>

lemma run_caught_up:
  assumes "run tv env cenv io opts elapsed db root = Some (db', root', Inr s)" and "\<not> ps_backlog_remaining s"
    and ok: "graph_ok db'" and row: "find_consumer db' CATALOG_SCHEMA_ID = Some row"
  shows "high_water db' \<le> c_last_sequence row"
proof -
  from assms(1) obtain k g unused applied where
    "run_summary db' k g (unat (po_maximum_batches opts) - unused) applied = Inr s"
  proof (cases rule: run_cases)
    case (3 db1 root1 k g x)
    then show ?thesis using that by (cases x) auto
  qed simp_all
  then have "\<not> (word_of_int (c_last_sequence row) :: u64) < word_of_int (high_water db')"
    using assms(2) row
    by (auto simp: run_summary_def projector_checkpoint_ok [OF ok] latest_outbox_sequence_ok [OF ok])
  then show ?thesis using consumer_bounds [OF ok row] by (simp add: word_less_def uint_word_of_i64)
qed

lemma lag_free:
  assumes "graph_ok db" and "index_lags tv env cenv db i" and "find_consumer db CATALOG_SCHEMA_ID = Some row"
    and "high_water db \<le> c_last_sequence row"
  shows "\<exists>idx. represents cenv (tv_documents tv i) idx \<and> index_agrees env idx db"
proof -
  have none: "filter (\<lambda>r. c_last_sequence row < ob_sequence r) (graph_projection_outbox db) = []"
    using assms(1,4) by (auto simp: graph_ok_def store_ok_def outbox_ok_def filter_empty_conv not_less)
  obtain idx ms where idx: "represents cenv (tv_documents tv i) idx"
      "map (env_mutation_from_json env \<circ> ob_mutation_json)
        (filter (\<lambda>r. c_last_sequence row < ob_sequence r) (graph_projection_outbox db)) = map Some ms"
      "index_agrees env (replay idx ms) db"
    using assms(2,3) by (auto simp: index_lags_def)
  have "ms = []" using idx(2) none by simp
  then show ?thesis using idx(1,3) by auto
qed

section \<open>The directories a run uses\<close>

definition unused_from :: "nat \<Rightarrow> 'i catalog_root \<Rightarrow> bool" where
  "unused_from n root \<longleftrightarrow> (\<forall>h. n \<le> unat h \<longrightarrow> root (generation_path h) = None)"

lemma run_batch_used: "run_batch tv env cenv opts g db root = (db', root', r) \<Longrightarrow> root' p = None \<longleftrightarrow> root p = None"
  by (auto simp: run_batch_def catalog_open_def catalog_commit_def split: sum.splits option.splits if_splits)

lemma run_loop_used:
  "run_loop tv env cenv opts elapsed g n db root applied = (db', root', r) \<Longrightarrow> root' p = None \<longleftrightarrow> root p = None"
proof (induction n arbitrary: db root applied)
  case (Suc n)
  obtain db1 root1 r1 where b: "run_batch tv env cenv opts g db root = (db1, root1, r1)" by (metis prod_cases3)
  show ?case
  proof (cases "po_maximum_run_time opts \<le> elapsed n \<or> (\<exists>e. r1 = Inl e) \<or> r1 = Inr None")
    case True
    then show ?thesis using Suc.prems b run_batch_used [OF b] by (auto split: if_splits)
  next
    case False
    then obtain k where "r1 = Inr (Some k)" by (cases r1) auto
    with False b Suc show ?thesis using run_batch_used [OF b] by simp
  qed
qed simp

lemma rebuild_unused_from:
  assumes "rebuild tv env cenv io opts db root m = Some (db', root', r)"
    and "unat m \<le> n" "n < 2 ^ 64" "unused_from n root"
  shows "unused_from (Suc n) root'"
proof -
  obtain g where g: "next_unused_generation root m = Some g" "\<And>p. p \<noteq> generation_path g \<Longrightarrow> root' p = root p"
    using assms(1) by (rule rebuild_outcome) blast
  have "unat g \<le> n"
  proof (rule ccontr)
    assume "\<not> unat g \<le> n"
    moreover have "unat (of_nat n :: u64) = n" using assms(3) by (simp add: unat_of_nat)
    ultimately have "m \<le> of_nat n" "(of_nat n :: u64) < g" using assms(2) by (simp_all add: word_le_nat_alt word_less_nat_alt)
    then have "root (generation_path (of_nat n)) \<noteq> None" using next_unused_generation_Some [OF g(1)] by blast
    then show False using assms(4) \<open>unat (of_nat n :: u64) = n\<close> by (auto simp: unused_from_def)
  qed
  then have "h \<noteq> g" if "Suc n \<le> unat h" for h using that by auto
  then have "root' (generation_path h) = root (generation_path h)" if "Suc n \<le> unat h" for h using that g(2) by simp
  then show ?thesis using assms(4) by (simp add: unused_from_def)
qed

lemma run_unused_from:
  assumes "graph_ok db" and "run tv env cenv io opts elapsed db root = Some (db', root', r)"
    and "2 ^ 63 \<le> n" "n < 2 ^ 64" "unused_from n root"
  shows "unused_from (Suc n) root'"
proof -
  have weaken: "unused_from (Suc n) root" using assms(5) by (simp add: unused_from_def)
  have low: "unat (saturating_add (word_of_int (c_index_generation row)) 1 :: u64) \<le> n"
    if "find_consumer db CATALOG_SCHEMA_ID = Some row" for row
  proof -
    have "row \<in> set (graph_projection_consumers db)" using that by (auto dest: tbl_find_Some)
    then have "0 \<le> c_index_generation row" "c_index_generation row \<le> i64_max"
      using assms(1) by (auto simp: graph_ok_def store_ok_def schema_ok_def checks_ok_def)
    then have "unat (word_of_int (c_index_generation row) :: u64) < 2 ^ 63"
      by (simp add: unat_word_of_i64 i64_max_def nat_less_iff)
    then show ?thesis using assms(3) by (simp add: unat_saturating_add)
  qed
  have one: "unat (1 :: u64) \<le> n" using assms(3) by simp
  have rec: "unused_from (Suc n) root1" if "recover tv env cenv io opts db root = Some (db1, root1, x)" for db1 root1 x
    using that weaken low rebuild_unused_from [OF _ _ assms(4,5)] rebuild_unused_from [OF _ one assms(4,5)]
    by (auto simp: recover_def projector_checkpoint_ok [OF assms(1)] split: option.splits sum.splits)
  from assms(2) show ?thesis
  proof (cases rule: run_cases)
    case (3 db1 root1 k g x)
    show ?thesis using rec [OF 3(1)] run_loop_used [OF 3(2)] unfolding unused_from_def by blast
  qed (use rec weaken in auto)
qed

section \<open>What a run promises\<close>

text \<open>The projection worker never loses the graph. Started on a consistent catalog, with some
  generation number still unused (and with desired state readable as recorded when the generation
  has to be rebuilt), a run returns; and whatever its outcome, a failure at any point
  between reading the outbox, committing the index and acknowledging included, the graph changes
  only in its consumer rows, and the unread outbox rows replayed on the active index still give
  exactly desired state.\<close>

theorem run_keeps_catalog_consistent:
  assumes "tantivy_laws tv" and "graph_ok db" and "isl (active_index db root) \<longrightarrow> recorded_current env db" and "0 < po_rebuild_page_size opts"
    and "catalog_consistent tv env cenv db root" and "root (generation_path (- 1)) = None"
  shows "\<exists>db' root' r. run tv env cenv io opts elapsed db root = Some (db', root', r)
    \<and> graph_ok db' \<and> same_but_consumers db db' \<and> catalog_consistent tv env cenv db' root'"
proof -
  obtain db' root' r where "run tv env cenv io opts elapsed db root = Some (db', root', r)"
    using run_returns [OF assms(1-4,6)] by (metis prod_cases3)
  then show ?thesis using run_ready [OF assms(1-5)] by blast
qed


section \<open>Runs on an empty graph\<close>

definition sample_io :: worker_io where
  "sample_io = \<lparr>io_create_root = True, io_create_dir = (\<lambda>_. True), io_write_marker = (\<lambda>_. True)\<rparr>"

abbreviation (input) no_generations :: "TantivyDocument list catalog_root" where
  "no_generations \<equiv> \<lambda>_. None"

definition sample_run :: "(graph_db \<times> TantivyDocument list catalog_root \<times> (ProjectionWorkerError + ProjectionRunSummary)) option" where
  "sample_run = run list_tantivy (sample_env []) one_document_env sample_io default_worker_options (\<lambda>_. 0) empty_db no_generations"

lemma empty_recorded: "recorded_current env empty_db"
  by (simp add: recorded_current_def desired_catalog_document_def joined_rows_def List.map_filter_def projected_def
      empty_db_def)

lemma empty_consistent: "catalog_consistent tv env cenv empty_db (\<lambda>_. None)"
proof -
  have "find_consumer empty_db CATALOG_SCHEMA_ID = None" by (simp add: empty_db_def)
  then show ?thesis by (simp add: catalog_consistent_def active_index_ok [OF graph_ok_empty])
qed

theorem run_keeps_catalog_consistent_witness:
  "\<exists>db' root' r. sample_run = Some (db', root', r) \<and> graph_ok db'
     \<and> catalog_consistent list_tantivy (sample_env []) one_document_env db' root'"
  using run_keeps_catalog_consistent [OF list_tantivy_laws graph_ok_empty impI [OF empty_recorded] _ empty_consistent,
      of default_worker_options "sample_env []" one_document_env sample_io "\<lambda>_. 0"]
  by (auto simp: sample_run_def default_worker_options_def)

definition after_rebuild :: graph_db where
  "after_rebuild = empty_db\<lparr>graph_projection_consumers :=
     [\<lparr>c_consumer_id = CATALOG_SCHEMA_ID, c_last_sequence = 0, c_index_generation = 1\<rparr>]\<rparr>"

lemma sample_recover:
  "recover list_tantivy (sample_env []) one_document_env sample_io default_worker_options empty_db no_generations
     = Some (after_rebuild, [generation_path 1 \<mapsto> \<lparr>gd_marker = Some CATALOG_SCHEMA_ID, gd_index = Some []\<rparr>],
         Inr (RebuiltGeneration, 1))"
proof -
  have g: "next_unused_generation no_generations 1 = Some 1" by (subst next_unused_generation.simps) simp
  have page: "rebuild_pages list_tantivy (sample_env []) one_document_env empty_db n [] None = Some (Inr [])" for n
    by (subst rebuild_pages.simps)
       (simp add: desired_catalog_page_def tbl_scan_def joined_rows_def List.map_filter_def decode_documents_def empty_db_def)
  have ack: "acknowledge_projection empty_db CATALOG_SCHEMA_ID (MutationSeq 0) 1 = Inr after_rebuild"
      "latest_outbox_sequence empty_db = Inr (MutationSeq 0)" "projector_checkpoint empty_db CATALOG_SCHEMA_ID = Inr None"
    by code_simp+
  have tv: "tv_create list_tantivy = Some []" "tv_writer list_tantivy [] h = Some []" "tv_commit list_tantivy [] = Some []"
      "tv_wait_merging_threads list_tantivy []" for h
    by (simp_all add: list_tantivy_def)
  show ?thesis
    by (simp add: recover_def rebuild_def g catalog_create_def tv page publish_rebuild_def catalog_commit_def ack sample_io_def)
qed

lemma sample_run_value: "\<exists>root' s. sample_run = Some (after_rebuild, root', Inr s) \<and> \<not> ps_backlog_remaining s"
proof -
  have cp: "projector_checkpoint after_rebuild CATALOG_SCHEMA_ID = Inr (Some \<lparr>pr_consumer_id = CATALOG_SCHEMA_ID,
        pr_last_sequence = 0, pr_index_generation = 1\<rparr>)" "latest_outbox_sequence after_rebuild = Inr (MutationSeq 0)"
    by code_simp+
  have empty: "read_outbox (sample_env []) after_rebuild (Some (MutationSeq 0)) n = Inr \<lparr>mb_mutations = []\<rparr>" for n
    by (simp add: read_outbox_def after_rebuild_def empty_db_def tbl_scan_def i64_try_from_u64_def i64_max_def)
  have batch: "run_batch list_tantivy (sample_env []) one_document_env opts 1 after_rebuild root = (after_rebuild, root, Inr None)"
    for opts root
    by (simp add: run_batch_def cp empty)
  have "run_loop list_tantivy (sample_env []) one_document_env default_worker_options (\<lambda>_. 0) 1 (Suc n) after_rebuild root 0
      = (after_rebuild, root, Inr (Suc n, 0))" for n root
    by (simp add: batch default_worker_options_def)
  from this [of 99] have loop: "run_loop list_tantivy (sample_env []) one_document_env default_worker_options (\<lambda>_. 0) 1
      (unat (po_maximum_batches default_worker_options)) after_rebuild root 0 = (after_rebuild, root, Inr (100, 0))" for root
    by (simp add: default_worker_options_def)
  show ?thesis
    unfolding sample_run_def run_def sample_recover
    by (simp add: loop run_summary_def cp sample_io_def)
qed


end
