(* ===== verification/Graph_Observation.thy ===== *)
theory Graph_Observation
  imports Graph_Outbox "HOL-Library.Product_Lexorder"
begin

text \<open>
  Restart-safe observation scans (\<open>crates/filesystem-graph/src/store.rs\<close>): a full scan of a volume
  runs under a durable session. Beginning it raises the volume's generation, so that every row
  observed before is older than the scan; scan pages are ordinary batches; after the provider's final
  checkpoint is staged, bounded sweeps remove the links and tombstone the objects the scan did not
  see, and the last sweep activates the checkpoint and ends the session.

  Shown: beginning a scan makes every stored row of the volume stale and a page makes what it
  observes fresh; a sweep removes stale rows only, in pages of the requested size, keeps the schema
  and records every removed document in the outbox; the staged checkpoint is activated by the last
  sweep and not before; and repeated sweeps always end, after a number of calls that is computed
  from the stale rows, with exactly the fresh links left.
\<close>

section \<open>Sessions\<close>

definition session_merge :: "session_row \<Rightarrow> session_row \<Rightarrow> session_row" where
  "session_merge new old = old\<lparr>s_scan_generation := s_scan_generation new,
     s_scan_mode := s_scan_mode new, s_phase := Scanning, s_final_provider_id := None,
     s_final_format_version := None, s_final_checkpoint := None\<rparr>"

definition upsert_session :: "graph_db \<Rightarrow> session_row \<Rightarrow> graph_db graph_result" where
  "upsert_session db row =
     (if find_volume db (s_volume_id row) = None then Inl (Sqlite ConstraintForeignKey)
      else Inr (db\<lparr>graph_volume_observation_sessions :=
        tbl_upsert s_volume_id session_merge row (graph_volume_observation_sessions db)\<rparr>))"

definition update_volume ::
    "graph_db \<Rightarrow> VolumeId \<Rightarrow> VolumeState \<Rightarrow> ReconciliationReason option \<Rightarrow> i64 \<Rightarrow> graph_db" where
  "update_volume db v state reason generation = db\<lparr>graph_volumes :=
     tbl_update (\<lambda>r. v_volume_id r = v)
       (\<lambda>r. r\<lparr>v_state := state, v_reconciliation_reason := reason, v_generation := generation\<rparr>)
       (graph_volumes db)\<rparr>"

definition begin_transaction ::
    "graph_db \<Rightarrow> VolumeDescriptor \<Rightarrow> ObservationScanMode \<Rightarrow> ReconciliationReason \<Rightarrow>
     (graph_db \<times> i64) graph_result" where
  "begin_transaction db descriptor mode reason =
     (let v = vd_volume_id descriptor in
      and_then (ok_or (checked_add_i64 (current_generation db v) 1)
                  (NumericRange ''observation scan generation'')) (\<lambda>scan_generation.
      and_then (enqueue_volume_projection_refresh
                  (update_volume (upsert_volume db descriptor) v NeedsReconciliation (Some reason)
                     scan_generation) v scan_generation) (\<lambda>(db1, _).
      and_then (upsert_session db1
                  \<lparr>s_volume_id = v, s_scan_generation = scan_generation, s_scan_mode = mode,
                   s_phase = Scanning, s_final_provider_id = None, s_final_format_version = None,
                   s_final_checkpoint = None\<rparr>) (\<lambda>db2.
      Inr (db2, scan_generation)))))"

definition begin_observation_scan ::
    "graph_db \<Rightarrow> VolumeDescriptor \<Rightarrow> ObservationScanMode \<Rightarrow> ReconciliationReason \<Rightarrow>
     graph_db \<times> ObservationSession graph_result" where
  "begin_observation_scan db descriptor mode reason =
     (case transact db (begin_transaction db descriptor mode reason) of
        (db', Inl e) \<Rightarrow> (db', Inl e)
      | (db', Inr scan_generation) \<Rightarrow>
          (db', and_then (ok_or (u64_try_from_i64 scan_generation)
                            (NumericRange ''observation scan generation'')) (\<lambda>g.
             Inr \<lparr>os_volume_id = vd_volume_id descriptor, os_scan_generation = g, os_mode = mode,
                  os_phase = Scanning\<rparr>)))"

definition observation_session :: "graph_db \<Rightarrow> VolumeId \<Rightarrow> ObservationSession option graph_result" where
  "observation_session db v =
     (case find_session db v of
        None \<Rightarrow> Inr None
      | Some row \<Rightarrow>
          and_then (ok_or (u64_try_from_i64 (s_scan_generation row)) (Sqlite FromSqlConversionFailure)) (\<lambda>g.
          Inr (Some \<lparr>os_volume_id = v, os_scan_generation = g, os_mode = s_scan_mode row,
                     os_phase = s_phase row\<rparr>)))"

definition observation_scan_checkpoint :: "ObservationSession \<Rightarrow> ProviderCheckpoint" where
  "observation_scan_checkpoint session =
     \<lparr>pc_provider_id = ''localsearch-observation-scan'', pc_format_version = 1,
      pc_volume_id = os_volume_id session,
      pc_opaque = be_bytes 8 (unat (os_scan_generation session))\<rparr>"

definition apply_observation_scan_page ::
    "graph_env \<Rightarrow> graph_db \<Rightarrow> VolumeId \<Rightarrow> FilesystemEvent list \<Rightarrow> graph_db \<times> ApplySummary graph_result" where
  "apply_observation_scan_page env db v events =
     (case observation_session db v of
        Inl e \<Rightarrow> (db, Inl e)
      | Inr None \<Rightarrow> (db, Inl (Invariant ''observation scan page has no durable session''))
      | Inr (Some session) \<Rightarrow>
          if os_phase session \<noteq> Scanning
          then (db, Inl (Invariant ''observation scan page arrived after finalization started''))
          else if events = []
          then (db, Inr \<lparr>as_mutations = 0, as_generation = os_scan_generation session,
                         as_refresh_jobs_enqueued = 0, as_outbox_mutations_appended = 0\<rparr>)
          else apply_batch env db (from_events v (observation_scan_checkpoint session) events))"

definition stage_observation_checkpoint ::
    "graph_db \<Rightarrow> VolumeId \<Rightarrow> ProviderCheckpoint \<Rightarrow> graph_db \<times> unit graph_result" where
  "stage_observation_checkpoint db v cp =
     (if pc_volume_id cp \<noteq> v then (db, Inl (InvalidBatch ''observation checkpoint crosses volumes''))
      else
        let p = (\<lambda>s. s_volume_id s = v \<and> s_phase s = Scanning)
        in (db\<lparr>graph_volume_observation_sessions := tbl_update p
              (\<lambda>s. s\<lparr>s_phase := SweepingLinks, s_final_provider_id := Some (pc_provider_id cp),
                     s_final_format_version := Some (uint (pc_format_version cp)),
                     s_final_checkpoint := Some (pc_opaque cp)\<rparr>)
              (graph_volume_observation_sessions db)\<rparr>,
            require_single_update (tbl_count p (graph_volume_observation_sessions db))
              ''observation checkpoint has no scanning session''))"

section \<open>Sweeps\<close>

definition stale_link :: "VolumeId \<Rightarrow> i64 \<Rightarrow> link_row \<Rightarrow> bool" where
  "stale_link v cutoff r \<longleftrightarrow> fk_volume_id (l_object r) = v \<and> l_observation_generation r < cutoff"

definition set_phase :: "graph_db \<Rightarrow> VolumeId \<Rightarrow> ObservationScanPhase \<Rightarrow> graph_db" where
  "set_phase db v phase = db\<lparr>graph_volume_observation_sessions :=
     tbl_update (\<lambda>s. s_volume_id s = v) (\<lambda>s. s\<lparr>s_phase := phase\<rparr>) (graph_volume_observation_sessions db)\<rparr>"

definition sweep_link :: "graph_env \<Rightarrow> i64 \<Rightarrow> graph_db \<Rightarrow> link_row \<Rightarrow> graph_db graph_result" where
  "sweep_link env generation db r =
     and_then (remove_link_internal db (l_file_link_id r) (l_object r) generation False) (\<lambda>(db1, _).
     and_then (sync_catalog_projection env db1 (l_file_link_id r) generation Durable) (\<lambda>(db2, _).
     Inr db2))"

definition sweep_stale_observation_links ::
    "graph_env \<Rightarrow> graph_db \<Rightarrow> VolumeId \<Rightarrow> i64 \<Rightarrow> i64 \<Rightarrow> u32 \<Rightarrow> (graph_db \<times> nat) graph_result" where
  "sweep_stale_observation_links env db v scan_generation generation maximum_rows =
     (let stale_links = tbl_scan (stale_link v scan_generation)
            (\<lambda>r. (l_observation_generation r, l_file_link_id r)) (unat maximum_rows) (graph_file_links db)
      in and_then (fold_r (sweep_link env generation) db stale_links) (\<lambda>db1.
         Inr (if length stale_links < unat maximum_rows then set_phase db1 v SweepingObjects else db1,
              length stale_links)))"

definition stale_object :: "graph_db \<Rightarrow> VolumeId \<Rightarrow> i64 \<Rightarrow> object_row \<Rightarrow> bool" where
  "stale_object db v cutoff r \<longleftrightarrow> fk_volume_id (o_key r) = v \<and> \<not> o_tombstoned r
     \<and> o_observation_generation r < cutoff \<and> (\<forall>l \<in> set (graph_file_links db). l_object l \<noteq> o_key r)"

definition sweep_stale_observation_objects ::
    "graph_db \<Rightarrow> VolumeId \<Rightarrow> i64 \<Rightarrow> u32 \<Rightarrow> graph_db \<times> nat \<times> bool" where
  "sweep_stale_observation_objects db v scan_generation maximum_rows =
     (let stale_objects = tbl_scan (stale_object db v scan_generation)
            (\<lambda>r. (o_observation_generation r, fk_file_id (o_key r))) (unat maximum_rows)
            (graph_file_objects db)
      in (fold (\<lambda>r db'. set_tombstoned db' (o_key r) True) stale_objects db,
          length stale_objects, length stale_objects < unat maximum_rows))"

definition activate_observation_checkpoint ::
    "graph_db \<Rightarrow> VolumeId \<Rightarrow> i64 \<Rightarrow> string option \<Rightarrow> i64 option \<Rightarrow> bytes option \<Rightarrow> graph_db graph_result" where
  "activate_observation_checkpoint db v generation provider_id format_version opaque =
     and_then (ok_or provider_id (Invariant ''final observation provider is missing'')) (\<lambda>provider.
     and_then (ok_or format_version (Invariant ''final observation format is missing'')) (\<lambda>format.
     and_then (ok_or opaque (Invariant ''final observation checkpoint is missing'')) (\<lambda>position.
     and_then (upsert_checkpoint db \<lparr>cp_volume_id = v, cp_provider_id = provider,
                 cp_format_version = format, cp_opaque = position\<rparr>) (\<lambda>db1.
     and_then (enqueue_volume_projection_refresh (update_volume db1 v VolumeOnline None generation) v
                 generation) (\<lambda>(db2, _).
     Inr (db2\<lparr>graph_volume_observation_sessions :=
            tbl_delete (\<lambda>s. s_volume_id s = v) (graph_volume_observation_sessions db2)\<rparr>))))))"

definition default_finalize_summary :: ObservationFinalizeSummary where
  "default_finalize_summary =
     \<lparr>fs_stale_links_removed = 0, fs_stale_objects_tombstoned = 0, fs_completed = False\<rparr>"

definition finalize_transaction ::
    "graph_env \<Rightarrow> graph_db \<Rightarrow> VolumeId \<Rightarrow> u32 \<Rightarrow> (graph_db \<times> ObservationFinalizeSummary) graph_result" where
  "finalize_transaction env db v maximum_rows =
     and_then (ok_or (find_session db v)
                 (Invariant ''observation finalization has no durable session'')) (\<lambda>session.
     if s_phase session = Scanning
     then Inl (Invariant ''observation finalization started before provider checkpoint'')
     else
       and_then (volume_generation db v) (\<lambda>current.
       and_then (ok_or (checked_add_i64 current 1)
                   (NumericRange ''observation finalization generation'')) (\<lambda>generation.
       if s_phase session = SweepingLinks
       then and_then (sweep_stale_observation_links env db v (s_scan_generation session) generation
                        maximum_rows) (\<lambda>(db1, removed).
              Inr (set_generation db1 v generation,
                   default_finalize_summary\<lparr>fs_stale_links_removed := removed\<rparr>))
       else
         (case sweep_stale_observation_objects db v (s_scan_generation session) maximum_rows of
            (db1, tombstoned, terminal) \<Rightarrow>
              if terminal
              then and_then (activate_observation_checkpoint db1 v generation
                               (s_final_provider_id session) (s_final_format_version session)
                               (s_final_checkpoint session)) (\<lambda>db2.
                     Inr (db2, default_finalize_summary\<lparr>fs_stale_objects_tombstoned := tombstoned,
                                  fs_completed := True\<rparr>))
              else Inr (set_generation db1 v generation,
                        default_finalize_summary\<lparr>fs_stale_objects_tombstoned := tombstoned\<rparr>)))))"

definition finalize_observation_scan ::
    "graph_env \<Rightarrow> graph_db \<Rightarrow> VolumeId \<Rightarrow> u32 \<Rightarrow> graph_db \<times> ObservationFinalizeSummary graph_result" where
  "finalize_observation_scan env db v maximum_rows =
     (if maximum_rows = 0 then (db, Inr default_finalize_summary)
      else transact db (finalize_transaction env db v maximum_rows))"

section \<open>Sessions and the schema\<close>

interpretation sessions_table: sql_table s_volume_id session_merge
  by unfold_locales (simp add: session_merge_def)

interpretation sessions_frame: link_statement_invariant
  "\<lambda>db. graph_volume_observation_sessions db = c \<and> graph_provider_checkpoints db = d" for c d
  by unfold_locales simp_all

lemma graph_ok_with_sessions:
  assumes "graph_ok db" and "distinct (map s_volume_id ss)"
    and "\<And>s. s \<in> set ss \<Longrightarrow> find_volume db (s_volume_id s) \<noteq> None \<and> session_check s"
  shows "graph_ok (db\<lparr>graph_volume_observation_sessions := ss\<rparr>)"
  using assms
  by (auto simp: graph_ok_def store_ok_def schema_ok_def keys_ok_def slots_ok_def fk_ok_def live_links_def
      outbox_ok_def high_water_def checks_ok_def)

lemma graph_ok_session:
  assumes "graph_ok db" and "s \<in> set (graph_volume_observation_sessions db)"
  shows "session_check s" and "find_volume db (s_volume_id s) \<noteq> None"
  using assms by (auto simp: graph_ok_def store_ok_def schema_ok_def fk_ok_def checks_ok_def)

lemma graph_ok_update_volume:
  assumes "graph_ok db" and "0 \<le> g" and "g \<le> i64_max"
  shows "graph_ok (update_volume db v state reason g)"
proof -
  have "schema_ok (update_volume db v state reason g)"
    unfolding update_volume_def
    by (rule schema_ok_volume_update) (use assms in \<open>simp_all add: graph_ok_def store_ok_def\<close>)
  moreover have "outbox_ok (update_volume db v state reason g)"
    using assms(1) by (simp add: graph_ok_def store_ok_def outbox_ok_def high_water_def update_volume_def)
  moreover have "checks_ok (update_volume db v state reason g)"
    using assms by (auto simp: graph_ok_def checks_ok_def update_volume_def set_tbl_update)
  ultimately show ?thesis by (simp add: graph_ok_def store_ok_def)
qed

lemma enqueue_volume_result:
  "enqueue_volume_projection_refresh db v g = Inr (db', n) \<Longrightarrow>
     \<exists>js. db' = db\<lparr>graph_volume_projection_refresh_jobs := js\<rparr>"
  by (auto simp: enqueue_volume_projection_refresh_def split: if_splits)

lemma graph_ok_enqueue_volume:
  assumes "graph_ok db" and "enqueue_volume_projection_refresh db v g = Inr (db', n)"
  shows "graph_ok db'"
proof -
  obtain js where db': "db' = db\<lparr>graph_volume_projection_refresh_jobs := js\<rparr>"
    using enqueue_volume_result [OF assms(2)] by blast
  have "outbox_ok db'" "checks_ok db'"
    using assms(1) by (simp_all add: db' graph_ok_def store_ok_def outbox_ok_def high_water_def checks_ok_def)
  moreover have "schema_ok db'"
    using assms schema_ok_enqueue_volume unfolding graph_ok_def store_ok_def by blast
  ultimately show ?thesis by (simp add: graph_ok_def store_ok_def)
qed

lemma graph_ok_upsert_volume: "graph_ok db \<Longrightarrow> graph_ok (upsert_volume db d)"
  using graph_ok_apply_mutation [of db "UpsertVolume d" 0] by simp

lemma begin_transaction_cases:
  assumes "begin_transaction db d mode reason = Inr (db', g)"
  obtains db1 n where "g = current_generation db (vd_volume_id d) + 1" "g \<le> i64_max"
    and "enqueue_volume_projection_refresh
       (update_volume (upsert_volume db d) (vd_volume_id d) NeedsReconciliation (Some reason) g)
       (vd_volume_id d) g = Inr (db1, n)"
    and "db' = db1\<lparr>graph_volume_observation_sessions := tbl_upsert s_volume_id session_merge
       \<lparr>s_volume_id = vd_volume_id d, s_scan_generation = g, s_scan_mode = mode, s_phase = Scanning,
        s_final_provider_id = None, s_final_format_version = None, s_final_checkpoint = None\<rparr>
       (graph_volume_observation_sessions db1)\<rparr>"
    and "find_volume db1 (vd_volume_id d) \<noteq> None"
proof -
  let ?v = "vd_volume_id d"
  let ?start = "update_volume (upsert_volume db d) ?v NeedsReconciliation (Some reason)"
  obtain g' p where g': "g' = current_generation db ?v + 1" "g' \<le> i64_max"
    and p: "enqueue_volume_projection_refresh (?start g') ?v g' = Inr p"
    and r: "(case p of (db1, _) \<Rightarrow> and_then (upsert_session db1
        \<lparr>s_volume_id = ?v, s_scan_generation = g', s_scan_mode = mode, s_phase = Scanning,
         s_final_provider_id = None, s_final_format_version = None, s_final_checkpoint = None\<rparr>)
        (\<lambda>db2. Inr (db2, g'))) = Inr (db', g)"
    using assms unfolding begin_transaction_def Let_def
    by (auto simp only: and_then_eq_Inr ok_or_eq_Inr checked_add_i64_Some)
  obtain db1 n where db1: "p = (db1, n)" by (cases p)
  have "g' = g" using r db1 by (auto simp: and_then_eq_Inr)
  show thesis
    by (rule that [of db1 n])
       (use r p g' db1 \<open>g' = g\<close> in \<open>auto simp: and_then_eq_Inr upsert_session_def split: if_splits\<close>)
qed

lemma graph_ok_begin:
  assumes "graph_ok db" and "begin_transaction db d mode reason = Inr (db', g)"
  shows "graph_ok db'" and "0 < g"
proof -
  let ?v = "vd_volume_id d"
  let ?row = "\<lparr>s_volume_id = ?v, s_scan_generation = g, s_scan_mode = mode, s_phase = Scanning,
        s_final_provider_id = None, s_final_format_version = None, s_final_checkpoint = None\<rparr>"
  from assms(2) obtain db1 n where g: "g = current_generation db ?v + 1" "g \<le> i64_max"
    and db1: "enqueue_volume_projection_refresh
       (update_volume (upsert_volume db d) ?v NeedsReconciliation (Some reason) g) ?v g = Inr (db1, n)"
    and db': "db' = db1\<lparr>graph_volume_observation_sessions :=
        tbl_upsert s_volume_id session_merge ?row (graph_volume_observation_sessions db1)\<rparr>"
    and v: "find_volume db1 ?v \<noteq> None"
    by (rule begin_transaction_cases)
  show "0 < g" using current_generation_nonneg [OF assms(1), of ?v] g by simp
  then have ok1: "graph_ok db1"
    using graph_ok_enqueue_volume [OF graph_ok_update_volume [OF graph_ok_upsert_volume [OF assms(1)]] db1] g
    by simp
  show "graph_ok db'" unfolding db'
  proof (rule graph_ok_with_sessions [OF ok1])
    show "distinct (map s_volume_id (tbl_upsert s_volume_id session_merge ?row (graph_volume_observation_sessions db1)))"
      using ok1 by (simp add: sessions_table.distinct_upsert graph_ok_def store_ok_def schema_ok_def keys_ok_def)
    fix s assume "s \<in> set (tbl_upsert s_volume_id session_merge ?row (graph_volume_observation_sessions db1))"
    moreover have "session_check ?row" "session_check (session_merge ?row old)" for old
      using \<open>0 < g\<close> g(2) by (simp_all add: session_check_def session_merge_def)
    moreover have "s_volume_id (session_merge ?row old) = s_volume_id old" for old
      by (simp add: session_merge_def)
    ultimately show "find_volume db1 (s_volume_id s) \<noteq> None \<and> session_check s"
      using v graph_ok_session [OF ok1] sessions_table.in_upsert [of s ?row "graph_volume_observation_sessions db1"]
      by fastforce
  qed
qed

section \<open>What a sweep of links does\<close>

text \<open>The observation tables, the volumes and the stale objects are as before, and the outbox grows by
  mutations that carry an agreeing index along.\<close>

definition swept :: "graph_env \<Rightarrow> graph_db \<Rightarrow> graph_db \<Rightarrow> bool" where
  "swept env db db' \<longleftrightarrow>
     graph_volumes db' = graph_volumes db
   \<and> graph_volume_observation_sessions db' = graph_volume_observation_sessions db
   \<and> graph_provider_checkpoints db' = graph_provider_checkpoints db
   \<and> (\<forall>v c. filter (stale_object db' v c) (graph_file_objects db') = filter (stale_object db v c) (graph_file_objects db))
   \<and> (json_round_trip env \<longrightarrow> (\<exists>ms. outbox_extends env db db' ms
        \<and> (\<forall>idx. index_agrees env idx db \<longrightarrow> index_agrees env (replay idx ms) db')))"

lemma swept_refl: "swept env db db"
  by (auto simp: swept_def intro: exI [of _ "[]"] outbox_extends_same)

lemma swept_trans:
  assumes "swept env a b" and "swept env b c"
  shows "swept env a c"
proof -
  have "\<exists>ms. outbox_extends env a c ms
      \<and> (\<forall>idx. index_agrees env idx a \<longrightarrow> index_agrees env (replay idx ms) c)" if "json_round_trip env"
  proof -
    from assms that obtain ms ns where "outbox_extends env a b ms" "outbox_extends env b c ns"
        "\<forall>idx. index_agrees env idx a \<longrightarrow> index_agrees env (replay idx ms) b"
        "\<forall>idx. index_agrees env idx b \<longrightarrow> index_agrees env (replay idx ns) c"
      unfolding swept_def by blast
    then show ?thesis using outbox_extends_trans by (intro exI [of _ "ms @ ns"]) simp
  qed
  with assms show ?thesis by (simp add: swept_def)
qed

lemma remove_link_silent:
  assumes "graph_ok db" and "r \<in> set (graph_file_links db)"
  defines "db1 \<equiv> db\<lparr>graph_file_links := tbl_delete (\<lambda>x. l_file_link_id x = l_file_link_id r) (graph_file_links db)\<rparr>"
  shows "remove_link_internal db (l_file_link_id r) (l_object r) g False =
    Inr (if \<exists>x \<in> set (graph_file_links db1). l_object x = l_object r then db1
         else set_tombstoned db1 (l_object r) True, 0)"
proof -
  have "find_link db (l_file_link_id r) = Some r"
    using assms(1,2) by (simp add: graph_ok_def store_ok_def schema_ok_def keys_ok_def tbl_find_distinct)
  moreover obtain obj where "find_object db (l_object r) = Some obj"
    using assms(1,2) by (auto simp: graph_ok_def store_ok_def schema_ok_def live_links_def)
  ultimately show ?thesis
    by (auto simp: remove_link_internal_def is_directory_def Let_def db1_def tbl_count_zero)
qed

lemma stale_objects_remove_link:
  assumes "r \<in> set (graph_file_links db)"
    and "db1 = db\<lparr>graph_file_links := tbl_delete (\<lambda>x. l_file_link_id x = l_file_link_id r) (graph_file_links db)\<rparr>"
    and "distinct (map l_file_link_id (graph_file_links db))"
    and "db2 = (if \<exists>x \<in> set (graph_file_links db1). l_object x = l_object r then db1
         else set_tombstoned db1 (l_object r) True)"
  shows "filter (stale_object db2 v c) (graph_file_objects db2) = filter (stale_object db v c) (graph_file_objects db)"
proof -
  have links: "x \<in> set (graph_file_links db1) \<longleftrightarrow> x \<in> set (graph_file_links db) \<and> x \<noteq> r" for x
    using assms(1-3) by (auto simp: distinct_map inj_on_def)
  have linked: "(\<exists>x \<in> set (graph_file_links db1). l_object x = k) \<longleftrightarrow> (\<exists>x \<in> set (graph_file_links db). l_object x = k)"
    if "k \<noteq> l_object r \<or> (\<exists>x \<in> set (graph_file_links db1). l_object x = l_object r)" for k
    using that links by blast
  show ?thesis
  proof (cases "\<exists>x \<in> set (graph_file_links db1). l_object x = l_object r")
    case True
    then have "stale_object db2 v c = stale_object db v c"
      using linked assms(4) by (auto simp: stale_object_def fun_eq_iff)
    with True assms(2,4) show ?thesis by simp
  next
    case False
    let ?f = "\<lambda>w. if o_key w = l_object r then w\<lparr>o_tombstoned := True\<rparr> else w"
    have db2: "db2 = set_tombstoned db1 (l_object r) True" unfolding assms(4) by (simp only: False if_False)
    have objs: "graph_file_objects db2 = map ?f (graph_file_objects db)"
      by (simp add: db2 assms(2) set_tombstoned_def tbl_update_def)
    have same: "stale_object db2 v c (?f w) = stale_object db v c w" for w
      using False assms(1,2) linked [of "o_key w"] by (auto simp: stale_object_def db2)
    have fixed: "?f w = w" if "stale_object db v c w" for w
      using that assms(1) by (auto simp: stale_object_def)
    have "filter (stale_object db2 v c) (map ?f (graph_file_objects db))
        = map ?f (filter (stale_object db v c) (graph_file_objects db))"
      by (simp add: filter_map comp_def same cong: if_cong)
    also have "\<dots> = filter (stale_object db v c) (graph_file_objects db)"
      by (rule map_idI) (use fixed in auto)
    finally show ?thesis by (simp add: objs)
  qed
qed

lemma graph_ok_remove_link_internal:
  assumes "graph_ok db" and "remove_link_internal db l k g b = Inr (db', n)"
  shows "graph_ok db'"
  using assms schema_ok_remove_link_internal outbox_ok_cong checks_frame.keeps_remove_link_internal
    projection_frame.keeps_remove_link_internal [OF refl, of db l k g b db' n]
  unfolding graph_ok_def store_ok_def by blast

lemma sweep_link_result:
  assumes "graph_ok db" and "r \<in> set (graph_file_links db)" and "sweep_link env g db r = Inr db'"
  shows "graph_ok db'" and "swept env db db'"
    and "graph_file_links db' = filter (\<lambda>x. x \<noteq> r) (graph_file_links db)"
    and "high_water db' \<le> high_water db + 1"
proof -
  define db1 where "db1 = db\<lparr>graph_file_links :=
    tbl_delete (\<lambda>x. l_file_link_id x = l_file_link_id r) (graph_file_links db)\<rparr>"
  define db2 where "db2 = (if \<exists>x \<in> set (graph_file_links db1). l_object x = l_object r then db1
         else set_tombstoned db1 (l_object r) True)"
  have rm: "remove_link_internal db (l_file_link_id r) (l_object r) g False = Inr (db2, 0)"
    unfolding db1_def db2_def by (rule remove_link_silent [OF assms(1,2)])
  then obtain n where sync: "sync_catalog_projection env db2 (l_file_link_id r) g Durable = Inr (db', n)"
    using assms(3) by (auto simp: sweep_link_def result_simps)
  have ok2: "graph_ok db2" by (rule graph_ok_remove_link_internal [OF assms(1) rm])
  then show "graph_ok db'" using graph_ok_sync sync by blast
  have keys: "distinct (map l_file_link_id (graph_file_links db))"
    using assms(1) by (simp add: graph_ok_def store_ok_def schema_ok_def keys_ok_def)
  have gp: "graph_part db' = graph_part db2" by (rule sync_frame(1) [OF sync])
  note same = graph_part_eq_fields [OF gp]
  have "filter (\<lambda>x. l_file_link_id x \<noteq> l_file_link_id r) (graph_file_links db) = filter (\<lambda>x. x \<noteq> r) (graph_file_links db)"
    by (rule filter_cong) (use keys assms(2) in \<open>auto simp: distinct_map inj_on_def\<close>)
  then show "graph_file_links db' = filter (\<lambda>x. x \<noteq> r) (graph_file_links db)"
    using same by (simp add: db1_def db2_def tbl_delete_def)
  have stale: "filter (stale_object db' v c) (graph_file_objects db') = filter (stale_object db v c) (graph_file_objects db)" for v c
  proof -
    have "stale_object db' v c = stale_object db2 v c" using same by (simp add: stale_object_def fun_eq_iff)
    then show ?thesis using same stale_objects_remove_link [OF assms(2) db1_def keys db2_def] by simp
  qed
  have proj: "graph_catalog_documents db2 = graph_catalog_documents db" "graph_projection_outbox db2 = graph_projection_outbox db"
    by (simp_all add: db1_def db2_def)
  have "\<exists>ms. outbox_extends env db db' ms \<and> (\<forall>idx. index_agrees env idx db \<longrightarrow> index_agrees env (replay idx ms) db')"
    if "json_round_trip env"
    using sync_replay [OF sync that] by (auto simp: outbox_extends_def index_agrees_def projected_def proj)
  then show "swept env db db'" using same stale by (simp add: swept_def db1_def db2_def)
  have "load_link db2 (l_file_link_id r) = None"
    by (simp add: load_link_def db1_def db2_def tbl_simps)
  then obtain v where del: "delete_catalog_projection env db2 (document_id_for_link (l_file_link_id r)) v Durable = Inr (db', n)"
    using sync by (auto simp: sync_catalog_projection_def result_simps Let_def)
  have "high_water db' = high_water db2 \<or> high_water db' = high_water db2 + 1"
  proof (cases "find_document db2 (document_id_for_link (l_file_link_id r)) = None")
    case False
    with del obtain db3 where "append_outbox env db2 (document_id_for_link (l_file_link_id r)) v
          (Delete (document_id_for_link (l_file_link_id r)) (DocumentVersion v)) = Inr db3"
        "outbox_seq db' = outbox_seq db3"
      by (auto simp: delete_catalog_projection_def result_simps)
    then show ?thesis using append_outbox_ok(2) ok2 by (metis graph_ok_def store_ok_def high_water_def)
  qed (use del in \<open>simp add: delete_catalog_projection_def\<close>)
  moreover have "high_water db2 = high_water db" by (simp add: db1_def db2_def high_water_def)
  ultimately show "high_water db' \<le> high_water db + 1" by auto
qed

text \<open>Serialising the identity and version of a deleted document does not fail.\<close>

definition deletes_serialise :: "graph_env \<Rightarrow> bool" where
  "deletes_serialise env \<longleftrightarrow> (\<forall>k v. env_mutation_to_json env (Delete k v) \<noteq> None)"

lemma sweep_link_total:
  assumes "graph_ok db" and "r \<in> set (graph_file_links db)" and "0 \<le> g" and "g \<le> i64_max"
    and "deletes_serialise env" and "high_water db < i64_max"
  shows "\<exists>db'. sweep_link env g db r = Inr db'"
proof -
  obtain db2 where rm: "remove_link_internal db (l_file_link_id r) (l_object r) g False = Inr (db2, 0)"
    and db2: "find_link db2 (l_file_link_id r) = None" "high_water db2 = high_water db"
    using remove_link_silent [OF assms(1,2), of g] by (auto simp: tbl_simps high_water_def split: if_splits)
  have "load_link db2 (l_file_link_id r) = None" using db2 by (simp add: load_link_def)
  moreover have "outbox_ok db2"
    using graph_ok_remove_link_internal [OF assms(1) rm] by (simp add: graph_ok_def store_ok_def)
  moreover have "i64_try_from_u64 (word_of_int g) = Some g"
    using assms(3,4) by (rule u64_i64_round_trip)
  moreover obtain json where "env_mutation_to_json env (Delete (document_id_for_link (l_file_link_id r))
      (DocumentVersion (word_of_int g))) = Some json"
    using assms(5) by (auto simp: deletes_serialise_def)
  ultimately show ?thesis
    using assms(3,6) db2 rm next_outbox_sequence_ok [of db2]
    by (cases "find_document db2 (document_id_for_link (l_file_link_id r))")
       (simp_all add: sweep_link_def sync_catalog_projection_def delete_catalog_projection_def append_outbox_def
        u64_try_from_i64_def Let_def)
qed

lemma sweep_links_result:
  assumes "fold_r (sweep_link env g) db xs = Inr db'" and "graph_ok db"
    and "set xs \<subseteq> set (graph_file_links db)" and "distinct xs"
  shows "graph_ok db' \<and> swept env db db' \<and> high_water db' \<le> high_water db + int (length xs)
    \<and> graph_file_links db' = filter (\<lambda>x. x \<notin> set xs) (graph_file_links db)"
  using assms
proof (induction xs arbitrary: db)
  case Nil
  then show ?case by (simp add: swept_refl)
next
  case (Cons x xs)
  then obtain db1 where db1: "sweep_link env g db x = Inr db1" "fold_r (sweep_link env g) db1 xs = Inr db'"
    by (auto simp: result_simps)
  note one = sweep_link_result [OF Cons.prems(2) _ db1(1)]
  have x: "x \<in> set (graph_file_links db)" using Cons.prems(3) by simp
  have "set xs \<subseteq> set (graph_file_links db1)" using Cons.prems(3,4) one(3) [OF x] by auto
  from Cons.IH [OF db1(2) one(1) [OF x] this] Cons.prems(4)
  have "graph_ok db' \<and> swept env db1 db' \<and> high_water db' \<le> high_water db1 + int (length xs)
      \<and> graph_file_links db' = filter (\<lambda>x. x \<notin> set xs) (graph_file_links db1)" by simp
  then show ?case
    using one(2-4) [OF x] swept_trans [of env db db1 db'] by (auto simp: filter_filter intro: filter_cong)
qed

lemma sweep_links_total:
  assumes "graph_ok db" and "set xs \<subseteq> set (graph_file_links db)" and "distinct xs"
    and "0 \<le> g" and "g \<le> i64_max" and "deletes_serialise env" and "high_water db + int (length xs) \<le> i64_max"
  shows "\<exists>db'. fold_r (sweep_link env g) db xs = Inr db'"
  using assms(1-3,7)
proof (induction xs arbitrary: db)
  case (Cons x xs)
  have x: "x \<in> set (graph_file_links db)" using Cons.prems(2) by simp
  obtain db1 where db1: "sweep_link env g db x = Inr db1"
    using sweep_link_total [OF Cons.prems(1) x assms(4-6)] Cons.prems(4) by auto
  note one = sweep_link_result [OF Cons.prems(1) x db1]
  have "\<exists>db'. fold_r (sweep_link env g) db1 xs = Inr db'"
    by (rule Cons.IH [OF one(1)]) (use Cons.prems one in auto)
  with db1 show ?case by simp
qed simp

section \<open>What a sweep of objects does\<close>

lemma fold_set_tombstoned:
  "fold (\<lambda>r db'. set_tombstoned db' (o_key r) True) xs db = db\<lparr>graph_file_objects :=
     map (\<lambda>w. if o_key w \<in> o_key ` set xs then w\<lparr>o_tombstoned := True\<rparr> else w) (graph_file_objects db)\<rparr>"
proof (induction xs arbitrary: db)
  case (Cons x xs)
  show ?case
    unfolding fold_simps comp_apply Cons.IH
    by (auto simp: set_tombstoned_def tbl_update_def)
qed simp

lemma graph_ok_set_tombstoned:
  assumes "graph_ok db" and "b \<Longrightarrow> \<forall>r \<in> set (graph_file_links db). l_object r \<noteq> k"
  shows "graph_ok (set_tombstoned db k b)"
  using assms schema_ok_set_tombstoned [of db b k] checks_frame.keeps_tombstone [of db k b]
  by (simp add: graph_ok_def store_ok_def outbox_ok_def high_water_def)

lemma graph_ok_tombstones:
  assumes "graph_ok db" and "\<forall>w \<in> set xs. \<forall>r \<in> set (graph_file_links db). l_object r \<noteq> o_key w"
  shows "graph_ok (fold (\<lambda>r db'. set_tombstoned db' (o_key r) True) xs db)"
  using assms
proof (induction xs arbitrary: db)
  case (Cons x xs)
  have "graph_ok (set_tombstoned db (o_key x) True)"
    by (rule graph_ok_set_tombstoned) (use Cons.prems in auto)
  then show ?case using Cons.IH Cons.prems by simp
qed simp

lemma stale_objects_tombstoned:
  assumes "distinct (map o_key (graph_file_objects db))" and "set xs \<subseteq> set (graph_file_objects db)"
  defines "db' \<equiv> fold (\<lambda>r db'. set_tombstoned db' (o_key r) True) xs db"
  shows "filter (stale_object db' v c) (graph_file_objects db')
    = filter (\<lambda>w. w \<notin> set xs) (filter (stale_object db v c) (graph_file_objects db))"
proof -
  let ?f = "\<lambda>w. if o_key w \<in> o_key ` set xs then w\<lparr>o_tombstoned := True\<rparr> else w"
  have key: "o_key w \<in> o_key ` set xs \<longleftrightarrow> w \<in> set xs" if "w \<in> set (graph_file_objects db)" for w
    using that assms(1,2) by (auto simp: distinct_map inj_on_def subset_iff)
  have "filter (stale_object db' v c) (map ?f (graph_file_objects db))
      = map ?f (filter (\<lambda>w. stale_object db v c w \<and> o_key w \<notin> o_key ` set xs) (graph_file_objects db))"
    unfolding filter_map
    by (rule arg_cong [where f = "map ?f"], rule filter_cong)
       (auto simp: db'_def fold_set_tombstoned stale_object_def)
  also have "\<dots> = filter (\<lambda>w. stale_object db v c w \<and> o_key w \<notin> o_key ` set xs) (graph_file_objects db)"
    by (rule map_idI) auto
  also have "\<dots> = filter (\<lambda>w. w \<notin> set xs) (filter (stale_object db v c) (graph_file_objects db))"
    unfolding filter_filter by (rule filter_cong) (use key in auto)
  finally show ?thesis by (simp add: db'_def fold_set_tombstoned)
qed

lemma length_filter_page:
  assumes "distinct t" and "xs = tbl_scan p f n t"
  shows "length (filter (\<lambda>x. x \<notin> set xs) (filter p t)) = length (filter p t) - n"
    and "length xs = min n (length (filter p t))" and "distinct xs" and "set xs \<subseteq> {x \<in> set t. p x}"
proof -
  have xs: "xs = take n (sort_key f (filter p t))" using assms(2) by (simp add: tbl_scan_def)
  then show d: "distinct xs" using assms(1) by simp
  show sub: "set xs \<subseteq> {x \<in> set t. p x}" using set_tbl_scan_subset assms(2) by metis
  show l: "length xs = min n (length (filter p t))" by (simp add: xs min.commute)
  have "card (set (filter (\<lambda>x. x \<notin> set xs) (filter p t))) = card (set (filter p t) - set xs)"
    by (rule arg_cong [where f = card]) auto
  also have "\<dots> = card (set (filter p t)) - card (set xs)"
    by (rule card_Diff_subset) (use sub in auto)
  also have "\<dots> = length (filter p t) - length xs"
    using assms(1) d by (simp add: distinct_card del: set_filter)
  finally show "length (filter (\<lambda>x. x \<notin> set xs) (filter p t)) = length (filter p t) - n"
    using assms(1) by (simp add: distinct_card l del: set_filter)
qed

section \<open>One call of finalisation\<close>

definition stale_page :: "graph_db \<Rightarrow> VolumeId \<Rightarrow> i64 \<Rightarrow> u32 \<Rightarrow> link_row list" where
  "stale_page db v c n = tbl_scan (stale_link v c)
     (\<lambda>r. (l_observation_generation r, l_file_link_id r)) (unat n) (graph_file_links db)"

definition stale_object_page :: "graph_db \<Rightarrow> VolumeId \<Rightarrow> i64 \<Rightarrow> u32 \<Rightarrow> object_row list" where
  "stale_object_page db v c n = tbl_scan (stale_object db v c)
     (\<lambda>r. (o_observation_generation r, fk_file_id (o_key r))) (unat n) (graph_file_objects db)"

abbreviation stale_links :: "graph_db \<Rightarrow> VolumeId \<Rightarrow> i64 \<Rightarrow> link_row list" where
  "stale_links db v c \<equiv> filter (stale_link v c) (graph_file_links db)"

abbreviation stale_objects :: "graph_db \<Rightarrow> VolumeId \<Rightarrow> i64 \<Rightarrow> object_row list" where
  "stale_objects db v c \<equiv> filter (stale_object db v c) (graph_file_objects db)"

lemma graph_ok_distinct_rows:
  assumes "graph_ok db"
  shows "distinct (graph_file_links db)" and "distinct (graph_file_objects db)"
  using assms by (simp_all add: graph_ok_def store_ok_def schema_ok_def keys_ok_def distinct_map)

lemma stale_page_facts:
  assumes "graph_ok db" and "page = stale_page db v c n"
  shows "length page = min (unat n) (length (stale_links db v c))" and "distinct page"
    and "set page \<subseteq> {r \<in> set (graph_file_links db). stale_link v c r}"
    and "length (filter (stale_link v c) (filter (\<lambda>x. x \<notin> set page) (graph_file_links db)))
      = length (stale_links db v c) - unat n"
    and "filter (\<lambda>r. \<not> stale_link v c r) (filter (\<lambda>x. x \<notin> set page) (graph_file_links db))
      = filter (\<lambda>r. \<not> stale_link v c r) (graph_file_links db)"
proof -
  note page = length_filter_page [OF graph_ok_distinct_rows(1) [OF assms(1)] assms(2) [unfolded stale_page_def]]
  show "length page = min (unat n) (length (stale_links db v c))" "distinct page"
    and sub: "set page \<subseteq> {r \<in> set (graph_file_links db). stale_link v c r}"
    using page(2-4) by simp_all
  show "length (filter (stale_link v c) (filter (\<lambda>x. x \<notin> set page) (graph_file_links db)))
      = length (stale_links db v c) - unat n"
    using page(1) by (simp add: filter_filter conj_commute)
  show "filter (\<lambda>r. \<not> stale_link v c r) (filter (\<lambda>x. x \<notin> set page) (graph_file_links db))
      = filter (\<lambda>r. \<not> stale_link v c r) (graph_file_links db)"
    unfolding filter_filter by (rule filter_cong) (use sub in auto)
qed

text \<open>The state a session starts its next call from.\<close>

lemma session_volume:
  assumes "graph_ok db" and "find_session db v = Some s"
  shows "session_check s" and "s_volume_id s = v" and "volume_generation db v = Inr (current_generation db v)"
proof -
  have s: "s \<in> set (graph_volume_observation_sessions db)" "s_volume_id s = v"
    using tbl_find_Some [OF assms(2)] by simp_all
  then show "session_check s" "s_volume_id s = v" using graph_ok_session(1) [OF assms(1)] by simp_all
  from graph_ok_session(2) [OF assms(1) s(1)] s(2)
  show "volume_generation db v = Inr (current_generation db v)"
    by (auto simp: volume_generation_def current_generation_def)
qed

lemma finalize_in_links_phase:
  fixes n :: u32
  assumes "graph_ok db" and "find_session db v = Some s" and "s_phase s = SweepingLinks"
  defines "g \<equiv> current_generation db v + 1" and "page \<equiv> stale_page db v (s_scan_generation s) n"
  shows "finalize_transaction env db v n =
    (if g \<le> i64_max
     then and_then (fold_r (sweep_link env g) db page) (\<lambda>db1.
            Inr (set_generation (if length page < unat n then set_phase db1 v SweepingObjects else db1) v g,
                 default_finalize_summary\<lparr>fs_stale_links_removed := length page\<rparr>))
     else Inl (NumericRange ''observation finalization generation''))"
proof -
  have "checked_add_i64 (current_generation db v) 1 = (if g \<le> i64_max then Some g else None)"
    using current_generation_nonneg [OF assms(1), of v]
    by (simp add: checked_add_i64_def g_def i64_min_def)
  then show ?thesis
    using assms(2,3) session_volume(3) [OF assms(1,2)]
    by (cases "fold_r (sweep_link env g) db page")
       (simp_all add: finalize_transaction_def sweep_stale_observation_links_def stale_page_def page_def Let_def)
qed

lemma finalize_in_objects_phase:
  fixes n :: u32
  assumes "graph_ok db" and "find_session db v = Some s" and "s_phase s = SweepingObjects"
  defines "g \<equiv> current_generation db v + 1" and "page \<equiv> stale_object_page db v (s_scan_generation s) n"
  defines "db1 \<equiv> fold (\<lambda>r db'. set_tombstoned db' (o_key r) True) page db"
  shows "finalize_transaction env db v n =
    (if g \<le> i64_max
     then if length page < unat n
          then and_then (activate_observation_checkpoint db1 v g (s_final_provider_id s)
                           (s_final_format_version s) (s_final_checkpoint s)) (\<lambda>db2.
                 Inr (db2, default_finalize_summary\<lparr>fs_stale_objects_tombstoned := length page,
                             fs_completed := True\<rparr>))
          else Inr (set_generation db1 v g,
                    default_finalize_summary\<lparr>fs_stale_objects_tombstoned := length page\<rparr>)
     else Inl (NumericRange ''observation finalization generation''))"
proof -
  have "checked_add_i64 (current_generation db v) 1 = (if g \<le> i64_max then Some g else None)"
    using current_generation_nonneg [OF assms(1), of v]
    by (simp add: checked_add_i64_def g_def i64_min_def)
  then show ?thesis
    using assms(2,3) session_volume(3) [OF assms(1,2)]
    by (simp add: finalize_transaction_def sweep_stale_observation_objects_def stale_object_page_def page_def
        db1_def Let_def)
qed

lemma find_session_set_phase:
  "find_session (set_phase db v p) w = map_option (\<lambda>s. if w = v then s\<lparr>s_phase := p\<rparr> else s) (find_session db w)"
  unfolding set_phase_def by (simp add: tbl_find_update_key option.map_ident)

lemma graph_ok_set_phase:
  assumes "graph_ok db" and "find_session db v = Some s" and "s_phase s \<noteq> Scanning" and "p \<noteq> Scanning"
  shows "graph_ok (set_phase db v p)"
  unfolding set_phase_def
proof (rule graph_ok_with_sessions [OF assms(1)])
  let ?t = "tbl_update (\<lambda>s. s_volume_id s = v) (\<lambda>s. s\<lparr>s_phase := p\<rparr>) (graph_volume_observation_sessions db)"
  have d: "distinct (map s_volume_id (graph_volume_observation_sessions db))"
    using assms(1) by (simp add: graph_ok_def store_ok_def schema_ok_def keys_ok_def)
  then show "distinct (map s_volume_id ?t)" by (simp add: map_key_update)
  fix x assume "x \<in> set ?t"
  then obtain y where y: "y \<in> set (graph_volume_observation_sessions db)"
      "x = (if s_volume_id y = v then y\<lparr>s_phase := p\<rparr> else y)"
    by (auto simp: set_tbl_update)
  have "s_volume_id y = v \<Longrightarrow> y = s" using d assms(2) y(1) by (simp add: tbl_find_distinct distinct_map inj_on_def)
  then show "find_volume db (s_volume_id x) \<noteq> None \<and> session_check x"
    using graph_ok_session [OF assms(1) y(1)] assms(3,4) y(2) by (auto simp: session_check_def)
qed

lemma set_phase_frame [simp]:
  "graph_volumes (set_phase db v p) = graph_volumes db"
  "graph_file_links (set_phase db v p) = graph_file_links db"
  "graph_file_objects (set_phase db v p) = graph_file_objects db"
  "graph_provider_checkpoints (set_phase db v p) = graph_provider_checkpoints db"
  "graph_catalog_documents (set_phase db v p) = graph_catalog_documents db"
  "graph_projection_outbox (set_phase db v p) = graph_projection_outbox db"
  "outbox_seq (set_phase db v p) = outbox_seq db"
  by (simp_all add: set_phase_def)

lemma set_generation_frame2 [simp]:
  "graph_volume_observation_sessions (set_generation db v g) = graph_volume_observation_sessions db"
  "graph_provider_checkpoints (set_generation db v g) = graph_provider_checkpoints db"
  "graph_catalog_documents (set_generation db v g) = graph_catalog_documents db"
  "graph_projection_outbox (set_generation db v g) = graph_projection_outbox db"
  "outbox_seq (set_generation db v g) = outbox_seq db"
  by (simp_all add: set_generation_def)

lemma current_generation_set_generation:
  "find_volume db v \<noteq> None \<Longrightarrow> current_generation (set_generation db v g) v = g"
  by (auto simp: current_generation_def find_volume_set_generation)

lemma links_phase_step:
  assumes ok: "graph_ok db" and s: "find_session db v = Some s" "s_phase s = SweepingLinks"
    and run: "finalize_transaction env db v n = Inr (db', sm)"
  defines "c \<equiv> s_scan_generation s"
  shows "graph_ok db'"
    and "find_session db' v =
      Some (if length (stale_links db v c) < unat n then s\<lparr>s_phase := SweepingObjects\<rparr> else s)"
    and "length (stale_links db' v c) = length (stale_links db v c) - unat n"
    and "filter (\<lambda>r. \<not> stale_link v c r) (graph_file_links db') = filter (\<lambda>r. \<not> stale_link v c r) (graph_file_links db)"
    and "stale_objects db' v c = stale_objects db v c"
    and "current_generation db' v = current_generation db v + 1"
    and "high_water db' \<le> high_water db + int (min (unat n) (length (stale_links db v c)))"
    and "graph_provider_checkpoints db' = graph_provider_checkpoints db"
    and "\<not> fs_completed sm" and "fs_stale_links_removed sm = min (unat n) (length (stale_links db v c))"
    and "json_round_trip env \<Longrightarrow> \<exists>ms. outbox_extends env db db' ms
       \<and> (\<forall>idx. index_agrees env idx db \<longrightarrow> index_agrees env (replay idx ms) db')"
proof -
  let ?page = "stale_page db v c n" and ?g = "current_generation db v + 1"
  note page = stale_page_facts [OF ok refl, of v c n]
  obtain db1 where g: "?g \<le> i64_max" and db1: "fold_r (sweep_link env ?g) db ?page = Inr db1"
    and db': "db' = set_generation (if length ?page < unat n then set_phase db1 v SweepingObjects else db1) v ?g"
    and sm: "sm = default_finalize_summary\<lparr>fs_stale_links_removed := length ?page\<rparr>"
    using run unfolding finalize_in_links_phase [OF ok s] c_def by (auto simp: result_simps split: if_splits)
  have "set ?page \<subseteq> set (graph_file_links db)" using page(3) by blast
  from sweep_links_result [OF db1 ok this page(2)]
  have sw: "graph_ok db1" "swept env db db1" "high_water db1 \<le> high_water db + int (length ?page)"
      "graph_file_links db1 = filter (\<lambda>x. x \<notin> set ?page) (graph_file_links db)" by simp_all
  have s1: "find_session db1 v = Some s" using sw(2) s(1) by (simp add: swept_def)
  let ?db2 = "if length ?page < unat n then set_phase db1 v SweepingObjects else db1"
  have ok2: "graph_ok ?db2" using sw(1) graph_ok_set_phase [OF sw(1) s1] s(2) by simp
  show "graph_ok db'" unfolding db'
    by (rule graph_ok_set_generation [OF ok2 _ g]) (use current_generation_nonneg [OF ok, of v] in simp)
  have short: "length ?page < unat n \<longleftrightarrow> length (stale_links db v c) < unat n" using page(1) by auto
  show "find_session db' v =
      Some (if length (stale_links db v c) < unat n then s\<lparr>s_phase := SweepingObjects\<rparr> else s)"
    using s1 by (simp add: db' short find_session_set_phase)
  have links: "graph_file_links db' = graph_file_links db1" by (simp add: db')
  show "length (stale_links db' v c) = length (stale_links db v c) - unat n"
    and "filter (\<lambda>r. \<not> stale_link v c r) (graph_file_links db') = filter (\<lambda>r. \<not> stale_link v c r) (graph_file_links db)"
    unfolding links sw(4) by (fact page(4), fact page(5))
  have "stale_object db' v c = stale_object db1 v c" using links by (simp add: stale_object_def fun_eq_iff)
  then show "stale_objects db' v c = stale_objects db v c"
    using sw(2) by (simp add: db' swept_def)
  have "find_volume ?db2 v \<noteq> None"
    using graph_ok_session(2) [OF sw(1)] s1 tbl_find_Some [OF s1] by auto
  then show "current_generation db' v = current_generation db v + 1"
    unfolding db' by (rule current_generation_set_generation)
  show "high_water db' \<le> high_water db + int (min (unat n) (length (stale_links db v c)))"
  proof -
    have "high_water db' = high_water db1" by (simp add: db' high_water_def)
    then show ?thesis using sw(3) by (simp only: page(1))
  qed
  show "graph_provider_checkpoints db' = graph_provider_checkpoints db" using sw(2) by (simp add: db' swept_def)
  show "\<not> fs_completed sm" "fs_stale_links_removed sm = min (unat n) (length (stale_links db v c))"
    using page(1) by (simp_all add: sm default_finalize_summary_def)
  show "\<exists>ms. outbox_extends env db db' ms \<and> (\<forall>idx. index_agrees env idx db \<longrightarrow> index_agrees env (replay idx ms) db')"
    if "json_round_trip env"
    using sw(2) that by (simp add: swept_def db' outbox_extends_def index_agrees_def projected_def)
qed

lemma links_phase_total:
  assumes "graph_ok db" and "find_session db v = Some s" and "s_phase s = SweepingLinks"
    and "deletes_serialise env" and "current_generation db v < i64_max"
    and "high_water db + int (length (stale_links db v (s_scan_generation s))) \<le> i64_max"
  shows "\<exists>db' sm. finalize_transaction env db v n = Inr (db', sm)"
proof -
  note page = stale_page_facts [OF assms(1) refl, of v "s_scan_generation s" n]
  have "\<exists>db'. fold_r (sweep_link env (current_generation db v + 1)) db (stale_page db v (s_scan_generation s) n) = Inr db'"
    by (rule sweep_links_total [OF assms(1) _ page(2)])
       (use page(1,3) assms(4-6) current_generation_nonneg [OF assms(1), of v] in auto)
  then show ?thesis using assms(5) by (auto simp: finalize_in_links_phase [OF assms(1-3)])
qed

lemma activate_cases:
  assumes "activate_observation_checkpoint db v g p f q = Inr db'"
  obtains provider format position db1 js where "p = Some provider" "f = Some format" "q = Some position"
    and "upsert_checkpoint db \<lparr>cp_volume_id = v, cp_provider_id = provider, cp_format_version = format,
           cp_opaque = position\<rparr> = Inr db1"
    and "enqueue_volume_projection_refresh (update_volume db1 v VolumeOnline None g) v g
           = Inr ((update_volume db1 v VolumeOnline None g)\<lparr>graph_volume_projection_refresh_jobs := js\<rparr>, 1)"
    and "db' = (update_volume db1 v VolumeOnline None g)\<lparr>graph_volume_projection_refresh_jobs := js,
           graph_volume_observation_sessions :=
             tbl_delete (\<lambda>s. s_volume_id s = v) (graph_volume_observation_sessions db1)\<rparr>"
  using assms unfolding activate_observation_checkpoint_def
  by (auto simp: result_simps enqueue_volume_projection_refresh_def update_volume_def split: if_splits)

lemma activate_result:
  assumes "graph_ok db" and "0 \<le> g" and "g \<le> i64_max"
    and "activate_observation_checkpoint db v g p f q = Inr db'"
  shows "graph_ok db'" and "find_session db' v = None"
    and "graph_file_links db' = graph_file_links db" and "graph_file_objects db' = graph_file_objects db"
    and "graph_catalog_documents db' = graph_catalog_documents db"
    and "graph_projection_outbox db' = graph_projection_outbox db" and "outbox_seq db' = outbox_seq db"
    and "find_checkpoint db' v = Some \<lparr>cp_volume_id = v, cp_provider_id = the p, cp_format_version = the f,
      cp_opaque = the q\<rparr>"
    and "\<exists>r. find_volume db' v = Some r \<and> v_state r = VolumeOnline \<and> v_reconciliation_reason r = None \<and> v_generation r = g"
    and "w \<noteq> v \<Longrightarrow> find_checkpoint db' w = find_checkpoint db w \<and> find_volume db' w = find_volume db w"
proof -
  from assms(4) obtain provider format position db1 js where pq: "p = Some provider" "f = Some format" "q = Some position"
    and cp: "upsert_checkpoint db \<lparr>cp_volume_id = v, cp_provider_id = provider, cp_format_version = format,
           cp_opaque = position\<rparr> = Inr db1"
    and job: "enqueue_volume_projection_refresh (update_volume db1 v VolumeOnline None g) v g
           = Inr ((update_volume db1 v VolumeOnline None g)\<lparr>graph_volume_projection_refresh_jobs := js\<rparr>, 1)"
    and db': "db' = (update_volume db1 v VolumeOnline None g)\<lparr>graph_volume_projection_refresh_jobs := js,
           graph_volume_observation_sessions :=
             tbl_delete (\<lambda>s. s_volume_id s = v) (graph_volume_observation_sessions db1)\<rparr>"
    by (rule activate_cases)
  let ?db2 = "(update_volume db1 v VolumeOnline None g)\<lparr>graph_volume_projection_refresh_jobs := js\<rparr>"
  have ok2: "graph_ok ?db2"
    using graph_ok_enqueue_volume [OF graph_ok_update_volume [OF graph_ok_upsert_checkpoint [OF assms(1) cp] assms(2,3)] job] .
  have "graph_ok (?db2\<lparr>graph_volume_observation_sessions :=
      tbl_delete (\<lambda>s. s_volume_id s = v) (graph_volume_observation_sessions ?db2)\<rparr>)"
    by (rule graph_ok_with_sessions [OF ok2])
       (use ok2 graph_ok_session [OF ok2] in \<open>auto simp: graph_ok_def store_ok_def schema_ok_def keys_ok_def distinct_tbl_delete\<close>)
  then show "graph_ok db'" by (simp add: db' update_volume_def)
  have db1: "\<exists>cs. db1 = db\<lparr>graph_provider_checkpoints := cs\<rparr>" "find_volume db v \<noteq> None"
    using cp by (auto simp: upsert_checkpoint_def split: if_splits)
  show "find_session db' v = None" by (simp add: db' tbl_simps)
  show "graph_file_links db' = graph_file_links db" "graph_file_objects db' = graph_file_objects db"
      "graph_catalog_documents db' = graph_catalog_documents db" "graph_projection_outbox db' = graph_projection_outbox db"
      "outbox_seq db' = outbox_seq db"
    using db1(1) by (auto simp: db' update_volume_def)
  show "find_checkpoint db' v = Some \<lparr>cp_volume_id = v, cp_provider_id = the p, cp_format_version = the f, cp_opaque = the q\<rparr>"
    using find_checkpoint_upsert_checkpoint [OF cp, of v] pq by (simp add: db' update_volume_def)
  have vol: "find_volume db' x = (if x = v then map_option (\<lambda>r. r\<lparr>v_state := VolumeOnline,
      v_reconciliation_reason := None, v_generation := g\<rparr>) (find_volume db x) else find_volume db x)" for x
    using db1(1) by (auto simp: db' update_volume_def tbl_find_update_key)
  then show "\<exists>r. find_volume db' v = Some r \<and> v_state r = VolumeOnline \<and> v_reconciliation_reason r = None \<and> v_generation r = g"
    using db1(2) by auto
  show "find_checkpoint db' w = find_checkpoint db w \<and> find_volume db' w = find_volume db w" if "w \<noteq> v"
    using find_checkpoint_upsert_checkpoint [OF cp, of w] vol that by (simp add: db' update_volume_def)
qed

lemma objects_phase_step:
  assumes ok: "graph_ok db" and s: "find_session db v = Some s" "s_phase s = SweepingObjects"
    and run: "finalize_transaction env db v n = Inr (db', sm)"
  defines "c \<equiv> s_scan_generation s"
  shows "graph_ok db'" and "graph_file_links db' = graph_file_links db"
    and "graph_catalog_documents db' = graph_catalog_documents db"
    and "graph_projection_outbox db' = graph_projection_outbox db" and "outbox_seq db' = outbox_seq db"
    and "fs_completed sm \<longleftrightarrow> length (stale_objects db v c) < unat n"
    and "fs_stale_objects_tombstoned sm = min (unat n) (length (stale_objects db v c))"
    and "fs_stale_links_removed sm = 0"
    and "length (stale_objects db' v c) = length (stale_objects db v c) - unat n"
    and "current_generation db' v = current_generation db v + 1"
    and "\<not> fs_completed sm \<Longrightarrow> find_session db' v = Some s \<and> graph_provider_checkpoints db' = graph_provider_checkpoints db"
    and "fs_completed sm \<Longrightarrow> find_session db' v = None
      \<and> find_checkpoint db' v = Some \<lparr>cp_volume_id = v, cp_provider_id = the (s_final_provider_id s),
           cp_format_version = the (s_final_format_version s), cp_opaque = the (s_final_checkpoint s)\<rparr>
      \<and> (\<exists>r. find_volume db' v = Some r \<and> v_state r = VolumeOnline \<and> v_reconciliation_reason r = None)"
proof -
  let ?page = "stale_object_page db v c n" and ?g = "current_generation db v + 1"
  define db1 where "db1 = fold (\<lambda>r db'. set_tombstoned db' (o_key r) True) ?page db"
  note page = length_filter_page [OF graph_ok_distinct_rows(2) [OF ok] stale_object_page_def [of db v c n]]
  have g: "?g \<le> i64_max" "0 \<le> ?g"
    using run current_generation_nonneg [OF ok, of v] unfolding finalize_in_objects_phase [OF ok s] by (auto split: if_splits)
  have unlinked: "\<forall>w \<in> set ?page. \<forall>r \<in> set (graph_file_links db). l_object r \<noteq> o_key w"
    using page(4) by (auto simp: stale_object_def)
  have ok1: "graph_ok db1" unfolding db1_def by (rule graph_ok_tombstones [OF ok unlinked])
  have keys: "distinct (map o_key (graph_file_objects db))"
    using ok by (simp add: graph_ok_def store_ok_def schema_ok_def keys_ok_def)
  have sub: "set ?page \<subseteq> set (graph_file_objects db)" using page(4) by blast
  have left: "length (stale_objects db1 v c) = length (stale_objects db v c) - unat n"
    using stale_objects_tombstoned [OF keys sub, of v c] page(1) unfolding db1_def by simp
  have frame: "graph_file_links db1 = graph_file_links db" "graph_volumes db1 = graph_volumes db"
      "graph_catalog_documents db1 = graph_catalog_documents db" "graph_projection_outbox db1 = graph_projection_outbox db"
      "outbox_seq db1 = outbox_seq db" "graph_provider_checkpoints db1 = graph_provider_checkpoints db"
      "graph_volume_observation_sessions db1 = graph_volume_observation_sessions db"
    by (simp_all add: db1_def fold_set_tombstoned)
  have vol: "find_volume db1 v \<noteq> None"
    using graph_ok_session(2) [OF ok] tbl_find_Some [OF s(1)] frame(2) by auto
  have short: "length ?page < unat n \<longleftrightarrow> length (stale_objects db v c) < unat n" using page(2) by auto
  let ?sm = "default_finalize_summary\<lparr>fs_stale_objects_tombstoned := length ?page\<rparr>"
  from run g(1) consider
      (terminal) "length ?page < unat n" "activate_observation_checkpoint db1 v ?g (s_final_provider_id s)
          (s_final_format_version s) (s_final_checkpoint s) = Inr db'" "sm = ?sm\<lparr>fs_completed := True\<rparr>"
    | (more) "\<not> length ?page < unat n" "db' = set_generation db1 v ?g" "sm = ?sm"
    unfolding finalize_in_objects_phase [OF ok s] db1_def c_def
    by (cases "length ?page < unat n") (auto simp: result_simps c_def)
  then have "graph_ok db' \<and> graph_file_links db' = graph_file_links db
      \<and> graph_catalog_documents db' = graph_catalog_documents db
      \<and> graph_projection_outbox db' = graph_projection_outbox db \<and> outbox_seq db' = outbox_seq db
      \<and> (fs_completed sm \<longleftrightarrow> length (stale_objects db v c) < unat n)
      \<and> fs_stale_objects_tombstoned sm = min (unat n) (length (stale_objects db v c))
      \<and> fs_stale_links_removed sm = 0
      \<and> graph_file_objects db' = graph_file_objects db1 \<and> current_generation db' v = ?g
      \<and> (\<not> fs_completed sm \<longrightarrow> find_session db' v = Some s \<and> graph_provider_checkpoints db' = graph_provider_checkpoints db)
      \<and> (fs_completed sm \<longrightarrow> find_session db' v = None
      \<and> find_checkpoint db' v = Some \<lparr>cp_volume_id = v, cp_provider_id = the (s_final_provider_id s),
           cp_format_version = the (s_final_format_version s), cp_opaque = the (s_final_checkpoint s)\<rparr>
      \<and> (\<exists>r. find_volume db' v = Some r \<and> v_state r = VolumeOnline \<and> v_reconciliation_reason r = None))"
  proof cases
    case terminal
    note act = activate_result [OF ok1 g(2,1) terminal(2)]
    then show ?thesis
      using terminal(1,3) short page(2) frame
      by (auto simp: default_finalize_summary_def current_generation_def)
  next
    case more
    then show ?thesis
      using graph_ok_set_generation [OF ok1 g(2,1)] short page(2) frame s(1) current_generation_set_generation [OF vol]
      by (simp add: default_finalize_summary_def)
  qed
  note all = this
  have "stale_object db' v c = stale_object db1 v c" using all frame(1) by (simp add: stale_object_def fun_eq_iff)
  then show "length (stale_objects db' v c) = length (stale_objects db v c) - unat n" using all left by simp
  show "graph_ok db'"
    and "graph_file_links db' = graph_file_links db"
    and "graph_catalog_documents db' = graph_catalog_documents db"
    and "graph_projection_outbox db' = graph_projection_outbox db"
    and "outbox_seq db' = outbox_seq db"
    and "fs_completed sm \<longleftrightarrow> length (stale_objects db v c) < unat n"
    and "fs_stale_objects_tombstoned sm = min (unat n) (length (stale_objects db v c))"
    and "fs_stale_links_removed sm = 0"
    and "current_generation db' v = current_generation db v + 1"
    and "\<not> fs_completed sm \<Longrightarrow> find_session db' v = Some s \<and> graph_provider_checkpoints db' = graph_provider_checkpoints db"
    and "fs_completed sm \<Longrightarrow> find_session db' v = None
      \<and> find_checkpoint db' v = Some \<lparr>cp_volume_id = v, cp_provider_id = the (s_final_provider_id s),
           cp_format_version = the (s_final_format_version s), cp_opaque = the (s_final_checkpoint s)\<rparr>
      \<and> (\<exists>r. find_volume db' v = Some r \<and> v_state r = VolumeOnline \<and> v_reconciliation_reason r = None)"
    using all by blast+
qed

section \<open>Finalisation as a whole\<close>

lemma finalize_Inr:
  "finalize_observation_scan env db v n = (db', Inr sm) \<longleftrightarrow>
     (if n = 0 then db' = db \<and> sm = default_finalize_summary else finalize_transaction env db v n = Inr (db', sm))"
  by (auto simp: finalize_observation_scan_def transact_def split: sum.splits)

lemma finalize_phases:
  assumes "finalize_transaction env db v n = Inr (db', sm)"
  obtains s where "find_session db v = Some s" "s_phase s = SweepingLinks"
    | s where "find_session db v = Some s" "s_phase s = SweepingObjects"
proof -
  from assms obtain s where "find_session db v = Some s" "s_phase s \<noteq> Scanning"
    by (auto simp: finalize_transaction_def result_simps split: if_splits)
  then show thesis using that by (cases "s_phase s") auto
qed


text \<open>Finalisation is part of the refinement between graph and index: replaying the outbox rows of a
  call carries an agreeing index to the desired state after it.\<close>

theorem finalize_outbox_refines:
  assumes "graph_ok db" and "json_round_trip env" and "finalize_observation_scan env db v n = (db', Inr sm)"
  shows "\<exists>ms. outbox_extends env db db' ms
    \<and> (\<forall>idx. index_agrees env idx db \<longrightarrow> index_agrees env (replay idx ms) db')"
proof (cases "n = 0")
  case True
  with assms(3) show ?thesis by (intro exI [of _ "[]"]) (simp add: finalize_Inr outbox_extends_same)
next
  case False
  with assms(3) have run: "finalize_transaction env db v n = Inr (db', sm)" by (simp add: finalize_Inr)
  then show ?thesis
  proof (cases rule: finalize_phases)
    case (1 s)
    then show ?thesis using links_phase_step(11) [OF assms(1) 1 run assms(2)] by blast
  next
    case (2 s)
    note step = objects_phase_step(3,4) [OF assms(1) 2 run]
    then show ?thesis
      by (intro exI [of _ "[]"]) (simp add: outbox_extends_same index_agrees_def projected_def)
  qed
qed

text \<open>The observation loop calls finalisation until it reports completion; \<open>k\<close> bounds the calls.\<close>

fun finalize_within ::
    "nat \<Rightarrow> graph_env \<Rightarrow> graph_db \<Rightarrow> VolumeId \<Rightarrow> u32 \<Rightarrow> graph_db \<times> ObservationFinalizeSummary graph_result" where
  "finalize_within 0 env db v n = (db, Inr default_finalize_summary)"
| "finalize_within (Suc k) env db v n =
     (case finalize_observation_scan env db v n of
        (db', Inl e) \<Rightarrow> (db', Inl e)
      | (db', Inr sm) \<Rightarrow> if fs_completed sm then (db', Inr sm) else finalize_within k env db' v n)"

definition object_calls :: "graph_db \<Rightarrow> VolumeId \<Rightarrow> i64 \<Rightarrow> u32 \<Rightarrow> nat" where
  "object_calls db v c n = length (stale_objects db v c) div unat n + 1"

definition link_calls :: "graph_db \<Rightarrow> VolumeId \<Rightarrow> i64 \<Rightarrow> u32 \<Rightarrow> nat" where
  "link_calls db v c n = length (stale_links db v c) div unat n + 1"

definition scan_settled :: "graph_db \<Rightarrow> VolumeId \<Rightarrow> session_row \<Rightarrow> bool" where
  "scan_settled db v s \<longleftrightarrow> graph_ok db \<and> find_session db v = None
     \<and> find_checkpoint db v = Some \<lparr>cp_volume_id = v, cp_provider_id = the (s_final_provider_id s),
          cp_format_version = the (s_final_format_version s), cp_opaque = the (s_final_checkpoint s)\<rparr>
     \<and> (\<exists>r. find_volume db v = Some r \<and> v_state r = VolumeOnline \<and> v_reconciliation_reason r = None)
     \<and> stale_objects db v (s_scan_generation s) = []"

lemma objects_phase_total:
  assumes "graph_ok db" and "find_session db v = Some s" and "s_phase s = SweepingObjects"
    and "current_generation db v < i64_max"
  shows "\<exists>db' sm. finalize_transaction env db v n = Inr (db', sm)"
proof -
  have "find_volume db v \<noteq> None" "session_check s"
    using session_volume [OF assms(1,2)] graph_ok_session(2) [OF assms(1)] tbl_find_Some [OF assms(2)] by auto
  then show ?thesis
    using assms(3,4)
    by (auto simp: finalize_in_objects_phase [OF assms(1-3)] activate_observation_checkpoint_def
        upsert_checkpoint_def enqueue_volume_projection_refresh_def session_check_def fold_set_tombstoned
        update_volume_def tbl_find_update_key)
qed

lemma div_step: "n \<le> m \<Longrightarrow> 0 < n \<Longrightarrow> m div n = Suc ((m - n) div n)" for m n :: nat
  by (simp add: le_div_geq)

lemma objects_converge:
  assumes "graph_ok db" and "find_session db v = Some s" and "s_phase s = SweepingObjects" and "n \<noteq> 0"
    and "current_generation db v + int (object_calls db v (s_scan_generation s) n) \<le> i64_max"
    and "object_calls db v (s_scan_generation s) n \<le> k"
  shows "\<exists>db' sm. finalize_within k env db v n = (db', Inr sm) \<and> fs_completed sm \<and> scan_settled db' v s
    \<and> graph_file_links db' = graph_file_links db"
  using assms(1-3,5,6)
proof (induction k arbitrary: db)
  case 0
  then show ?case by (simp add: object_calls_def)
next
  case (Suc k)
  let ?c = "s_scan_generation s" and ?n = "unat n"
  have n: "0 < ?n" using assms(4) by (simp add: unat_gt_0)
  have "current_generation db v < i64_max" using Suc.prems(4) by (simp add: object_calls_def)
  then obtain db1 sm where run: "finalize_transaction env db v n = Inr (db1, sm)"
    using objects_phase_total [OF Suc.prems(1-3)] by blast
  then have call: "finalize_observation_scan env db v n = (db1, Inr sm)" using assms(4) by (simp add: finalize_Inr)
  note step = objects_phase_step [OF Suc.prems(1-3) run]
  show ?case
  proof (cases "fs_completed sm")
    case True
    then have "scan_settled db1 v s" using step(1,6,9) step(12) by (simp add: scan_settled_def)
    with True call step(2) show ?thesis by simp
  next
    case False
    then have le: "?n \<le> length (stale_objects db v ?c)" using step(6) by simp
    have calls: "object_calls db v ?c n = Suc (object_calls db1 v ?c n)"
      using div_step [OF le n] step(9) by (simp add: object_calls_def)
    have "\<exists>db' sm. finalize_within k env db1 v n = (db', Inr sm) \<and> fs_completed sm \<and> scan_settled db' v s
        \<and> graph_file_links db' = graph_file_links db1"
      by (rule Suc.IH) (use step(1,10,11) False Suc.prems(3-5) calls in auto)
    with False call step(2) show ?thesis by simp
  qed
qed

text \<open>C29: finalisation always ends. From a session whose checkpoint is staged, repeated calls complete
  after as many calls as the stale rows need at the requested page size, provided the volume's
  generation and the outbox sequence have room for them. Then the session is gone, the staged
  checkpoint is the provider checkpoint, the volume is online, no object is left stale, and the links
  are exactly those the scan observed together with the links of other volumes.\<close>

theorem finalize_converges:
  assumes "graph_ok db" and "find_session db v = Some s" and "s_phase s = SweepingLinks" and "n \<noteq> 0"
    and "deletes_serialise env"
    and "current_generation db v + int (link_calls db v (s_scan_generation s) n
           + object_calls db v (s_scan_generation s) n) \<le> i64_max"
    and "high_water db + int (length (stale_links db v (s_scan_generation s))) \<le> i64_max"
    and "link_calls db v (s_scan_generation s) n + object_calls db v (s_scan_generation s) n \<le> k"
  shows "\<exists>db' sm. finalize_within k env db v n = (db', Inr sm) \<and> fs_completed sm \<and> scan_settled db' v s
    \<and> graph_file_links db' = filter (\<lambda>r. \<not> stale_link v (s_scan_generation s) r) (graph_file_links db)"
  using assms(1-3,6-8)
proof (induction k arbitrary: db)
  case 0
  then show ?case by (simp add: link_calls_def)
next
  case (Suc k)
  let ?c = "s_scan_generation s" and ?n = "unat n"
  have n: "0 < ?n" using assms(4) by (simp add: unat_gt_0)
  have "current_generation db v < i64_max" using Suc.prems(4) by (simp add: link_calls_def)
  then obtain db1 sm where run: "finalize_transaction env db v n = Inr (db1, sm)"
    using links_phase_total [OF Suc.prems(1-3) assms(5) _ Suc.prems(5)] by blast
  then have call: "finalize_observation_scan env db v n = (db1, Inr sm)" using assms(4) by (simp add: finalize_Inr)
  note step = links_phase_step [OF Suc.prems(1-3) run]
  have rest: "finalize_within (Suc k) env db v n = finalize_within k env db1 v n"
    using call step(9) by simp
  have objs: "object_calls db1 v ?c n = object_calls db v ?c n" using step(5) by (simp add: object_calls_def)
  show ?case
  proof (cases "length (stale_links db v ?c) < ?n")
    case True
    let ?s = "s\<lparr>s_phase := SweepingObjects\<rparr>"
    have one: "link_calls db v ?c n = 1" using True by (simp add: link_calls_def)
    have "filter (stale_link v ?c) (graph_file_links db1) = []" using step(3) True by simp
    then have "graph_file_links db1 = filter (\<lambda>r. \<not> stale_link v ?c r) (graph_file_links db1)"
      by (simp add: filter_empty_conv filter_id_conv)
    then have links: "graph_file_links db1 = filter (\<lambda>r. \<not> stale_link v ?c r) (graph_file_links db)"
      using step(4) by simp
    have "\<exists>db' sm. finalize_within k env db1 v n = (db', Inr sm) \<and> fs_completed sm \<and> scan_settled db' v ?s
        \<and> graph_file_links db' = graph_file_links db1"
      by (rule objects_converge [OF step(1)])
         (use step(2,6) True assms(4) objs one Suc.prems(4,6) in auto)
    then show ?thesis using rest links by (simp add: scan_settled_def)
  next
    case False
    have calls: "link_calls db v ?c n = Suc (link_calls db1 v ?c n)"
      using div_step [of ?n "length (stale_links db v ?c)"] n False step(3) by (simp add: link_calls_def)
    have "int (length (stale_links db1 v ?c)) = int (length (stale_links db v ?c)) - int ?n"
      using False step(3) by (simp add: of_nat_diff)
    then have "high_water db1 + int (length (stale_links db1 v ?c)) \<le> i64_max"
      using step(7) False Suc.prems(5) by simp
    then have "\<exists>db' sm. finalize_within k env db1 v n = (db', Inr sm) \<and> fs_completed sm \<and> scan_settled db' v s
        \<and> graph_file_links db' = filter (\<lambda>r. \<not> stale_link v ?c r) (graph_file_links db1)"
      using step(1,2,6) False Suc.prems(3,4,6) calls objs by (intro Suc.IH) auto
    then show ?thesis using rest step(4) by simp
  qed
qed

section \<open>Beginning and observing\<close>

text \<open>Rows are never newer than their volume's generation, nor is a scan.\<close>

definition observed_ok :: "graph_db \<Rightarrow> bool" where
  "observed_ok db \<longleftrightarrow>
     (\<forall>r \<in> set (graph_file_links db). l_observation_generation r \<le> current_generation db (fk_volume_id (l_object r)))
   \<and> (\<forall>r \<in> set (graph_file_objects db). o_observation_generation r \<le> current_generation db (fk_volume_id (o_key r)))
   \<and> (\<forall>s \<in> set (graph_volume_observation_sessions db). s_scan_generation s \<le> current_generation db (s_volume_id s))"

lemma observed_ok_empty: "observed_ok empty_db"
  by (simp add: observed_ok_def empty_db_def)

lemma begin_Inr:
  "begin_observation_scan db d mode reason = (db', Inr sess) \<Longrightarrow>
     \<exists>g g'. begin_transaction db d mode reason = Inr (db', g) \<and> u64_try_from_i64 g = Some g'
       \<and> sess = \<lparr>os_volume_id = vd_volume_id d, os_scan_generation = g', os_mode = mode, os_phase = Scanning\<rparr>"
  by (auto simp: begin_observation_scan_def transact_def result_simps split: sum.splits prod.splits)

lemma begin_result:
  assumes "begin_transaction db d mode reason = Inr (db', g)"
  defines "v \<equiv> vd_volume_id d"
  shows "g = current_generation db v + 1" and "graph_file_links db' = graph_file_links db"
    and "graph_file_objects db' = graph_file_objects db"
    and "graph_provider_checkpoints db' = graph_provider_checkpoints db"
    and "graph_catalog_documents db' = graph_catalog_documents db"
    and "graph_projection_outbox db' = graph_projection_outbox db"
    and "current_generation db' w = (if w = v then g else current_generation db w)"
    and "\<exists>r. find_volume db' v = Some r \<and> v_state r = NeedsReconciliation \<and> v_reconciliation_reason r = Some reason"
    and "find_session db' w = (if w = v then Some \<lparr>s_volume_id = v, s_scan_generation = g, s_scan_mode = mode,
       s_phase = Scanning, s_final_provider_id = None, s_final_format_version = None,
       s_final_checkpoint = None\<rparr> else find_session db w)"
proof -
  let ?row = "\<lparr>s_volume_id = v, s_scan_generation = g, s_scan_mode = mode,
       s_phase = Scanning, s_final_provider_id = None, s_final_format_version = None,
       s_final_checkpoint = None\<rparr>"
  let ?start = "update_volume (upsert_volume db d) v NeedsReconciliation (Some reason) g"
  from assms(1) obtain db1 n where g: "g = current_generation db v + 1"
    and enq: "enqueue_volume_projection_refresh ?start v g = Inr (db1, n)"
    and db': "db' = db1\<lparr>graph_volume_observation_sessions :=
       tbl_upsert s_volume_id session_merge ?row (graph_volume_observation_sessions db1)\<rparr>"
    unfolding v_def by (rule begin_transaction_cases)
  obtain js where db1: "db1 = ?start\<lparr>graph_volume_projection_refresh_jobs := js\<rparr>"
    using enqueue_volume_result [OF enq] by blast
  show "g = current_generation db v + 1" by (rule g)
  show "graph_file_links db' = graph_file_links db" "graph_file_objects db' = graph_file_objects db"
    "graph_provider_checkpoints db' = graph_provider_checkpoints db"
    "graph_catalog_documents db' = graph_catalog_documents db"
    "graph_projection_outbox db' = graph_projection_outbox db"
    by (simp_all add: db' db1 update_volume_def upsert_volume_def)
  have vol: "find_volume db' w = (if w = v then map_option (\<lambda>r. r\<lparr>v_state := NeedsReconciliation,
      v_reconciliation_reason := Some reason, v_generation := g\<rparr>) (find_volume (upsert_volume db d) w)
      else find_volume (upsert_volume db d) w)" for w
    by (simp add: db' db1 update_volume_def tbl_find_update_key)
  have up: "find_volume (upsert_volume db d) v \<noteq> None" "w \<noteq> v \<Longrightarrow> find_volume (upsert_volume db d) w = find_volume db w" for w
    by (simp_all add: upsert_volume_def volumes_table.find_upsert v_def)
  show "current_generation db' w = (if w = v then g else current_generation db w)"
    using up vol [of w] by (auto simp: current_generation_def)
  show "\<exists>r. find_volume db' v = Some r \<and> v_state r = NeedsReconciliation \<and> v_reconciliation_reason r = Some reason"
    using up(1) vol [of v] by auto
  have "session_merge ?row old = ?row" if "s_volume_id old = v" for old
    using that by (cases old) (simp add: session_merge_def)
  then show "find_session db' w = (if w = v then Some ?row else find_session db w)"
    by (auto simp: db' db1 update_volume_def upsert_volume_def sessions_table.find_upsert
        dest: tbl_find_Some split: option.splits)
qed

lemma observed_ok_begin:
  assumes "graph_ok db" and "observed_ok db" and tx: "begin_transaction db d mode reason = Inr (db', g)"
  shows "observed_ok db'"
proof -
  define v where "v = vd_volume_id d"
  note res = begin_result [OF tx, folded v_def]
  have mono: "current_generation db w \<le> current_generation db' w" for w using res(1,7) by simp
  show ?thesis
    unfolding observed_ok_def
  proof (intro conjI ballI)
    fix s assume s: "s \<in> set (graph_volume_observation_sessions db')"
    have "find_session db' (s_volume_id s) = Some s"
      using graph_ok_begin(1) [OF assms(1) tx] s
      by (simp add: graph_ok_def store_ok_def schema_ok_def keys_ok_def tbl_find_distinct)
    then have found: "Some s = (if s_volume_id s = v then Some \<lparr>s_volume_id = v, s_scan_generation = g,
        s_scan_mode = mode, s_phase = Scanning, s_final_provider_id = None, s_final_format_version = None,
        s_final_checkpoint = None\<rparr> else find_session db (s_volume_id s))"
      using res(9) [of "s_volume_id s"] by simp
    show "s_scan_generation s \<le> current_generation db' (s_volume_id s)"
    proof (cases "s_volume_id s = v")
      case True
      with found have "s_scan_generation s = g" by (metis option.inject session_row.select_convs(2))
      with True res(7) [of v] show ?thesis by simp
    next
      case False
      with found have "s \<in> set (graph_volume_observation_sessions db)" by (metis tbl_find_Some)
      then show ?thesis using assms(2) mono [of "s_volume_id s"] by (fastforce simp: observed_ok_def)
    qed
  qed (use assms(2) mono res(2,3) in \<open>auto simp: observed_ok_def intro: order_trans\<close>)
qed

text \<open>Beginning a scan opens a session whose generation is newer than every row stored for the
  volume, so all of them are stale until observed again, and changes no graph row, projection or
  checkpoint; the volume is marked as needing reconciliation for the given reason.\<close>

theorem begin_marks_everything_stale:
  assumes "graph_ok db" and "observed_ok db" and "begin_observation_scan db d mode reason = (db', Inr sess)"
  defines "v \<equiv> vd_volume_id d"
  shows "graph_ok db' \<and> observed_ok db'
    \<and> (\<exists>s. find_session db' v = Some s \<and> s_phase s = Scanning \<and> s_scan_mode s = mode
         \<and> os_scan_generation sess = word_of_int (s_scan_generation s)
         \<and> (\<forall>r. r \<in> set (graph_file_links db') \<and> fk_volume_id (l_object r) = v \<longrightarrow> stale_link v (s_scan_generation s) r)
         \<and> (\<forall>r. r \<in> set (graph_file_objects db') \<and> fk_volume_id (o_key r) = v \<longrightarrow> o_observation_generation r < s_scan_generation s))
    \<and> graph_file_links db' = graph_file_links db \<and> graph_file_objects db' = graph_file_objects db
    \<and> graph_provider_checkpoints db' = graph_provider_checkpoints db
    \<and> graph_catalog_documents db' = graph_catalog_documents db
    \<and> graph_projection_outbox db' = graph_projection_outbox db
    \<and> volume_state db' v = Inr NeedsReconciliation"
proof -
  from begin_Inr [OF assms(3)] obtain g where tx: "begin_transaction db d mode reason = Inr (db', g)"
    and sess: "os_scan_generation sess = word_of_int g" by (auto simp: u64_try_from_i64_Some)
  note res = begin_result [OF tx, folded v_def]
  have "l_observation_generation r < g" if "r \<in> set (graph_file_links db)" "fk_volume_id (l_object r) = v" for r
    using assms(2) res(1) that by (fastforce simp: observed_ok_def)
  moreover have "o_observation_generation r < g" if "r \<in> set (graph_file_objects db)" "fk_volume_id (o_key r) = v" for r
    using assms(2) res(1) that by (fastforce simp: observed_ok_def)
  ultimately show ?thesis
    using graph_ok_begin(1) [OF assms(1) tx] observed_ok_begin [OF assms(1,2) tx] res(2-6,8) res(9) [of v] sess
    by (auto simp: stale_link_def volume_state_def)
qed

lemma upsert_link_rows:
  assumes "schema_ok db" and "upsert_link db link b g = Inr (db', n)" and "r \<in> set (graph_file_links db')"
  shows "r \<in> set (graph_file_links db) \<and> l_file_link_id r \<noteq> lnk_file_link_id link
    \<or> l_file_link_id r = lnk_file_link_id link \<and> l_observation_generation r = g \<and> l_object r = lnk_object_key link"
proof -
  from assms(2) obtain db1 db2 db3 where
      db1: "remove_stale_conflicts db (stale_observation_link_conflicts db link) g = Inr db1"
    and ch: "link_change_refresh db1 link g = Inr (db2, n)"
    and db3: "insert_link db2 link b g = Inr db3"
    and db': "db' = set_tombstoned db3 (lnk_object_key link) False"
    by (rule upsert_link_cases)
  have same: "graph_file_links db2 = graph_file_links db1"
    using link_change_refresh_cases(1) [OF ch] enqueue_refresh_links by blast
  have ins: "graph_file_links db3 = tbl_upsert l_file_link_id link_merge (link_row_of link b g) (graph_file_links db1)"
    using db3 same by (auto simp: insert_link_def split: if_splits)
  have keys: "distinct (map l_file_link_id (graph_file_links db1))"
    using schema_ok_remove_stale_conflicts [OF assms(1) db1] by (simp add: schema_ok_def keys_ok_def)
  have obj: "l_object old = lnk_object_key link"
    if "old \<in> set (graph_file_links db1)" "l_file_link_id old = lnk_file_link_id link" for old
    using link_change_refresh_cases(2) [OF ch] keys that by (simp add: tbl_find_distinct)
  from assms(3) ins db' have "r \<in> set (tbl_upsert l_file_link_id link_merge (link_row_of link b g) (graph_file_links db1))"
    by simp
  from links_table.in_upsert [OF this] show ?thesis
    using obj remove_stale_conflicts_links [OF db1] by (auto simp: link_row_of_def link_merge_def)
qed

lemma apply_mutation_link_rows:
  assumes "schema_ok db" and "apply_mutation db m g = Inr (db', n)" and "r \<in> set (graph_file_links db')"
  shows "r \<in> set (graph_file_links db)
    \<or> l_observation_generation r = g \<and> fk_volume_id (l_object r) \<in> mutation_volumes m"
  using apply_mutation_links [OF assms(2,3)] upsert_link_rows [OF assms(1)] assms(2,3) by fastforce

interpretation object_rows_frame: link_statement_invariant
  "\<lambda>db. \<forall>r \<in> set (graph_file_objects db). (o_key r, o_observation_generation r) \<in> c" for c
  by unfold_locales (auto simp: set_tombstoned_def set_tbl_update)

lemma apply_mutation_object_rows:
  assumes "apply_mutation db m g = Inr (db', n)" and "r \<in> set (graph_file_objects db')"
  shows "(o_key r, o_observation_generation r) \<in> (\<lambda>w. (o_key w, o_observation_generation w)) ` set (graph_file_objects db)
    \<or> o_observation_generation r = g \<and> fk_volume_id (o_key r) \<in> mutation_volumes m"
proof -
  let ?c = "(\<lambda>w. (o_key w, o_observation_generation w)) ` set (graph_file_objects db)"
  have start: "\<forall>r \<in> set (graph_file_objects db). (o_key r, o_observation_generation r) \<in> ?c" by simp
  show ?thesis
  proof (cases m)
    case (UpsertObject obj)
    then obtain sz where "graph_file_objects db' =
        tbl_upsert o_key object_merge (object_row_of obj sz g) (graph_file_objects db)"
      using assms(1) by (auto simp: upsert_object_def result_simps split: if_splits)
    then have "r \<in> set (tbl_upsert o_key object_merge (object_row_of obj sz g) (graph_file_objects db))"
      using assms(2) by simp
    from objects_table.in_upsert [OF this] show ?thesis
      using UpsertObject by (auto simp: object_row_of_def object_merge_def)
  next
    case (UpsertLink link b)
    then show ?thesis using object_rows_frame.keeps_upsert_link [OF start] assms by fastforce
  next
    case (RemoveLink l k)
    then show ?thesis using object_rows_frame.keeps_remove_link_internal [OF start] assms by (fastforce simp: remove_link_def)
  next
    case (TombstoneObject k)
    then show ?thesis
      using assms object_rows_frame.keeps_tombstone [OF start, of k True]
      by (auto simp: result_simps tombstone_object_def split: if_splits)
  qed (use assms in \<open>auto simp: result_simps upsert_volume_def set_volume_state_def require_reconciliation_def
        enqueue_volume_projection_refresh_def split: if_splits\<close>)
qed

text \<open>Rows after a list of mutations: as before, or observed with the batch's generation.\<close>

lemma apply_mutations_rows:
  assumes "apply_mutations db ms g = Inr (db', jobs, affected)" and "schema_ok db"
    and "\<forall>m \<in> set ms. mutation_volumes m \<subseteq> {v}"
  shows "schema_ok db'"
    and "r \<in> set (graph_file_links db') \<Longrightarrow> r \<in> set (graph_file_links db)
       \<or> l_observation_generation r = g \<and> fk_volume_id (l_object r) = v"
    and "w \<in> set (graph_file_objects db') \<Longrightarrow>
       (o_key w, o_observation_generation w) \<in> (\<lambda>w. (o_key w, o_observation_generation w)) ` set (graph_file_objects db)
       \<or> o_observation_generation w = g \<and> fk_volume_id (o_key w) = v"
    and "UpsertLink link b \<in> set ms \<Longrightarrow> r \<in> set (graph_file_links db') \<Longrightarrow> l_file_link_id r = lnk_file_link_id link
       \<Longrightarrow> l_observation_generation r = g"
proof -
  have "schema_ok db'
    \<and> (\<forall>r \<in> set (graph_file_links db'). r \<in> set (graph_file_links db) \<or> l_observation_generation r = g \<and> fk_volume_id (l_object r) = v)
    \<and> (\<forall>w \<in> set (graph_file_objects db').
       (o_key w, o_observation_generation w) \<in> (\<lambda>w. (o_key w, o_observation_generation w)) ` set (graph_file_objects db)
       \<or> o_observation_generation w = g \<and> fk_volume_id (o_key w) = v)
    \<and> (\<forall>link b r. UpsertLink link b \<in> set ms \<and> r \<in> set (graph_file_links db') \<and> l_file_link_id r = lnk_file_link_id link
       \<longrightarrow> l_observation_generation r = g)"
    using assms(1,3)
  proof (induction ms arbitrary: db' jobs affected rule: rev_induct)
    case Nil
    then show ?case using assms(2) by (auto simp: apply_mutations_def)
  next
    case (snoc m ms)
    then obtain db1 j1 a1 n where 1: "apply_mutations db ms g = Inr (db1, j1, a1)" "apply_mutation db1 m g = Inr (db', n)"
      by (auto simp: apply_mutations_snoc)
    have vol: "mutation_volumes m \<subseteq> {v}" "\<forall>m \<in> set ms. mutation_volumes m \<subseteq> {v}" using snoc.prems(2) by simp_all
    note IH = snoc.IH [OF 1(1) vol(2)]
    have ok1: "schema_ok db1" using IH by blast
    have ok: "schema_ok db'" by (rule schema_ok_apply_mutation [OF ok1 1(2)])
    have links: "r \<in> set (graph_file_links db) \<or> l_observation_generation r = g \<and> fk_volume_id (l_object r) = v"
      if "r \<in> set (graph_file_links db')" for r
      using apply_mutation_link_rows [OF ok1 1(2) that] IH vol(1) by blast
    have objects: "(o_key w, o_observation_generation w) \<in> (\<lambda>w. (o_key w, o_observation_generation w)) ` set (graph_file_objects db)
       \<or> o_observation_generation w = g \<and> fk_volume_id (o_key w) = v" if "w \<in> set (graph_file_objects db')" for w
      using apply_mutation_object_rows [OF 1(2) that] IH vol(1) by fastforce
    have fresh: "l_observation_generation r = g"
      if "UpsertLink link b \<in> set (ms @ [m])" "r \<in> set (graph_file_links db')" "l_file_link_id r = lnk_file_link_id link" for link b r
    proof (cases "m = UpsertLink link b")
      case True
      then show ?thesis using upsert_link_rows [OF ok1 _ that(2), of link b g n] 1(2) that(3) by auto
    next
      case False
      with that(1) have "UpsertLink link b \<in> set ms" by simp
      then show ?thesis using apply_mutation_link_rows [OF ok1 1(2) that(2)] IH that(3) by blast
    qed
    show ?case using ok links objects fresh by blast
  qed
  then show "schema_ok db'"
    and "r \<in> set (graph_file_links db') \<Longrightarrow> r \<in> set (graph_file_links db)
       \<or> l_observation_generation r = g \<and> fk_volume_id (l_object r) = v"
    and "w \<in> set (graph_file_objects db') \<Longrightarrow>
       (o_key w, o_observation_generation w) \<in> (\<lambda>w. (o_key w, o_observation_generation w)) ` set (graph_file_objects db)
       \<or> o_observation_generation w = g \<and> fk_volume_id (o_key w) = v"
    and "UpsertLink link b \<in> set ms \<Longrightarrow> r \<in> set (graph_file_links db') \<Longrightarrow> l_file_link_id r = lnk_file_link_id link
       \<Longrightarrow> l_observation_generation r = g" by blast+
qed

lemma batch_rows:
  assumes "graph_ok db" and "graph_batch_validate b = Inr ()" and "batch_transaction env db b mode = Inr (db', g, jobs, n)"
  obtains db1 affected where "g = current_generation db (gb_volume_id b) + 1"
    and "\<forall>m \<in> set (gb_mutations b). mutation_volumes m \<subseteq> {gb_volume_id b}"
    and "apply_mutations db (gb_mutations b) g = Inr (db1, jobs, affected)"
    and "graph_file_links db' = graph_file_links db1" and "graph_file_objects db' = graph_file_objects db1"
    and "graph_volume_observation_sessions db' = graph_volume_observation_sessions db"
    and "\<And>w. current_generation db' w = (if w = gb_volume_id b then g else current_generation db w)"
proof -
  let ?v = "gb_volume_id b"
  have iso: "\<forall>m \<in> set (gb_mutations b). mutation_volumes m \<subseteq> {?v}"
    using assms(2) by (simp add: graph_batch_validate_def validate_mutations_iff split: if_splits)
  from assms(3) obtain db1 affected db2 row where g: "g = current_generation db ?v + 1"
    and 1: "apply_mutations db (gb_mutations b) g = Inr (db1, jobs, affected)"
      "sync_links env db1 affected g mode = Inr (db2, n)" "find_volume db2 ?v \<noteq> None"
    and cp: "upsert_checkpoint (set_generation db2 ?v g) row = Inr db'"
    by (rule batch_transaction_cases)
  have part: "graph_part db2 = graph_part db1"
    using 1(2) by (rule sync_links_invariant) (simp_all add: sync_frame(1))
  obtain cs where db': "db' = (set_generation db2 ?v g)\<lparr>graph_provider_checkpoints := cs\<rparr>"
    using cp by (auto simp: upsert_checkpoint_def split: if_splits)
  have sess: "graph_volume_observation_sessions db' = graph_volume_observation_sessions db"
    using apply_mutations_projection_part [OF 1(1)] graph_part_eq_fields(8) [OF part]
    by (simp add: db' projection_part_def)
  have gen: "current_generation db' w = (if w = ?v then g else current_generation db w)" for w
    using 1(3) find_volume_set_generation [of w db2 ?v g] graph_part_eq_fields(1) [OF part]
      find_volume_apply_mutations [OF 1(1) iso, of w]
    by (auto simp: db' current_generation_def comp_def split: option.splits)
  show thesis
    by (rule that [OF g iso 1(1) _ _ sess gen]) (use graph_part_eq_fields(3,4) [OF part] in \<open>simp_all add: db'\<close>)
qed

lemma observed_ok_batch:
  assumes "graph_ok db" and "observed_ok db" and "graph_batch_validate b = Inr ()"
    and "batch_transaction env db b mode = Inr (db', g, jobs, n)"
  shows "observed_ok db'"
proof -
  from assms(1,3,4) obtain db1 affected where g: "g = current_generation db (gb_volume_id b) + 1"
    and iso: "\<forall>m \<in> set (gb_mutations b). mutation_volumes m \<subseteq> {gb_volume_id b}"
    and run: "apply_mutations db (gb_mutations b) g = Inr (db1, jobs, affected)"
    and same: "graph_file_links db' = graph_file_links db1" "graph_file_objects db' = graph_file_objects db1"
      "graph_volume_observation_sessions db' = graph_volume_observation_sessions db"
    and gen: "\<And>w. current_generation db' w = (if w = gb_volume_id b then g else current_generation db w)"
    by (rule batch_rows) blast
  have "schema_ok db" using assms(1) by (simp add: graph_ok_def store_ok_def)
  note rows = apply_mutations_rows [OF run this iso]
  have mono: "current_generation db w \<le> current_generation db' w" for w using g gen by simp
  show ?thesis
    unfolding observed_ok_def
  proof (intro conjI ballI)
    fix r assume "r \<in> set (graph_file_links db')"
    then show "l_observation_generation r \<le> current_generation db' (fk_volume_id (l_object r))"
      using rows(2) [of r] same gen mono assms(2) by (fastforce simp: observed_ok_def intro: order_trans)
  next
    fix w assume "w \<in> set (graph_file_objects db')"
    then show "o_observation_generation w \<le> current_generation db' (fk_volume_id (o_key w))"
      using rows(3) [of w] same gen mono assms(2) by (fastforce simp: observed_ok_def intro: order_trans)
  next
    fix s assume "s \<in> set (graph_volume_observation_sessions db')"
    then show "s_scan_generation s \<le> current_generation db' (s_volume_id s)"
      using same mono assms(2) by (fastforce simp: observed_ok_def intro: order_trans)
  qed
qed

lemma scan_page_Inr:
  assumes "graph_ok db" and "find_session db v = Some s" and "apply_observation_scan_page env db v events = (db', Inr sm)"
  shows "s_phase s = Scanning"
    and "db' = db \<and> events = [] \<or> (\<exists>cp. apply_batch_with_outbox_mode env db (from_events v cp events) Durable = (db', Inr sm))"
  using assms(3) session_volume(1) [OF assms(1,2)]
  by (auto simp: apply_observation_scan_page_def observation_session_def assms(2) result_simps session_check_def
      u64_try_from_i64_def apply_batch_def split: if_splits)

text \<open>A scan page is accepted only while its volume is being scanned, leaves the session and the
  invariants in place, and makes what it observes fresh: every link row it writes is newer than the
  scan, so no sweep of this scan removes it, and a link it observed is never left stale.\<close>

theorem scan_page_makes_fresh:
  assumes "graph_ok db" and "observed_ok db" and "find_session db v = Some s"
    and "apply_observation_scan_page env db v events = (db', Inr sm)"
  shows "s_phase s = Scanning \<and> graph_ok db' \<and> observed_ok db' \<and> find_session db' v = Some s
    \<and> (\<forall>r \<in> set (graph_file_links db'). r \<in> set (graph_file_links db) \<or> \<not> stale_link v (s_scan_generation s) r)
    \<and> (\<forall>link r. LinkObserved link \<in> set events \<and> r \<in> set (graph_file_links db')
         \<and> l_file_link_id r = lnk_file_link_id link \<longrightarrow> \<not> stale_link v (s_scan_generation s) r)"
proof -
  note page = scan_page_Inr [OF assms(1,3,4)]
  show ?thesis
  proof (cases "events = [] \<and> db' = db")
    case True
    with page(1) assms(1-3) show ?thesis by simp
  next
    case False
    with page(2) obtain cp where
      "apply_batch_with_outbox_mode env db (from_events v cp events) Durable = (db', Inr sm)" by auto
    then obtain g jobs n where valid: "graph_batch_validate (from_events v cp events) = Inr ()"
      and tx: "batch_transaction env db (from_events v cp events) Durable = Inr (db', g, jobs, n)"
      by (auto simp: apply_batch_Inr)
    from assms(1) valid tx obtain db1 affected where g: "g = current_generation db v + 1"
      and iso: "\<forall>m \<in> set (map mutation_of_event events). mutation_volumes m \<subseteq> {v}"
      and run: "apply_mutations db (map mutation_of_event events) g = Inr (db1, jobs, affected)"
      and same: "graph_file_links db' = graph_file_links db1"
        "graph_volume_observation_sessions db' = graph_volume_observation_sessions db"
      by (rule batch_rows) (simp add: from_events_def)
    have schema: "schema_ok db" using assms(1) by (simp add: graph_ok_def store_ok_def)
    note rows = apply_mutations_rows [OF run schema iso]
    have newer: "s_scan_generation s < g"
      using assms(2,3) g by (fastforce simp: observed_ok_def dest: tbl_find_Some)
    have "\<not> stale_link v (s_scan_generation s) r"
      if "LinkObserved link \<in> set events" "r \<in> set (graph_file_links db')" "l_file_link_id r = lnk_file_link_id link" for link r
    proof -
      have "UpsertLink link False \<in> set (map mutation_of_event events)"
        using that(1) by (metis image_eqI list.set_map mutation_of_event.simps(2))
      then show ?thesis using rows(4) [of link False r] that(2,3) same newer by (auto simp: stale_link_def)
    qed
    moreover have "r \<in> set (graph_file_links db) \<or> \<not> stale_link v (s_scan_generation s) r"
      if "r \<in> set (graph_file_links db')" for r
      using rows(2) [of r] that same newer by (auto simp: stale_link_def)
    ultimately show ?thesis
      using page(1) graph_ok_batch_transaction(1) [OF assms(1) tx] observed_ok_batch [OF assms(1,2) valid tx]
        same(2) assms(3) by auto
  qed
qed

lemma scanning_row_count:
  assumes "graph_ok db"
  shows "tbl_count (\<lambda>s. s_volume_id s = v \<and> s_phase s = Scanning) (graph_volume_observation_sessions db)
    = (case find_session db v of Some s \<Rightarrow> if s_phase s = Scanning then 1 else 0 | None \<Rightarrow> 0)"
proof -
  have "distinct (map s_volume_id t) \<Longrightarrow> tbl_count (\<lambda>s. s_volume_id s = v \<and> s_phase s = Scanning) t
      = (case tbl_find s_volume_id v t of Some s \<Rightarrow> if s_phase s = Scanning then 1 else 0 | None \<Rightarrow> 0)" for t
    by (induction t) (auto simp: tbl_count_def tbl_find_Cons filter_empty_conv image_iff split: option.splits dest!: tbl_find_Some)
  moreover have "distinct (map s_volume_id (graph_volume_observation_sessions db))"
    using assms by (simp add: graph_ok_def store_ok_def schema_ok_def keys_ok_def)
  ultimately show ?thesis by blast
qed

lemma tbl_update_none: "\<forall>r \<in> set t. \<not> p r \<Longrightarrow> tbl_update p f t = t"
  by (simp add: tbl_update_def map_idI)

lemma graph_ok_stage:
  assumes "graph_ok db"
  shows "graph_ok (fst (stage_observation_checkpoint db v cp))"
proof (cases "pc_volume_id cp = v")
  case True
  let ?p = "\<lambda>s. s_volume_id s = v \<and> s_phase s = Scanning"
  let ?f = "\<lambda>s. s\<lparr>s_phase := SweepingLinks, s_final_provider_id := Some (pc_provider_id cp),
                     s_final_format_version := Some (uint (pc_format_version cp)),
                     s_final_checkpoint := Some (pc_opaque cp)\<rparr>"
  have "graph_ok (db\<lparr>graph_volume_observation_sessions := tbl_update ?p ?f (graph_volume_observation_sessions db)\<rparr>)"
  proof (rule graph_ok_with_sessions [OF assms])
    show "distinct (map s_volume_id (tbl_update ?p ?f (graph_volume_observation_sessions db)))"
      using assms by (simp add: map_key_update graph_ok_def store_ok_def schema_ok_def keys_ok_def)
    fix x assume "x \<in> set (tbl_update ?p ?f (graph_volume_observation_sessions db))"
    then obtain y where y: "y \<in> set (graph_volume_observation_sessions db)" "x = (if ?p y then ?f y else y)"
      by (auto simp: set_tbl_update)
    show "find_volume db (s_volume_id x) \<noteq> None \<and> session_check x"
      using graph_ok_session [OF assms y(1)] y(2) by (auto simp: session_check_def)
  qed
  with True show ?thesis by (simp add: stage_observation_checkpoint_def Let_def)
qed (use assms in \<open>simp add: stage_observation_checkpoint_def\<close>)

text \<open>The phases of a session are enforced. Without a scanning session a scan page and a final
  checkpoint are refused; without a staged checkpoint finalisation is refused; a refused call
  changes nothing. A final checkpoint of the right volume is accepted exactly while scanning and
  moves the session to the sweep of links, recording the checkpoint.\<close>

theorem observation_phase_guards:
  assumes "graph_ok db" and "n \<noteq> 0"
  shows "((\<nexists>s. find_session db v = Some s \<and> s_phase s = Scanning) \<longrightarrow>
      (\<exists>e. apply_observation_scan_page env db v events = (db, Inl e))
    \<and> (\<exists>e. stage_observation_checkpoint db v cp = (db, Inl e)))
    \<and> ((\<nexists>s. find_session db v = Some s \<and> s_phase s \<noteq> Scanning) \<longrightarrow>
      (\<exists>e. finalize_observation_scan env db v n = (db, Inl e)))
    \<and> (\<forall>s. find_session db v = Some s \<and> s_phase s = Scanning \<and> pc_volume_id cp = v \<longrightarrow>
      (\<exists>db'. stage_observation_checkpoint db v cp = (db', Inr ())
        \<and> find_session db' v = Some (s\<lparr>s_phase := SweepingLinks, s_final_provider_id := Some (pc_provider_id cp),
             s_final_format_version := Some (uint (pc_format_version cp)), s_final_checkpoint := Some (pc_opaque cp)\<rparr>)))"
proof (intro conjI impI allI)
  assume none: "\<nexists>s. find_session db v = Some s \<and> s_phase s = Scanning"
  show "\<exists>e. apply_observation_scan_page env db v events = (db, Inl e)"
    using none session_volume(1) [OF assms(1), of v]
    by (auto simp: apply_observation_scan_page_def observation_session_def session_check_def
        u64_try_from_i64_def split: option.splits)
  have count: "tbl_count (\<lambda>s. s_volume_id s = v \<and> s_phase s = Scanning) (graph_volume_observation_sessions db) = 0"
    using none scanning_row_count [OF assms(1), of v] by (auto split: option.splits)
  then have "tbl_update (\<lambda>s. s_volume_id s = v \<and> s_phase s = Scanning) f (graph_volume_observation_sessions db)
      = graph_volume_observation_sessions db" for f
    by (simp add: tbl_count_zero tbl_update_none)
  then show "\<exists>e. stage_observation_checkpoint db v cp = (db, Inl e)"
    by (simp add: stage_observation_checkpoint_def Let_def require_single_update_def count)
next
  assume "\<nexists>s. find_session db v = Some s \<and> s_phase s \<noteq> Scanning"
  then show "\<exists>e. finalize_observation_scan env db v n = (db, Inl e)"
    using assms(2) by (cases "find_session db v") (auto simp: finalize_observation_scan_def finalize_transaction_def)
next
  fix s assume s: "find_session db v = Some s \<and> s_phase s = Scanning \<and> pc_volume_id cp = v"
  then show "\<exists>db'. stage_observation_checkpoint db v cp = (db', Inr ())
        \<and> find_session db' v = Some (s\<lparr>s_phase := SweepingLinks, s_final_provider_id := Some (pc_provider_id cp),
             s_final_format_version := Some (uint (pc_format_version cp)), s_final_checkpoint := Some (pc_opaque cp)\<rparr>)"
    using scanning_row_count [OF assms(1), of v] tbl_find_Some [of s_volume_id v "graph_volume_observation_sessions db" s]
    by (simp add: stage_observation_checkpoint_def Let_def require_single_update_def tbl_find_update)
qed

section \<open>A concrete scan\<close>

text \<open>The committed sample graph is scanned again; the scan sees only the directory.\<close>

definition total_env :: graph_env where
  "total_env = (sample_env [])\<lparr>env_mutation_to_json := (\<lambda>_. Some [])\<rparr>"

definition scanning :: graph_db where
  "scanning = fst (begin_observation_scan committed sample_volume Reconcile ProviderRequested)"

definition scanning_session :: ObservationSession where
  "scanning_session = \<lparr>os_volume_id = from_u128 1, os_scan_generation = 2, os_mode = Reconcile, os_phase = Scanning\<rparr>"

lemma scanning_run:
  "begin_observation_scan committed sample_volume Reconcile ProviderRequested = (scanning, Inr scanning_session)"
proof -
  have "snd (begin_observation_scan committed sample_volume Reconcile ProviderRequested) = Inr scanning_session"
    by code_simp
  then show ?thesis by (simp add: scanning_def prod_eq_iff)
qed

lemma committed_observed: "observed_ok committed"
  using observed_ok_batch [OF graph_ok_empty observed_ok_empty] sample_batch_commits_mode
  by (auto simp: apply_batch_Inr)

lemma scanning_ok: "graph_ok scanning" "observed_ok scanning"
  using graph_ok_begin(1) [OF committed_ok(1)] observed_ok_begin [OF committed_ok(1) committed_observed]
    begin_Inr [OF scanning_run] by blast+

definition scan_row :: session_row where
  "scan_row = \<lparr>s_volume_id = from_u128 1, s_scan_generation = 2, s_scan_mode = Reconcile, s_phase = Scanning,
     s_final_provider_id = None, s_final_format_version = None, s_final_checkpoint = None\<rparr>"

lemma scanning_row: "find_session scanning (from_u128 1) = Some scan_row"
  by code_simp

theorem begin_marks_everything_stale_witness:
  "graph_ok scanning \<and> observed_ok scanning \<and> volume_state scanning (from_u128 1) = Inr NeedsReconciliation"
  using begin_marks_everything_stale [OF committed_ok(1) committed_observed scanning_run]
  by (simp add: sample_volume_def)

definition scan_events :: "FilesystemEvent list" where
  "scan_events = [ObjectObserved (sample_object 2 Directory), LinkObserved (sample_snapshot 10 2 None ''docs'')]"

definition paged :: graph_db where
  "paged = fst (apply_observation_scan_page total_env scanning (from_u128 1) scan_events)"

lemma paged_run:
  "\<exists>sm. apply_observation_scan_page total_env scanning (from_u128 1) scan_events = (paged, Inr sm)"
proof -
  have "\<not> isl (snd (apply_observation_scan_page total_env scanning (from_u128 1) scan_events))" by code_simp
  from not_isl_Inr [OF this] show ?thesis by (auto simp: paged_def prod_eq_iff)
qed

theorem scan_page_makes_fresh_witness:
  "graph_ok paged \<and> observed_ok paged \<and> find_session paged (from_u128 1) = Some scan_row"
proof -
  obtain sm where "apply_observation_scan_page total_env scanning (from_u128 1) scan_events = (paged, Inr sm)"
    using paged_run by blast
  from scan_page_makes_fresh [OF scanning_ok scanning_row this] show ?thesis by blast
qed

theorem observation_phase_guards_witness:
  "\<exists>e. finalize_observation_scan total_env scanning (from_u128 1) 1 = (scanning, Inl e)"
proof -
  have "\<nexists>s. find_session scanning (from_u128 1) = Some s \<and> s_phase s \<noteq> Scanning"
    using scanning_row by (simp add: scan_row_def)
  then show ?thesis
    using observation_phase_guards [OF scanning_ok(1), of 1 "from_u128 1" total_env "[]" sample_checkpoint] by simp
qed

definition staged :: graph_db where
  "staged = fst (stage_observation_checkpoint scanning (from_u128 1) sample_checkpoint)"

lemma staged_ok: "graph_ok staged"
  unfolding staged_def by (rule graph_ok_stage [OF scanning_ok(1)])

definition staged_row :: session_row where
  "staged_row = scan_row\<lparr>s_phase := SweepingLinks, s_final_provider_id := Some ''windows-ntfs-usn'',
     s_final_format_version := Some 1, s_final_checkpoint := Some [1, 2]\<rparr>"

lemma staged_row: "find_session staged (from_u128 1) = Some staged_row"
  by code_simp

lemma staged_row_fields: "s_phase staged_row = SweepingLinks" "s_scan_generation staged_row = 2"
  by (simp_all add: staged_row_def scan_row_def)

lemma staged_work:
  "length (stale_links staged (from_u128 1) 2) = 2" "length (stale_objects staged (from_u128 1) 2) = 0"
  "current_generation staged (from_u128 1) = 2" "high_water staged = 2"
  by code_simp+

theorem finalize_converges_witness:
  "\<exists>db' sm. finalize_within 4 total_env staged (from_u128 1) 1 = (db', Inr sm) \<and> fs_completed sm
     \<and> scan_settled db' (from_u128 1) staged_row"
proof -
  have "deletes_serialise total_env" by (simp add: deletes_serialise_def total_env_def)
  from finalize_converges [OF staged_ok staged_row staged_row_fields(1) _ this, of 1 4] show ?thesis
    by (auto simp: link_calls_def object_calls_def staged_row_fields(2) staged_work i64_max_def)
qed

definition delete_env :: graph_env where
  "delete_env = sample_env [Delete (from_u128 10) (DocumentVersion 3)]"

definition swept_once :: graph_db where
  "swept_once = fst (finalize_observation_scan delete_env staged (from_u128 1) 1)"

lemma swept_once_run: "\<exists>sm. finalize_observation_scan delete_env staged (from_u128 1) 1 = (swept_once, Inr sm)"
proof -
  have "\<not> isl (snd (finalize_observation_scan delete_env staged (from_u128 1) 1))" by code_simp
  from not_isl_Inr [OF this] show ?thesis by (auto simp: swept_once_def prod_eq_iff)
qed


theorem finalize_outbox_refines_witness: "\<exists>ms. outbox_extends delete_env staged swept_once ms"
  using finalize_outbox_refines [OF staged_ok _] json_round_trip_sample swept_once_run
  unfolding delete_env_def by blast

end
