(* ===== verification/Pipeline.thy ===== *)
theory Pipeline
  imports Projector Graph_Observation
begin

text \<open>
  The graph and the catalog together: every public operation of the graph that changes rows, and every
  run of the projection worker, as the steps of one system whose state is the database and the
  directory of generations.

  Shown: from an empty database, whatever sequence of operations commits or fails, the database is
  well formed and the active catalog, replayed with the rows its consumer has not read, agrees with
  desired state.
\<close>

section \<open>How a graph operation affects the unread rows\<close>

text \<open>The row of a consumer \<open>c\<close> is kept, and its unread rows grow at the end by mutations that carry
  an agreeing index along.\<close>

definition follows :: "graph_env \<Rightarrow> string \<Rightarrow> graph_db \<Rightarrow> graph_db \<Rightarrow> bool" where
  "follows env c db db' \<longleftrightarrow>
     graph_ok db' \<and> (\<forall>row. find_consumer db' c = Some row \<longrightarrow>
       find_consumer db c = Some row
     \<and> (\<exists>rows ms. filter (\<lambda>r. c_last_sequence row < ob_sequence r) (graph_projection_outbox db')
            = filter (\<lambda>r. c_last_sequence row < ob_sequence r) (graph_projection_outbox db) @ rows
          \<and> map (env_mutation_from_json env \<circ> ob_mutation_json) rows = map Some ms
          \<and> (\<forall>idx. index_agrees env idx db \<longrightarrow> index_agrees env (replay idx ms) db')))"

lemma follows_consistent:
  assumes "graph_ok db" and "follows env CATALOG_SCHEMA_ID db db'" and "catalog_consistent tv env cenv db root"
  shows "catalog_consistent tv env cenv db' root"
proof (cases "active_index db' root")
  case (Inr i)
  have ok': "graph_ok db'" using assms(2) by (simp add: follows_def)
  from Inr obtain row where row: "find_consumer db' CATALOG_SCHEMA_ID = Some row"
      "catalog_open root (generation_path (word_of_int (c_index_generation row))) = Inr i"
    by (auto simp: active_index_ok [OF ok'] split: option.splits sum.splits)
  with assms(2) obtain rows ms where before: "find_consumer db CATALOG_SCHEMA_ID = Some row"
    and rows: "filter (\<lambda>r. c_last_sequence row < ob_sequence r) (graph_projection_outbox db')
            = filter (\<lambda>r. c_last_sequence row < ob_sequence r) (graph_projection_outbox db) @ rows"
      "map (env_mutation_from_json env \<circ> ob_mutation_json) rows = map Some ms"
      "\<forall>idx. index_agrees env idx db \<longrightarrow> index_agrees env (replay idx ms) db'"
    unfolding follows_def by blast
  have "active_index db root = Inr i" using before row(2) by (simp add: active_index_ok [OF assms(1)])
  with assms(3) have "index_lags tv env cenv db i" by (simp add: catalog_consistent_def)
  with before obtain idx ns where idx: "represents cenv (tv_documents tv i) idx"
      "map (env_mutation_from_json env \<circ> ob_mutation_json)
         (filter (\<lambda>r. c_last_sequence row < ob_sequence r) (graph_projection_outbox db)) = map Some ns"
      "index_agrees env (replay idx ns) db"
    by (auto simp: index_lags_def)
  have "index_lags tv env cenv db' i"
    unfolding index_lags_def
    by (intro exI [of _ row] exI [of _ idx] exI [of _ "ns @ ms"])
       (use row(1) idx rows in \<open>simp del: map_map\<close>)
  with Inr show ?thesis by (simp add: catalog_consistent_def)
qed (simp add: catalog_consistent_def)

text \<open>Appending rows above the high-water mark.\<close>

definition advances :: "graph_env \<Rightarrow> graph_db \<Rightarrow> graph_db \<Rightarrow> bool" where
  "advances env db db' \<longleftrightarrow>
     graph_projection_consumers db' = graph_projection_consumers db \<and> high_water db \<le> high_water db'
   \<and> (\<exists>rows ms. graph_projection_outbox db' = graph_projection_outbox db @ rows
        \<and> (\<forall>r \<in> set rows. high_water db < ob_sequence r)
        \<and> map (env_mutation_from_json env \<circ> ob_mutation_json) rows = map Some ms
        \<and> (\<forall>idx. index_agrees env idx db \<longrightarrow> index_agrees env (replay idx ms) db'))"

lemma advances_quiet:
  assumes "graph_projection_consumers db' = graph_projection_consumers db"
    and "graph_projection_outbox db' = graph_projection_outbox db" and "outbox_seq db' = outbox_seq db"
    and "\<And>k. projected env db' k = projected env db k"
  shows "advances env db db'"
  unfolding advances_def
  by (intro conjI exI [of _ "[]"]) (use assms in \<open>simp_all add: high_water_def index_agrees_def\<close>)

definition catalog_part where
  "catalog_part db = (graph_catalog_documents db, graph_projection_outbox db, outbox_seq db, graph_projection_consumers db)"

lemma catalog_part_of_projection_part: "projection_part db' = projection_part db \<Longrightarrow> catalog_part db' = catalog_part db"
  by (simp add: projection_part_def catalog_part_def)

lemma advances_catalog_part: "catalog_part db' = catalog_part db \<Longrightarrow> advances env db db'"
  by (rule advances_quiet) (simp_all add: catalog_part_def projected_def)

lemma advances_refl: "advances env db db"
  by (rule advances_catalog_part) simp

lemma advances_trans:
  assumes "advances env a b" and "advances env b c"
  shows "advances env a c"
proof -
  from assms(1) obtain rows ms where 1: "graph_projection_consumers b = graph_projection_consumers a"
      "high_water a \<le> high_water b" "graph_projection_outbox b = graph_projection_outbox a @ rows"
      "\<forall>r \<in> set rows. high_water a < ob_sequence r"
      "map (env_mutation_from_json env \<circ> ob_mutation_json) rows = map Some ms"
      "\<forall>idx. index_agrees env idx a \<longrightarrow> index_agrees env (replay idx ms) b" unfolding advances_def by blast
  from assms(2) obtain rows' ns where 2: "graph_projection_consumers c = graph_projection_consumers b"
      "high_water b \<le> high_water c" "graph_projection_outbox c = graph_projection_outbox b @ rows'"
      "\<forall>r \<in> set rows'. high_water b < ob_sequence r"
      "map (env_mutation_from_json env \<circ> ob_mutation_json) rows' = map Some ns"
      "\<forall>idx. index_agrees env idx b \<longrightarrow> index_agrees env (replay idx ns) c" unfolding advances_def by blast
  show ?thesis
    unfolding advances_def
    by (intro conjI exI [of _ "rows @ rows'"] exI [of _ "ms @ ns"])
       (use 1 2 in \<open>auto simp del: map_map\<close>)
qed

lemma advances_follows:
  assumes "graph_ok db" and "graph_ok db'" and "advances env db db'"
  shows "follows env c db db'"
proof -
  from assms(3) obtain rows ms where a: "graph_projection_consumers db' = graph_projection_consumers db"
      "graph_projection_outbox db' = graph_projection_outbox db @ rows"
      "\<forall>r \<in> set rows. high_water db < ob_sequence r"
      "map (env_mutation_from_json env \<circ> ob_mutation_json) rows = map Some ms"
      "\<forall>idx. index_agrees env idx db \<longrightarrow> index_agrees env (replay idx ms) db'" unfolding advances_def by blast
  have "filter (\<lambda>r. c_last_sequence row < ob_sequence r) rows = rows"
    if "find_consumer db c = Some row" for row
    using consumer_bounds(2) [OF assms(1) that] a(3) by (intro filter_True) auto
  then show ?thesis unfolding follows_def using assms(2) a by (auto simp del: map_map)
qed

section \<open>Synchronisation appends above the high-water mark\<close>

lemma append_outbox_consumers:
  "append_outbox env db k v m = Inr db' \<Longrightarrow> graph_projection_consumers db' = graph_projection_consumers db"
  by (auto simp: append_outbox_def result_simps)

lemma sync_tail:
  assumes ok: "store_ok db" and "sync_catalog_projection env db link g Durable = Inr (db', n)"
  shows "graph_projection_consumers db' = graph_projection_consumers db \<and> high_water db \<le> high_water db'
    \<and> (\<exists>rows. graph_projection_outbox db' = graph_projection_outbox db @ rows
        \<and> (\<forall>r \<in> set rows. high_water db < ob_sequence r))"
  using assms(2)
proof (cases rule: sync_catalog_projection_cases)
  case (delete v)
  show ?thesis
  proof (cases "find_document db (document_id_for_link link)")
    case None
    then show ?thesis using delete(3) by (simp add: delete_catalog_projection_def)
  next
    case (Some row)
    then obtain db1 where db1: "append_outbox env db (document_id_for_link link) v
          (Delete (document_id_for_link link) (DocumentVersion v)) = Inr db1"
        "graph_projection_outbox db' = graph_projection_outbox db1" "outbox_seq db' = outbox_seq db1"
        "graph_projection_consumers db' = graph_projection_consumers db1"
      using delete(3) by (auto simp: delete_catalog_projection_def result_simps)
    show ?thesis
      using append_outbox_ok(2,3) [OF _ db1(1)] ok append_outbox_consumers [OF db1(1)] db1(2-4)
      by (auto simp: high_water_def store_ok_def)
  qed
next
  case (keep d f)
  then show ?thesis by simp
next
  case (store l v d f db1)
  then have app: "append_outbox env db1 (document_id_for_link link) v (Upsert d) = Inr db'" by simp
  note up = upsert_document_result [OF store(5)]
  have same: "graph_projection_consumers db1 = graph_projection_consumers db" "high_water db1 = high_water db"
    using store(5) up(3) by (auto simp: upsert_document_def high_water_def split: if_splits)
  have "store_ok db1" by (rule store_ok_upsert_document [OF ok store(5)]) simp_all
  then have "outbox_ok db1" by (simp add: store_ok_def)
  then show ?thesis
    using append_outbox_ok(2,3) [OF _ app] append_outbox_consumers [OF app] same up(2) by auto
qed

lemma advances_sync:
  assumes "store_ok db" and "json_round_trip env" and "sync_catalog_projection env db link g Durable = Inr (db', n)"
  shows "advances env db db'"
proof -
  obtain rows where tail: "graph_projection_consumers db' = graph_projection_consumers db" "high_water db \<le> high_water db'"
      "graph_projection_outbox db' = graph_projection_outbox db @ rows" "\<forall>r \<in> set rows. high_water db < ob_sequence r"
    using sync_tail [OF assms(1,3)] by blast
  obtain ms where ms: "outbox_extends env db db' ms" "\<forall>idx. index_agrees env idx db \<longrightarrow> index_agrees env (replay idx ms) db'"
    using sync_replay [OF assms(3,2)] by blast
  have "map (env_mutation_from_json env \<circ> ob_mutation_json) rows = map Some ms"
    using ms(1) tail(3) by (auto simp: outbox_extends_def)
  then show ?thesis unfolding advances_def using tail ms(2) by blast
qed

lemma advances_sync_links:
  assumes "sync_links env db links g Durable = Inr (db', n)" and "store_ok db" and "json_round_trip env"
  shows "advances env db db'"
proof -
  have "store_ok db' \<and> advances env db db'"
    by (rule sync_links_invariant [OF assms(1), where P = "\<lambda>s. store_ok s \<and> advances env db s"])
       (use assms(2,3) advances_refl advances_sync advances_trans store_ok_sync in blast)+
  then show ?thesis ..
qed

section \<open>Every graph operation keeps the catalog in step\<close>

lemma follows_refl: "graph_ok db \<Longrightarrow> follows env c db db"
  by (rule advances_follows) (simp_all add: advances_refl)

lemma follows_trans:
  assumes "follows env c a b" and "follows env c b d"
  shows "follows env c a d"
proof -
  have "find_consumer a c = Some row \<and> (\<exists>rows ms. filter (\<lambda>r. c_last_sequence row < ob_sequence r) (graph_projection_outbox d)
            = filter (\<lambda>r. c_last_sequence row < ob_sequence r) (graph_projection_outbox a) @ rows
          \<and> map (env_mutation_from_json env \<circ> ob_mutation_json) rows = map Some ms
          \<and> (\<forall>idx. index_agrees env idx a \<longrightarrow> index_agrees env (replay idx ms) d))" if row: "find_consumer d c = Some row" for row
  proof -
    obtain rows ms where 2: "find_consumer b c = Some row"
        "filter (\<lambda>r. c_last_sequence row < ob_sequence r) (graph_projection_outbox d)
           = filter (\<lambda>r. c_last_sequence row < ob_sequence r) (graph_projection_outbox b) @ rows"
        "map (env_mutation_from_json env \<circ> ob_mutation_json) rows = map Some ms"
        "\<forall>idx. index_agrees env idx b \<longrightarrow> index_agrees env (replay idx ms) d"
      using assms(2) row unfolding follows_def by blast
    then obtain rows' ns where 1: "find_consumer a c = Some row"
        "filter (\<lambda>r. c_last_sequence row < ob_sequence r) (graph_projection_outbox b)
           = filter (\<lambda>r. c_last_sequence row < ob_sequence r) (graph_projection_outbox a) @ rows'"
        "map (env_mutation_from_json env \<circ> ob_mutation_json) rows' = map Some ns"
        "\<forall>idx. index_agrees env idx a \<longrightarrow> index_agrees env (replay idx ns) b"
      using assms(1) unfolding follows_def by blast
    show ?thesis
      by (intro conjI 1(1) exI [of _ "rows' @ rows"] exI [of _ "ns @ ms"]) (use 1 2 in \<open>auto simp del: map_map\<close>)
  qed
  then show ?thesis using assms(2) unfolding follows_def by blast
qed

lemma batch_follows:
  assumes ok: "graph_ok db" and json: "json_round_trip env" and tx: "batch_transaction env db b mode = Inr (db', g, jobs, n)"
  shows "follows env c db db'"
proof -
  have ok': "graph_ok db'" by (rule graph_ok_batch_transaction(1) [OF ok tx])
  from tx obtain db1 affected db2 row where
      none: "mode = Rebuildable \<Longrightarrow> graph_projection_consumers db = []"
    and run: "apply_mutations db (gb_mutations b) g = Inr (db1, jobs, affected)"
      "sync_links env db1 affected g mode = Inr (db2, n)"
    and cp: "upsert_checkpoint (set_generation db2 (gb_volume_id b) g) row = Inr db'"
    by (rule batch_transaction_cases) blast
  have part: "catalog_part db1 = catalog_part db"
    by (rule catalog_part_of_projection_part [OF apply_mutations_projection_part [OF run(1)]])
  have part': "catalog_part db' = catalog_part db2"
    using cp by (auto simp: upsert_checkpoint_def set_generation_def catalog_part_def split: if_splits)
  have ok1: "graph_ok db1" using run(1) ok by (rule apply_mutations_invariant) (rule graph_ok_apply_mutation)
  show ?thesis
  proof (cases mode)
    case Durable
    have "advances env db1 db2"
      using run(2) Durable json ok1 by (intro advances_sync_links) (simp_all add: graph_ok_def)
    then have "advances env db db'"
      using advances_catalog_part [OF part] advances_catalog_part [OF part'] advances_trans by blast
    then show ?thesis by (rule advances_follows [OF ok ok'])
  next
    case Rebuildable
    have "graph_projection_consumers db2 = graph_projection_consumers db1"
      using run(2)
      by (rule sync_links_invariant [where P = "\<lambda>s. graph_projection_consumers s = graph_projection_consumers db1"])
         (auto elim!: sync_catalog_projection_cases simp: Rebuildable delete_catalog_projection_def upsert_document_def
            result_simps split: if_splits)
    then have "graph_projection_consumers db' = []"
      using none [OF Rebuildable] part part' by (simp add: catalog_part_def)
    then have "find_consumer db' c = None" by simp
    then show ?thesis using ok' by (simp add: follows_def)
  qed
qed

lemma apply_follows:
  assumes "graph_ok db" and "json_round_trip env" and "apply_batch_with_outbox_mode env db b mode = (db', r)"
  shows "follows env c db db'"
proof (cases r)
  case (Inl e)
  then show ?thesis using assms apply_batch_Inl [of env db b mode db' e] batch_follows follows_refl by blast
next
  case (Inr s)
  then show ?thesis using assms batch_follows by (auto simp: apply_batch_Inr)
qed

lemma scan_page_follows:
  assumes "graph_ok db" and "json_round_trip env" and "apply_observation_scan_page env db v events = (db', r)"
  shows "follows env c db db'"
  using assms(3) follows_refl [OF assms(1)] apply_follows [OF assms(1,2)]
  by (auto simp: apply_observation_scan_page_def apply_batch_def split: sum.splits option.splits if_splits)

lemma quiet_follows:
  assumes "graph_ok db" and "graph_ok db'" and "catalog_part db' = catalog_part db"
  shows "follows env c db db'"
  using advances_follows [OF assms(1,2) advances_catalog_part [OF assms(3)]] .

lemma begin_follows:
  assumes "graph_ok db" and "begin_observation_scan db d mode reason = (db', r)"
  shows "follows env c db db'"
proof (cases "begin_transaction db d mode reason")
  case (Inl e)
  then show ?thesis using assms follows_refl by (simp add: begin_observation_scan_def)
next
  case (Inr x)
  obtain db1 g where "x = (db1, g)" by fastforce
  then have tx: "begin_transaction db d mode reason = Inr (db', g)"
    using assms(2) Inr by (auto simp: begin_observation_scan_def)
  from tx have "catalog_part db' = catalog_part db"
    by (rule begin_transaction_cases)
       (auto simp: catalog_part_def update_volume_def upsert_volume_def dest!: enqueue_volume_result)
  then show ?thesis using quiet_follows graph_ok_begin(1) [OF assms(1) tx] assms(1) by blast
qed

lemma stage_follows:
  assumes "graph_ok db" and "stage_observation_checkpoint db v cp = (db', r)"
  shows "follows env c db db'"
proof (rule quiet_follows [OF assms(1)])
  show "graph_ok db'" using graph_ok_stage [OF assms(1), of v cp] assms(2) by simp
  show "catalog_part db' = catalog_part db"
    using assms(2) by (auto simp: stage_observation_checkpoint_def Let_def catalog_part_def split: if_splits)
qed

lemma sweep_advances:
  assumes "graph_ok db" and "json_round_trip env" and "sweep_link env g db r = Inr db'"
  shows "graph_ok db' \<and> advances env db db'"
proof -
  obtain db1 n k where rm: "remove_link_internal db (l_file_link_id r) (l_object r) g False = Inr (db1, n)"
    and sync: "sync_catalog_projection env db1 (l_file_link_id r) g Durable = Inr (db', k)"
    using assms(3) by (auto simp: sweep_link_def result_simps)
  have ok1: "graph_ok db1" by (rule graph_ok_remove_link_internal [OF assms(1) rm])
  have "projection_part db1 = projection_part db" by (rule projection_frame.keeps_remove_link_internal [OF refl rm])
  then have "advances env db db1" by (intro advances_catalog_part catalog_part_of_projection_part)
  moreover have "advances env db1 db'" using advances_sync [OF _ assms(2) sync] ok1 by (simp add: graph_ok_def)
  ultimately show ?thesis using advances_trans graph_ok_sync [OF ok1 sync] by blast
qed

lemma finalize_follows:
  assumes "graph_ok db" and "json_round_trip env" and "finalize_observation_scan env db v n = (db', r)"
  shows "follows env c db db'"
proof (cases r)
  case (Inl e)
  then have "db' = db" using assms(3) by (auto simp: finalize_observation_scan_def transact_def split: if_splits sum.splits)
  then show ?thesis using follows_refl [OF assms(1)] by simp
next
  case (Inr sm)
  show ?thesis
  proof (cases "n = 0")
    case True
    then show ?thesis using assms(3) follows_refl [OF assms(1)] by (simp add: finalize_observation_scan_def)
  next
    case False
    with assms(3) Inr have run: "finalize_transaction env db v n = Inr (db', sm)" by (simp add: finalize_Inr)
    then show ?thesis
    proof (cases rule: finalize_phases)
      case (1 s)
      let ?g = "current_generation db v + 1"
      obtain db1 xs where db1: "fold_r (sweep_link env ?g) db xs = Inr db1"
        and db': "catalog_part db' = catalog_part db1"
        using run unfolding finalize_in_links_phase [OF assms(1) 1]
        by (auto simp: result_simps catalog_part_def set_phase_def set_generation_def split: if_splits)
      have "graph_ok db1 \<and> advances env db db1"
        using db1 by (rule fold_r_invariant) (use assms(1,2) advances_refl sweep_advances advances_trans in blast)+
      then have "advances env db db'" using advances_trans advances_catalog_part [OF db'] by blast
      then show ?thesis by (rule advances_follows [OF assms(1) links_phase_step(1) [OF assms(1) 1 run]])
    next
      case (2 s)
      note step = objects_phase_step [OF assms(1) 2 run]
      have "graph_projection_consumers (fold (\<lambda>r db'. set_tombstoned db' (o_key r) True) xs d) = graph_projection_consumers d" for xs d
        by (induction xs arbitrary: d) (simp_all add: set_tombstoned_def)
      then have "graph_projection_consumers db' = graph_projection_consumers db"
        using run unfolding finalize_in_objects_phase [OF assms(1) 2]
        by (auto simp: result_simps set_generation_def upsert_checkpoint_def update_volume_def
            split: if_splits elim!: activate_cases)
      then show ?thesis
        using quiet_follows [OF assms(1) step(1)] step(3-5) by (simp add: catalog_part_def)
    qed
  qed
qed

lemma refresh_follows:
  assumes "graph_ok db" and "json_round_trip env"
    and "refresh_projection_paths env db n = (db', r) \<or> refresh_volume_projection env db n = (db', r)"
  shows "follows env c db db'"
proof -
  have step: "case r of Inl _ \<Rightarrow> db' = db | Inr s \<Rightarrow> refresh_step env db db' s"
    using assms(3) refresh_paths_step refresh_volume_step by blast
  show ?thesis
  proof (cases r)
    case (Inl e)
    with step show ?thesis using follows_refl [OF assms(1)] by simp
  next
    case (Inr s)
    with step obtain links g db1 where sync: "sync_links env db links g Durable = Inr (db1, rs_outbox_mutations_appended s)"
      and same: "catalog_part db' = catalog_part db1" and ok: "graph_ok db1 \<Longrightarrow> graph_ok db'"
      by (auto simp: refresh_step_def catalog_part_def)
    have "advances env db db1" using advances_sync_links [OF sync _ assms(2)] assms(1) by (simp add: graph_ok_def)
    then have "advances env db db'" using advances_catalog_part [OF same] advances_trans by blast
    then show ?thesis by (rule advances_follows [OF assms(1) ok [OF graph_ok_sync_links [OF assms(1) sync]]])
  qed
qed

lemma complete_job_follows:
  assumes "graph_ok db" and "complete_refresh_job db j = (db', b)"
  shows "follows env c db db'"
proof (rule quiet_follows [OF assms(1)])
  have db': "db' = db\<lparr>graph_path_refresh_jobs := tbl_update (\<lambda>x. j_job_id x = j \<and> j_state x = Pending)
      (\<lambda>x. x\<lparr>j_state := Done\<rparr>) (graph_path_refresh_jobs db)\<rparr>"
    using assms(2) by (simp add: complete_refresh_job_def)
  then show "catalog_part db' = catalog_part db" by (simp add: catalog_part_def)
  have "x\<lparr>j_state := Done\<rparr> = x" if "j_state x \<noteq> Pending" for x :: path_job_row
    using that by (cases x; cases "j_state x") auto
  then have "tbl_update (\<lambda>x. j_job_id x = j \<and> j_state x = Pending) (\<lambda>x. x\<lparr>j_state := Done\<rparr>) (graph_path_refresh_jobs db)
      = tbl_update (\<lambda>x. j_job_id x = j) (\<lambda>x. if True then x\<lparr>j_state := Done\<rparr> else x\<lparr>j_cursor := None\<rparr>) (graph_path_refresh_jobs db)"
    by (simp add: tbl_update_def)
  then show "graph_ok db'" unfolding db' using graph_ok_path_jobs [OF assms(1), of j True] by (simp only:)
qed

lemma compact_row_consumers:
  "compact_row env db row = Inr db' \<Longrightarrow> graph_projection_consumers db' = graph_projection_consumers db"
  by (auto simp: compact_row_def result_simps)

lemma compact_follows:
  assumes "graph_ok db" and "compact_legacy_desired_payloads_bounded env db n = (db', r)"
  shows "follows env c db db'"
proof (cases r)
  case (Inl e)
  then have "db' = db" using assms(2)
    by (auto simp: compact_legacy_desired_payloads_bounded_def transact_def Let_def split: if_splits sum.splits)
  then show ?thesis using follows_refl [OF assms(1)] by simp
next
  case (Inr s)
  let ?rows = "tbl_scan (\<lambda>d. d_projection_path d = None) d_document_id n (graph_catalog_documents db)"
  have run: "fold_r (compact_row env) db ?rows = Inr db'"
    using assms(2) Inr
    by (auto simp: compact_legacy_desired_payloads_bounded_def transact_def Let_def result_simps split: if_splits sum.splits)
  have cons: "graph_projection_consumers db' = graph_projection_consumers db"
    using run by (rule fold_r_invariant) (simp_all add: compact_row_consumers)
  have "distinct (map d_document_id (graph_catalog_documents db))"
    using assms(1) by (simp add: graph_ok_def store_ok_def schema_ok_def keys_ok_def)
  then have "distinct (map d_document_id ?rows)"
    unfolding tbl_scan_def take_map [symmetric]
    by (intro distinct_take) (auto simp: distinct_map intro: inj_on_subset)
  from compact_rows_result [OF run assms(1) set_tbl_scan_subset this]
  show ?thesis by (intro advances_follows [OF assms(1)] advances_quiet) (use cons in simp_all)
qed

text \<open>A prune drops a prefix of rows that every consumer has read.\<close>

lemma prune_drop:
  assumes "graph_ok db" and "db' = fst (prune_consumed_outbox db) \<or> db' = fst (prune_rebuildable_outbox_bounded db n allow)"
  shows "\<exists>k. db' = db\<lparr>graph_projection_outbox := drop k (graph_projection_outbox db)\<rparr>
    \<and> (\<forall>c \<in> set (graph_projection_consumers db). \<forall>r \<in> set (take k (graph_projection_outbox db)). ob_sequence r \<le> c_last_sequence c)"
proof -
  let ?ob = "graph_projection_outbox db"
  have ok: "outbox_ok db" using assms(1) by (simp add: graph_ok_def store_ok_def)
  have same: ?thesis if "db' = db" using that by (intro exI [of _ 0]) simp
  have min: "\<forall>c \<in> set (graph_projection_consumers db). m \<le> c_last_sequence c" if "minimum_last_sequence db = Some m" for m
    using minimum_last_sequence_le [OF that] by blast
  from assms(2) show ?thesis
  proof
    assume db': "db' = fst (prune_consumed_outbox db)"
    show ?thesis
    proof (cases "minimum_last_sequence db")
      case None
      then show ?thesis using db' same by (simp add: prune_consumed_outbox_def)
    next
      case (Some m)
      let ?P = "\<lambda>r. ob_sequence r \<le> m"
      have "sorted (map ob_sequence ?ob)" using ok by (simp add: outbox_ok_def strict_sorted_iff)
      then have "filter ?P ?ob = takeWhile ?P ?ob" by (rule sorted_filter_le_prefix)
      moreover have "filter ?P (takeWhile ?P ?ob) = takeWhile ?P ?ob"
        by (rule filter_True) (auto dest: set_takeWhileD)
      ultimately have "filter ?P (dropWhile ?P ?ob) = []"
        using filter_append [of ?P "takeWhile ?P ?ob" "dropWhile ?P ?ob"] by simp
      then have "\<forall>r \<in> set (dropWhile ?P ?ob). \<not> ?P r" unfolding filter_empty_conv .
      then have "filter (\<lambda>r. \<not> ?P r) (dropWhile ?P ?ob) = dropWhile ?P ?ob" by (rule filter_True)
      moreover have "filter (\<lambda>r. \<not> ?P r) (takeWhile ?P ?ob) = []" by (auto simp: filter_empty_conv dest: set_takeWhileD)
      ultimately have "filter (\<lambda>r. \<not> ?P r) ?ob = dropWhile ?P ?ob"
        using filter_append [of "\<lambda>r. \<not> ?P r" "takeWhile ?P ?ob" "dropWhile ?P ?ob"] by simp
      then have "db' = db\<lparr>graph_projection_outbox := drop (length (takeWhile ?P ?ob)) ?ob\<rparr>"
        using db' Some by (simp add: prune_consumed_outbox_def tbl_delete_def dropWhile_eq_drop)
      moreover have "\<forall>r \<in> set (take (length (takeWhile ?P ?ob)) ?ob). ob_sequence r \<le> m"
        unfolding takeWhile_eq_take [symmetric] by (auto dest: set_takeWhileD)
      ultimately show ?thesis using min [OF Some] order.trans
        by (intro exI [of _ "length (takeWhile ?P ?ob)"]) blast
    qed
  next
    assume db': "db' = fst (prune_rebuildable_outbox_bounded db n allow)"
    show ?thesis
    proof (cases "n = 0 \<or> 100000 < n \<or> safe_through db allow = None")
      case True
      then have "prune_rebuildable_outbox_bounded db n allow = (db, snd (prune_rebuildable_outbox_bounded db n allow))"
        unfolding prune_rebuildable_outbox_bounded_def safe_through_def [symmetric] Let_def
        by (cases "n = 0 \<or> 100000 < n") simp_all
      then show ?thesis using db' same by (metis fst_conv)
    next
      case False
      then obtain safe where n: "1 \<le> n" "n \<le> 100000" and safe: "safe_through db allow = Some safe" by auto
      obtain r where run: "prune_rebuildable_outbox_bounded db n allow = (db', r)" using db' by (metis prod.collapse)
      note pre = prune_bounded_prefix(1,2) [OF ok n safe run]
      have "\<forall>c \<in> set (graph_projection_consumers db). safe \<le> c_last_sequence c"
        using min safe minimum_last_sequence_None [of db] by (auto simp: safe_through_def split: option.splits)
      then have "\<forall>c \<in> set (graph_projection_consumers db). \<forall>r \<in> set (take (min n (tbl_count (\<lambda>r. ob_sequence r \<le> safe) ?ob)) ?ob).
          ob_sequence r \<le> c_last_sequence c"
        using pre(2) order.trans by blast
      then show ?thesis using pre(1) by (intro exI conjI)
    qed
  qed
qed

lemma prune_follows:
  assumes "graph_ok db" and "db' = fst (prune_consumed_outbox db) \<or> db' = fst (prune_rebuildable_outbox_bounded db n allow)"
  shows "follows env c db db'"
proof -
  let ?ob = "graph_projection_outbox db"
  obtain k where db': "db' = db\<lparr>graph_projection_outbox := drop k ?ob\<rparr>"
    and old: "\<forall>c \<in> set (graph_projection_consumers db). \<forall>r \<in> set (take k ?ob). ob_sequence r \<le> c_last_sequence c"
    using prune_drop [OF assms] by blast
  have "filter (\<lambda>r. c_last_sequence row < ob_sequence r) ?ob = filter (\<lambda>r. c_last_sequence row < ob_sequence r) (drop k ?ob)"
    if "find_consumer db c = Some row" for row
  proof -
    have "row \<in> set (graph_projection_consumers db)" using that by (auto dest: tbl_find_Some)
    then have "filter (\<lambda>r. c_last_sequence row < ob_sequence r) (take k ?ob) = []"
      using old by (fastforce simp: filter_empty_conv not_less)
    then show ?thesis by (metis append_Nil append_take_drop_id filter_append)
  qed
  then show ?thesis
    unfolding follows_def using graph_ok_drop_outbox [OF assms(1)]
    by (auto simp: db' index_agrees_def projected_def intro!: exI [of _ "[]"])
qed

lemma consumers_follow:
  assumes "graph_ok db" and "same_but_consumers db db'" and "graph_ok db'"
    and "find_consumer db' c = None \<or> find_consumer db' c = find_consumer db c"
  shows "follows env c db db'"
  unfolding follows_def
  using assms(3,4) same_but_consumers_reads(3) [OF assms(2)] same_but_consumers_reads(5) [OF assms(2)]
  by (auto intro!: exI [of _ "[]"])

lemma reset_follows:
  assumes "graph_ok db" and "reset_projection_consumer db k = (db', b)"
  shows "follows env c db db'"
proof (rule consumers_follow [OF assms(1)])
  have db': "db' = db\<lparr>graph_projection_consumers := tbl_delete (\<lambda>x. c_consumer_id x = k) (graph_projection_consumers db)\<rparr>"
    using assms(2) by (simp add: reset_projection_consumer_def)
  then show "same_but_consumers db db'" by (auto simp: same_but_consumers_def)
  show "graph_ok db'" unfolding db'
    by (rule graph_ok_consumers [OF assms(1)])
       (use assms(1) in \<open>auto simp: graph_ok_def store_ok_def schema_ok_def keys_ok_def outbox_ok_def checks_ok_def distinct_tbl_delete\<close>)
  show "find_consumer db' c = None \<or> find_consumer db' c = find_consumer db c"
    by (cases "k = c") (simp_all add: db' tbl_simps)
qed

lemma acknowledge_follows:
  assumes "graph_ok db" and "k \<noteq> c" and "acknowledge_projection db k s g = Inr db'"
  shows "follows env c db db'"
proof (rule consumers_follow [OF assms(1)])
  note same = acknowledge_same [OF assms(3)]
  obtain q where "s = MutationSeq q" by (cases s)
  note ok = acknowledge_projection_ok [OF assms(1) same(2) assms(3) [unfolded this]]
  show "same_but_consumers db db'" "graph_ok db'" by (fact same(1), fact ok(1))
  show "find_consumer db' c = None \<or> find_consumer db' c = find_consumer db c"
    using ok(2) [of c] assms(2) by simp
qed

text \<open>The worker moves no consumer but its own.\<close>

lemma acknowledge_other_row:
  assumes "acknowledge_projection db k s g = Inr db'" "c \<noteq> k"
  shows "find_consumer db' c = find_consumer db c"
  using assms by (auto simp: acknowledge_projection_def result_simps consumers_table.find_upsert split: if_splits)

lemma run_other_consumer:
  assumes "run tv env cenv io opts elapsed db root = Some (db', root', r)" "c \<noteq> CATALOG_SCHEMA_ID"
  shows "find_consumer db' c = find_consumer db c"
proof -
  note ack = acknowledge_other_row [where k = CATALOG_SCHEMA_ID, OF _ assms(2)]
  have publish: "find_consumer db1 c = find_consumer db c" if "publish_rebuild tv db root0 g w = (db1, root1, x)" for root0 g w db1 root1 x
    using that by (auto simp: publish_rebuild_def dest: ack split: sum.splits prod.splits)
  have rebuild: "find_consumer db1 c = find_consumer db c" if b: "rebuild tv env cenv io opts db root g = Some (db1, root1, x)" for g db1 root1 x
  proof -
    obtain k where k: "next_unused_generation root g = Some k" using b by (auto simp: rebuild_def bind_eq_Some_conv)
    obtain root0 z where z: "catalog_create tv io root (generation_path k) = (root0, z)" by fastforce
    have "db1 = db \<or> (\<exists>w. publish_rebuild tv db root0 k w = (db1, root1, x))"
      using b by (auto simp: rebuild_def k z bind_eq_Some_conv split: sum.splits option.splits) (metis sum.exhaust)
    then show ?thesis using publish by blast
  qed
  have rec: "find_consumer db1 c = find_consumer db c" if "recover tv env cenv io opts db root = Some (db1, root1, x)" for db1 root1 x
    using that rebuild by (auto simp: recover_def split: sum.splits option.splits)
  have batch: "find_consumer db2 c = find_consumer db1 c" if "run_batch tv env cenv opts g db1 root1 = (db2, root2, x)" for db1 root1 db2 root2 x g
    using that by (auto simp: run_batch_def dest: ack split: sum.splits option.splits prod.splits if_splits)
  have loop: "find_consumer db2 c = find_consumer db1 c" if "run_loop tv env cenv opts elapsed g n db1 root1 a = (db2, root2, x)"
    for n g db1 root1 a db2 root2 x
    using that
  proof (induction n arbitrary: db1 root1 a)
    case (Suc n)
    obtain db3 root3 y where b: "run_batch tv env cenv opts g db1 root1 = (db3, root3, y)" by (metis prod_cases3)
    from Suc.prems b batch [OF b] Suc.IH show ?case by (auto split: if_splits sum.splits option.splits)
  qed simp
  from assms(1) show ?thesis by (cases rule: run_cases) (use rec loop in auto)
qed

section \<open>The system as a whole\<close>

text \<open>One step is one public call with whatever result it returns; a disposable generation may also
  disappear from the directory at any time. A run may rebuild only while desired state reads back as
  recorded; this is the case once pending volume refreshes have been carried out.\<close>

inductive pipeline_step ::
    "('i, 'w) tantivy \<Rightarrow> graph_env \<Rightarrow> catalog_env \<Rightarrow> graph_db \<times> 'i catalog_root \<Rightarrow> graph_db \<times> 'i catalog_root \<Rightarrow> bool"
  for tv env cenv where
  ingest: "apply_batch_with_outbox_mode env db b mode = (db', r) \<Longrightarrow> pipeline_step tv env cenv (db, root) (db', root)"
| snapshot: "ingest_snapshot env db d cp events = (db', r) \<Longrightarrow> pipeline_step tv env cenv (db, root) (db', root)"
| begin_scan: "begin_observation_scan db d scan_mode reason = (db', q) \<Longrightarrow> pipeline_step tv env cenv (db, root) (db', root)"
| scan_page: "apply_observation_scan_page env db v events = (db', r) \<Longrightarrow> pipeline_step tv env cenv (db, root) (db', root)"
| stage: "stage_observation_checkpoint db v cp = (db', u) \<Longrightarrow> pipeline_step tv env cenv (db, root) (db', root)"
| finalize: "finalize_observation_scan env db v n = (db', f) \<Longrightarrow> pipeline_step tv env cenv (db, root) (db', root)"
| refresh_paths: "refresh_projection_paths env db k = (db', x) \<Longrightarrow> pipeline_step tv env cenv (db, root) (db', root)"
| refresh_volumes: "refresh_volume_projection env db k = (db', x) \<Longrightarrow> pipeline_step tv env cenv (db, root) (db', root)"
| complete_job: "complete_refresh_job db j = (db', done) \<Longrightarrow> pipeline_step tv env cenv (db, root) (db', root)"
| compact: "compact_legacy_desired_payloads_bounded env db k = (db', y) \<Longrightarrow> pipeline_step tv env cenv (db, root) (db', root)"
| prune: "prune_consumed_outbox db = (db', k) \<Longrightarrow> pipeline_step tv env cenv (db, root) (db', root)"
| prune_bounded: "prune_rebuildable_outbox_bounded db k allow = (db', z) \<Longrightarrow> pipeline_step tv env cenv (db, root) (db', root)"
| reset: "reset_projection_consumer db c = (db', done) \<Longrightarrow> pipeline_step tv env cenv (db, root) (db', root)"
| acknowledge_other: "acknowledge_projection db c s g = Inr db' \<Longrightarrow> c \<noteq> CATALOG_SCHEMA_ID \<Longrightarrow>
    pipeline_step tv env cenv (db, root) (db', root)"
| project: "run tv env cenv io opts elapsed db root = Some (db', root', w) \<Longrightarrow> 0 < po_rebuild_page_size opts \<Longrightarrow>
    (isl (active_index db root) \<longrightarrow> recorded_current env db) \<Longrightarrow> pipeline_step tv env cenv (db, root) (db', root')"
| lose_generation: "pipeline_step tv env cenv (db, root) (db, root(path := None))"

lemma lose_generation_consistent:
  assumes "graph_ok db" and "catalog_consistent tv env cenv db root"
  shows "catalog_consistent tv env cenv db (root(path := None))"
proof (cases "active_index db (root(path := None))")
  case (Inr i)
  then have "active_index db root = Inr i"
    by (auto simp: active_index_ok [OF assms(1)] catalog_open_def split: option.splits sum.splits if_splits)
  with assms(2) Inr show ?thesis by (simp add: catalog_consistent_def)
qed (simp add: catalog_consistent_def)

text \<open>A step is a run of the worker, a loss, an acknowledgement, or an operation every consumer follows.\<close>

lemma pipeline_step_kinds:
  assumes "json_round_trip env" "graph_ok db" "pipeline_step tv env cenv (db, root) (db', root')"
  obtains (follow) "root' = root" "\<And>c. follows env c db db'"
  | (acknowledge) k s g where "root' = root" "acknowledge_projection db k s g = Inr db'" "k \<noteq> CATALOG_SCHEMA_ID"
  | (worker) io opts elapsed w where "run tv env cenv io opts elapsed db root = Some (db', root', w)" "0 < po_rebuild_page_size opts"
      "isl (active_index db root) \<longrightarrow> recorded_current env db"
  | (loss) path where "db' = db" "root' = root(path := None)"
  using assms(3)
proof cases
  case ingest
  then show ?thesis using follow apply_follows [OF assms(2,1)] by blast
next
  case snapshot
  then have "follows env c db db'" for c using apply_follows [OF assms(2,1)] by (auto simp: ingest_snapshot_def apply_batch_def)
  then show ?thesis using follow snapshot by blast
next
  case begin_scan
  then show ?thesis using follow begin_follows [OF assms(2)] by blast
next
  case scan_page
  then show ?thesis using follow scan_page_follows [OF assms(2,1)] by blast
next
  case stage
  then show ?thesis using follow stage_follows [OF assms(2)] by blast
next
  case finalize
  then show ?thesis using follow finalize_follows [OF assms(2,1)] by blast
next
  case refresh_paths
  then show ?thesis using follow refresh_follows [OF assms(2,1)] by blast
next
  case refresh_volumes
  then show ?thesis using follow refresh_follows [OF assms(2,1)] by blast
next
  case complete_job
  then show ?thesis using follow complete_job_follows [OF assms(2)] by blast
next
  case compact
  then show ?thesis using follow compact_follows [OF assms(2)] by blast
next
  case prune
  then show ?thesis using follow prune_follows [OF assms(2), of db'] by (metis fst_conv)
next
  case prune_bounded
  then show ?thesis using follow prune_follows [OF assms(2), of db'] by (metis fst_conv)
next
  case reset
  then show ?thesis using follow reset_follows [OF assms(2)] by blast
next
  case acknowledge_other
  then show ?thesis using acknowledge by blast
next
  case project
  then show ?thesis using worker by blast
next
  case lose_generation
  then show ?thesis using loss by blast
qed

lemma pipeline_step_keeps:
  assumes "tantivy_laws tv" and "json_round_trip env" and "graph_ok db" and "catalog_consistent tv env cenv db root"
    and "pipeline_step tv env cenv (db, root) (db', root')"
  shows "graph_ok db' \<and> catalog_consistent tv env cenv db' root'"
  using assms(2,3,5)
proof (cases rule: pipeline_step_kinds)
  case follow
  then show ?thesis using follows_consistent [OF assms(3) follow(2) assms(4)] follow(2) by (simp add: follows_def)
next
  case (acknowledge k s g)
  note f = acknowledge_follows [OF assms(3) acknowledge(3,2)]
  then show ?thesis using follows_consistent [OF assms(3) f assms(4)] acknowledge(1) by (simp add: follows_def)
next
  case worker
  then show ?thesis using run_ready [OF assms(1,3) _ _ assms(4)] by blast
next
  case loss
  then show ?thesis using assms(3) lose_generation_consistent [OF assms(3,4)] by blast
qed

text \<open>Any consumer whose row a step does not move follows it.\<close>

lemma pipeline_step_follows:
  assumes "tantivy_laws tv" and "json_round_trip env" and "graph_ok db" and "catalog_consistent tv env cenv db root"
    and "pipeline_step tv env cenv (db, root) (db', root')" and "find_consumer db' c = None \<or> find_consumer db' c = find_consumer db c"
  shows "follows env c db db'"
  using assms(2,3,5)
proof (cases rule: pipeline_step_kinds)
  case (acknowledge k s g)
  then show ?thesis
    using consumers_follow [OF assms(3)] acknowledge_same [OF acknowledge(2)] pipeline_step_keeps [OF assms(1-5)] assms(6) by blast
next
  case worker
  then show ?thesis using consumers_follow [OF assms(3)] run_ready [OF assms(1,3) _ _ assms(4)] assms(6) by blast
next
  case loss
  then show ?thesis using follows_refl [OF assms(3)] by simp
qed

lemma pipeline_steps_keep:
  assumes "tantivy_laws tv" and "json_round_trip env"
    and "(pipeline_step tv env cenv)\<^sup>*\<^sup>* (db, root) (db', root')"
    and "graph_ok db" and "catalog_consistent tv env cenv db root"
  shows "graph_ok db' \<and> catalog_consistent tv env cenv db' root'"
proof -
  have "case state of (db, root) \<Rightarrow> graph_ok db \<and> catalog_consistent tv env cenv db root"
    if "(pipeline_step tv env cenv)\<^sup>*\<^sup>* (db, root) state" for state
    using that
  proof (induction rule: rtranclp_induct)
    case base
    then show ?case using assms(4,5) by simp
  next
    case (step y z)
    obtain db1 root1 db2 root2 where "y = (db1, root1)" "z = (db2, root2)" by (cases y; cases z)
    with step show ?case using pipeline_step_keeps [OF assms(1,2), of db1 cenv root1 db2 root2] by simp
  qed
  from this [OF assms(3)] show ?thesis by simp
qed



end
