(* ===== verification/Agent_Observation.thy ===== *)
theory Agent_Observation
  imports Broker_Client Pipeline
begin

text \<open>
  The observation controller of the Agent (\<open>agent/src/observation.rs\<close>): the selection of volumes, the step that visits one volume
  and reads one page of its scan or of its changes, and the transactions each answer leads to.

  The trait \<open>ObservationSource\<close> is a record of functions on the state of a source; \<open>broker_source\<close> is its implementation over the
  broker client. The controller keeps the path of the database and opens it for every step; the model keeps the database itself,
  so a failure to open it is outside the model. Times are seconds. The scan that \<open>Drop\<close> cancels is not modelled.

  Shown: every step is a sequence of graph operations, so it keeps the graph well formed and the catalog in step with it; changes are
  committed together with the checkpoint they came with; lost history leads to a reconciling scan; and two failures of
  a checkpoint that the broker reports in a form that never leads there.
\<close>

section \<open>Sources and selections\<close>

text \<open>The trait \<open>ObservationSource\<close>; a source may have a state of its own.\<close>

record 's observation_source =
  so_discover_volumes :: "'s \<Rightarrow> 's \<times> VolumeDescriptor list platform_result"
  so_start_scan :: "'s \<Rightarrow> VolumeId \<Rightarrow> ScanMode \<Rightarrow> 's \<times> u64 platform_result"
  so_read_scan_page :: "'s \<Rightarrow> u64 \<Rightarrow> u16 \<Rightarrow> 's \<times> ScanPage platform_result"
  so_cancel_scan :: "'s \<Rightarrow> u64 \<Rightarrow> 's \<times> unit platform_result"
  so_read_changes :: "'s \<Rightarrow> ProviderCheckpoint \<Rightarrow> u32 \<Rightarrow> 's \<times> (FilesystemEvent list \<times> ChangeBatch) platform_result"

definition broker_source :: "'t transport \<Rightarrow> 't BrokerFilesystemProvider observation_source" where
  "broker_source invoke =
     \<lparr>so_discover_volumes = client_discover_volumes invoke,
      so_start_scan = (\<lambda>c volume_id mode. start_paged_scan invoke volume_id mode c),
      so_read_scan_page = (\<lambda>c scan_id maximum_events. read_paged_scan invoke scan_id maximum_events c),
      so_cancel_scan = (\<lambda>c scan_id. cancel_paged_scan invoke scan_id c),
      so_read_changes = (\<lambda>c cp maximum_events.
        case client_read_changes invoke collect cp maximum_events c [] of
          (c', events, result) \<Rightarrow> (c', and_then result (\<lambda>batch. Inr (events, batch))))\<rparr>"

datatype ObservationSelection =
    AllLocalNtfs
  | SelectedVolumes "VolumeId set"
  | VolumesAndMountPoints "VolumeId set" "string set"

definition trim_end_separators :: "string \<Rightarrow> string" where
  "trim_end_separators s = rev (dropWhile (\<lambda>c. c = CHR 0x5C \<or> c = CHR ''/'') (rev s))"

definition mount_point_matches :: "string \<Rightarrow> string \<Rightarrow> bool" where
  "mount_point_matches discovered selected \<longleftrightarrow>
     map ascii_lower (trim_end_separators discovered) = map ascii_lower (trim_end_separators selected)"

fun selection_matches :: "ObservationSelection \<Rightarrow> VolumeDescriptor \<Rightarrow> bool" where
  "selection_matches AllLocalNtfs volume \<longleftrightarrow> True"
| "selection_matches (SelectedVolumes selected) volume \<longleftrightarrow> vd_volume_id volume \<in> selected"
| "selection_matches (VolumesAndMountPoints volume_ids mount_points) volume \<longleftrightarrow>
     vd_volume_id volume \<in> volume_ids
     \<or> (\<exists>discovered \<in> set (vd_mount_points volume). \<exists>selected \<in> mount_points. mount_point_matches discovered selected)"

definition selected_volumes :: "VolumeDescriptor list \<Rightarrow> ObservationSelection \<Rightarrow> VolumeDescriptor list" where
  "selected_volumes discovered selection =
     filter (\<lambda>volume. vd_local volume
        \<and> (case vd_filesystem volume of None \<Rightarrow> False | Some filesystem \<Rightarrow> map ascii_lower filesystem = ''ntfs'')
        \<and> selection_matches selection volume) discovered"

section \<open>The controller\<close>

datatype ObservationStep =
    StepIdle
  | StepScanPrepared VolumeId
  | StepScanStarted VolumeId
  | StepScanPage VolumeId u32 bool
  | StepFinalized VolumeId nat bool
  | StepIncremental VolumeId u32 bool
  | StepReconciliationRequired VolumeId
  | StepOffline VolumeId

datatype ObservationError = ObservationGraph GraphError | ObservationProvider PlatformErrorKind

record ActiveScan =
  ac_volume_id :: VolumeId
  ac_scan_id :: u64

text \<open>The controller with the database at its path. Time is counted in seconds.\<close>

record 's BrokerObservationController =
  oc_source :: 's
  oc_graph :: graph_db
  oc_selection :: ObservationSelection
  oc_volumes :: "VolumeDescriptor list"
  oc_cursor :: nat
  oc_active_scan :: "ActiveScan option"
  oc_last_discovery :: nat

type_synonym 's controller_action =
  "'s BrokerObservationController \<Rightarrow> 's BrokerObservationController \<times> (ObservationError + ObservationStep)"

definition DISCOVERY_REFRESH_SECONDS :: nat where "DISCOVERY_REFRESH_SECONDS = 30"

fun broker_scan_mode :: "ObservationScanMode \<Rightarrow> ScanMode" where
  "broker_scan_mode Initial = ScanInitial"
| "broker_scan_mode Reconcile = ScanReconcile"

fun scan_reason :: "ObservationScanMode \<Rightarrow> ReconciliationReason" where
  "scan_reason Initial = ProviderRequested"
| "scan_reason Reconcile = SourceHistoryUnavailable"

definition provider_failure :: "PlatformError \<Rightarrow> ObservationError" where
  "provider_failure e = ObservationProvider (pe_kind e)"

definition new_controller ::
  "'s observation_source \<Rightarrow> 's \<Rightarrow> graph_db \<Rightarrow> ObservationSelection \<Rightarrow> nat \<Rightarrow> ObservationError + 's BrokerObservationController" where
  "new_controller so s db selection now =
     (case so_discover_volumes so s of
        (s', Inl e) \<Rightarrow> Inl (provider_failure e)
      | (s', Inr volumes) \<Rightarrow>
          Inr \<lparr>oc_source = s', oc_graph = db, oc_selection = selection, oc_volumes = selected_volumes volumes selection,
               oc_cursor = 0, oc_active_scan = None, oc_last_discovery = now\<rparr>)"

definition graph_volume_state :: "graph_db \<Rightarrow> VolumeId \<Rightarrow> VolumeState option" where
  "graph_volume_state db v = map_option v_state (find_volume db v)"

definition handle_session ::
  "'s observation_source \<Rightarrow> graph_env \<Rightarrow> VolumeDescriptor \<Rightarrow> ObservationSession \<Rightarrow> u16 \<Rightarrow> 's controller_action" where
  "handle_session so env descriptor session maximum_events ctl =
     (let v = vd_volume_id descriptor in
      case os_phase session of
        Scanning \<Rightarrow>
          (case so_start_scan so (oc_source ctl) v (broker_scan_mode (os_mode session)) of
             (s, Inl e) \<Rightarrow> (ctl\<lparr>oc_source := s\<rparr>, Inl (provider_failure e))
           | (s, Inr scan_id) \<Rightarrow>
               (case begin_observation_scan (oc_graph ctl) descriptor (os_mode session) (scan_reason (os_mode session)) of
                  (db, Inl e) \<Rightarrow> (ctl\<lparr>oc_source := fst (so_cancel_scan so s scan_id), oc_graph := db\<rparr>, Inl (ObservationGraph e))
                | (db, Inr _) \<Rightarrow>
                    (ctl\<lparr>oc_source := s, oc_graph := db, oc_active_scan := Some \<lparr>ac_volume_id = v, ac_scan_id = scan_id\<rparr>\<rparr>,
                     Inr (StepScanStarted v))))
      | _ \<Rightarrow>
          (case finalize_observation_scan env (oc_graph ctl) v (ucast maximum_events) of
             (db, Inl e) \<Rightarrow> (ctl\<lparr>oc_graph := db\<rparr>, Inl (ObservationGraph e))
           | (db, Inr summary) \<Rightarrow>
               (ctl\<lparr>oc_graph := db\<rparr>,
                Inr (StepFinalized v (min (2 ^ 64 - 1) (fs_stale_links_removed summary + fs_stale_objects_tombstoned summary)) (fs_completed summary)))))"

definition commit_changes ::
  "graph_env \<Rightarrow> VolumeId \<Rightarrow> ProviderCheckpoint \<Rightarrow> GraphMutation list \<Rightarrow> ObservationStep \<Rightarrow> 's controller_action" where
  "commit_changes env v cp mutations outcome ctl =
     (case apply_batch env (oc_graph ctl) \<lparr>gb_volume_id = v, gb_checkpoint = cp, gb_mutations = mutations\<rparr> of
        (db, Inl e) \<Rightarrow> (ctl\<lparr>oc_graph := db\<rparr>, Inl (ObservationGraph e))
      | (db, Inr _) \<Rightarrow> (ctl\<lparr>oc_graph := db\<rparr>, Inr outcome))"

definition requires_reconciliation :: "FilesystemEvent list \<Rightarrow> bool" where
  "requires_reconciliation events \<longleftrightarrow> list_ex (\<lambda>event. case event of ReconciliationRequired _ _ \<Rightarrow> True | _ \<Rightarrow> False) events"

definition event_count :: "'a list \<Rightarrow> u32" where
  "event_count events = (if length events < 2 ^ 32 then of_nat (length events) else - 1)"

definition read_incremental ::
  "'s observation_source \<Rightarrow> graph_env \<Rightarrow> VolumeDescriptor \<Rightarrow> ProviderCheckpoint \<Rightarrow> u16 \<Rightarrow> 's controller_action" where
  "read_incremental so env descriptor saved maximum_events ctl =
     (let v = vd_volume_id descriptor in
      case so_read_changes so (oc_source ctl) saved (ucast maximum_events) of
        (s, Inr (events, batch)) \<Rightarrow>
          commit_changes env v (cb_checkpoint batch)
            ((if graph_volume_state (oc_graph ctl) v = Some VolumeOffline then [SetVolumeState v VolumeOnline] else [])
               @ map mutation_of_event events)
            (if requires_reconciliation events then StepReconciliationRequired v
             else StepIncremental v (event_count events) (cb_has_more batch))
            (ctl\<lparr>oc_source := s\<rparr>)
      | (s, Inl e) \<Rightarrow>
          let ctl1 = ctl\<lparr>oc_source := s\<rparr> in
          if pe_kind e = PeSourceHistoryGap \<or> pe_kind e = PeInvalidCheckpoint
          then commit_changes env v saved
                 [RequireReconciliation v
                    (if pe_kind e = PeSourceHistoryGap then SourceHistoryUnavailable else ProviderRequested)]
                 (StepReconciliationRequired v) ctl1
          else if pe_kind e = PeUnavailable
          then (if graph_volume_state (oc_graph ctl) v \<noteq> Some VolumeOffline
                then commit_changes env v saved [SetVolumeState v VolumeOffline] (StepOffline v) ctl1
                else (ctl1, Inr (StepOffline v)))
          else (ctl1, Inl (provider_failure e)))"

definition read_active_scan ::
  "'s observation_source \<Rightarrow> graph_env \<Rightarrow> ActiveScan \<Rightarrow> u16 \<Rightarrow> 's controller_action" where
  "read_active_scan so env active maximum_events ctl =
     (let v = ac_volume_id active in
      case so_read_scan_page so (oc_source ctl) (ac_scan_id active) maximum_events of
        (s, Inl e) \<Rightarrow> (ctl\<lparr>oc_source := fst (so_cancel_scan so s (ac_scan_id active))\<rparr>, Inl (provider_failure e))
      | (s, Inr page) \<Rightarrow>
          let ctl1 = ctl\<lparr>oc_source := s\<rparr>; outcome = StepScanPage v (event_count (pg_events page)) (pg_complete page) in
          (case apply_observation_scan_page env (oc_graph ctl) v (pg_events page) of
             (db, Inl e) \<Rightarrow> (ctl1\<lparr>oc_graph := db\<rparr>, Inl (ObservationGraph e))
           | (db, Inr _) \<Rightarrow>
               if pg_complete page
               then (case pg_checkpoint page of
                       None \<Rightarrow> (ctl1\<lparr>oc_graph := db\<rparr>, Inl (ObservationProvider PeInternal))
                     | Some final \<Rightarrow>
                         (case stage_observation_checkpoint db v final of
                            (db', Inl e) \<Rightarrow> (ctl1\<lparr>oc_graph := db'\<rparr>, Inl (ObservationGraph e))
                          | (db', Inr _) \<Rightarrow> (ctl1\<lparr>oc_graph := db'\<rparr>, Inr outcome)))
               else (ctl1\<lparr>oc_graph := db, oc_active_scan := Some active\<rparr>, Inr outcome)))"

definition refresh_discovery_if_due ::
  "'s observation_source \<Rightarrow> nat \<Rightarrow> nat \<Rightarrow> 's BrokerObservationController \<Rightarrow> 's BrokerObservationController \<times> (ObservationError + unit)" where
  "refresh_discovery_if_due so now later ctl =
     (if now - oc_last_discovery ctl < DISCOVERY_REFRESH_SECONDS then (ctl, Inr ())
      else (case so_discover_volumes so (oc_source ctl) of
              (s, Inl e) \<Rightarrow> (ctl\<lparr>oc_source := s\<rparr>, Inl (provider_failure e))
            | (s, Inr discovered) \<Rightarrow>
                let volumes = selected_volumes discovered (oc_selection ctl)
                in (ctl\<lparr>oc_source := s, oc_volumes := volumes, oc_cursor := min (oc_cursor ctl) (length volumes - 1),
                        oc_last_discovery := later\<rparr>, Inr ())))"

definition observe_volume :: "'s observation_source \<Rightarrow> graph_env \<Rightarrow> VolumeDescriptor \<Rightarrow> u16 \<Rightarrow> 's controller_action" where
  "observe_volume so env descriptor maximum_events ctl =
     (let db = oc_graph ctl; v = vd_volume_id descriptor in
      case observation_session db v of
        Inl e \<Rightarrow> (ctl, Inl (ObservationGraph e))
      | Inr (Some session) \<Rightarrow> handle_session so env descriptor session maximum_events ctl
      | Inr None \<Rightarrow>
          (case checkpoint db v of
             Inl e \<Rightarrow> (ctl, Inl (ObservationGraph e))
           | Inr saved \<Rightarrow>
               if saved = None \<or> graph_volume_state db v = Some NeedsReconciliation
               then
                 let scan_mode = (if saved \<noteq> None then Reconcile else Initial) in
                 (case begin_observation_scan db descriptor scan_mode (scan_reason scan_mode) of
                    (db', Inl e) \<Rightarrow> (ctl\<lparr>oc_graph := db'\<rparr>, Inl (ObservationGraph e))
                  | (db', Inr _) \<Rightarrow> (ctl\<lparr>oc_graph := db'\<rparr>, Inr (StepScanPrepared v)))
               else (case saved of
                       None \<Rightarrow> (ctl, Inl (ObservationGraph (Invariant ''observation checkpoint disappeared'')))
                     | Some cp \<Rightarrow> read_incremental so env descriptor cp maximum_events ctl)))"

definition observation_step :: "'s observation_source \<Rightarrow> graph_env \<Rightarrow> nat \<Rightarrow> nat \<Rightarrow> u16 \<Rightarrow> 's controller_action" where
  "observation_step so env now later requested ctl =
     (let maximum_events = max 1 (min requested MAX_BROKER_PAGE_EVENTS) in
      case oc_active_scan ctl of
        Some active \<Rightarrow> read_active_scan so env active maximum_events (ctl\<lparr>oc_active_scan := None\<rparr>)
      | None \<Rightarrow>
          (case refresh_discovery_if_due so now later ctl of
             (ctl1, Inl e) \<Rightarrow> (ctl1, Inl e)
           | (ctl1, Inr _) \<Rightarrow>
               if oc_volumes ctl1 = [] then (ctl1, Inr StepIdle)
               else
                 let cursor = (if length (oc_volumes ctl1) \<le> oc_cursor ctl1 then 0 else oc_cursor ctl1)
                 in observe_volume so env (oc_volumes ctl1 ! cursor) maximum_events
                      (ctl1\<lparr>oc_cursor := (cursor + 1) mod length (oc_volumes ctl1)\<rparr>)))"

section \<open>Observation is made of graph operations\<close>

lemma commit_changes_steps:
  assumes "commit_changes env v cp mutations outcome ctl = (ctl', r)"
  shows "(pipeline_step tv env cenv)\<^sup>*\<^sup>* (oc_graph ctl, root) (oc_graph ctl', root)"
proof -
  let ?b = "\<lparr>gb_volume_id = v, gb_checkpoint = cp, gb_mutations = mutations\<rparr>"
  obtain db a where run: "apply_batch env (oc_graph ctl) ?b = (db, a)" by fastforce
  then have "oc_graph ctl' = db" using assms by (auto simp: commit_changes_def split: sum.splits)
  then show ?thesis using pipeline_step.ingest [OF run [unfolded apply_batch_def]] by blast
qed

lemma read_incremental_steps:
  assumes "read_incremental so env descriptor cp m ctl = (ctl', r)"
  shows "(pipeline_step tv env cenv)\<^sup>*\<^sup>* (oc_graph ctl, root) (oc_graph ctl', root)"
proof -
  consider "oc_graph ctl' = oc_graph ctl"
    | s v cp' ms outcome where "commit_changes env v cp' ms outcome (ctl\<lparr>oc_source := s\<rparr>) = (ctl', r)"
    using assms by (auto simp: read_incremental_def Let_def split: prod.splits sum.splits if_splits)
  then show ?thesis
  proof cases
    case (2 s v cp' ms outcome)
    then show ?thesis using commit_changes_steps [OF 2] by simp
  qed simp
qed

lemma handle_session_steps:
  assumes "handle_session so env descriptor sess m ctl = (ctl', r)"
  shows "(pipeline_step tv env cenv)\<^sup>*\<^sup>* (oc_graph ctl, root) (oc_graph ctl', root)"
proof -
  obtain db a where b: "begin_observation_scan (oc_graph ctl) descriptor (os_mode sess) (scan_reason (os_mode sess)) = (db, a)" by fastforce
  obtain db' a' where f: "finalize_observation_scan env (oc_graph ctl) (vd_volume_id descriptor) (ucast m) = (db', a')" by fastforce
  have "oc_graph ctl' \<in> {oc_graph ctl, db, db'}"
    using assms b f by (auto simp: handle_session_def Let_def split: ObservationScanPhase.splits prod.splits sum.splits)
  moreover have "pipeline_step tv env cenv (oc_graph ctl, root) (db, root)" using b by (rule pipeline_step.begin_scan)
  moreover have "pipeline_step tv env cenv (oc_graph ctl, root) (db', root)" using f by (rule pipeline_step.finalize)
  ultimately show ?thesis by (elim insertE) (auto intro: r_into_rtranclp)
qed

lemma read_active_scan_steps:
  assumes "read_active_scan so env active m ctl = (ctl', r)"
  shows "(pipeline_step tv env cenv)\<^sup>*\<^sup>* (oc_graph ctl, root) (oc_graph ctl', root)"
proof -
  let ?v = "ac_volume_id active"
  consider "oc_graph ctl' = oc_graph ctl"
    | events a where "apply_observation_scan_page env (oc_graph ctl) ?v events = (oc_graph ctl', a)"
    | events db a final a' where "apply_observation_scan_page env (oc_graph ctl) ?v events = (db, a)"
        "stage_observation_checkpoint db ?v final = (oc_graph ctl', a')"
    using assms by (auto simp: read_active_scan_def Let_def split: prod.splits sum.splits option.splits if_splits) 
  then show ?thesis
  proof cases
    case (3 events db a final a')
    have "pipeline_step tv env cenv (oc_graph ctl, root) (db, root)" "pipeline_step tv env cenv (db, root) (oc_graph ctl', root)"
      using pipeline_step.scan_page [OF 3(1)] pipeline_step.stage [OF 3(2)] by blast+
    then show ?thesis by (meson r_into_rtranclp rtranclp_trans)
  qed (auto intro: pipeline_step.scan_page r_into_rtranclp)
qed

lemma observe_volume_steps:
  assumes "observe_volume so env descriptor m ctl = (ctl', r)"
  shows "(pipeline_step tv env cenv)\<^sup>*\<^sup>* (oc_graph ctl, root) (oc_graph ctl', root)"
proof -
  consider "oc_graph ctl' = oc_graph ctl"
    | sess where "handle_session so env descriptor sess m ctl = (ctl', r)"
    | cp where "read_incremental so env descriptor cp m ctl = (ctl', r)"
    | scan_mode reason a where "begin_observation_scan (oc_graph ctl) descriptor scan_mode reason = (oc_graph ctl', a)"
    using assms by (auto simp: observe_volume_def Let_def split: prod.splits sum.splits option.splits if_splits)
  then show ?thesis
  proof cases
    case 1
    then show ?thesis by simp
  next
    case 2
    then show ?thesis by (rule handle_session_steps)
  next
    case 3
    then show ?thesis by (rule read_incremental_steps)
  next
    case 4
    then show ?thesis by (intro r_into_rtranclp pipeline_step.begin_scan)
  qed
qed

lemma refresh_discovery_graph: "refresh_discovery_if_due so now later ctl = (ctl', r) \<Longrightarrow> oc_graph ctl' = oc_graph ctl"
  by (auto simp: refresh_discovery_if_due_def Let_def split: if_splits prod.splits sum.splits)

lemma observation_step_steps:
  assumes "observation_step so env now later requested ctl = (ctl', r)"
  shows "(pipeline_step tv env cenv)\<^sup>*\<^sup>* (oc_graph ctl, root) (oc_graph ctl', root)"
proof (cases "oc_active_scan ctl")
  case (Some active)
  then show ?thesis
    using assms read_active_scan_steps [of so env active _ "ctl\<lparr>oc_active_scan := None\<rparr>" ctl' r] by (simp add: observation_step_def Let_def)
next
  case None
  obtain ctl1 a where d: "refresh_discovery_if_due so now later ctl = (ctl1, a)" by fastforce
  then have same: "oc_graph ctl1 = oc_graph ctl" by (rule refresh_discovery_graph)
  consider "ctl' = ctl1"
    | descriptor cursor where "observe_volume so env descriptor (max 1 (min requested MAX_BROKER_PAGE_EVENTS)) (ctl1\<lparr>oc_cursor := cursor\<rparr>) = (ctl', r)"
    using assms None d by (auto simp: observation_step_def Let_def split: sum.splits if_splits)
  then show ?thesis
  proof cases
    case (2 descriptor cursor)
    then show ?thesis using observe_volume_steps [OF 2] same by simp
  qed (simp add: same)
qed

text \<open>A controller at work: any number of steps with any clock, any budgets and any answers of the source.\<close>

fun observe :: "'s observation_source \<Rightarrow> graph_env \<Rightarrow> (nat \<times> nat \<times> u16) list \<Rightarrow> 's BrokerObservationController \<Rightarrow> 's BrokerObservationController" where
  "observe so env [] ctl = ctl"
| "observe so env ((now, later, requested) # turns) ctl = observe so env turns (fst (observation_step so env now later requested ctl))"

lemma observe_steps: "(pipeline_step tv env cenv)\<^sup>*\<^sup>* (oc_graph ctl, root) (oc_graph (observe so env turns ctl), root)"
proof (induction so env turns ctl rule: observe.induct)
  case (2 so env now later requested turns ctl)
  have "(pipeline_step tv env cenv)\<^sup>*\<^sup>* (oc_graph ctl, root) (oc_graph (fst (observation_step so env now later requested ctl)), root)"
    using observation_step_steps [OF prod.collapse [symmetric]] .
  then show ?case using 2 by simp
qed simp


section \<open>Changes and their checkpoint\<close>

lemma read_incremental_success:
  assumes "read_incremental so env descriptor cp m ctl = (ctl', Inr (StepIncremental v n has_more))"
  obtains s' events batch summary where "v = vd_volume_id descriptor"
    "so_read_changes so (oc_source ctl) cp (ucast m) = (s', Inr (events, batch))" "n = event_count events" "has_more = cb_has_more batch"
    "apply_batch env (oc_graph ctl) \<lparr>gb_volume_id = v, gb_checkpoint = cb_checkpoint batch,
       gb_mutations = (if graph_volume_state (oc_graph ctl) v = Some VolumeOffline then [SetVolumeState v VolumeOnline] else [])
         @ map mutation_of_event events\<rparr> = (oc_graph ctl', Inr summary)"
  using assms by (fastforce simp: read_incremental_def commit_changes_def Let_def split: prod.splits sum.splits if_splits)

lemma observe_volume_incremental:
  assumes "observe_volume so env descriptor m ctl = (ctl', Inr (StepIncremental v n has_more))"
  obtains cp where "checkpoint (oc_graph ctl) (vd_volume_id descriptor) = Inr (Some cp)"
    "read_incremental so env descriptor cp m ctl = (ctl', Inr (StepIncremental v n has_more))"
  using assms
  by (auto simp: observe_volume_def handle_session_def Let_def
      split: prod.splits sum.splits option.splits if_splits ObservationScanPhase.splits)

lemma observation_step_incremental:
  assumes "observation_step so env now later requested ctl = (ctl', Inr (StepIncremental v n has_more))"
  obtains ctl1 descriptor m where "oc_graph ctl1 = oc_graph ctl"
    "observe_volume so env descriptor m ctl1 = (ctl', Inr (StepIncremental v n has_more))"
proof (cases "oc_active_scan ctl")
  case (Some active)
  then have False
    using assms by (auto simp: observation_step_def read_active_scan_def Let_def split: prod.splits sum.splits option.splits if_splits)
  then show ?thesis ..
next
  case None
  obtain ctl1 a where d: "refresh_discovery_if_due so now later ctl = (ctl1, a)" by fastforce
  then have same: "oc_graph ctl1 = oc_graph ctl" by (rule refresh_discovery_graph)
  obtain descriptor cursor where
    "observe_volume so env descriptor (max 1 (min requested MAX_BROKER_PAGE_EVENTS)) (ctl1\<lparr>oc_cursor := cursor\<rparr>) = (ctl', Inr (StepIncremental v n has_more))"
    using assms None d by (auto simp: observation_step_def Let_def split: sum.splits if_splits)
  then show ?thesis using that [of "ctl1\<lparr>oc_cursor := cursor\<rparr>"] same by simp
qed

text \<open>C5: changes and their checkpoint are committed together. When a step reports incremental progress, the source had answered the
  checkpoint the graph holds with the reported number of events; one transaction has applied exactly these events, in order
  (after bringing an offline volume back), and has stored the checkpoint that came with them; the volumes that were not
  asked about keep their checkpoints.\<close>

theorem observation_commits_changes_with_checkpoint:
  assumes "graph_ok (oc_graph ctl)" "observation_step so env now later requested ctl = (ctl', Inr (StepIncremental v n has_more))"
  shows "\<exists>cp s s' m events batch summary. checkpoint (oc_graph ctl) v = Inr (Some cp)
    \<and> so_read_changes so s cp m = (s', Inr (events, batch)) \<and> n = event_count events \<and> has_more = cb_has_more batch
    \<and> apply_batch env (oc_graph ctl) \<lparr>gb_volume_id = v, gb_checkpoint = cb_checkpoint batch,
        gb_mutations = (if graph_volume_state (oc_graph ctl) v = Some VolumeOffline then [SetVolumeState v VolumeOnline] else [])
          @ map mutation_of_event events\<rparr> = (oc_graph ctl', Inr summary)
    \<and> checkpoint (oc_graph ctl') v = Inr (Some (cb_checkpoint batch))
    \<and> (\<forall>w. w \<noteq> v \<longrightarrow> checkpoint (oc_graph ctl') w = checkpoint (oc_graph ctl) w)"
proof -
  obtain ctl1 descriptor m where 1: "oc_graph ctl1 = oc_graph ctl"
      "observe_volume so env descriptor m ctl1 = (ctl', Inr (StepIncremental v n has_more))"
    using observation_step_incremental [OF assms(2)] by blast
  then obtain cp where cp: "checkpoint (oc_graph ctl) (vd_volume_id descriptor) = Inr (Some cp)"
      "read_incremental so env descriptor cp m ctl1 = (ctl', Inr (StepIncremental v n has_more))"
    using observe_volume_incremental by metis
  obtain s' events batch summary where r: "v = vd_volume_id descriptor"
    "so_read_changes so (oc_source ctl1) cp (ucast m) = (s', Inr (events, batch))" "n = event_count events" "has_more = cb_has_more batch"
    "apply_batch env (oc_graph ctl) \<lparr>gb_volume_id = v, gb_checkpoint = cb_checkpoint batch,
       gb_mutations = (if graph_volume_state (oc_graph ctl) v = Some VolumeOffline then [SetVolumeState v VolumeOnline] else [])
         @ map mutation_of_event events\<rparr> = (oc_graph ctl', Inr summary)"
    using read_incremental_success [OF cp(2)] 1(1) by metis
  have "checkpoint (oc_graph ctl') v = Inr (Some (cb_checkpoint batch)) \<and> (\<forall>w. w \<noteq> v \<longrightarrow> checkpoint (oc_graph ctl') w = checkpoint (oc_graph ctl) w)"
    using apply_batch_commits_checkpoint [OF assms(1) r(5) [unfolded apply_batch_def]] by simp
  then show ?thesis using cp(1) r by blast
qed

section \<open>Lost history\<close>

text \<open>A batch that only asks for reconciliation.\<close>

lemma reconciliation_batch:
  assumes "graph_ok db"
    and "apply_batch env db \<lparr>gb_volume_id = v, gb_checkpoint = cp, gb_mutations = [RequireReconciliation v reason]\<rparr> = (db', Inr summary)"
  shows "graph_volume_state db' v = Some NeedsReconciliation" "observation_session db' v = observation_session db v"
    "checkpoint db' v = Inr (Some cp)"
proof -
  let ?b = "\<lparr>gb_volume_id = v, gb_checkpoint = cp, gb_mutations = [RequireReconciliation v reason]\<rparr>"
  note run = assms(2) [unfolded apply_batch_def]
  show "checkpoint db' v = Inr (Some cp)" using apply_batch_commits_checkpoint [OF assms(1) run] by simp
  obtain g jobs n where tx: "graph_batch_validate ?b = Inr ()" "batch_transaction env db ?b Durable = Inr (db', g, jobs, n)"
    using run by (auto simp: apply_batch_Inr)
  have "graph_volume_observation_sessions db' = graph_volume_observation_sessions db"
    using batch_rows [OF assms(1) tx] by blast
  then show "observation_session db' v = observation_session db v" by (simp add: observation_session_def)
  obtain db1 affected db2 where m: "apply_mutations db [RequireReconciliation v reason] g = Inr (db1, jobs, affected)"
      "sync_links env db1 affected g Durable = Inr (db2, n)"
    and cp: "find_volume db2 v \<noteq> None" "upsert_checkpoint (set_generation db2 v g) \<lparr>cp_volume_id = v, cp_provider_id = pc_provider_id cp,
        cp_format_version = uint (pc_format_version cp), cp_opaque = pc_opaque cp\<rparr> = Inr db'"
    using batch_transaction_cases [OF tx(2)] by simp metis
  have part: "graph_part db2 = graph_part db1"
    using m(2) by (rule sync_links_invariant) (simp_all add: sync_frame(1))
  have "map_option v_state (find_volume db1 v) = map_option (\<lambda>_. NeedsReconciliation) (find_volume db1 v)"
    using m(1) by (auto simp: apply_mutations_def require_reconciliation_def enqueue_volume_projection_refresh_def result_simps
        tbl_find_update_key split: if_splits)
  then show "graph_volume_state db' v = Some NeedsReconciliation"
    using cp graph_part_eq_fields(1) [OF part] find_volume_set_generation [of v db2 v g]
    by (auto simp: graph_volume_state_def upsert_checkpoint_def split: if_splits)
qed

lemma begin_prepares_session:
  assumes "begin_observation_scan db d scan_mode reason = (db', Inr sess)"
  shows "observation_session db' (vd_volume_id d) = Inr (Some sess) \<and> os_mode sess = scan_mode \<and> os_phase sess = Scanning"
proof -
  obtain g g' where b: "begin_transaction db d scan_mode reason = Inr (db', g)" "u64_try_from_i64 g = Some g'"
      "sess = \<lparr>os_volume_id = vd_volume_id d, os_scan_generation = g', os_mode = scan_mode, os_phase = Scanning\<rparr>"
    using begin_Inr [OF assms] by blast
  then show ?thesis using begin_result(9) [OF b(1), of "vd_volume_id d"] by (simp add: observation_session_def)
qed

text \<open>C13: lost history leads to reconciliation. When the source reports a gap in its history or an invalid checkpoint, a successful step keeps the
  checkpoint, marks the volume and prepares nothing yet; the next visit of the volume prepares a scan in reconciliation mode, or fails
  with a graph error, and never reads increments from the stale checkpoint.\<close>

theorem observation_gap_reconciles:
  assumes "graph_ok (oc_graph ctl)" "observation_session (oc_graph ctl) (vd_volume_id d) = Inr None"
    and "checkpoint (oc_graph ctl) (vd_volume_id d) = Inr (Some cp)"
    and "graph_volume_state (oc_graph ctl) (vd_volume_id d) \<noteq> Some NeedsReconciliation"
    and "so_read_changes so (oc_source ctl) cp (ucast m) = (s, Inl e)" "pe_kind e = PeSourceHistoryGap \<or> pe_kind e = PeInvalidCheckpoint"
    and "observe_volume so env d m ctl = (ctl1, Inr outcome)" "observe_volume so env d m ctl1 = (ctl2, next_outcome)"
  shows "outcome = StepReconciliationRequired (vd_volume_id d) \<and> checkpoint (oc_graph ctl1) (vd_volume_id d) = Inr (Some cp)
    \<and> graph_volume_state (oc_graph ctl1) (vd_volume_id d) = Some NeedsReconciliation
    \<and> (case next_outcome of
         Inr st \<Rightarrow> st = StepScanPrepared (vd_volume_id d)
           \<and> (\<exists>sess. observation_session (oc_graph ctl2) (vd_volume_id d) = Inr (Some sess) \<and> os_mode sess = Reconcile \<and> os_phase sess = Scanning)
       | Inl x \<Rightarrow> \<exists>ge. x = ObservationGraph ge)"
proof -
  let ?v = "vd_volume_id d"
  obtain reason summary where b: "apply_batch env (oc_graph ctl) \<lparr>gb_volume_id = ?v, gb_checkpoint = cp,
      gb_mutations = [RequireReconciliation ?v reason]\<rparr> = (oc_graph ctl1, Inr summary)" "outcome = StepReconciliationRequired ?v"
    using assms(2-7) by (auto simp: observe_volume_def read_incremental_def commit_changes_def Let_def split: prod.splits sum.splits)
  note after = reconciliation_batch [OF assms(1) b(1)]
  obtain db' a where start: "begin_observation_scan (oc_graph ctl1) d Reconcile (scan_reason Reconcile) = (db', a)" by fastforce
  then have next_step: "(ctl2, next_outcome) = (ctl1\<lparr>oc_graph := db'\<rparr>, case a of Inl ge \<Rightarrow> Inl (ObservationGraph ge) | Inr _ \<Rightarrow> Inr (StepScanPrepared ?v))"
    using assms(8) after assms(2) by (simp add: observe_volume_def Let_def split: sum.splits)
  show ?thesis
    using b(2) after next_step begin_prepares_session [of "oc_graph ctl1" d Reconcile "scan_reason Reconcile" db'] start by (cases a) auto
qed

section \<open>Checkpoints the broker cannot carry\<close>

text \<open>C38: two checkpoint failures are never repaired through the broker. When the stored checkpoint has grown beyond the broker's limit, or when
  the provider behind the broker finds it invalid, a visit of the volume fails with an internal or an unsupported error and
  leaves the graph as it was: no reconciliation is requested, and the next visit meets the same checkpoint.\<close>

theorem broker_checkpoint_errors_stall:
  assumes "client_session (oc_source ctl)" "bf_next_request_id (oc_source ctl) < - 1" "bf_transport (oc_source ctl) = (svc, n)" "0 < m"
    and "observation_session (oc_graph ctl) (vd_volume_id d) = Inr None"
    and "checkpoint (oc_graph ctl) (vd_volume_id d) = Inr (Some cp)"
    and "graph_volume_state (oc_graph ctl) (vd_volume_id d) \<noteq> Some NeedsReconciliation"
    and "65536 < length (pc_opaque cp)
      \<or> length (pc_opaque cp) \<le> 65536 \<and> length (pc_provider_id cp) \<in> {1..64}
        \<and> (\<exists>p events e. pv_read_changes pv (bk_provider svc) cp (min (ucast m) 256) = (p, events, Inl e) \<and> pe_kind e = PeInvalidCheckpoint)"
  shows "\<exists>ctl' kind. observe_volume (broker_source (in_process pv turns)) env d m ctl = (ctl', Inl (ObservationProvider kind))
    \<and> kind \<in> {PeInternal, PeUnsupported} \<and> oc_graph ctl' = oc_graph ctl"
proof -
  let ?c = "oc_source ctl" and ?m = "ucast m :: u32"
  have m: "0 < ?m" using assms(4) unsigned_less [of m, where ?'a = nat] by (simp add: word_less_nat_alt unsigned_ucast_eq take_bit_eq_mod)
  have "\<exists>c' x. client_invoke (in_process pv turns) (ReadChanges cp (page_of ?m)) ?c = (c', Inl x) \<and> pe_kind x \<in> {PeInternal, PeUnsupported}"
    using assms(8)
  proof
    assume "65536 < length (pc_opaque cp)"
    then obtain c' where "client_invoke (in_process pv turns) (ReadChanges cp (page_of ?m)) ?c = (c', Inl (broker_wire_error BeInvalidRequest))"
      using in_process_long_checkpoint [OF _ m] by blast
    then show ?thesis by (simp add: broker_wire_error_def platform_error_def)
  next
    assume "length (pc_opaque cp) \<le> 65536 \<and> length (pc_provider_id cp) \<in> {1..64}
        \<and> (\<exists>p events e. pv_read_changes pv (bk_provider svc) cp (min ?m 256) = (p, events, Inl e) \<and> pe_kind e = PeInvalidCheckpoint)"
    then obtain p events e where r: "length (pc_opaque cp) \<le> 65536" "length (pc_provider_id cp) \<in> {1..64}"
        "pv_read_changes pv (bk_provider svc) cp (min ?m 256) = (p, events, Inl e)" "pe_kind e = PeInvalidCheckpoint" by blast
    then obtain c' where "client_invoke (in_process pv turns) (ReadChanges cp (page_of ?m)) ?c = (c', Inl (through_broker e))"
      using in_process_changes [OF assms(1-3) m r(1-3), of turns] by auto
    then show ?thesis using r(4) by (simp add: through_broker_def broker_wire_error_def platform_error_def)
  qed
  then obtain c' x where i: "client_invoke (in_process pv turns) (ReadChanges cp (page_of ?m)) ?c = (c', Inl x)" "pe_kind x \<in> {PeInternal, PeUnsupported}"
    by blast
  have "so_read_changes (broker_source (in_process pv turns)) ?c cp ?m = (c', Inl x)"
    using i(1) page_of_positive [OF m] by (simp add: broker_source_def client_read_changes_def Let_def)
  then show ?thesis
    using i(2) assms(5-7) by (auto simp: observe_volume_def read_incremental_def provider_failure_def Let_def)
qed

section \<open>Witnesses\<close>

text \<open>A source with one volume whose change reads answer as given.\<close>

definition sample_source :: "(FilesystemEvent list \<times> ChangeBatch) platform_result \<Rightarrow> unit observation_source" where
  "sample_source answer =
     \<lparr>so_discover_volumes = (\<lambda>s. (s, Inr [sample_volume_descriptor])), so_start_scan = (\<lambda>s _ _. (s, Inr 7)),
      so_read_scan_page = (\<lambda>s _ _. (s, Inr \<lparr>pg_events = [], pg_checkpoint = Some sample_checkpoint, pg_complete = True, pg_has_more = False\<rparr>)),
      so_cancel_scan = (\<lambda>s _. (s, Inr ())), so_read_changes = (\<lambda>s _ _. (s, answer))\<rparr>"

definition sample_gap :: PlatformError where
  "sample_gap = platform_error PeSourceHistoryGap ''read_changes'' ''gap''"

definition sample_controller :: "graph_db \<Rightarrow> unit BrokerObservationController" where
  "sample_controller db = \<lparr>oc_source = (), oc_graph = db, oc_selection = AllLocalNtfs, oc_volumes = [sample_volume_descriptor],
     oc_cursor = 0, oc_active_scan = None, oc_last_discovery = 0\<rparr>"


lemma committed_volume:
  "observation_session committed (from_u128 1) = Inr None" "checkpoint committed (from_u128 1) = Inr (Some sample_checkpoint)"
  "graph_volume_state committed (from_u128 1) = Some VolumeOnline"
  by code_simp+

definition sample_change_batch :: ChangeBatch where
  "sample_change_batch = \<lparr>cb_checkpoint = sample_checkpoint\<lparr>pc_opaque := [3]\<rparr>, cb_emitted_events = 0, cb_has_more = False\<rparr>"

lemma sample_volume_id: "vd_volume_id sample_volume_descriptor = from_u128 1"
  by (simp add: sample_volume_descriptor_def)

theorem observation_commits_changes_with_checkpoint_witness:
  "checkpoint (oc_graph (fst (observation_step (sample_source (Inr ([], sample_change_batch))) batch_env 0 0 1 (sample_controller committed)))) (from_u128 1)
     = Inr (Some (sample_checkpoint\<lparr>pc_opaque := [3]\<rparr>))"
proof -
  let ?so = "sample_source (Inr ([], sample_change_batch))"
  let ?b = "\<lparr>gb_volume_id = from_u128 1, gb_checkpoint = cb_checkpoint sample_change_batch, gb_mutations = []\<rparr>"
  have "\<not> isl (snd (apply_batch batch_env committed ?b))" by code_simp
  then obtain db summary where b: "apply_batch batch_env committed ?b = (db, Inr summary)"
    by (metis isl_def prod.collapse sum.collapse(2))
  have "\<exists>ctl'. observation_step ?so batch_env 0 0 1 (sample_controller committed) = (ctl', Inr (StepIncremental (from_u128 1) 0 False))"
    using b by (simp add: observation_step_def refresh_discovery_if_due_def sample_controller_def DISCOVERY_REFRESH_SECONDS_def observe_volume_def
        read_incremental_def commit_changes_def sample_source_def sample_volume_id committed_volume requires_reconciliation_def event_count_def
        sample_change_batch_def)
  then obtain ctl' where run: "observation_step ?so batch_env 0 0 1 (sample_controller committed) = (ctl', Inr (StepIncremental (from_u128 1) 0 False))" by blast
  have "graph_ok (oc_graph (sample_controller committed))" using committed_ok by (simp add: sample_controller_def)
  from observation_commits_changes_with_checkpoint [OF this run] obtain cp s s' m events batch where
    "so_read_changes ?so s cp m = (s', Inr (events, batch))" "checkpoint (oc_graph ctl') (from_u128 1) = Inr (Some (cb_checkpoint batch))" by blast
  moreover from this have "batch = sample_change_batch" by (simp add: sample_source_def)
  ultimately show ?thesis using run by (simp add: sample_change_batch_def)
qed

theorem observation_gap_reconciles_witness:
  "graph_volume_state (oc_graph (fst (observe_volume (sample_source (Inl sample_gap)) batch_env sample_volume_descriptor 1
     (sample_controller committed)))) (from_u128 1) = Some NeedsReconciliation"
proof -
  let ?so = "sample_source (Inl sample_gap)" and ?ctl = "sample_controller committed"
  let ?b = "\<lparr>gb_volume_id = from_u128 1, gb_checkpoint = sample_checkpoint, gb_mutations = [RequireReconciliation (from_u128 1) SourceHistoryUnavailable]\<rparr>"
  have "\<not> isl (snd (apply_batch batch_env committed ?b))" by code_simp
  then obtain db summary where "apply_batch batch_env committed ?b = (db, Inr summary)"
    by (metis isl_def prod.collapse sum.collapse(2))
  then have "\<exists>ctl1 outcome. observe_volume ?so batch_env sample_volume_descriptor 1 ?ctl = (ctl1, Inr outcome)"
    by (simp add: sample_controller_def observe_volume_def read_incremental_def commit_changes_def sample_source_def sample_volume_id
        committed_volume sample_gap_def platform_error_def)
  then obtain ctl1 outcome where run: "observe_volume ?so batch_env sample_volume_descriptor 1 ?ctl = (ctl1, Inr outcome)" by blast
  have start: "graph_ok (oc_graph ?ctl)" "observation_session (oc_graph ?ctl) (vd_volume_id sample_volume_descriptor) = Inr None"
      "checkpoint (oc_graph ?ctl) (vd_volume_id sample_volume_descriptor) = Inr (Some sample_checkpoint)"
      "graph_volume_state (oc_graph ?ctl) (vd_volume_id sample_volume_descriptor) \<noteq> Some NeedsReconciliation"
      "so_read_changes ?so (oc_source ?ctl) sample_checkpoint (ucast (1 :: u16)) = ((), Inl sample_gap)"
      "pe_kind sample_gap = PeSourceHistoryGap \<or> pe_kind sample_gap = PeInvalidCheckpoint"
    using committed_ok committed_volume by (simp_all add: sample_controller_def sample_volume_id sample_source_def sample_gap_def platform_error_def)
  from observation_gap_reconciles [OF start run prod.collapse [symmetric]] run show ?thesis by (simp add: sample_volume_id)
qed

definition rejecting_provider :: "unit broker_provider" where
  "rejecting_provider = sample_broker_provider\<lparr>pv_read_changes := (\<lambda>p _ _. (p, [], Inl (platform_error PeInvalidCheckpoint ''read_changes'' ''stale'')))\<rparr>"

definition sample_broker_controller :: "(unit BrokerService \<times> nat) BrokerFilesystemProvider BrokerObservationController" where
  "sample_broker_controller = \<lparr>oc_source = sample_client, oc_graph = committed, oc_selection = AllLocalNtfs,
     oc_volumes = [sample_volume_descriptor], oc_cursor = 0, oc_active_scan = None, oc_last_discovery = 0\<rparr>"

theorem broker_checkpoint_errors_stall_witness:
  "\<exists>ctl' kind. observe_volume (broker_source (in_process rejecting_provider (\<lambda>_ _. 1))) batch_env sample_volume_descriptor 1
       sample_broker_controller = (ctl', Inl (ObservationProvider kind)) \<and> oc_graph ctl' = committed"
proof -
  let ?ctl = sample_broker_controller
  obtain svc n where t: "bf_transport sample_client = (svc, n)" by fastforce
  have start: "client_session (oc_source ?ctl)" "bf_next_request_id (oc_source ?ctl) < - 1" "bf_transport (oc_source ?ctl) = (svc, n)"
    using sample_client_session t by (simp_all add: sample_broker_controller_def sample_client_def)
  have graph: "observation_session (oc_graph ?ctl) (vd_volume_id sample_volume_descriptor) = Inr None"
      "checkpoint (oc_graph ?ctl) (vd_volume_id sample_volume_descriptor) = Inr (Some sample_checkpoint)"
      "graph_volume_state (oc_graph ?ctl) (vd_volume_id sample_volume_descriptor) \<noteq> Some NeedsReconciliation"
    using committed_volume by (simp_all add: sample_broker_controller_def sample_volume_id)
  have "\<exists>ctl' kind. observe_volume (broker_source (in_process rejecting_provider (\<lambda>_ _. 1))) batch_env sample_volume_descriptor 1 ?ctl
      = (ctl', Inl (ObservationProvider kind)) \<and> kind \<in> {PeInternal, PeUnsupported} \<and> oc_graph ctl' = oc_graph ?ctl"
    by (rule broker_checkpoint_errors_stall [OF start _ graph])
      (simp_all add: rejecting_provider_def platform_error_def sample_checkpoint_def)
  then show ?thesis by (auto simp: sample_broker_controller_def)
qed

end
