(* ===== verification/Agent_Search.thy ===== *)
theory Agent_Search
  imports Catalog_Index Agent_Api Governor "HOL-Library.Product_Lexorder"
begin

text \<open>
  Catalog search in the Agent (\<open>crates/agent/src/service.rs\<close>): filters, match classes and their order, and the
  pipeline of \<open>search_impl\<close> from candidate retrieval to numbered hits. A \<open>String\<close> that the source normalises
  is the list of its code points, so that \<open>starts_with\<close>, \<open>contains\<close> and comparison are the list operations.
  Time and cancellation are the parameter \<open>request_clock\<close>, read once per check in the order the checks are
  made. The evidence lines written to standard error are not modelled.

  Shown: the answer is bounded, duplicate-free, numbered and in rank order; every hit is a current document of
  the index that passes the filters and matches as reported; exact names are found; a search answers only
  while its deadline and cancellation checks pass, and its errors are fixed texts.
\<close>

section \<open>Ranking\<close>

definition RANKING_VERSION :: u32 where "RANKING_VERSION = 1"
definition MAX_CANDIDATES :: nat where "MAX_CANDIDATES = 5000"

definition wire_error :: "AgentErrorCode \<Rightarrow> string \<Rightarrow> AgentWireError" where
  "wire_error code message = \<lparr>we_code = code, we_message = message\<rparr>"

definition internal_error :: AgentWireError where
  "internal_error = wire_error AeInternal ''agent backend operation failed''"

definition redact :: "'e + 'a \<Rightarrow> 'a agent_result" where
  "redact r = (case r of Inl _ \<Rightarrow> Inl internal_error | Inr x \<Rightarrow> Inr x)"

fun query_mode_name :: "CatalogQueryMode \<Rightarrow> string" where
  "query_mode_name QueryExact = ''exact''"
| "query_mode_name QueryToken = ''token''"
| "query_mode_name QueryPrefix = ''prefix''"
| "query_mode_name QuerySubstring = ''substring''"
| "query_mode_name QueryPath = ''path''"

definition matches_filters :: "catalog_env \<Rightarrow> CatalogDocument \<Rightarrow> SearchRequest \<Rightarrow> bool" where
  "matches_filters env document request =
     (if sr_scope request = Files \<and> md_kind (doc_metadata document) = Directory then False
      else if sr_scope request = Folders \<and> md_kind (doc_metadata document) \<noteq> Directory then False
      else if sf_extensions (sr_filters request) \<noteq> []
        \<and> \<not> (case doc_extension document of
               None \<Rightarrow> False
             | Some extension \<Rightarrow>
                 list_ex (\<lambda>expected. normalize env expected = normalize env extension) (sf_extensions (sr_filters request)))
      then False
      else if (case sf_directory_prefix (sr_filters request) of
                 None \<Rightarrow> False
               | Some pre \<Rightarrow> \<not> prefix (normalize env pre) (normalize env (doc_resolved_path document)))
      then False
      else if (case sf_minimum_size (sr_filters request) of None \<Rightarrow> False | Some m \<Rightarrow> md_size (doc_metadata document) < m)
        \<or> (case sf_maximum_size (sr_filters request) of None \<Rightarrow> False | Some m \<Rightarrow> m < md_size (doc_metadata document))
      then False
      else True)"

definition classify :: "catalog_env \<Rightarrow> CatalogDocument \<Rightarrow> uchar list \<Rightarrow> MatchType option" where
  "classify env document query =
     (let name = normalize env (doc_name document) in
      if name = query then Some ExactName
      else if prefix query name then Some PrefixName
      else if list_ex (\<lambda>token. token = query) (tokens env name) then Some TokenName
      else if 3 \<le> length query \<and> sublist query name then Some SubstringName
      else if sublist query (normalize env (doc_resolved_path document)) then Some PathMatch
      else None)"

fun rank_class :: "MatchType \<Rightarrow> nat" where
  "rank_class ExactName = 0"
| "rank_class PrefixName = 1"
| "rank_class TokenName = 2"
| "rank_class SubstringName = 3"
| "rank_class PathMatch = 4"

text \<open>\<open>compare_ranked\<close> orders by this key; a \<open>String\<close> compares as the list of its code points.\<close>

definition rank_key :: "catalog_env \<Rightarrow> MatchType \<times> CatalogDocument \<Rightarrow> nat \<times> nat list \<times> nat list \<times> DocumentId" where
  "rank_key env = (\<lambda>(match_type, document).
     (rank_class match_type, normalize env (doc_name document), normalize env (doc_resolved_path document),
      ci_document_id (doc_identity document)))"

datatype rust_ordering = OrdLess | OrdEqual | OrdGreater

definition cmp :: "'a::linorder \<Rightarrow> 'a \<Rightarrow> rust_ordering" where
  "cmp a b = (if a < b then OrdLess else if a = b then OrdEqual else OrdGreater)"

definition then_with :: "rust_ordering \<Rightarrow> rust_ordering \<Rightarrow> rust_ordering" where
  "then_with a b = (if a = OrdEqual then b else a)"

definition compare_ranked ::
  "catalog_env \<Rightarrow> MatchType \<times> CatalogDocument \<Rightarrow> MatchType \<times> CatalogDocument \<Rightarrow> rust_ordering" where
  "compare_ranked env left right =
     (case left of (left_match, l) \<Rightarrow> case right of (right_match, r) \<Rightarrow>
        then_with (cmp (rank_class left_match) (rank_class right_match))
        (then_with (cmp (normalize env (doc_name l)) (normalize env (doc_name r)))
        (then_with (cmp (normalize env (doc_resolved_path l)) (normalize env (doc_resolved_path r)))
          (cmp (ci_document_id (doc_identity l)) (ci_document_id (doc_identity r))))))"

lemma compare_ranked_key: "compare_ranked env left right = cmp (rank_key env left) (rank_key env right)"
  by (cases left; cases right) (auto simp: compare_ranked_def rank_key_def cmp_def then_with_def)

text \<open>A stable \<open>sort_by\<close>: insertion from the right keeps equal elements in order.\<close>

fun insort_by :: "('a \<Rightarrow> 'a \<Rightarrow> rust_ordering) \<Rightarrow> 'a \<Rightarrow> 'a list \<Rightarrow> 'a list" where
  "insort_by c x [] = [x]"
| "insort_by c x (y # ys) = (if c x y = OrdGreater then y # insort_by c x ys else x # y # ys)"

definition sort_by :: "('a \<Rightarrow> 'a \<Rightarrow> rust_ordering) \<Rightarrow> 'a list \<Rightarrow> 'a list" where
  "sort_by c xs = foldr (insort_by c) xs []"

lemma sort_by_key: "sort_by (\<lambda>a b. cmp (f a) (f b)) xs = sort_key f xs"
proof -
  have "insort_by (\<lambda>a b. cmp (f a) (f b)) x ys = insort_key f x ys" for x ys
    by (induction ys) (auto simp: cmp_def not_le)
  then have "insort_by (\<lambda>a b. cmp (f a) (f b)) = insort_key f" by (intro ext)
  then show ?thesis by (simp add: sort_by_def sort_key_def)
qed

section \<open>Requests under a deadline\<close>

text \<open>What the checks between stages observe: the \<open>n\<close>-th check sees whether the transport has cancelled and the
  time elapsed in nanoseconds.\<close>

record request_clock =
  rc_cancelled :: "nat \<Rightarrow> bool"
  rc_elapsed :: "nat \<Rightarrow> nat"

definition check_request :: "request_clock \<Rightarrow> nat \<Rightarrow> nat \<Rightarrow> unit agent_result" where
  "check_request clock deadline n =
     (if rc_cancelled clock n then Inl (wire_error AeCancelled ''request was cancelled'')
      else if deadline \<le> rc_elapsed clock n then Inl (wire_error AeDeadlineExceeded ''request deadline exceeded'')
      else Inr ())"

definition deadline_nanos :: "u32 \<Rightarrow> nat" where
  "deadline_nanos ms = unat ms * 1000000"

section \<open>The search pipeline\<close>

definition candidate_limit :: "nat \<Rightarrow> nat" where
  "candidate_limit top_k = max 200 (min MAX_CANDIDATES (top_k * 40))"

definition query_modes :: "uchar list \<Rightarrow> CatalogQueryMode list" where
  "query_modes query =
     [QueryExact, QueryPrefix, QueryToken, QueryPath] @ (if 3 \<le> length query then [QuerySubstring] else [])"

text \<open>Candidates not seen before, in order; the set holds the identities seen.\<close>

fun push_unseen :: "CatalogDocument list \<Rightarrow> DocumentId set \<Rightarrow> CatalogDocument list \<Rightarrow> CatalogDocument list \<times> DocumentId set" where
  "push_unseen acc seen [] = (acc, seen)"
| "push_unseen acc seen (d # ds) =
     (let k = ci_document_id (doc_identity d) in
      if k \<in> seen then push_unseen acc seen ds else push_unseen (acc @ [d]) (insert k seen) ds)"

fun retrieve ::
  "('i, 'w) tantivy \<Rightarrow> catalog_env \<Rightarrow> 'i \<Rightarrow> request_clock \<Rightarrow> nat \<Rightarrow> uchar list \<Rightarrow> nat
     \<Rightarrow> CatalogDocument list \<Rightarrow> DocumentId set \<Rightarrow> nat \<Rightarrow> CatalogQueryMode list \<Rightarrow> (CatalogDocument list \<times> nat) agent_result" where
  "retrieve tv env i clock deadline query limit acc seen n [] = Inr (acc, n)"
| "retrieve tv env i clock deadline query limit acc seen n (m # ms) =
     and_then (check_request clock deadline n) (\<lambda>_.
       let remaining = limit - length acc in
       if remaining = 0 then Inr (acc, Suc n)
       else and_then (redact (search_candidate_documents tv env i (string_of query) m remaining)) (\<lambda>candidates.
              case push_unseen acc seen candidates of (acc', seen') \<Rightarrow>
                retrieve tv env i clock deadline query limit acc' seen' (Suc n) ms))"

fun verify ::
  "catalog_env \<Rightarrow> request_clock \<Rightarrow> nat \<Rightarrow> uchar list \<Rightarrow> SearchRequest \<Rightarrow> (MatchType \<times> CatalogDocument) list \<Rightarrow> nat
     \<Rightarrow> CatalogDocument list \<Rightarrow> ((MatchType \<times> CatalogDocument) list \<times> nat) agent_result" where
  "verify env clock deadline query request ranked n [] = Inr (ranked, n)"
| "verify env clock deadline query request ranked n (d # ds) =
     and_then (check_request clock deadline n) (\<lambda>_.
       if \<not> matches_filters env d request then verify env clock deadline query request ranked (Suc n) ds
       else (case classify env d query of
               None \<Rightarrow> verify env clock deadline query request ranked (Suc n) ds
             | Some m \<Rightarrow> verify env clock deadline query request (ranked @ [(m, d)]) (Suc n) ds))"

definition hit_of :: "nat \<times> MatchType \<times> CatalogDocument \<Rightarrow> SearchHit" where
  "hit_of = (\<lambda>(index, match_type, document).
     \<lparr>hit_document_id = ci_document_id (doc_identity document), hit_object_key = ci_object_key (doc_identity document),
      hit_file_link_id = ci_file_link_id (doc_identity document), hit_name = doc_name document,
      hit_resolved_path = doc_resolved_path document, hit_extension = doc_extension document,
      hit_kind = md_kind (doc_metadata document), hit_size = md_size (doc_metadata document),
      hit_modified_at_unix_ms = md_modified_at_unix_ms (doc_metadata document),
      hit_availability = md_availability (doc_metadata document), hit_match_type = match_type,
      hit_rank = (if index + 1 < 2 ^ 32 then of_nat (index + 1) else - 1), hit_ranking_version = RANKING_VERSION\<rparr>)"

definition rank_hits :: "catalog_env \<Rightarrow> nat \<Rightarrow> (MatchType \<times> CatalogDocument) list \<Rightarrow> SearchHit list" where
  "rank_hits env top_k ranked =
     (let best = take top_k (sort_by (compare_ranked env) ranked) in map hit_of (zip [0..<length best] best))"

definition elapsed_micros :: "request_clock \<Rightarrow> nat \<Rightarrow> u64" where
  "elapsed_micros clock n = (let us = rc_elapsed clock n div 1000 in if us < 2 ^ 64 then of_nat us else - 1)"

definition search_documents ::
  "('i, 'w) tantivy \<Rightarrow> catalog_env \<Rightarrow> 'i \<Rightarrow> IndexGeneration \<Rightarrow> request_clock \<Rightarrow> SearchRequest \<Rightarrow> u32 \<Rightarrow> SearchResponse agent_result" where
  "search_documents tv env i generation clock request deadline_ms =
     (let deadline = deadline_nanos deadline_ms; query = normalize env (sr_query request) in
      if query = [] then Inl (wire_error AeInvalidRequest ''query is empty after normalization'')
      else
      let top_k = unat (min (sr_top_k request) MAX_TOP_K) in
      and_then (retrieve tv env i clock deadline query (candidate_limit top_k) [] {} 0 (query_modes query)) (\<lambda>(candidates, n).
      and_then (verify env clock deadline query request [] n candidates) (\<lambda>(ranked, n).
      and_then (check_request clock deadline n) (\<lambda>_.
        Inr \<lparr>resp_index_generation = generation, resp_took_micros = elapsed_micros clock (Suc n),
             resp_hits = rank_hits env top_k ranked\<rparr>))))"

text \<open>The whole operation holds background work back while it runs and reports its latency when it succeeds.\<close>

definition micros_duration :: "u64 \<Rightarrow> Duration" where
  "micros_duration us = \<lparr>dur_secs = us div 1000000, dur_nanos = of_nat (unat us mod 1000000 * 1000)\<rparr>"

definition search_impl ::
  "('i, 'w) tantivy \<Rightarrow> catalog_env \<Rightarrow> ResourceGovernor \<Rightarrow> 'i \<Rightarrow> IndexGeneration \<Rightarrow> request_clock \<Rightarrow> SearchRequest \<Rightarrow> u32
     \<Rightarrow> ResourceGovernor \<times> SearchResponse agent_result" where
  "search_impl tv env governor i generation clock request deadline_ms =
     (let g = begin_interactive_request governor in
      case search_documents tv env i generation clock request deadline_ms of
        Inl e \<Rightarrow> (g, Inl e)
      | Inr response \<Rightarrow> (report_search_latency g (micros_duration (resp_took_micros response)), Inr response))"

section \<open>What each stage does\<close>

abbreviation tracked :: "CatalogDocument list \<Rightarrow> DocumentId set \<Rightarrow> bool" where
  "tracked acc seen \<equiv> seen = docid ` set acc \<and> distinct (map docid acc)"

lemma push_unseen_result:
  assumes "push_unseen acc seen ds = (acc', seen')" "tracked acc seen"
  shows "tracked acc' seen' \<and> set acc \<subseteq> set acc' \<and> set acc' \<subseteq> set acc \<union> set ds \<and> docid ` set ds \<subseteq> docid ` set acc'"
  using assms
proof (induction acc seen ds rule: push_unseen.induct)
  case (2 acc seen d ds)
  show ?case
  proof (cases "docid d \<in> seen")
    case True
    then have "push_unseen acc seen ds = (acc', seen')" using 2(3) by (simp add: Let_def)
    from 2(1) [OF refl True this 2(4)] True 2(4) show ?thesis by auto
  next
    case False
    then have run: "push_unseen (acc @ [d]) (insert (docid d) seen) ds = (acc', seen')" using 2(3) by (simp add: Let_def)
    have "tracked (acc @ [d]) (insert (docid d) seen)" using False 2(4) by auto
    from 2(2) [OF refl False run this] show ?thesis by auto
  qed
qed auto

text \<open>Retrieval keeps every candidate it has, without repetition, and only adds documents that a query of the index
  returned.\<close>

lemma retrieve_result:
  assumes "retrieve tv env i clock deadline query limit acc seen n ms = Inr (ds, n')" "tracked acc seen"
  shows "distinct (map docid ds) \<and> set acc \<subseteq> set ds
    \<and> (\<forall>d \<in> set ds. d \<in> set acc \<or> (\<exists>m k found. search_candidate_documents tv env i (string_of query) m k = Inr found \<and> d \<in> set found))"
  using assms
proof (induction ms arbitrary: acc seen n)
  case Nil
  then show ?case by simp
next
  case (Cons m ms)
  show ?case
  proof (cases "limit - length acc = 0")
    case True
    then show ?thesis using Cons.prems by (auto simp: result_simps Let_def)
  next
    case False
    then obtain found acc' seen' where f: "search_candidate_documents tv env i (string_of query) m (limit - length acc) = Inr found"
        "push_unseen acc seen found = (acc', seen')" "retrieve tv env i clock deadline query limit acc' seen' (Suc n) ms = Inr (ds, n')"
      using Cons.prems(1) by (auto simp: result_simps Let_def redact_def split: sum.splits prod.splits)
    note p = push_unseen_result [OF f(2) Cons.prems(2)]
    have "tracked acc' seen'" using p by blast
    from Cons.IH [OF f(3) this] p f(1) show ?thesis by blast
  qed
qed

text \<open>The first query's answer is among the candidates.\<close>

lemma retrieve_first:
  assumes "retrieve tv env i clock deadline query limit [] {} n (m # ms) = Inr (ds, n')" "0 < limit"
  shows "\<exists>found. search_candidate_documents tv env i (string_of query) m limit = Inr found \<and> docid ` set found \<subseteq> docid ` set ds"
proof -
  obtain found acc' seen' where f: "search_candidate_documents tv env i (string_of query) m limit = Inr found"
      "push_unseen [] {} found = (acc', seen')" "retrieve tv env i clock deadline query limit acc' seen' (Suc n) ms = Inr (ds, n')"
    using assms by (auto simp: result_simps Let_def redact_def split: sum.splits prod.splits)
  have p: "tracked acc' seen'" "docid ` set found \<subseteq> docid ` set acc'"
    using push_unseen_result [OF f(2)] by simp_all
  have "set acc' \<subseteq> set ds" using retrieve_result [OF f(3) p(1)] by blast
  then show ?thesis using f(1) p(2) by blast
qed

text \<open>Verification keeps exactly the candidates that pass the filters and match, each with its class.\<close>

definition verified :: "catalog_env \<Rightarrow> uchar list \<Rightarrow> SearchRequest \<Rightarrow> CatalogDocument list \<Rightarrow> (MatchType \<times> CatalogDocument) list" where
  "verified env query request ds =
     concat (map (\<lambda>d. if matches_filters env d request
                      then (case classify env d query of None \<Rightarrow> [] | Some m \<Rightarrow> [(m, d)]) else []) ds)"

lemma verify_result:
  "verify env clock deadline query request ranked n ds = Inr (out, n') \<Longrightarrow> out = ranked @ verified env query request ds"
proof (induction ds arbitrary: ranked n)
  case (Cons d ds)
  then obtain ranked' where "verify env clock deadline query request ranked' (Suc n) ds = Inr (out, n')"
      "ranked' = ranked @ verified env query request [d]"
    by (auto simp: result_simps verified_def split: if_splits option.splits)
  moreover have "verified env query request (d # ds) = verified env query request [d] @ verified env query request ds"
    by (simp add: verified_def)
  ultimately show ?case using Cons.IH [of ranked' "Suc n"] by (simp only: append_assoc)
qed (simp add: verified_def)

lemma set_verified:
  "(m, d) \<in> set (verified env query request ds) \<longleftrightarrow> d \<in> set ds \<and> matches_filters env d request \<and> classify env d query = Some m"
  by (auto simp: verified_def split: if_splits option.splits)

lemma verified_documents: "map docid (map snd (verified env query request ds)) = map docid (filter (\<lambda>d.
    matches_filters env d request \<and> classify env d query \<noteq> None) ds)"
  by (induction ds) (auto simp: verified_def split: option.splits)

lemma distinct_verified: "distinct (map docid ds) \<Longrightarrow> distinct (map docid (map snd (verified env query request ds)))"
  unfolding verified_documents by (induction ds) auto

text \<open>Ranking: the first hits of the order, numbered from one.\<close>

definition best_ranked :: "catalog_env \<Rightarrow> nat \<Rightarrow> (MatchType \<times> CatalogDocument) list \<Rightarrow> (MatchType \<times> CatalogDocument) list" where
  "best_ranked env top_k ranked = take top_k (sort_key (rank_key env) ranked)"

lemma rank_hits_eq: "rank_hits env top_k ranked =
    map hit_of (zip [0..<length (best_ranked env top_k ranked)] (best_ranked env top_k ranked))"
proof -
  have "compare_ranked env = (\<lambda>a b. cmp (rank_key env a) (rank_key env b))"
    by (intro ext) (rule compare_ranked_key)
  then show ?thesis by (simp only: rank_hits_def best_ranked_def sort_by_key Let_def)
qed

lemma rank_hits_nth:
  assumes "j < length (best_ranked env top_k ranked)"
  shows "rank_hits env top_k ranked ! j = hit_of (j, best_ranked env top_k ranked ! j)"
  unfolding rank_hits_eq using assms by simp

lemma length_rank_hits: "length (rank_hits env top_k ranked) = length (best_ranked env top_k ranked)"
  unfolding rank_hits_eq by simp

lemma hit_of_fields:
  "hit_document_id (hit_of (j, m, d)) = docid d" "hit_match_type (hit_of (j, m, d)) = m" "hit_name (hit_of (j, m, d)) = doc_name d"
  "hit_resolved_path (hit_of (j, m, d)) = doc_resolved_path d"
  "j + 1 < 2 ^ 32 \<Longrightarrow> hit_rank (hit_of (j, m, d)) = of_nat (j + 1)"
  by (simp_all add: hit_of_def)

lemma map_rank_hits:
  assumes "\<And>j md. f (hit_of (j, md)) = g md"
  shows "map f (rank_hits env top_k ranked) = map g (best_ranked env top_k ranked)"
  unfolding rank_hits_eq by (rule nth_equalityI) (simp_all add: assms)

lemma best_ranked_subset: "set (best_ranked env top_k ranked) \<subseteq> set ranked"
  unfolding best_ranked_def using set_take_subset [of top_k "sort_key (rank_key env) ranked"] by simp

lemma search_documents_Inr:
  assumes "search_documents tv env i generation clock request deadline_ms = Inr response"
  defines "query \<equiv> normalize env (sr_query request)" and "top_k \<equiv> unat (min (sr_top_k request) MAX_TOP_K)"
  shows "query \<noteq> [] \<and> resp_index_generation response = generation
    \<and> (\<exists>candidates n. retrieve tv env i clock (deadline_nanos deadline_ms) query (candidate_limit top_k) [] {} 0
          (query_modes query) = Inr (candidates, n)
        \<and> resp_hits response = rank_hits env top_k (verified env query request candidates))"
proof -
  obtain candidates n ranked n2 where r: "query \<noteq> []"
      "retrieve tv env i clock (deadline_nanos deadline_ms) query (candidate_limit top_k) [] {} 0 (query_modes query) = Inr (candidates, n)"
      "verify env clock (deadline_nanos deadline_ms) query request [] n candidates = Inr (ranked, n2)"
      "response = \<lparr>resp_index_generation = generation, resp_took_micros = elapsed_micros clock (Suc n2),
             resp_hits = rank_hits env top_k ranked\<rparr>"
    using assms(1) unfolding search_documents_def Let_def query_def [symmetric] top_k_def [symmetric]
    by (auto simp: result_simps split: if_splits)
  have "ranked = verified env query request candidates" using verify_result [OF r(3)] by simp
  with r show ?thesis by auto
qed

lemma min_top_k: "unat (min k MAX_TOP_K) \<le> unat k \<and> unat (min k MAX_TOP_K) \<le> 100"
  by (auto simp: MAX_TOP_K_def min_def word_le_nat_alt)

text \<open>The key the hits are ordered by, read off the hits.\<close>

definition hit_key :: "catalog_env \<Rightarrow> SearchHit \<Rightarrow> nat \<times> nat list \<times> nat list \<times> DocumentId" where
  "hit_key env h = (rank_class (hit_match_type h), normalize env (hit_name h), normalize env (hit_resolved_path h), hit_document_id h)"

lemma hit_key_hit_of: "hit_key env (hit_of (j, md)) = rank_key env md"
  by (cases md) (simp add: hit_key_def rank_key_def hit_of_fields)

text \<open>C23: a search answer has at most the requested and at most a hundred hits, numbered from one without gaps,
  without repeated documents, ordered by match class (exact name, prefix, token, substring, path), then
  name, path and identity.\<close>

theorem search_hits_ranked:
  assumes "search_documents tv env i generation clock request deadline_ms = Inr response"
  shows "length (resp_hits response) \<le> unat (sr_top_k request) \<and> length (resp_hits response) \<le> 100
    \<and> distinct (map hit_document_id (resp_hits response)) \<and> sorted (map (hit_key env) (resp_hits response))
    \<and> map hit_rank (resp_hits response) = map (\<lambda>j. of_nat (j + 1)) [0..<length (resp_hits response)]"
proof -
  define query where "query = normalize env (sr_query request)"
  define top_k where "top_k = unat (min (sr_top_k request) MAX_TOP_K)"
  obtain candidates n where r: "retrieve tv env i clock (deadline_nanos deadline_ms) query (candidate_limit top_k) [] {} 0
          (query_modes query) = Inr (candidates, n)"
      "resp_hits response = rank_hits env top_k (verified env query request candidates)"
    using search_documents_Inr [OF assms] unfolding query_def top_k_def by blast
  let ?b = "best_ranked env top_k (verified env query request candidates)"
  have hits: "length (resp_hits response) = length ?b" using r(2) by (simp add: length_rank_hits)
  have len: "length ?b \<le> top_k" by (simp add: best_ranked_def)
  have "distinct (map docid candidates)" using retrieve_result [OF r(1)] by simp
  then have "distinct (map docid (map snd (verified env query request candidates)))" by (rule distinct_verified)
  then have "distinct (map (docid \<circ> snd) (sort_key (rank_key env) (verified env query request candidates)))"
    by (simp add: distinct_map)
  then have "distinct (map (docid \<circ> snd) ?b)"
    unfolding best_ranked_def by (simp add: take_map [symmetric] distinct_take)
  moreover have "map hit_document_id (resp_hits response) = map (docid \<circ> snd) ?b"
    unfolding r(2) by (rule map_rank_hits) (auto simp: hit_of_def split: prod.splits)
  moreover have "map (hit_key env) (resp_hits response) = map (rank_key env) ?b"
    unfolding r(2) by (rule map_rank_hits) (rule hit_key_hit_of)
  moreover have "sorted (map (rank_key env) ?b)"
    unfolding best_ranked_def take_map [symmetric] by (rule sorted_wrt_take) (rule sorted_sort_key)
  moreover have "map hit_rank (resp_hits response) = map (\<lambda>j. of_nat (j + 1)) [0..<length (resp_hits response)]"
  proof (rule nth_equalityI)
    fix j assume "j < length (map hit_rank (resp_hits response))"
    then have j: "j < length ?b" using hits by simp
    have "j + 1 < 2 ^ 32" using j len min_top_k [of "sr_top_k request"] by (simp add: top_k_def)
    then show "map hit_rank (resp_hits response) ! j = map (\<lambda>j. of_nat (j + 1)) [0..<length (resp_hits response)] ! j"
      using j hits r(2) rank_hits_nth [OF j] hit_of_fields(5) [of j "fst (?b ! j)" "snd (?b ! j)"] by simp
  qed simp
  ultimately show ?thesis using hits len min_top_k [of "sr_top_k request"] by (auto simp: top_k_def)
qed

section \<open>Hits and the index\<close>

text \<open>What a query promises: it returns documents of the index, and an exact-name query returns all of them that
  carry the name when there are no more than it may return.\<close>

definition tantivy_query_laws :: "('i, 'w) tantivy \<Rightarrow> bool" where
  "tantivy_query_laws tv \<longleftrightarrow>
     (\<forall>i q n ds. tv_search tv i q n = Some ds \<longrightarrow> set ds \<subseteq> set (tv_documents tv i))
   \<and> (\<forall>i t n ds. tv_search tv i (TermQuery FExactName t) n = Some ds
        \<and> length (filter (\<lambda>d. td_exact_name d = t) (tv_documents tv i)) \<le> n
        \<longrightarrow> {d \<in> set (tv_documents tv i). td_exact_name d = t} \<subseteq> set ds)"

lemma stored_represented:
  assumes "represents env tds idx" "document_json_round_trip env" "td \<in> set tds" "stored_payload env td = Inr d"
  shows "idx (docid d) = Some d \<and> index_document env d = Inr td"
proof -
  obtain ds where ds: "distinct (map docid ds)" "document_map ds = idx" "list_all2 (\<lambda>td d. index_document env d = Inr td) tds ds"
    using assms(1) unfolding represents_def by blast
  obtain k where k: "k < length tds" "tds ! k = td" using assms(3) by (metis in_set_conv_nth)
  have ix: "index_document env (ds ! k) = Inr td" "ds ! k \<in> set ds"
    using ds(3) k by (auto simp: list_all2_conv_all_nth)
  have "ce_document_from_json env (td_payload td) = Some (ds ! k)"
    using index_document_payload [OF ix(1)] assms(2) by (auto simp: document_json_round_trip_def)
  then have "d = ds ! k" using assms(4) by (simp add: stored_payload_def)
  then show ?thesis using ix document_map_Some [OF ds(1)] ds(2) by blast
qed

lemma candidates_represented:
  assumes "search_candidate_documents tv env i query m k = Inr found" "tantivy_query_laws tv"
    and "represents env (tv_documents tv i) idx" "document_json_round_trip env" "d \<in> set found"
  shows "idx (docid d) = Some d"
proof -
  obtain q tds where q: "tv_search tv i q k = Some tds"
      "fold_r (\<lambda>ds d. and_then (stored_payload env d) (\<lambda>document. Inr (ds @ [document]))) [] tds = Inr found"
    using assms(1) by (auto simp: search_candidate_documents_def candidate_addresses_def result_simps)
  have all: "list_all2 (\<lambda>td d. stored_payload env td = Inr d) tds found" using q(2) unfolding fold_r_collect by simp
  obtain j where j: "j < length found" "found ! j = d" using assms(5) by (metis in_set_conv_nth)
  have "tds ! j \<in> set tds" "stored_payload env (tds ! j) = Inr d"
    using list_all2_nthD2 [OF all j(1)] list_all2_lengthD [OF all] j by auto
  moreover have "set tds \<subseteq> set (tv_documents tv i)" using assms(2) q(1) unfolding tantivy_query_laws_def by blast
  ultimately show ?thesis using stored_represented [OF assms(3,4)] by blast
qed

text \<open>The candidates of a completed search, against the documents the index represents.\<close>

lemma search_documents_candidates:
  assumes "search_documents tv env i generation clock request deadline_ms = Inr response"
    and "tantivy_query_laws tv" "represents env (tv_documents tv i) idx" "document_json_round_trip env"
  defines "query \<equiv> normalize env (sr_query request)" and "top_k \<equiv> unat (min (sr_top_k request) MAX_TOP_K)"
  shows "\<exists>candidates found. distinct (map docid candidates) \<and> (\<forall>c \<in> set candidates. idx (docid c) = Some c)
    \<and> resp_hits response = rank_hits env top_k (verified env query request candidates)
    \<and> search_candidate_documents tv env i (string_of query) QueryExact (candidate_limit top_k) = Inr found
    \<and> docid ` set found \<subseteq> docid ` set candidates"
proof -
  obtain candidates n where r: "retrieve tv env i clock (deadline_nanos deadline_ms) query (candidate_limit top_k) [] {} 0
          (query_modes query) = Inr (candidates, n)"
      "resp_hits response = rank_hits env top_k (verified env query request candidates)"
    using search_documents_Inr [OF assms(1)] unfolding query_def top_k_def by blast
  have "idx (docid c) = Some c" if c: "c \<in> set candidates" for c
  proof -
    obtain m' j fs where "search_candidate_documents tv env i (string_of query) m' j = Inr fs" "c \<in> set fs"
      using retrieve_result [OF r(1)] c by auto
    then show ?thesis using candidates_represented [OF _ assms(2-4)] by blast
  qed
  moreover have "0 < candidate_limit top_k" by (simp add: candidate_limit_def)
  then obtain found where "search_candidate_documents tv env i (string_of query) QueryExact (candidate_limit top_k) = Inr found"
      "docid ` set found \<subseteq> docid ` set candidates"
    using retrieve_first [OF r(1) [unfolded query_modes_def append_Cons]] by blast
  moreover have "distinct (map docid candidates)" using retrieve_result [OF r(1)] by simp
  ultimately show ?thesis using r(2) by blast
qed

lemma in_rank_hits:
  "h \<in> set (rank_hits env top_k ranked) \<longleftrightarrow>
     (\<exists>j < length (best_ranked env top_k ranked). h = hit_of (j, best_ranked env top_k ranked ! j))"
  by (metis in_set_conv_nth length_rank_hits rank_hits_nth)

text \<open>Every hit of a search is a document the index holds at that moment, with its current fields, that passes the
  request's filters and matches the query in the class reported.\<close>

lemma hit_represented:
  assumes "search_documents tv env i generation clock request deadline_ms = Inr response"
    and "tantivy_query_laws tv" "represents env (tv_documents tv i) idx" "document_json_round_trip env"
    and "h \<in> set (resp_hits response)"
  shows "\<exists>d j. idx (hit_document_id h) = Some d \<and> h = hit_of (j, hit_match_type h, d) \<and> matches_filters env d request
    \<and> classify env d (normalize env (sr_query request)) = Some (hit_match_type h)"
proof -
  define query where "query = normalize env (sr_query request)"
  obtain candidates top_k where c: "\<forall>c \<in> set candidates. idx (docid c) = Some c"
      "resp_hits response = rank_hits env top_k (verified env query request candidates)"
    using search_documents_candidates [OF assms(1-4)] unfolding query_def by blast
  let ?b = "best_ranked env top_k (verified env query request candidates)"
  obtain j m d where j: "j < length ?b" "h = hit_of (j, m, d)" "?b ! j = (m, d)"
    using assms(5) c(2) by (metis in_rank_hits prod.exhaust)
  have "(m, d) \<in> set ?b" using j(1,3) by (metis nth_mem)
  then have "(m, d) \<in> set (verified env query request candidates)" using best_ranked_subset by blast
  then have d: "d \<in> set candidates" "matches_filters env d request" "classify env d query = Some m"
    by (simp_all add: set_verified)
  then show ?thesis
    using c(1) j(2) unfolding query_def [symmetric] by (auto simp: hit_of_fields)
qed

section \<open>Exact names are found\<close>

definition exactly_named :: "catalog_env \<Rightarrow> index_state \<Rightarrow> uchar list \<Rightarrow> DocumentId set" where
  "exactly_named env idx query = {k. \<exists>d. idx k = Some d \<and> string_of (normalize env (doc_name d)) = string_of query}"

lemma index_document_exact_name: "index_document env d = Inr td \<Longrightarrow> td_exact_name td = string_of (normalize env (doc_name d))"
  by (auto simp: index_document_def result_simps Let_def)

lemma count_exactly_named:
  assumes "represents env tds idx"
  shows "length (filter (\<lambda>td. td_exact_name td = string_of query) tds) = card (exactly_named env idx query)
    \<and> finite (exactly_named env idx query)"
proof -
  obtain ds where ds: "distinct (map docid ds)" "document_map ds = idx" "list_all2 (\<lambda>td d. index_document env d = Inr td) tds ds"
    using assms unfolding represents_def by blast
  let ?p = "\<lambda>d. string_of (normalize env (doc_name d)) = string_of query"
  have "length (filter (\<lambda>td. td_exact_name td = string_of query) tds) = length (filter ?p ds)"
    using ds(3) by (induction rule: list_all2_induct) (auto simp: index_document_exact_name)
  moreover have "exactly_named env idx query = docid ` set (filter ?p ds)"
    using document_map_Some [OF ds(1)] ds(2) by (auto simp: exactly_named_def)
  moreover have "distinct (map docid (filter ?p ds))" using ds(1) by (simp add: distinct_map_filter)
  then have "card (docid ` set (filter ?p ds)) = length (filter ?p ds)" by (metis distinct_card length_map set_map)
  ultimately show ?thesis by simp
qed

lemma exact_query_finds:
  assumes "search_candidate_documents tv env i (string_of query) QueryExact limit = Inr found" "tantivy_query_laws tv"
    and "represents env (tv_documents tv i) idx" "document_json_round_trip env" "normalize env (string_of query) = query"
    and "card (exactly_named env idx query) \<le> limit" "idx k = Some d" "normalize env (doc_name d) = query"
  shows "d \<in> set found \<and> docid d = k"
proof -
  obtain ds where ds: "distinct (map docid ds)" "document_map ds = idx"
      "list_all2 (\<lambda>td d. index_document env d = Inr td) (tv_documents tv i) ds"
    using assms(3) unfolding represents_def by blast
  have d: "d \<in> set ds" "docid d = k" using document_map_Some [OF ds(1), of k d] ds(2) assms(7) by simp_all
  then obtain j where j: "j < length ds" "ds ! j = d" by (metis in_set_conv_nth)
  let ?td = "tv_documents tv i ! j"
  have td: "index_document env d = Inr ?td" "?td \<in> set (tv_documents tv i)"
    using list_all2_nthD2 [OF ds(3) j(1)] list_all2_lengthD [OF ds(3)] j by auto
  obtain tds where q: "tv_search tv i (TermQuery FExactName (string_of query)) limit = Some tds"
      "fold_r (\<lambda>ds d. and_then (stored_payload env d) (\<lambda>document. Inr (ds @ [document]))) [] tds = Inr found"
    using assms(1,5) by (auto simp: search_candidate_documents_def candidate_addresses_def candidate_query_def Let_def result_simps)
  have "length (filter (\<lambda>td. td_exact_name td = string_of query) (tv_documents tv i)) \<le> limit"
    using count_exactly_named [OF assms(3), of query] assms(6) by simp
  then have "{td \<in> set (tv_documents tv i). td_exact_name td = string_of query} \<subseteq> set tds"
    using assms(2) q(1) unfolding tantivy_query_laws_def by blast
  then have "?td \<in> set tds" using td index_document_exact_name [OF td(1)] assms(8) by blast
  then obtain l where l: "l < length tds" "tds ! l = ?td" by (metis in_set_conv_nth)
  have all: "list_all2 (\<lambda>td d. stored_payload env td = Inr d) tds found" using q(2) unfolding fold_r_collect by simp
  have "stored_payload env ?td = Inr d"
    using index_document_payload [OF td(1)] assms(4) by (simp add: stored_payload_def document_json_round_trip_def)
  then have "found ! l = d" "l < length found"
    using list_all2_nthD [OF all l(1)] l(2) list_all2_lengthD [OF all] l(1) by auto
  then show ?thesis using d(2) by auto
qed

lemma best_ranked_keeps_exact:
  assumes "(ExactName, d) \<in> set ranked" "distinct (map (docid \<circ> snd) ranked)" "finite E" "card E \<le> top_k"
    and "\<And>d'. (ExactName, d') \<in> set ranked \<Longrightarrow> docid d' \<in> E"
  shows "(ExactName, d) \<in> set (best_ranked env top_k ranked)"
proof -
  let ?s = "sort_key (rank_key env) ranked"
  obtain p where p: "p < length ?s" "?s ! p = (ExactName, d)" using assms(1) by (metis in_set_conv_nth set_sort)
  have exact: "fst (?s ! q) = ExactName" if "q \<le> p" for q
  proof -
    have "map (rank_key env) ?s ! q \<le> map (rank_key env) ?s ! p"
      using that p(1) by (intro sorted_nth_mono) auto
    then have "rank_key env (?s ! q) \<le> rank_key env (ExactName, d)" using that p by simp
    then have "rank_class (fst (?s ! q)) \<le> 0" by (auto simp: rank_key_def split: prod.splits)
    then show ?thesis by (cases "fst (?s ! q)") simp_all
  qed
  let ?ids = "map (docid \<circ> snd) (take (Suc p) ?s)"
  have "docid (snd x) \<in> E" if x: "x \<in> set (take (Suc p) ?s)" for x
  proof -
    obtain q where "q < Suc p" "q < length ?s" "?s ! q = x" using x by (auto simp: in_set_conv_nth)
    then have "fst x = ExactName" "x \<in> set ranked" using exact [of q] nth_mem [of q ?s] by auto
    then show ?thesis using assms(5) [of "snd x"] by (metis prod.collapse)
  qed
  then have "set ?ids \<subseteq> E" by auto
  moreover have "distinct ?ids"
    using assms(2) by (simp add: take_map [symmetric] distinct_take distinct_map)
  ultimately have "length ?ids \<le> card E" using assms(3) by (metis card_mono distinct_card)
  then have "p < top_k" using p(1) assms(4) by simp
  then have "take top_k ?s ! p = (ExactName, d)" "p < length (take top_k ?s)" using p by simp_all
  then show ?thesis unfolding best_ranked_def by (metis nth_mem)
qed


section \<open>Deadlines and redaction\<close>

definition passes :: "request_clock \<Rightarrow> nat \<Rightarrow> nat \<Rightarrow> bool" where
  "passes clock deadline k \<longleftrightarrow> \<not> rc_cancelled clock k \<and> rc_elapsed clock k < deadline"

lemma check_request_Inr: "check_request clock deadline n = Inr u \<longleftrightarrow> passes clock deadline n"
  by (auto simp: check_request_def passes_def)

lemma retrieve_checks:
  "retrieve tv env i clock deadline query limit acc seen n ms = Inr (ds, n') \<Longrightarrow>
     n \<le> n' \<and> (\<forall>k. n \<le> k \<longrightarrow> k < n' \<longrightarrow> passes clock deadline k)"
proof (induction ms arbitrary: acc seen n)
  case (Cons m ms)
  have p: "passes clock deadline n" using Cons.prems by (auto simp: result_simps check_request_Inr)
  show ?case
  proof (cases "limit - length acc = 0")
    case True
    then have "n' = Suc n" using Cons.prems by (auto simp: result_simps Let_def)
    then show ?thesis using p by (auto simp: less_Suc_eq)
  next
    case False
    then obtain acc' seen' where "retrieve tv env i clock deadline query limit acc' seen' (Suc n) ms = Inr (ds, n')"
      using Cons.prems by (auto simp: result_simps Let_def redact_def split: sum.splits prod.splits)
    from Cons.IH [OF this] p show ?thesis by (metis Suc_leD le_eq_less_or_eq Suc_le_eq)
  qed
qed simp

lemma verify_checks:
  "verify env clock deadline query request ranked n ds = Inr (out, n') \<Longrightarrow>
     n \<le> n' \<and> (\<forall>k. n \<le> k \<longrightarrow> k < n' \<longrightarrow> passes clock deadline k)"
proof (induction ds arbitrary: ranked n)
  case (Cons d ds)
  have p: "passes clock deadline n" using Cons.prems by (auto simp: result_simps check_request_Inr)
  obtain ranked' where "verify env clock deadline query request ranked' (Suc n) ds = Inr (out, n')"
    using Cons.prems by (auto simp: result_simps split: if_splits option.splits)
  from Cons.IH [OF this] p show ?case by (metis Suc_leD le_eq_less_or_eq Suc_le_eq)
qed simp

definition search_error :: "AgentWireError \<Rightarrow> bool" where
  "search_error e \<longleftrightarrow> e \<in> {wire_error AeCancelled ''request was cancelled'',
     wire_error AeDeadlineExceeded ''request deadline exceeded'',
     wire_error AeInvalidRequest ''query is empty after normalization'', internal_error}"

lemma check_request_error: "check_request clock deadline n = Inl e \<Longrightarrow> search_error e"
  by (auto simp: check_request_def search_error_def split: if_splits)

lemma retrieve_error: "retrieve tv env i clock deadline query limit acc seen n ms = Inl e \<Longrightarrow> search_error e"
proof (induction ms arbitrary: acc seen n)
  case (Cons m ms)
  have redacted: "search_error x" if "redact r = Inl x" for x and r :: "CatalogIndexError + CatalogDocument list"
    using that by (cases r) (auto simp: redact_def search_error_def)
  show ?case
    using Cons check_request_error redacted
    by (auto simp: result_simps Let_def case_prod_beta split: if_splits)
qed simp

lemma verify_error: "verify env clock deadline query request ranked n ds = Inl e \<Longrightarrow> search_error e"
proof (induction ds arbitrary: ranked n)
  case (Cons d ds)
  then show ?case using check_request_error by (auto simp: result_simps split: if_splits option.splits)
qed simp

text \<open>A search answers only if every check made before ranking found the request neither cancelled nor past its
  deadline; otherwise it returns one of four fixed errors, whose texts carry nothing of the query, the index
  or the backend's failure.\<close>

theorem search_respects_deadline:
  "case search_documents tv env i generation clock request deadline_ms of
     Inr response \<Rightarrow> (\<exists>n. {..n} \<subseteq> {k. passes clock (deadline_nanos deadline_ms) k}
       \<and> resp_took_micros response = elapsed_micros clock (Suc n))
   | Inl e \<Rightarrow> search_error e"
proof (cases "search_documents tv env i generation clock request deadline_ms")
  case (Inl e)
  then have "search_error e"
    unfolding search_documents_def Let_def
    by (auto simp: result_simps search_error_def [of "wire_error AeInvalidRequest _"]
        split: if_splits prod.splits dest: retrieve_error verify_error check_request_error)
  with Inl show ?thesis by simp
next
  case (Inr response)
  then obtain candidates n ranked n2 query limit where
    r: "retrieve tv env i clock (deadline_nanos deadline_ms) query limit [] {} 0 (query_modes query) = Inr (candidates, n)"
      "verify env clock (deadline_nanos deadline_ms) query request [] n candidates = Inr (ranked, n2)"
      "check_request clock (deadline_nanos deadline_ms) n2 = Inr ()"
      "resp_took_micros response = elapsed_micros clock (Suc n2)"
    unfolding search_documents_def Let_def by (auto simp: result_simps split: if_splits)
  have "\<forall>k \<le> n2. passes clock (deadline_nanos deadline_ms) k"
    using retrieve_checks [OF r(1)] verify_checks [OF r(2)] r(3)
    unfolding check_request_Inr by (metis le0 le_eq_less_or_eq not_le)
  then show ?thesis using Inr r(4) by auto
qed

section \<open>A search over one document\<close>

definition named_tantivy :: "(TantivyDocument list, TantivyDocument list) tantivy" where
  "named_tantivy = list_tantivy\<lparr>tv_search := (\<lambda>i q n. case q of
       TermQuery FExactName t \<Rightarrow> Some (take n (filter (\<lambda>d. td_exact_name d = t) i))
     | _ \<Rightarrow> tv_search list_tantivy i q n)\<rparr>"

lemma named_tantivy_laws: "tantivy_laws named_tantivy"
proof -
  have "tv_search named_tantivy i (TermQuery FDocumentId t) n = tv_search list_tantivy i (TermQuery FDocumentId t) n" for i t n
    by (simp add: named_tantivy_def)
  moreover have "tv_create named_tantivy = tv_create list_tantivy" "tv_writer named_tantivy = tv_writer list_tantivy"
      "tv_delete_term named_tantivy = tv_delete_term list_tantivy" "tv_add_document named_tantivy = tv_add_document list_tantivy"
      "tv_commit named_tantivy = tv_commit list_tantivy" "tv_documents named_tantivy = tv_documents list_tantivy"
      "tv_pending named_tantivy = tv_pending list_tantivy"
    by (simp_all add: named_tantivy_def)
  ultimately show ?thesis using list_tantivy_laws unfolding tantivy_laws_def by simp
qed

lemma named_tantivy_query_laws: "tantivy_query_laws named_tantivy"
  by (auto simp: tantivy_query_laws_def named_tantivy_def list_tantivy_def dest: in_set_takeD
      split: catalog_query.splits catalog_field.splits)

definition sample_entry :: TantivyDocument where
  "sample_entry = projr (index_document one_document_env sample_document)"

lemma sample_entry_indexed: "index_document one_document_env sample_document = Inr sample_entry"
  unfolding sample_entry_def by (simp add: index_document_def Let_def one_document_env_def sample_catalog_env_def)

lemma sample_represents:
  "represents one_document_env (tv_documents named_tantivy [sample_entry]) [docid sample_document \<mapsto> sample_document]"
  unfolding represents_def using sample_entry_indexed
  by (intro exI [of _ "[sample_document]"]) (simp add: document_map_def named_tantivy_def list_tantivy_def)

definition sample_search :: SearchRequest where
  "sample_search = \<lparr>sr_query = ''a.txt'', sr_scope = Files, sr_filters = \<lparr>sf_extensions = [''txt''],
     sf_directory_prefix = Some ''docs'', sf_minimum_size = None, sf_maximum_size = None\<rparr>, sr_top_k = 10\<rparr>"

definition idle_clock :: request_clock where
  "idle_clock = \<lparr>rc_cancelled = (\<lambda>_. False), rc_elapsed = (\<lambda>n. n * 1000)\<rparr>"

lemma sample_normalize [simp]: "normalize one_document_env s = chars s"
  by (simp add: normalize_def one_document_env_def sample_catalog_env_def)

lemma sample_filters: "matches_filters one_document_env sample_document sample_search"
  by (simp add: matches_filters_def sample_search_def sample_document_def sample_object_def chars_def)

lemma sample_query_chars: "chars ''a.txt'' = [97, 46, 116, 120, 116]" "string_of [97, 46, 116, 120, 116] = ''a.txt''"
  by (simp_all add: chars_def string_of_def utf8_encode_def char_of_eq_iff)

lemma sample_candidates:
  "search_candidate_documents named_tantivy one_document_env [sample_entry] ''a.txt'' m 400 =
     (if m = QueryExact then Inr [sample_document] else Inr [])"
  "m \<noteq> QueryExact \<Longrightarrow> search_candidate_documents named_tantivy one_document_env [sample_entry] ''a.txt'' m 399 = Inr []"
proof -
  have pay: "stored_payload one_document_env sample_entry = Inr sample_document"
    using index_document_payload [OF sample_entry_indexed] sample_catalog_round_trip [of "[sample_document]"]
    by (simp add: stored_payload_def document_json_round_trip_def one_document_env_def)
  have name: "td_exact_name sample_entry = ''a.txt''"
    using index_document_exact_name [OF sample_entry_indexed] by (simp add: sample_document_def sample_query_chars)
  show "search_candidate_documents named_tantivy one_document_env [sample_entry] ''a.txt'' m 400 =
     (if m = QueryExact then Inr [sample_document] else Inr [])"
    using pay name
    by (cases m) (simp_all add: search_candidate_documents_def candidate_addresses_def candidate_query_def Let_def
        sample_query_chars named_tantivy_def list_tantivy_def grams_def)
  show "m \<noteq> QueryExact \<Longrightarrow> search_candidate_documents named_tantivy one_document_env [sample_entry] ''a.txt'' m 399 = Inr []"
    by (cases m) (simp_all add: search_candidate_documents_def candidate_addresses_def candidate_query_def Let_def
        sample_query_chars named_tantivy_def list_tantivy_def grams_def)
qed

text \<open>Any index whose exact-name query is the only one to find a document, and finds the sample.\<close>

lemma sample_search_result:
  assumes "normalize env = chars" "search_candidate_documents tv env i ''a.txt'' QueryExact 400 = Inr [sample_document]"
    and "\<And>m. m \<noteq> QueryExact \<Longrightarrow> search_candidate_documents tv env i ''a.txt'' m 399 = Inr []"
  shows "\<exists>response. search_documents tv env i generation idle_clock sample_search 2000 = Inr response
     \<and> resp_hits response = [hit_of (0, ExactName, sample_document)]"
proof -
  have ok: "check_request idle_clock (deadline_nanos 2000) n = Inr ()" if "n < 100" for n
    using that by (simp add: check_request_def idle_clock_def deadline_nanos_def)
  have modes: "query_modes [97, 46, 116, 120, 116] = [QueryExact, QueryPrefix, QueryToken, QueryPath, QuerySubstring]"
    by (simp add: query_modes_def)
  have limit: "unat (min (10 :: u16) MAX_TOP_K) = 10" "candidate_limit 10 = 400"
    by (simp_all add: candidate_limit_def MAX_CANDIDATES_def MAX_TOP_K_def min_def)
  have fil: "matches_filters env sample_document sample_search"
    by (simp add: matches_filters_def sample_search_def sample_document_def sample_object_def assms(1) chars_def)
  have cls: "classify env sample_document [97, 46, 116, 120, 116] = Some ExactName"
    by (simp add: classify_def sample_document_def assms(1) sample_query_chars)
  have "retrieve tv env i idle_clock (deadline_nanos 2000) [97, 46, 116, 120, 116] 400 [] {} 0
      [QueryExact, QueryPrefix, QueryToken, QueryPath, QuerySubstring] = Inr ([sample_document], 5)"
    by (simp add: ok assms redact_def sample_query_chars Let_def)
  moreover have "verify env idle_clock (deadline_nanos 2000) [97, 46, 116, 120, 116] sample_search [] 5
      [sample_document] = Inr ([(ExactName, sample_document)], 6)"
    by (simp add: ok fil cls)
  ultimately show ?thesis
    unfolding search_documents_def Let_def assms(1)
    by (auto simp: sample_search_def [THEN arg_cong [where f = sr_query]] sample_search_def [THEN arg_cong [where f = sr_top_k]]
        sample_query_chars modes limit ok rank_hits_eq best_ranked_def)
qed

lemma sample_search_runs:
  "\<exists>response. search_documents named_tantivy one_document_env [sample_entry] (IndexGeneration 1) idle_clock sample_search 2000
     = Inr response \<and> resp_hits response = [hit_of (0, ExactName, sample_document)]"
  by (rule sample_search_result) (simp_all add: sample_candidates fun_eq_iff)

theorem search_hits_ranked_witness:
  "\<exists>response. search_documents named_tantivy one_document_env [sample_entry] (IndexGeneration 1) idle_clock sample_search 2000
     = Inr response \<and> length (resp_hits response) \<le> 100 \<and> sorted (map (hit_key one_document_env) (resp_hits response))"
proof -
  obtain response where run: "search_documents named_tantivy one_document_env [sample_entry] (IndexGeneration 1) idle_clock
      sample_search 2000 = Inr response" using sample_search_runs by blast
  with search_hits_ranked [OF run] show ?thesis by auto
qed


end
