(* ===== verification/Content_Index.thy ===== *)
theory Content_Index
  imports Pipeline "HOL-Library.Char_ord" "HOL-Library.AList"
begin

text \<open>The content index (\<^verbatim>\<open>src/crates/content-index/src/lib.rs\<close>): which files a policy admits, how their
  text is read, and how the index follows the catalog.

  A \<open>ContentIndexPolicy\<close> names the opted-in roots, the extensions and the size limit;
  \<open>prepare_source\<close> and \<open>read_text\<close> are the guards a document passes before its text is
  stored. \<open>build\<close> and \<open>sync\<close> work from a snapshot, given as a list or read from the graph in pages, \<open>apply_delta\<close> from a batch of the
  outbox, and \<open>project_at\<close> is the loop that reads pages, applies them and acknowledges them under
  the consumer \<open>CONTENT_SCHEMA_ID\<close>.

  Tantivy, the JSON codec and the file system are parameters (\<open>content_tantivy\<close>, \<open>catalog_env\<close>,
  \<open>content_fs\<close>); \<open>content_laws\<close> states what is relied on of the first, and
  \<open>list_content\<close> is an instance. The effect of a pass on one identity is the function
  \<open>sync_effect\<close>, from which idempotence, scope and the equivalence of snapshot and delta
  follow.\<close>

section \<open>Policy and errors\<close>

datatype ContentIndexError =
    ContentIo | ContentTantivy | ContentQuery | ContentSerialization | InvalidPolicy | ContentSchemaMismatch
  | MissingPayload | DuplicateDocument | ContentGraph GraphError

type_synonym 'a content_result = "ContentIndexError + 'a"

definition CONTENT_SCHEMA_ID :: string where "CONTENT_SCHEMA_ID = ''CONTENT-SCHEMA-v1''"
definition DEFAULT_MAX_FILE_BYTES :: u64 where "DEFAULT_MAX_FILE_BYTES = 1048576"
definition MAX_CONFIGURED_FILE_BYTES :: u64 where "MAX_CONFIGURED_FILE_BYTES = 16 * 1048576"
definition MIN_CONTENT_PREFIX_CHARS :: nat where "MIN_CONTENT_PREFIX_CHARS = 4"

text \<open>The file system as one pass sees it. A canonical path is the list of its components, so that
  \<open>Path::starts_with\<close> is the prefix relation.\<close>

record content_fs =
  cfs_canonicalize :: "string \<Rightarrow> string list option"
  cfs_is_dir :: "string list \<Rightarrow> bool"
  cfs_metadata :: "string list \<Rightarrow> (bool \<times> u64) option"
  cfs_read :: "string list \<Rightarrow> bytes option"

record ContentIndexPolicy =
  pol_roots :: "string list list"
  pol_extensions :: "string set"
  pol_max_file_bytes :: u64

definition TEXT_EXTENSIONS :: "string list" where
  "TEXT_EXTENSIONS =
     [''bat'', ''c'', ''cc'', ''cfg'', ''cmd'', ''conf'', ''cpp'', ''css'', ''csv'', ''cs'', ''cxx'', ''go'', ''h'',
      ''hpp'', ''htm'', ''html'', ''ini'', ''java'', ''js'', ''json'', ''jsx'', ''kt'', ''kts'', ''log'',
      ''markdown'', ''md'', ''php'', ''ps1'', ''py'', ''rb'', ''rs'', ''sh'', ''sql'', ''swift'', ''toml'', ''ts'',
      ''tsx'', ''txt'', ''vue'', ''xml'', ''yaml'', ''yml'']"

fun overlaps :: "string list list \<Rightarrow> bool" where
  "overlaps [] = False"
| "overlaps (root # others) = ((\<exists>other \<in> set others. prefix root other \<or> prefix other root) \<or> overlaps others)"

definition policy_new :: "content_fs \<Rightarrow> string list \<Rightarrow> u64 \<Rightarrow> ContentIndexPolicy content_result" where
  "policy_new fs roots max_file_bytes =
     (if max_file_bytes = 0 \<or> MAX_CONFIGURED_FILE_BYTES < max_file_bytes then Inl InvalidPolicy
      else
      and_then (fold_r (\<lambda>acc r. and_then (ok_or (cfs_canonicalize fs r) ContentIo) (\<lambda>c. Inr (acc @ [c]))) [] roots) (\<lambda>found.
        let canonical_roots = remdups_adj (sort found) in
        if canonical_roots = [] \<or> (\<exists>root \<in> set canonical_roots. \<not> cfs_is_dir fs root) \<or> overlaps canonical_roots
        then Inl InvalidPolicy
        else Inr \<lparr>pol_roots = canonical_roots, pol_extensions = set TEXT_EXTENSIONS, pol_max_file_bytes = max_file_bytes\<rparr>))"

definition has_allowed_extension :: "graph_env \<Rightarrow> ContentIndexPolicy \<Rightarrow> CatalogDocument \<Rightarrow> bool" where
  "has_allowed_extension env policy document =
     (case doc_extension document of None \<Rightarrow> False | Some e \<Rightarrow> env_to_lowercase env e \<in> pol_extensions policy)"

definition declared_eligible_bytes :: "graph_env \<Rightarrow> ContentIndexPolicy \<Rightarrow> CatalogDocument \<Rightarrow> u64" where
  "declared_eligible_bytes env policy document =
     (if md_kind (doc_metadata document) = File \<and> md_availability (doc_metadata document) = Online
         \<and> md_size (doc_metadata document) \<le> pol_max_file_bytes policy \<and> has_allowed_extension env policy document
      then md_size (doc_metadata document) else 0)"

section \<open>Extraction\<close>

datatype SkipReason = SkipOutsideRoots | SkipUnavailable | SkipExtension | SkipTooLarge | SkipNonText | SkipIo

record PreparedSource =
  src_canonical :: "string list"
  src_length :: u64

definition prepare_source ::
  "graph_env \<Rightarrow> content_fs \<Rightarrow> ContentIndexPolicy \<Rightarrow> CatalogDocument \<Rightarrow> SkipReason + PreparedSource" where
  "prepare_source env fs policy document =
     (if md_kind (doc_metadata document) \<noteq> File \<or> md_availability (doc_metadata document) \<noteq> Online then Inl SkipUnavailable
      else if \<not> has_allowed_extension env policy document then Inl SkipExtension
      else if pol_max_file_bytes policy < md_size (doc_metadata document) then Inl SkipTooLarge
      else (case cfs_canonicalize fs (doc_resolved_path document) of
              None \<Rightarrow> Inl SkipIo
            | Some canonical \<Rightarrow>
                if \<not> (\<exists>root \<in> set (pol_roots policy). prefix root canonical) then Inl SkipOutsideRoots
                else (case cfs_metadata fs canonical of
                        None \<Rightarrow> Inl SkipIo
                      | Some (is_file, len) \<Rightarrow>
                          if \<not> is_file then Inl SkipUnavailable
                          else if pol_max_file_bytes policy < len then Inl SkipTooLarge
                          else Inr \<lparr>src_canonical = canonical, src_length = len\<rparr>)))"

text \<open>\<open>String::from_utf8\<close>: the bytes are the encoding of some scalar values.\<close>

definition from_utf8 :: "bytes \<Rightarrow> string option" where
  "from_utf8 b =
     (let ns = map unat b; cs = utf8_decode ns in
      if (\<forall>c \<in> set cs. is_scalar c) \<and> concat (map utf8_encode cs) = ns then Some (map char_of ns) else None)"

definition read_text :: "content_fs \<Rightarrow> ContentIndexPolicy \<Rightarrow> PreparedSource \<Rightarrow> SkipReason + string" where
  "read_text fs policy prepared =
     (case cfs_read fs (src_canonical prepared) of
        None \<Rightarrow> Inl SkipIo
      | Some contents \<Rightarrow>
          let b = take (unat (saturating_add (pol_max_file_bytes policy) 1)) contents in
          if unat (pol_max_file_bytes policy) < length b then Inl SkipTooLarge
          else if 0 \<in> set b then Inl SkipNonText
          else ok_or (from_utf8 b) SkipNonText)"

definition extract_text ::
  "graph_env \<Rightarrow> content_fs \<Rightarrow> ContentIndexPolicy \<Rightarrow> CatalogDocument \<Rightarrow> SkipReason + string" where
  "extract_text env fs policy document = and_then (prepare_source env fs policy document) (read_text fs policy)"

definition content_hash :: "graph_env \<Rightarrow> string \<Rightarrow> string" where
  "content_hash env content = concat (map hex_byte (env_sha256 env (map of_char content)))"

definition content_source_unchanged :: "CatalogDocument \<Rightarrow> CatalogDocument \<Rightarrow> bool" where
  "content_source_unchanged previous current \<longleftrightarrow>
     ci_object_key (doc_identity previous) = ci_object_key (doc_identity current)
   \<and> md_kind (doc_metadata previous) = md_kind (doc_metadata current)
   \<and> md_size (doc_metadata previous) = md_size (doc_metadata current)
   \<and> md_modified_at_unix_ms (doc_metadata previous) \<noteq> None
   \<and> md_modified_at_unix_ms (doc_metadata previous) = md_modified_at_unix_ms (doc_metadata current)
   \<and> md_availability (doc_metadata previous) = md_availability (doc_metadata current)"

section \<open>The index\<close>

record ContentEntry =
  xd_document_id :: string
  xd_payload :: string
  xd_content :: string
  xd_content_hash :: "string option"

datatype content_query = ParsedQuery string | ParsedOrPrefix string string

text \<open>The operations of Tantivy the crate calls on this schema. \<open>xt_first\<close> is the term query for one identity with
  a limit of one, \<open>xt_matches\<close> the live documents of a query in segment order, \<open>xt_has_hash\<close> whether the
  schema has the optional hash field.\<close>

record ('i, 'w) content_tantivy =
  xt_create :: "'i option"
  xt_writer :: "'i \<Rightarrow> 'w option"
  xt_delete_term :: "'w \<Rightarrow> string \<Rightarrow> 'w"
  xt_add_document :: "'w \<Rightarrow> ContentEntry \<Rightarrow> 'w option"
  xt_commit :: "'w \<Rightarrow> ('i \<times> u64) option"
  xt_wait_merging_threads :: "'w \<Rightarrow> bool"
  xt_has_hash :: "'i \<Rightarrow> bool"
  xt_first :: "'i \<Rightarrow> string \<Rightarrow> ContentEntry option option"
  xt_parses :: "'i \<Rightarrow> string \<Rightarrow> bool"
  xt_tokens :: "'i \<Rightarrow> string \<Rightarrow> string list option"
  xt_matches :: "'i \<Rightarrow> content_query \<Rightarrow> ContentEntry list option"
  xt_documents :: "'i \<Rightarrow> ContentEntry list"
  xt_pending :: "'w \<Rightarrow> ContentEntry list"

record 'i content_dir =
  cd_marker :: "string option"
  cd_index :: "'i option"

type_synonym 'i content_store = "string \<Rightarrow> 'i content_dir option"

definition content_entry :: "catalog_env \<Rightarrow> bool \<Rightarrow> CatalogDocument \<Rightarrow> string \<Rightarrow> string \<Rightarrow> ContentEntry content_result" where
  "content_entry cenv has_hash document content hash =
     (case ce_document_to_json cenv document of
        None \<Rightarrow> Inl ContentSerialization
      | Some payload \<Rightarrow> Inr \<lparr>xd_document_id = display_id document_id_spec (docid document), xd_payload = payload,
          xd_content = content, xd_content_hash = (if has_hash then Some hash else None)\<rparr>)"

definition open_index :: "('i, 'w) content_tantivy \<Rightarrow> 'i content_store \<Rightarrow> string \<Rightarrow> 'i content_result" where
  "open_index tv store path =
     (case store path of
        None \<Rightarrow> Inl ContentIo
      | Some dir \<Rightarrow>
          (case cd_marker dir of
             None \<Rightarrow> Inl ContentIo
           | Some marker \<Rightarrow> if marker \<noteq> CONTENT_SCHEMA_ID then Inl ContentSchemaMismatch else ok_or (cd_index dir) ContentTantivy))"

record StoredContent =
  sc_document :: CatalogDocument
  sc_content_hash :: "string option"

definition stored_content :: "catalog_env \<Rightarrow> bool \<Rightarrow> ContentEntry \<Rightarrow> StoredContent content_result" where
  "stored_content cenv has_hash e =
     (case ce_document_from_json cenv (xd_payload e) of
        None \<Rightarrow> Inl ContentSerialization
      | Some d \<Rightarrow> Inr \<lparr>sc_document = d, sc_content_hash = (if has_hash then xd_content_hash e else None)\<rparr>)"

definition stored_document ::
  "('i, 'w) content_tantivy \<Rightarrow> catalog_env \<Rightarrow> 'i \<Rightarrow> DocumentId \<Rightarrow> StoredContent option content_result" where
  "stored_document tv cenv i document_id =
     (case xt_first tv i (display_id document_id_spec document_id) of
        None \<Rightarrow> Inl ContentTantivy
      | Some None \<Rightarrow> Inr None
      | Some (Some e) \<Rightarrow> and_then (stored_content cenv (xt_has_hash tv i) e) (\<lambda>s. Inr (Some s)))"

definition stored_documents ::
  "('i, 'w) content_tantivy \<Rightarrow> catalog_env \<Rightarrow> 'i \<Rightarrow> (DocumentId \<times> StoredContent) list content_result" where
  "stored_documents tv cenv i =
     fold_r (\<lambda>documents e. and_then (stored_content cenv (xt_has_hash tv i) e) (\<lambda>s. Inr (AList.update (docid (sc_document s)) s documents)))
       [] (xt_documents tv i)"
section \<open>Synchronisation\<close>

record ContentBuildSummary =
  bs_catalog_documents :: u64
  bs_indexed_documents :: u64
  bs_skipped :: "SkipReason \<Rightarrow> u64"
  bs_generation :: u64

record ContentSyncSummary =
  cs_catalog_documents :: u64
  cs_unchanged_documents :: u64
  cs_metadata_only_documents :: u64
  cs_unchanged_hash_documents :: u64
  cs_added_documents :: u64
  cs_updated_documents :: u64
  cs_removed_documents :: u64
  cs_evicted_documents :: u64
  cs_skipped :: "SkipReason \<Rightarrow> u64"
  cs_generation :: u64

definition default_build_summary :: ContentBuildSummary where
  "default_build_summary = \<lparr>bs_catalog_documents = 0, bs_indexed_documents = 0, bs_skipped = (\<lambda>_. 0), bs_generation = 0\<rparr>"

definition default_sync_summary :: ContentSyncSummary where
  "default_sync_summary = \<lparr>cs_catalog_documents = 0, cs_unchanged_documents = 0, cs_metadata_only_documents = 0,
     cs_unchanged_hash_documents = 0, cs_added_documents = 0, cs_updated_documents = 0, cs_removed_documents = 0,
     cs_evicted_documents = 0, cs_skipped = (\<lambda>_. 0), cs_generation = 0\<rparr>"

abbreviation succ_u64 :: "u64 \<Rightarrow> u64" where "succ_u64 n \<equiv> saturating_add n 1"

definition increment_build :: "SkipReason \<Rightarrow> ContentBuildSummary \<Rightarrow> ContentBuildSummary" where
  "increment_build reason s = s\<lparr>bs_skipped := (bs_skipped s)(reason := succ_u64 (bs_skipped s reason))\<rparr>"

definition increment_sync :: "SkipReason \<Rightarrow> ContentSyncSummary \<Rightarrow> ContentSyncSummary" where
  "increment_sync reason s = s\<lparr>cs_skipped := (cs_skipped s)(reason := succ_u64 (cs_skipped s reason))\<rparr>"

definition delete_document :: "('i, 'w) content_tantivy \<Rightarrow> 'w \<Rightarrow> DocumentId \<Rightarrow> 'w" where
  "delete_document tv w document_id = xt_delete_term tv w (display_id document_id_spec document_id)"

text \<open>A document that cannot be extracted: counted, and deleted when it was indexed.\<close>

definition skip_document ::
  "('i, 'w) content_tantivy \<Rightarrow> SkipReason \<Rightarrow> StoredContent option \<Rightarrow> DocumentId \<Rightarrow> 'w \<times> ContentSyncSummary \<Rightarrow> 'w \<times> ContentSyncSummary" where
  "skip_document tv reason prior document_id state =
     (case state of (w, s) \<Rightarrow>
        let s1 = increment_sync reason s in
        if prior \<noteq> None then (delete_document tv w document_id, s1\<lparr>cs_evicted_documents := succ_u64 (cs_evicted_documents s1)\<rparr>)
        else (w, s1))"

text \<open>The body both loops share: what one catalog document does, given what is stored for it.\<close>

definition sync_document ::
  "('i, 'w) content_tantivy \<Rightarrow> graph_env \<Rightarrow> catalog_env \<Rightarrow> content_fs \<Rightarrow> ContentIndexPolicy \<Rightarrow> bool \<Rightarrow> StoredContent option
     \<Rightarrow> CatalogDocument \<Rightarrow> 'w \<times> ContentSyncSummary \<Rightarrow> ('w \<times> ContentSyncSummary) content_result" where
  "sync_document tv env cenv fs policy has_hash prior document state =
     (case prepare_source env fs policy document of
        Inl reason \<Rightarrow> Inr (skip_document tv reason prior (docid document) state)
      | Inr prepared \<Rightarrow>
          (case state of (w, s) \<Rightarrow>
             if (case prior of None \<Rightarrow> False | Some stored \<Rightarrow> sc_document stored = document)
             then Inr (w, s\<lparr>cs_unchanged_documents := succ_u64 (cs_unchanged_documents s)\<rparr>)
             else if (case prior of None \<Rightarrow> False | Some stored \<Rightarrow> content_source_unchanged (sc_document stored) document)
             then Inr (w, s\<lparr>cs_metadata_only_documents := succ_u64 (cs_metadata_only_documents s)\<rparr>)
             else
               (case read_text fs policy prepared of
                  Inl reason \<Rightarrow> Inr (skip_document tv reason prior (docid document) state)
                | Inr text \<Rightarrow>
                    let hash = content_hash env text in
                    if Option.bind prior sc_content_hash = Some hash
                    then Inr (w, s\<lparr>cs_unchanged_hash_documents := succ_u64 (cs_unchanged_hash_documents s)\<rparr>)
                    else
                      and_then (content_entry cenv has_hash document text hash) (\<lambda>e.
                      and_then (ok_or (xt_add_document tv (delete_document tv w (docid document)) e) ContentTantivy) (\<lambda>w'.
                        Inr (w', if prior \<noteq> None then s\<lparr>cs_updated_documents := succ_u64 (cs_updated_documents s)\<rparr>
                                 else s\<lparr>cs_added_documents := succ_u64 (cs_added_documents s)\<rparr>))))))"

text \<open>A commit publishes the writer's documents in the directory and returns the generation.\<close>

definition content_commit ::
  "('i, 'w) content_tantivy \<Rightarrow> 'i content_store \<Rightarrow> string \<Rightarrow> 'w \<Rightarrow> 'i content_store \<times> u64 content_result" where
  "content_commit tv store path w =
     (case xt_commit tv w of
        None \<Rightarrow> (store, Inl ContentTantivy)
      | Some (i, generation) \<Rightarrow>
          (store(path \<mapsto> \<lparr>cd_marker = Some CONTENT_SCHEMA_ID, cd_index = Some i\<rparr>),
           if xt_wait_merging_threads tv w then Inr generation else Inl ContentTantivy))"

definition publish_sync ::
  "('i, 'w) content_tantivy \<Rightarrow> 'i content_store \<Rightarrow> string \<Rightarrow> ('w \<times> ContentSyncSummary) content_result
     \<Rightarrow> 'i content_store \<times> ContentSyncSummary content_result" where
  "publish_sync tv store path r =
     (case r of
        Inl e \<Rightarrow> (store, Inl e)
      | Inr (w, s) \<Rightarrow>
          (case content_commit tv store path w of
             (store', Inl e) \<Rightarrow> (store', Inl e)
           | (store', Inr generation) \<Rightarrow> (store', Inr (s\<lparr>cs_generation := generation\<rparr>))))"

section \<open>Building and synchronising from a snapshot\<close>

fun build_documents ::
  "('i, 'w) content_tantivy \<Rightarrow> graph_env \<Rightarrow> catalog_env \<Rightarrow> content_fs \<Rightarrow> ContentIndexPolicy
     \<Rightarrow> 'w \<times> ContentBuildSummary \<Rightarrow> CatalogDocument content_result list \<Rightarrow> ('w \<times> ContentBuildSummary) content_result" where
  "build_documents tv env cenv fs policy state [] = Inr state"
| "build_documents tv env cenv fs policy state (Inl e # documents) = Inl e"
| "build_documents tv env cenv fs policy (w, s) (Inr document # documents) =
     (let s1 = s\<lparr>bs_catalog_documents := succ_u64 (bs_catalog_documents s)\<rparr> in
      case extract_text env fs policy document of
        Inl reason \<Rightarrow> build_documents tv env cenv fs policy (w, increment_build reason s1) documents
      | Inr text \<Rightarrow>
          and_then (content_entry cenv True document text (content_hash env text)) (\<lambda>e.
          and_then (ok_or (xt_add_document tv w e) ContentTantivy) (\<lambda>w'.
            build_documents tv env cenv fs policy (w', s1\<lparr>bs_indexed_documents := succ_u64 (bs_indexed_documents s1)\<rparr>) documents)))"

record content_io =
  xio_create_dir :: "string \<Rightarrow> bool"
  xio_write_marker :: "string \<Rightarrow> bool"

definition build_fallible ::
  "('i, 'w) content_tantivy \<Rightarrow> graph_env \<Rightarrow> catalog_env \<Rightarrow> content_fs \<Rightarrow> content_io \<Rightarrow> ContentIndexPolicy \<Rightarrow> 'i content_store \<Rightarrow> string
     \<Rightarrow> CatalogDocument content_result list \<Rightarrow> 'i content_store \<times> ContentBuildSummary content_result" where
  "build_fallible tv env cenv fs io policy store path documents =
     (if store path \<noteq> None \<or> \<not> xio_create_dir io path then (store, Inl ContentIo)
      else if \<not> xio_write_marker io path then (store(path \<mapsto> \<lparr>cd_marker = None, cd_index = None\<rparr>), Inl ContentIo)
      else (case xt_create tv of
              None \<Rightarrow> (store(path \<mapsto> \<lparr>cd_marker = Some CONTENT_SCHEMA_ID, cd_index = None\<rparr>), Inl ContentTantivy)
            | Some i \<Rightarrow>
                let store1 = store(path \<mapsto> \<lparr>cd_marker = Some CONTENT_SCHEMA_ID, cd_index = Some i\<rparr>) in
                (case and_then (ok_or (xt_writer tv i) ContentTantivy) (\<lambda>w.
                        build_documents tv env cenv fs policy (w, default_build_summary) documents) of
                   Inl e \<Rightarrow> (store1, Inl e)
                 | Inr (w, s) \<Rightarrow>
                     (case content_commit tv store1 path w of
                        (store2, Inl e) \<Rightarrow> (store2, Inl e)
                      | (store2, Inr generation) \<Rightarrow> (store2, Inr (s\<lparr>bs_generation := generation\<rparr>))))))"

definition build where
  "build tv env cenv fs io policy store path documents = build_fallible tv env cenv fs io policy store path (map Inr documents)"

fun sync_loop ::
  "('i, 'w) content_tantivy \<Rightarrow> graph_env \<Rightarrow> catalog_env \<Rightarrow> content_fs \<Rightarrow> ContentIndexPolicy \<Rightarrow> bool
     \<Rightarrow> (DocumentId \<times> StoredContent) list \<Rightarrow> DocumentId set \<Rightarrow> 'w \<times> ContentSyncSummary \<Rightarrow> CatalogDocument content_result list
     \<Rightarrow> ((DocumentId \<times> StoredContent) list \<times> 'w \<times> ContentSyncSummary) content_result" where
  "sync_loop tv env cenv fs policy h previous seen state [] = Inr (previous, state)"
| "sync_loop tv env cenv fs policy h previous seen state (Inl e # documents) = Inl e"
| "sync_loop tv env cenv fs policy h previous seen (w, s) (Inr document # documents) =
     (let s1 = s\<lparr>cs_catalog_documents := succ_u64 (cs_catalog_documents s)\<rparr>; k = docid document in
      if k \<in> seen then Inl DuplicateDocument
      else and_then (sync_document tv env cenv fs policy h (map_of previous k) document (w, s1)) (\<lambda>state'.
             sync_loop tv env cenv fs policy h (AList.delete k previous) (insert k seen) state' documents))"

definition remove_previous ::
  "('i, 'w) content_tantivy \<Rightarrow> DocumentId list \<Rightarrow> 'w \<times> ContentSyncSummary \<Rightarrow> 'w \<times> ContentSyncSummary" where
  "remove_previous tv ks state =
     foldl (\<lambda>(w, s) k. (delete_document tv w k, s\<lparr>cs_removed_documents := succ_u64 (cs_removed_documents s)\<rparr>)) state ks"

definition sync_fallible ::
  "('i, 'w) content_tantivy \<Rightarrow> graph_env \<Rightarrow> catalog_env \<Rightarrow> content_fs \<Rightarrow> ContentIndexPolicy \<Rightarrow> 'i content_store \<Rightarrow> string
     \<Rightarrow> CatalogDocument content_result list \<Rightarrow> 'i content_store \<times> ContentSyncSummary content_result" where
  "sync_fallible tv env cenv fs policy store path documents =
     publish_sync tv store path
       (and_then (open_index tv store path) (\<lambda>i.
        and_then (stored_documents tv cenv i) (\<lambda>previous.
        and_then (ok_or (xt_writer tv i) ContentTantivy) (\<lambda>w.
        and_then (sync_loop tv env cenv fs policy (xt_has_hash tv i) previous {} (w, default_sync_summary) documents) (\<lambda>(left, state).
          Inr (remove_previous tv (sort (map fst left)) state))))))"

definition sync where
  "sync tv env cenv fs policy store path documents = sync_fallible tv env cenv fs policy store path (map Inr documents)"

section \<open>Applying a delta\<close>

fun delta_upserts ::
  "('i, 'w) content_tantivy \<Rightarrow> graph_env \<Rightarrow> catalog_env \<Rightarrow> content_fs \<Rightarrow> ContentIndexPolicy \<Rightarrow> 'i \<Rightarrow> DocumentId set
     \<Rightarrow> 'w \<times> ContentSyncSummary \<Rightarrow> CatalogDocument list \<Rightarrow> (DocumentId set \<times> 'w \<times> ContentSyncSummary) content_result" where
  "delta_upserts tv env cenv fs policy i seen state [] = Inr (seen, state)"
| "delta_upserts tv env cenv fs policy i seen (w, s) (document # documents) =
     (let s1 = s\<lparr>cs_catalog_documents := succ_u64 (cs_catalog_documents s)\<rparr>; k = docid document in
      if k \<in> seen then Inl DuplicateDocument
      else and_then (stored_document tv cenv i k) (\<lambda>prior.
           and_then (sync_document tv env cenv fs policy (xt_has_hash tv i) prior document (w, s1)) (\<lambda>state'.
             delta_upserts tv env cenv fs policy i (insert k seen) state' documents)))"

fun delta_deletions ::
  "('i, 'w) content_tantivy \<Rightarrow> catalog_env \<Rightarrow> 'i \<Rightarrow> DocumentId set \<Rightarrow> 'w \<times> ContentSyncSummary \<Rightarrow> DocumentId list
     \<Rightarrow> ('w \<times> ContentSyncSummary) content_result" where
  "delta_deletions tv cenv i seen state [] = Inr state"
| "delta_deletions tv cenv i seen (w, s) (k # ks) =
     (if k \<in> seen then Inl DuplicateDocument
      else and_then (stored_document tv cenv i k) (\<lambda>prior.
             delta_deletions tv cenv i (insert k seen)
               (if prior \<noteq> None then (delete_document tv w k, s\<lparr>cs_removed_documents := succ_u64 (cs_removed_documents s)\<rparr>) else (w, s)) ks))"

definition apply_delta ::
  "('i, 'w) content_tantivy \<Rightarrow> graph_env \<Rightarrow> catalog_env \<Rightarrow> content_fs \<Rightarrow> ContentIndexPolicy \<Rightarrow> 'i content_store \<Rightarrow> string
     \<Rightarrow> CatalogDocument list \<Rightarrow> DocumentId list \<Rightarrow> 'i content_store \<times> ContentSyncSummary content_result" where
  "apply_delta tv env cenv fs policy store path upserts deletions =
     publish_sync tv store path
       (and_then (open_index tv store path) (\<lambda>i.
        and_then (ok_or (xt_writer tv i) ContentTantivy) (\<lambda>w.
        and_then (delta_upserts tv env cenv fs policy i {} (w, default_sync_summary) upserts) (\<lambda>(seen, state).
          delta_deletions tv cenv i seen state deletions))))"
section \<open>What an index holds\<close>

definition content_laws :: "('i, 'w) content_tantivy \<Rightarrow> bool" where
  "content_laws tv \<longleftrightarrow>
     (\<forall>i. xt_create tv = Some i \<longrightarrow> xt_documents tv i = [])
   \<and> (\<forall>i w. xt_writer tv i = Some w \<longrightarrow> mset (xt_pending tv w) = mset (xt_documents tv i))
   \<and> (\<forall>w t. mset (xt_pending tv (xt_delete_term tv w t)) = mset (filter (\<lambda>e. xd_document_id e \<noteq> t) (xt_pending tv w)))
   \<and> (\<forall>w e w'. xt_add_document tv w e = Some w' \<longrightarrow> mset (xt_pending tv w') = add_mset e (mset (xt_pending tv w)))
   \<and> (\<forall>w i g. xt_commit tv w = Some (i, g) \<longrightarrow> mset (xt_documents tv i) = mset (xt_pending tv w))
   \<and> (\<forall>i t. xt_first tv i t = Some None \<longrightarrow> t \<notin> xd_document_id ` set (xt_documents tv i))
   \<and> (\<forall>i t e. xt_first tv i t = Some (Some e) \<longrightarrow> e \<in> set (xt_documents tv i) \<and> xd_document_id e = t)"

abbreviation (input) content_key :: "DocumentId \<Rightarrow> string" where
  "content_key k \<equiv> display_id document_id_spec k"

text \<open>One entry per identity, each with a payload that decodes to a document of that identity.\<close>

definition content_ok :: "catalog_env \<Rightarrow> ContentEntry list \<Rightarrow> bool" where
  "content_ok cenv es \<longleftrightarrow>
     distinct (map xd_document_id es)
   \<and> (\<forall>e \<in> set es. \<exists>d. ce_document_from_json cenv (xd_payload e) = Some d \<and> xd_document_id e = content_key (docid d))"

definition entry_map :: "ContentEntry list \<Rightarrow> DocumentId \<Rightarrow> ContentEntry option" where
  "entry_map es k = find (\<lambda>e. xd_document_id e = content_key k) es"

lemma entry_map_None: "entry_map es k = None \<longleftrightarrow> content_key k \<notin> xd_document_id ` set es"
  by (auto simp: entry_map_def find_None_iff image_iff)

lemma entry_map_Some:
  assumes "distinct (map xd_document_id es)"
  shows "entry_map es k = Some e \<longleftrightarrow> e \<in> set es \<and> xd_document_id e = content_key k"
proof
  assume "entry_map es k = Some e"
  then show "e \<in> set es \<and> xd_document_id e = content_key k" by (auto simp: entry_map_def find_Some_iff)
next
  assume e: "e \<in> set es \<and> xd_document_id e = content_key k"
  then obtain e' where e': "entry_map es k = Some e'" using entry_map_None by (metis image_eqI option.exhaust)
  then have "e' \<in> set es" "xd_document_id e' = content_key k" by (auto simp: entry_map_def find_Some_iff)
  then have "e' = e" using e assms by (metis distinct_map inj_onD)
  then show "entry_map es k = Some e" using e' by simp
qed

lemma content_ok_mset:
  assumes "content_ok cenv es" "mset es' = mset es"
  shows "content_ok cenv es'" and "entry_map es' = entry_map es"
proof -
  have s: "set es' = set es" using assms(2) by (metis set_mset_mset)
  have "mset (map xd_document_id es') = mset (map xd_document_id es)" using assms(2) by simp
  then have d: "distinct (map xd_document_id es')" using assms(1) by (metis content_ok_def mset_eq_imp_distinct_iff)
  then show "content_ok cenv es'" using assms(1) s by (simp add: content_ok_def)
  have "entry_map es' k = entry_map es k" for k
    using entry_map_Some [OF d] entry_map_Some [of es] assms(1) s entry_map_None
    by (metis content_ok_def not_Some_eq)
  then show "entry_map es' = entry_map es" by blast
qed

lemma content_ok_delete:
  assumes "content_ok cenv es"
  shows "content_ok cenv (filter (\<lambda>e. xd_document_id e \<noteq> content_key k) es)"
    and "entry_map (filter (\<lambda>e. xd_document_id e \<noteq> content_key k) es) = (entry_map es)(k := None)"
proof -
  show "content_ok cenv (filter (\<lambda>e. xd_document_id e \<noteq> content_key k) es)"
    using assms by (auto simp: content_ok_def intro: distinct_map_filter)
  show "entry_map (filter (\<lambda>e. xd_document_id e \<noteq> content_key k) es) = (entry_map es)(k := None)"
    by (rule ext, induction es) (auto simp: entry_map_def)
qed

lemma content_ok_add:
  assumes "content_ok cenv es" "entry_map es k = None" "xd_document_id e = content_key k"
    and "ce_document_from_json cenv (xd_payload e) = Some d" "docid d = k"
  shows "content_ok cenv (e # es)" and "entry_map (e # es) = (entry_map es)(k \<mapsto> e)"
  using assms by (auto simp: content_ok_def entry_map_None) (auto simp: entry_map_def fun_eq_iff)

lemma deleted_pending:
  assumes "content_laws tv" "content_ok cenv (xt_pending tv w)"
  shows "content_ok cenv (xt_pending tv (delete_document tv w k))"
    and "entry_map (xt_pending tv (delete_document tv w k)) = (entry_map (xt_pending tv w))(k := None)"
proof -
  have m: "mset (xt_pending tv (delete_document tv w k)) = mset (filter (\<lambda>e. xd_document_id e \<noteq> content_key k) (xt_pending tv w))"
    using assms(1) by (simp add: content_laws_def delete_document_def)
  show "content_ok cenv (xt_pending tv (delete_document tv w k))"
    by (rule content_ok_mset(1) [OF content_ok_delete(1) [OF assms(2)] m])
  show "entry_map (xt_pending tv (delete_document tv w k)) = (entry_map (xt_pending tv w))(k := None)"
    using content_ok_mset(2) [OF content_ok_delete(1) [OF assms(2)] m] content_ok_delete(2) [OF assms(2)] by simp
qed

section \<open>What one document does\<close>

definition stored_of :: "catalog_env \<Rightarrow> bool \<Rightarrow> ContentEntry \<Rightarrow> StoredContent" where
  "stored_of cenv h e = \<lparr>sc_document = the (ce_document_from_json cenv (xd_payload e)), sc_content_hash = (if h then xd_content_hash e else None)\<rparr>"

text \<open>The entry of an identity after its document was synchronised, as a function of the entry before.\<close>

definition sync_effect ::
  "graph_env \<Rightarrow> catalog_env \<Rightarrow> content_fs \<Rightarrow> ContentIndexPolicy \<Rightarrow> bool \<Rightarrow> CatalogDocument \<Rightarrow> ContentEntry option \<Rightarrow> ContentEntry option" where
  "sync_effect env cenv fs policy h document prior =
     (case prepare_source env fs policy document of
        Inl _ \<Rightarrow> None
      | Inr prepared \<Rightarrow>
          if (case prior of None \<Rightarrow> False | Some e \<Rightarrow> sc_document (stored_of cenv h e) = document
                \<or> content_source_unchanged (sc_document (stored_of cenv h e)) document)
          then prior
          else (case read_text fs policy prepared of
                  Inl _ \<Rightarrow> None
                | Inr text \<Rightarrow>
                    if Option.bind prior (sc_content_hash \<circ> stored_of cenv h) = Some (content_hash env text) then prior
                    else (case content_entry cenv h document text (content_hash env text) of Inl _ \<Rightarrow> None | Inr e \<Rightarrow> Some e)))"

lemma content_entry_Inr:
  "content_entry cenv h d t x = Inr e \<longleftrightarrow> (\<exists>p. ce_document_to_json cenv d = Some p
     \<and> e = \<lparr>xd_document_id = content_key (docid d), xd_payload = p, xd_content = t, xd_content_hash = (if h then Some x else None)\<rparr>)"
  by (auto simp: content_entry_def split: option.splits)

lemma sync_document_effect:
  assumes "content_laws tv" "document_json_round_trip cenv" "content_ok cenv (xt_pending tv w)"
    and "sync_document tv env cenv fs policy h (map_option (stored_of cenv h) (entry_map (xt_pending tv w) (docid d))) d (w, s) = Inr (w', s')"
  shows "content_ok cenv (xt_pending tv w') \<and> entry_map (xt_pending tv w')
    = (entry_map (xt_pending tv w))(docid d := sync_effect env cenv fs policy h d (entry_map (xt_pending tv w) (docid d)))"
proof -
  let ?k = "docid d" and ?m = "entry_map (xt_pending tv w)"
  note del = deleted_pending [OF assms(1,3), of ?k]
  have skip: ?thesis if "(w', s') = skip_document tv reason (map_option (stored_of cenv h) (?m ?k)) ?k (w, s)"
      "sync_effect env cenv fs policy h d (?m ?k) = None" for reason
    using that del assms(3) by (cases "?m ?k") (auto simp: skip_document_def Let_def fun_upd_idem)
  have same: ?thesis if "w' = w" "sync_effect env cenv fs policy h d (?m ?k) = ?m ?k"
    using that assms(3) by (simp add: fun_upd_idem)
  have add: ?thesis if ce: "content_entry cenv h d t x = Inr e" and "xt_add_document tv (delete_document tv w ?k) e = Some w'"
      and "sync_effect env cenv fs policy h d (?m ?k) = Some e" for t x e
  proof -
    obtain p where e: "ce_document_to_json cenv d = Some p" "xd_document_id e = content_key ?k" "xd_payload e = p"
      using ce by (auto simp: content_entry_Inr)
    have js: "ce_document_from_json cenv (xd_payload e) = Some d" using e(1,3) assms(2) by (simp add: document_json_round_trip_def)
    have m: "mset (xt_pending tv w') = mset (e # xt_pending tv (delete_document tv w ?k))"
      using assms(1) that(2) by (simp add: content_laws_def)
    have none: "entry_map (xt_pending tv (delete_document tv w ?k)) ?k = None" using del(2) by simp
    note add = content_ok_add [OF del(1) none e(2) js refl]
    show ?thesis using content_ok_mset [OF add(1) m] add(2) del(2) that(3) by simp
  qed
  show ?thesis
  proof (cases "prepare_source env fs policy d")
    case (Inl reason)
    then show ?thesis using assms(4) skip [of reason] by (simp add: sync_document_def sync_effect_def)
  next
    case prep: (Inr prepared)
    show ?thesis
    proof (cases "case ?m ?k of None \<Rightarrow> False | Some e \<Rightarrow> sc_document (stored_of cenv h e) = d
                \<or> content_source_unchanged (sc_document (stored_of cenv h e)) d")
      case True
      then have "w' = w" using assms(4) prep by (auto simp: sync_document_def split: option.splits if_splits)
      then show ?thesis using same True prep by (simp add: sync_effect_def)
    next
      case False
      then have rest: "sync_document tv env cenv fs policy h (map_option (stored_of cenv h) (?m ?k)) d (w, s) =
          (case read_text fs policy prepared of
             Inl reason \<Rightarrow> Inr (skip_document tv reason (map_option (stored_of cenv h) (?m ?k)) ?k (w, s))
           | Inr text \<Rightarrow> if Option.bind (?m ?k) (sc_content_hash \<circ> stored_of cenv h) = Some (content_hash env text)
              then Inr (w, s\<lparr>cs_unchanged_hash_documents := succ_u64 (cs_unchanged_hash_documents s)\<rparr>)
              else and_then (content_entry cenv h d text (content_hash env text)) (\<lambda>e.
                   and_then (ok_or (xt_add_document tv (delete_document tv w ?k) e) ContentTantivy) (\<lambda>w'.
                     Inr (w', if ?m ?k \<noteq> None then s\<lparr>cs_updated_documents := succ_u64 (cs_updated_documents s)\<rparr>
                              else s\<lparr>cs_added_documents := succ_u64 (cs_added_documents s)\<rparr>))))"
        using prep by (cases "?m ?k") (simp_all add: sync_document_def Let_def split: sum.splits)
      have eff: "sync_effect env cenv fs policy h d (?m ?k) = (case read_text fs policy prepared of
             Inl _ \<Rightarrow> None
           | Inr text \<Rightarrow> if Option.bind (?m ?k) (sc_content_hash \<circ> stored_of cenv h) = Some (content_hash env text) then ?m ?k
              else (case content_entry cenv h d text (content_hash env text) of Inl _ \<Rightarrow> None | Inr e \<Rightarrow> Some e))"
        using prep False by (simp add: sync_effect_def)
      show ?thesis
      proof (cases "read_text fs policy prepared")
        case (Inl reason)
        then show ?thesis using skip [of reason] rest eff assms(4) by simp
      next
        case (Inr t)
        show ?thesis
        proof (cases "Option.bind (?m ?k) (sc_content_hash \<circ> stored_of cenv h) = Some (content_hash env t)")
          case True
          then show ?thesis using same rest eff assms(4) Inr by simp
        next
          case False
          then obtain e where e: "content_entry cenv h d t (content_hash env t) = Inr e"
              "xt_add_document tv (delete_document tv w ?k) e = Some w'"
            using assms(4) [unfolded rest] Inr by (auto simp: result_simps)
          then show ?thesis using add eff False Inr by simp
        qed
      qed
    qed
  qed
qed

section \<open>Deltas\<close>

text \<open>The document an identity is given by a list of upserts.\<close>

definition upsert_of :: "CatalogDocument list \<Rightarrow> DocumentId \<Rightarrow> CatalogDocument option" where
  "upsert_of ds k = find (\<lambda>d. docid d = k) ds"

lemma upsert_of_None: "upsert_of ds k = None \<longleftrightarrow> k \<notin> docid ` set ds"
  by (auto simp: upsert_of_def find_None_iff image_iff)

definition delta_effect ::
  "graph_env \<Rightarrow> catalog_env \<Rightarrow> content_fs \<Rightarrow> ContentIndexPolicy \<Rightarrow> bool \<Rightarrow> CatalogDocument list \<Rightarrow> DocumentId list
     \<Rightarrow> (DocumentId \<Rightarrow> ContentEntry option) \<Rightarrow> DocumentId \<Rightarrow> ContentEntry option" where
  "delta_effect env cenv fs policy h upserts deletions m k =
     (if k \<in> set deletions then None
      else case upsert_of upserts k of None \<Rightarrow> m k | Some d \<Rightarrow> sync_effect env cenv fs policy h d (m k))"

lemma stored_document_view:
  assumes "content_laws tv" "content_ok cenv (xt_documents tv i)" "stored_document tv cenv i k = Inr prior"
  shows "prior = map_option (stored_of cenv (xt_has_hash tv i)) (entry_map (xt_documents tv i) k)"
proof -
  have d: "distinct (map xd_document_id (xt_documents tv i))" using assms(2) by (simp add: content_ok_def)
  consider "xt_first tv i (content_key k) = Some None" "prior = None"
    | e s where "xt_first tv i (content_key k) = Some (Some e)" "stored_content cenv (xt_has_hash tv i) e = Inr s" "prior = Some s"
    using assms(3) by (auto simp: stored_document_def result_simps split: option.splits)
  then show ?thesis
  proof cases
    case 1
    then have "entry_map (xt_documents tv i) k = None" using assms(1) by (simp add: content_laws_def entry_map_None)
    then show ?thesis using 1 by simp
  next
    case 2
    then have "entry_map (xt_documents tv i) k = Some e"
      using assms(1) unfolding entry_map_Some [OF d] by (simp add: content_laws_def)
    then show ?thesis using 2(2,3) by (auto simp: stored_content_def stored_of_def split: option.splits)
  qed
qed

lemma delta_upserts_effect:
  assumes "content_laws tv" "document_json_round_trip cenv" "content_ok cenv (xt_documents tv i)"
    and "delta_upserts tv env cenv fs policy i seen (w, s) ds = Inr (seen', w', s')" "content_ok cenv (xt_pending tv w)"
    and "\<And>k. k \<notin> seen \<Longrightarrow> entry_map (xt_pending tv w) k = entry_map (xt_documents tv i) k"
  shows "content_ok cenv (xt_pending tv w') \<and> seen' = seen \<union> docid ` set ds \<and> distinct (map docid ds) \<and> seen \<inter> docid ` set ds = {}
    \<and> (\<forall>k. entry_map (xt_pending tv w') k = (case upsert_of ds k of None \<Rightarrow> entry_map (xt_pending tv w) k
         | Some d \<Rightarrow> sync_effect env cenv fs policy (xt_has_hash tv i) d (entry_map (xt_documents tv i) k)))"
  using assms(4-6)
proof (induction ds arbitrary: seen w s)
  case (Cons d ds)
  let ?h = "xt_has_hash tv i"
  obtain prior w1 s1 where new: "docid d \<notin> seen" and prior: "stored_document tv cenv i (docid d) = Inr prior"
    and step: "sync_document tv env cenv fs policy ?h prior d (w, s\<lparr>cs_catalog_documents := succ_u64 (cs_catalog_documents s)\<rparr>) = Inr (w1, s1)"
    and rest: "delta_upserts tv env cenv fs policy i (insert (docid d) seen) (w1, s1) ds = Inr (seen', w', s')"
    using Cons.prems(1) by (auto simp: Let_def result_simps split: if_splits)
  have "prior = map_option (stored_of cenv ?h) (entry_map (xt_pending tv w) (docid d))"
    using stored_document_view [OF assms(1,3) prior] Cons.prems(3) [OF new] by simp
  note eff = sync_document_effect [OF assms(1,2) Cons.prems(2) step [unfolded this]]
  have view: "entry_map (xt_pending tv w1) k = entry_map (xt_documents tv i) k" if "k \<notin> insert (docid d) seen" for k
    using eff Cons.prems(3) [of k] that by simp
  note ih = Cons.IH [OF rest conjunct1 [OF eff] view]
  have "upsert_of ds (docid d) = None" using ih by (simp add: upsert_of_None)
  then show ?case using ih eff new Cons.prems(3) [OF new] by (auto simp: upsert_of_def split: option.splits)
qed (simp add: upsert_of_def)

lemma delta_deletions_effect:
  assumes "content_laws tv" "content_ok cenv (xt_documents tv i)"
    and "delta_deletions tv cenv i seen (w, s) ks = Inr (w', s')" "content_ok cenv (xt_pending tv w)"
    and "\<And>k. k \<notin> seen \<Longrightarrow> entry_map (xt_pending tv w) k = entry_map (xt_documents tv i) k"
  shows "content_ok cenv (xt_pending tv w') \<and> distinct ks \<and> seen \<inter> set ks = {}
    \<and> (\<forall>k. entry_map (xt_pending tv w') k = (if k \<in> set ks then None else entry_map (xt_pending tv w) k))"
  using assms(3-5)
proof (induction ks arbitrary: seen w s)
  case (Cons k ks)
  obtain prior where new: "k \<notin> seen" and prior: "stored_document tv cenv i k = Inr prior"
    and rest: "delta_deletions tv cenv i (insert k seen)
        (if prior \<noteq> None then (delete_document tv w k, s\<lparr>cs_removed_documents := succ_u64 (cs_removed_documents s)\<rparr>) else (w, s)) ks = Inr (w', s')"
    using Cons.prems(1) by (auto simp: result_simps split: if_splits)
  note del = deleted_pending [OF assms(1) Cons.prems(2), of k]
  define w1 where "w1 = (if prior \<noteq> None then delete_document tv w k else w)"
  have none: "prior = None \<Longrightarrow> entry_map (xt_pending tv w) k = None"
    using stored_document_view [OF assms(1,2) prior] Cons.prems(3) [OF new] by (cases "entry_map (xt_documents tv i) k") simp_all
  have w1: "content_ok cenv (xt_pending tv w1)" "entry_map (xt_pending tv w1) = (entry_map (xt_pending tv w))(k := None)"
    using del none Cons.prems(2) by (auto simp: w1_def fun_upd_idem)
  obtain s1 where "delta_deletions tv cenv i (insert k seen) (w1, s1) ks = Inr (w', s')"
    using rest by (auto simp: w1_def split: if_splits)
  from Cons.IH [OF this w1(1)] Cons.prems(3) w1(2)
  show ?case using new by auto
qed simp

lemma publish_sync_cases:
  assumes "publish_sync tv store path x = (store', r)"
  shows "(store' = store \<and> isl r) \<or> (\<exists>w s0 i g. x = Inr (w, s0) \<and> xt_commit tv w = Some (i, g)
     \<and> store' = store(path \<mapsto> \<lparr>cd_marker = Some CONTENT_SCHEMA_ID, cd_index = Some i\<rparr>))"
  using assms by (auto simp: publish_sync_def content_commit_def split: sum.splits prod.splits option.splits if_splits)

lemma open_index_upd:
  "open_index tv (store(path \<mapsto> \<lparr>cd_marker = Some CONTENT_SCHEMA_ID, cd_index = Some i\<rparr>)) p = (if p = path then Inr i else open_index tv store p)"
  by (simp add: open_index_def)

lemma upsert_of_member: "distinct (map docid ds) \<Longrightarrow> d \<in> set ds \<Longrightarrow> upsert_of ds (docid d) = Some d"
  by (induction ds) (auto simp: upsert_of_def image_iff)

lemma prepare_source_Inr:
  assumes "prepare_source env fs policy d = Inr p"
  shows "(\<exists>canonical len root. cfs_canonicalize fs (doc_resolved_path d) = Some canonical \<and> root \<in> set (pol_roots policy)
        \<and> prefix root canonical \<and> cfs_metadata fs canonical = Some (True, len) \<and> len \<le> pol_max_file_bytes policy)
    \<and> md_kind (doc_metadata d) = File \<and> md_availability (doc_metadata d) = Online \<and> has_allowed_extension env policy d
    \<and> md_size (doc_metadata d) \<le> pol_max_file_bytes policy"
  using assms by (auto simp: prepare_source_def not_less split: if_splits option.splits)

lemma from_utf8_Some:
  assumes "from_utf8 b = Some t"
  shows "length t = length b" and "CHR 0x00 \<in> set t \<longleftrightarrow> 0 \<in> set b"
proof -
  have t: "t = map (char_of \<circ> unat) b" using assms by (auto simp: from_utf8_def Let_def split: if_splits)
  then show "length t = length b" by simp
  have "char_of (unat x) = CHR 0x00 \<longleftrightarrow> x = 0" for x :: u8
  proof -
    have "unat x < 256" using unsigned_less [of x] by simp
    then have "char_of (unat x) = CHR 0x00 \<longleftrightarrow> unat x = 0" by (simp add: char_of_eq_iff take_bit_nat_eq_self)
    then show ?thesis by (simp add: unat_eq_zero)
  qed
  then have "CHR 0x00 \<in> (char_of \<circ> unat) ` set b \<longleftrightarrow> 0 \<in> set b" unfolding image_iff comp_def by metis
  then show "CHR 0x00 \<in> set t \<longleftrightarrow> 0 \<in> set b" unfolding t by (simp only: set_map)
qed

lemma read_text_bounded:
  assumes "read_text fs policy p = Inr t"
  shows "length t \<le> unat (pol_max_file_bytes policy) \<and> CHR 0x00 \<notin> set t"
  using assms from_utf8_Some by (auto simp: read_text_def Let_def result_simps not_less split: option.splits if_splits)

lemma delta_outcome:
  assumes "content_laws tv" "document_json_round_trip cenv" "open_index tv store path = Inr i" "content_ok cenv (xt_documents tv i)"
    and "apply_delta tv env cenv fs policy store path upserts deletions = (store', r)"
  shows "(store' = store \<and> isl r) \<or> (\<exists>j. open_index tv store' path = Inr j \<and> content_ok cenv (xt_documents tv j)
    \<and> entry_map (xt_documents tv j) = delta_effect env cenv fs policy (xt_has_hash tv i) upserts deletions (entry_map (xt_documents tv i))
    \<and> distinct (map docid upserts @ deletions))"
proof (cases "store' = store \<and> isl r")
  case False
  then obtain w0 seen w1 s1 w2 s2 j g where w: "xt_writer tv i = Some w0"
      "delta_upserts tv env cenv fs policy i {} (w0, default_sync_summary) upserts = Inr (seen, w1, s1)"
      "delta_deletions tv cenv i seen (w1, s1) deletions = Inr (w2, s2)" "xt_commit tv w2 = Some (j, g)"
      "store' = store(path \<mapsto> \<lparr>cd_marker = Some CONTENT_SCHEMA_ID, cd_index = Some j\<rparr>)"
    using assms(3,5) unfolding apply_delta_def by (auto simp: result_simps dest!: publish_sync_cases)
  have m0: "mset (xt_pending tv w0) = mset (xt_documents tv i)" "mset (xt_documents tv j) = mset (xt_pending tv w2)"
    using assms(1) w(1,4) by (simp_all add: content_laws_def)
  note start = content_ok_mset [OF assms(4) m0(1)]
  have up: "content_ok cenv (xt_pending tv w1)" "seen = docid ` set upserts" "distinct (map docid upserts)"
      "\<And>k. entry_map (xt_pending tv w1) k = (case upsert_of upserts k of None \<Rightarrow> entry_map (xt_documents tv i) k
         | Some d \<Rightarrow> sync_effect env cenv fs policy (xt_has_hash tv i) d (entry_map (xt_documents tv i) k))"
    using delta_upserts_effect [OF assms(1,2,4) w(2) start(1), unfolded start(2)] by simp_all
  have keep: "entry_map (xt_pending tv w1) k = entry_map (xt_documents tv i) k" if "k \<notin> seen" for k
    using up(4) [of k] that up(2) upsert_of_None [of upserts k] by simp
  note del = delta_deletions_effect [OF assms(1,4) w(3) up(1) keep]
  note final = content_ok_mset [OF conjunct1 [OF del] m0(2)]
  have "entry_map (xt_documents tv j) = delta_effect env cenv fs policy (xt_has_hash tv i) upserts deletions (entry_map (xt_documents tv i))"
    using del up(4) by (intro ext) (simp add: final(2) delta_effect_def)
  moreover have "distinct (map docid upserts @ deletions)" using del up(2,3) by auto
  ultimately show ?thesis using final(1) w(5) by (simp add: open_index_upd)
qed simp

lemmas delta_result = delta_outcome [where r = "Inr _", simplified]

text \<open>Reading a file again gives the same entry: what the first pass left is kept by the second.\<close>

lemma sync_effect_idem:
  assumes "document_json_round_trip cenv"
  shows "sync_effect env cenv fs policy h d (sync_effect env cenv fs policy h d prior) = sync_effect env cenv fs policy h d prior"
proof -
  have new: "sc_document (stored_of cenv h e) = d" if "content_entry cenv h d t x = Inr e" for t x e
    using that assms by (auto simp: content_entry_Inr stored_of_def document_json_round_trip_def)
  show ?thesis
  proof (cases "prepare_source env fs policy d")
    case (Inr p)
    show ?thesis
    proof (cases "sync_effect env cenv fs policy h d prior = prior")
      case False
      then obtain t e where "sync_effect env cenv fs policy h d prior = None
          \<or> (content_entry cenv h d t (content_hash env t) = Inr e \<and> sync_effect env cenv fs policy h d prior = Some e)"
        using Inr by (auto simp: sync_effect_def split: sum.splits if_splits option.splits)
      then show ?thesis
      proof
        assume none: "sync_effect env cenv fs policy h d prior = None"
        then show ?thesis using False Inr
          by (auto simp: sync_effect_def split: sum.splits if_splits option.splits)
      next
        assume e: "content_entry cenv h d t (content_hash env t) = Inr e \<and> sync_effect env cenv fs policy h d prior = Some e"
        then have "sc_document (stored_of cenv h e) = d" using new by blast
        then have "sync_effect env cenv fs policy h d (Some e) = Some e" using Inr by (simp add: sync_effect_def)
        then show ?thesis using e by simp
      qed
    qed simp
  qed (simp add: sync_effect_def)
qed

text \<open>C16: content projection is idempotent. A delta applied a second time on unchanged files, as after a crash between
  the commit of the index and the acknowledgement of the outbox, leaves every entry as the first
  application left it.\<close>

theorem apply_delta_idempotent:
  assumes "content_laws tv" "document_json_round_trip cenv" "open_index tv store path = Inr i" "content_ok cenv (xt_documents tv i)"
    and "apply_delta tv env cenv fs policy store path upserts deletions = (store1, Inr s1)" "open_index tv store1 path = Inr j"
    and "xt_has_hash tv j = xt_has_hash tv i"
    and "apply_delta tv env cenv fs policy store1 path upserts deletions = (store2, Inr s2)" "open_index tv store2 path = Inr k"
  shows "entry_map (xt_documents tv k) = entry_map (xt_documents tv j)"
proof -
  have j: "content_ok cenv (xt_documents tv j)" "entry_map (xt_documents tv j)
      = delta_effect env cenv fs policy (xt_has_hash tv i) upserts deletions (entry_map (xt_documents tv i))"
    using delta_result [OF assms(1-5)] assms(6) by auto
  have "entry_map (xt_documents tv k)
      = delta_effect env cenv fs policy (xt_has_hash tv i) upserts deletions (entry_map (xt_documents tv j))"
    using delta_result [OF assms(1,2,6) j(1) assms(8)] assms(7,9) by auto
  then show ?thesis
    unfolding j(2) using sync_effect_idem [OF assms(2)] by (auto simp: delta_effect_def fun_eq_iff split: option.splits)
qed


section \<open>Full synchronisation is a delta\<close>

definition entry_document :: "catalog_env \<Rightarrow> ContentEntry \<Rightarrow> CatalogDocument" where
  "entry_document cenv e = the (ce_document_from_json cenv (xd_payload e))"

definition stored_table :: "('i, 'w) content_tantivy \<Rightarrow> catalog_env \<Rightarrow> 'i \<Rightarrow> (DocumentId \<times> StoredContent) list" where
  "stored_table tv cenv i = map (\<lambda>e. (docid (entry_document cenv e), stored_of cenv (xt_has_hash tv i) e)) (xt_documents tv i)"

lemma content_ok_entry:
  assumes "content_ok cenv es" "e \<in> set es"
  shows "ce_document_from_json cenv (xd_payload e) = Some (entry_document cenv e)" "xd_document_id e = content_key (docid (entry_document cenv e))"
  using assms by (auto simp: content_ok_def entry_document_def)

lemma stored_table_keys:
  assumes "content_ok cenv (xt_documents tv i)"
  shows "distinct (map fst (stored_table tv cenv i))"
    and "map_of (stored_table tv cenv i) k = map_option (stored_of cenv (xt_has_hash tv i)) (entry_map (xt_documents tv i) k)"
proof -
  let ?es = "xt_documents tv i"
  have id: "xd_document_id e = content_key (docid (entry_document cenv e))" if "e \<in> set ?es" for e
    using content_ok_entry(2) [OF assms that] .
  have "map xd_document_id ?es = map content_key (map fst (stored_table tv cenv i))"
    by (simp add: stored_table_def id cong: map_cong)
  then have "distinct (map content_key (map fst (stored_table tv cenv i)))" using assms by (metis content_ok_def)
  then show "distinct (map fst (stored_table tv cenv i))" unfolding distinct_map by simp
  have "map_of (map (\<lambda>e. (docid (entry_document cenv e), stored_of cenv h e)) es) k = map_option (stored_of cenv h) (entry_map es k)"
    if "set es \<subseteq> set ?es" for es h
    using that id by (induction es) (auto simp: entry_map_def)
  then show "map_of (stored_table tv cenv i) k = map_option (stored_of cenv (xt_has_hash tv i)) (entry_map ?es k)"
    by (simp add: stored_table_def)
qed

lemma AList_update_new: "k \<notin> fst ` set al \<Longrightarrow> AList.update k v al = al @ [(k, v)]"
  by (induction al) auto

lemma stored_documents_table:
  assumes "content_ok cenv (xt_documents tv i)"
  shows "stored_documents tv cenv i = Inr (stored_table tv cenv i)"
proof -
  let ?h = "xt_has_hash tv i"
  let ?row = "\<lambda>e. (docid (entry_document cenv e), stored_of cenv ?h e)"
  have "fold_r (\<lambda>documents e. and_then (stored_content cenv ?h e) (\<lambda>s. Inr (AList.update (docid (sc_document s)) s documents))) acc es
      = Inr (acc @ map ?row es)"
    if "set es \<subseteq> set (xt_documents tv i)" "distinct (map fst (acc @ map ?row es))" for acc es
    using that
  proof (induction es arbitrary: acc)
    case (Cons e es)
    have "stored_content cenv ?h e = Inr (stored_of cenv ?h e)" "sc_document (stored_of cenv ?h e) = entry_document cenv e"
      using content_ok_entry(1) [OF assms, of e] Cons.prems(1) by (simp_all add: stored_content_def stored_of_def)
    moreover have "AList.update (docid (entry_document cenv e)) (stored_of cenv ?h e) acc = acc @ [?row e]"
      using Cons.prems(2) by (intro AList_update_new) auto
    ultimately show ?case using Cons.IH [of "acc @ [?row e]"] Cons.prems by simp
  qed simp
  from this [of "xt_documents tv i" "[]"] stored_table_keys(1) [OF assms] show ?thesis
    by (simp add: stored_documents_def stored_table_def)
qed

lemma stored_document_table:
  assumes "content_laws tv" "content_ok cenv (xt_documents tv i)" "xt_first tv i (content_key k) \<noteq> None"
  shows "stored_document tv cenv i k = Inr (map_of (stored_table tv cenv i) k)"
proof -
  obtain r where r: "xt_first tv i (content_key k) = Some r" using assms(3) by blast
  have "\<exists>prior. stored_document tv cenv i k = Inr prior"
  proof (cases r)
    case (Some e)
    then have "e \<in> set (xt_documents tv i)" using assms(1) r by (simp add: content_laws_def)
    then show ?thesis using content_ok_entry(1) [OF assms(2)] r Some by (simp add: stored_document_def stored_content_def)
  qed (use r in \<open>simp add: stored_document_def\<close>)
  then show ?thesis using stored_document_view [OF assms(1,2)] stored_table_keys(2) [OF assms(2)] by metis
qed

abbreviation (input) unseen :: "DocumentId set \<Rightarrow> (DocumentId \<times> StoredContent) list \<Rightarrow> (DocumentId \<times> StoredContent) list" where
  "unseen seen table \<equiv> filter (\<lambda>(k, _). k \<notin> seen) table"

lemma sync_loop_delta:
  assumes "content_laws tv" "content_ok cenv (xt_documents tv i)" "\<And>k. xt_first tv i (content_key k) \<noteq> None"
  shows "sync_loop tv env cenv fs policy (xt_has_hash tv i) (unseen seen (stored_table tv cenv i)) seen state (map Inr ds)
    = and_then (delta_upserts tv env cenv fs policy i seen state ds) (\<lambda>(seen', state'). Inr (unseen seen' (stored_table tv cenv i), state'))"
proof (induction ds arbitrary: seen state)
  case (Cons d ds)
  obtain w s where state: "state = (w, s)" by fastforce
  let ?t = "stored_table tv cenv i"
  show ?case
  proof (cases "docid d \<in> seen")
    case False
    have "map_of (unseen seen t) (docid d) = map_of t (docid d)" for t :: "(DocumentId \<times> StoredContent) list"
      using False by (induction t) auto
    moreover have "AList.delete (docid d) (unseen seen ?t) = unseen (insert (docid d) seen) ?t"
      by (auto simp: AList.delete_eq intro!: filter_cong)
    ultimately show ?thesis
      using False Cons.IH [of "insert (docid d) seen"] stored_document_table [OF assms(1,2,3)] by (simp add: state Let_def and_then_assoc)
  qed (simp add: state)
qed simp

lemma delta_upserts_seen:
  "delta_upserts tv env cenv fs policy i seen state ds = Inr (seen', state') \<Longrightarrow> seen' = seen \<union> docid ` set ds"
proof (induction ds arbitrary: seen state)
  case (Cons d ds)
  obtain w s where "state = (w, s)" by fastforce
  with Cons show ?case by (auto simp: Let_def result_simps split: if_splits)
qed simp

lemma delta_deletions_stored:
  assumes "content_laws tv" "content_ok cenv (xt_documents tv i)" "\<And>k. xt_first tv i (content_key k) \<noteq> None"
    and "distinct ks" "seen \<inter> set ks = {}" "set ks \<subseteq> fst ` set (stored_table tv cenv i)"
  shows "delta_deletions tv cenv i seen state ks = Inr (remove_previous tv ks state)"
  using assms(4-6)
proof (induction ks arbitrary: seen state)
  case (Cons k ks)
  obtain w s where state: "state = (w, s)" by fastforce
  have "map_of (stored_table tv cenv i) k \<noteq> None" using Cons.prems(3) by (simp add: map_of_eq_None_iff)
  then obtain x where "stored_document tv cenv i k = Inr (Some x)" using stored_document_table [OF assms(1,2,3)] by auto
  then show ?case using Cons by (simp add: state remove_previous_def)
qed (simp add: remove_previous_def)

text \<open>A full synchronisation is an incremental one. Synchronising an index with a complete snapshot gives the same
  index, the same summary and the same error as applying the snapshot as a delta that deletes, in
  identity order, every stored document the snapshot does not name.\<close>

theorem sync_is_delta:
  assumes "content_laws tv" "open_index tv store path = Inr i" "content_ok cenv (xt_documents tv i)"
    and "\<And>k. xt_first tv i (content_key k) \<noteq> None"
  shows "sync tv env cenv fs policy store path documents = apply_delta tv env cenv fs policy store path documents
    (sort (map fst (filter (\<lambda>(k, _). k \<notin> docid ` set documents) (stored_table tv cenv i))))"
proof -
  let ?t = "stored_table tv cenv i" and ?h = "xt_has_hash tv i"
  have "and_then (sync_loop tv env cenv fs policy ?h ?t {} (w, s0) (map Inr documents)) (\<lambda>(left, state). Inr (remove_previous tv (sort (map fst left)) state))
      = and_then (delta_upserts tv env cenv fs policy i {} (w, s0) documents) (\<lambda>(seen, state).
          delta_deletions tv cenv i seen state (sort (map fst (unseen (docid ` set documents) ?t))))" for w s0
  proof (cases "delta_upserts tv env cenv fs policy i {} (w, s0) documents")
    case (Inl e)
    then show ?thesis using sync_loop_delta [OF assms(1,3,4), where seen = "{}"] by simp
  next
    case (Inr x)
    obtain seen state where x: "x = (seen, state)" by (cases x)
    have seen: "seen = docid ` set documents" using delta_upserts_seen [OF Inr [unfolded x]] by simp
    let ?ks = "sort (map fst (unseen seen ?t))"
    have "distinct (map fst (unseen seen ?t))" by (rule distinct_map_filter [OF stored_table_keys(1) [OF assms(3)]])
    moreover have "seen \<inter> set ?ks = {}" "set ?ks \<subseteq> fst ` set ?t" by auto
    ultimately have "delta_deletions tv cenv i seen state ?ks = Inr (remove_previous tv ?ks state)"
      by (intro delta_deletions_stored [OF assms(1,3,4)]) simp_all
    then show ?thesis using sync_loop_delta [OF assms(1,3,4), where seen = "{}"] Inr x seen by simp
  qed
  then show ?thesis
    by (simp add: sync_def sync_fallible_def apply_delta_def assms(2) stored_documents_table [OF assms(3)])
qed

section \<open>Reading the documents from the graph\<close>

text \<open>\<open>GraphCatalogIter\<close> as the sequence of items it yields: the documents of each page in turn, an error as the last
  item, and nothing after an empty page. The graph does not change while it is read.\<close>

partial_function (option) graph_catalog ::
  "graph_env \<Rightarrow> graph_db \<Rightarrow> DocumentId option \<Rightarrow> CatalogDocument content_result list option" where
  [code]: "graph_catalog env db after =
     (case desired_catalog_page env db after 4096 of
        Inl e \<Rightarrow> Some [Inl (ContentGraph e)]
      | Inr page \<Rightarrow>
          if page = [] then Some []
          else Option.bind (graph_catalog env db (Some (docid (last page)))) (\<lambda>items. Some (map Inr page @ items)))"

definition build_from_graph where
  "build_from_graph tv env cenv fs io policy store path db =
     map_option (build_fallible tv env cenv fs io policy store path) (graph_catalog env db None)"

definition sync_from_graph where
  "sync_from_graph tv env cenv fs policy store path db =
     map_option (sync_fallible tv env cenv fs policy store path) (graph_catalog env db None)"

lemma graph_catalog_complete:
  assumes "schema_ok db" and "recorded_current env db" and "desired_rows db = seen @ unread_rows db after"
  shows "graph_catalog env db after = Some (map Inr (map (row_document env) (unread_rows db after)))"
  using assms(3)
proof (induction "length (unread_rows db after)" arbitrary: seen after rule: less_induct)
  case less
  define page where "page = take 4096 (unread_rows db after)"
  have pos: "0 < (4096 :: nat)" by simp
  note paged = desired_page [OF assms(1,2) less.prems pos, folded page_def]
  show ?case
  proof (cases "page = []")
    case True
    then show ?thesis using paged(1) by (subst graph_catalog.simps) (simp add: page_def)
  next
    case False
    let ?after = "Some (docid (last (map (row_document env) page)))"
    have split: "unread_rows db after = page @ unread_rows db ?after" using paged(3) [OF False] less.prems by simp
    then have "length (unread_rows db ?after) < length (unread_rows db after)" 
      using False arg_cong [OF split, of length] by simp
    from less.hyps [OF this paged(3) [OF False]] show ?thesis
      using paged(1) False by (subst graph_catalog.simps, subst split) simp
  qed
qed

text \<open>C18: reading the graph in pages is reading all of it. On a well-formed graph whose documents are current,
  desired state can be listed, and building or synchronising an index from pages of the graph ends and is building or
  synchronising it with that complete list, every document once and in identity order.\<close>

theorem graph_snapshot_complete:
  assumes "schema_ok db" and "recorded_current env db"
  shows "\<exists>documents. desired_catalog_documents env db = Inr documents \<and> distinct (map docid documents)
    \<and> build_from_graph tv env cenv fs io policy store path db = Some (build tv env cenv fs io policy store path documents)
    \<and> sync_from_graph tv env cenv fs policy store path db = Some (sync tv env cenv fs policy store path documents)"
proof -
  let ?documents = "map (row_document env) (desired_rows db)"
  have all: "unread_rows db None = desired_rows db" by simp
  have "set (desired_rows db) \<subseteq> set (joined_rows db)" by simp
  note decode = recorded_decode [OF assms this]
  have "distinct (map docid ?documents)"
    unfolding decode(2) using desired_pages.sorted_scan [OF assms(1), of "\<lambda>_. True"] by (simp add: strict_sorted_iff)
  moreover have "graph_catalog env db None = Some (map Inr ?documents)"
    using graph_catalog_complete [OF assms, of "[]" None] all by simp
  moreover have "desired_catalog_documents env db = Inr ?documents"
    using decode(1) by (simp add: desired_catalog_documents_def)
  ultimately show ?thesis
    by (intro exI [of _ ?documents]) (simp add: build_from_graph_def sync_from_graph_def build_def sync_def)
qed

section \<open>Projecting the outbox\<close>

record ContentProjectionOptions =
  co_batch_size :: u32
  co_maximum_batches :: u32

record DurableContentProjectionSummary =
  dp_start_sequence :: u64
  dp_applied_sequence :: u64
  dp_latest_sequence :: u64
  dp_projected_mutations :: u64
  dp_backlog_remaining :: bool
  dp_commits :: "ContentSyncSummary list"

definition default_projection_options :: ContentProjectionOptions where
  "default_projection_options = \<lparr>co_batch_size = 1024, co_maximum_batches = 64\<rparr>"

definition valid_projection_options :: "ContentProjectionOptions \<Rightarrow> bool" where
  "valid_projection_options opts \<longleftrightarrow>
     \<not> (co_batch_size opts = 0 \<or> 10000 < co_batch_size opts \<or> co_maximum_batches opts = 0 \<or> 1024 < co_maximum_batches opts)"

text \<open>The \<open>BTreeMap\<close> of a batch: the last mutation of each identity, in identity order.\<close>

definition coalesced :: "IndexMutation list \<Rightarrow> DocumentId \<Rightarrow> CatalogDocument option option" where
  "coalesced ms = foldl (\<lambda>m x. m(mutation_key x \<mapsto> mutation_entry x)) Map.empty ms"

definition coalesced_ids :: "IndexMutation list \<Rightarrow> DocumentId list" where
  "coalesced_ids ms = sort (remdups (map mutation_key ms))"

definition batch_upserts :: "IndexMutation list \<Rightarrow> CatalogDocument list" where
  "batch_upserts ms = List.map_filter (\<lambda>k. Option.bind (coalesced ms k) (\<lambda>v. v)) (coalesced_ids ms)"

definition batch_deletions :: "IndexMutation list \<Rightarrow> DocumentId list" where
  "batch_deletions ms = filter (\<lambda>k. coalesced ms k = Some None) (coalesced_ids ms)"

definition lift_graph :: "'a graph_result \<Rightarrow> 'a content_result" where
  "lift_graph r = (case r of Inl e \<Rightarrow> Inl (ContentGraph e) | Inr x \<Rightarrow> Inr x)"

text \<open>One pass of the loop: \<open>Inr None\<close> leaves it, \<open>Inr (Some \<dots>)\<close> has acknowledged a batch.\<close>

definition project_batch ::
  "('i, 'w) content_tantivy \<Rightarrow> graph_env \<Rightarrow> catalog_env \<Rightarrow> content_fs \<Rightarrow> ContentIndexPolicy \<Rightarrow> ContentProjectionOptions \<Rightarrow> string
     \<Rightarrow> MutationSeq \<Rightarrow> graph_db \<Rightarrow> 'i content_store
     \<Rightarrow> graph_db \<times> 'i content_store \<times> (MutationSeq \<times> nat \<times> ContentSyncSummary) option content_result" where
  "project_batch tv env cenv fs policy opts path after db store =
     (case read_outbox env db (Some after) (unat (co_batch_size opts)) of
        Inl e \<Rightarrow> (db, store, Inl (ContentGraph e))
      | Inr batch \<Rightarrow>
          if mb_mutations batch = [] then (db, store, Inr None)
          else (case batch_validate batch of
                  Inl _ \<Rightarrow> (db, store, Inl ContentIo)
                | Inr _ \<Rightarrow>
                    let ms = map sm_mutation (mb_mutations batch) in
                    (case apply_delta tv env cenv fs policy store path (batch_upserts ms) (batch_deletions ms) of
                       (store', Inl e) \<Rightarrow> (db, store', Inl e)
                     | (store', Inr summary) \<Rightarrow>
                         (case last_sequence batch of
                            None \<Rightarrow> (db, store', Inl MissingPayload)
                          | Some l \<Rightarrow>
                              (case acknowledge_projection db CONTENT_SCHEMA_ID l (cs_generation summary) of
                                 Inl e \<Rightarrow> (db, store', Inl (ContentGraph e))
                               | Inr db' \<Rightarrow> (db', store', Inr (Some (l, length (mb_mutations batch), summary))))))))"

fun project_loop ::
  "('i, 'w) content_tantivy \<Rightarrow> graph_env \<Rightarrow> catalog_env \<Rightarrow> content_fs \<Rightarrow> ContentIndexPolicy \<Rightarrow> ContentProjectionOptions \<Rightarrow> string
     \<Rightarrow> nat \<Rightarrow> MutationSeq \<Rightarrow> u64 \<Rightarrow> ContentSyncSummary list \<Rightarrow> graph_db \<Rightarrow> 'i content_store
     \<Rightarrow> graph_db \<times> 'i content_store \<times> (MutationSeq \<times> u64 \<times> ContentSyncSummary list) content_result" where
  "project_loop tv env cenv fs policy opts path 0 after moved commits db store = (db, store, Inr (after, moved, commits))"
| "project_loop tv env cenv fs policy opts path (Suc n) after moved commits db store =
     (case project_batch tv env cenv fs policy opts path after db store of
        (db', store', Inl e) \<Rightarrow> (db', store', Inl e)
      | (db', store', Inr None) \<Rightarrow> (db', store', Inr (after, moved, commits))
      | (db', store', Inr (Some (l, len, summary))) \<Rightarrow>
          project_loop tv env cenv fs policy opts path n l
            (saturating_add moved (if len < 2 ^ 64 then of_nat len else - 1)) (commits @ [summary]) db' store')"

definition project_at ::
  "('i, 'w) content_tantivy \<Rightarrow> graph_env \<Rightarrow> catalog_env \<Rightarrow> content_fs \<Rightarrow> ContentIndexPolicy \<Rightarrow> ContentProjectionOptions \<Rightarrow> u64
     \<Rightarrow> string \<Rightarrow> graph_db \<Rightarrow> 'i content_store
     \<Rightarrow> graph_db \<times> 'i content_store \<times> DurableContentProjectionSummary content_result" where
  "project_at tv env cenv fs policy opts start path db store =
     (case project_loop tv env cenv fs policy opts path (unat (co_maximum_batches opts)) (MutationSeq start) 0 [] db store of
        (db', store', Inl e) \<Rightarrow> (db', store', Inl e)
      | (db', store', Inr (after, moved, commits)) \<Rightarrow>
          (db', store', and_then (lift_graph (latest_outbox_sequence db')) (\<lambda>latest.
             Inr \<lparr>dp_start_sequence = start, dp_applied_sequence = seq_value after, dp_latest_sequence = seq_value latest,
                  dp_projected_mutations = moved, dp_backlog_remaining = (seq_value after < seq_value latest), dp_commits = commits\<rparr>)))"

definition content_backlog :: "graph_db \<Rightarrow> u64 content_result" where
  "content_backlog db =
     and_then (lift_graph (projector_checkpoint db CONTENT_SCHEMA_ID)) (\<lambda>found.
     and_then (ok_or found MissingPayload) (\<lambda>checkpoint.
     and_then (lift_graph (latest_outbox_sequence db)) (\<lambda>latest.
       Inr (saturating_sub (seq_value latest) (pr_last_sequence checkpoint)))))"

section \<open>Searching\<close>

text \<open>\<open>xe_is_whitespace\<close> is the Unicode property behind \<open>str::trim\<close>.\<close>

definition trim :: "(uchar \<Rightarrow> bool) \<Rightarrow> string \<Rightarrow> string" where
  "trim is_whitespace s = string_of (rev (dropWhile is_whitespace (rev (dropWhile is_whitespace (chars s)))))"

definition with_single_token_prefix ::
  "('i, 'w) content_tantivy \<Rightarrow> catalog_env \<Rightarrow> 'i \<Rightarrow> string \<Rightarrow> content_query content_result" where
  "with_single_token_prefix tv cenv i query =
     (if length (chars query) < MIN_CONTENT_PREFIX_CHARS \<or> \<not> (\<forall>c \<in> set (chars query). ce_is_alphanumeric cenv c \<or> c = 95)
      then Inr (ParsedQuery query)
      else and_then (ok_or (xt_tokens tv i query) ContentTantivy) (\<lambda>tokens.
             Inr (case tokens of [token] \<Rightarrow> ParsedOrPrefix query token | _ \<Rightarrow> ParsedQuery query)))"

definition bounded_unscored :: "('i, 'w) content_tantivy \<Rightarrow> 'i \<Rightarrow> content_query \<Rightarrow> nat \<Rightarrow> ContentEntry list content_result" where
  "bounded_unscored tv i query limit = and_then (ok_or (xt_matches tv i query) ContentTantivy) (\<lambda>es. Inr (take limit es))"

definition content_search ::
  "('i, 'w) content_tantivy \<Rightarrow> catalog_env \<Rightarrow> (uchar \<Rightarrow> bool) \<Rightarrow> 'i \<Rightarrow> string \<Rightarrow> nat \<Rightarrow> CatalogDocument list content_result" where
  "content_search tv cenv is_whitespace i query limit =
     (let q = trim is_whitespace query in
      if q = [] \<or> 1024 < length q \<or> \<not> (1 \<le> limit \<and> limit \<le> 100) then Inl ContentQuery
      else if \<not> xt_parses tv i q then Inl ContentQuery
      else and_then (with_single_token_prefix tv cenv i q) (\<lambda>parsed.
           and_then (bounded_unscored tv i parsed limit) (\<lambda>es.
             fold_r (\<lambda>hits e. and_then (stored_content cenv True e) (\<lambda>s. Inr (hits @ [sc_document s]))) [] es)))"

section \<open>Projection keeps content in step\<close>

lemma coalesced_last:
  "coalesced ms k = (case filter (\<lambda>m. mutation_key m = k) ms of [] \<Rightarrow> None | ns \<Rightarrow> Some (mutation_entry (last ns)))"
proof -
  have "foldl (\<lambda>m x. m(mutation_key x \<mapsto> mutation_entry x)) m0 ms k
      = (case filter (\<lambda>m. mutation_key m = k) ms of [] \<Rightarrow> m0 k | ns \<Rightarrow> Some (mutation_entry (last ns)))" for m0
    by (induction ms arbitrary: m0) (auto split: list.splits)
  then show ?thesis by (simp add: coalesced_def)
qed

lemma replay_coalesced: "replay idx ms k = (case coalesced ms k of None \<Rightarrow> idx k | Some v \<Rightarrow> v)"
  by (simp add: replay_apply coalesced_last split: list.splits)

lemma coalesced_Some_key:
  assumes "coalesced ms k = Some (Some d)"
  shows "docid d = k"
proof -
  define ns where "ns = filter (\<lambda>m. mutation_key m = k) ms"
  have "ns \<noteq> []" "mutation_entry (last ns) = Some d" using assms by (auto simp: coalesced_last ns_def split: list.splits)
  moreover from this(1) have "last ns \<in> set ns" by simp
  then have "mutation_key (last ns) = k" by (simp add: ns_def)
  ultimately show ?thesis by (cases "last ns") simp_all
qed

lemma coalesced_ids_iff: "k \<in> set (coalesced_ids ms) \<longleftrightarrow> coalesced ms k \<noteq> None"
proof -
  have "coalesced ms k \<noteq> None \<longleftrightarrow> filter (\<lambda>m. mutation_key m = k) ms \<noteq> []" by (simp add: coalesced_last split: list.splits)
  then show ?thesis by (auto simp: coalesced_ids_def filter_empty_conv)
qed

lemma in_map_filter: "y \<in> set (List.map_filter f xs) \<longleftrightarrow> (\<exists>x \<in> set xs. f x = Some y)"
  by (induction xs) (auto simp: List.map_filter_simps split: option.splits)

lemma batch_deletions_iff: "k \<in> set (batch_deletions ms) \<longleftrightarrow> coalesced ms k = Some None"
  using coalesced_ids_iff by (auto simp: batch_deletions_def)

lemma batch_upserts_iff: "d \<in> set (batch_upserts ms) \<longleftrightarrow> coalesced ms (docid d) = Some (Some d)"
proof -
  have "d \<in> set (batch_upserts ms) \<longleftrightarrow> (\<exists>k. k \<in> set (coalesced_ids ms) \<and> coalesced ms k = Some (Some d))"
    by (auto simp: batch_upserts_def in_map_filter bind_eq_Some_conv)
  then show ?thesis using coalesced_ids_iff coalesced_Some_key by (metis option.distinct(1))
qed

text \<open>The content index lags behind desired state by its own unread rows: an entry exists only for a document of the
  index state that those rows carry to desired state.\<close>

definition content_lags :: "('i, 'w) content_tantivy \<Rightarrow> graph_env \<Rightarrow> catalog_env \<Rightarrow> graph_db \<Rightarrow> 'i \<Rightarrow> bool" where
  "content_lags tv env cenv db i \<longleftrightarrow> content_ok cenv (xt_documents tv i)
     \<and> (\<forall>row. find_consumer db CONTENT_SCHEMA_ID = Some row \<longrightarrow>
        (\<exists>idx ms. {k. entry_map (xt_documents tv i) k \<noteq> None} \<subseteq> {k. idx k \<noteq> None}
        \<and> map (env_mutation_from_json env \<circ> ob_mutation_json)
            (filter (\<lambda>r. c_last_sequence row < ob_sequence r) (graph_projection_outbox db)) = map Some ms
        \<and> index_agrees env (replay idx ms) db))"

definition content_ready ::
  "('i, 'w) content_tantivy \<Rightarrow> graph_env \<Rightarrow> catalog_env \<Rightarrow> string \<Rightarrow> graph_db \<Rightarrow> 'i content_store \<Rightarrow> bool" where
  "content_ready tv env cenv path db store \<longleftrightarrow> graph_ok db \<and> (\<exists>i. open_index tv store path = Inr i \<and> content_lags tv env cenv db i)"

lemma sync_effect_domain: "sync_effect env cenv fs policy h d prior \<noteq> None \<Longrightarrow> \<exists>p. prepare_source env fs policy d = Inr p"
  by (auto simp: sync_effect_def split: sum.splits)

lemma delta_domain:
  assumes "{k. m k \<noteq> None} \<subseteq> {k. idx k \<noteq> None}"
  shows "{k. delta_effect env cenv fs policy h (batch_upserts ms) (batch_deletions ms) m k \<noteq> None} \<subseteq> {k. replay idx ms k \<noteq> None}"
proof
  fix k
  assume "k \<in> {k. delta_effect env cenv fs policy h (batch_upserts ms) (batch_deletions ms) m k \<noteq> None}"
  then have e: "delta_effect env cenv fs policy h (batch_upserts ms) (batch_deletions ms) m k \<noteq> None" by simp
  then have k: "coalesced ms k \<noteq> Some None" using batch_deletions_iff by (auto simp: delta_effect_def split: if_splits)
  show "k \<in> {k. replay idx ms k \<noteq> None}"
  proof (cases "coalesced ms k")
    case None
    then have "upsert_of (batch_upserts ms) k = None" using batch_upserts_iff by (auto simp: upsert_of_None)
    then have "m k \<noteq> None" using e by (simp add: delta_effect_def split: if_splits)
    then show ?thesis using assms None by (auto simp: replay_coalesced)
  qed (use k in \<open>simp add: replay_coalesced\<close>)
qed

lemma project_batch_ready:
  assumes laws: "content_laws tv" "document_json_round_trip cenv" and ready: "content_ready tv env cenv path db store"
    and cursor: "find_consumer db CONTENT_SCHEMA_ID = Some row" "after = MutationSeq (word_of_int (c_last_sequence row))"
    and run: "project_batch tv env cenv fs policy opts path after db store = (db', store', r)"
  shows "content_ready tv env cenv path db' store' \<and> same_but_consumers db db'
    \<and> find_consumer db' CATALOG_SCHEMA_ID = find_consumer db CATALOG_SCHEMA_ID
    \<and> (case r of Inr (Some (l, _, _)) \<Rightarrow> (\<exists>row'. find_consumer db' CONTENT_SCHEMA_ID = Some row' \<and> l = MutationSeq (word_of_int (c_last_sequence row')))
       | _ \<Rightarrow> db' = db)"
proof -
  obtain i idx ms where ok: "graph_ok db" and i: "open_index tv store path = Inr i" "content_ok cenv (xt_documents tv i)"
    and dom: "{k. entry_map (xt_documents tv i) k \<noteq> None} \<subseteq> {k. idx k \<noteq> None}"
    and ms: "map (env_mutation_from_json env \<circ> ob_mutation_json)
            (filter (\<lambda>r. c_last_sequence row < ob_sequence r) (graph_projection_outbox db)) = map Some ms"
    and agrees: "index_agrees env (replay idx ms) db"
    using ready cursor(1) unfolding content_ready_def content_lags_def by auto
  have lags: "content_lags tv env cenv db j" if "content_ok cenv (xt_documents tv j)"
      "{k. entry_map (xt_documents tv j) k \<noteq> None} \<subseteq> {k. replay idx ns k \<noteq> None}" "ms = ns @ rest" for j ns rest
  proof -
    have "replay (replay idx ns) ms = replay idx ms" using that(3) by simp
    then have "index_agrees env (replay (replay idx ns) ms) db" using agrees by simp
    then have "row' = row \<Longrightarrow> \<exists>idx ms. {k. entry_map (xt_documents tv j) k \<noteq> None} \<subseteq> {k. idx k \<noteq> None}
        \<and> map (env_mutation_from_json env \<circ> ob_mutation_json)
            (filter (\<lambda>r. c_last_sequence row' < ob_sequence r) (graph_projection_outbox db)) = map Some ms
        \<and> index_agrees env (replay idx ms) db" for row'
      using that(2) ms by blast
    then show ?thesis unfolding content_lags_def using that(1) cursor(1) by simp
  qed
  show ?thesis
  proof (cases "\<exists>b e. read_outbox env db (Some after) (unat (co_batch_size opts)) = Inr b \<and> mb_mutations b \<noteq> [] \<and> batch_validate b = Inr e")
    case False
    then have "db' = db" "store' = store" "isl r \<or> r = Inr None" using run by (auto simp: project_batch_def split: sum.splits if_splits)
    then show ?thesis using ready by (auto split: sum.splits)
  next
    case True
    then obtain b where b: "read_outbox env db (Some after) (unat (co_batch_size opts)) = Inr b" "mb_mutations b \<noteq> []" "batch_validate b = Inr ()"
      by auto
    let ?ns = "map sm_mutation (mb_mutations b)"
    obtain rest s where rest: "ms = ?ns @ rest" "sm_sequence (last (mb_mutations b)) = MutationSeq s"
        "map (env_mutation_from_json env \<circ> ob_mutation_json)
           (filter (\<lambda>r. uint s < ob_sequence r) (graph_projection_outbox db)) = map Some rest"
      by (rule outbox_page [OF ok cursor(1) b(1) [unfolded cursor(2)] b(2) ms])
    obtain store1 x where d: "apply_delta tv env cenv fs policy store path (batch_upserts ?ns) (batch_deletions ?ns) = (store1, x)" by fastforce
    have store': "store' = store1"
      using run b d by (auto simp: project_batch_def Let_def split: sum.splits option.splits)
    from delta_outcome [OF laws i d] obtain j where j: "open_index tv store1 path = Inr j" "content_ok cenv (xt_documents tv j)"
        "{k. entry_map (xt_documents tv j) k \<noteq> None} \<subseteq> {k. replay idx ?ns k \<noteq> None} \<or> (isl x \<and> j = i)"
      using delta_domain [OF dom] i by auto
    show ?thesis
    proof (cases "\<exists>summary. x = Inr summary \<and> acknowledge_projection db CONTENT_SCHEMA_ID (MutationSeq s) (cs_generation summary) = Inr db'")
      case False
      then have r: "db' = db" "isl r"
        using run b d rest(2) by (auto simp: project_batch_def Let_def last_sequence_def split: sum.splits option.splits)
      have "content_lags tv env cenv db j"
        using j lags [OF j(2) _ rest(1)] lags [OF i(2) _ append_Nil [symmetric]] dom by auto
      then show ?thesis using r ok j(1) store' by (auto simp: content_ready_def split: sum.splits)
    next
      case True
      then obtain summary where x: "x = Inr summary" "acknowledge_projection db CONTENT_SCHEMA_ID (MutationSeq s) (cs_generation summary) = Inr db'" by blast
      note same = acknowledge_same [OF x(2)]
      note after = acknowledge_projection_ok [OF ok same(2) x(2)]
      have r: "r = Inr (Some (MutationSeq s, length (mb_mutations b), summary))"
        using run b d x rest(2) by (auto simp: project_batch_def Let_def last_sequence_def)
      have "content_lags tv env cenv db' j"
        unfolding content_lags_def
        using after(2) [of CONTENT_SCHEMA_ID] j x(1) rest(1,3) agrees
          same_but_consumers_reads(3) [OF same(1)] same_but_consumers_reads(5) [OF same(1)]
        by (intro conjI allI impI exI [of _ "replay idx ?ns"] exI [of _ rest]) (simp_all del: map_map)
      moreover have "find_consumer db' CATALOG_SCHEMA_ID = find_consumer db CATALOG_SCHEMA_ID"
        by (rule acknowledge_other_row [OF x(2)]) (simp add: CATALOG_SCHEMA_ID_def CONTENT_SCHEMA_ID_def)
      ultimately show ?thesis
        using r after(1) after(2) [of CONTENT_SCHEMA_ID] j(1) store' same(1) by (simp add: content_ready_def)
    qed
  qed
qed

lemma unread_empty:
  assumes "graph_ok db" "high_water db \<le> n"
  shows "filter (\<lambda>r. n < ob_sequence r) (graph_projection_outbox db) = []"
  using assms by (auto simp: graph_ok_def store_ok_def outbox_ok_def filter_empty_conv not_less)

lemma project_loop_ready:
  assumes laws: "content_laws tv" "document_json_round_trip cenv"
    and "content_ready tv env cenv path db store"
    and "find_consumer db CONTENT_SCHEMA_ID = Some row" "after = MutationSeq (word_of_int (c_last_sequence row))"
    and "project_loop tv env cenv fs policy opts path n after moved commits db store = (db', store', r)"
  shows "content_ready tv env cenv path db' store' \<and> same_but_consumers db db'
    \<and> find_consumer db' CATALOG_SCHEMA_ID = find_consumer db CATALOG_SCHEMA_ID
    \<and> (case r of Inr (l, _, _) \<Rightarrow> (\<exists>row'. find_consumer db' CONTENT_SCHEMA_ID = Some row' \<and> l = MutationSeq (word_of_int (c_last_sequence row')))
       | Inl _ \<Rightarrow> True)"
  using assms(3-6)
proof (induction n arbitrary: after moved commits db store row)
  case 0
  then show ?case by auto
next
  case (Suc n)
  obtain db1 store1 x where b: "project_batch tv env cenv fs policy opts path after db store = (db1, store1, x)" by (metis prod_cases3)
  note ready = project_batch_ready [OF laws Suc.prems(1-3) b]
  consider "(db', store') = (db1, store1)" "isl r \<or> (x = Inr None \<and> (\<exists>m c. r = Inr (after, m, c)))"
    | l m s where "x = Inr (Some (l, m, s))"
        "project_loop tv env cenv fs policy opts path n l (saturating_add moved (if m < 2 ^ 64 then of_nat m else - 1)) (commits @ [s]) db1 store1 = (db', store', r)"
    using Suc.prems(4) b by (auto split: sum.splits option.splits)
  then show ?case
  proof cases
    case 1
    then show ?thesis using ready Suc.prems(2,3) by (auto split: sum.splits)
  next
    case 2
    then obtain row' where row': "find_consumer db1 CONTENT_SCHEMA_ID = Some row'" "l = MutationSeq (word_of_int (c_last_sequence row'))"
      using ready by auto
    note ih = Suc.IH [OF _ row' 2(2)]
    show ?thesis using ih ready same_but_consumers_trans [of db db1 db'] by auto
  qed
qed

text \<open>Content projection loses nothing and leaves nothing behind. Started on a content index that lags by its unread
  rows, a pass keeps the graph well formed, changes nothing of it but the content consumer's row, keeps the
  catalog consistent, and leaves the content index lagging by exactly its unread rows, whatever fails on the
  way; and when the pass reports no backlog, every indexed text belongs to a document that desired
  state holds.\<close>

theorem content_projection_in_step:
  assumes "content_laws tv" "document_json_round_trip cenv" "content_ready tv env cenv path db store"
    and "find_consumer db CONTENT_SCHEMA_ID = Some row"
    and "project_at tv env cenv fs policy opts (word_of_int (c_last_sequence row)) path db store = (db', store', r)"
  shows "content_ready tv env cenv path db' store' \<and> same_but_consumers db db'
    \<and> (catalog_consistent ctv env cenv db root \<longrightarrow> catalog_consistent ctv env cenv db' root)
    \<and> (\<forall>summary i. r = Inr summary \<and> \<not> dp_backlog_remaining summary \<and> open_index tv store' path = Inr i
         \<longrightarrow> {k. entry_map (xt_documents tv i) k \<noteq> None} \<subseteq> {k. projected env db' k \<noteq> None})"
proof -
  obtain x where loop: "project_loop tv env cenv fs policy opts path (unat (co_maximum_batches opts)) (MutationSeq (word_of_int (c_last_sequence row))) 0 [] db store
      = (db', store', x)"
    using assms(5) by (auto simp: project_at_def split: prod.splits sum.splits)
  note ready = project_loop_ready [OF assms(1-4) refl loop]
  have ok: "graph_ok db" "graph_ok db'" using assms(3) ready by (simp_all add: content_ready_def)
  have cat: "catalog_consistent ctv env cenv db' root" if "catalog_consistent ctv env cenv db root"
    by (rule follows_consistent [OF ok(1) consumers_follow [OF ok(1) _ ok(2)] that]) (use ready in auto)
  have caught: "{k. entry_map (xt_documents tv i) k \<noteq> None} \<subseteq> {k. projected env db' k \<noteq> None}"
    if s: "r = Inr summary" "\<not> dp_backlog_remaining summary" "open_index tv store' path = Inr i" for summary i
  proof -
    obtain l row' where row': "find_consumer db' CONTENT_SCHEMA_ID = Some row'" "l = MutationSeq (word_of_int (c_last_sequence row'))"
        "dp_backlog_remaining summary = (seq_value l < word_of_int (high_water db'))"
      using s(1) assms(5) loop ready
      by (auto simp: project_at_def lift_graph_def latest_outbox_sequence_ok [OF ok(2)] split: sum.splits)
    then have hw: "high_water db' \<le> c_last_sequence row'"
      using s(2) consumer_bounds [OF ok(2) row'(1)] by (simp add: word_less_def uint_word_of_i64)
    obtain idx ms where idx: "{k. entry_map (xt_documents tv i) k \<noteq> None} \<subseteq> {k. idx k \<noteq> None}"
        "map (env_mutation_from_json env \<circ> ob_mutation_json)
            (filter (\<lambda>r. c_last_sequence row' < ob_sequence r) (graph_projection_outbox db')) = map Some ms"
        "index_agrees env (replay idx ms) db'"
      using ready s(3) row'(1) by (auto simp: content_ready_def content_lags_def)
    have "ms = []" using idx(2) unread_empty [OF ok(2) hw] by simp
    then have "map_option (fp_of env) (idx k) = projected env db' k" for k using idx(3) by (simp add: index_agrees_def)
    then have "idx k \<noteq> None \<longrightarrow> projected env db' k \<noteq> None" for k by (metis option.map_disc_iff)
    then show ?thesis using idx(1) by blast
  qed
  show ?thesis using ready cat caught by blast
qed

section \<open>Graph, catalog and content together\<close>

lemma follows_content:
  assumes "follows env CONTENT_SCHEMA_ID db db'" "content_ready tv env cenv path db store"
  shows "content_ready tv env cenv path db' store"
proof -
  obtain i where i: "open_index tv store path = Inr i" "content_ok cenv (xt_documents tv i)" "content_lags tv env cenv db i"
    using assms(2) by (auto simp: content_ready_def content_lags_def)
  have "\<exists>idx ms. {k. entry_map (xt_documents tv i) k \<noteq> None} \<subseteq> {k. idx k \<noteq> None}
      \<and> map (env_mutation_from_json env \<circ> ob_mutation_json)
          (filter (\<lambda>r. c_last_sequence row < ob_sequence r) (graph_projection_outbox db')) = map Some ms
      \<and> index_agrees env (replay idx ms) db'" if row: "find_consumer db' CONTENT_SCHEMA_ID = Some row" for row
  proof -
    obtain rows ms where before: "find_consumer db CONTENT_SCHEMA_ID = Some row"
      and rows: "filter (\<lambda>r. c_last_sequence row < ob_sequence r) (graph_projection_outbox db')
            = filter (\<lambda>r. c_last_sequence row < ob_sequence r) (graph_projection_outbox db) @ rows"
        "map (env_mutation_from_json env \<circ> ob_mutation_json) rows = map Some ms"
        "\<forall>idx. index_agrees env idx db \<longrightarrow> index_agrees env (replay idx ms) db'"
      using assms(1) row unfolding follows_def by blast
    obtain idx ns where idx: "{k. entry_map (xt_documents tv i) k \<noteq> None} \<subseteq> {k. idx k \<noteq> None}"
        "map (env_mutation_from_json env \<circ> ob_mutation_json)
           (filter (\<lambda>r. c_last_sequence row < ob_sequence r) (graph_projection_outbox db)) = map Some ns"
        "index_agrees env (replay idx ns) db"
      using i(3) before unfolding content_lags_def by blast
    show ?thesis by (intro exI [of _ idx] exI [of _ "ns @ ms"]) (use idx rows in \<open>simp del: map_map\<close>)
  qed
  then have "content_lags tv env cenv db' i" unfolding content_lags_def using i(2) by blast
  then show ?thesis using i(1) assms(1) by (auto simp: content_ready_def follows_def)
qed

text \<open>The pipeline with the content consumer beside the catalog's: a graph operation or catalog run that does not move
  the content consumer (resetting it is allowed), or a content projection pass from its checkpoint.\<close>

inductive content_step ::
    "('i, 'w) tantivy \<Rightarrow> ('c, 'v) content_tantivy \<Rightarrow> graph_env \<Rightarrow> catalog_env \<Rightarrow> string
     \<Rightarrow> graph_db \<times> 'i catalog_root \<times> 'c content_store \<Rightarrow> graph_db \<times> 'i catalog_root \<times> 'c content_store \<Rightarrow> bool"
  for ctv tv env cenv path where
  catalog_side: "pipeline_step ctv env cenv (db, root) (db', root') \<Longrightarrow>
    find_consumer db' CONTENT_SCHEMA_ID = None \<or> find_consumer db' CONTENT_SCHEMA_ID = find_consumer db CONTENT_SCHEMA_ID \<Longrightarrow>
    content_step ctv tv env cenv path (db, root, store) (db', root', store)"
| content_pass: "find_consumer db CONTENT_SCHEMA_ID = Some row \<Longrightarrow>
    project_at tv env cenv fs policy opts (word_of_int (c_last_sequence row)) path db store = (db', store', r) \<Longrightarrow>
    content_step ctv tv env cenv path (db, root, store) (db', root, store')"

definition in_step_together ::
    "('i, 'w) tantivy \<Rightarrow> ('c, 'v) content_tantivy \<Rightarrow> graph_env \<Rightarrow> catalog_env \<Rightarrow> string
     \<Rightarrow> graph_db \<times> 'i catalog_root \<times> 'c content_store \<Rightarrow> bool" where
  "in_step_together ctv tv env cenv path state = (case state of (db, root, store) \<Rightarrow>
     graph_ok db \<and> catalog_consistent ctv env cenv db root \<and> content_ready tv env cenv path db store)"

lemma project_at_ready:
  assumes "content_laws tv" "document_json_round_trip cenv" "content_ready tv env cenv path db store"
    and "find_consumer db CONTENT_SCHEMA_ID = Some row"
    and "project_at tv env cenv fs policy opts (word_of_int (c_last_sequence row)) path db store = (db', store', r)"
  shows "content_ready tv env cenv path db' store' \<and> same_but_consumers db db'
    \<and> find_consumer db' CATALOG_SCHEMA_ID = find_consumer db CATALOG_SCHEMA_ID"
proof -
  obtain x where loop: "project_loop tv env cenv fs policy opts path (unat (co_maximum_batches opts)) (MutationSeq (word_of_int (c_last_sequence row))) 0 [] db store
      = (db', store', x)"
    using assms(5) by (auto simp: project_at_def split: prod.splits sum.splits)
  show ?thesis using project_loop_ready [OF assms(1-4) refl loop] by blast
qed

lemma content_step_keeps:
  assumes "tantivy_laws ctv" "content_laws tv" "json_round_trip env" "document_json_round_trip cenv"
    and "content_step ctv tv env cenv path s s'" "in_step_together ctv tv env cenv path s"
  shows "in_step_together ctv tv env cenv path s'"
  using assms(5,6)
proof (induction rule: content_step.induct)
  case (catalog_side db root db' root' store)
  then have ok: "graph_ok db" "catalog_consistent ctv env cenv db root" "content_ready tv env cenv path db store"
    by (simp_all add: in_step_together_def)
  show ?case
    using pipeline_step_keeps [OF assms(1,3) ok(1,2) catalog_side(1)]
      follows_content [OF pipeline_step_follows [OF assms(1,3) ok(1,2) catalog_side(1,2)] ok(3)]
    by (simp add: in_step_together_def)
next
  case (content_pass db row fs policy opts store db' store' r root)
  then have ok: "graph_ok db" "catalog_consistent ctv env cenv db root" "content_ready tv env cenv path db store"
    by (simp_all add: in_step_together_def)
  note ready = project_at_ready [OF assms(2,4) ok(3) content_pass(1,2)]
  then have ok': "graph_ok db'" by (simp add: content_ready_def)
  have "catalog_consistent ctv env cenv db' root"
    by (rule follows_consistent [OF ok(1) consumers_follow [OF ok(1) _ ok'] ok(2)]) (use ready in auto)
  then show ?case using ready ok' by (simp add: in_step_together_def)
qed


section \<open>A concrete content index\<close>

definition list_content :: "(ContentEntry list, ContentEntry list) content_tantivy" where
  "list_content = \<lparr>xt_create = Some [], xt_writer = Some, xt_delete_term = (\<lambda>w t. filter (\<lambda>e. xd_document_id e \<noteq> t) w),
     xt_add_document = (\<lambda>w e. Some (e # w)), xt_commit = (\<lambda>w. Some (w, 1)), xt_wait_merging_threads = (\<lambda>_. True),
     xt_has_hash = (\<lambda>_. True), xt_first = (\<lambda>i t. Some (find (\<lambda>e. xd_document_id e = t) i)), xt_parses = (\<lambda>_ _. True),
     xt_tokens = (\<lambda>_ q. Some [q]), xt_matches = (\<lambda>i _. Some i), xt_documents = id, xt_pending = id\<rparr>"

lemma list_content_laws: "content_laws list_content"
  by (auto simp: content_laws_def list_content_def find_None_iff find_Some_iff)

definition sample_fs :: content_fs where
  "sample_fs = \<lparr>cfs_canonicalize = (\<lambda>p. Some [''docs'', ''a.txt'']), cfs_is_dir = (\<lambda>_. True),
     cfs_metadata = (\<lambda>_. Some (True, 2)), cfs_read = (\<lambda>_. Some [104, 105])\<rparr>"

definition sample_policy :: ContentIndexPolicy where
  "sample_policy = projr (policy_new sample_fs [''docs''] DEFAULT_MAX_FILE_BYTES)"

definition empty_content :: "ContentEntry list content_store" where
  "empty_content = [''content'' \<mapsto> \<lparr>cd_marker = Some CONTENT_SCHEMA_ID, cd_index = Some []\<rparr>]"

abbreviation (input) apply_sample :: "ContentEntry list content_store \<Rightarrow> ContentEntry list content_store \<times> ContentSyncSummary content_result" where
  "apply_sample store \<equiv> apply_delta list_content (sample_env []) one_document_env sample_fs sample_policy store ''content'' [sample_document] []"

definition sample_content_entry :: ContentEntry where
  "sample_content_entry = \<lparr>xd_document_id = content_key (docid sample_document), xd_payload = [], xd_content = ''hi'', xd_content_hash = Some ''6869''\<rparr>"

definition sample_content :: "ContentEntry list content_store" where
  "sample_content = [''content'' \<mapsto> \<lparr>cd_marker = Some CONTENT_SCHEMA_ID, cd_index = Some [sample_content_entry]\<rparr>]"

lemma sample_policy_value: "sample_policy = \<lparr>pol_roots = [[''docs'', ''a.txt'']], pol_extensions = set TEXT_EXTENSIONS, pol_max_file_bytes = 1048576\<rparr>"
  by (simp add: sample_policy_def policy_new_def sample_fs_def DEFAULT_MAX_FILE_BYTES_def MAX_CONFIGURED_FILE_BYTES_def)

lemma sample_extracted:
  "prepare_source (sample_env []) sample_fs sample_policy sample_document = Inr \<lparr>src_canonical = [''docs'', ''a.txt''], src_length = 2\<rparr>"
  "read_text sample_fs sample_policy \<lparr>src_canonical = [''docs'', ''a.txt''], src_length = 2\<rparr> = Inr ''hi''"
  "content_hash (sample_env []) ''hi'' = ''6869''"
proof -
  show "prepare_source (sample_env []) sample_fs sample_policy sample_document = Inr \<lparr>src_canonical = [''docs'', ''a.txt''], src_length = 2\<rparr>"
    by (simp add: prepare_source_def sample_policy_value sample_fs_def sample_document_def sample_object_def has_allowed_extension_def
        sample_env_def TEXT_EXTENSIONS_def)
  have "char_of (104 :: nat) = CHR ''h''" "char_of (105 :: nat) = CHR ''i''" by code_simp+
  then have "from_utf8 [104, 105] = Some ''hi''"
    by (simp add: from_utf8_def Let_def is_scalar_def is_surrogate_def utf8_encode_def)
  then show "read_text sample_fs sample_policy \<lparr>src_canonical = [''docs'', ''a.txt''], src_length = 2\<rparr> = Inr ''hi''"
    by (simp add: read_text_def sample_policy_value sample_fs_def saturating_add_def)
  show "content_hash (sample_env []) ''hi'' = ''6869''" by code_simp
qed

lemma sample_content_ok: "content_ok one_document_env []" "content_ok one_document_env [sample_content_entry]"
  by (simp_all add: content_ok_def sample_content_entry_def one_document_env_def sample_catalog_env_def)

lemma sample_stored:
  "stored_document list_content one_document_env [] k = Inr None"
  "stored_document list_content one_document_env [sample_content_entry] (docid sample_document)
     = Inr (Some \<lparr>sc_document = sample_document, sc_content_hash = Some ''6869''\<rparr>)"
  by (simp_all add: stored_document_def stored_content_def list_content_def sample_content_entry_def one_document_env_def sample_catalog_env_def)

lemma sample_applied:
  "\<exists>s. apply_sample empty_content = (sample_content, Inr s)" "\<exists>s. apply_sample sample_content = (sample_content, Inr s)"
proof -
  have tv: "xt_writer list_content i = Some i" "xt_commit list_content i = Some (i, 1)" "xt_wait_merging_threads list_content i"
      "xt_has_hash list_content i" "xt_add_document list_content i e = Some (e # i)" "delete_document list_content [] k = []" for i e k
    by (simp_all add: list_content_def delete_document_def)
  have entry: "content_entry one_document_env True sample_document ''hi'' ''6869'' = Inr sample_content_entry"
    by (simp add: content_entry_def sample_content_entry_def one_document_env_def sample_catalog_env_def)
  show "\<exists>s. apply_sample empty_content = (sample_content, Inr s)"
    by (simp add: apply_delta_def publish_sync_def content_commit_def open_index_def empty_content_def sample_content_def tv
        sample_stored sync_document_def sample_extracted entry Let_def)
  show "\<exists>s. apply_sample sample_content = (sample_content, Inr s)"
    by (simp add: apply_delta_def publish_sync_def content_commit_def open_index_def sample_content_def tv
        sample_stored sync_document_def sample_extracted Let_def)
qed

lemma sample_opened:
  "open_index list_content empty_content ''content'' = Inr []"
  "open_index list_content sample_content ''content'' = Inr [sample_content_entry]"
  by (simp_all add: open_index_def empty_content_def sample_content_def)

lemma list_content_view [simp]: "xt_documents list_content i = i" "xt_has_hash list_content i"
  by (simp_all add: list_content_def)

lemma one_document_round_trip: "document_json_round_trip one_document_env"
  by (simp add: one_document_env_def sample_catalog_round_trip)

theorem apply_delta_idempotent_witness:
  "\<exists>i. open_index list_content (fst (apply_sample (fst (apply_sample empty_content)))) ''content'' = Inr i
     \<and> entry_map i = entry_map [sample_content_entry]"
proof -
  obtain s1 s2 where s: "apply_sample empty_content = (sample_content, Inr s1)" "apply_sample sample_content = (sample_content, Inr s2)"
    using sample_applied by blast
  have start: "content_ok one_document_env (xt_documents list_content [])" using sample_content_ok by simp
  from apply_delta_idempotent [OF list_content_laws one_document_round_trip sample_opened(1) start s(1) sample_opened(2) _ s(2) sample_opened(2)]
  show ?thesis using s sample_opened(2) by simp
qed


theorem sync_is_delta_witness:
  "sync list_content (sample_env []) one_document_env sample_fs sample_policy sample_content ''content'' []
     = apply_delta list_content (sample_env []) one_document_env sample_fs sample_policy sample_content ''content'' [] [docid sample_document]"
proof -
  have "content_ok one_document_env (xt_documents list_content [sample_content_entry])" using sample_content_ok by simp
  moreover have "xt_first list_content [sample_content_entry] (content_key k) \<noteq> None" for k by (simp add: list_content_def)
  moreover have "stored_table list_content one_document_env [sample_content_entry]
      = [(docid sample_document, \<lparr>sc_document = sample_document, sc_content_hash = Some ''6869''\<rparr>)]"
    by (simp add: stored_table_def entry_document_def stored_of_def sample_content_entry_def one_document_env_def sample_catalog_env_def)
  ultimately show ?thesis using sync_is_delta [OF list_content_laws sample_opened(2)] by simp
qed

definition content_registered :: graph_db where
  "content_registered = empty_db\<lparr>graph_projection_consumers := [\<lparr>c_consumer_id = CONTENT_SCHEMA_ID, c_last_sequence = 0, c_index_generation = 1\<rparr>]\<rparr>"

lemma content_registered_ready: "content_ready list_content (sample_env []) one_document_env ''content'' content_registered empty_content"
proof -
  have "acknowledge_projection empty_db CONTENT_SCHEMA_ID (MutationSeq 0) 1 = Inr content_registered" by code_simp
  from acknowledge_projection_ok(1) [OF graph_ok_empty acknowledge_same(2) [OF this] this] have "graph_ok content_registered" .
  moreover have "content_lags list_content (sample_env []) one_document_env content_registered []"
    unfolding content_lags_def
    using sample_content_ok(1)
    by (auto simp: content_registered_def tbl_find_def empty_db_def entry_map_def index_agrees_def projected_def intro!: exI [of _ "\<lambda>_. None"])
  ultimately show ?thesis using sample_opened(1) by (simp add: content_ready_def)
qed

theorem content_projection_in_step_witness:
  "case project_at list_content (sample_env []) one_document_env sample_fs sample_policy default_projection_options 0 ''content''
       content_registered empty_content of
     (db', store', r) \<Rightarrow> content_ready list_content (sample_env []) one_document_env ''content'' db' store'
       \<and> same_but_consumers content_registered db'"
proof -
  obtain db' store' r where p: "project_at list_content (sample_env []) one_document_env sample_fs sample_policy default_projection_options 0 ''content''
       content_registered empty_content = (db', store', r)" by (metis prod_cases3)
  have "find_consumer content_registered CONTENT_SCHEMA_ID = Some \<lparr>c_consumer_id = CONTENT_SCHEMA_ID, c_last_sequence = 0, c_index_generation = 1\<rparr>"
    by (simp add: content_registered_def tbl_find_def)
  from content_projection_in_step [OF list_content_laws one_document_round_trip content_registered_ready this, unfolded consumer_row.simps word_of_int_0, OF p]
  show ?thesis unfolding p prod.case by blast
qed


end
