(* ===== verification/Content_Store.thy ===== *)
theory Content_Store
  imports Content_Index
begin

text \<open>Durable JSON values of the content index (\<^verbatim>\<open>src/crates/content-index/src/lib.rs\<close>): every value is
  written to one of two slots, alternating, inside an envelope with a sequence number and a checksum, and read from
  the newest slot that is intact.

  A \<open>durable_file\<close> holds the bytes of the file and of its two slots; \<open>slot_write\<close> is what the file system
  makes of one write, a torn slot included; \<open>serde_json\<close> is the parameters \<open>json_env\<close> and \<open>value_codec\<close>.
  Shown: a write that fails at any point leaves the previous value readable, or has already replaced it,
  and a write that succeeds replaces it.\<close>

section \<open>Envelopes\<close>

definition GENERATION_MANAGER_VERSION :: u32 where "GENERATION_MANAGER_VERSION = 1"

record 'v DurableJsonEnvelope =
  de_version :: u32
  de_sequence :: u64
  de_checksum :: u64
  de_payload :: 'v

text \<open>\<open>serde_json\<close>: \<open>'v\<close> stands for \<open>Value\<close>; a \<open>value_codec\<close> is the serialisation of one Rust type.\<close>

record 'v json_env =
  je_value_to_vec :: "'v \<Rightarrow> bytes option"
  je_envelope_to_vec :: "'v DurableJsonEnvelope \<Rightarrow> bytes option"
  je_envelope_from_slice :: "bytes \<Rightarrow> 'v DurableJsonEnvelope option"

record ('v, 't) value_codec =
  vc_to_value :: "'t \<Rightarrow> 'v option"
  vc_from_value :: "'v \<Rightarrow> 't option"
  vc_from_slice :: "bytes \<Rightarrow> 't option"

text \<open>A durable value: the file itself and its two slots.\<close>

record durable_file =
  df_plain :: "bytes option"
  df_slot0 :: "bytes option"
  df_slot1 :: "bytes option"

definition no_file :: durable_file where
  "no_file = \<lparr>df_plain = None, df_slot0 = None, df_slot1 = None\<rparr>"

definition durable_slots :: "durable_file \<Rightarrow> bytes option list" where
  "durable_slots f = [df_slot0 f, df_slot1 f]"

definition durable_json_exists :: "durable_file \<Rightarrow> bool" where
  "durable_json_exists f \<longleftrightarrow> df_plain f \<noteq> None \<or> (\<exists>slot \<in> set (durable_slots f). slot \<noteq> None)"

definition json_checksum :: "'v json_env \<Rightarrow> 'v \<Rightarrow> u64" where
  "json_checksum je v =
     (case je_value_to_vec je v of
        None \<Rightarrow> 0
      | Some bs \<Rightarrow> foldl (\<lambda>h b. (h XOR ucast b) * 0x100000001b3) 0xcbf29ce484222325 bs)"

section \<open>Reading and writing\<close>

definition checked_envelope :: "'v json_env \<Rightarrow> bytes option \<Rightarrow> 'v DurableJsonEnvelope option" where
  "checked_envelope je slot =
     Option.bind slot (\<lambda>bs. Option.bind (je_envelope_from_slice je bs) (\<lambda>e.
       if de_checksum e = json_checksum je (de_payload e) then Some e else None))"

definition current_envelopes :: "'v json_env \<Rightarrow> durable_file \<Rightarrow> 'v DurableJsonEnvelope list" where
  "current_envelopes je f =
     sort_key (\<lambda>e. - uint (de_sequence e))
       (filter (\<lambda>e. de_version e = GENERATION_MANAGER_VERSION) (List.map_filter (checked_envelope je) (durable_slots f)))"

definition read_json :: "'v json_env \<Rightarrow> ('v, 't) value_codec \<Rightarrow> durable_file \<Rightarrow> 't content_result" where
  "read_json je vc f =
     (case current_envelopes je f of
        e # _ \<Rightarrow> ok_or (vc_from_value vc (de_payload e)) ContentSerialization
      | [] \<Rightarrow> and_then (ok_or (df_plain f) ContentIo) (\<lambda>bs. ok_or (vc_from_slice vc bs) ContentSerialization))"

text \<open>What the file system does with one write: the directory or the slot cannot be opened, the slot is left with a part
  of the bytes (an error or a crash after the truncation), the bytes are written but not known to be durable,
  or the write succeeds.\<close>

datatype slot_write = DirectoryFailed | OpenFailed | Torn bytes | Unsynced | Synced

definition next_sequence :: "'v json_env \<Rightarrow> durable_file \<Rightarrow> u64" where
  "next_sequence je f =
     saturating_add (foldr max (map de_sequence (List.map_filter (checked_envelope je) (durable_slots f))) 0) 1"

definition set_slot :: "u64 \<Rightarrow> bytes \<Rightarrow> durable_file \<Rightarrow> durable_file" where
  "set_slot sequence bs f = (if sequence mod 2 = 0 then f\<lparr>df_slot0 := Some bs\<rparr> else f\<lparr>df_slot1 := Some bs\<rparr>)"

definition write_json_atomic ::
  "'v json_env \<Rightarrow> ('v, 't) value_codec \<Rightarrow> slot_write \<Rightarrow> 't \<Rightarrow> durable_file \<Rightarrow> durable_file \<times> unit content_result" where
  "write_json_atomic je vc outcome value f =
     (if outcome = DirectoryFailed then (f, Inl ContentIo)
      else
        let sequence = next_sequence je f in
        case vc_to_value vc value of
          None \<Rightarrow> (f, Inl ContentSerialization)
        | Some payload \<Rightarrow>
            (case je_envelope_to_vec je \<lparr>de_version = GENERATION_MANAGER_VERSION, de_sequence = sequence,
                    de_checksum = json_checksum je payload, de_payload = payload\<rparr> of
               None \<Rightarrow> (f, Inl ContentSerialization)
             | Some bs \<Rightarrow>
                 (case outcome of
                    Torn part \<Rightarrow> (set_slot sequence part f, Inl ContentIo)
                  | Unsynced \<Rightarrow> (set_slot sequence bs f, Inl ContentIo)
                  | Synced \<Rightarrow> (set_slot sequence bs f, Inr ())
                  | _ \<Rightarrow> (f, Inl ContentIo))))"

section \<open>Atomicity\<close>

definition envelope_laws :: "'v json_env \<Rightarrow> bool" where
  "envelope_laws je \<longleftrightarrow> (\<forall>e bs. je_envelope_to_vec je e = Some bs \<longrightarrow> je_envelope_from_slice je bs = Some e)"

definition codec_laws :: "('v, 't) value_codec \<Rightarrow> bool" where
  "codec_laws vc \<longleftrightarrow> (\<forall>x v. vc_to_value vc x = Some v \<longrightarrow> vc_from_value vc v = Some x)"

text \<open>A partial write is recognised as such: the bytes are not an envelope with a matching checksum.\<close>

definition torn_detected :: "'v json_env \<Rightarrow> slot_write \<Rightarrow> bool" where
  "torn_detected je outcome \<longleftrightarrow> (case outcome of Torn part \<Rightarrow> checked_envelope je (Some part) = None | _ \<Rightarrow> True)"

text \<open>What a sequence of writes maintains: each slot's envelope has this version and the parity of its slot, and the last
  sequence number is not used up.\<close>

definition slot_ok :: "'v json_env \<Rightarrow> u64 \<Rightarrow> bytes option \<Rightarrow> bool" where
  "slot_ok je parity slot \<longleftrightarrow> (\<forall>e. checked_envelope je slot = Some e \<longrightarrow>
     de_version e = GENERATION_MANAGER_VERSION \<and> de_sequence e mod 2 = parity)"

definition durable_ok :: "'v json_env \<Rightarrow> durable_file \<Rightarrow> bool" where
  "durable_ok je f \<longleftrightarrow> slot_ok je 0 (df_slot0 f) \<and> slot_ok je 1 (df_slot1 f)"

text \<open>The newest envelope, which is what a read decodes.\<close>

definition newest :: "'v json_env \<Rightarrow> durable_file \<Rightarrow> 'v DurableJsonEnvelope option" where
  "newest je f =
     (case (checked_envelope je (df_slot0 f), checked_envelope je (df_slot1 f)) of
        (None, x) \<Rightarrow> x
      | (x, None) \<Rightarrow> x
      | (Some a, Some b) \<Rightarrow> Some (if de_sequence a < de_sequence b then b else a))"

lemma read_newest:
  assumes "durable_ok je f"
  shows "read_json je vc f = (case newest je f of
      Some e \<Rightarrow> ok_or (vc_from_value vc (de_payload e)) ContentSerialization
    | None \<Rightarrow> and_then (ok_or (df_plain f) ContentIo) (\<lambda>bs. ok_or (vc_from_slice vc bs) ContentSerialization))"
proof (cases "checked_envelope je (df_slot0 f)"; cases "checked_envelope je (df_slot1 f)")
qed (use assms in \<open>simp_all add: read_json_def current_envelopes_def durable_slots_def newest_def durable_ok_def slot_ok_def
      List.map_filter_simps word_less_def\<close>)

lemma next_sequence_newest:
  "next_sequence je f = saturating_add (case newest je f of None \<Rightarrow> 0 | Some e \<Rightarrow> de_sequence e) 1"
  by (cases "checked_envelope je (df_slot0 f)"; cases "checked_envelope je (df_slot1 f)")
     (simp_all add: next_sequence_def durable_slots_def newest_def List.map_filter_simps max_def less_imp_le)

lemma succ_sequence:
  assumes "s \<noteq> (- 1 :: u64)"
  shows "saturating_add s 1 = s + 1" "s < s + 1"
proof -
  have "unat s \<noteq> 2 ^ 64 - 1" using assms word_unat_eq_iff [of s "- 1"] by (simp add: unsigned_minus_1_eq_mask mask_eq_exp_minus_1)
  moreover have "unat s < 2 ^ 64" using unsigned_less [of s] by simp
  ultimately have s: "unat s + 1 < 2 ^ 64" by linarith
  then show "saturating_add s 1 = s + 1" by (simp add: saturating_add_def)
  show "s < s + 1" using s by (simp add: word_less_nat_alt unat_word_ariths)
qed

definition sequence_left :: "'v json_env \<Rightarrow> durable_file \<Rightarrow> bool" where
  "sequence_left je f \<longleftrightarrow> (case newest je f of None \<Rightarrow> True | Some e \<Rightarrow> de_sequence e \<noteq> - 1)"

text \<open>The slot a write goes to is never the one that holds the newest envelope.\<close>

lemma write_keeps_newest:
  assumes "durable_ok je f" "sequence_left je f" "checked_envelope je (Some part) = None"
  shows "durable_ok je (set_slot (next_sequence je f) part f)" "newest je (set_slot (next_sequence je f) part f) = newest je f"
proof -
  show "durable_ok je (set_slot (next_sequence je f) part f)"
    using assms by (simp add: durable_ok_def slot_ok_def set_slot_def)
  show "newest je (set_slot (next_sequence je f) part f) = newest je f"
  proof (cases "newest je f")
    case None
    then show ?thesis using assms(3) by (auto simp: newest_def set_slot_def split: option.splits)
  next
    case (Some e)
    then have n: "next_sequence je f = de_sequence e + 1" using assms(2) by (simp add: next_sequence_newest sequence_left_def succ_sequence)
    then show ?thesis
      using assms(1,3) Some
      by (auto simp: newest_def set_slot_def durable_ok_def slot_ok_def
          simp flip: even_iff_mod_2_eq_zero odd_iff_mod_2_eq_one split: option.splits if_splits)
  qed
qed

lemma write_becomes_newest:
  assumes "durable_ok je f" "sequence_left je f" "checked_envelope je (Some bs) = Some e"
    and "de_sequence e = next_sequence je f" "de_version e = GENERATION_MANAGER_VERSION"
  shows "durable_ok je (set_slot (next_sequence je f) bs f)" "newest je (set_slot (next_sequence je f) bs f) = Some e"
proof -
  have parity: "slot_ok je (de_sequence e mod 2) (Some bs)" using assms(3,5) by (simp add: slot_ok_def)
  show "durable_ok je (set_slot (next_sequence je f) bs f)"
    using assms(1,4) parity
    by (cases "next_sequence je f mod 2 = 0") (simp_all add: durable_ok_def set_slot_def)
  have older: "de_sequence d < de_sequence e" if slot: "checked_envelope je slot = Some d" "slot \<in> set (durable_slots f)" for slot d
  proof -
    have "\<exists>n. newest je f = Some n \<and> de_sequence d \<le> de_sequence n"
      using slot
      by (cases "checked_envelope je (df_slot0 f)"; cases "checked_envelope je (df_slot1 f)")
         (auto simp: newest_def durable_slots_def)
    then obtain n where n: "newest je f = Some n" "de_sequence d \<le> de_sequence n" by blast
    moreover have "de_sequence n < de_sequence e"
      using n(1) assms(2,4) by (simp add: next_sequence_newest sequence_left_def succ_sequence)
    ultimately show ?thesis by simp
  qed
  have "checked_envelope je (df_slot0 f) = Some d \<Longrightarrow> de_sequence d < de_sequence e"
      "checked_envelope je (df_slot1 f) = Some d \<Longrightarrow> de_sequence d < de_sequence e" for d
    using older by (simp_all add: durable_slots_def)
  then show "newest je (set_slot (next_sequence je f) bs f) = Some e"
    using assms(3,4) by (fastforce simp: newest_def set_slot_def split: option.splits)
qed

text \<open>The state after a write, whatever became of it.\<close>

lemma write_outcome:
  assumes "envelope_laws je" "durable_ok je f" "sequence_left je f" "torn_detected je outcome"
    and "write_json_atomic je vc outcome x f = (f', r)"
  shows "durable_ok je f'" "df_plain f' = df_plain f"
    and "(newest je f' = newest je f \<and> isl r) \<or> (\<exists>v e. vc_to_value vc x = Some v \<and> newest je f' = Some e \<and> de_payload e = v)"
proof -
  let ?n = "next_sequence je f"
  consider (same) "f' = f" "isl r"
    | (torn) part where "f' = set_slot ?n part f" "isl r" "outcome = Torn part"
    | (new) v e bs where "f' = set_slot ?n bs f" "vc_to_value vc x = Some v" "je_envelope_to_vec je e = Some bs"
        "e = \<lparr>de_version = GENERATION_MANAGER_VERSION, de_sequence = ?n, de_checksum = json_checksum je v, de_payload = v\<rparr>"
    using assms(5) by (auto simp: write_json_atomic_def Let_def split: if_splits option.splits slot_write.splits)
  then have "durable_ok je f' \<and> df_plain f' = df_plain f
    \<and> ((newest je f' = newest je f \<and> isl r) \<or> (\<exists>v e. vc_to_value vc x = Some v \<and> newest je f' = Some e \<and> de_payload e = v))"
  proof cases
    case torn
    then show ?thesis using write_keeps_newest [OF assms(2,3)] assms(4) by (simp add: torn_detected_def set_slot_def)
  next
    case new
    then have "checked_envelope je (Some bs) = Some e" using assms(1) by (simp add: envelope_laws_def checked_envelope_def)
    from write_becomes_newest [OF assms(2,3) this] new show ?thesis by (simp add: set_slot_def)
  qed (use assms(2) in simp)
  then show "durable_ok je f'" "df_plain f' = df_plain f"
    "(newest je f' = newest je f \<and> isl r) \<or> (\<exists>v e. vc_to_value vc x = Some v \<and> newest je f' = Some e \<and> de_payload e = v)"
    by blast+
qed

lemma write_reads:
  assumes "envelope_laws je" "codec_laws vc" "durable_ok je f" "sequence_left je f" "torn_detected je outcome"
    and "write_json_atomic je vc outcome x f = (f', r)"
  shows "read_json je vc f' = Inr x \<or> (isl r \<and> read_json je vc f' = read_json je vc f)"
proof -
  note out = write_outcome [OF assms(1,3-6)]
  have "read_json je vc f' = Inr x" if "vc_to_value vc x = Some v" "newest je f' = Some e" "de_payload e = v" for v e
    using that assms(2) by (simp add: read_newest [OF out(1)] codec_laws_def)
  moreover have "read_json je vc f' = read_json je vc f" if "newest je f' = newest je f"
    using that by (simp add: read_newest [OF out(1)] read_newest [OF assms(3)] out(2) split: option.splits)
  ultimately show ?thesis using out(3) by blast
qed

text \<open>C10: a durable write is atomic. Whatever becomes of it (an error before the slot is opened, a torn slot, a missing
  sync, or success), a later read returns either what a read returned before or the new value; after a write that reports
  success it returns the new value; and the file is again one that can be written.\<close>

theorem write_json_atomic_durable:
  assumes "envelope_laws je" "codec_laws vc" "durable_ok je f" "sequence_left je f" "torn_detected je outcome"
    and "write_json_atomic je vc outcome x f = (f', r)"
  shows "durable_ok je f' \<and> (read_json je vc f' = Inr x \<or> (isl r \<and> read_json je vc f' = read_json je vc f))"
  using write_reads [OF assms] write_outcome(1) [OF assms(1,3-6)] by blast

section \<open>A concrete codec\<close>

text \<open>Two slots whose bytes are the sequence number and one byte of payload.\<close>

definition byte_json :: "u8 json_env" where
  "byte_json = \<lparr>je_value_to_vec = (\<lambda>_. Some []),
     je_envelope_to_vec = (\<lambda>e. if de_version e = 1 \<and> de_checksum e = 0xcbf29ce484222325 \<and> unat (de_sequence e) < 256
        then Some [of_nat (unat (de_sequence e)), de_payload e] else None),
     je_envelope_from_slice = (\<lambda>bs. case bs of
        [s, p] \<Rightarrow> Some \<lparr>de_version = 1, de_sequence = of_nat (unat s), de_checksum = 0xcbf29ce484222325, de_payload = p\<rparr>
      | _ \<Rightarrow> None)\<rparr>"

definition byte_codec :: "(u8, u8) value_codec" where
  "byte_codec = \<lparr>vc_to_value = Some, vc_from_value = Some, vc_from_slice = (\<lambda>_. None)\<rparr>"

definition written_once :: durable_file where
  "written_once = fst (write_json_atomic byte_json byte_codec Synced 7 no_file)"

lemma byte_laws: "envelope_laws byte_json" "codec_laws byte_codec"
proof -
  have "(of_nat (unat (of_nat (unat s) :: u8)) :: u64) = s" if "unat s < 256" for s :: u64
    using that by (simp add: word_unat_eq_iff unsigned_ucast_eq take_bit_nat_eq_self)
  then show "envelope_laws byte_json" by (auto simp: envelope_laws_def byte_json_def)
  show "codec_laws byte_codec" by (simp add: codec_laws_def byte_codec_def)
qed

lemma written_once_value: "written_once = \<lparr>df_plain = None, df_slot0 = None, df_slot1 = Some [1, 7]\<rparr>"
  by (simp add: written_once_def write_json_atomic_def byte_codec_def byte_json_def next_sequence_def durable_slots_def
      no_file_def List.map_filter_simps checked_envelope_def set_slot_def GENERATION_MANAGER_VERSION_def json_checksum_def
      saturating_add_def)

theorem write_json_atomic_durable_witness:
  "read_json byte_json byte_codec (fst (write_json_atomic byte_json byte_codec (Torn [2]) 8 written_once)) = Inr 7
   \<and> read_json byte_json byte_codec (fst (write_json_atomic byte_json byte_codec Synced 8 written_once)) = Inr 8"
proof -
  have checked: "checked_envelope byte_json (Some [s, p])
      = Some \<lparr>de_version = 1, de_sequence = of_nat (unat s), de_checksum = 0xcbf29ce484222325, de_payload = p\<rparr>"
      "checked_envelope byte_json (Some [s]) = None" "checked_envelope byte_json None = None" for s p
    by (simp_all add: checked_envelope_def byte_json_def json_checksum_def)
  have ok: "durable_ok byte_json written_once" "sequence_left byte_json written_once"
      "read_json byte_json byte_codec written_once = Inr 7"
    by (simp_all add: durable_ok_def slot_ok_def sequence_left_def newest_def written_once_value checked
        GENERATION_MANAGER_VERSION_def read_json_def current_envelopes_def durable_slots_def List.map_filter_simps byte_codec_def)
  have torn: "torn_detected byte_json (Torn [2])" "torn_detected byte_json Synced" by (simp_all add: torn_detected_def checked)
  note atomic = write_json_atomic_durable [OF byte_laws ok(1,2), where x = 8]
  have second: "next_sequence byte_json written_once = 2"
    by (simp add: next_sequence_newest newest_def written_once_value checked saturating_add_def)
  have bytes: "je_envelope_to_vec byte_json \<lparr>de_version = GENERATION_MANAGER_VERSION, de_sequence = 2,
      de_checksum = json_checksum byte_json 8, de_payload = 8\<rparr> = Some [2, 8]" "vc_to_value byte_codec v = Some v" "vc_from_value byte_codec v = Some v" for v
    by (simp_all add: byte_json_def byte_codec_def GENERATION_MANAGER_VERSION_def json_checksum_def)
  have "fst (write_json_atomic byte_json byte_codec (Torn [2]) 8 written_once) = \<lparr>df_plain = None, df_slot0 = Some [2], df_slot1 = Some [1, 7]\<rparr>"
    by (simp add: write_json_atomic_def second bytes) (simp add: set_slot_def written_once_value)
  then have "read_json byte_json byte_codec (fst (write_json_atomic byte_json byte_codec (Torn [2]) 8 written_once)) \<noteq> Inr 8"
    by (simp add: read_json_def current_envelopes_def durable_slots_def List.map_filter_simps checked GENERATION_MANAGER_VERSION_def bytes)
  moreover have "\<not> isl (snd (write_json_atomic byte_json byte_codec Synced 8 written_once))"
    by (simp add: write_json_atomic_def second bytes)
  ultimately show ?thesis
    using atomic [OF torn(1)] atomic [OF torn(2)] ok(3) by (metis prod.collapse)
qed

end
