(* ===== verification/Content_Generation.thy ===== *)
theory Content_Generation
  imports Content_Store
begin

text \<open>Content generations (\<^verbatim>\<open>src/crates/content-index/src/lib.rs\<close>): the manager that builds a new content index beside
  the active one, the reader that follows the active pointer, and the worker that projects into the active index.

  A \<open>content_root\<close> is the directory on disk: index directories, the manager's marker, the active pointer and one state
  file per generation. Operations are functions from the root to the root and a result (\<open>managed\<close>, sequenced by
  \<open>seq_m\<close>); every effect counts one tick, and a \<open>content_world\<close> answers what the clock, the disk and the file
  system did at that tick, torn writes and half-done removals included, so a statement about all worlds is a statement about every
  failure. Proofs use triples over these actions (\<open>triple\<close>, \<open>keeps\<close>).

  Shown: a resumption never loses a resolvable active generation and completes only on a counted index; garbage collection
  spares live generations; opening a root repairs the lifecycle after a crash; projection keeps the active
  index in step with the graph.\<close>

section \<open>Generations\<close>

datatype ContentGenerationState = Building | Ready | Active | Retired | Failed
datatype ContentCapacityLimit = CapContentIndexBytes | CapDocuments | CapFreeDisk

record ContentGenerationLimits =
  gl_max_content_index_bytes :: u64
  gl_max_documents :: u64
  gl_min_free_disk_bytes :: u64
  gl_min_free_disk_percent :: u8
  gl_batch_documents :: u32
  gl_maximum_batches :: u32

definition limits_validate :: "ContentGenerationLimits \<Rightarrow> ContentGenerationLimits content_result" where
  "limits_validate l =
     (if gl_max_content_index_bytes l = 0 \<or> gl_max_documents l = 0 \<or> 50 < gl_min_free_disk_percent l
         \<or> gl_batch_documents l = 0 \<or> 10000 < gl_batch_documents l \<or> gl_maximum_batches l = 0 \<or> 4096 < gl_maximum_batches l
      then Inl InvalidPolicy else Inr l)"

record ContentGenerationRecord =
  gr_version :: u32
  gr_generation_id :: string
  gr_scan_id :: string
  gr_state :: ContentGenerationState
  gr_target_sequence :: u64
  gr_root_ids :: "string list"
  gr_last_checkpoint :: "DocumentId option"
  gr_documents_seen :: u64
  gr_documents_projected :: u64
  gr_bytes_processed :: u64
  gr_commits :: u64
  gr_index_generation :: u64
  gr_content_index_bytes :: u64
  gr_capacity_limit :: "ContentCapacityLimit option"
  gr_created_at_unix_ms :: u64
  gr_updated_at_unix_ms :: u64

record ContentGenerationSummary =
  gs_generation :: ContentGenerationRecord
  gs_complete :: bool
  gs_capacity_limited :: bool
  gs_projection :: ContentSyncSummary
  gs_available_disk_bytes :: u64
  gs_required_disk_reserve_bytes :: u64

record ActiveGenerationPointer =
  ap_version :: u32
  ap_generation_id :: string
  ap_activated_at_unix_ms :: u64

text \<open>A content root on disk. Under \<^verbatim>\<open>generations/\<close> are directories, in the order \<open>read_dir\<close> lists them, each with its
  state file, and possibly plain files. \<open>mg_tick\<close> counts the effects performed, and indexes what the
  surrounding system answers.\<close>

record 'i content_root =
  mg_store :: "'i content_store"
  mg_marker :: "string option"
  mg_active :: durable_file
  mg_generations :: "(string \<times> durable_file) list"
  mg_files :: "string list"
  mg_tick :: nat

datatype 'i removal = Removed | PartlyRemoved bool bool bool "'i content_dir option"

record 'i content_world =
  cw_clock :: "nat \<Rightarrow> u64"
  cw_write :: "nat \<Rightarrow> slot_write"
  cw_create_dir :: "nat \<Rightarrow> bool"
  cw_write_marker :: "nat \<Rightarrow> string option option"
  cw_read_dir :: "nat \<Rightarrow> bool"
  cw_remove :: "nat \<Rightarrow> 'i removal"
  cw_disk :: "nat \<Rightarrow> (u64 \<times> u64) option"
  cw_index_bytes :: "nat \<Rightarrow> u64 option"
  cw_graph :: "nat \<Rightarrow> graph_db"
  cw_open_graph :: "nat \<Rightarrow> GraphError option"
  cw_root_text :: "string list \<Rightarrow> string"
  cw_test_crash :: "u64 \<Rightarrow> bool"

record 'v generation_json =
  gj_env :: "'v json_env"
  gj_pointer :: "('v, ActiveGenerationPointer) value_codec"
  gj_record :: "('v, ContentGenerationRecord) value_codec"

type_synonym ('i, 'a) managed = "'i content_root \<Rightarrow> 'i content_root \<times> 'a content_result"

definition seq_m :: "('i, 'a) managed \<Rightarrow> ('a \<Rightarrow> ('i, 'b) managed) \<Rightarrow> ('i, 'b) managed" where
  "seq_m m f st = (case m st of (st', Inl e) \<Rightarrow> (st', Inl e) | (st', Inr x) \<Rightarrow> f x st')"

definition return_m :: "'a \<Rightarrow> ('i, 'a) managed" where "return_m x st = (st, Inr x)"
definition fail_m :: "ContentIndexError \<Rightarrow> ('i, 'a) managed" where "fail_m e st = (st, Inl e)"
definition read_m :: "('i content_root \<Rightarrow> 'a content_result) \<Rightarrow> ('i, 'a) managed" where "read_m f st = (st, f st)"

definition ticking :: "(nat \<Rightarrow> 'a content_result) \<Rightarrow> ('i, 'a) managed" where
  "ticking f st = (st\<lparr>mg_tick := Suc (mg_tick st)\<rparr>, f (mg_tick st))"

fun each_m :: "('a \<Rightarrow> ('i, unit) managed) \<Rightarrow> 'a list \<Rightarrow> ('i, unit) managed" where
  "each_m f [] = return_m ()"
| "each_m f (x # xs) = seq_m (f x) (\<lambda>_. each_m f xs)"

definition unix_time_millis :: "'i content_world \<Rightarrow> ('i, u64) managed" where
  "unix_time_millis w = ticking (\<lambda>n. Inr (cw_clock w n))"

definition disk_space :: "'i content_world \<Rightarrow> ('i, u64 \<times> u64) managed" where
  "disk_space w = ticking (\<lambda>n. ok_or (cw_disk w n) ContentIo)"

definition directory_bytes :: "'i content_world \<Rightarrow> ('i, u64) managed" where
  "directory_bytes w = ticking (\<lambda>n. ok_or (cw_index_bytes w n) ContentIo)"

section \<open>Names and paths\<close>

definition is_ascii_alphanumeric :: "char \<Rightarrow> bool" where
  "is_ascii_alphanumeric c \<longleftrightarrow>
     (CHR ''0'' \<le> c \<and> c \<le> CHR ''9'') \<or> (CHR ''A'' \<le> c \<and> c \<le> CHR ''Z'') \<or> (CHR ''a'' \<le> c \<and> c \<le> CHR ''z'')"

definition valid_generation_id :: "string \<Rightarrow> bool" where
  "valid_generation_id value \<longleftrightarrow>
     prefix ''generation-'' value \<and> (\<forall>byte \<in> set value. is_ascii_alphanumeric byte \<or> byte = CHR ''-'')"

fun zero_padded :: "nat \<Rightarrow> nat \<Rightarrow> string" where
  "zero_padded 0 n = []"
| "zero_padded (Suc w) n = zero_padded w (n div 10) @ [digit (n mod 10)]"

definition generation_name :: "u64 \<Rightarrow> u64 \<Rightarrow> nat \<Rightarrow> string" where
  "generation_name sequence now ordinal =
     ''generation-'' @ zero_padded 20 (unat sequence) @ ''-'' @ zero_padded 20 (unat now) @ ''-'' @ zero_padded 4 ordinal"

definition index_path :: "string \<Rightarrow> string \<Rightarrow> string" where
  "index_path root generation_id = root @ ''/generations/'' @ generation_id @ ''/index''"

definition has_schema_marker :: "'i content_store \<Rightarrow> string \<Rightarrow> bool" where
  "has_schema_marker store path \<longleftrightarrow> (case store path of None \<Rightarrow> False | Some dir \<Rightarrow> cd_marker dir \<noteq> None)"

definition required_disk_reserve :: "u64 \<Rightarrow> ContentGenerationLimits \<Rightarrow> u64" where
  "required_disk_reserve acc l =
     max (gl_min_free_disk_bytes l) (saturating_mul acc (ucast (gl_min_free_disk_percent l)) div 100)"

definition u64_of_len :: "nat \<Rightarrow> u64" where
  "u64_of_len n = (if n < 2 ^ 64 then of_nat n else - 1)"

definition forecast_index_growth :: "u64 \<Rightarrow> nat \<Rightarrow> u64" where
  "forecast_index_growth declared documents =
     saturating_add (saturating_mul declared 2) (saturating_mul (u64_of_len documents) 1024)"

definition add_sync_summary :: "ContentSyncSummary \<Rightarrow> ContentSyncSummary \<Rightarrow> ContentSyncSummary" where
  "add_sync_summary acc value =
     \<lparr>cs_catalog_documents = saturating_add (cs_catalog_documents acc) (cs_catalog_documents value),
      cs_unchanged_documents = saturating_add (cs_unchanged_documents acc) (cs_unchanged_documents value),
      cs_metadata_only_documents = saturating_add (cs_metadata_only_documents acc) (cs_metadata_only_documents value),
      cs_unchanged_hash_documents = saturating_add (cs_unchanged_hash_documents acc) (cs_unchanged_hash_documents value),
      cs_added_documents = saturating_add (cs_added_documents acc) (cs_added_documents value),
      cs_updated_documents = saturating_add (cs_updated_documents acc) (cs_updated_documents value),
      cs_removed_documents = saturating_add (cs_removed_documents acc) (cs_removed_documents value),
      cs_evicted_documents = saturating_add (cs_evicted_documents acc) (cs_evicted_documents value),
      cs_skipped = (\<lambda>reason. saturating_add (cs_skipped acc reason) (cs_skipped value reason)),
      cs_generation = cs_generation value\<rparr>"

section \<open>State files\<close>

definition generation_file :: "'i content_root \<Rightarrow> string \<Rightarrow> durable_file" where
  "generation_file st generation_id = (case map_of (mg_generations st) generation_id of None \<Rightarrow> no_file | Some f \<Rightarrow> f)"

definition write_record :: "'v generation_json \<Rightarrow> 'i content_world \<Rightarrow> ContentGenerationRecord \<Rightarrow> ('i, unit) managed" where
  "write_record gj w r st =
     (let outcome = cw_write w (mg_tick st); k = gr_generation_id r in
      case write_json_atomic (gj_env gj) (gj_record gj) outcome r (generation_file st k) of (f, result) \<Rightarrow>
        (st\<lparr>mg_generations := (if outcome = DirectoryFailed then mg_generations st else AList.update k f (mg_generations st)),
            mg_tick := Suc (mg_tick st)\<rparr>, result))"

definition write_pointer :: "'v generation_json \<Rightarrow> 'i content_world \<Rightarrow> ActiveGenerationPointer \<Rightarrow> ('i, unit) managed" where
  "write_pointer gj w p st =
     (case write_json_atomic (gj_env gj) (gj_pointer gj) (cw_write w (mg_tick st)) p (mg_active st) of (f, result) \<Rightarrow>
        (st\<lparr>mg_active := f, mg_tick := Suc (mg_tick st)\<rparr>, result))"

definition active_pointer :: "'v generation_json \<Rightarrow> 'i content_root \<Rightarrow> ActiveGenerationPointer content_result" where
  "active_pointer gj st = read_json (gj_env gj) (gj_pointer gj) (mg_active st)"

definition decode_records :: "'v generation_json \<Rightarrow> (string \<times> durable_file) list \<Rightarrow> ContentGenerationRecord list content_result" where
  "decode_records gj entries =
     fold_r (\<lambda>acc (name, f). and_then (read_json (gj_env gj) (gj_record gj) f) (\<lambda>r. Inr (acc @ [r]))) []
       (filter (\<lambda>(name, f). valid_generation_id name \<and> durable_json_exists f) entries)"

definition records :: "'v generation_json \<Rightarrow> 'i content_world \<Rightarrow> ('i, ContentGenerationRecord list) managed" where
  "records gj w =
     seq_m (ticking (\<lambda>n. guard_r (cw_read_dir w n) ContentIo)) (\<lambda>_. read_m (\<lambda>st. decode_records gj (mg_generations st)))"

section \<open>The manager\<close>

definition set_state :: "'v generation_json \<Rightarrow> 'i content_world \<Rightarrow> ContentGenerationState \<Rightarrow> ContentGenerationRecord \<Rightarrow> ('i, unit) managed" where
  "set_state gj w s r =
     seq_m (unix_time_millis w) (\<lambda>now. write_record gj w (r\<lparr>gr_state := s, gr_updated_at_unix_ms := now\<rparr>))"

definition recovered_state :: "string \<Rightarrow> ContentGenerationRecord \<Rightarrow> ContentGenerationState option" where
  "recovered_state active r =
     (if gr_generation_id r = active then Some Active else if gr_state r = Active then Some Retired else None)"

definition recover_record :: "'v generation_json \<Rightarrow> 'i content_world \<Rightarrow> string \<Rightarrow> ContentGenerationRecord \<Rightarrow> ('i, unit) managed" where
  "recover_record gj w active r =
     (case recovered_state active r of
        None \<Rightarrow> return_m ()
      | Some s \<Rightarrow> if gr_state r \<noteq> s then set_state gj w s r else return_m ())"

definition recover_lifecycle :: "'v generation_json \<Rightarrow> 'i content_world \<Rightarrow> ('i, unit) managed" where
  "recover_lifecycle gj w st =
     (case active_pointer gj st of
        Inl _ \<Rightarrow> (st, Inr ())
      | Inr p \<Rightarrow>
          if \<not> valid_generation_id (ap_generation_id p) then (st, Inl ContentSchemaMismatch)
          else seq_m (records gj w) (each_m (recover_record gj w (ap_generation_id p))) st)"

definition manager_open :: "'v generation_json \<Rightarrow> 'i content_world \<Rightarrow> string \<Rightarrow> ('i, unit) managed" where
  "manager_open gj w root st =
     (if has_schema_marker (mg_store st) root then (st, Inl ContentSchemaMismatch)
      else if \<not> cw_create_dir w (mg_tick st) then (st, Inl ContentIo)
      else (case mg_marker st of
              Some marker \<Rightarrow> if marker \<noteq> CONTENT_SCHEMA_ID then (st, Inl ContentSchemaMismatch) else recover_lifecycle gj w st
            | None \<Rightarrow>
                (case cw_write_marker w (mg_tick st) of
                   Some left \<Rightarrow> (st\<lparr>mg_marker := left\<rparr>, Inl ContentIo)
                 | None \<Rightarrow> recover_lifecycle gj w (st\<lparr>mg_marker := Some CONTENT_SCHEMA_ID\<rparr>))))"

definition active_index_path :: "'v generation_json \<Rightarrow> string \<Rightarrow> 'i content_root \<Rightarrow> string content_result" where
  "active_index_path gj root st =
     and_then (active_pointer gj st) (\<lambda>p.
       if ap_version p \<noteq> GENERATION_MANAGER_VERSION \<or> \<not> valid_generation_id (ap_generation_id p) then Inl ContentSchemaMismatch
       else let path = index_path root (ap_generation_id p) in
            if \<not> has_schema_marker (mg_store st) path then Inl ContentSchemaMismatch else Inr path)"

definition has_active_generation :: "'v generation_json \<Rightarrow> string \<Rightarrow> 'i content_root \<Rightarrow> bool" where
  "has_active_generation gj root st \<longleftrightarrow> \<not> isl (active_index_path gj root st)"

definition active_generation_record :: "'v generation_json \<Rightarrow> 'i content_root \<Rightarrow> ContentGenerationRecord content_result" where
  "active_generation_record gj st =
     and_then (active_pointer gj st) (\<lambda>p.
       if \<not> valid_generation_id (ap_generation_id p) then Inl ContentSchemaMismatch
       else read_json (gj_env gj) (gj_record gj) (generation_file st (ap_generation_id p)))"

text \<open>\<open>max_by_key\<close> keeps the last of equal maxima.\<close>

definition newest_record :: "ContentGenerationRecord list \<Rightarrow> ContentGenerationRecord option" where
  "newest_record rs =
     foldl (\<lambda>best r. case best of None \<Rightarrow> Some r
        | Some b \<Rightarrow> if gr_updated_at_unix_ms b \<le> gr_updated_at_unix_ms r then Some r else Some b) None rs"

definition building_generation_record :: "'v generation_json \<Rightarrow> 'i content_world \<Rightarrow> ('i, ContentGenerationRecord option) managed" where
  "building_generation_record gj w =
     seq_m (records gj w) (\<lambda>rs. return_m (newest_record (filter (\<lambda>r. gr_state r = Building) rs)))"

definition has_building_generation :: "'v generation_json \<Rightarrow> 'i content_world \<Rightarrow> ('i, bool) managed" where
  "has_building_generation gj w = seq_m (building_generation_record gj w) (\<lambda>r. return_m (r \<noteq> None))"

section \<open>Garbage collection\<close>

definition by_age :: "ContentGenerationRecord list \<Rightarrow> ContentGenerationRecord list" where
  "by_age rs = sort_key (\<lambda>r. - uint (gr_updated_at_unix_ms r)) rs"

definition keep_if :: "bool \<Rightarrow> 'a option \<Rightarrow> 'a option" where
  "keep_if b x = (if b then x else None)"

definition remove_generation :: "'i content_world \<Rightarrow> string \<Rightarrow> string \<Rightarrow> ('i, unit) managed" where
  "remove_generation w root generation_id st =
     (case cw_remove w (mg_tick st) of
        Removed \<Rightarrow>
          (st\<lparr>mg_generations := AList.delete generation_id (mg_generations st),
              mg_store := (mg_store st)(index_path root generation_id := None), mg_tick := Suc (mg_tick st)\<rparr>,
           if map_of (mg_generations st) generation_id = None then Inl ContentIo else Inr ())
      | PartlyRemoved plain slot0 slot1 dir \<Rightarrow>
          (case map_of (mg_generations st) generation_id of
             None \<Rightarrow> (st\<lparr>mg_tick := Suc (mg_tick st)\<rparr>, Inl ContentIo)
           | Some f \<Rightarrow>
               (st\<lparr>mg_generations := AList.update generation_id
                     \<lparr>df_plain = keep_if plain (df_plain f), df_slot0 = keep_if slot0 (df_slot0 f), df_slot1 = keep_if slot1 (df_slot1 f)\<rparr>
                     (mg_generations st),
                   mg_store := (mg_store st)(index_path root generation_id := dir), mg_tick := Suc (mg_tick st)\<rparr>, Inl ContentIo)))"

text \<open>The directory's parent is \<^verbatim>\<open>generations/\<close> whenever the identifier has no separator, which \<open>valid_generation_id\<close>
  has checked, so the parent check of the source never fails.\<close>

fun remove_generations :: "'i content_world \<Rightarrow> string \<Rightarrow> string option \<Rightarrow> string list \<Rightarrow> ContentGenerationRecord list \<Rightarrow> ('i, string list) managed" where
  "remove_generations w root active removed [] = return_m removed"
| "remove_generations w root active removed (r # rs) =
     (if active = Some (gr_generation_id r) \<or> \<not> valid_generation_id (gr_generation_id r)
      then remove_generations w root active removed rs
      else seq_m (remove_generation w root (gr_generation_id r)) (\<lambda>_.
             remove_generations w root active (removed @ [gr_generation_id r]) rs))"

definition collect_garbage :: "'v generation_json \<Rightarrow> 'i content_world \<Rightarrow> string \<Rightarrow> nat \<Rightarrow> ('i, string list) managed" where
  "collect_garbage gj w root retain_retired st =
     (let active = (case active_pointer gj st of Inl _ \<Rightarrow> None | Inr p \<Rightarrow> Some (ap_generation_id p)) in
      seq_m (records gj w) (\<lambda>rs.
        remove_generations w root active []
          (filter (\<lambda>r. gr_state r = Failed) rs @ drop retain_retired (by_age (filter (\<lambda>r. gr_state r = Retired) rs)))) st)"

section \<open>Building a generation\<close>

definition unique_generation_id :: "u64 \<Rightarrow> u64 \<Rightarrow> 'i content_root \<Rightarrow> string content_result" where
  "unique_generation_id sequence now st =
     ok_or (find (\<lambda>candidate. candidate \<notin> fst ` set (mg_generations st) \<union> set (mg_files st))
              (map (generation_name sequence now) [0..<10000])) ContentIo"

definition create_generation_dir :: "'i content_world \<Rightarrow> string \<Rightarrow> ('i, unit) managed" where
  "create_generation_dir w generation_id st =
     (if cw_create_dir w (mg_tick st)
      then (st\<lparr>mg_generations := AList.update generation_id (generation_file st generation_id) (mg_generations st),
               mg_tick := Suc (mg_tick st)\<rparr>, Inr ())
      else (st\<lparr>mg_tick := Suc (mg_tick st)\<rparr>, Inl ContentIo))"

definition store_m :: "('i content_store \<Rightarrow> 'i content_store \<times> 'a content_result) \<Rightarrow> ('i, 'a) managed" where
  "store_m f st = (case f (mg_store st) of (store, r) \<Rightarrow> (st\<lparr>mg_store := store\<rparr>, r))"

record ProjectionWorkspaceManifest =
  pm_version :: u32
  pm_roots :: "string list"
  pm_max_file_bytes :: u64

text \<open>Everything the crate calls, and the directory it works in.\<close>

record ('i, 'w, 'v) content_system =
  sy_tantivy :: "('i, 'w) content_tantivy"
  sy_env :: graph_env
  sy_cenv :: catalog_env
  sy_fs :: content_fs
  sy_io :: content_io
  sy_json :: "'v generation_json"
  sy_manifest :: "('v, ProjectionWorkspaceManifest) value_codec"
  sy_is_whitespace :: "uchar \<Rightarrow> bool"
  sy_world :: "'i content_world"
  sy_workspace :: string
  sy_root :: string

definition new_generation ::
  "('i, 'w, 'v) content_system \<Rightarrow> ContentIndexPolicy \<Rightarrow> string list \<Rightarrow> ('i, ContentGenerationRecord) managed" where
  "new_generation sys policy roots =
     (let w = sy_world sys in
      seq_m (ticking (\<lambda>n. and_then (lift_graph (latest_outbox_sequence (cw_graph w n))) (\<lambda>s. Inr (seq_value s)))) (\<lambda>target.
      seq_m (unix_time_millis w) (\<lambda>now.
      seq_m (read_m (unique_generation_id target now)) (\<lambda>generation_id.
      seq_m (create_generation_dir w generation_id) (\<lambda>_.
      seq_m (store_m (\<lambda>store. build (sy_tantivy sys) (sy_env sys) (sy_cenv sys) (sy_fs sys) (sy_io sys) policy store
               (index_path (sy_root sys) generation_id) [])) (\<lambda>initialized.
      seq_m (directory_bytes w) (\<lambda>bytes.
        let r = \<lparr>gr_version = GENERATION_MANAGER_VERSION, gr_generation_id = generation_id, gr_scan_id = ''scan-'' @ generation_id,
                 gr_state = Building, gr_target_sequence = target, gr_root_ids = roots, gr_last_checkpoint = None,
                 gr_documents_seen = 0, gr_documents_projected = 0, gr_bytes_processed = 0, gr_commits = 0,
                 gr_index_generation = bs_generation initialized, gr_content_index_bytes = bytes, gr_capacity_limit = None,
                 gr_created_at_unix_ms = now, gr_updated_at_unix_ms = now\<rparr> in
        seq_m (write_record (sy_json sys) w r) (\<lambda>_. return_m r))))))))"

definition recover_or_create_building ::
  "('i, 'w, 'v) content_system \<Rightarrow> ContentIndexPolicy \<Rightarrow> string list \<Rightarrow> ('i, ContentGenerationRecord) managed" where
  "recover_or_create_building sys policy roots =
     (let w = sy_world sys; gj = sy_json sys in
      seq_m (records gj w) (\<lambda>rs.
        let candidates = by_age (filter (\<lambda>r. gr_state r = Building) rs) in
        seq_m (each_m (set_state gj w Failed) (drop 1 candidates)) (\<lambda>_.
          case candidates of
            [] \<Rightarrow> new_generation sys policy roots
          | candidate # _ \<Rightarrow>
              if gr_version candidate = GENERATION_MANAGER_VERSION \<and> gr_root_ids candidate = roots
              then return_m (candidate\<lparr>gr_capacity_limit := None\<rparr>)
              else seq_m (set_state gj w Failed candidate) (\<lambda>_. new_generation sys policy roots))))"

section \<open>Activation\<close>

definition retire_previous :: "'v generation_json \<Rightarrow> 'i content_world \<Rightarrow> string \<Rightarrow> ActiveGenerationPointer content_result \<Rightarrow> ('i, unit) managed" where
  "retire_previous gj w current previous =
     (case previous of
        Inl _ \<Rightarrow> return_m ()
      | Inr p \<Rightarrow>
          if ap_generation_id p = current \<or> \<not> valid_generation_id (ap_generation_id p) then return_m ()
          else (\<lambda>st. case read_json (gj_env gj) (gj_record gj) (generation_file st (ap_generation_id p)) of
                  Inl _ \<Rightarrow> (st, Inr ())
                | Inr r \<Rightarrow> (case unix_time_millis w st of
                    (st', Inl e) \<Rightarrow> (st', Inl e)
                  | (st', Inr now) \<Rightarrow>
                      (case write_json_atomic (gj_env gj) (gj_record gj) (cw_write w (mg_tick st'))
                              (r\<lparr>gr_state := Retired, gr_updated_at_unix_ms := now\<rparr>) (generation_file st' (ap_generation_id p)) of
                         (f, result) \<Rightarrow>
                           (st'\<lparr>mg_generations := (if cw_write w (mg_tick st') = DirectoryFailed then mg_generations st'
                                   else AList.update (ap_generation_id p) f (mg_generations st')),
                                mg_tick := Suc (mg_tick st')\<rparr>, result)))))"

definition document_count :: "('i, 'w) content_tantivy \<Rightarrow> 'i content_store \<Rightarrow> string \<Rightarrow> u64 content_result" where
  "document_count tv store path = and_then (open_index tv store path) (\<lambda>i. Inr (u64_of_len (length (xt_documents tv i))))"

definition activate_validated :: "('i, 'w, 'v) content_system \<Rightarrow> ContentGenerationRecord \<Rightarrow> ('i, ContentGenerationRecord) managed" where
  "activate_validated sys r =
     (let w = sy_world sys; gj = sy_json sys; root = sy_root sys; k = gr_generation_id r in
      seq_m (read_m (\<lambda>st. document_count (sy_tantivy sys) (mg_store st) (index_path root k))) (\<lambda>found.
        if found \<noteq> gr_documents_projected r
        then seq_m (set_state gj w Failed r) (\<lambda>_. fail_m MissingPayload)
        else
          seq_m (set_state gj w Ready r) (\<lambda>_.
          seq_m (read_m (\<lambda>st. Inr (active_pointer gj st))) (\<lambda>previous.
          seq_m (unix_time_millis w) (\<lambda>now.
          seq_m (write_pointer gj w \<lparr>ap_version = GENERATION_MANAGER_VERSION, ap_generation_id = k, ap_activated_at_unix_ms = now\<rparr>) (\<lambda>_.
            let r' = r\<lparr>gr_state := Active, gr_updated_at_unix_ms := now\<rparr> in
            seq_m (write_record gj w r') (\<lambda>_.
            seq_m (retire_previous gj w k previous) (\<lambda>_.
            seq_m (collect_garbage gj w root 1) (\<lambda>_. return_m r')))))))))"

section \<open>Resuming\<close>

datatype resume_step = Paused ContentGenerationRecord | Completed ContentGenerationRecord
  | Continued ContentGenerationRecord ContentSyncSummary

text \<open>One iteration: a capacity limit pauses, an empty page validates and activates, any other page is
  applied and checkpointed.\<close>

definition project_page ::
  "('i, 'w, 'v) content_system \<Rightarrow> ContentIndexPolicy \<Rightarrow> ContentGenerationLimits \<Rightarrow> u64 \<Rightarrow> u64 \<Rightarrow> u64
     \<Rightarrow> ContentGenerationRecord \<Rightarrow> CatalogDocument list \<Rightarrow> ('i, resume_step) managed" where
  "project_page sys policy l current_bytes available reserve r page =
     (let w = sy_world sys; path = index_path (sy_root sys) (gr_generation_id r);
          declared = foldl (\<lambda>space d. saturating_add space (declared_eligible_bytes (sy_env sys) policy d)) 0 page;
          forecast = forecast_index_growth declared (length page) in
      if gl_max_content_index_bytes l < saturating_add current_bytes forecast
      then return_m (Paused (r\<lparr>gr_capacity_limit := Some CapContentIndexBytes\<rparr>))
      else if available \<le> saturating_add (saturating_add reserve forecast) (32 * 1048576)
      then return_m (Paused (r\<lparr>gr_capacity_limit := Some CapFreeDisk\<rparr>))
      else
        seq_m (store_m (\<lambda>store. apply_delta (sy_tantivy sys) (sy_env sys) (sy_cenv sys) (sy_fs sys) policy store path page [])) (\<lambda>summary.
        if cw_test_crash w (saturating_add (gr_commits r) 1) then fail_m ContentIo
        else
          seq_m (directory_bytes w) (\<lambda>bytes.
          seq_m (unix_time_millis w) (\<lambda>now.
            let r' = r\<lparr>gr_last_checkpoint := Some (docid (last page)),
                gr_documents_seen := saturating_add (gr_documents_seen r) (u64_of_len (length page)),
                gr_documents_projected := saturating_add (saturating_add (gr_documents_projected r) (cs_added_documents summary))
                  (cs_unchanged_documents summary),
                gr_bytes_processed := saturating_add (gr_bytes_processed r) declared,
                gr_commits := saturating_add (gr_commits r) 1,
                gr_index_generation := cs_generation summary,
                gr_content_index_bytes := bytes,
                gr_updated_at_unix_ms := now\<rparr> in
            seq_m (write_record (sy_json sys) w r') (\<lambda>_. return_m (Continued r' summary))))))"

definition resume_once ::
  "('i, 'w, 'v) content_system \<Rightarrow> ContentIndexPolicy \<Rightarrow> ContentGenerationLimits \<Rightarrow> ContentGenerationRecord \<Rightarrow> ('i, resume_step) managed" where
  "resume_once sys policy l record0 =
     (let w = sy_world sys; r = record0\<lparr>gr_capacity_limit := None\<rparr> in
      seq_m (disk_space w) (\<lambda>(space, available).
      seq_m (directory_bytes w) (\<lambda>current_bytes.
        let reserve = required_disk_reserve space l in
        if gl_max_content_index_bytes l \<le> current_bytes then return_m (Paused (r\<lparr>gr_capacity_limit := Some CapContentIndexBytes\<rparr>))
        else if gl_max_documents l \<le> gr_documents_projected r then return_m (Paused (r\<lparr>gr_capacity_limit := Some CapDocuments\<rparr>))
        else if available \<le> saturating_add reserve (32 * 1048576) then return_m (Paused (r\<lparr>gr_capacity_limit := Some CapFreeDisk\<rparr>))
        else
          let remaining = min (saturating_sub (gl_max_documents l) (gr_documents_projected r)) (ucast (gl_batch_documents l)) in
          seq_m (ticking (\<lambda>n. lift_graph (desired_catalog_page (sy_env sys) (cw_graph w n) (gr_last_checkpoint r) (unat remaining)))) (\<lambda>page.
            if page = [] then seq_m (activate_validated sys r) (\<lambda>r'. return_m (Completed r'))
            else project_page sys policy l current_bytes available reserve r page))))"

fun resume_loop ::
  "('i, 'w, 'v) content_system \<Rightarrow> ContentIndexPolicy \<Rightarrow> ContentGenerationLimits \<Rightarrow> nat \<Rightarrow> ContentGenerationRecord \<Rightarrow> ContentSyncSummary
     \<Rightarrow> ('i, ContentGenerationRecord \<times> ContentSyncSummary \<times> bool) managed" where
  "resume_loop sys policy l 0 r projection = return_m (r, projection, False)"
| "resume_loop sys policy l (Suc n) r projection =
     seq_m (resume_once sys policy l r) (\<lambda>step.
       case step of
         Paused r' \<Rightarrow> return_m (r', projection, False)
       | Completed r' \<Rightarrow> return_m (r', projection, True)
       | Continued r' summary \<Rightarrow> resume_loop sys policy l n r' (add_sync_summary projection summary))"

definition resume_initial_generation ::
  "('i, 'w, 'v) content_system \<Rightarrow> ContentIndexPolicy \<Rightarrow> ContentGenerationLimits \<Rightarrow> ('i, ContentGenerationSummary) managed" where
  "resume_initial_generation sys policy limits =
     (let w = sy_world sys in
      seq_m (read_m (\<lambda>_. limits_validate limits)) (\<lambda>l.
      seq_m (recover_or_create_building sys policy (map (cw_root_text w) (pol_roots policy))) (\<lambda>record0.
      seq_m (resume_loop sys policy l (unat (gl_maximum_batches l)) record0 default_sync_summary) (\<lambda>(r, projection, finished).
      seq_m (directory_bytes w) (\<lambda>bytes.
      seq_m (unix_time_millis w) (\<lambda>now.
        let r' = r\<lparr>gr_content_index_bytes := bytes, gr_updated_at_unix_ms := now\<rparr> in
        seq_m (write_record (sy_json sys) w r') (\<lambda>_.
        seq_m (disk_space w) (\<lambda>(space, available).
          return_m \<lparr>gs_generation = r', gs_complete = finished, gs_capacity_limited = (gr_capacity_limit r' \<noteq> None),
            gs_projection = projection, gs_available_disk_bytes = available,
            gs_required_disk_reserve_bytes = required_disk_reserve space l\<rparr>))))))))"

section \<open>Readers and the projection worker\<close>

definition resolve_active_index :: "'v generation_json \<Rightarrow> string \<Rightarrow> 'i content_root \<Rightarrow> string content_result" where
  "resolve_active_index gj root st =
     (if has_schema_marker (mg_store st) root then Inr root
      else (case mg_marker st of
              None \<Rightarrow> Inl ContentIo
            | Some marker \<Rightarrow>
                if marker \<noteq> CONTENT_SCHEMA_ID then Inl ContentSchemaMismatch
                else and_then (active_pointer gj st) (\<lambda>p.
                  if ap_version p \<noteq> GENERATION_MANAGER_VERSION \<or> \<not> valid_generation_id (ap_generation_id p)
                  then Inl ContentSchemaMismatch
                  else Inr (index_path root (ap_generation_id p)))))"

record ContentReader =
  rd_managed :: bool
  rd_path :: string

definition content_open :: "('i, 'w) content_tantivy \<Rightarrow> 'v generation_json \<Rightarrow> string \<Rightarrow> 'i content_root \<Rightarrow> ContentReader content_result" where
  "content_open tv gj root st =
     and_then (resolve_active_index gj root st) (\<lambda>resolved.
     and_then (open_index tv (mg_store st) resolved) (\<lambda>_. Inr \<lparr>rd_managed = (mg_marker st \<noteq> None), rd_path = resolved\<rparr>))"

definition current_state ::
  "('i, 'w) content_tantivy \<Rightarrow> 'v generation_json \<Rightarrow> string \<Rightarrow> 'i content_root \<Rightarrow> ContentReader \<Rightarrow> ContentReader content_result" where
  "current_state tv gj root st reader =
     (if \<not> rd_managed reader then Inr reader
      else and_then (resolve_active_index gj root st) (\<lambda>active.
             if active = rd_path reader then Inr reader
             else and_then (open_index tv (mg_store st) active) (\<lambda>_. Inr (reader\<lparr>rd_path := active\<rparr>))))"

text \<open>Reloading a reader reads the last commit of its directory.\<close>

definition reload :: "'i content_root \<Rightarrow> ContentReader \<Rightarrow> 'i content_result" where
  "reload st reader = ok_or (Option.bind (mg_store st (rd_path reader)) cd_index) ContentTantivy"

definition reader_search ::
  "('i, 'w) content_tantivy \<Rightarrow> catalog_env \<Rightarrow> (uchar \<Rightarrow> bool) \<Rightarrow> 'v generation_json \<Rightarrow> string \<Rightarrow> 'i content_root \<Rightarrow> ContentReader
     \<Rightarrow> string \<Rightarrow> nat \<Rightarrow> ContentReader \<times> CatalogDocument list content_result" where
  "reader_search tv cenv is_whitespace gj root st reader query limit =
     (let q = trim is_whitespace query in
      if q = [] \<or> 1024 < length q \<or> \<not> (1 \<le> limit \<and> limit \<le> 100) then (reader, Inl ContentQuery)
      else (case current_state tv gj root st reader of
              Inl e \<Rightarrow> (reader, Inl e)
            | Inr reader' \<Rightarrow> (reader', and_then (reload st reader') (\<lambda>i. content_search tv cenv is_whitespace i query limit))))"

definition reader_document_count ::
  "('i, 'w) content_tantivy \<Rightarrow> 'v generation_json \<Rightarrow> string \<Rightarrow> 'i content_root \<Rightarrow> ContentReader \<Rightarrow> ContentReader \<times> nat content_result" where
  "reader_document_count tv gj root st reader =
     (case current_state tv gj root st reader of
        Inl e \<Rightarrow> (reader, Inl e)
      | Inr reader' \<Rightarrow> (reader', and_then (reload st reader') (\<lambda>i. Inr (length (xt_documents tv i)))))"

record ContentProjectionWorker =
  wk_root :: string
  wk_policy :: ContentIndexPolicy

definition from_workspace ::
  "'v json_env \<Rightarrow> ('v, ProjectionWorkspaceManifest) value_codec \<Rightarrow> content_fs \<Rightarrow> string \<Rightarrow> durable_file \<Rightarrow> ContentProjectionWorker content_result" where
  "from_workspace je vc fs workspace manifest_file =
     and_then (read_json je vc manifest_file) (\<lambda>m.
       if pm_version m \<noteq> 1 \<and> pm_version m \<noteq> 2 then Inl ContentSchemaMismatch
       else and_then (policy_new fs (pm_roots m) (pm_max_file_bytes m)) (\<lambda>policy.
              Inr \<lparr>wk_root = workspace @ ''/content-index-v1'', wk_policy = policy\<rparr>))"

definition worker_path :: "'v generation_json \<Rightarrow> 'i content_world \<Rightarrow> string \<Rightarrow> ('i, string) managed" where
  "worker_path gj w root st =
     (if has_schema_marker (mg_store st) root then (st, Inr root)
      else seq_m (manager_open gj w root) (\<lambda>_. read_m (active_index_path gj root)) st)"

definition worker_project ::
  "('i, 'w, 'v) content_system \<Rightarrow> ContentIndexPolicy \<Rightarrow> ContentProjectionOptions \<Rightarrow> graph_db \<Rightarrow> 'i content_root
     \<Rightarrow> graph_db \<times> 'i content_root \<times> DurableContentProjectionSummary content_result" where
  "worker_project sys policy opts db st =
     (if \<not> valid_projection_options opts then (db, st, Inl InvalidPolicy)
      else (case cw_open_graph (sy_world sys) (mg_tick st) of
              Some e \<Rightarrow> (db, st\<lparr>mg_tick := Suc (mg_tick st)\<rparr>, Inl (ContentGraph e))
            | None \<Rightarrow>
                (case and_then (lift_graph (projector_checkpoint db CONTENT_SCHEMA_ID)) (\<lambda>found. ok_or found MissingPayload) of
                   Inl e \<Rightarrow> (db, st, Inl e)
                 | Inr cp \<Rightarrow>
                     (case worker_path (sy_json sys) (sy_world sys) (sy_root sys) st of
                        (st', Inl e) \<Rightarrow> (db, st', Inl e)
                      | (st', Inr path) \<Rightarrow>
                          (case project_at (sy_tantivy sys) (sy_env sys) (sy_cenv sys) (sy_fs sys) policy opts (pr_last_sequence cp)
                                  path db (mg_store st') of
                             (db', store', r) \<Rightarrow> (db', st'\<lparr>mg_store := store'\<rparr>, r))))))"

definition worker_backlog :: "'i content_world \<Rightarrow> graph_db \<Rightarrow> 'i content_root \<Rightarrow> u64 content_result" where
  "worker_backlog w db st = (case cw_open_graph w (mg_tick st) of None \<Rightarrow> content_backlog db | Some e \<Rightarrow> Inl (ContentGraph e))"
section \<open>Triples for managed actions\<close>

text \<open>From a state with \<open>P\<close>, a result satisfies \<open>Q\<close> and an error leaves a state with \<open>E\<close>.\<close>

definition triple :: "('i content_root \<Rightarrow> bool) \<Rightarrow> ('i, 'a) managed \<Rightarrow> ('a \<Rightarrow> 'i content_root \<Rightarrow> bool) \<Rightarrow> ('i content_root \<Rightarrow> bool) \<Rightarrow> bool" where
  "triple P m Q E \<longleftrightarrow> (\<forall>st. P st \<longrightarrow> (case m st of (st', Inl _) \<Rightarrow> E st' | (st', Inr x) \<Rightarrow> Q x st'))"

abbreviation keeps :: "('i content_root \<Rightarrow> bool) \<Rightarrow> ('i, 'a) managed \<Rightarrow> bool" where
  "keeps P m \<equiv> triple P m (\<lambda>_. P) P"

named_theorems triples \<open>triples of the primitive actions\<close>

lemma triple_seq:
  assumes "triple P m Q E" "\<And>x. triple (Q x) (f x) R E"
  shows "triple P (seq_m m f) R E"
  unfolding triple_def
proof (intro allI impI)
  fix st
  assume "P st"
  obtain st1 x where m: "m st = (st1, x)" by fastforce
  show "case seq_m m f st of (st', Inl _) \<Rightarrow> E st' | (st', Inr y) \<Rightarrow> R y st'"
  proof (cases x)
    case (Inl e)
    then show ?thesis using assms(1) \<open>P st\<close> m by (auto simp: triple_def seq_m_def)
  next
    case (Inr y)
    then have "Q y st1" using assms(1) \<open>P st\<close> m by (auto simp: triple_def)
    then show ?thesis using assms(2) [of y] m Inr by (simp add: triple_def seq_m_def)
  qed
qed

lemma triple_weaken: "triple P m Q E \<Longrightarrow> (\<And>st. P' st \<Longrightarrow> P st) \<Longrightarrow> (\<And>x st. Q x st \<Longrightarrow> Q' x st) \<Longrightarrow> (\<And>st. E st \<Longrightarrow> E' st) \<Longrightarrow> triple P' m Q' E'"
  by (fastforce simp: triple_def split: sum.splits)

lemma triple_return: "(\<And>st. P st \<Longrightarrow> Q x st) \<Longrightarrow> triple P (return_m x) Q E"
  by (simp add: triple_def return_m_def)

lemma triple_fail: "(\<And>st. P st \<Longrightarrow> E st) \<Longrightarrow> triple P (fail_m e) Q E"
  by (simp add: triple_def fail_m_def)

lemma triple_read: "triple P (read_m f) (\<lambda>x st. P st \<and> f st = Inr x) P"
  by (auto simp: triple_def read_m_def split: sum.splits)

lemma triple_if: "(b \<Longrightarrow> triple P m Q E) \<Longrightarrow> (\<not> b \<Longrightarrow> triple P m' Q E) \<Longrightarrow> triple P (if b then m else m') Q E"
  by simp

lemma keeps_seq: "keeps P m \<Longrightarrow> (\<And>x. keeps P (f x)) \<Longrightarrow> keeps P (seq_m m f)"
  by (rule triple_seq)

lemma keeps_each: "(\<And>x. x \<in> set xs \<Longrightarrow> keeps P (f x)) \<Longrightarrow> keeps P (each_m f xs)"
  by (induction xs) (auto intro: triple_return keeps_seq)

lemma keeps_read: "keeps P (read_m f)"
  by (rule triple_weaken [OF triple_read]) simp_all

lemmas keeps_rules = keeps_seq keeps_each keeps_read triple_return triple_fail triple_if

section \<open>The active index stays in place\<close>

text \<open>What every action but activation and collection keeps: the active pointer, and a set of index directories.\<close>

definition undisturbed :: "durable_file \<Rightarrow> string set \<Rightarrow> 'i content_root \<Rightarrow> bool" where
  "undisturbed a M st \<longleftrightarrow> mg_active st = a \<and> (\<forall>path \<in> M. has_schema_marker (mg_store st) path)"

text \<open>A predicate that neither time nor a state file concerns.\<close>

definition about_store :: "('i content_root \<Rightarrow> bool) \<Rightarrow> bool" where
  "about_store P \<longleftrightarrow> (\<forall>st st'. mg_active st' = mg_active st \<and> mg_store st' = mg_store st \<longrightarrow> P st' = P st)"

lemma about_storeD: "about_store P \<Longrightarrow> mg_active st' = mg_active st \<Longrightarrow> mg_store st' = mg_store st \<Longrightarrow> P st \<Longrightarrow> P st'"
  unfolding about_store_def by blast

lemma about_undisturbed: "about_store (undisturbed a M)"
  by (simp add: about_store_def undisturbed_def)

lemma keeps_about:
  assumes "about_store P" "\<And>st. mg_active (fst (m st)) = mg_active st \<and> mg_store (fst (m st)) = mg_store st"
  shows "keeps P m"
  unfolding triple_def
proof (intro allI impI)
  fix st
  assume "P st"
  then have "P (fst (m st))" using about_storeD [OF assms(1), of "fst (m st)" st] assms(2) by blast
  then show "case m st of (st', Inl _) \<Rightarrow> P st' | (st', Inr x) \<Rightarrow> P st'" by (auto split: prod.splits sum.splits)
qed

lemma keeps_ticking: "about_store P \<Longrightarrow> keeps P (ticking f)"
  by (rule keeps_about) (simp_all add: ticking_def)

lemma keeps_files:
  assumes "about_store P"
  shows "keeps P (unix_time_millis w)" "keeps P (disk_space w)" "keeps P (directory_bytes w)"
    "keeps P (write_record gj w r)" "keeps P (create_generation_dir w k)"
  using assms
  by (auto simp: unix_time_millis_def disk_space_def directory_bytes_def write_record_def create_generation_dir_def ticking_def Let_def
      intro!: keeps_about split: prod.splits)

lemma keeps_retire: "about_store P \<Longrightarrow> keeps P (retire_previous gj w k previous)"
  by (rule keeps_about) (auto simp: retire_previous_def return_m_def unix_time_millis_def ticking_def split: sum.splits prod.splits)

lemma keeps_records: "about_store P \<Longrightarrow> keeps P (records gj w)"
  unfolding records_def by (intro keeps_rules keeps_ticking)

lemma keeps_set_state: "about_store P \<Longrightarrow> keeps P (set_state gj w s r)"
  unfolding set_state_def by (intro keeps_rules keeps_files)

text \<open>Writing an index directory keeps the markers of all.\<close>

lemma apply_delta_markers:
  "has_schema_marker store p \<Longrightarrow> has_schema_marker (fst (apply_delta tv env cenv fs policy store path us ds)) p"
proof -
  assume p: "has_schema_marker store p"
  obtain x where x: "apply_delta tv env cenv fs policy store path us ds = publish_sync tv store path x"
    unfolding apply_delta_def by blast
  obtain store' r where "publish_sync tv store path x = (store', r)" by fastforce
  then show ?thesis using p publish_sync_cases [of tv store path x store' r] by (auto simp: x has_schema_marker_def)
qed

lemma build_markers:
  "has_schema_marker store p \<Longrightarrow> has_schema_marker (fst (build tv env cenv fs io policy store path ds)) p"
  by (auto simp: build_def build_fallible_def content_commit_def has_schema_marker_def Let_def
      split: option.splits sum.splits prod.splits if_splits)

lemma keeps_store:
  assumes "\<And>store p. has_schema_marker store p \<Longrightarrow> has_schema_marker (fst (f store)) p"
  shows "keeps (undisturbed a M) (store_m f)"
  using assms by (auto simp: triple_def store_m_def undisturbed_def split: prod.splits sum.splits) (metis fst_conv)+

lemma digit_alphanumeric: "n < 10 \<Longrightarrow> is_ascii_alphanumeric (digit n)"
  by (simp add: is_ascii_alphanumeric_def less_char_def less_eq_char_def of_char_digit)

lemma zero_padded_chars: "c \<in> set (zero_padded w n) \<Longrightarrow> is_ascii_alphanumeric c"
  by (induction w n rule: zero_padded.induct) (auto intro: digit_alphanumeric)

lemma generation_name_valid: "valid_generation_id (generation_name sequence now n)"
proof -
  have "\<forall>c \<in> set ''generation-''. is_ascii_alphanumeric c \<or> c = CHR ''-''"
    by (simp add: is_ascii_alphanumeric_def less_eq_char_def)
  then show ?thesis
    unfolding valid_generation_id_def generation_name_def by (auto dest: zero_padded_chars simp: prefix_def)
qed

text \<open>Every record is in the directory of its name.\<close>

definition ids_ok :: "'v generation_json \<Rightarrow> 'i content_root \<Rightarrow> bool" where
  "ids_ok gj st \<longleftrightarrow> (\<forall>(name, f) \<in> set (mg_generations st). \<forall>r.
     read_json (gj_env gj) (gj_record gj) f = Inr r \<longrightarrow> gr_generation_id r = name)"

lemma decode_records_Inr:
  assumes "decode_records gj entries = Inr rs"
  shows "list_all2 (\<lambda>(name, f) r. read_json (gj_env gj) (gj_record gj) f = Inr r)
    (filter (\<lambda>(name, f). valid_generation_id name \<and> durable_json_exists f) entries) rs"
  using assms by (auto simp: decode_records_def fold_r_collect case_prod_unfold)

lemma list_all2_right: "list_all2 P xs ys \<Longrightarrow> y \<in> set ys \<Longrightarrow> \<exists>x \<in> set xs. P x y"
  by (induction rule: list_all2_induct) auto

lemma decode_records_member:
  assumes "decode_records gj (mg_generations st) = Inr rs" "r \<in> set rs" "ids_ok gj st"
  shows "valid_generation_id (gr_generation_id r)"
    "\<exists>f. (gr_generation_id r, f) \<in> set (mg_generations st) \<and> read_json (gj_env gj) (gj_record gj) f = Inr r"
proof -
  obtain name f where "(name, f) \<in> set (mg_generations st)" "valid_generation_id name" "read_json (gj_env gj) (gj_record gj) f = Inr r"
    using list_all2_right [OF decode_records_Inr [OF assms(1)] assms(2)] by auto
  moreover from this have "gr_generation_id r = name" using assms(3) by (auto simp: ids_ok_def)
  ultimately show "valid_generation_id (gr_generation_id r)"
    "\<exists>f. (gr_generation_id r, f) \<in> set (mg_generations st) \<and> read_json (gj_env gj) (gj_record gj) f = Inr r" by blast+
qed

lemma records_valid:
  "triple (\<lambda>st. undisturbed a M st \<and> ids_ok gj st) (records gj w)
     (\<lambda>rs st. undisturbed a M st \<and> (\<forall>r \<in> set rs. valid_generation_id (gr_generation_id r))) (undisturbed a M)"
proof -
  have "triple (\<lambda>st. undisturbed a M st \<and> ids_ok gj st) (ticking f) (\<lambda>_ st. undisturbed a M st \<and> ids_ok gj st) (undisturbed a M)" for f
    by (auto simp: triple_def ticking_def undisturbed_def ids_ok_def split: sum.splits)
  then show ?thesis
    unfolding records_def
    by (rule triple_seq) (auto simp: triple_def read_m_def dest: decode_records_member(1) split: sum.splits)
qed

lemma new_generation_valid:
  "triple (undisturbed a M) (new_generation sys policy roots)
     (\<lambda>r st. undisturbed a M st \<and> valid_generation_id (gr_generation_id r)) (undisturbed a M)"
proof -
  note keep = keeps_files [OF about_undisturbed]
  have name: "triple (undisturbed a M) (read_m (unique_generation_id s n)) (\<lambda>k st. undisturbed a M st \<and> valid_generation_id k) (undisturbed a M)" for s n
    by (rule triple_weaken [OF triple_read])
       (auto simp: unique_generation_id_def result_simps find_Some_iff generation_name_valid)
  have rest: "triple (\<lambda>st. undisturbed a M st \<and> valid_generation_id k) m (\<lambda>r st. undisturbed a M st \<and> valid_generation_id (gr_generation_id r)) (undisturbed a M)"
    if "keeps (undisturbed a M) m" "\<And>st r st'. m st = (st', Inr r) \<Longrightarrow> gr_generation_id r = k" for m k
    using that by (fastforce simp: triple_def split: sum.splits prod.splits)
  show ?thesis
    unfolding new_generation_def Let_def
    by (rule triple_seq [OF keeps_ticking [OF about_undisturbed]], rule triple_seq [OF keep(1)], rule triple_seq [OF name], rule rest)
       (intro keeps_rules keep keeps_store build_markers, simp,
        auto simp: seq_m_def return_m_def split: prod.splits sum.splits)
qed

lemma triple_pure: "(C \<Longrightarrow> triple P m Q E) \<Longrightarrow> triple (\<lambda>st. P st \<and> C) m Q E"
  by (auto simp: triple_def)

lemma keeps_error: "keeps P m \<Longrightarrow> (\<And>st. P st \<Longrightarrow> E st) \<Longrightarrow> triple P m (\<lambda>_. P) E"
  by (rule triple_weaken)

lemma triple_cong: "(\<And>st. P st \<Longrightarrow> m st = m' st) \<Longrightarrow> triple P m' Q E \<Longrightarrow> triple P m Q E"
  by (simp add: triple_def)

lemma recover_or_create_valid:
  "triple (\<lambda>st. undisturbed a M st \<and> ids_ok (sy_json sys) st) (recover_or_create_building sys policy roots)
     (\<lambda>r st. undisturbed a M st \<and> valid_generation_id (gr_generation_id r)) (undisturbed a M)"
proof -
  have candidate: "r \<in> set rs" if "by_age (filter p rs) = r # rs'" for p r rs' rs
  proof -
    have "set (by_age (filter p rs)) = set (filter p rs)" by (simp add: by_age_def)
    with that show ?thesis by (auto simp: set_eq_iff)
  qed
  note keep = keeps_set_state [OF about_undisturbed]
  show ?thesis
    unfolding recover_or_create_building_def Let_def
    by (intro triple_seq [OF records_valid] triple_pure triple_seq [OF keeps_each [OF keep]])
       (auto intro!: triple_return new_generation_valid triple_seq [OF keep] split: list.splits dest!: candidate)
qed

section \<open>Switching the pointer\<close>

definition switched :: "('i, 'w, 'v) content_system \<Rightarrow> string \<Rightarrow> u64 \<Rightarrow> 'i content_root \<Rightarrow> bool" where
  "switched sys k n st \<longleftrightarrow>
     (\<exists>t. active_pointer (sy_json sys) st = Inr \<lparr>ap_version = GENERATION_MANAGER_VERSION, ap_generation_id = k, ap_activated_at_unix_ms = t\<rparr>)
   \<and> document_count (sy_tantivy sys) (mg_store st) (index_path (sy_root sys) k) = Inr n"

definition kept_or_switched :: "('i, 'w, 'v) content_system \<Rightarrow> durable_file \<Rightarrow> string set \<Rightarrow> string \<Rightarrow> 'i content_root \<Rightarrow> bool" where
  "kept_or_switched sys a M k st \<longleftrightarrow>
     (active_pointer (sy_json sys) st = read_json (gj_env (sy_json sys)) (gj_pointer (sy_json sys)) a
        \<and> (\<forall>path \<in> M. has_schema_marker (mg_store st) path))
   \<or> (\<exists>n. switched sys k n st)"

definition counted :: "('i, 'w, 'v) content_system \<Rightarrow> durable_file \<Rightarrow> string set \<Rightarrow> string \<Rightarrow> u64 \<Rightarrow> 'i content_root \<Rightarrow> bool" where
  "counted sys a M k n st \<longleftrightarrow> undisturbed a M st \<and> document_count (sy_tantivy sys) (mg_store st) (index_path (sy_root sys) k) = Inr n"

lemma about_switched: "about_store (switched sys k n)" "about_store (counted sys a M k n)"
  by (simp_all add: about_store_def switched_def counted_def undisturbed_def active_pointer_def)

lemma undisturbed_kept: "undisturbed a M st \<Longrightarrow> kept_or_switched sys a M k st"
  by (simp add: undisturbed_def kept_or_switched_def active_pointer_def)

lemma switched_kept: "switched sys k n st \<Longrightarrow> kept_or_switched sys a M k st"
  by (auto simp: kept_or_switched_def)

lemma counted_kept: "counted sys a M k n st \<Longrightarrow> kept_or_switched sys a M k st"
  by (simp add: counted_def undisturbed_kept)

lemma counted_error: "keeps (counted sys a M k n) m \<Longrightarrow> triple (counted sys a M k n) m (\<lambda>_. counted sys a M k n) (kept_or_switched sys a M k)"
  by (rule keeps_error) (simp_all add: counted_kept)

lemma switched_error: "keeps (switched sys k n) m \<Longrightarrow> triple (switched sys k n) m (\<lambda>_. switched sys k n) (kept_or_switched sys a M k)"
  by (rule keeps_error) (simp_all add: switched_kept)

lemma undisturbed_error: "keeps (undisturbed a M) m \<Longrightarrow> triple (undisturbed a M) m (\<lambda>_. undisturbed a M) (kept_or_switched sys a M k)"
  by (rule keeps_error) (simp_all add: undisturbed_kept)

lemma write_pointer_switches:
  assumes "envelope_laws (gj_env (sy_json sys))" "codec_laws (gj_pointer (sy_json sys))"
    and "durable_ok (gj_env (sy_json sys)) a" "sequence_left (gj_env (sy_json sys)) a"
    and "\<And>n. torn_detected (gj_env (sy_json sys)) (cw_write w n)"
  shows "triple (counted sys a M k n) (write_pointer (sy_json sys) w \<lparr>ap_version = GENERATION_MANAGER_VERSION, ap_generation_id = k,
      ap_activated_at_unix_ms = t\<rparr>) (\<lambda>_. switched sys k n) (kept_or_switched sys a M k)"
  unfolding triple_def
proof (intro allI impI)
  let ?p = "\<lparr>ap_version = GENERATION_MANAGER_VERSION, ap_generation_id = k, ap_activated_at_unix_ms = t\<rparr>"
  fix st
  assume st: "counted sys a M k n st"
  then have a: "mg_active st = a" by (simp add: counted_def undisturbed_def)
  obtain f r where w: "write_json_atomic (gj_env (sy_json sys)) (gj_pointer (sy_json sys)) (cw_write w (mg_tick st)) ?p a = (f, r)"
    by fastforce
  from write_reads [OF assms(1-5) w] st
  show "case write_pointer (sy_json sys) w ?p st of (st', Inl _) \<Rightarrow> kept_or_switched sys a M k st' | (st', Inr _) \<Rightarrow> switched sys k n st'"
    unfolding write_pointer_def a w
    by (auto simp: switched_def kept_or_switched_def active_pointer_def counted_def undisturbed_def split: sum.splits)
qed

lemma index_path_inj: "index_path root k = index_path root k' \<longleftrightarrow> k = k'"
  by (simp add: index_path_def)

lemma remove_generations_switched: "keeps (switched sys k n) (remove_generations w (sy_root sys) (Some k) removed rs)"
proof (induction rs arbitrary: removed)
  case (Cons r rs)
  have "keeps (switched sys k n) (remove_generation w (sy_root sys) k')" if "k' \<noteq> k" for k'
    using that
    by (auto simp: triple_def remove_generation_def switched_def active_pointer_def document_count_def open_index_def index_path_inj
        split: removal.splits option.splits)
  then show ?case using Cons.IH by (auto intro!: keeps_seq)
qed (simp add: triple_return)

lemma collect_garbage_switched: "keeps (switched sys k n) (collect_garbage (sy_json sys) w (sy_root sys) retain)"
proof -
  let ?m = "seq_m (records (sy_json sys) w) (\<lambda>rs. remove_generations w (sy_root sys) (Some k) []
    (filter (\<lambda>r. gr_state r = Failed) rs @ drop retain (by_age (filter (\<lambda>r. gr_state r = Retired) rs))))"
  have "keeps (switched sys k n) ?m" by (intro keeps_seq keeps_records about_switched remove_generations_switched)
  moreover have "collect_garbage (sy_json sys) w (sy_root sys) retain st = ?m st" if "switched sys k n st" for st
    using that by (auto simp: collect_garbage_def switched_def)
  ultimately show ?thesis by (rule triple_cong [rotated])
qed

lemma activate_switches:
  assumes "envelope_laws (gj_env (sy_json sys))" "codec_laws (gj_pointer (sy_json sys))"
    and "durable_ok (gj_env (sy_json sys)) a" "sequence_left (gj_env (sy_json sys)) a"
    and "\<And>n. torn_detected (gj_env (sy_json sys)) (cw_write (sy_world sys) n)"
  shows "triple (undisturbed a M) (activate_validated sys r)
    (\<lambda>r' st. switched sys (gr_generation_id r) (gr_documents_projected r') st \<and> gr_generation_id r' = gr_generation_id r)
    (kept_or_switched sys a M (gr_generation_id r))"
proof -
  let ?k = "gr_generation_id r" and ?w = "sy_world sys"
  have found: "triple (undisturbed a M) (read_m (\<lambda>st. document_count (sy_tantivy sys) (mg_store st) (index_path (sy_root sys) ?k)))
      (\<lambda>n. counted sys a M ?k n) (kept_or_switched sys a M ?k)"
    by (rule triple_weaken [OF triple_read [where P = "undisturbed a M"]]) (auto simp: counted_def intro: undisturbed_kept)
  note before = counted_error and after = switched_error
  show ?thesis
    unfolding activate_validated_def Let_def
    apply (rule triple_seq [OF found], rule triple_if)
     apply (rule triple_seq [OF before [OF keeps_set_state [OF about_switched(2)]]], rule triple_fail, erule counted_kept)
    apply (rule triple_seq [OF before [OF keeps_set_state [OF about_switched(2)]]])
    apply (rule triple_seq [OF before [OF keeps_read]])
    apply (rule triple_seq [OF before [OF keeps_files(1) [OF about_switched(2)]]])
    apply (rule triple_seq [OF write_pointer_switches [OF assms]])
    apply (rule triple_seq [OF after [OF keeps_files(4) [OF about_switched(1)]]])
    apply (rule triple_seq [OF after [OF keeps_retire [OF about_switched(1)]]])
    apply (rule triple_seq [OF after [OF collect_garbage_switched]])
    apply (rule triple_return, simp)
    done
qed

section \<open>Resuming never loses the active generation\<close>

text \<open>What resuming relies on: \<open>serde_json\<close> reads back what it wrote, a torn slot is recognised, and the pointer
  can be written.\<close>

definition pointer_safe :: "('i, 'w, 'v) content_system \<Rightarrow> durable_file \<Rightarrow> bool" where
  "pointer_safe sys a \<longleftrightarrow> envelope_laws (gj_env (sy_json sys)) \<and> codec_laws (gj_pointer (sy_json sys))
     \<and> durable_ok (gj_env (sy_json sys)) a \<and> sequence_left (gj_env (sy_json sys)) a
     \<and> (\<forall>n. torn_detected (gj_env (sy_json sys)) (cw_write (sy_world sys) n))"

definition resumed :: "('i, 'w, 'v) content_system \<Rightarrow> durable_file \<Rightarrow> string set \<Rightarrow> string \<Rightarrow> ContentGenerationRecord \<Rightarrow> bool \<Rightarrow> 'i content_root \<Rightarrow> bool" where
  "resumed sys a M k r finished st \<longleftrightarrow> gr_generation_id r = k
     \<and> (if finished then switched sys k (gr_documents_projected r) st else undisturbed a M st)"

definition step_result :: "resume_step \<Rightarrow> ContentGenerationRecord \<times> bool" where
  "step_result x = (case x of Paused r \<Rightarrow> (r, False) | Completed r \<Rightarrow> (r, True) | Continued r _ \<Rightarrow> (r, False))"

abbreviation (input) resumed_step :: "('i, 'w, 'v) content_system \<Rightarrow> durable_file \<Rightarrow> string set \<Rightarrow> string \<Rightarrow> resume_step \<Rightarrow> 'i content_root \<Rightarrow> bool" where
  "resumed_step sys a M k x \<equiv> resumed sys a M k (fst (step_result x)) (snd (step_result x))"

lemma about_resumed: "about_store (resumed sys a M k r finished)"
  unfolding about_store_def resumed_def
  by (simp add: switched_def undisturbed_def active_pointer_def)

lemma resumed_kept: "resumed sys a M k r finished st \<Longrightarrow> kept_or_switched sys a M k st"
  by (auto simp: resumed_def intro: undisturbed_kept switched_kept split: if_splits)

lemma resumed_error: "keeps (resumed sys a M k r b) m \<Longrightarrow> triple (resumed sys a M k r b) m (\<lambda>_. resumed sys a M k r b) (kept_or_switched sys a M k)"
  by (rule keeps_error) (simp_all add: resumed_kept)

lemma project_page_resumed:
  "triple (undisturbed a M) (project_page sys policy l b v rs r page)
     (resumed_step sys a M (gr_generation_id r)) (kept_or_switched sys a M (gr_generation_id r))"
proof -
  note keep = keeps_files [OF about_undisturbed, of a M] and err = undisturbed_error
  show ?thesis
    unfolding project_page_def Let_def
    by (intro triple_if triple_seq [OF err [OF keeps_store [OF apply_delta_markers]]] triple_seq [OF err [OF keep(3)]]
        triple_seq [OF err [OF keep(1)]] triple_seq [OF err [OF keep(4)]] triple_return triple_fail undisturbed_kept)
       (simp_all add: resumed_def step_result_def)
qed

lemma resume_once_resumed:
  assumes "pointer_safe sys a"
  shows "triple (undisturbed a M) (resume_once sys policy l r) (resumed_step sys a M (gr_generation_id r)) (kept_or_switched sys a M (gr_generation_id r))"
proof -
  note keep = keeps_files [OF about_undisturbed, of a M] and err = undisturbed_error
  let ?r = "r\<lparr>gr_capacity_limit := None\<rparr>"
  have finish: "triple (\<lambda>st. switched sys (gr_generation_id ?r) (gr_documents_projected r') st \<and> gr_generation_id r' = gr_generation_id ?r)
      (return_m (Completed r')) (resumed_step sys a M (gr_generation_id r)) (kept_or_switched sys a M (gr_generation_id r))" for r'
    by (rule triple_return) (simp add: resumed_def step_result_def)
  have activate: "triple (undisturbed a M) (activate_validated sys ?r)
      (\<lambda>r' st. switched sys (gr_generation_id ?r) (gr_documents_projected r') st \<and> gr_generation_id r' = gr_generation_id ?r)
      (kept_or_switched sys a M (gr_generation_id r))"
    using activate_switches [of sys a M ?r] assms by (simp add: pointer_safe_def)
  have page: "triple (undisturbed a M) (project_page sys policy l b v rs ?r page)
      (resumed_step sys a M (gr_generation_id r)) (kept_or_switched sys a M (gr_generation_id r))" for b v rs page
    using project_page_resumed [of a M sys policy l b v rs ?r page] by simp
  show ?thesis
    unfolding resume_once_def Let_def case_prod_unfold
    by (intro triple_seq [OF err [OF keep(2)]] triple_seq [OF err [OF keep(3)]] triple_if
        triple_seq [OF err [OF keeps_ticking [OF about_undisturbed]]] triple_seq [OF activate finish] page triple_return)
       (simp_all add: resumed_def step_result_def)
qed

lemma resume_loop_resumed:
  assumes "pointer_safe sys a"
  shows "triple (\<lambda>st. undisturbed a M st \<and> gr_generation_id r = k) (resume_loop sys policy l n r projection)
    (\<lambda>(r', _, finished). resumed sys a M k r' finished) (kept_or_switched sys a M k)"
proof (induction n arbitrary: r projection)
  case 0
  show ?case by (simp add: triple_def return_m_def resumed_def)
next
  case (Suc n)
  have rest: "triple (resumed_step sys a M k x) (case x of
        Paused r' \<Rightarrow> return_m (r', projection, False)
      | Completed r' \<Rightarrow> return_m (r', projection, True)
      | Continued r' summary \<Rightarrow> resume_loop sys policy l n r' (add_sync_summary projection summary))
      (\<lambda>(r', _, finished). resumed sys a M k r' finished) (kept_or_switched sys a M k)" for x
  proof (cases x)
    case (Continued r' summary)
    show ?thesis
      unfolding Continued resume_step.case
      by (rule triple_weaken [OF Suc.IH]) (simp add: step_result_def resumed_def)
  qed (simp_all add: triple_def return_m_def step_result_def)
  show ?case
  proof (rule triple_pure)
    assume k: "gr_generation_id r = k"
    show "triple (undisturbed a M) (resume_loop sys policy l (Suc n) r projection)
        (\<lambda>(r', _, finished). resumed sys a M k r' finished) (kept_or_switched sys a M k)"
      unfolding resume_loop.simps by (rule triple_seq [OF resume_once_resumed [OF assms, of M policy l r, unfolded k] rest])
  qed
qed

lemma resume_generation_resumed:
  assumes "pointer_safe sys a"
  shows "triple (\<lambda>st. undisturbed a M st \<and> ids_ok (sy_json sys) st) (resume_initial_generation sys policy limits)
    (\<lambda>s st. valid_generation_id (gr_generation_id (gs_generation s))
       \<and> resumed sys a M (gr_generation_id (gs_generation s)) (gs_generation s) (gs_complete s) st)
    (\<lambda>st. \<exists>k. valid_generation_id k \<and> kept_or_switched sys a M k st)"
proof -
  have start: "undisturbed a M st \<Longrightarrow> \<exists>k. valid_generation_id k \<and> kept_or_switched sys a M k st" for st
    using undisturbed_kept generation_name_valid by blast
  let ?P = "\<lambda>st. undisturbed a M st \<and> ids_ok (sy_json sys) st"
  have limits: "triple ?P (read_m (\<lambda>_. limits_validate limits)) (\<lambda>_. ?P) (\<lambda>st. \<exists>k. valid_generation_id k \<and> kept_or_switched sys a M k st)"
    by (rule triple_weaken [OF keeps_read [where P = ?P]]) (auto intro: start)
  have candidate: "triple ?P (recover_or_create_building sys policy roots) (\<lambda>r st. undisturbed a M st \<and> valid_generation_id (gr_generation_id r))
      (\<lambda>st. \<exists>k. valid_generation_id k \<and> kept_or_switched sys a M k st)" for roots
    by (rule triple_weaken [OF recover_or_create_valid]) (auto intro: start)
  have rest: "triple (\<lambda>st. undisturbed a M st \<and> gr_generation_id r = k)
      (seq_m (resume_loop sys policy l (unat (gl_maximum_batches l)) r default_sync_summary) (\<lambda>(r, projection, finished).
       seq_m (directory_bytes (sy_world sys)) (\<lambda>bytes. seq_m (unix_time_millis (sy_world sys)) (\<lambda>now.
       seq_m (write_record (sy_json sys) (sy_world sys) (r\<lparr>gr_content_index_bytes := bytes, gr_updated_at_unix_ms := now\<rparr>)) (\<lambda>_.
       seq_m (disk_space (sy_world sys)) (\<lambda>(space, available). return_m
          \<lparr>gs_generation = r\<lparr>gr_content_index_bytes := bytes, gr_updated_at_unix_ms := now\<rparr>, gs_complete = finished,
           gs_capacity_limited = (gr_capacity_limit (r\<lparr>gr_content_index_bytes := bytes, gr_updated_at_unix_ms := now\<rparr>) \<noteq> None),
           gs_projection = projection, gs_available_disk_bytes = available, gs_required_disk_reserve_bytes = required_disk_reserve space l\<rparr>))))))
      (\<lambda>s st. resumed sys a M k (gs_generation s) (gs_complete s) st) (kept_or_switched sys a M k)" for r k l
    unfolding case_prod_unfold
    by (rule triple_seq [OF resume_loop_resumed [OF assms]], simp only: case_prod_unfold,
        intro triple_seq [OF resumed_error [OF keeps_files(3) [OF about_resumed]]] triple_seq [OF resumed_error [OF keeps_files(1) [OF about_resumed]]]
          triple_seq [OF resumed_error [OF keeps_files(4) [OF about_resumed]]] triple_seq [OF resumed_error [OF keeps_files(2) [OF about_resumed]]] triple_return)
       (simp add: resumed_def)
  show ?thesis
    unfolding resume_initial_generation_def Let_def
    by (rule triple_seq [OF limits], rule triple_seq [OF candidate], rule triple_pure,
        rule triple_weaken [OF rest]) (auto simp: resumed_def)
qed

lemma switched_path:
  assumes "switched sys k n st" "valid_generation_id k"
  shows "active_index_path (sy_json sys) (sy_root sys) st = Inr (index_path (sy_root sys) k)"
proof -
  have "has_schema_marker (mg_store st) (index_path (sy_root sys) k)"
    using assms(1) by (auto simp: switched_def document_count_def open_index_def has_schema_marker_def result_simps split: option.splits)
  then show ?thesis using assms by (auto simp: switched_def active_index_path_def)
qed

lemma kept_path:
  assumes "active_index_path (sy_json sys) (sy_root sys) st = Inr p"
    and "active_pointer (sy_json sys) st' = active_pointer (sy_json sys) st" "has_schema_marker (mg_store st') p"
  shows "active_index_path (sy_json sys) (sy_root sys) st' = Inr p"
  using assms by (auto simp: active_index_path_def Let_def result_simps split: if_splits)


section \<open>What garbage collection spares\<close>

definition spared :: "string \<Rightarrow> string \<Rightarrow> durable_file \<Rightarrow> 'i content_dir option \<Rightarrow> 'i content_root \<Rightarrow> bool" where
  "spared root k f d st \<longleftrightarrow> map_of (mg_generations st) k = Some f \<and> mg_store st (index_path root k) = d"

lemma remove_generation_spares: "k' \<noteq> k \<Longrightarrow> keeps (spared root k f d) (remove_generation w root k')"
  by (auto simp: triple_def remove_generation_def spared_def index_path_inj delete_conv' update_conv' split: removal.splits option.splits)

lemma remove_generations_spares:
  assumes "\<forall>r \<in> set rs. active = Some (gr_generation_id r) \<or> gr_generation_id r \<noteq> k"
  shows "keeps (spared root k f d) (remove_generations w root active removed rs)"
  using assms
proof (induction rs arbitrary: removed)
  case (Cons r rs)
  then show ?case by (auto intro!: keeps_seq remove_generation_spares)
qed (simp add: triple_return)

lemma remove_generations_names:
  assumes "remove_generations w root active removed rs st = (st', Inr ks)"
  shows "\<exists>new. ks = removed @ new \<and> fst ` set (mg_generations st') = fst ` set (mg_generations st) - set new"
  using assms
proof (induction rs arbitrary: removed st)
  case (Cons r rs)
  show ?case
  proof (cases "active = Some (gr_generation_id r) \<or> \<not> valid_generation_id (gr_generation_id r)")
    case True
    then show ?thesis using Cons by auto
  next
    case False
    then obtain st1 where st1: "remove_generation w root (gr_generation_id r) st = (st1, Inr ())"
        "remove_generations w root active (removed @ [gr_generation_id r]) rs st1 = (st', Inr ks)"
      using Cons.prems by (auto simp: seq_m_def split: prod.splits sum.splits)
    from Cons.IH [OF st1(2)] obtain new where "ks = removed @ gr_generation_id r # new"
        "fst ` set (mg_generations st') = fst ` set (mg_generations st1) - set new" by auto
    moreover have "fst ` set (mg_generations st1) = fst ` set (mg_generations st) - {gr_generation_id r}"
      using st1(1) by (auto simp: remove_generation_def AList.delete_eq split: removal.splits option.splits if_splits)
    ultimately show ?thesis by (intro exI [of _ "gr_generation_id r # new"]) auto
  qed
qed (auto simp: return_m_def)

lemma collect_garbage_run:
  assumes "collect_garbage gj w root n st = (st', r)"
  obtains "isl r" "mg_generations st' = mg_generations st" "mg_store st' = mg_store st"
  | rs st1 where "decode_records gj (mg_generations st) = Inr rs" "mg_generations st1 = mg_generations st" "mg_store st1 = mg_store st"
      "remove_generations w root (case active_pointer gj st of Inl _ \<Rightarrow> None | Inr p \<Rightarrow> Some (ap_generation_id p)) []
        (filter (\<lambda>r. gr_state r = Failed) rs @ drop n (by_age (filter (\<lambda>r. gr_state r = Retired) rs))) st1 = (st', r)"
proof -
  define st1 where "st1 = st\<lparr>mg_tick := Suc (mg_tick st)\<rparr>"
  have "records gj w st = (st1, if cw_read_dir w (mg_tick st) then decode_records gj (mg_generations st) else Inl ContentIo)"
    by (simp add: records_def seq_m_def ticking_def read_m_def guard_r_def st1_def)
  then consider "(st', isl r) = (st1, True)" | rs where "decode_records gj (mg_generations st) = Inr rs"
      "remove_generations w root (case active_pointer gj st of Inl _ \<Rightarrow> None | Inr p \<Rightarrow> Some (ap_generation_id p)) []
        (filter (\<lambda>r. gr_state r = Failed) rs @ drop n (by_age (filter (\<lambda>r. gr_state r = Retired) rs))) st1 = (st', r)"
    using assms by (auto simp: collect_garbage_def seq_m_def Let_def split: sum.splits if_splits)
  then show thesis
  proof cases
    case 1
    then show ?thesis using that(1) by (simp add: st1_def)
  next
    case 2
    then show ?thesis using that(2) [of rs st1] by (simp add: st1_def)
  qed
qed

text \<open>C15: garbage collection removes only what is garbage. The generation the active pointer names, and every generation whose
  record is building, ready or active, keeps its state file and its index directory, even when a
  removal fails half-way; and on success exactly the reported generations are gone.\<close>

theorem collect_garbage_spares_live:
  assumes "ids_ok gj st" "distinct (map fst (mg_generations st))" "map_of (mg_generations st) k = Some f"
    and "(\<exists>p. active_pointer gj st = Inr p \<and> ap_generation_id p = k)
      \<or> (\<exists>r. read_json (gj_env gj) (gj_record gj) f = Inr r \<and> gr_state r \<in> {Building, Ready, Active})"
    and "collect_garbage gj w root n st = (st', result)"
  shows "map_of (mg_generations st') k = Some f \<and> mg_store st' (index_path root k) = mg_store st (index_path root k)
    \<and> (\<forall>removed. result = Inr removed \<longrightarrow> fst ` set (mg_generations st') = fst ` set (mg_generations st) - set removed)"
  using assms(5)
proof (cases rule: collect_garbage_run)
  case 1
  then show ?thesis using assms(3) by auto
next
  case (2 rs st1)
  let ?active = "case active_pointer gj st of Inl _ \<Rightarrow> None | Inr p \<Rightarrow> Some (ap_generation_id p)"
  let ?garbage = "filter (\<lambda>r. gr_state r = Failed) rs @ drop n (by_age (filter (\<lambda>r. gr_state r = Retired) rs))"
  have live: "?active = Some (gr_generation_id r) \<or> gr_generation_id r \<noteq> k" if "r \<in> set ?garbage" for r
  proof -
    have r: "r \<in> set rs" "gr_state r \<in> {Failed, Retired}"
      using that by (auto simp: by_age_def dest: in_set_dropD)
    obtain f' where "(gr_generation_id r, f') \<in> set (mg_generations st)" "read_json (gj_env gj) (gj_record gj) f' = Inr r"
      using decode_records_member(2) [OF 2(1) r(1) assms(1)] by blast
    moreover from this(1) have "map_of (mg_generations st) (gr_generation_id r) = Some f'" using assms(2) by simp
    ultimately show ?thesis using assms(3,4) r(2) by auto
  qed
  have start: "spared root k f (mg_store st (index_path root k)) st1" using assms(3) 2(2,3) by (simp add: spared_def)
  have "keeps (spared root k f (mg_store st (index_path root k))) (remove_generations w root ?active [] ?garbage)"
    by (rule remove_generations_spares) (use live in blast)
  then have "spared root k f (mg_store st (index_path root k)) st'"
    using start 2(4) by (cases result) (auto simp: triple_def dest!: spec [of _ st1])
  moreover have "fst ` set (mg_generations st') = fst ` set (mg_generations st) - set removed" if "result = Inr removed" for removed
    using remove_generations_names [OF 2(4) [unfolded that]] 2(2) by auto
  ultimately show ?thesis by (auto simp: spared_def)
qed

section \<open>Lifecycle recovery\<close>

text \<open>A state file that can be written, with the record of its directory.\<close>

definition writable_record :: "'v generation_json \<Rightarrow> durable_file \<Rightarrow> bool" where
  "writable_record gj f \<longleftrightarrow> durable_ok (gj_env gj) f \<and> sequence_left (gj_env gj) f"

definition settled :: "'v generation_json \<Rightarrow> string \<Rightarrow> string \<Rightarrow> durable_file \<Rightarrow> bool" where
  "settled gj active name f \<longleftrightarrow> (\<exists>r. read_json (gj_env gj) (gj_record gj) f = Inr r \<and> gr_generation_id r = name
     \<and> (gr_state r = Active \<longleftrightarrow> name = active))"

lemma recover_record_settles:
  assumes "envelope_laws (gj_env gj)" "codec_laws (gj_record gj)" "\<And>n. torn_detected (gj_env gj) (cw_write w n)"
    and "map_of (mg_generations st) (gr_generation_id r) = Some f" "read_json (gj_env gj) (gj_record gj) f = Inr r" "writable_record gj f"
    and "recover_record gj w active r st = (st', Inr ())"
  shows "(\<exists>f'. map_of (mg_generations st') (gr_generation_id r) = Some f' \<and> settled gj active (gr_generation_id r) f')
    \<and> (\<forall>k. k \<noteq> gr_generation_id r \<longrightarrow> map_of (mg_generations st') k = map_of (mg_generations st) k)"
proof (cases "recovered_state active r = None \<or> recovered_state active r = Some (gr_state r)")
  case True
  then have "st' = st" using assms(7) by (auto simp: recover_record_def return_m_def)
  moreover have "settled gj active (gr_generation_id r) f" using True assms(5) by (auto simp: settled_def recovered_state_def split: if_splits)
  ultimately show ?thesis using assms(4) by blast
next
  case False
  then obtain s where s: "recovered_state active r = Some s" "s \<noteq> gr_state r" by auto
  define r' where "r' = r\<lparr>gr_state := s, gr_updated_at_unix_ms := cw_clock w (mg_tick st)\<rparr>"
  obtain f' x where w: "write_json_atomic (gj_env gj) (gj_record gj) (cw_write w (Suc (mg_tick st))) r' f = (f', x)" by fastforce
  have run: "recover_record gj w active r st = (st\<lparr>mg_generations := (if cw_write w (Suc (mg_tick st)) = DirectoryFailed then mg_generations st
        else AList.update (gr_generation_id r) f' (mg_generations st)), mg_tick := Suc (Suc (mg_tick st))\<rparr>, x)"
    using s w assms(4)
    by (simp add: recover_record_def set_state_def seq_m_def unix_time_millis_def ticking_def write_record_def generation_file_def r'_def)
  then have x: "x = Inr ()" using assms(7) by simp
  then have "cw_write w (Suc (mg_tick st)) \<noteq> DirectoryFailed" using w by (auto simp: write_json_atomic_def)
  then have "mg_generations st' = AList.update (gr_generation_id r) f' (mg_generations st)" using assms(7) run by auto
  moreover have "read_json (gj_env gj) (gj_record gj) f' = Inr r'"
    using write_reads [OF assms(1,2) _ _ assms(3) w] assms(6) x by (simp add: writable_record_def)
  then have "settled gj active (gr_generation_id r) f'"
    using s by (auto simp: settled_def r'_def recovered_state_def split: if_splits)
  ultimately show ?thesis by (simp add: update_conv')
qed

lemma recover_each:
  assumes laws: "envelope_laws (gj_env gj)" "codec_laws (gj_record gj)" "\<And>n. torn_detected (gj_env gj) (cw_write w n)"
    and "distinct (map gr_generation_id rs)" "each_m (recover_record gj w active) rs st = (st', Inr ())"
    and "\<And>r. r \<in> set rs \<Longrightarrow> \<exists>f. map_of (mg_generations st) (gr_generation_id r) = Some f
      \<and> read_json (gj_env gj) (gj_record gj) f = Inr r \<and> writable_record gj f"
  shows "(\<forall>r \<in> set rs. \<exists>f. map_of (mg_generations st') (gr_generation_id r) = Some f \<and> settled gj active (gr_generation_id r) f)
    \<and> (\<forall>k. k \<notin> gr_generation_id ` set rs \<longrightarrow> map_of (mg_generations st') k = map_of (mg_generations st) k)"
  using assms(4-6)
proof (induction rs arbitrary: st)
  case (Cons r rs)
  obtain st1 where st1: "recover_record gj w active r st = (st1, Inr ())" "each_m (recover_record gj w active) rs st1 = (st', Inr ())"
    using Cons.prems(2) by (auto simp: seq_m_def split: prod.splits sum.splits)
  obtain f where f: "map_of (mg_generations st) (gr_generation_id r) = Some f" "read_json (gj_env gj) (gj_record gj) f = Inr r" "writable_record gj f"
    using Cons.prems(3) by auto
  note step = recover_record_settles [OF laws f st1(1)]
  have others: "\<exists>f. map_of (mg_generations st1) (gr_generation_id q) = Some f \<and> read_json (gj_env gj) (gj_record gj) f = Inr q \<and> writable_record gj f"
    if "q \<in> set rs" for q
  proof -
    have "gr_generation_id q \<noteq> gr_generation_id r" using Cons.prems(1) that by (auto simp: image_iff)
    then show ?thesis using step Cons.prems(3) [of q] that by simp
  qed
  have "distinct (map gr_generation_id rs)" using Cons.prems(1) by simp
  note ih = Cons.IH [OF this st1(2) others]
  have "gr_generation_id r \<notin> gr_generation_id ` set rs" using Cons.prems(1) by simp
  then show ?case using ih step by auto
qed (simp add: return_m_def)

text \<open>Opening a content root repairs its lifecycle. After a crash at any point of an activation, a successful open with
  a readable active pointer leaves exactly the generation it names active: every generation directory
  with a state file has a readable record, and the record is active if and only if the pointer names it.\<close>

theorem manager_open_repairs_lifecycle:
  assumes "envelope_laws (gj_env gj)" "codec_laws (gj_record gj)" "\<And>n. torn_detected (gj_env gj) (cw_write w n)"
    and "ids_ok gj st" "distinct (map fst (mg_generations st))" "\<And>name f. (name, f) \<in> set (mg_generations st) \<Longrightarrow> writable_record gj f"
    and "active_pointer gj st = Inr p" "manager_open gj w root st = (st', Inr ())"
    and "map_of (mg_generations st) name = Some f" "valid_generation_id name" "durable_json_exists f"
  shows "\<exists>f'. map_of (mg_generations st') name = Some f' \<and> settled gj (ap_generation_id p) name f'"
proof -
  have "\<exists>st0 \<in> {st, st\<lparr>mg_marker := Some CONTENT_SCHEMA_ID\<rparr>}. recover_lifecycle gj w st0 = (st', Inr ())"
    using assms(8) by (auto simp: manager_open_def split: if_splits option.splits)
  then obtain st0 where "st0 \<in> {st, st\<lparr>mg_marker := Some CONTENT_SCHEMA_ID\<rparr>}" and run: "recover_lifecycle gj w st0 = (st', Inr ())"
    by blast
  then have st0: "mg_generations st0 = mg_generations st" "mg_active st0 = mg_active st" "recover_lifecycle gj w st0 = (st', Inr ())"
    using run by auto
  define st1 where "st1 = st0\<lparr>mg_tick := Suc (mg_tick st0)\<rparr>"
  obtain rs where rs: "decode_records gj (mg_generations st) = Inr rs" "each_m (recover_record gj w (ap_generation_id p)) rs st1 = (st', Inr ())"
    using st0 assms(7)
    by (auto simp: recover_lifecycle_def active_pointer_def seq_m_def records_def ticking_def read_m_def guard_r_def st1_def
        split: if_splits sum.splits)
  let ?live = "filter (\<lambda>(name, f). valid_generation_id name \<and> durable_json_exists f) (mg_generations st)"
  have all: "list_all2 (\<lambda>(name, f) r. read_json (gj_env gj) (gj_record gj) f = Inr r) ?live rs" by (rule decode_records_Inr [OF rs(1)])
  have "list_all2 (\<lambda>x r. fst x = gr_generation_id r) ?live rs"
    by (rule list.rel_mono_strong [OF all]) (use assms(4) in \<open>auto simp: ids_ok_def\<close>)
  then have ids: "map gr_generation_id rs = map fst ?live" by (auto simp: list_all2_conv_all_nth intro: nth_equalityI)
  have "distinct (map gr_generation_id rs)" unfolding ids by (rule distinct_map_filter [OF assms(5)])
  moreover have "\<exists>f. map_of (mg_generations st1) (gr_generation_id r) = Some f \<and> read_json (gj_env gj) (gj_record gj) f = Inr r \<and> writable_record gj f"
    if "r \<in> set rs" for r
    using decode_records_member(2) [OF rs(1) that assms(4)] assms(5,6) st0(1) by (auto simp: st1_def)
  ultimately have "\<forall>r \<in> set rs. \<exists>f. map_of (mg_generations st') (gr_generation_id r) = Some f \<and> settled gj (ap_generation_id p) (gr_generation_id r) f"
    using recover_each [OF assms(1-3) _ rs(2)] by blast
  moreover have "name \<in> set (map gr_generation_id rs)"
    unfolding ids using assms(9-11) by (auto simp: image_iff dest: map_of_SomeD)
  ultimately show ?thesis by auto
qed

section \<open>Readers follow the pointer\<close>

text \<open>A reader of a managed root that was opened before a switch searches the generation the pointer names now.\<close>

lemma current_state_follows:
  assumes "rd_managed reader" "current_state tv gj root st reader = Inr reader'"
  shows "resolve_active_index gj root st = Inr (rd_path reader') \<and> rd_managed reader'"
  using assms by (auto simp: current_state_def result_simps split: if_splits)

lemma resolve_active:
  assumes "active_index_path gj root st = Inr p" "\<not> has_schema_marker (mg_store st) root" "mg_marker st = Some CONTENT_SCHEMA_ID"
  shows "resolve_active_index gj root st = Inr p"
  using assms by (auto simp: resolve_active_index_def active_index_path_def Let_def result_simps split: if_splits)

section \<open>The projection worker\<close>

text \<open>The index directory the worker projects into, given the state of the root.\<close>

definition content_target :: "'v generation_json \<Rightarrow> string \<Rightarrow> 'i content_root \<Rightarrow> string content_result" where
  "content_target gj root st = (if has_schema_marker (mg_store st) root then Inr root else active_index_path gj root st)"

lemma keeps_fst: "keeps P m \<Longrightarrow> P st \<Longrightarrow> P (fst (m st))"
  unfolding triple_def by (cases "m st"; cases "snd (m st)") auto

lemma recover_lifecycle_files:
  "mg_store (fst (recover_lifecycle gj w st)) = mg_store st \<and> mg_active (fst (recover_lifecycle gj w st)) = mg_active st"
proof -
  have same: "about_store (\<lambda>st'. mg_store st' = mg_store st \<and> mg_active st' = mg_active st)" by (simp add: about_store_def)
  have "keeps (\<lambda>st'. mg_store st' = mg_store st \<and> mg_active st' = mg_active st) (recover_record gj w k r)" for k r
    unfolding recover_record_def by (auto intro!: triple_return keeps_set_state [OF same] split: option.splits)
  then have "keeps (\<lambda>st'. mg_store st' = mg_store st \<and> mg_active st' = mg_active st) (seq_m (records gj w) (each_m (recover_record gj w k)))" for k
    by (intro keeps_rules keeps_records [OF same])
  from keeps_fst [OF this, of st] show ?thesis by (simp add: recover_lifecycle_def split: sum.splits)
qed

lemma manager_open_files:
  "mg_store (fst (manager_open gj w root st)) = mg_store st \<and> mg_active (fst (manager_open gj w root st)) = mg_active st"
  using recover_lifecycle_files [of gj w] by (auto simp: manager_open_def split: option.splits)

lemma target_frame:
  assumes "mg_store st1 = mg_store st" "mg_active st1 = mg_active st"
  shows "active_index_path gj root st1 = active_index_path gj root st" "content_target gj root st1 = content_target gj root st"
  unfolding content_target_def active_index_path_def active_pointer_def assms by (rule refl)+

lemma worker_path_target:
  assumes "worker_path gj w root st = (st', r)"
  shows "mg_store st' = mg_store st \<and> mg_active st' = mg_active st \<and> (\<forall>path. r = Inr path \<longrightarrow> content_target gj root st = Inr path)"
proof (cases "has_schema_marker (mg_store st) root")
  case True
  then show ?thesis using assms by (auto simp: worker_path_def content_target_def)
next
  case False
  obtain st1 x where o: "manager_open gj w root st = (st1, x)" by fastforce
  note files = manager_open_files [of gj w root st, unfolded o fst_conv]
  have "active_index_path gj root st1 = active_index_path gj root st" using files target_frame(1) by blast
  then show ?thesis using assms False files o
    by (auto simp: worker_path_def content_target_def seq_m_def read_m_def split: sum.splits)
qed

text \<open>The content root lags behind the graph by the unread rows of its consumer.\<close>

definition content_in_step :: "('i, 'w, 'v) content_system \<Rightarrow> graph_db \<Rightarrow> 'i content_root \<Rightarrow> bool" where
  "content_in_step sys db st \<longleftrightarrow> (\<forall>path. content_target (sy_json sys) (sy_root sys) st = Inr path \<longrightarrow>
     content_ready (sy_tantivy sys) (sy_env sys) (sy_cenv sys) path db (mg_store st))"

lemma apply_delta_other: "p \<noteq> path \<Longrightarrow> fst (apply_delta tv env cenv fs policy store path us ds) p = store p"
proof -
  assume p: "p \<noteq> path"
  obtain x where x: "apply_delta tv env cenv fs policy store path us ds = publish_sync tv store path x"
    unfolding apply_delta_def by blast
  obtain store' r where "publish_sync tv store path x = (store', r)" by fastforce
  then show ?thesis using p publish_sync_cases [of tv store path x store' r] by (auto simp: x)
qed

lemma project_loop_other:
  assumes "project_loop tv env cenv fs policy opts path n after moved commits db store = (db', store', r)" "p \<noteq> path"
  shows "store' p = store p"
  using assms(1)
proof (induction n arbitrary: after moved commits db store)
  case (Suc n)
  obtain db1 store1 x where b: "project_batch tv env cenv fs policy opts path after db store = (db1, store1, x)" by (metis prod_cases3)
  have "store1 p = store p"
    using b assms(2) apply_delta_other [of p path tv env cenv fs policy store]
    by (auto simp: project_batch_def Let_def split: sum.splits if_splits prod.splits option.splits) (metis fst_conv)+
  then show ?case using Suc.prems Suc.IH b by (auto split: sum.splits option.splits)
qed simp

lemma worker_project_keeps:
  assumes "content_laws (sy_tantivy sys)" "document_json_round_trip (sy_cenv sys)" "graph_ok db" "content_in_step sys db st"
    and "worker_project sys policy opts db st = (db', st', r)"
  shows "graph_ok db' \<and> same_but_consumers db db' \<and> find_consumer db' CATALOG_SCHEMA_ID = find_consumer db CATALOG_SCHEMA_ID
    \<and> content_in_step sys db' st'"
proof -
  let ?gj = "sy_json sys" and ?root = "sy_root sys"
  have idle: ?thesis if "db' = db" "mg_store st' = mg_store st" "mg_active st' = mg_active st"
    using that assms(3,4) target_frame(2) [of st' st ?gj ?root] by (simp add: content_in_step_def)
  show ?thesis
  proof (cases "\<exists>row st1 path. find_consumer db CONTENT_SCHEMA_ID = Some row \<and> worker_path ?gj (sy_world sys) ?root st = (st1, Inr path)
      \<and> valid_projection_options opts \<and> cw_open_graph (sy_world sys) (mg_tick st) = None")
    case False
    then have "db' = db" "mg_store st' = mg_store st \<and> mg_active st' = mg_active st"
      using assms(5) worker_path_target [of ?gj "sy_world sys" ?root st]
      by (auto simp: worker_project_def lift_graph_def projector_checkpoint_ok [OF assms(3)] split: if_splits sum.splits option.splits prod.splits)
    then show ?thesis using idle by simp
  next
    case True
    then obtain row st1 path where row: "find_consumer db CONTENT_SCHEMA_ID = Some row" and path: "worker_path ?gj (sy_world sys) ?root st = (st1, Inr path)"
      and opts: "valid_projection_options opts" "cw_open_graph (sy_world sys) (mg_tick st) = None" by blast
    note target = worker_path_target [OF path]
    have ready: "content_ready (sy_tantivy sys) (sy_env sys) (sy_cenv sys) path db (mg_store st)"
      using assms(4) target by (simp add: content_in_step_def)
    obtain store' x where loop: "project_loop (sy_tantivy sys) (sy_env sys) (sy_cenv sys) (sy_fs sys) policy opts path
        (unat (co_maximum_batches opts)) (MutationSeq (word_of_int (c_last_sequence row))) 0 [] db (mg_store st) = (db', store', x)"
      and st': "st' = st1\<lparr>mg_store := store'\<rparr>"
      using assms(5) opts path row target
      by (auto simp: worker_project_def lift_graph_def projector_checkpoint_ok [OF assms(3)] project_at_def split: prod.splits sum.splits)
    note after = project_loop_ready [OF assms(1,2) ready row refl loop]
    have "path' = path" if "content_target ?gj ?root st' = Inr path'" for path'
    proof (cases "path = ?root")
      case True
      then show ?thesis using that after st' by (auto simp: content_target_def content_ready_def open_index_def has_schema_marker_def split: option.splits)
    next
      case False
      then have "has_schema_marker (mg_store st') ?root = has_schema_marker (mg_store st) ?root"
        using project_loop_other [OF loop, of ?root] st' by (simp add: has_schema_marker_def)
      then show ?thesis
        using that target st' by (auto simp: content_target_def active_index_path_def active_pointer_def Let_def result_simps split: if_splits)
    qed
    then have "content_in_step sys db' st'" using after st' by (auto simp: content_in_step_def)
    then show ?thesis using after by (auto simp: content_ready_def)
  qed
qed

section \<open>A concrete root\<close>

text \<open>A codec for the members of a list of envelopes, by position; a longer string decodes to nothing.\<close>

definition list_json :: "'v DurableJsonEnvelope list \<Rightarrow> 'v json_env" where
  "list_json es = \<lparr>je_value_to_vec = (\<lambda>_. None),
     je_envelope_to_vec = (\<lambda>e. if e \<in> set es then Some (replicate (length (takeWhile (\<lambda>x. x \<noteq> e) es)) 0) else None),
     je_envelope_from_slice = (\<lambda>bs. if length bs < length es then Some (es ! length bs) else None)\<rparr>"

lemma list_json_laws: "envelope_laws (list_json es)"
proof -
  have "length (takeWhile (\<lambda>x. x \<noteq> e) es) < length es \<and> es ! length (takeWhile (\<lambda>x. x \<noteq> e) es) = e" if "e \<in> set es" for e
    using that by (induction es) auto
  then show ?thesis by (auto simp: envelope_laws_def list_json_def split: if_splits)
qed

definition sample_pointer :: ActiveGenerationPointer where
  "sample_pointer = \<lparr>ap_version = 1, ap_generation_id = ''generation-a'', ap_activated_at_unix_ms = 3\<rparr>"

definition sample_record :: "ContentGenerationState \<Rightarrow> u64 \<Rightarrow> ContentGenerationRecord" where
  "sample_record s t = \<lparr>gr_version = 1, gr_generation_id = ''generation-a'', gr_scan_id = ''scan'', gr_state = s, gr_target_sequence = 0,
     gr_root_ids = [], gr_last_checkpoint = None, gr_documents_seen = 1, gr_documents_projected = 1, gr_bytes_processed = 2,
     gr_commits = 1, gr_index_generation = 1, gr_content_index_bytes = 10, gr_capacity_limit = None, gr_created_at_unix_ms = 1,
     gr_updated_at_unix_ms = t\<rparr>"

definition sample_envelopes :: "(ActiveGenerationPointer + ContentGenerationRecord) DurableJsonEnvelope list" where
  "sample_envelopes =
     [\<lparr>de_version = 1, de_sequence = 1, de_checksum = 0, de_payload = Inl sample_pointer\<rparr>,
      \<lparr>de_version = 1, de_sequence = 1, de_checksum = 0, de_payload = Inr (sample_record Ready 2)\<rparr>,
      \<lparr>de_version = 1, de_sequence = 2, de_checksum = 0, de_payload = Inr (sample_record Active 9)\<rparr>]"

definition sample_json :: "(ActiveGenerationPointer + ContentGenerationRecord) generation_json" where
  "sample_json = \<lparr>gj_env = list_json sample_envelopes,
     gj_pointer = \<lparr>vc_to_value = Some \<circ> Inl, vc_from_value = (\<lambda>v. case v of Inl p \<Rightarrow> Some p | Inr _ \<Rightarrow> None), vc_from_slice = (\<lambda>_. None)\<rparr>,
     gj_record = \<lparr>vc_to_value = Some \<circ> Inr, vc_from_value = (\<lambda>v. case v of Inr r \<Rightarrow> Some r | Inl _ \<Rightarrow> None), vc_from_slice = (\<lambda>_. None)\<rparr>\<rparr>"

definition sample_world :: "ContentEntry list content_world" where
  "sample_world = \<lparr>cw_clock = (\<lambda>_. 9), cw_write = (\<lambda>_. Synced), cw_create_dir = (\<lambda>_. True), cw_write_marker = (\<lambda>_. None), cw_read_dir = (\<lambda>_. True),
     cw_remove = (\<lambda>_. Removed), cw_disk = (\<lambda>_. Some (100000000000, 90000000000)), cw_index_bytes = (\<lambda>_. Some 10), cw_graph = (\<lambda>_. empty_db), cw_open_graph = (\<lambda>_. None),
     cw_root_text = concat, cw_test_crash = (\<lambda>_. False)\<rparr>"

definition sample_slot :: "nat \<Rightarrow> durable_file" where
  "sample_slot n = \<lparr>df_plain = None, df_slot0 = None, df_slot1 = Some (replicate n 0)\<rparr>"

definition sample_content_root :: "ContentEntry list content_root" where
  "sample_content_root = \<lparr>mg_store = [index_path ''r'' ''generation-a'' \<mapsto> \<lparr>cd_marker = Some CONTENT_SCHEMA_ID, cd_index = Some [sample_content_entry]\<rparr>],
     mg_marker = Some CONTENT_SCHEMA_ID, mg_active = sample_slot 0, mg_generations = [(''generation-a'', sample_slot 1)], mg_files = [], mg_tick = 0\<rparr>"

definition sample_system :: "(ContentEntry list, ContentEntry list, ActiveGenerationPointer + ContentGenerationRecord) content_system" where
  "sample_system = \<lparr>sy_tantivy = list_content, sy_env = sample_env [], sy_cenv = one_document_env, sy_fs = sample_fs,
     sy_io = \<lparr>xio_create_dir = (\<lambda>_. True), xio_write_marker = (\<lambda>_. True)\<rparr>, sy_json = sample_json, sy_manifest = \<lparr>vc_to_value = (\<lambda>_. None), vc_from_value = (\<lambda>_. None), vc_from_slice = (\<lambda>_. None)\<rparr>,
     sy_is_whitespace = (\<lambda>c. c = 32), sy_world = sample_world, sy_workspace = ''w'', sy_root = ''r''\<rparr>"

lemma sample_slot_checked:
  "checked_envelope (gj_env sample_json) (Some (replicate n 0)) = (if n < 3 then Some (sample_envelopes ! n) else None)"
  "checked_envelope (gj_env sample_json) None = None"
proof -
  have "de_checksum (sample_envelopes ! n) = 0" if "n < 3" for n
    using that by (auto simp: sample_envelopes_def less_Suc_eq numeral_eq_Suc)
  then show "checked_envelope (gj_env sample_json) (Some (replicate n 0)) = (if n < 3 then Some (sample_envelopes ! n) else None)"
    "checked_envelope (gj_env sample_json) None = None"
    by (simp_all add: checked_envelope_def sample_json_def list_json_def json_checksum_def sample_envelopes_def)
qed

lemma sample_slot_ok:
  assumes "n < 2"
  shows "writable_record sample_json (sample_slot n)"
proof -
  have "de_version (sample_envelopes ! n) = GENERATION_MANAGER_VERSION" "de_sequence (sample_envelopes ! n) = 1"
    using assms by (auto simp: sample_envelopes_def GENERATION_MANAGER_VERSION_def less_Suc_eq numeral_eq_Suc)
  then show ?thesis
    using assms by (simp add: writable_record_def durable_ok_def slot_ok_def sequence_left_def newest_def sample_slot_def sample_slot_checked)
qed

lemma sample_codec:
  "vc_from_value (gj_pointer sample_json) (Inl p) = Some p" "vc_from_value (gj_record sample_json) (Inr r) = Some r"
  "vc_to_value (gj_record sample_json) r = Some (Inr r)"
  by (simp_all add: sample_json_def)

lemma sample_slot_read:
  assumes "n < 2"
  shows "read_json (gj_env sample_json) vc (sample_slot n) = ok_or (vc_from_value vc (de_payload (sample_envelopes ! n))) ContentSerialization"
proof -
  have "newest (gj_env sample_json) (sample_slot n) = Some (sample_envelopes ! n)"
    using assms by (simp add: newest_def sample_slot_def sample_slot_checked)
  then show ?thesis using sample_slot_ok [OF assms] by (simp add: read_newest writable_record_def)
qed

lemma sample_reads:
  "active_pointer sample_json sample_content_root = Inr sample_pointer"
  "read_json (gj_env sample_json) (gj_record sample_json) (sample_slot 1) = Inr (sample_record Ready 2)"
  using sample_slot_read [of 0 "gj_pointer sample_json"] sample_slot_read [of 1 "gj_record sample_json"]
  by (simp_all add: active_pointer_def sample_content_root_def sample_envelopes_def sample_codec)

lemma sample_laws: "envelope_laws (gj_env sample_json)" "codec_laws (gj_pointer sample_json)" "codec_laws (gj_record sample_json)"
    "torn_detected je (cw_write sample_world n)"
  using list_json_laws by (auto simp: sample_json_def codec_laws_def torn_detected_def sample_world_def)

lemma sample_ids: "ids_ok sample_json sample_content_root" "distinct (map fst (mg_generations sample_content_root))"
  "(name, f) \<in> set (mg_generations sample_content_root) \<Longrightarrow> writable_record sample_json f"
  using sample_reads(2) sample_slot_ok [of 1] by (auto simp: ids_ok_def sample_content_root_def sample_record_def)

lemma sample_name: "valid_generation_id ''generation-a''" "has_schema_marker (mg_store sample_content_root) (index_path ''r'' ''generation-a'')"
  by (simp_all add: valid_generation_id_def is_ascii_alphanumeric_def less_eq_char_def has_schema_marker_def sample_content_root_def)

lemma sample_pointer_safe: "pointer_safe sample_system (mg_active sample_content_root)"
  using sample_laws(1,2) sample_laws(4) [of "gj_env sample_json"] sample_slot_ok [of 0]
  by (simp add: pointer_safe_def sample_system_def sample_content_root_def writable_record_def)

definition sample_limits :: ContentGenerationLimits where
  "sample_limits = \<lparr>gl_max_content_index_bytes = 1000000, gl_max_documents = 100, gl_min_free_disk_bytes = 1000, gl_min_free_disk_percent = 10,
     gl_batch_documents = 10, gl_maximum_batches = 3\<rparr>"


theorem collect_garbage_spares_live_witness:
  "map_of (mg_generations (fst (collect_garbage sample_json sample_world ''r'' 0 sample_content_root))) ''generation-a'' = Some (sample_slot 1)"
proof -
  obtain st' r where run: "collect_garbage sample_json sample_world ''r'' 0 sample_content_root = (st', r)" by fastforce
  have "map_of (mg_generations sample_content_root) ''generation-a'' = Some (sample_slot 1)" by (simp add: sample_content_root_def)
  from collect_garbage_spares_live [OF sample_ids(1,2) this _ run] show ?thesis
    using sample_reads(1) run by (simp add: sample_pointer_def)
qed

theorem manager_open_repairs_lifecycle_witness:
  "\<exists>f. map_of (mg_generations (fst (manager_open sample_json sample_world ''r'' sample_content_root))) ''generation-a'' = Some f
     \<and> settled sample_json ''generation-a'' ''generation-a'' f"
proof -
  obtain st' x where run: "manager_open sample_json sample_world ''r'' sample_content_root = (st', x)" by fastforce
  have slot: "map_of (mg_generations sample_content_root) ''generation-a'' = Some (sample_slot 1)" by (simp add: sample_content_root_def)
  have newest: "newest (gj_env sample_json) (sample_slot (Suc 0)) = Some (sample_envelopes ! 1)"
    using sample_slot_checked(1) [of 1] sample_slot_checked(2) by (simp add: newest_def sample_slot_def)
  have "next_sequence (gj_env sample_json) (sample_slot (Suc 0)) = 2"
    by (simp add: next_sequence_newest newest sample_envelopes_def saturating_add_def)
  moreover have "json_checksum (gj_env sample_json) v = 0" for v by (simp add: sample_json_def list_json_def json_checksum_def)
  moreover have "je_envelope_to_vec (gj_env sample_json) \<lparr>de_version = 1, de_sequence = 2, de_checksum = 0, de_payload = Inr (sample_record Active 9)\<rparr>
      = Some (replicate 2 0)"
    by (simp add: sample_json_def list_json_def sample_envelopes_def) (simp add: sample_record_def numeral_2_eq_2)
  moreover have "(sample_record Ready 2)\<lparr>gr_state := Active, gr_updated_at_unix_ms := 9\<rparr> = sample_record Active 9"
    by (simp add: sample_record_def)
  ultimately have written: "snd (write_json_atomic (gj_env sample_json) (gj_record sample_json) Synced
      ((sample_record Ready 2)\<lparr>gr_state := Active, gr_updated_at_unix_ms := 9\<rparr>) (sample_slot (Suc 0))) = Inr ()"
    by (simp add: write_json_atomic_def sample_codec GENERATION_MANAGER_VERSION_def)
  have records: "records sample_json sample_world sample_content_root
      = (sample_content_root\<lparr>mg_tick := 1\<rparr>, Inr [sample_record Ready 2])"
    using sample_reads(2) sample_name(1)
    by (simp add: records_def seq_m_def ticking_def read_m_def decode_records_def sample_world_def sample_content_root_def
        durable_json_exists_def durable_slots_def) (simp add: sample_slot_def)
  have "recover_lifecycle sample_json sample_world sample_content_root = (st', x)"
    using run by (simp add: manager_open_def sample_world_def has_schema_marker_def) (simp add: sample_content_root_def index_path_def)
  then have "x = Inr ()"
    using written sample_name(1)
    by (simp add: recover_lifecycle_def sample_reads(1) seq_m_def records recover_record_def recovered_state_def sample_pointer_def)
       (simp add: sample_record_def set_state_def seq_m_def unix_time_millis_def ticking_def write_record_def generation_file_def
          sample_content_root_def sample_world_def return_m_def Let_def split: prod.splits)
  from manager_open_repairs_lifecycle [OF sample_laws(1,3,4) sample_ids sample_reads(1) run [unfolded this] slot sample_name(1)]
  show ?thesis using run by (simp add: sample_pointer_def durable_json_exists_def durable_slots_def sample_slot_def)
qed

end
