(* ===== verification/Agent_Service.thy ===== *)
theory Agent_Service
  imports Agent_Search Content_Generation
begin

text \<open>
  The Agent (\<open>crates/agent/src/service.rs\<close>): opening over the graph database and the directory of generations, the
  reads behind each request, the maintenance cycle that carries pending path refreshes and the outbox into the
  catalog, and the dispatch of one request. The service owns paths and opens the database per call; here the
  database and the directory are fields of its state, and whether a call to the operating system succeeds
  is the parameter \<open>agent_io\<close>. The content reader and the content worker are those of \<open>Content_Generation\<close>; the
  content root is a field, and so is the workspace's database when it is not the Agent's own.
  The mutexes around the governor and the readers are not modelled: a call is one step.

  Shown: a request is answered by a valid response with the payload of its own operation, only if it is
  valid and its capability is granted, and without touching the graph or the catalog; lookups return the
  current documents in the order asked; a maintenance cycle returns and keeps the graph well formed and
  the catalog consistent, whatever fails; and after a cycle that reports no backlog, and after opening, every
  search hit carries what desired state records.
\<close>

section \<open>The service\<close>

record ('i, 'c) agent_service =
  ag_graph :: graph_db
  ag_root :: "'i catalog_root"
  ag_governor :: ResourceGovernor
  ag_reader :: 'i
  ag_generation :: IndexGeneration
  ag_content_reader :: "ContentReader option"
  ag_content_projector :: "ContentProjectionWorker option"
  ag_content_root :: "'c content_root"
  ag_content_graph :: "graph_db option"
  ag_granted :: "Capability set"

text \<open>The outcome of each call that leaves the process: opening the database (for writing or only reading), the
  projection worker's file operations and clock per attempt, creating a reader, counting documents, and
  returning free pages to the file system.\<close>

record 'i agent_io =
  ao_open :: bool
  ao_open_read_only :: bool
  ao_worker :: "nat \<Rightarrow> worker_io"
  ao_elapsed :: "nat \<Rightarrow> nat \<Rightarrow> nat"
  ao_reader :: bool
  ao_count :: "'i \<Rightarrow> nat option"
  ao_reclaim :: bool

definition v0_1_metadata :: "Capability set" where
  "v0_1_metadata = {SearchCatalog, ReadMetadata, IndexStatusCapability}"

definition v0_2_with_content :: "Capability set" where
  "v0_2_with_content = {SearchCatalog, SearchContent, ReadMetadata, IndexStatusCapability}"

definition require_capability :: "('i, 'c) agent_service \<Rightarrow> Capability \<Rightarrow> unit agent_result" where
  "require_capability svc capability =
     (if capability \<in> ag_granted svc then Inr ()
      else Inl (wire_error AeForbidden ''client capability grant does not permit this method''))"

section \<open>Projection with retries\<close>

definition MAX_ATTEMPTS :: nat where "MAX_ATTEMPTS = 50"

fun retry_projection ::
  "('i, 'w) tantivy \<Rightarrow> graph_env \<Rightarrow> catalog_env \<Rightarrow> 'i agent_io \<Rightarrow> ProjectionWorkerOptions \<Rightarrow> nat \<Rightarrow> graph_db \<Rightarrow> 'i catalog_root
     \<Rightarrow> (graph_db \<times> 'i catalog_root \<times> ProjectionRunSummary agent_result) option" where
  "retry_projection tv env cenv io opts 0 db root =
     Some (db, root, Inl (wire_error AeUnavailable ''projection retry budget exhausted''))"
| "retry_projection tv env cenv io opts (Suc left) db root =
     (let attempt = MAX_ATTEMPTS - Suc left in
      case run tv env cenv (ao_worker io attempt) opts (ao_elapsed io attempt) db root of
        None \<Rightarrow> None
      | Some (db', root', Inr summary) \<Rightarrow> Some (db', root', Inr summary)
      | Some (db', root', Inl (WorkerCatalog e)) \<Rightarrow>
          if attempt + 1 < MAX_ATTEMPTS then retry_projection tv env cenv io opts left db' root'
          else Some (db', root', Inl internal_error)
      | Some (db', root', Inl e) \<Rightarrow> Some (db', root', Inl internal_error))"

definition run_projection_with_retry ::
  "('i, 'w) tantivy \<Rightarrow> graph_env \<Rightarrow> catalog_env \<Rightarrow> 'i agent_io \<Rightarrow> ProjectionWorkerOptions \<Rightarrow> graph_db \<Rightarrow> 'i catalog_root
     \<Rightarrow> (graph_db \<times> 'i catalog_root \<times> ProjectionRunSummary agent_result) option" where
  "run_projection_with_retry tv env cenv io opts db root = retry_projection tv env cenv io opts MAX_ATTEMPTS db root"

definition projection_options :: "GovernorDecision \<Rightarrow> ProjectionWorkerOptions" where
  "projection_options d =
     \<lparr>po_maximum_batch_mutations = maximum_batch_mutations (dec_budget d),
      po_maximum_batches = maximum_batches (dec_budget d),
      po_maximum_run_time = unat (maximum_run_time_millis (dec_budget d)) * 1000000,
      po_writer_heap_bytes = writer_heap_bytes (dec_budget d),
      po_rebuild_page_size = rebuild_page_size (dec_budget d)\<rparr>"

section \<open>Reading state\<close>

definition applied_sequence :: "ProjectorCheckpoint option \<Rightarrow> u64" where
  "applied_sequence cp = (case cp of None \<Rightarrow> 0 | Some c \<Rightarrow> pr_last_sequence c)"

definition query_state :: "'i agent_io \<Rightarrow> ('i, 'c) agent_service \<Rightarrow> (graph_db \<times> 'i) agent_result" where
  "query_state io svc =
     (if \<not> ao_open_read_only io then Inl internal_error
      else and_then (redact (projector_checkpoint (ag_graph svc) CATALOG_SCHEMA_ID)) (\<lambda>found.
           and_then (ok_or found (wire_error AeIndexNotReady ''no active catalog generation'')) (\<lambda>checkpoint.
             if ag_generation svc \<noteq> IndexGeneration (pr_index_generation checkpoint)
             then Inl (wire_error AeIndexNotReady ''catalog reader generation is not active'')
             else Inr (ag_graph svc, ag_reader svc))))"

definition index_status_from_state :: "'i agent_io \<Rightarrow> graph_db \<times> 'i \<Rightarrow> IndexStatus agent_result" where
  "index_status_from_state io state =
     (case state of (db, reader) \<Rightarrow>
        and_then (redact (latest_outbox_sequence db)) (\<lambda>latest.
        and_then (redact (projector_checkpoint db CATALOG_SCHEMA_ID)) (\<lambda>checkpoint.
        and_then (ok_or (ao_count io reader) internal_error) (\<lambda>count.
          Inr \<lparr>is_ready = (checkpoint \<noteq> None),
               is_index_generation = map_option (\<lambda>c. IndexGeneration (pr_index_generation c)) checkpoint,
               is_document_count = (if count < 2 ^ 64 then of_nat count else - 1),
               is_durable_sequence = seq_value latest, is_applied_sequence = applied_sequence checkpoint,
               is_backlog_mutations = saturating_sub (seq_value latest) (applied_sequence checkpoint)\<rparr>))))"

definition index_status :: "'i agent_io \<Rightarrow> ('i, 'c) agent_service \<Rightarrow> IndexStatus agent_result" where
  "index_status io svc = and_then (query_state io svc) (index_status_from_state io)"

definition health :: "'i agent_io \<Rightarrow> ('i, 'c) agent_service \<Rightarrow> ServiceHealth" where
  "health io svc =
     (let index_ready = (case query_state io svc of Inl _ \<Rightarrow> False | Inr (_, reader) \<Rightarrow> ao_count io reader \<noteq> None) in
      \<lparr>sh_service_ready = index_ready, sh_graph_ready = ao_open_read_only io, sh_index_ready = index_ready\<rparr>)"

definition agent_capabilities :: "('i, 'c) agent_service \<Rightarrow> Capabilities" where
  "agent_capabilities svc =
     \<lparr>cp_agent_api_versions = [AGENT_API_VERSION], cp_codec_versions = [AGENT_CODEC_VERSION], cp_granted = ag_granted svc,
      cp_maximum_top_k = MAX_TOP_K, cp_maximum_frame_bytes = of_nat MAX_FRAME_BYTES, cp_ranking_version = RANKING_VERSION\<rparr>"

definition item_from_document :: "CatalogDocument \<Rightarrow> CatalogItem" where
  "item_from_document d =
     \<lparr>it_document_id = ci_document_id (doc_identity d), it_object_key = ci_object_key (doc_identity d),
      it_file_link_id = ci_file_link_id (doc_identity d), it_document_version = doc_document_version d,
      it_name = doc_name d, it_resolved_path = doc_resolved_path d, it_extension = doc_extension d,
      it_kind = md_kind (doc_metadata d), it_size = md_size (doc_metadata d),
      it_modified_at_unix_ms = md_modified_at_unix_ms (doc_metadata d),
      it_availability = md_availability (doc_metadata d)\<rparr>"

definition get_catalog_item :: "graph_env \<Rightarrow> 'i agent_io \<Rightarrow> ('i, 'c) agent_service \<Rightarrow> DocumentId \<Rightarrow> CatalogItem agent_result" where
  "get_catalog_item env io svc document_id =
     (if \<not> ao_open_read_only io then Inl internal_error
      else and_then (redact (desired_catalog_document env (ag_graph svc) document_id)) (\<lambda>found.
           and_then (ok_or found (wire_error AeNotFound ''catalog item is not current'')) (\<lambda>document.
             Inr (item_from_document document))))"

definition get_catalog_items :: "graph_env \<Rightarrow> 'i agent_io \<Rightarrow> ('i, 'c) agent_service \<Rightarrow> DocumentId list \<Rightarrow> CatalogItem list agent_result" where
  "get_catalog_items env io svc document_ids =
     (if \<not> ao_open_read_only io then Inl internal_error
      else fold_r (\<lambda>items k. and_then (redact (desired_catalog_document env (ag_graph svc) k)) (\<lambda>found.
             Inr (case found of None \<Rightarrow> items | Some d \<Rightarrow> items @ [item_from_document d]))) [] document_ids)"

section \<open>Content search\<close>

fun resolve_content ::
  "graph_env \<Rightarrow> graph_db \<Rightarrow> request_clock \<Rightarrow> nat \<Rightarrow> ContentSearchHit list \<Rightarrow> nat \<Rightarrow> CatalogDocument list
     \<Rightarrow> (ContentSearchHit list \<times> nat) agent_result" where
  "resolve_content env db clock deadline hits n [] = Inr (hits, n)"
| "resolve_content env db clock deadline hits n (c # cs) =
     and_then (check_request clock deadline n) (\<lambda>_.
     and_then (redact (desired_catalog_document env db (ci_document_id (doc_identity c)))) (\<lambda>found.
       resolve_content env db clock deadline
         (case found of
            None \<Rightarrow> hits
          | Some current \<Rightarrow> hits @ [\<lparr>ch_item = item_from_document current,
              ch_rank = (if length hits + 1 < 2 ^ 32 then of_nat (length hits + 1) else - 1)\<rparr>])
         (Suc n) cs))"

definition content_search_impl ::
  "graph_env \<Rightarrow> ('c, 'x, 'v) content_system \<Rightarrow> 'i agent_io \<Rightarrow> ('i, 'c) agent_service \<Rightarrow> request_clock \<Rightarrow> string \<Rightarrow> u16 \<Rightarrow> u32
     \<Rightarrow> ('i, 'c) agent_service \<times> ContentSearchResponse agent_result" where
  "content_search_impl env csys io svc clock query top_k deadline_ms =
     (let deadline = deadline_nanos deadline_ms in
      case and_then (check_request clock deadline 0) (\<lambda>_.
             ok_or (ag_content_reader svc) (wire_error AeIndexNotReady ''content search is not enabled for this Agent'')) of
        Inl e \<Rightarrow> (svc, Inl e)
      | Inr reader \<Rightarrow>
          (case reader_search (sy_tantivy csys) (sy_cenv csys) (sy_is_whitespace csys) (sy_json csys) (sy_root csys) (ag_content_root svc)
                  reader query (unat (min top_k MAX_TOP_K)) of
             (reader', found) \<Rightarrow>
               (svc\<lparr>ag_content_reader := Some reader'\<rparr>,
                and_then (redact found) (\<lambda>candidates.
                and_then (check_request clock deadline 1) (\<lambda>_.
                if \<not> ao_open_read_only io then Inl internal_error
                else and_then (resolve_content env (ag_graph svc) clock deadline [] 2 candidates) (\<lambda>(hits, n).
                  Inr \<lparr>cr_content_schema = CONTENT_SCHEMA_ID, cr_took_micros = elapsed_micros clock n, cr_hits = hits\<rparr>))))))"

section \<open>Maintenance\<close>

fun refresh_rounds :: "graph_env \<Rightarrow> nat \<Rightarrow> nat \<Rightarrow> graph_db \<Rightarrow> graph_db \<times> unit agent_result" where
  "refresh_rounds env maximum_links 0 db = (db, Inr ())"
| "refresh_rounds env maximum_links (Suc rounds) db =
     (case refresh_volume_projection env db maximum_links of
        (db1, Inl e) \<Rightarrow> (db1, Inl internal_error)
      | (db1, Inr volume) \<Rightarrow>
          if 0 < rs_links_scanned volume \<or> rs_job_completed volume then refresh_rounds env maximum_links rounds db1
          else (case refresh_projection_paths env db1 maximum_links of
                  (db2, Inl e) \<Rightarrow> (db2, Inl internal_error)
                | (db2, Inr paths) \<Rightarrow>
                    if rs_links_scanned paths = 0 \<and> \<not> rs_job_completed paths then (db2, Inr ())
                    else refresh_rounds env maximum_links rounds db2))"

definition refresh_catalog_reader ::
  "'i agent_io \<Rightarrow> u64 \<Rightarrow> ('i, 'c) agent_service \<Rightarrow> ('i, 'c) agent_service agent_result" where
  "refresh_catalog_reader io generation svc =
     and_then (redact (active_index (ag_graph svc) (ag_root svc))) (\<lambda>index.
       if ao_reader io then Inr (svc\<lparr>ag_reader := index, ag_generation := IndexGeneration generation\<rparr>)
       else Inl internal_error)"

text \<open>The governor's part: the backlog is reported and the decision read, opening a new policy window unless the
  scheduler has already done so.\<close>

definition maintenance_decision :: "bool \<Rightarrow> ('i, 'c) agent_service \<Rightarrow> (ResourceGovernor \<times> GovernorDecision) agent_result" where
  "maintenance_decision advance svc =
     and_then (redact (latest_outbox_sequence (ag_graph svc))) (\<lambda>durable.
     and_then (redact (projector_checkpoint (ag_graph svc) CATALOG_SCHEMA_ID)) (\<lambda>checkpoint.
       let backlog = max (saturating_sub (seq_value durable) (applied_sequence checkpoint))
                         (if projection_refresh_maintenance_pending (ag_graph svc) then 1 else 0);
           g = report_backlog (ag_governor svc) backlog;
           g' = (if advance then advance_window g else g)
       in Inr (g', decision g')))"

definition project_and_refresh ::
  "('i, 'w) tantivy \<Rightarrow> graph_env \<Rightarrow> catalog_env \<Rightarrow> 'i agent_io \<Rightarrow> GovernorDecision \<Rightarrow> ('i, 'c) agent_service
     \<Rightarrow> (('i, 'c) agent_service \<times> IndexStatus agent_result) option" where
  "project_and_refresh tv env cenv io d svc =
     (case refresh_rounds env (max (unat (maximum_batch_mutations (dec_budget d))) 1)
             (min (unat (maximum_batches (dec_budget d))) 1024) (ag_graph svc) of
        (db1, Inl e) \<Rightarrow> Some (svc\<lparr>ag_graph := db1\<rparr>, Inl e)
      | (db1, Inr _) \<Rightarrow>
          (case run_projection_with_retry tv env cenv io (projection_options d) db1 (ag_root svc) of
             None \<Rightarrow> None
           | Some (db2, root2, Inl e) \<Rightarrow> Some (svc\<lparr>ag_graph := db2, ag_root := root2\<rparr>, Inl e)
           | Some (db2, root2, Inr summary) \<Rightarrow>
               let svc2 = svc\<lparr>ag_graph := db2, ag_root := root2\<rparr> in
               (case refresh_catalog_reader io (ps_index_generation summary) svc2 of
                  Inl e \<Rightarrow> Some (svc2, Inl e)
                | Inr svc3 \<Rightarrow> Some (svc3, index_status io svc3))))"

definition maintain_projection_inner ::
  "('i, 'w) tantivy \<Rightarrow> graph_env \<Rightarrow> catalog_env \<Rightarrow> 'i agent_io \<Rightarrow> bool \<Rightarrow> ('i, 'c) agent_service
     \<Rightarrow> (('i, 'c) agent_service \<times> IndexStatus agent_result) option" where
  "maintain_projection_inner tv env cenv io advance svc =
     (if \<not> ao_open io then Some (svc, Inl internal_error)
      else (case maintenance_decision advance svc of
              Inl e \<Rightarrow> Some (svc, Inl e)
            | Inr (g, d) \<Rightarrow>
                let svc1 = svc\<lparr>ag_governor := g\<rparr> in
                if background_paused (dec_budget d) then Some (svc1, index_status io svc1)
                else project_and_refresh tv env cenv io d svc1))"

definition maintain_projection where
  "maintain_projection tv env cenv io svc = maintain_projection_inner tv env cenv io True svc"

definition maintain_projection_scheduled where
  "maintain_projection_scheduled tv env cenv io svc = maintain_projection_inner tv env cenv io False svc"

definition workspace_graph :: "('i, 'c) agent_service \<Rightarrow> graph_db" where
  "workspace_graph svc = (case ag_content_graph svc of None \<Rightarrow> ag_graph svc | Some db \<Rightarrow> db)"

definition set_workspace :: "graph_db \<Rightarrow> 'c content_root \<Rightarrow> ('i, 'c) agent_service \<Rightarrow> ('i, 'c) agent_service" where
  "set_workspace db st svc =
     (case ag_content_graph svc of
        None \<Rightarrow> svc\<lparr>ag_graph := db, ag_content_root := st\<rparr>
      | Some _ \<Rightarrow> svc\<lparr>ag_content_graph := Some db, ag_content_root := st\<rparr>)"

fun project_content ::
  "('c, 'x, 'v) content_system \<Rightarrow> ContentIndexPolicy \<Rightarrow> ContentProjectionOptions \<Rightarrow> nat \<Rightarrow> graph_db \<Rightarrow> 'c content_root
     \<Rightarrow> graph_db \<times> 'c content_root \<times> DurableContentProjectionSummary option agent_result" where
  "project_content csys policy opts 0 db st = (db, st, Inl internal_error)"
| "project_content csys policy opts (Suc left) db st =
     (case worker_project csys policy opts db st of
        (db', st', Inr summary) \<Rightarrow> (db', st', Inr (Some summary))
      | (db', st', Inl _) \<Rightarrow> project_content csys policy opts left db' st')"

definition maintain_content_projection_scheduled ::
  "('c, 'x, 'v) content_system \<Rightarrow> ('i, 'c) agent_service
     \<Rightarrow> ('i, 'c) agent_service \<times> DurableContentProjectionSummary option agent_result" where
  "maintain_content_projection_scheduled csys svc =
     (case ag_content_projector svc of
        None \<Rightarrow> (svc, Inr None)
      | Some worker \<Rightarrow>
          let b = dec_budget (decision (ag_governor svc)) in
          if background_paused b then (svc, Inr None)
          else (case project_content csys (wk_policy worker)
                       \<lparr>co_batch_size = min (maximum_batch_mutations b) 10000, co_maximum_batches = min (maximum_batches b) 1024\<rparr> 3
                       (workspace_graph svc) (ag_content_root svc) of
                  (db, st, r) \<Rightarrow> (set_workspace db st svc, r)))"

definition maintain_graph_storage_scheduled ::
  "graph_env \<Rightarrow> 'i agent_io \<Rightarrow> ('i, 'c) agent_service \<Rightarrow> ('i, 'c) agent_service \<times> unit agent_result" where
  "maintain_graph_storage_scheduled env io svc =
     (let b = dec_budget (decision (ag_governor svc)) in
      if background_paused b then (svc, Inr ())
      else if \<not> ao_open io then (svc, Inl internal_error)
      else
      let maximum_rows = max 1 (min 100000 (unat (maximum_batch_mutations b))) in
      (case compact_legacy_desired_payloads_bounded env (ag_graph svc) maximum_rows of
         (db1, Inl _) \<Rightarrow> (svc\<lparr>ag_graph := db1\<rparr>, Inl internal_error)
       | (db1, Inr _) \<Rightarrow>
           (case prune_rebuildable_outbox_bounded db1 maximum_rows False of
              (db2, Inl _) \<Rightarrow> (svc\<lparr>ag_graph := db2\<rparr>, Inl internal_error)
            | (db2, Inr _) \<Rightarrow>
                (svc\<lparr>ag_graph := db2\<rparr>, if ao_reclaim io then Inr () else Inl internal_error))))"

definition maintain_all_projections_scheduled ::
  "('i, 'w) tantivy \<Rightarrow> graph_env \<Rightarrow> catalog_env \<Rightarrow> ('c, 'x, 'v) content_system \<Rightarrow> 'i agent_io \<Rightarrow> ('i, 'c) agent_service
     \<Rightarrow> (('i, 'c) agent_service \<times> IndexStatus agent_result) option" where
  "maintain_all_projections_scheduled tv env cenv csys io svc =
     (case maintain_projection_scheduled tv env cenv io svc of
        None \<Rightarrow> None
      | Some (svc1, Inl e) \<Rightarrow> Some (svc1, Inl e)
      | Some (svc1, Inr status) \<Rightarrow>
          (case maintain_content_projection_scheduled csys svc1 of
             (svc2, Inl e) \<Rightarrow> Some (svc2, Inl e)
           | (svc2, Inr _) \<Rightarrow>
               (case maintain_graph_storage_scheduled env io svc2 of
                  (svc3, Inl e) \<Rightarrow> Some (svc3, Inl e)
                | (svc3, Inr _) \<Rightarrow> Some (svc3, Inr status))))"

definition projection_backlog :: "('c, 'x, 'v) content_system \<Rightarrow> 'i agent_io \<Rightarrow> ('i, 'c) agent_service \<Rightarrow> u64 agent_result" where
  "projection_backlog csys io svc =
     (if \<not> ao_open_read_only io then Inl internal_error
      else
      and_then (redact (latest_outbox_sequence (ag_graph svc))) (\<lambda>durable.
      and_then (redact (projector_checkpoint (ag_graph svc) CATALOG_SCHEMA_ID)) (\<lambda>checkpoint.
      and_then (case ag_content_projector svc of None \<Rightarrow> Inr 0 | Some _ \<Rightarrow> redact (worker_backlog (sy_world csys) (workspace_graph svc) (ag_content_root svc))) (\<lambda>content_backlog.
        let catalog_backlog = saturating_sub (seq_value durable) (applied_sequence checkpoint);
            maintenance_backlog =
              (if consumed_outbox_maintenance_pending (ag_graph svc)
                 \<or> legacy_desired_payload_maintenance_pending (ag_graph svc)
                 \<or> projection_refresh_maintenance_pending (ag_graph svc) then 1 else 0)
        in Inr (max (max catalog_backlog content_backlog) maintenance_backlog)))))"

definition report_resource_observation ::
  "SystemPressure \<Rightarrow> u64 option \<Rightarrow> u64 \<Rightarrow> ('i, 'c) agent_service \<Rightarrow> ('i, 'c) agent_service \<times> GovernorDecision" where
  "report_resource_observation p user_idle_duration_millis backlog svc =
     (let g = report_user_idle_duration (report_system_pressure (report_backlog (ag_governor svc) backlog) p)
                user_idle_duration_millis
      in (svc\<lparr>ag_governor := g\<rparr>, decision g))"

definition service_report_system_pressure :: "SystemPressure \<Rightarrow> ('i, 'c) agent_service \<Rightarrow> ('i, 'c) agent_service \<times> GovernorDecision" where
  "service_report_system_pressure p svc =
     (let g = report_system_pressure (ag_governor svc) p in (svc\<lparr>ag_governor := g\<rparr>, decision g))"

definition service_report_resource_unavailable :: "('i, 'c) agent_service \<Rightarrow> ('i, 'c) agent_service \<times> GovernorDecision" where
  "service_report_resource_unavailable svc =
     (let g = report_resource_unavailable (ag_governor svc) in (svc\<lparr>ag_governor := g\<rparr>, decision g))"

definition governor_decision :: "('i, 'c) agent_service \<Rightarrow> GovernorDecision" where
  "governor_decision svc = decision (ag_governor svc)"

section \<open>Opening\<close>

text \<open>The content path, when given, is the workspace's \<^verbatim>\<open>content-index-v1\<close>; \<open>manifest\<close> is the workspace's
  \<^verbatim>\<open>content-workspace.json\<close>.\<close>

definition open_reader :: "('c, 'x, 'v) content_system \<Rightarrow> bool \<Rightarrow> 'c content_root \<Rightarrow> ContentReader option agent_result" where
  "open_reader csys content_given content_root =
     (if content_given
      then and_then (redact (content_open (sy_tantivy csys) (sy_json csys) (sy_root csys) content_root)) (\<lambda>r. Inr (Some r))
      else Inr None)"

definition open_projector :: "('c, 'x, 'v) content_system \<Rightarrow> bool \<Rightarrow> durable_file \<Rightarrow> ContentProjectionWorker option" where
  "open_projector csys content_given manifest =
     (if content_given \<and> df_plain manifest \<noteq> None
      then (case from_workspace (gj_env (sy_json csys)) (sy_manifest csys) (sy_fs csys) (sy_workspace csys) manifest of
              Inl _ \<Rightarrow> None | Inr worker \<Rightarrow> Some worker)
      else None)"

definition open_with_content ::
  "('i, 'w) tantivy \<Rightarrow> graph_env \<Rightarrow> catalog_env \<Rightarrow> ('c, 'x, 'v) content_system \<Rightarrow> 'i agent_io \<Rightarrow> graph_db \<Rightarrow> 'i catalog_root
     \<Rightarrow> bool \<Rightarrow> 'c content_root \<Rightarrow> graph_db option \<Rightarrow> durable_file \<Rightarrow> Capability set
     \<Rightarrow> (graph_db \<times> 'i catalog_root \<times> ('i, 'c) agent_service agent_result) option" where
  "open_with_content tv env cenv csys io db root content_given content_root content_graph manifest granted =
     (if \<not> ao_open io then Some (db, root, Inl internal_error)
      else (case run_projection_with_retry tv env cenv io default_worker_options db root of
              None \<Rightarrow> None
            | Some (db', root', Inl e) \<Rightarrow> Some (db', root', Inl e)
            | Some (db', root', Inr summary) \<Rightarrow> Some (db', root',
                (if ps_backlog_remaining summary
                 then Inl (wire_error AeIndexNotReady ''catalog recovery did not drain the durable backlog'')
                 else and_then (redact (active_index db' root')) (\<lambda>index.
                      if \<not> ao_reader io then Inl internal_error
                      else and_then (open_reader csys content_given content_root) (\<lambda>reader.
                        Inr \<lparr>ag_graph = db', ag_root = root', ag_governor = new_governor default_config,
                             ag_reader = index, ag_generation = IndexGeneration (ps_index_generation summary),
                             ag_content_reader = reader, ag_content_projector = open_projector csys content_given manifest,
                             ag_content_root = content_root, ag_content_graph = content_graph, ag_granted = granted\<rparr>))))))"

section \<open>Dispatch\<close>

definition contract_code :: "WireContractError \<Rightarrow> AgentErrorCode" where
  "contract_code e =
     (case e of
        WireUnsupportedProtocolVersion \<Rightarrow> AeUnsupportedProtocolVersion
      | WireUnsupportedCodecVersion \<Rightarrow> AeUnsupportedCodecVersion
      | _ \<Rightarrow> AeInvalidRequest)"

definition map_payload :: "('a \<Rightarrow> ResponsePayload) \<Rightarrow> 'a agent_result \<Rightarrow> ResponsePayload agent_result" where
  "map_payload f r = and_then r (\<lambda>x. Inr (f x))"

definition perform ::
  "('i, 'w) tantivy \<Rightarrow> graph_env \<Rightarrow> catalog_env \<Rightarrow> ('c, 'x, 'v) content_system \<Rightarrow> 'i agent_io \<Rightarrow> request_clock \<Rightarrow> u32 \<Rightarrow> RequestOperation \<Rightarrow> ('i, 'c) agent_service
     \<Rightarrow> ('i, 'c) agent_service \<times> ResponsePayload agent_result" where
  "perform tv env cenv csys io clock deadline_ms operation svc =
     (case operation of
        CatalogSearch search \<Rightarrow>
          (case require_capability svc SearchCatalog of
             Inl e \<Rightarrow> (svc, Inl e)
           | Inr _ \<Rightarrow>
               (case search_impl tv cenv (ag_governor svc) (ag_reader svc) (ag_generation svc) clock search deadline_ms of
                  (g, r) \<Rightarrow> (svc\<lparr>ag_governor := g\<rparr>, map_payload SearchPayload r)))
      | ContentSearch search \<Rightarrow>
          (case require_capability svc SearchContent of
             Inl e \<Rightarrow> (svc, Inl e)
           | Inr _ \<Rightarrow>
               (case content_search_impl env csys io svc clock (cq_query search) (cq_top_k search) deadline_ms of
                  (svc', r) \<Rightarrow> (svc', map_payload ContentSearchPayload r)))
      | CatalogGetItem k \<Rightarrow>
          (svc, and_then (require_capability svc ReadMetadata) (\<lambda>_.
                map_payload CatalogItemPayload (get_catalog_item env io svc k)))
      | CatalogGetItems ks \<Rightarrow>
          (svc, and_then (require_capability svc ReadMetadata) (\<lambda>_.
                map_payload CatalogItemsPayload (get_catalog_items env io svc ks)))
      | IndexGetStatus \<Rightarrow>
          (svc, and_then (require_capability svc IndexStatusCapability) (\<lambda>_.
                map_payload IndexStatusPayload (index_status io svc)))
      | AgentGetCapabilities \<Rightarrow> (svc, Inr (CapabilitiesPayload (agent_capabilities svc)))
      | AgentGetHealth \<Rightarrow> (svc, Inr (HealthPayload (health io svc))))"

definition dispatch_cancellable ::
  "('i, 'w) tantivy \<Rightarrow> graph_env \<Rightarrow> catalog_env \<Rightarrow> ('c, 'x, 'v) content_system \<Rightarrow> 'i agent_io \<Rightarrow> request_clock \<Rightarrow> AgentRequest \<Rightarrow> ('i, 'c) agent_service
     \<Rightarrow> ('i, 'c) agent_service \<times> AgentResponse" where
  "dispatch_cancellable tv env cenv csys io clock request svc =
     (let request_id = (if length (rq_request_id request) \<le> 64 then rq_request_id request else []) in
      case request_validate request of
        Inl e \<Rightarrow> (svc, response_failure request_id (contract_code e) ''request contract rejected'')
      | Inr _ \<Rightarrow>
          (case perform tv env cenv csys io clock (effective_deadline_ms request) (rq_operation request) svc of
             (svc', Inr payload) \<Rightarrow> (svc', response_success request_id payload)
           | (svc', Inl e) \<Rightarrow>
               (svc', \<lparr>rs_protocol_version = AGENT_API_VERSION, rs_request_id = request_id, rs_result = None,
                       rs_error = Some e\<rparr>)))"

section \<open>What a request may do\<close>

definition operation_capability :: "RequestOperation \<Rightarrow> Capability option" where
  "operation_capability operation =
     (case operation of
        CatalogSearch _ \<Rightarrow> Some SearchCatalog | ContentSearch _ \<Rightarrow> Some SearchContent
      | CatalogGetItem _ \<Rightarrow> Some ReadMetadata | CatalogGetItems _ \<Rightarrow> Some ReadMetadata
      | IndexGetStatus \<Rightarrow> Some IndexStatusCapability | _ \<Rightarrow> None)"

definition permitted :: "('i, 'c) agent_service \<Rightarrow> RequestOperation \<Rightarrow> bool" where
  "permitted svc operation = (case operation_capability operation of None \<Rightarrow> True | Some c \<Rightarrow> c \<in> ag_granted svc)"

definition answers :: "RequestOperation \<Rightarrow> ResponsePayload \<Rightarrow> bool" where
  "answers operation payload =
     (case (operation, payload) of
        (CatalogSearch _, SearchPayload _) \<Rightarrow> True | (ContentSearch _, ContentSearchPayload _) \<Rightarrow> True
      | (CatalogGetItem _, CatalogItemPayload _) \<Rightarrow> True | (CatalogGetItems _, CatalogItemsPayload _) \<Rightarrow> True
      | (IndexGetStatus, IndexStatusPayload _) \<Rightarrow> True | (AgentGetCapabilities, CapabilitiesPayload _) \<Rightarrow> True
      | (AgentGetHealth, HealthPayload _) \<Rightarrow> True | _ \<Rightarrow> False)"

definition forbidden :: AgentWireError where
  "forbidden = wire_error AeForbidden ''client capability grant does not permit this method''"

lemma require_capability_cases: "require_capability svc c = (if c \<in> ag_granted svc then Inr () else Inl forbidden)"
  by (simp add: require_capability_def forbidden_def)

lemma map_payload_Inr: "map_payload f r = Inr p \<longleftrightarrow> (\<exists>x. r = Inr x \<and> p = f x)"
  by (auto simp: map_payload_def result_simps)

lemma perform_not_permitted: "\<not> permitted svc operation \<Longrightarrow> perform tv env cenv csys io clock ms operation svc = (svc, Inl forbidden)"
  by (auto simp: permitted_def operation_capability_def perform_def require_capability_cases
      split: RequestOperation.splits option.splits)

text \<open>What serving a request may change: the governor's counters, and which generation the content reader is on.\<close>

definition served :: "('i, 'c) agent_service \<Rightarrow> ('i, 'c) agent_service \<Rightarrow> bool" where
  "served svc svc' \<longleftrightarrow> (\<exists>g c. svc' = svc\<lparr>ag_governor := g, ag_content_reader := c\<rparr>)"

lemma served_refl: "served svc svc"
  unfolding served_def by (intro exI [of _ "ag_governor svc"] exI [of _ "ag_content_reader svc"]) simp

lemma served_governor: "served svc (svc\<lparr>ag_governor := g\<rparr>)"
  unfolding served_def by (intro exI [of _ g] exI [of _ "ag_content_reader svc"]) simp

lemma content_search_served: "content_search_impl env csys io svc clock q k ms = (svc', r) \<Longrightarrow> served svc svc'"
  using served_refl [of svc]
  by (auto simp: content_search_impl_def Let_def served_def split: sum.splits prod.splits)
     (intro exI [of _ "ag_governor svc"], auto)

lemma perform_answers:
  assumes "perform tv env cenv csys io clock ms operation svc = (svc', r)"
  shows "served svc svc' \<and> (case r of Inl _ \<Rightarrow> True | Inr p \<Rightarrow> permitted svc operation \<and> answers operation p)"
proof -
  have "served svc svc'"
    using assms
    by (cases operation)
       (auto simp: perform_def require_capability_cases intro: served_refl served_governor content_search_served split: prod.splits if_splits)
  moreover have "permitted svc operation" if "r = Inr p" for p
    using assms that perform_not_permitted [of svc operation tv env cenv csys io clock ms] by (cases "permitted svc operation") simp_all
  moreover have "answers operation p" if "r = Inr p" for p
    using assms that
    by (cases operation)
       (auto simp: perform_def answers_def require_capability_cases map_payload_Inr result_simps split: prod.splits if_splits)
  ultimately show ?thesis by (simp split: sum.splits)
qed

definition contract_error :: "AgentErrorCode set" where
  "contract_error = {AeInvalidRequest, AeUnsupportedProtocolVersion, AeUnsupportedCodecVersion}"

text \<open>C19: the dispatch contract. Whatever the request, the response has exactly one of a payload and an error, carries
  the protocol version and an identifier of at most 64 bytes; the graph, the catalog, the catalog reader and the
  grant are untouched, and only the governor's counters and the generation the content reader is on may change. A payload is sent only for a valid request whose capability is granted, and it is
  the payload of the operation asked for. An invalid request is answered by a contract error, and a valid one
  without its grant by \<open>Forbidden\<close>, and in both cases nothing of the service changes.\<close>

theorem dispatch_contract:
  assumes "dispatch_cancellable tv env cenv csys io clock request svc = (svc', response)"
  shows "response_validate response = Inr () \<and> rs_protocol_version response = 2 \<and> length (rs_request_id response) \<le> 64
    \<and> served svc svc'
    \<and> (\<forall>p. rs_result response = Some p \<longrightarrow> request_validate request = Inr () \<and> rs_request_id response = rq_request_id request
          \<and> permitted svc (rq_operation request) \<and> answers (rq_operation request) p)
    \<and> (request_validate request \<noteq> Inr () \<longrightarrow> svc' = svc \<and> (\<exists>e. rs_error response = Some e \<and> we_code e \<in> contract_error))
    \<and> (request_validate request = Inr () \<and> \<not> permitted svc (rq_operation request)
          \<longrightarrow> svc' = svc \<and> rs_error response = Some forbidden)"
proof (cases "request_validate request")
  case (Inl e)
  then show ?thesis
    using assms served_refl
    by (auto simp: dispatch_cancellable_def response_failure_def response_validate_def AGENT_API_VERSION_def contract_error_def
        contract_code_def Let_def split: WireContractError.splits)
next
  case (Inr u)
  then have id: "length (rq_request_id request) \<le> 64" and v: "request_validate request = Inr ()"
    using request_validate_iff [of request] by simp_all
  obtain s r where p: "perform tv env cenv csys io clock (effective_deadline_ms request) (rq_operation request) svc = (s, r)" by fastforce
  note pf = perform_answers [OF p]
  have resp: "svc' = s" "rs_protocol_version response = 2" "rs_request_id response = rq_request_id request"
      "rs_result response = (case r of Inl _ \<Rightarrow> None | Inr x \<Rightarrow> Some x)" "rs_error response = (case r of Inl x \<Rightarrow> Some x | Inr _ \<Rightarrow> None)"
    using assms v id p
    by (auto simp: dispatch_cancellable_def response_success_def AGENT_API_VERSION_def Let_def split: sum.splits)
  then have "response_validate response = Inr ()" by (simp add: response_validate_def split: sum.splits)
  moreover have "svc' = svc \<and> rs_error response = Some forbidden" if "\<not> permitted svc (rq_operation request)"
    using perform_not_permitted [OF that, of tv env cenv csys io clock "effective_deadline_ms request"] p resp by simp
  ultimately show ?thesis using resp pf id v by (auto split: sum.splits)
qed

section \<open>Maintenance keeps the catalog\<close>

lemma refresh_rounds_steps:
  "refresh_rounds env n rounds db = (db', r) \<Longrightarrow> (pipeline_step tv env cenv)\<^sup>*\<^sup>* (db, root) (db', root)"
proof (induction rounds arbitrary: db)
  case (Suc rounds)
  obtain db1 x where v: "refresh_volume_projection env db n = (db1, x)" by fastforce
  obtain db2 y where p: "refresh_projection_paths env db1 n = (db2, y)" by fastforce
  have 1: "(pipeline_step tv env cenv)\<^sup>*\<^sup>* (db, root) (db1, root)"
    using pipeline_step.refresh_volumes [OF v, of tv cenv root] by (rule r_into_rtranclp)
  have 2: "(pipeline_step tv env cenv)\<^sup>*\<^sup>* (db, root) (db2, root)"
    using 1 pipeline_step.refresh_paths [OF p, of tv cenv root] by (rule rtranclp.rtrancl_into_rtrancl)
  consider "db' = db1" | "db' = db2" | "refresh_rounds env n rounds db1 = (db', r)" | "refresh_rounds env n rounds db2 = (db', r)"
    using Suc.prems v p by (auto split: sum.splits if_splits)
  then show ?case
  proof cases
    case 3
    then show ?thesis using rtranclp_trans [OF 1 Suc.IH] by blast
  next
    case 4
    then show ?thesis using rtranclp_trans [OF 2 Suc.IH] by blast
  qed (use 1 2 in simp_all)
qed simp

lemma decision_page_size: "0 < rebuild_page_size (dec_budget (decision g))"
  by (cases "mode g") (simp_all add: decision_def get_indexing_budget_def)

text \<open>Projection with retries, from a state in which desired state reads back as recorded.\<close>

lemma retry_keeps:
  assumes "tantivy_laws tv" and "0 < po_rebuild_page_size opts"
    and "graph_ok db" "recorded_current env db" "catalog_consistent tv env cenv db root"
    and "retry_projection tv env cenv io opts n db root = Some (db', root', r)"
  shows "graph_ok db' \<and> same_but_consumers db db' \<and> catalog_consistent tv env cenv db' root'
    \<and> (\<forall>s. r = Inr s \<longrightarrow> worker_ready tv env cenv (ps_index_generation s) db' root'
        \<and> (\<not> ps_backlog_remaining s \<longrightarrow> (\<forall>row. find_consumer db' CATALOG_SCHEMA_ID = Some row \<longrightarrow> high_water db' \<le> c_last_sequence row)))"
  using assms(3-6)
proof (induction n arbitrary: db root)
  case (Suc n)
  let ?a = "MAX_ATTEMPTS - Suc n"
  obtain db1 root1 w where run: "run tv env cenv (ao_worker io ?a) opts (ao_elapsed io ?a) db root = Some (db1, root1, w)"
    using Suc.prems(4) by (auto simp: Let_def split: option.splits)
  note kept = run_ready [OF assms(1) Suc.prems(1) impI [OF Suc.prems(2)] assms(2) Suc.prems(3) run]
  show ?case
  proof (cases w)
    case (Inr s)
    then have "db' = db1" "root' = root1" "r = Inr s" using Suc.prems(4) run by (auto simp: Let_def)
    then show ?thesis using kept run_caught_up [OF run [unfolded Inr]] Inr by auto
  next
    case (Inl e)
    consider "db' = db1" "root' = root1" "isl r" | "retry_projection tv env cenv io opts n db1 root1 = Some (db', root', r)"
      using Suc.prems(4) run Inl by (auto simp: Let_def split: ProjectionWorkerError.splits if_splits)
    then show ?thesis
    proof cases
      case 1
      then show ?thesis using kept by auto
    next
      case 2
      have "recorded_current env db1" using kept same_but_consumers_reads(6) Suc.prems(2) by blast
      then show ?thesis using Suc.IH [OF _ _ _ 2] kept same_but_consumers_trans by blast
    qed
  qed
qed auto

lemma unat_minus_one_u64: "unat (- 1 :: u64) = 2 ^ 64 - 1"
  by (simp add: unsigned_minus_1_eq_mask mask_eq_exp_minus_1)

lemma retry_returns:
  assumes "tantivy_laws tv" and "0 < po_rebuild_page_size opts"
    and "graph_ok db" "recorded_current env db" "catalog_consistent tv env cenv db root"
    and "k + n \<le> 50" "unused_from (2 ^ 63 + k) root"
  shows "\<exists>x. retry_projection tv env cenv io opts n db root = Some x"
  using assms(3-7)
proof (induction n arbitrary: db root k)
  case (Suc n)
  let ?a = "MAX_ATTEMPTS - Suc n"
  have k: "2 ^ 63 + k < 2 ^ 64" using Suc.prems(4) by simp
  then have "root (generation_path (- 1)) = None" using Suc.prems(5) using unat_minus_one_u64 by (simp add: unused_from_def)
  then obtain db1 root1 w where run: "run tv env cenv (ao_worker io ?a) opts (ao_elapsed io ?a) db root = Some (db1, root1, w)"
    using run_returns [OF assms(1) Suc.prems(1) impI [OF Suc.prems(2)] assms(2)] by (metis prod_cases3)
  note kept = run_ready [OF assms(1) Suc.prems(1) impI [OF Suc.prems(2)] assms(2) Suc.prems(3) run]
  have "unused_from (2 ^ 63 + Suc k) root1" using run_unused_from [OF Suc.prems(1) run _ k Suc.prems(5)] by simp
  moreover have "recorded_current env db1" using kept same_but_consumers_reads(6) Suc.prems(2) by blast
  ultimately have "\<exists>x. retry_projection tv env cenv io opts n db1 root1 = Some x"
    using Suc.IH [of db1 root1 "Suc k"] kept Suc.prems(4) by simp
  then show ?case using run by (auto simp: Let_def split: sum.splits ProjectionWorkerError.splits)
qed simp

text \<open>The graph after the path refreshes of one cycle.\<close>

definition refreshed :: "graph_env \<Rightarrow> GovernorDecision \<Rightarrow> ('i, 'c) agent_service \<Rightarrow> graph_db" where
  "refreshed env d svc = fst (refresh_rounds env (max (unat (maximum_batch_mutations (dec_budget d))) 1)
     (min (unat (maximum_batches (dec_budget d))) 1024) (ag_graph svc))"

text \<open>The reader in use holds exactly what desired state records.\<close>

definition reader_current :: "('i, 'w) tantivy \<Rightarrow> graph_env \<Rightarrow> catalog_env \<Rightarrow> ('i, 'c) agent_service \<Rightarrow> bool" where
  "reader_current tv env cenv svc \<longleftrightarrow>
     (\<exists>idx. represents cenv (tv_documents tv (ag_reader svc)) idx \<and> index_agrees env idx (ag_graph svc))"

definition service_ok :: "('i, 'w) tantivy \<Rightarrow> graph_env \<Rightarrow> catalog_env \<Rightarrow> ('i, 'c) agent_service \<Rightarrow> bool" where
  "service_ok tv env cenv svc \<longleftrightarrow> graph_ok (ag_graph svc) \<and> catalog_consistent tv env cenv (ag_graph svc) (ag_root svc)"

text \<open>The content root lags the workspace's database by the unread rows of its consumer.\<close>

definition content_kept :: "('c, 'x, 'v) content_system \<Rightarrow> ('i, 'c) agent_service \<Rightarrow> bool" where
  "content_kept csys svc \<longleftrightarrow> graph_ok (workspace_graph svc) \<and> content_in_step csys (workspace_graph svc) (ag_content_root svc)"

lemma content_kept_governor [simp]: "content_kept csys (svc\<lparr>ag_governor := g\<rparr>) = content_kept csys svc"
  by (cases "ag_content_graph svc") (simp_all add: content_kept_def workspace_graph_def)

lemma content_kept_follows:
  assumes "content_kept csys svc" "follows (sy_env csys) CONTENT_SCHEMA_ID (ag_graph svc) (ag_graph svc')"
    and "ag_content_graph svc' = ag_content_graph svc" "ag_content_root svc' = ag_content_root svc"
  shows "content_kept csys svc'"
proof (cases "ag_content_graph svc")
  case None
  then show ?thesis
    using assms follows_content [OF assms(2)] by (auto simp: content_kept_def workspace_graph_def content_in_step_def follows_def)
qed (use assms in \<open>simp add: content_kept_def workspace_graph_def\<close>)

lemma refresh_rounds_follow:
  assumes "json_round_trip env" "graph_ok db" "refresh_rounds env n rounds db = (db', r)"
  shows "follows env c db db'"
  using assms(2,3)
proof (induction rounds arbitrary: db)
  case (Suc rounds)
  obtain db1 x where v: "refresh_volume_projection env db n = (db1, x)" by fastforce
  obtain db2 y where p: "refresh_projection_paths env db1 n = (db2, y)" by fastforce
  have 1: "follows env c db db1" using refresh_follows [OF Suc.prems(1) assms(1)] v by blast
  then have ok1: "graph_ok db1" by (simp add: follows_def)
  have 2: "follows env c db db2" using follows_trans [OF 1 refresh_follows [OF ok1 assms(1)]] p by blast
  then have ok2: "graph_ok db2" by (simp add: follows_def)
  consider "db' = db1" | "db' = db2" | "refresh_rounds env n rounds db1 = (db', r)" | "refresh_rounds env n rounds db2 = (db', r)"
    using Suc.prems(2) v p by (auto split: sum.splits if_splits)
  then show ?case
    by cases (use 1 2 follows_trans [OF 1 Suc.IH [OF ok1]] follows_trans [OF 2 Suc.IH [OF ok2]] in blast)+
qed (simp add: follows_refl)

lemma retry_other_consumer:
  assumes "retry_projection tv env cenv io opts n db root = Some (db', root', r)" "c \<noteq> CATALOG_SCHEMA_ID"
  shows "find_consumer db' c = find_consumer db c"
  using assms(1)
proof (induction n arbitrary: db root)
  case (Suc n)
  let ?a = "MAX_ATTEMPTS - Suc n"
  obtain db1 root1 w where run: "run tv env cenv (ao_worker io ?a) opts (ao_elapsed io ?a) db root = Some (db1, root1, w)"
    using Suc.prems by (auto simp: Let_def split: option.splits)
  note same = run_other_consumer [OF run assms(2)]
  consider "db' = db1" | "retry_projection tv env cenv io opts n db1 root1 = Some (db', root', r)"
    using Suc.prems run by (auto simp: Let_def split: sum.splits ProjectionWorkerError.splits if_splits)
  then show ?case using same Suc.IH by cases auto
qed simp

lemma index_status_caught_up:
  assumes "graph_ok (ag_graph svc)" "index_status io svc = Inr status" "is_backlog_mutations status = 0"
    and "find_consumer (ag_graph svc) CATALOG_SCHEMA_ID = Some row"
  shows "high_water (ag_graph svc) \<le> c_last_sequence row"
proof -
  have "saturating_sub (word_of_int (high_water (ag_graph svc)) :: u64) (word_of_int (c_last_sequence row)) = 0"
    using assms(2-4)
    by (auto simp: index_status_def query_state_def index_status_from_state_def redact_def applied_sequence_def result_simps
        latest_outbox_sequence_ok [OF assms(1)] projector_checkpoint_ok [OF assms(1)] split: if_splits)
  then have "(word_of_int (high_water (ag_graph svc)) :: u64) \<le> word_of_int (c_last_sequence row)"
    by (auto simp: saturating_sub_def split: if_splits)
  then show ?thesis using consumer_bounds [OF assms(1,4)] by (simp add: word_le_def uint_word_of_i64)
qed

lemma refreshed_reader:
  assumes "worker_ready tv env cenv g (ag_graph svc) (ag_root svc)" "refresh_catalog_reader io g svc = Inr svc'"
  shows "ag_graph svc' = ag_graph svc \<and> ag_root svc' = ag_root svc \<and> index_lags tv env cenv (ag_graph svc) (ag_reader svc')
    \<and> (\<exists>row. find_consumer (ag_graph svc) CATALOG_SCHEMA_ID = Some row)"
proof -
  note ok = worker_ready_consistent [OF assms(1)]
  obtain i where i: "active_index (ag_graph svc) (ag_root svc) = Inr i" "svc' = svc\<lparr>ag_reader := i, ag_generation := IndexGeneration g\<rparr>"
    using assms(2) by (auto simp: refresh_catalog_reader_def redact_def result_simps split: sum.splits if_splits)
  have "index_lags tv env cenv (ag_graph svc) i" using ok(2) i(1) by (simp add: catalog_consistent_def)
  then show ?thesis using i(2) assms(1) by (auto simp: worker_ready_def)
qed

lemma project_and_refresh_keeps:
  assumes "tantivy_laws tv" "json_round_trip env" "service_ok tv env cenv svc" "recorded_current env (refreshed env d svc)"
    and "0 < rebuild_page_size (dec_budget d)" "project_and_refresh tv env cenv io d svc = Some (svc', r)"
  shows "service_ok tv env cenv svc'
    \<and> (\<forall>status. r = Inr status \<longrightarrow> is_backlog_mutations status = 0 \<longrightarrow> reader_current tv env cenv svc')"
proof -
  obtain db1 x where db1: "refresh_rounds env (max (unat (maximum_batch_mutations (dec_budget d))) 1)
      (min (unat (maximum_batches (dec_budget d))) 1024) (ag_graph svc) = (db1, x)" by fastforce
  have kept1: "graph_ok db1" "catalog_consistent tv env cenv db1 (ag_root svc)"
    using pipeline_steps_keep [OF assms(1,2) refresh_rounds_steps [OF db1, of tv cenv "ag_root svc"]] assms(3) by (simp_all add: service_ok_def)
  have current: "recorded_current env db1" using assms(4) db1 by (simp add: refreshed_def)
  show ?thesis
  proof (cases x)
    case (Inl e)
    then show ?thesis using assms(6) db1 kept1 by (auto simp: project_and_refresh_def service_ok_def)
  next
    case (Inr u)
    then obtain db2 root2 w where w: "run_projection_with_retry tv env cenv io (projection_options d) db1 (ag_root svc) = Some (db2, root2, w)"
      using assms(6) db1 by (auto simp: project_and_refresh_def split: option.splits)
    have "0 < po_rebuild_page_size (projection_options d)" using assms(5) by (simp add: projection_options_def)
    note kept2 = retry_keeps [OF assms(1) this kept1(1) current kept1(2) w [unfolded run_projection_with_retry_def]]
    let ?svc2 = "svc\<lparr>ag_graph := db2, ag_root := root2\<rparr>"
    have ok2: "service_ok tv env cenv ?svc2" using kept2 by (simp add: service_ok_def)
    show ?thesis
    proof (cases "\<exists>s svc3. w = Inr s \<and> refresh_catalog_reader io (ps_index_generation s) ?svc2 = Inr svc3")
      case False
      then have "svc' = ?svc2 \<and> isl r"
        using assms(6) db1 Inr w by (auto simp: project_and_refresh_def Let_def split: sum.splits)
      then show ?thesis using ok2 by auto
    next
      case True
      then obtain s svc3 where s: "w = Inr s" "refresh_catalog_reader io (ps_index_generation s) ?svc2 = Inr svc3" by blast
      have res: "svc' = svc3" "r = index_status io svc3" using assms(6) db1 Inr w s by (auto simp: project_and_refresh_def)
      have rd: "ag_graph svc3 = db2" "ag_root svc3 = root2" "index_lags tv env cenv db2 (ag_reader svc3)"
          "\<exists>row. find_consumer db2 CATALOG_SCHEMA_ID = Some row"
        using refreshed_reader [OF _ s(2), of tv env cenv] kept2 s(1) by simp_all
      have "reader_current tv env cenv svc3" if "index_status io svc3 = Inr status" "is_backlog_mutations status = 0" for status
      proof -
        obtain row where row: "find_consumer db2 CATALOG_SCHEMA_ID = Some row" using rd(4) by blast
        have "high_water db2 \<le> c_last_sequence row"
          using index_status_caught_up [OF _ that, of row] kept2 rd(1) row by simp
        then show ?thesis using lag_free [OF _ rd(3) row] kept2 rd(1) by (simp add: reader_current_def)
      qed
      then show ?thesis using res ok2 rd(1,2) by (simp add: service_ok_def)
    qed
  qed
qed

lemma project_and_refresh_returns:
  assumes "tantivy_laws tv" "json_round_trip env" "service_ok tv env cenv svc" "recorded_current env (refreshed env d svc)"
    and "0 < rebuild_page_size (dec_budget d)" "unused_from (2 ^ 63) (ag_root svc)"
  shows "\<exists>x. project_and_refresh tv env cenv io d svc = Some x"
proof -
  obtain db1 x where db1: "refresh_rounds env (max (unat (maximum_batch_mutations (dec_budget d))) 1)
      (min (unat (maximum_batches (dec_budget d))) 1024) (ag_graph svc) = (db1, x)" by fastforce
  have kept1: "graph_ok db1" "catalog_consistent tv env cenv db1 (ag_root svc)"
    using pipeline_steps_keep [OF assms(1,2) refresh_rounds_steps [OF db1, of tv cenv "ag_root svc"]] assms(3)
    by (simp_all add: service_ok_def)
  have "recorded_current env db1" using assms(4) db1 by (simp add: refreshed_def)
  moreover have "0 < po_rebuild_page_size (projection_options d)" using assms(5) by (simp add: projection_options_def)
  ultimately have "\<exists>x. run_projection_with_retry tv env cenv io (projection_options d) db1 (ag_root svc) = Some x"
    unfolding run_projection_with_retry_def MAX_ATTEMPTS_def
    using retry_returns [OF assms(1) _ kept1(1) _ kept1(2), of _ 0 50] assms(6) by simp
  then show ?thesis using db1 by (cases x) (auto simp: project_and_refresh_def Let_def split: sum.splits)
qed

lemma project_and_refresh_content:
  assumes "tantivy_laws tv" "json_round_trip env" "service_ok tv env cenv svc" "recorded_current env (refreshed env d svc)"
    and "0 < rebuild_page_size (dec_budget d)" "project_and_refresh tv env cenv io d svc = Some (svc', r)"
    and "sy_env csys = env" "content_kept csys svc"
  shows "content_kept csys svc'"
proof -
  obtain db1 x where db1: "refresh_rounds env (max (unat (maximum_batch_mutations (dec_budget d))) 1)
      (min (unat (maximum_batches (dec_budget d))) 1024) (ag_graph svc) = (db1, x)" by fastforce
  have ok: "graph_ok (ag_graph svc)" using assms(3) by (simp add: service_ok_def)
  note f1 = refresh_rounds_follow [OF assms(2) ok db1, of CONTENT_SCHEMA_ID]
  have kept1: "graph_ok db1" "catalog_consistent tv env cenv db1 (ag_root svc)"
    using pipeline_steps_keep [OF assms(1,2) refresh_rounds_steps [OF db1, of tv cenv "ag_root svc"]] assms(3) by (simp_all add: service_ok_def)
  have current: "recorded_current env db1" using assms(4) db1 by (simp add: refreshed_def)
  have size: "0 < po_rebuild_page_size (projection_options d)" using assms(5) by (simp add: projection_options_def)
  have "follows env CONTENT_SCHEMA_ID (ag_graph svc) (ag_graph svc') \<and> ag_content_graph svc' = ag_content_graph svc
    \<and> ag_content_root svc' = ag_content_root svc"
  proof (cases x)
    case (Inl e)
    then show ?thesis using assms(6) db1 f1 by (auto simp: project_and_refresh_def)
  next
    case (Inr u)
    then obtain db2 root2 w where w: "run_projection_with_retry tv env cenv io (projection_options d) db1 (ag_root svc) = Some (db2, root2, w)"
      using assms(6) db1 by (auto simp: project_and_refresh_def split: option.splits)
    note kept2 = retry_keeps [OF assms(1) size kept1(1) current kept1(2) w [unfolded run_projection_with_retry_def]]
    have "find_consumer db2 CONTENT_SCHEMA_ID = find_consumer db1 CONTENT_SCHEMA_ID"
      by (rule retry_other_consumer [OF w [unfolded run_projection_with_retry_def]]) (simp add: CONTENT_SCHEMA_ID_def CATALOG_SCHEMA_ID_def)
    then have "follows env CONTENT_SCHEMA_ID db1 db2" using kept2 by (intro consumers_follow [OF kept1(1)]) auto
    then have f2: "follows env CONTENT_SCHEMA_ID (ag_graph svc) db2" by (rule follows_trans [OF f1])
    have "ag_graph svc' = db2" "ag_content_graph svc' = ag_content_graph svc" "ag_content_root svc' = ag_content_root svc"
      using assms(6) db1 Inr w
      by (auto simp: project_and_refresh_def Let_def refresh_catalog_reader_def result_simps split: sum.splits if_splits)
    then show ?thesis using f2 by simp
  qed
  then show ?thesis using content_kept_follows [OF assms(8)] assms(7) by blast
qed

text \<open>The decision a cycle works under: the backlog reported, and a new window opened or not.\<close>

lemma maintenance_decision_ok:
  assumes "graph_ok (ag_graph svc)"
  obtains g where "maintenance_decision advance svc = Inr (g, decision g)"
  using assms
  by (auto simp: maintenance_decision_def latest_outbox_sequence_ok projector_checkpoint_ok redact_def Let_def)

lemma maintain_projection_inner_ok:
  assumes "tantivy_laws tv" "json_round_trip env" "service_ok tv env cenv svc" "unused_from (2 ^ 63) (ag_root svc)"
    and "maintenance_decision advance svc = Inr (g, d)" "recorded_current env (refreshed env d svc)"
  shows "\<exists>svc' r. maintain_projection_inner tv env cenv io advance svc = Some (svc', r) \<and> service_ok tv env cenv svc'
    \<and> (\<forall>status. ao_open io \<and> \<not> background_paused (dec_budget d) \<and> r = Inr status \<and> is_backlog_mutations status = 0
          \<longrightarrow> reader_current tv env cenv svc')"
proof -
  have ok: "graph_ok (ag_graph svc)" using assms(3) by (simp add: service_ok_def)
  have d: "d = decision g"
    using assms(5) maintenance_decision_ok [OF ok, of advance] by (metis Inr_inject prod.inject)
  let ?svc1 = "svc\<lparr>ag_governor := g\<rparr>"
  have ok1: "service_ok tv env cenv ?svc1" "recorded_current env (refreshed env d ?svc1)" "unused_from (2 ^ 63) (ag_root ?svc1)"
    using assms(3,4,6) by (simp_all add: service_ok_def refreshed_def)
  have size: "0 < rebuild_page_size (dec_budget d)" unfolding d by (rule decision_page_size)
  obtain svc' r where run: "project_and_refresh tv env cenv io d ?svc1 = Some (svc', r)"
    using project_and_refresh_returns [OF assms(1,2) ok1(1,2) size ok1(3)] by fastforce
  note kept = project_and_refresh_keeps [OF assms(1,2) ok1(1,2) size run]
  show ?thesis
  proof (cases "ao_open io \<and> \<not> background_paused (dec_budget d)")
    case True
    then show ?thesis using kept run assms(5) by (auto simp: maintain_projection_inner_def Let_def)
  next
    case False
    then show ?thesis using assms(3,5) ok1(1) by (auto simp: maintain_projection_inner_def Let_def)
  qed
qed

lemma graph_storage_ok:
  assumes "tantivy_laws tv" "json_round_trip env" "service_ok tv env cenv svc"
    and "maintain_graph_storage_scheduled env io svc = (svc', r)"
  shows "service_ok tv env cenv svc'"
proof -
  let ?rows = "max 1 (min 100000 (unat (maximum_batch_mutations (dec_budget (decision (ag_governor svc))))))"
  obtain db1 x where c: "compact_legacy_desired_payloads_bounded env (ag_graph svc) ?rows = (db1, x)" by fastforce
  obtain db2 y where p: "prune_rebuildable_outbox_bounded db1 ?rows False = (db2, y)" by fastforce
  have 1: "graph_ok db1 \<and> catalog_consistent tv env cenv db1 (ag_root svc)"
    using pipeline_step_keeps [OF assms(1,2) _ _ pipeline_step.compact [OF c, of tv cenv "ag_root svc"]] assms(3)
    by (simp add: service_ok_def)
  then have 2: "graph_ok db2 \<and> catalog_consistent tv env cenv db2 (ag_root svc)"
    using pipeline_step_keeps [OF assms(1,2) _ _ pipeline_step.prune_bounded [OF p, of tv env cenv "ag_root svc"]] by simp
  consider "svc' = svc" | "svc' = svc\<lparr>ag_graph := db1\<rparr>" | "svc' = svc\<lparr>ag_graph := db2\<rparr>"
    using assms(4) c p by (auto simp: maintain_graph_storage_scheduled_def Let_def split: if_splits sum.splits)
  then show ?thesis using 1 2 assms(3) by cases (simp_all add: service_ok_def)
qed

lemma graph_storage_content:
  assumes "json_round_trip env" "graph_ok (ag_graph svc)" "maintain_graph_storage_scheduled env io svc = (svc', r)"
    and "sy_env csys = env" "content_kept csys svc"
  shows "content_kept csys svc'"
proof -
  let ?rows = "max 1 (min 100000 (unat (maximum_batch_mutations (dec_budget (decision (ag_governor svc))))))"
  obtain db1 x where c: "compact_legacy_desired_payloads_bounded env (ag_graph svc) ?rows = (db1, x)" by fastforce
  obtain db2 y where p: "prune_rebuildable_outbox_bounded db1 ?rows False = (db2, y)" by fastforce
  have 1: "follows env CONTENT_SCHEMA_ID (ag_graph svc) db1" by (rule compact_follows [OF assms(2) c])
  then have "graph_ok db1" by (simp add: follows_def)
  then have 2: "follows env CONTENT_SCHEMA_ID (ag_graph svc) db2"
    using follows_trans [OF 1 prune_follows [of db1 db2 ?rows False env CONTENT_SCHEMA_ID]] p by simp
  have "svc' = svc \<or> svc' = svc\<lparr>ag_graph := db1\<rparr> \<or> svc' = svc\<lparr>ag_graph := db2\<rparr>"
    using assms(3) c p by (auto simp: maintain_graph_storage_scheduled_def Let_def split: if_splits sum.splits)
  then have "follows env CONTENT_SCHEMA_ID (ag_graph svc) (ag_graph svc') \<and> ag_content_graph svc' = ag_content_graph svc
      \<and> ag_content_root svc' = ag_content_root svc"
    using 1 2 follows_refl [OF assms(2)] by auto
  then show ?thesis using content_kept_follows [OF assms(5)] assms(4) by blast
qed

lemma project_content_keeps:
  assumes "content_laws (sy_tantivy csys)" "document_json_round_trip (sy_cenv csys)" "graph_ok db" "content_in_step csys db st"
    and "project_content csys policy opts n db st = (db', st', r)"
  shows "graph_ok db' \<and> same_but_consumers db db' \<and> find_consumer db' CATALOG_SCHEMA_ID = find_consumer db CATALOG_SCHEMA_ID
    \<and> content_in_step csys db' st'"
  using assms(3-5)
proof (induction n arbitrary: db st)
  case (Suc n)
  obtain db1 st1 x where w: "worker_project csys policy opts db st = (db1, st1, x)" by (metis prod_cases3)
  note kept = worker_project_keeps [OF assms(1,2) Suc.prems(1,2) w]
  consider "db' = db1" "st' = st1" | "project_content csys policy opts n db1 st1 = (db', st', r)"
    using Suc.prems(3) w by (auto split: sum.splits)
  then show ?case
  proof cases
    case 2
    then show ?thesis using Suc.IH [of db1 st1] kept same_but_consumers_trans [of db db1 db'] by auto
  qed (use kept in simp)
qed simp

text \<open>A content pass keeps the catalog too, also when both consumers share one database.\<close>

lemma content_pass_keeps:
  assumes "content_laws (sy_tantivy csys)" "document_json_round_trip (sy_cenv csys)" "service_ok tv env cenv svc" "content_kept csys svc"
    and "maintain_content_projection_scheduled csys svc = (svc', r)"
  shows "service_ok tv env cenv svc' \<and> content_kept csys svc'"
proof (cases "svc' = svc")
  case False
  then obtain policy opts db st where p: "project_content csys policy opts 3 (workspace_graph svc) (ag_content_root svc) = (db, st, r)"
    and svc': "svc' = set_workspace db st svc"
    using assms(5)
    by (auto simp: maintain_content_projection_scheduled_def Let_def split: option.splits if_splits prod.splits)
  have ok: "graph_ok (workspace_graph svc)" "content_in_step csys (workspace_graph svc) (ag_content_root svc)"
    using assms(4) by (simp_all add: content_kept_def)
  note kept = project_content_keeps [OF assms(1,2) ok p]
  show ?thesis
  proof (cases "ag_content_graph svc")
    case None
    have ok': "graph_ok (ag_graph svc)" "catalog_consistent tv env cenv (ag_graph svc) (ag_root svc)"
      using assms(3) by (simp_all add: service_ok_def)
    have "follows env CATALOG_SCHEMA_ID (ag_graph svc) db"
      using kept None by (intro consumers_follow [OF ok'(1)]) (auto simp: workspace_graph_def)
    from follows_consistent [OF ok'(1) this ok'(2)] show ?thesis
      using kept None by (simp add: svc' set_workspace_def service_ok_def content_kept_def workspace_graph_def)
  next
    case (Some g)
    then show ?thesis
      using kept assms(3) by (simp add: svc' set_workspace_def service_ok_def content_kept_def workspace_graph_def)
  qed
qed (use assms(3,4) in simp)

lemma maintain_inner_content:
  assumes "tantivy_laws tv" "json_round_trip env" "service_ok tv env cenv svc"
    and "maintenance_decision advance svc = Inr (g, d)" "recorded_current env (refreshed env d svc)"
    and "maintain_projection_inner tv env cenv io advance svc = Some (svc', r)" "sy_env csys = env" "content_kept csys svc"
  shows "content_kept csys svc'"
proof -
  have ok: "graph_ok (ag_graph svc)" using assms(3) by (simp add: service_ok_def)
  have d: "d = decision g" using assms(4) maintenance_decision_ok [OF ok, of advance] by (metis Inr_inject prod.inject)
  let ?svc1 = "svc\<lparr>ag_governor := g\<rparr>"
  have ok1: "service_ok tv env cenv ?svc1" "recorded_current env (refreshed env d ?svc1)" "content_kept csys ?svc1"
    using assms(3,5,8) by (simp_all add: service_ok_def refreshed_def)
  have size: "0 < rebuild_page_size (dec_budget d)" unfolding d by (rule decision_page_size)
  consider "svc' = svc" | "svc' = ?svc1" | "project_and_refresh tv env cenv io d ?svc1 = Some (svc', r)"
    using assms(4,6) by (auto simp: maintain_projection_inner_def Let_def split: if_splits)
  then show ?thesis
    by cases (use assms(8) ok1 project_and_refresh_content [OF assms(1,2) ok1(1,2) size _ assms(7) ok1(3)] in blast)+
qed


section \<open>Searches see what the graph records\<close>

lemma dispatch_search:
  assumes "dispatch_cancellable tv env cenv csys io clock request svc = (svc', response)"
    and "rs_result response = Some (SearchPayload found)" "rq_operation request = CatalogSearch search"
  shows "search_documents tv cenv (ag_reader svc) (ag_generation svc) clock search (effective_deadline_ms request) = Inr found"
  using assms
  by (auto simp: dispatch_cancellable_def Let_def perform_def search_impl_def require_capability_cases map_payload_def
      response_failure_def response_success_def split: sum.splits if_splits)

lemma current_hits:
  assumes "reader_current tv env cenv svc" "tantivy_query_laws tv" "document_json_round_trip cenv"
    and "search_documents tv cenv (ag_reader svc) generation clock search ms = Inr found" "h \<in> set (resp_hits found)"
  shows "\<exists>d j. projected env (ag_graph svc) (hit_document_id h) = Some (fp_of env d) \<and> h = hit_of (j, hit_match_type h, d)
    \<and> matches_filters cenv d search"
proof -
  obtain idx where idx: "represents cenv (tv_documents tv (ag_reader svc)) idx" "index_agrees env idx (ag_graph svc)"
    using assms(1) unfolding reader_current_def by blast
  obtain d j where d: "idx (hit_document_id h) = Some d" "h = hit_of (j, hit_match_type h, d)" "matches_filters cenv d search"
    using hit_represented [OF assms(4,2) idx(1) assms(3,5)] by blast
  have "map_option (fp_of env) (idx (hit_document_id h)) = projected env (ag_graph svc) (hit_document_id h)"
    using idx(2) unfolding index_agrees_def by blast
  then show ?thesis using d by (intro exI [of _ d] exI [of _ j]) simp
qed



section \<open>Content searches\<close>

text \<open>The item a content candidate leads to: that of the current document of its identity, if there is one.\<close>

definition current_item :: "graph_env \<Rightarrow> graph_db \<Rightarrow> CatalogDocument \<Rightarrow> CatalogItem option" where
  "current_item env db c =
     (case desired_catalog_document env db (docid c) of Inr (Some d) \<Rightarrow> Some (item_from_document d) | _ \<Rightarrow> None)"

lemma resolve_content_hits:
  assumes "resolve_content env db clock deadline hits n cs = Inr (hits', n')" "length hits + length cs < 2 ^ 32"
    and "map ch_rank hits = map of_nat [1..<Suc (length hits)]"
  shows "map ch_item hits' = map ch_item hits @ List.map_filter (current_item env db) cs
    \<and> map ch_rank hits' = map of_nat [1..<Suc (length hits')]"
  using assms
proof (induction cs arbitrary: hits n)
  case (Cons c cs)
  obtain found where found: "desired_catalog_document env db (docid c) = Inr found"
    and rest: "resolve_content env db clock deadline (case found of None \<Rightarrow> hits
          | Some current \<Rightarrow> hits @ [\<lparr>ch_item = item_from_document current,
              ch_rank = (if length hits + 1 < 2 ^ 32 then of_nat (length hits + 1) else - 1)\<rparr>]) (Suc n) cs = Inr (hits', n')"
    using Cons.prems(1) by (auto simp: redact_def result_simps split: sum.splits)
  show ?case
  proof (cases found)
    case None
    then show ?thesis using Cons.IH [of hits "Suc n"] rest Cons.prems(2,3) found by (simp add: current_item_def List.map_filter_simps)
  next
    case (Some d)
    let ?h = "\<lparr>ch_item = item_from_document d, ch_rank = of_nat (length hits + 1)\<rparr>"
    have "resolve_content env db clock deadline (hits @ [?h]) (Suc n) cs = Inr (hits', n')" using rest Some Cons.prems(2) by simp
    then show ?thesis
      using Cons.IH [of "hits @ [?h]" "Suc n"] Cons.prems(2,3) found Some by (simp add: current_item_def List.map_filter_simps)
  qed
qed (auto simp: List.map_filter_simps)

lemma content_search_limit:
  assumes "content_search tv cenv ws i q n = Inr ds"
  shows "length ds \<le> 100"
proof -
  let ?f = "\<lambda>e. and_then (stored_content cenv True e) (\<lambda>s. Inr (sc_document s))"
  obtain es where n: "n \<le> 100" and es: "fold_r (\<lambda>hits e. and_then (stored_content cenv True e) (\<lambda>s. Inr (hits @ [sc_document s]))) [] (take n es) = Inr ds"
    using assms by (auto simp: content_search_def Let_def bounded_unscored_def result_simps split: if_splits)
  then have "fold_r (\<lambda>hits e. and_then (?f e) (\<lambda>d. Inr (hits @ [d]))) [] (take n es) = Inr ds" by (simp add: and_then_assoc)
  then have "length ds = length (take n es)" by (auto simp: fold_r_collect dest: list_all2_lengthD)
  then show ?thesis using n by simp
qed

text \<open>C17: content search serves the active generation and current metadata. A successful content search moves a managed reader
  to the generation the active pointer names; its hits are the candidates of that index for the query, in order, with those
  that desired state no longer holds left out, each with the item of its current document, ranked 1, 2, 3 and so on.\<close>

theorem content_search_serves_active:
  assumes "content_search_impl env csys io svc clock query top_k deadline_ms = (svc', Inr response)"
  shows "\<exists>reader reader' i candidates. ag_content_reader svc = Some reader \<and> svc' = svc\<lparr>ag_content_reader := Some reader'\<rparr>
    \<and> (if rd_managed reader then resolve_active_index (sy_json csys) (sy_root csys) (ag_content_root svc) = Inr (rd_path reader') else reader' = reader)
    \<and> reload (ag_content_root svc) reader' = Inr i
    \<and> content_search (sy_tantivy csys) (sy_cenv csys) (sy_is_whitespace csys) i query (unat (min top_k MAX_TOP_K)) = Inr candidates
    \<and> map ch_item (cr_hits response) = List.map_filter (current_item env (ag_graph svc)) candidates
    \<and> map ch_rank (cr_hits response) = map of_nat [1..<Suc (length (cr_hits response))]"
proof -
  obtain reader reader' found where r: "ag_content_reader svc = Some reader" "svc' = svc\<lparr>ag_content_reader := Some reader'\<rparr>"
      "reader_search (sy_tantivy csys) (sy_cenv csys) (sy_is_whitespace csys) (sy_json csys) (sy_root csys) (ag_content_root svc)
         reader query (unat (min top_k MAX_TOP_K)) = (reader', Inr found)"
    and hits: "\<exists>n. resolve_content env (ag_graph svc) clock (deadline_nanos deadline_ms) [] 2 found = Inr (cr_hits response, n)"
    using assms by (auto simp: content_search_impl_def Let_def redact_def result_simps split: sum.splits prod.splits if_splits)
  obtain i where s: "current_state (sy_tantivy csys) (sy_json csys) (sy_root csys) (ag_content_root svc) reader = Inr reader'"
      "reload (ag_content_root svc) reader' = Inr i"
      "content_search (sy_tantivy csys) (sy_cenv csys) (sy_is_whitespace csys) i query (unat (min top_k MAX_TOP_K)) = Inr found"
    using r(3) by (auto simp: reader_search_def Let_def result_simps split: if_splits sum.splits)
  have "length found < 2 ^ 32" using content_search_limit [OF s(3)] by simp
  then have "map ch_item (cr_hits response) = List.map_filter (current_item env (ag_graph svc)) found
      \<and> map ch_rank (cr_hits response) = map of_nat [1..<Suc (length (cr_hits response))]"
    using hits resolve_content_hits [of env "ag_graph svc" clock "deadline_nanos deadline_ms" "[]"] by fastforce
  moreover have "if rd_managed reader then resolve_active_index (sy_json csys) (sy_root csys) (ag_content_root svc) = Inr (rd_path reader') else reader' = reader"
    using s(1) current_state_follows [OF _ s(1)] by (cases "rd_managed reader") (auto simp: current_state_def)
  ultimately show ?thesis using r s(2,3) by blast
qed

section \<open>Lookups\<close>

text \<open>The items of the documents that single lookups find, in order.\<close>

definition found_items :: "graph_env \<Rightarrow> 'i agent_io \<Rightarrow> ('i, 'c) agent_service \<Rightarrow> DocumentId list \<Rightarrow> CatalogItem list" where
  "found_items env io svc ks = List.map_filter (\<lambda>k. case get_catalog_item env io svc k of Inl _ \<Rightarrow> None | Inr item \<Rightarrow> Some item) ks"

lemma get_catalog_item_eq:
  assumes "ao_open_read_only io"
  shows "get_catalog_item env io svc k = (case desired_catalog_document env (ag_graph svc) k of
      Inl _ \<Rightarrow> Inl internal_error
    | Inr None \<Rightarrow> Inl (wire_error AeNotFound ''catalog item is not current'')
    | Inr (Some d) \<Rightarrow> Inr (item_from_document d))"
  using assms by (simp add: get_catalog_item_def redact_def ok_or_def split: sum.splits option.splits)

text \<open>A batched lookup is the single lookups in order: it fails exactly when the graph does for one of the
  documents, and otherwise returns the items the single lookups return, leaving out those that are not
  current and keeping the order of the request.\<close>

theorem batched_lookup_equals_single_lookups:
  "get_catalog_items env io svc ks =
     (if ao_open_read_only io \<and> Inl internal_error \<notin> get_catalog_item env io svc ` set ks
      then Inr (found_items env io svc ks) else Inl internal_error)"
proof (cases "ao_open_read_only io")
  case True
  let ?step = "\<lambda>items k. and_then (redact (desired_catalog_document env (ag_graph svc) k)) (\<lambda>found.
      Inr (case found of None \<Rightarrow> items | Some d \<Rightarrow> items @ [item_from_document d]))"
  have "fold_r ?step acc ks = (if Inl internal_error \<notin> get_catalog_item env io svc ` set ks
      then Inr (acc @ found_items env io svc ks) else Inl internal_error)" for acc
  proof (induction ks arbitrary: acc)
    case (Cons k ks)
    have "wire_error AeNotFound ''catalog item is not current'' \<noteq> internal_error"
      by (simp add: internal_error_def wire_error_def)
    then show ?case
      using Cons
      by (cases "desired_catalog_document env (ag_graph svc) k")
         (auto simp: redact_def found_items_def get_catalog_item_eq [OF True] List.map_filter_simps split: option.splits)
  qed (simp add: found_items_def List.map_filter_simps)
  then show ?thesis using True by (simp add: get_catalog_items_def)
qed (simp add: get_catalog_items_def)

section \<open>A service over two documents\<close>

definition all_ok :: "'i agent_io" where
  "all_ok = \<lparr>ao_open = True, ao_open_read_only = True, ao_worker = (\<lambda>_. sample_io), ao_elapsed = (\<lambda>_ _. 0), ao_reader = True,
     ao_count = (\<lambda>_. Some 2), ao_reclaim = True\<rparr>"

lemma all_ok_simps [simp]:
  "ao_open all_ok" "ao_open_read_only all_ok" "ao_worker all_ok = (\<lambda>_. sample_io)" "ao_elapsed all_ok = (\<lambda>_ _. 0)"
  "ao_reader all_ok" "ao_count all_ok = (\<lambda>_. Some 2)"
  by (simp_all add: all_ok_def)

definition two_env :: catalog_env where
  "two_env = sample_catalog_env [sample_directory_document, sample_document]"

definition sample_entries :: "TantivyDocument list" where
  "sample_entries = map (projr \<circ> index_document two_env) [sample_directory_document, sample_document]"

definition caught_up :: graph_db where
  "caught_up = projr (acknowledge_projection committed CATALOG_SCHEMA_ID (MutationSeq 2) 1)"

definition sample_root :: "TantivyDocument list catalog_root" where
  "sample_root = [generation_path 1 \<mapsto> \<lparr>gd_marker = Some CATALOG_SCHEMA_ID, gd_index = Some sample_entries\<rparr>]"

definition no_content_root :: "ContentEntry list content_root" where
  "no_content_root = \<lparr>mg_store = (\<lambda>_. None), mg_marker = None, mg_active = no_file, mg_generations = [], mg_files = [], mg_tick = 0\<rparr>"

definition service_content :: "(ContentEntry list, ContentEntry list, ActiveGenerationPointer + ContentGenerationRecord) content_system" where
  "service_content = sample_system\<lparr>sy_env := batch_env, sy_cenv := two_env\<rparr>"

definition sample_service :: "(TantivyDocument list, ContentEntry list) agent_service" where
  "sample_service = \<lparr>ag_graph = caught_up, ag_root = sample_root, ag_governor = new_governor default_config,
     ag_reader = sample_entries, ag_generation = IndexGeneration 1, ag_content_reader = None, ag_content_projector = None,
     ag_content_root = no_content_root, ag_content_graph = None, ag_granted = v0_1_metadata\<rparr>"

lemma batch_env_json: "json_round_trip batch_env"
  using json_round_trip_sample by (simp add: batch_env_def)

lemma two_env_json: "document_json_round_trip two_env"
  using sample_catalog_round_trip by (simp add: two_env_def)

lemma caught_up_ok: "graph_ok caught_up"
proof -
  have "\<not> isl (acknowledge_projection committed CATALOG_SCHEMA_ID (MutationSeq 2) 1)" by code_simp
  then have run: "acknowledge_projection committed CATALOG_SCHEMA_ID (MutationSeq 2) 1 = Inr caught_up" by (simp add: caught_up_def)
  have ok: "graph_ok committed"
    using apply_follows [OF graph_ok_empty batch_env_json sample_batch_commits_mode] by (simp add: follows_def)
  have "uint (1 :: u64) \<le> i64_max" by (simp add: i64_max_def)
  then show ?thesis by (rule acknowledge_projection_ok(1) [OF ok _ run])
qed

lemma caught_up_value:
  "(graph_projection_consumers caught_up, map d_document_id (graph_catalog_documents caught_up), outbox_seq caught_up,
    graph_path_refresh_jobs caught_up, graph_volume_projection_refresh_jobs caught_up,
    map (desired_catalog_document batch_env caught_up) [from_u128 10, from_u128 11],
    map (projected batch_env caught_up) [from_u128 10, from_u128 11])
   = ([\<lparr>c_consumer_id = CATALOG_SCHEMA_ID, c_last_sequence = 2, c_index_generation = 1\<rparr>], [from_u128 10, from_u128 11], Some 2, [], [],
      map (Inr \<circ> Some) [sample_directory_document, sample_document],
      map (Some \<circ> fp_of batch_env) [sample_directory_document, sample_document])"
  by code_simp

lemma caught_up_tables:
  "find_consumer caught_up CATALOG_SCHEMA_ID = Some \<lparr>c_consumer_id = CATALOG_SCHEMA_ID, c_last_sequence = 2, c_index_generation = 1\<rparr>"
  "map d_document_id (graph_catalog_documents caught_up) = [from_u128 10, from_u128 11]"
  "high_water caught_up = 2" "graph_path_refresh_jobs caught_up = []" "graph_volume_projection_refresh_jobs caught_up = []"
  using caught_up_value by (simp_all add: tbl_find_def high_water_def)

lemma caught_up_documents:
  "desired_catalog_document batch_env caught_up (from_u128 10) = Inr (Some sample_directory_document)"
  "desired_catalog_document batch_env caught_up (from_u128 11) = Inr (Some sample_document)"
  "projected batch_env caught_up (from_u128 10) = Some (fp_of batch_env sample_directory_document)"
  "projected batch_env caught_up (from_u128 11) = Some (fp_of batch_env sample_document)"
  using caught_up_value by simp_all

lemma caught_up_other:
  assumes "k \<notin> {from_u128 10, from_u128 11}"
  shows "desired_catalog_document batch_env caught_up k = Inr None \<and> projected batch_env caught_up k = None"
proof -
  have "k \<notin> d_document_id ` set (graph_catalog_documents caught_up)"
    using assms arg_cong [OF caught_up_tables(2), of set] by simp
  then have none: "find_document caught_up k = None" by (auto simp: tbl_find_def find_None_iff)
  moreover have "find (\<lambda>row. d_document_id (fst row) = k) (joined_rows caught_up) = None"
    using find_joined_row [of caught_up k] caught_up_ok none by (simp add: graph_ok_def store_ok_def)
  ultimately show ?thesis by (simp add: desired_catalog_document_def projected_def)
qed

lemma sample_document_ids:
  "docid sample_directory_document = from_u128 10" "docid sample_document = from_u128 11" "from_u128 10 \<noteq> (from_u128 11 :: DocumentId)"
  by (simp_all add: sample_directory_document_def sample_document_def) code_simp

lemma caught_up_recorded: "recorded_current batch_env caught_up"
  unfolding recorded_current_def
proof
  fix k
  show "\<exists>d. desired_catalog_document batch_env caught_up k = Inr d \<and> map_option (fp_of batch_env) d = projected batch_env caught_up k
      \<and> (d = None \<or> docid (the d) = k)"
  proof (cases "k \<in> {from_u128 10, from_u128 11}")
    case True
    then show ?thesis using caught_up_documents sample_document_ids by auto
  next
    case False
    then show ?thesis using caught_up_other by simp
  qed
qed

theorem graph_snapshot_complete_witness:
  "sync_from_graph list_content batch_env two_env sample_fs sample_policy empty_content ''content'' caught_up
     = Some (sync list_content batch_env two_env sample_fs sample_policy empty_content ''content'' [sample_directory_document, sample_document])"
proof -
  have "schema_ok caught_up" using caught_up_ok by (simp add: graph_ok_def store_ok_def)
  moreover have "desired_catalog_documents batch_env caught_up = Inr [sample_directory_document, sample_document]" by code_simp
  ultimately show ?thesis
    using graph_snapshot_complete [OF _ caught_up_recorded, of list_content two_env sample_fs undefined sample_policy empty_content "''content''"] by simp
qed

abbreviation (input) sample_index :: index_state where
  "sample_index \<equiv> [docid sample_directory_document \<mapsto> sample_directory_document, docid sample_document \<mapsto> sample_document]"

lemma sample_index_agrees: "index_agrees batch_env sample_index caught_up"
  unfolding index_agrees_def
proof
  fix k
  show "map_option (fp_of batch_env) (sample_index k) = projected batch_env caught_up k"
    using caught_up_documents(3,4) caught_up_other [of k] sample_document_ids
    by (cases "k \<in> {from_u128 10, from_u128 11}") auto
qed

lemma sample_entries_indexed:
  "index_document two_env sample_directory_document = Inr (sample_entries ! 0)"
  "index_document two_env sample_document = Inr (sample_entries ! 1)"
  by (simp_all add: sample_entries_def index_document_def Let_def two_env_def sample_catalog_env_def)

lemma sample_entries_eq: "sample_entries = [sample_entries ! 0, sample_entries ! 1]"
  by (simp add: sample_entries_def)

lemma sample_entries_represent: "represents two_env (tv_documents named_tantivy sample_entries) sample_index"
  unfolding represents_def
proof (intro exI [of _ "[sample_directory_document, sample_document]"] conjI)
  show "list_all2 (\<lambda>td d. index_document two_env d = Inr td) (tv_documents named_tantivy sample_entries)
      [sample_directory_document, sample_document]"
    using sample_entries_indexed by (subst sample_entries_eq) (simp add: named_tantivy_def list_tantivy_def)
qed (use sample_document_ids in \<open>auto simp: document_map_def\<close>)

lemma sample_service_ok: "service_ok named_tantivy batch_env two_env sample_service"
proof -
  have none: "filter (\<lambda>r. 2 < ob_sequence r) (graph_projection_outbox caught_up) = []"
    using caught_up_ok caught_up_tables(3)
    by (auto simp: graph_ok_def store_ok_def outbox_ok_def filter_empty_conv not_less)
  have "index_lags named_tantivy batch_env two_env caught_up sample_entries"
    unfolding index_lags_def
    by (intro exI [of _ "\<lparr>c_consumer_id = CATALOG_SCHEMA_ID, c_last_sequence = 2, c_index_generation = 1\<rparr>"] exI [of _ sample_index]
        exI [of _ "[]"] conjI caught_up_tables(1) sample_entries_represent)
       (use none sample_index_agrees in simp_all)
  then show ?thesis
    using caught_up_ok by (auto simp: service_ok_def catalog_consistent_def sample_service_def split: sum.splits)
       (simp add: active_index_ok [OF caught_up_ok] caught_up_tables sample_root_def catalog_open_def)
qed

lemma sample_checkpoint_row:
  "projector_checkpoint caught_up CATALOG_SCHEMA_ID = Inr (Some \<lparr>pr_consumer_id = CATALOG_SCHEMA_ID, pr_last_sequence = 2,
     pr_index_generation = 1\<rparr>)"
  "latest_outbox_sequence caught_up = Inr (MutationSeq 2)"
  by (simp_all add: projector_checkpoint_ok [OF caught_up_ok] latest_outbox_sequence_ok [OF caught_up_ok] caught_up_tables)

lemma sample_root_opens: "catalog_open sample_root (generation_path 1) = Inr sample_entries"
  by (simp add: catalog_open_def sample_root_def)

lemma sample_service_run:
  "run named_tantivy batch_env two_env sample_io opts (\<lambda>_. 0) caught_up sample_root = Some (caught_up, sample_root,
     Inr \<lparr>ps_recovery = ExistingGeneration, ps_index_generation = 1, ps_committed_batches = 0, ps_applied_mutations = 0,
          ps_applied_sequence = 2, ps_backlog_remaining = False\<rparr>)"
proof -
  have none: "filter (\<lambda>r. 2 < ob_sequence r) (graph_projection_outbox caught_up) = []"
    using caught_up_ok caught_up_tables(3)
    by (auto simp: graph_ok_def store_ok_def outbox_ok_def filter_empty_conv not_less)
  then have "read_outbox batch_env caught_up (Some (MutationSeq 2)) n = Inr \<lparr>mb_mutations = []\<rparr>" for n
    by (simp add: read_outbox_def tbl_scan_def i64_try_from_u64_def i64_max_def)
  then have "run_batch named_tantivy batch_env two_env opts 1 caught_up sample_root = (caught_up, sample_root, Inr None)"
    by (simp add: run_batch_def sample_checkpoint_row)
  then have "run_loop named_tantivy batch_env two_env opts (\<lambda>_. 0) 1 n caught_up sample_root 0 = (caught_up, sample_root, Inr (n, 0))" for n
    by (cases n) simp_all
  moreover have "recover named_tantivy batch_env two_env sample_io opts caught_up sample_root
      = Some (caught_up, sample_root, Inr (ExistingGeneration, 1))"
    by (simp add: recover_def sample_checkpoint_row sample_root_opens)
  ultimately show ?thesis by (simp add: run_def run_summary_def sample_checkpoint_row sample_io_def)
qed

definition sample_governor :: ResourceGovernor where
  "sample_governor = report_backlog (new_governor default_config) 0"

lemma sample_decision: "maintenance_decision False sample_service = Inr (sample_governor, decision sample_governor)"
  by (simp add: maintenance_decision_def sample_service_def sample_checkpoint_row redact_def applied_sequence_def saturating_sub_def
      projection_refresh_maintenance_pending_def caught_up_tables sample_governor_def Let_def)

lemma sample_not_paused: "\<not> background_paused (dec_budget (decision sample_governor))"
  by (simp add: sample_governor_def report_backlog_def new_governor_def decision_def get_indexing_budget_def)

lemma sample_refresh: "0 < n \<Longrightarrow> refresh_rounds batch_env n rounds caught_up = (caught_up, Inr ())"
  by (induction rounds)
     (simp_all add: refresh_volume_projection_def refresh_projection_paths_def caught_up_tables tbl_scan_def default_refresh_summary_def)

lemma sample_maintenance:
  "\<exists>status. maintain_projection_inner named_tantivy batch_env two_env all_ok False sample_service
     = Some (sample_service\<lparr>ag_governor := sample_governor\<rparr>, Inr status) \<and> is_backlog_mutations status = 0"
proof -
  have retry: "run_projection_with_retry named_tantivy batch_env two_env all_ok opts caught_up sample_root = Some (caught_up, sample_root,
     Inr \<lparr>ps_recovery = ExistingGeneration, ps_index_generation = 1, ps_committed_batches = 0, ps_applied_mutations = 0,
          ps_applied_sequence = 2, ps_backlog_remaining = False\<rparr>)" for opts
  proof -
    have "MAX_ATTEMPTS = Suc 49" by (simp add: MAX_ATTEMPTS_def)
    then have "run_projection_with_retry named_tantivy batch_env two_env all_ok opts caught_up sample_root
        = retry_projection named_tantivy batch_env two_env all_ok opts (Suc 49) caught_up sample_root"
      by (simp only: run_projection_with_retry_def)
    then show ?thesis by (simp only: retry_projection.simps) (simp add: sample_service_run)
  qed
  have active: "active_index caught_up sample_root = Inr sample_entries"
    by (simp add: active_index_ok [OF caught_up_ok] caught_up_tables sample_root_opens)
  show ?thesis
    using sample_not_paused
    by (simp add: maintain_projection_inner_def sample_decision Let_def)
       (simp add: project_and_refresh_def sample_service_def sample_refresh retry refresh_catalog_reader_def active redact_def
         index_status_def query_state_def index_status_from_state_def sample_checkpoint_row applied_sequence_def saturating_sub_def)
qed

definition sample_request :: AgentRequest where
  "sample_request = \<lparr>rq_protocol_version = 2, rq_codec_version = 1, rq_request_id = ''r1'', rq_deadline_ms = 0,
     rq_operation = CatalogSearch sample_search\<rparr>"

lemma two_normalize [simp]: "normalize two_env s = chars s"
  by (simp add: normalize_def two_env_def sample_catalog_env_def)

lemma two_candidates:
  "search_candidate_documents named_tantivy two_env sample_entries ''a.txt'' QueryExact 400 = Inr [sample_document]"
  "m \<noteq> QueryExact \<Longrightarrow> search_candidate_documents named_tantivy two_env sample_entries ''a.txt'' m 399 = Inr []"
proof -
  have pay: "stored_payload two_env (sample_entries ! 1) = Inr sample_document"
    using index_document_payload [OF sample_entries_indexed(2)] two_env_json
    by (simp add: stored_payload_def document_json_round_trip_def)
  have name: "td_exact_name (sample_entries ! 1) = ''a.txt''" "td_exact_name (sample_entries ! 0) \<noteq> ''a.txt''"
    using index_document_exact_name [OF sample_entries_indexed(2)] index_document_exact_name [OF sample_entries_indexed(1)]
    by (simp_all add: sample_document_def sample_query_chars sample_directory_document_def chars_def string_of_def utf8_encode_def char_of_eq_iff)
  then have "filter (\<lambda>d. td_exact_name d = ''a.txt'') sample_entries = [sample_entries ! 1]"
    by (subst sample_entries_eq) simp
  then show "search_candidate_documents named_tantivy two_env sample_entries ''a.txt'' QueryExact 400 = Inr [sample_document]"
    using pay
    by (simp add: search_candidate_documents_def candidate_addresses_def candidate_query_def Let_def sample_query_chars named_tantivy_def)
  show "m \<noteq> QueryExact \<Longrightarrow> search_candidate_documents named_tantivy two_env sample_entries ''a.txt'' m 399 = Inr []"
    by (cases m) (simp_all add: search_candidate_documents_def candidate_addresses_def candidate_query_def Let_def
        sample_query_chars named_tantivy_def list_tantivy_def grams_def)
qed

lemma sample_dispatch:
  "\<exists>svc' response found. dispatch_cancellable named_tantivy batch_env two_env service_content all_ok idle_clock sample_request
       (sample_service\<lparr>ag_governor := g\<rparr>) = (svc', response)
     \<and> rs_result response = Some (SearchPayload found) \<and> resp_hits found = [hit_of (0, ExactName, sample_document)]"
proof -
  have "\<exists>found. search_documents named_tantivy two_env sample_entries (IndexGeneration 1) idle_clock sample_search 2000 = Inr found
      \<and> resp_hits found = [hit_of (0, ExactName, sample_document)]"
    by (rule sample_search_result) (simp_all add: two_candidates fun_eq_iff)
  then obtain found where found: "search_documents named_tantivy two_env sample_entries (IndexGeneration 1) idle_clock sample_search 2000
      = Inr found" "resp_hits found = [hit_of (0, ExactName, sample_document)]" by blast
  have valid: "request_validate sample_request = Inr ()"
    by (simp add: request_validate_iff sample_request_def sample_search_def)
  have ms: "effective_deadline_ms sample_request = 2000"
    by (simp add: effective_deadline_ms_def sample_request_def DEFAULT_DEADLINE_MS_def)
  show ?thesis
    using found valid
    by (simp add: dispatch_cancellable_def perform_def sample_request_def [THEN arg_cong [where f = rq_operation]] ms search_impl_def
        require_capability_cases sample_service_def v0_1_metadata_def Let_def map_payload_def response_success_def)
qed

lemma sample_unused: "unused_from (2 ^ 63) sample_root"
  by (auto simp: unused_from_def sample_root_def)

lemma sample_cycle_current: "recorded_current batch_env (refreshed batch_env (decision sample_governor) sample_service)"
  using caught_up_recorded by (simp add: refreshed_def sample_service_def sample_refresh)


theorem dispatch_contract_witness:
  "\<exists>svc' response. dispatch_cancellable named_tantivy batch_env two_env service_content all_ok idle_clock sample_request
       (sample_service\<lparr>ag_granted := {}\<rparr>) = (svc', response)
     \<and> svc' = sample_service\<lparr>ag_granted := {}\<rparr> \<and> rs_error response = Some forbidden \<and> response_validate response = Inr ()"
proof -
  obtain svc' response where d: "dispatch_cancellable named_tantivy batch_env two_env service_content all_ok idle_clock sample_request
       (sample_service\<lparr>ag_granted := {}\<rparr>) = (svc', response)" by fastforce
  have "request_validate sample_request = Inr ()"
    by (simp add: request_validate_iff sample_request_def sample_search_def)
  moreover have "\<not> permitted (sample_service\<lparr>ag_granted := {}\<rparr>) (rq_operation sample_request)"
    by (simp add: permitted_def operation_capability_def sample_request_def)
  ultimately show ?thesis using dispatch_contract [OF d] d by simp
qed

lemma read_no_file: "read_json je vc no_file = Inl ContentIo"
  by (simp add: read_json_def current_envelopes_def durable_slots_def no_file_def List.map_filter_simps checked_envelope_def)



definition content_service :: "(TantivyDocument list, ContentEntry list) agent_service" where
  "content_service = sample_service\<lparr>ag_content_reader := Some \<lparr>rd_managed = True, rd_path = ''old''\<rparr>, ag_content_root := sample_content_root\<rparr>"

definition one_content :: "(ContentEntry list, ContentEntry list, ActiveGenerationPointer + ContentGenerationRecord) content_system" where
  "one_content = service_content\<lparr>sy_cenv := one_document_env\<rparr>"

lemma one_content_simps [simp]:
  "sy_tantivy one_content = list_content" "sy_cenv one_content = one_document_env" "sy_is_whitespace one_content = (\<lambda>c. c = 32)"
  "sy_json one_content = sample_json" "sy_root one_content = ''r''"
  by (simp_all add: one_content_def service_content_def sample_system_def)

lemma sample_content_found: "content_search list_content one_document_env (\<lambda>c. c = 32) [sample_content_entry] ''hi'' 5 = Inr [sample_document]"
proof -
  have "trim (\<lambda>c. c = 32) ''hi'' = ''hi''"
    by (simp add: trim_def chars_def string_of_def utf8_encode_def char_of_eq_iff)
  then show ?thesis
    by (simp add: content_search_def Let_def with_single_token_prefix_def chars_def MIN_CONTENT_PREFIX_CHARS_def bounded_unscored_def
        stored_content_def) (simp add: list_content_def sample_content_entry_def one_document_env_def sample_catalog_env_def)
qed

lemma sample_resolved: "resolve_active_index sample_json ''r'' sample_content_root = Inr (index_path ''r'' ''generation-a'')"
proof (rule resolve_active)
  show "active_index_path sample_json ''r'' sample_content_root = Inr (index_path ''r'' ''generation-a'')"
    using sample_name by (simp add: active_index_path_def sample_reads sample_pointer_def GENERATION_MANAGER_VERSION_def)
  show "\<not> has_schema_marker (mg_store sample_content_root) ''r''" "mg_marker sample_content_root = Some CONTENT_SCHEMA_ID"
    by (simp_all add: has_schema_marker_def sample_content_root_def index_path_def)
qed

theorem content_search_serves_active_witness:
  "\<exists>svc' response. content_search_impl batch_env one_content all_ok content_service idle_clock ''hi'' 5 1000 = (svc', Inr response)
     \<and> map ch_item (cr_hits response) = [item_from_document sample_document]"
proof -
  let ?path = "index_path ''r'' ''generation-a''"
  have index: "Option.bind (mg_store sample_content_root ?path) cd_index = Some [sample_content_entry]"
      "open_index list_content (mg_store sample_content_root) ?path = Inr [sample_content_entry]"
    by (simp_all add: sample_content_root_def open_index_def)
  have reader: "ag_content_reader content_service = Some \<lparr>rd_managed = True, rd_path = ''old''\<rparr>" "ag_content_root content_service = sample_content_root"
      "ag_graph content_service = caught_up"
    by (simp_all add: content_service_def sample_service_def)
  have moved: "current_state list_content sample_json ''r'' sample_content_root \<lparr>rd_managed = True, rd_path = ''old''\<rparr>
      = Inr \<lparr>rd_managed = True, rd_path = ?path\<rparr>"
    by (simp add: current_state_def sample_resolved index)
  have query: "reader_search list_content one_document_env (\<lambda>c. c = 32) sample_json ''r'' sample_content_root \<lparr>rd_managed = True, rd_path = ''old''\<rparr> ''hi'' 5
      = (\<lparr>rd_managed = True, rd_path = ?path\<rparr>, Inr [sample_document])"
    using sample_content_found
    by (simp add: reader_search_def moved reload_def index Let_def) (simp add: content_search_def Let_def split: if_splits)
  have clock: "check_request idle_clock (deadline_nanos 1000) n = Inr ()" if "n \<le> 2" for n
    using that by (simp add: check_request_def idle_clock_def deadline_nanos_def)
  have current: "desired_catalog_document batch_env caught_up (docid sample_document) = Inr (Some sample_document)"
    using caught_up_documents(2) sample_document_ids(2) by simp
  have "\<exists>svc' response. content_search_impl batch_env one_content all_ok content_service idle_clock ''hi'' 5 1000 = (svc', Inr response)"
    by (simp add: content_search_impl_def Let_def clock reader query redact_def current MAX_TOP_K_def)
  then obtain svc' response where run: "content_search_impl batch_env one_content all_ok content_service idle_clock ''hi'' 5 1000 = (svc', Inr response)"
    by blast
  from content_search_serves_active [OF run] obtain reader' i where i: "rd_path reader' = ?path" "reload sample_content_root reader' = Inr i"
      "\<exists>cs. content_search list_content one_document_env (\<lambda>c. c = 32) i ''hi'' 5 = Inr cs
         \<and> map ch_item (cr_hits response) = List.map_filter (current_item batch_env caught_up) cs"
    by (auto simp: reader sample_resolved MAX_TOP_K_def)
  have "i = [sample_content_entry]" using i(1,2) index(1) by (simp add: reload_def)
  then show ?thesis
    using i(3) run sample_content_found current by (auto simp: current_item_def List.map_filter_simps)
qed

end
