(* ===== verification/Spec2Isabelle.thy ===== *)
theory Spec2Isabelle
  imports Governor Agent_Observation Agent_Service
begin

text \<open>
  A verification development for LocalSearch, a local filename, path and content search engine.

  \<^bold>\<open>The program.\<close> A filesystem provider (\<open>crates/windows-fs\<close>) reports volumes, objects and namespace links
  together with an opaque checkpoint. It runs in an elevated broker process (\<open>crates/fs-service\<close>) that answers a
  metadata-only protocol (\<open>crates/broker-api\<close>); the Agent reaches it through a client that is a provider again
  (\<open>crates/broker-client\<close>). The durable graph (\<open>crates/filesystem-graph\<close>) stores them in SQLite, derives one
  desired catalog document per link and queues the difference in a transactional outbox. Two consumers read that
  outbox: the projection worker of the catalog (\<open>crates/catalog-index\<close>) and the projection of the opt-in content index
  (\<open>crates/content-index\<close>); each commits to a Tantivy index and only then acknowledges, and the graph
  prunes what every consumer has read. The Agent (\<open>crates/agent\<close>) drives observation, projection and maintenance under the
  budget of the resource governor (\<open>crates/resource-governor\<close>) and answers requests of the Agent API
  (\<open>crates/agent-api\<close>).

  \<^bold>\<open>Theories and sources.\<close> Paths are relative to \<open>src/crates\<close>.
  \<^item> \<open>Prelude\<close>: machine integers, \<open>Result\<close>, checked conversions and list lemmas. \<open>Unicode\<close>: \<open>char\<close>, UTF-8 and UTF-16.
  \<^item> \<open>Ids\<close> (\<open>core/src/ids.rs\<close>): 128-bit identifiers, their text form and its parser.
  \<^item> \<open>Core_Models\<close> (\<open>core/src/models.rs\<close>, \<open>versions.rs\<close>, \<open>errors.rs\<close>): the domain types and the
    validation of mutation batches.
  \<^item> \<open>Governor\<close> (\<open>resource-governor/src/lib.rs\<close>, \<open>platform-core/src/resources.rs\<close>): the governor as a
    state machine over reports.
  \<^item> \<open>Sql_Table\<close>: tables as row lists, the statements issued on them, and two interfaces: \<open>sql_table\<close>
    (a keyed table under upsert, update and delete) and \<open>keyset_scan\<close> (paging by the last key).
  \<^item> \<open>Graph_Domain\<close> (\<open>filesystem-graph/src/domain.rs\<close>, \<open>error.rs\<close>): graph mutations and batches.
  \<^item> \<open>Graph_Store\<close> (\<open>filesystem-graph/src/migrations.rs\<close>, \<open>store.rs\<close>): the schema as the record
    \<open>graph_db\<close> and each statement that changes graph rows.
  \<^item> \<open>Graph_Projection\<close>, \<open>Graph_Ingest\<close>, \<open>Graph_Outbox\<close>, \<open>Graph_Observation\<close> (\<open>store.rs\<close>): path resolution, desired documents
    and the outbox; batches and snapshots as transactions; consumers, pruning, compaction, refresh jobs,
    statistics and audit; restart-safe observation scans.
  \<^item> \<open>Catalog_Index\<close> (\<open>catalog-index/src/index.rs\<close>): the searchable form of documents, writer, reader, fingerprint.
  \<^item> \<open>Projector\<close> (\<open>catalog-index/src/projector.rs\<close>): recovery, rebuild and the bounded outbox loop.
  \<^item> \<open>Pipeline\<close>: graph and catalog as one system, every public operation a step.
  \<^item> \<open>Content_Index\<close>, \<open>Content_Store\<close>, \<open>Content_Generation\<close> (\<open>content-index/src/lib.rs\<close>): policy, extraction, snapshot and delta
    synchronisation, projection and search; two-slot durable JSON files; generations, their recovery, activation,
    garbage collection, readers and the projection worker of a workspace.
  \<^item> \<open>Usn_Record\<close>, \<open>Windows_Checkpoint\<close>, \<open>Windows_Changes\<close>, \<open>Windows_Scan\<close> (\<open>windows-fs/src/record.rs\<close>, \<open>checkpoint.rs\<close>,
    \<open>journal.rs\<close>, \<open>provider.rs\<close>, and the contracts of \<open>platform-core\<close>): journal pages, checkpoints and their link memory,
    bounded change reads, discovery and scans.
  \<^item> \<open>Broker_Api\<close>, \<open>Broker_Service\<close>, \<open>Broker_Client\<close> (\<open>broker-api/src/lib.rs\<close>, \<open>fs-service/src/lib.rs\<close>, \<open>broker-client/src/lib.rs\<close>): the
    messages and frames; the replay window, scan workers behind bounded queues and the dispatcher; request numbering, paged
    scans and incremental reads over a transport.
  \<^item> \<open>Agent_Observation\<close> (\<open>agent/src/observation.rs\<close>): the controller that visits volumes and commits what a source reports.
  \<^item> \<open>Agent_Api\<close> (\<open>agent-api/src\<close>): requests, responses, their validation and frames.
  \<^item> \<open>Agent_Search\<close>, \<open>Agent_Service\<close> (\<open>agent/src/service.rs\<close>): the search pipeline; opening, maintenance, dispatch.

  \<^bold>\<open>State and effects.\<close> A \<open>&mut self\<close> method is a function from the old record to the new one. A method
  of the graph returns the database afterwards with its \<open>Result\<close>; inside a transaction an error
  carries no database, and \<open>transact\<close> restores the one before, which is SQLite's rollback. SQLite
  itself is modelled by the tables, keys, unique indexes, foreign keys and CHECK clauses the schema
  declares; I/O failures of SQLite are outside the model. Directories are finite maps from paths to their
  contents, and each call that can fail there takes its outcome from a parameter, so an error or a crash is possible at
  every write. Operations of the generation manager are functions on \<open>content_root\<close> composed by
  \<open>seq_m\<close>, with a tick that lets every call of the outside world answer differently. A scan worker of the broker is a producer with a
  bounded queue; how many messages it sends between two reads of the queue is a parameter, so every interleaving of the worker and
  its reader is covered.

  \<^bold>\<open>Parameters.\<close> Code outside the repository is a field of a record: JSON, SHA-256 and lower-casing in \<open>graph_env\<close>
  and \<open>catalog_env\<close>, Tantivy in \<open>tantivy\<close> and \<open>content_tantivy\<close>, files and directories in \<open>worker_io\<close>, \<open>content_fs\<close>,
  \<open>content_world\<close> and \<open>fs_view\<close>, Win32 calls in \<open>journal_device\<close> and \<open>scan_env\<close>, JSON values in \<open>json_env\<close>,
  \<open>value_codec\<close>, \<open>checkpoint_json\<close> and \<open>wire_json\<close>, the provider of the broker in \<open>broker_provider\<close> (\<open>windows_provider\<close> is the
  modelled one), the connection of its client in \<open>transport\<close>, the source of the controller in \<open>observation_source\<close>
  (\<open>broker_source\<close> is the modelled one), and the clock and cancellation of a request in
  \<open>request_clock\<close>. What is relied on of them is a named premise (\<open>json_round_trip\<close>, \<open>document_json_round_trip\<close>,
  \<open>tantivy_laws\<close>, \<open>content_laws\<close>, \<open>envelope_laws\<close>, \<open>codec_laws\<close>, \<open>torn_detected\<close> and so on); each has a concrete
  instance, on which the witnesses run.

  \<^bold>\<open>What is shown.\<close>
  \<^item> Graph: every batch keeps the schema and leaves desired documents in agreement with the graph; \<open>resolve_path\<close> is
    characterised in both directions; scans remove only what no page reported, and finalisation ends.
  \<^item> Outbox and indexes: replaying the appended rows carries an agreeing index along; pruning never takes an unread row; in
    every reachable state of the whole system both indexes lag the graph by exactly their unread rows, whatever
    fails; a run without backlog leaves an index that holds exactly the recorded content.
  \<^item> Content: nothing outside the opted-in roots or above the size limit is stored, deltas are idempotent, a full
    synchronisation is a delta, state files survive a torn write, the active generation survives building,
    recovery and garbage collection.
  \<^item> Provider: journal pages are decoded totally and inversely to their layout, bounded reads split the stream without loss
    or repetition, gaps are reported, renames keep identities, scans are complete.
  \<^item> Broker: a scan or a bounded read through client and service is the provider's own, however the worker and the reader
    interleave; responses satisfy the contract; the replay window implements its specification, and refuses a restarted client.
  \<^item> Observation: whatever a source answers, the graph stays well formed and the catalog in step; changes are committed with the
    checkpoint they came with; lost history leads to reconciliation, except for two checkpoint errors the broker hides.
  \<^item> Agent: responses satisfy the contract, capabilities are enforced, hits are bounded, ranked and, after maintenance without
    backlog, current; a maintenance cycle keeps everything in step; opening recovers.
  \<^item> Governor: missing telemetry pauses background work; elevated work needs evidence.

  \<^bold>\<open>Termination and bounds.\<close> Loops with a bound of the source (depth limit, batches, attempts, refresh rounds, page sizes) recurse
  on it. Loops without one (rebuilding page by page, paging through the graph, the search for an unused generation, the
  projection loop, the client's scan) are partial functions into \<open>option\<close>, and each is shown to return, with the state it needs
  stated as a premise. The crawl recurses over a finite tree.

  \<^bold>\<open>Not modelled.\<close> Win32 calls themselves, named pipes and ACLs, Tantivy's segments and scoring, service control and
  the accept loop of the broker process, the MCP adapter, the desktop UI, command lines, benchmarks and spikes, poisoned locks, and SQLite's file format,
  pragmas and incremental migrations of older databases.
\<close>

end
